(* ===== verification/Prelude.thy ===== *)
theory Prelude
  imports Complex_Main "HOL-Library.AList" "HOL-Library.Multiset"
begin

text \<open>
  Shared ground of the development: the JavaScript library objects the controllers are
  built from (insertion-ordered \<open>Map\<close> and \<open>Set\<close>, stable \<open>Array.prototype.sort\<close>,
  string helpers, number formatting), the delivery of snapshots to listeners, and the two
  contracts every controller is checked against, as locales: \<open>component\<close> (every operation
  keeps an invariant, so every run does) and \<open>observable\<close> (a subscriber that keeps the last
  snapshot it was sent never shows a stale view).
\<close>

named_theorems jsmap "laws of the insertion-ordered Map and Set"
named_theorems ops "definitions of a component's operations"

section \<open>Map and Set with insertion order\<close>

text \<open>
  A \<open>Map\<close> iterates in the order its keys were first inserted; setting a present key keeps
  its position. That is an association list with distinct keys under \<open>AList.update\<close> and
  \<open>AList.delete\<close>. A \<open>Set\<close> is a distinct list under \<open>set_add\<close> and \<open>removeAll\<close>.
\<close>

type_synonym ('k, 'v) jsmap = "('k \<times> 'v) list"
type_synonym 'a jsset = "'a list"

abbreviation map_get :: "('k, 'v) jsmap \<Rightarrow> 'k \<Rightarrow> 'v option" where
  "map_get \<equiv> map_of"

abbreviation map_set :: "'k \<Rightarrow> 'v \<Rightarrow> ('k, 'v) jsmap \<Rightarrow> ('k, 'v) jsmap" where
  "map_set \<equiv> AList.update"

abbreviation map_del :: "'k \<Rightarrow> ('k, 'v) jsmap \<Rightarrow> ('k, 'v) jsmap" where
  "map_del \<equiv> AList.delete"

definition map_has :: "('k, 'v) jsmap \<Rightarrow> 'k \<Rightarrow> bool" where
  "map_has m k \<longleftrightarrow> map_of m k \<noteq> None"

abbreviation map_keys :: "('k, 'v) jsmap \<Rightarrow> 'k list" where
  "map_keys m \<equiv> map fst m"

abbreviation map_values :: "('k, 'v) jsmap \<Rightarrow> 'v list" where
  "map_values m \<equiv> map snd m"

definition set_add :: "'a \<Rightarrow> 'a jsset \<Rightarrow> 'a jsset" where
  "set_add x xs = (if x \<in> set xs then xs else xs @ [x])"

text \<open>\<open>new Set(iterable)\<close>: the first occurrence fixes the position.\<close>

definition set_from :: "'a list \<Rightarrow> 'a jsset" where
  "set_from xs = fold set_add xs []"

text \<open>\<open>new Map(pairs)\<close>.\<close>

definition map_from :: "('k \<times> 'v) list \<Rightarrow> ('k, 'v) jsmap" where
  "map_from ps = fold (\<lambda>(k, v). map_set k v) ps []"

lemma map_has_iff [jsmap]: "map_has m k \<longleftrightarrow> k \<in> set (map_keys m)"
  by (induction m) (auto simp: map_has_def)

lemma set_keys_update [jsmap]: "set (map_keys (map_set k v m)) = insert k (set (map_keys m))"
  by (induction m) auto

lemma image_keys_update [simp]: "fst ` set (map_set k v m) = insert k (fst ` set m)"
  using set_keys_update[of k v m] by simp

lemma keys_update_in [jsmap]: "k \<in> set (map_keys m) \<Longrightarrow> map_keys (map_set k v m) = map_keys m"
  by (induction m) auto

lemma update_append [jsmap]: "k \<notin> set (map_keys m) \<Longrightarrow> map_set k v m = m @ [(k, v)]"
  by (induction m) auto

lemma keys_delete [jsmap]: "map_keys (map_del k m) = removeAll k (map_keys m)"
  by (induction m) auto

lemma distinct_keys_update [simp]: "distinct (map_keys m) \<Longrightarrow> distinct (map_keys (map_set k v m))"
  by (cases "k \<in> set (map_keys m)") (auto simp: jsmap)

lemma distinct_keys_delete [simp]: "distinct (map_keys m) \<Longrightarrow> distinct (map_keys (map_del k m))"
  by (simp add: jsmap distinct_removeAll)

lemma map_of_update [jsmap, simp]:
  "map_of (map_set k v m) k' = (if k' = k then Some v else map_of m k')"
  by (simp add: update_conv)

lemma map_of_delete [jsmap, simp]:
  "map_of (map_del k m) k' = (if k' = k then None else map_of m k')"
  by (simp add: delete_conv)

lemma in_update_cases:
  "(a, b) \<in> set (map_set k v m) \<Longrightarrow> (a = k \<and> b = v) \<or> (a, b) \<in> set m"
  by (induction m) (auto split: if_splits)

lemma in_delete: "(a, b) \<in> set (map_del k m) \<longleftrightarrow> a \<noteq> k \<and> (a, b) \<in> set m"
  by (induction m) auto

lemma in_update_distinct:
  "distinct (map_keys m) \<Longrightarrow>
   (a, b) \<in> set (map_set k v m) \<longleftrightarrow> (a = k \<and> b = v) \<or> (a \<noteq> k \<and> (a, b) \<in> set m)"
  by (induction m) (auto simp: rev_image_eqI)

lemma image_keys_delete: "fst ` set (map_del k m) = fst ` set m - {k}"
  by (force simp: in_delete)

lemma delete_absent: "k \<notin> set (map_keys m) \<Longrightarrow> map_del k m = m"
  by (induction m) auto

lemma set_add_set [simp]: "set (set_add x xs) = insert x (set xs)"
  by (auto simp: set_add_def)

lemma set_add_distinct [simp]: "distinct xs \<Longrightarrow> distinct (set_add x xs)"
  by (auto simp: set_add_def)

lemma set_add_present [simp]: "x \<in> set xs \<Longrightarrow> set_add x xs = xs"
  by (simp add: set_add_def)

lemma fold_set_add_set: "set (fold set_add xs ys) = set ys \<union> set xs"
  by (induction xs arbitrary: ys) auto

lemma fold_set_add_distinct: "distinct ys \<Longrightarrow> distinct (fold set_add xs ys)"
  by (induction xs arbitrary: ys) auto

lemma set_from_set [simp]: "set (set_from xs) = set xs"
  by (simp add: set_from_def fold_set_add_set)

lemma set_from_distinct [simp]: "distinct (set_from xs)"
  by (simp add: set_from_def fold_set_add_distinct)

lemma fold_set_add_append:
  "distinct (ys @ xs) \<Longrightarrow> fold set_add xs ys = ys @ xs"
  by (induction xs arbitrary: ys) (auto simp: set_add_def)

lemma set_from_id: "distinct xs \<Longrightarrow> set_from xs = xs"
  using fold_set_add_append[of "[]" xs] by (simp add: set_from_def)

lemma fold_map_set_append:
  "distinct (map fst (m @ ps)) \<Longrightarrow> fold (\<lambda>(k, v). map_set k v) ps m = m @ ps"
proof (induction ps arbitrary: m)
  case (Cons p ps)
  obtain k v where p: "p = (k, v)" by (cases p)
  have "map_set k v m = m @ [(k, v)]" using Cons.prems by (simp add: p update_append)
  moreover have "distinct (map fst ((m @ [(k, v)]) @ ps))" using Cons.prems by (simp add: p)
  ultimately show ?case using Cons.IH[of "m @ [(k, v)]"] by (simp add: p)
qed simp

lemma map_from_distinct: "distinct (map fst ps) \<Longrightarrow> map_from ps = ps"
  using fold_map_set_append[of "[]" ps] by (simp add: map_from_def)

lemma map_of_key_values:
  "distinct (map f xs) \<Longrightarrow> map_of (map (\<lambda>x. (f x, x)) xs) k = Some x \<longleftrightarrow> x \<in> set xs \<and> f x = k"
  by (induction xs) (auto simp: rev_image_eqI)

lemma values_by_key: "distinct (map_keys m) \<Longrightarrow> map_values m = map (\<lambda>k. the (map_get m k)) (map_keys m)"
proof (induction m)
  case (Cons p m)
  then have "map_values m = map (\<lambda>k. the (map_get m k)) (map_keys m)" by simp
  also have "\<dots> = map (\<lambda>k. the (map_get (p # m) k)) (map_keys m)"
    using Cons.prems by (intro map_cong refl) (cases p, auto)
  finally show ?case by (cases p) simp
qed simp

lemma sorted_wrt_either: "sorted_wrt P xs \<Longrightarrow> x \<in> set xs \<Longrightarrow> y \<in> set xs \<Longrightarrow> x \<noteq> y \<Longrightarrow> P x y \<or> P y x"
  by (induction xs) auto

lemma distinct_mset_eq: "distinct xs \<Longrightarrow> distinct ys \<Longrightarrow> set xs = set ys \<Longrightarrow> mset xs = mset ys"
  by (simp add: set_eq_iff_mset_eq_distinct)

lemma set_map_filter_iff: "v \<in> set (List.map_filter f ks) \<longleftrightarrow> (\<exists>k\<in>set ks. f k = Some v)"
  by (induction ks) (auto simp: map_filter_simps split: option.split)

lemma distinct_map_filter_option:
  "distinct ks \<Longrightarrow> (\<And>j k v. j \<in> set ks \<Longrightarrow> k \<in> set ks \<Longrightarrow> f j = Some v \<Longrightarrow> f k = Some v \<Longrightarrow> j = k) \<Longrightarrow>
   distinct (List.map_filter f ks)"
proof (induction ks)
  case (Cons k ks)
  have "v \<notin> set (List.map_filter f ks)" if v: "f k = Some v" for v
  proof
    assume "v \<in> set (List.map_filter f ks)"
    then obtain j where "j \<in> set ks" "f j = Some v" by (auto simp: set_map_filter_iff)
    with v Cons.prems(2)[of j k v] Cons.prems(1) show False by simp
  qed
  moreover have "distinct (List.map_filter f ks)"
    using Cons.prems by (intro Cons.IH) auto
  ultimately show ?case by (auto simp: map_filter_simps split: option.split)
qed (simp add: map_filter_simps)

lemma map_filter_keys: "distinct (map_keys m) \<Longrightarrow> List.map_filter (map_get m) (map_keys m) = map_values m"
proof (induction m)
  case (Cons p m)
  have "List.map_filter f ks = List.map_filter g ks" if "\<forall>k\<in>set ks. f k = g k"
    for f g :: "'a \<Rightarrow> 'b option" and ks
    using that by (induction ks) (auto simp: map_filter_simps split: option.split)
  moreover have "\<forall>k\<in>set (map_keys m). map_get (p # m) k = map_get m k"
  proof
    fix k assume "k \<in> set (map_keys m)"
    with Cons.prems have "k \<noteq> fst p" by (metis distinct.simps(2) list.simps(9))
    then show "map_get (p # m) k = map_get m k" by simp
  qed
  ultimately have "List.map_filter (map_get (p # m)) (map_keys m) = List.map_filter (map_get m) (map_keys m)"
    by blast
  moreover have "List.map_filter (map_get m) (map_keys m) = map_values m"
    using Cons.IH Cons.prems by simp
  moreover have "map_keys (p # m) = fst p # map_keys m" "map_get (p # m) (fst p) = Some (snd p)" by simp_all
  ultimately show ?case by (simp only: map_filter_simps option.case list.map)
qed (simp add: map_filter_simps)

lemma delete_distinct_split:
  "distinct (map_keys (a @ (k, v) # b)) \<Longrightarrow> map_del k (a @ (k, v) # b) = a @ b"
  by (induction a) (auto simp: delete_absent)

section \<open>find, findIndex\<close>

text \<open>
  \<open>Array.prototype.find\<close> is \<open>List.find\<close>; \<open>findIndex\<close> answers -1 where nothing matches.
\<close>

fun find_from :: "nat \<Rightarrow> ('a \<Rightarrow> bool) \<Rightarrow> 'a list \<Rightarrow> int" where
  "find_from i P [] = -1"
| "find_from i P (x # xs) = (if P x then int i else find_from (Suc i) P xs)"

definition find_index :: "('a \<Rightarrow> bool) \<Rightarrow> 'a list \<Rightarrow> int" where
  "find_index P xs = find_from 0 P xs"

lemma find_from_spec:
  "(find_from i P xs = -1 \<and> (\<forall>x\<in>set xs. \<not> P x)) \<or>
   (\<exists>j. find_from i P xs = int (i + j) \<and> j < length xs \<and> P (xs ! j) \<and>
        (\<forall>k<j. \<not> P (xs ! k)))"
proof (induction xs arbitrary: i)
  case Nil
  then show ?case by simp
next
  case (Cons x xs)
  show ?case
  proof (cases "P x")
    case True
    then have "find_from i P (x # xs) = int (i + 0) \<and> 0 < length (x # xs) \<and> P ((x # xs) ! 0)"
      by simp
    then show ?thesis by blast
  next
    case False
    from Cons.IH[of "Suc i"] show ?thesis
    proof
      assume "find_from (Suc i) P xs = -1 \<and> (\<forall>x\<in>set xs. \<not> P x)"
      with False show ?thesis by simp
    next
      assume "\<exists>j. find_from (Suc i) P xs = int (Suc i + j) \<and> j < length xs \<and> P (xs ! j) \<and>
        (\<forall>k<j. \<not> P (xs ! k))"
      then obtain j where j: "find_from (Suc i) P xs = int (Suc i + j)" "j < length xs"
        "P (xs ! j)" "\<forall>k<j. \<not> P (xs ! k)" by blast
      have "\<forall>k<Suc j. \<not> P ((x # xs) ! k)"
        using False j(4) by (auto simp: nth_Cons split: nat.splits)
      with False j have "find_from i P (x # xs) = int (i + Suc j) \<and> Suc j < length (x # xs) \<and>
        P ((x # xs) ! Suc j) \<and> (\<forall>k<Suc j. \<not> P ((x # xs) ! k))" by simp
      then show ?thesis by blast
    qed
  qed
qed

lemma find_index_cases:
  obtains (absent) "find_index P xs = -1" "\<forall>x\<in>set xs. \<not> P x"
  | (at) j where "find_index P xs = int j" "j < length xs" "P (xs ! j)" "\<forall>k<j. \<not> P (xs ! k)"
  using find_from_spec[of 0 P xs] unfolding find_index_def by auto

lemma find_index_bound: "find_index P xs < int (length xs)"
  by (rule find_index_cases[of P xs]) auto

lemma find_index_nonneg: "0 \<le> find_index P xs \<longleftrightarrow> (\<exists>x\<in>set xs. P x)"
  by (rule find_index_cases[of P xs]) (auto simp: nth_mem)

lemma find_index_nth:
  "0 \<le> find_index P xs \<Longrightarrow> nat (find_index P xs) < length xs \<and> P (xs ! nat (find_index P xs))"
  by (rule find_index_cases[of P xs]) auto

lemma find_index_append:
  assumes "\<forall>x\<in>set pre. \<not> P x" and "P t"
  shows "find_index P (pre @ t # post) = int (length pre)"
proof (rule find_index_cases[of P "pre @ t # post"])
  fix j assume j: "find_index P (pre @ t # post) = int j" "P ((pre @ t # post) ! j)"
    "\<forall>k<j. \<not> P ((pre @ t # post) ! k)"
  have "\<not> j < length pre" using j(2) assms(1) by (auto simp: nth_append)
  moreover have "\<not> length pre < j" using j(3) assms(2) by auto
  ultimately show ?thesis using j(1) by simp
qed (use assms(2) in auto)

lemma find_Some_iff_ex: "(\<exists>y. List.find P xs = Some y) \<longleftrightarrow> (\<exists>x\<in>set xs. P x)"
  by (induction xs) auto

lemma find_Some_in: "List.find P xs = Some y \<Longrightarrow> y \<in> set xs \<and> P y"
  by (induction xs) (auto split: if_splits)

lemma find_None_iff_all: "List.find P xs = None \<longleftrightarrow> (\<forall>x\<in>set xs. \<not> P x)"
  by (induction xs) auto

lemma find_key_unique:
  "distinct (map f xs) \<Longrightarrow> x \<in> set xs \<Longrightarrow> List.find (\<lambda>y. f y = f x) xs = Some x"
  by (induction xs) (auto simp: rev_image_eqI)

lemma filter_key_unique:
  "distinct (map f xs) \<Longrightarrow> x \<in> set xs \<Longrightarrow> filter (\<lambda>y. f y = f x) xs = [x]"
proof (induction xs)
  case (Cons a xs)
  show ?case
  proof (cases "x = a")
    case True
    then have "filter (\<lambda>y. f y = f x) xs = []"
      using Cons.prems(1) by (auto simp: filter_empty_conv rev_image_eqI)
    with True show ?thesis by simp
  next
    case False
    with Cons show ?thesis by (auto simp: rev_image_eqI)
  qed
qed simp

text \<open>\<open>xs.splice(xs.indexOf(x), 1)\<close> when present: drop the first occurrence.\<close>

definition splice_out :: "'a \<Rightarrow> 'a list \<Rightarrow> 'a list" where
  "splice_out x xs =
     (let idx = find_index (\<lambda>y. y = x) xs in
      if idx \<ge> 0 then take (nat idx) xs @ drop (Suc (nat idx)) xs else xs)"

lemma splice_out_remove1: "splice_out x xs = remove1 x xs"
proof (cases "x \<in> set xs")
  case True
  then obtain a b where s: "xs = a @ x # b" "x \<notin> set a" by (meson split_list_first)
  then have "find_index (\<lambda>y. y = x) xs = int (length a)" by (auto intro!: find_index_append)
  with s show ?thesis by (simp add: splice_out_def remove1_append)
next
  case False
  then have "find_index (\<lambda>y. y = x) xs < 0"
    using find_index_nonneg[of "\<lambda>y. y = x" xs] by auto
  with False show ?thesis by (simp add: splice_out_def remove1_idem)
qed

text \<open>The list without its first element that satisfies \<open>P\<close>.\<close>

fun drop_first :: "('a \<Rightarrow> bool) \<Rightarrow> 'a list \<Rightarrow> 'a list" where
  "drop_first P [] = []"
| "drop_first P (x # xs) = (if P x then xs else x # drop_first P xs)"

lemma drop_first_none: "\<forall>x\<in>set xs. \<not> P x \<Longrightarrow> drop_first P xs = xs"
  by (induction xs) auto

lemma drop_first_split: "\<forall>x\<in>set a. \<not> P x \<Longrightarrow> P y \<Longrightarrow> drop_first P (a @ y # b) = a @ b"
  by (induction a) auto

lemma filter_drop_first: "filter P (drop_first P xs) = drop 1 (filter P xs)"
  by (induction xs) auto

lemma filter_not_drop_first: "filter (\<lambda>x. \<not> P x) (drop_first P xs) = filter (\<lambda>x. \<not> P x) xs"
  by (induction xs) auto

lemma funpow_drop_first:
  "filter P ((drop_first P ^^ n) xs) = drop n (filter P xs) \<and>
   filter (\<lambda>x. \<not> P x) ((drop_first P ^^ n) xs) = filter (\<lambda>x. \<not> P x) xs"
  by (induction n) (simp_all add: filter_drop_first filter_not_drop_first)

lemma set_funpow_drop_first: "set ((drop_first P ^^ n) xs) \<subseteq> set xs"
proof -
  have "set (drop_first P ys) \<subseteq> set ys" for ys by (induction ys) auto
  then show ?thesis by (induction n) (use order_trans in auto)
qed

text \<open>Finding a value through the keys of a \<open>Map\<close>, and deleting it.\<close>

lemma find_via_keys:
  assumes "distinct (map_keys m)"
  shows "List.find (\<lambda>k. case map_get m k of None \<Rightarrow> False | Some v \<Rightarrow> P v) (map_keys m) =
         map_option fst (List.find (\<lambda>p. P (snd p)) m)"
  using assms
proof (induction m)
  case (Cons p m)
  have "List.find (\<lambda>k. case map_get (p # m) k of None \<Rightarrow> False | Some v \<Rightarrow> P v) ks =
      List.find (\<lambda>k. case map_get m k of None \<Rightarrow> False | Some v \<Rightarrow> P v) ks" if "fst p \<notin> set ks" for ks
    using that by (induction ks) auto
  with Cons show ?case by simp
qed simp

lemma find_split:
  "List.find P xs = Some y \<Longrightarrow> \<exists>a b. xs = a @ y # b \<and> P y \<and> (\<forall>x\<in>set a. \<not> P x)"
proof (induction xs)
  case (Cons x xs)
  show ?case
  proof (cases "P x")
    case True
    with Cons.prems show ?thesis by (intro exI[of _ "[]"] exI[of _ xs]) auto
  next
    case False
    with Cons obtain a b where "xs = a @ y # b" "P y" "\<forall>x\<in>set a. \<not> P x" by auto
    with False show ?thesis by (intro exI[of _ "x # a"] exI[of _ b]) auto
  qed
qed simp

section \<open>Array.prototype.sort\<close>

text \<open>
  The engine's sort is stable and compares by the sign of the comparator. Insertion from
  the right is the stable sort with that result for every comparator that is a total
  preorder (\<open>comparator\<close>), which each use of the code interprets.
\<close>

fun js_insert :: "('a \<Rightarrow> 'a \<Rightarrow> int) \<Rightarrow> 'a \<Rightarrow> 'a list \<Rightarrow> 'a list" where
  "js_insert cmp x [] = [x]"
| "js_insert cmp x (y # ys) = (if cmp x y \<le> 0 then x # y # ys else y # js_insert cmp x ys)"

definition js_sort :: "('a \<Rightarrow> 'a \<Rightarrow> int) \<Rightarrow> 'a list \<Rightarrow> 'a list" where
  "js_sort cmp xs = foldr (js_insert cmp) xs []"

lemma js_sort_Nil [simp]: "js_sort cmp [] = []"
  by (simp add: js_sort_def)

lemma js_sort_Cons [simp]: "js_sort cmp (x # xs) = js_insert cmp x (js_sort cmp xs)"
  by (simp add: js_sort_def)

lemma mset_js_insert [simp]: "mset (js_insert cmp x xs) = add_mset x (mset xs)"
  by (induction xs) auto

lemma mset_js_sort [simp]: "mset (js_sort cmp xs) = mset xs"
  by (induction xs) auto

lemma set_js_insert [simp]: "set (js_insert cmp x xs) = insert x (set xs)"
  by (metis mset_js_insert set_mset_add_mset_insert set_mset_mset)

lemma set_js_sort [simp]: "set (js_sort cmp xs) = set xs"
  by (metis mset_js_sort set_mset_mset)

lemma length_js_sort [simp]: "length (js_sort cmp xs) = length xs"
  by (metis mset_js_sort size_mset)

lemma distinct_js_sort [simp]: "distinct (js_sort cmp xs) = distinct xs"
  by (metis mset_js_sort mset_eq_imp_distinct_iff)

lemma js_sort_eq_Nil [simp]: "js_sort cmp xs = [] \<longleftrightarrow> xs = []"
  by (metis length_js_sort length_0_conv)

lemma distinct_map_js_sort: "distinct (map f (js_sort cmp xs)) \<longleftrightarrow> distinct (map f xs)"
  by (metis mset_js_sort mset_map mset_eq_imp_distinct_iff)

text \<open>Only the answers on the elements themselves matter.\<close>

lemma js_insert_cong:
  "(\<And>y. y \<in> set xs \<Longrightarrow> cmp x y \<le> 0 \<longleftrightarrow> cmp' x y \<le> 0) \<Longrightarrow> js_insert cmp x xs = js_insert cmp' x xs"
  by (induction xs) auto

lemma js_sort_cong:
  "(\<And>x y. x \<in> set xs \<Longrightarrow> y \<in> set xs \<Longrightarrow> cmp x y \<le> 0 \<longleftrightarrow> cmp' x y \<le> 0) \<Longrightarrow>
   js_sort cmp xs = js_sort cmp' xs"
  by (induction xs) (auto intro!: js_insert_cong)

locale comparator =
  fixes cmp :: "'a \<Rightarrow> 'a \<Rightarrow> int"
  assumes cmp_swap: "cmp x y < 0 \<longleftrightarrow> 0 < cmp y x"
    and cmp_trans: "cmp x y \<le> 0 \<Longrightarrow> cmp y z \<le> 0 \<Longrightarrow> cmp x z \<le> 0"
begin

lemma cmp_total: "cmp x y \<le> 0 \<or> cmp y x \<le> 0"
  using cmp_swap[of x y] cmp_swap[of y x] by linarith

lemma cmp_gt: "\<not> cmp x y \<le> 0 \<Longrightarrow> cmp y x \<le> 0"
  using cmp_total by blast

lemma cmp_eq_sym: "cmp x y = 0 \<longleftrightarrow> cmp y x = 0"
  using cmp_swap[of x y] cmp_swap[of y x] by linarith

lemma js_insert_sorted:
  "sorted_wrt (\<lambda>a b. cmp a b \<le> 0) xs \<Longrightarrow> sorted_wrt (\<lambda>a b. cmp a b \<le> 0) (js_insert cmp x xs)"
  by (induction xs) (auto intro: cmp_trans cmp_gt)

lemma js_sort_sorted: "sorted_wrt (\<lambda>a b. cmp a b \<le> 0) (js_sort cmp xs)"
  by (induction xs) (auto intro: js_insert_sorted)

lemma js_insert_stable:
  assumes "sorted_wrt (\<lambda>a b. cmp a b \<le> 0) xs"
  shows "filter (\<lambda>y. cmp z y = 0) (js_insert cmp x xs) =
         (if cmp z x = 0 then x # filter (\<lambda>y. cmp z y = 0) xs else filter (\<lambda>y. cmp z y = 0) xs)"
  using assms
proof (induction xs)
  case Nil
  then show ?case by simp
next
  case (Cons y ys)
  show ?case
  proof (cases "cmp z x = 0 \<and> \<not> cmp x y \<le> 0 \<and> cmp z y = 0")
    case True
    then have "cmp x z \<le> 0" "cmp z y \<le> 0" using cmp_eq_sym[of z x] by auto
    with True show ?thesis using cmp_trans[of x z y] by simp
  next
    case False
    with Cons show ?thesis by auto
  qed
qed

lemma js_sort_stable: "filter (\<lambda>y. cmp z y = 0) (js_sort cmp xs) = filter (\<lambda>y. cmp z y = 0) xs"
  by (induction xs) (simp_all add: js_insert_stable js_sort_sorted)

lemma js_insert_le: "(\<And>y. y \<in> set xs \<Longrightarrow> cmp x y \<le> 0) \<Longrightarrow> js_insert cmp x xs = x # xs"
  by (cases xs) auto

text \<open>A sorted array is left as it is; sorting is idempotent.\<close>

lemma js_sort_id: "sorted_wrt (\<lambda>a b. cmp a b \<le> 0) xs \<Longrightarrow> js_sort cmp xs = xs"
  by (induction xs) (auto simp: js_insert_le)

lemma js_sort_idem: "js_sort cmp (js_sort cmp xs) = js_sort cmp xs"
  by (rule js_sort_id [OF js_sort_sorted])

lemma hd_js_sort_le: "x \<in> set xs \<Longrightarrow> cmp (hd (js_sort cmp xs)) x \<le> 0"
proof -
  assume x: "x \<in> set xs"
  have refl: "cmp y y \<le> 0" for y using cmp_total[of y y] by simp
  obtain y ys where s: "js_sort cmp xs = y # ys" using x by (cases "js_sort cmp xs") auto
  have "x \<in> set (y # ys)" using x by (metis s set_js_sort)
  moreover have "\<forall>z\<in>set ys. cmp y z \<le> 0" using js_sort_sorted[of xs] s by simp
  ultimately show ?thesis using s refl by auto
qed

end

text \<open>Comparators are built from a number order, a key and a tie-break.\<close>

definition num_cmp :: "'n::linorder \<Rightarrow> 'n \<Rightarrow> int" where
  "num_cmp a b = (if a < b then -1 else if b < a then 1 else 0)"

lemma comparator_num: "comparator (num_cmp :: 'n::linorder \<Rightarrow> 'n \<Rightarrow> int)"
  by unfold_locales (auto simp: num_cmp_def split: if_splits)

lemma comparator_key: "comparator cmp \<Longrightarrow> comparator (\<lambda>a b. cmp (f a) (f b))"
  by (simp add: comparator_def)

lemma comparator_flip: "comparator cmp \<Longrightarrow> comparator (\<lambda>a b. cmp b a)"
  unfolding comparator_def by blast

text \<open>Compare by the first comparator, and by the second where it answers 0.\<close>

definition then_cmp :: "('a \<Rightarrow> 'a \<Rightarrow> int) \<Rightarrow> ('a \<Rightarrow> 'a \<Rightarrow> int) \<Rightarrow> 'a \<Rightarrow> 'a \<Rightarrow> int" where
  "then_cmp f g a b = (if f a b \<noteq> 0 then f a b else g a b)"

lemma comparator_then:
  assumes f: "comparator f" and g: "comparator g"
  shows "comparator (then_cmp f g)"
proof
  note fs = comparator.cmp_swap[OF f] and ft = comparator.cmp_trans[OF f]
  note gs = comparator.cmp_swap[OF g] and gt = comparator.cmp_trans[OF g]
  show "then_cmp f g x y < 0 \<longleftrightarrow> 0 < then_cmp f g y x" for x y
    using fs[of x y] fs[of y x] gs[of x y] by (auto simp: then_cmp_def)
  show "then_cmp f g x z \<le> 0" if xy: "then_cmp f g x y \<le> 0" and yz: "then_cmp f g y z \<le> 0"
    for x y z
  proof (cases "f x z = 0")
    case False
    have "f x y \<le> 0" "f y z \<le> 0" using xy yz by (auto simp: then_cmp_def split: if_splits)
    then show ?thesis using ft False by (auto simp: then_cmp_def)
  next
    case True
    have le: "f x y \<le> 0" "f y z \<le> 0" using xy yz by (auto simp: then_cmp_def split: if_splits)
    have zx: "f z x \<le> 0" "f x z \<le> 0" using True fs[of x z] by auto
    have "f y x \<le> 0" "f z y \<le> 0" using ft[OF le(2) zx(1)] ft[OF zx(1) le(1)] by auto
    then have "f x y = 0" "f y z = 0" using le fs[of x y] fs[of y z] by auto
    then show ?thesis using True xy yz gt by (auto simp: then_cmp_def)
  qed
qed

section \<open>Numbers that may not be finite\<close>

datatype jsnum = NaN | PosInf | NegInf | Num rat

text \<open>\<open>Number.isFinite\<close>, and \<open>Number.isSafeInteger\<close> with the integer it accepts.\<close>

definition finite_num :: "jsnum \<Rightarrow> rat option" where
  "finite_num v = (case v of Num x \<Rightarrow> Some x | _ \<Rightarrow> None)"

definition safe_integer :: "jsnum \<Rightarrow> int option" where
  "safe_integer v =
     (case v of
        Num x \<Rightarrow> if x = rat_of_int \<lfloor>x\<rfloor> \<and> \<bar>\<lfloor>x\<rfloor>\<bar> \<le> 2 ^ 53 - 1 then Some \<lfloor>x\<rfloor> else None
      | _ \<Rightarrow> None)"

lemma safe_integer_Num [simp]: "safe_integer (Num (rat_of_int i)) = (if \<bar>i\<bar> \<le> 2 ^ 53 - 1 then Some i else None)"
  by (simp add: safe_integer_def)

end
