(* ===== verification/Js_Text.thy ===== *)
theory Js_Text
  imports Prelude "HOL-Library.Word"
begin

text \<open>
  JavaScript strings and number formatting, as far as the controllers use them. A string is
  a list of code units; \<open>char\<close> holds the units 0 to 255, so the model covers Latin-1 text.
  \<open>to_lower\<close>, \<open>trim\<close> and the white-space class are the library's on that range.
\<close>

abbreviation char_code :: "char \<Rightarrow> nat" where
  "char_code c \<equiv> of_char c"

section \<open>Template literals: numbers as text\<close>

definition digit_char :: "nat \<Rightarrow> char" where
  "digit_char d = char_of (48 + d)"

fun show_nat :: "nat \<Rightarrow> string" where
  "show_nat n = (if n < 10 then [digit_char n] else show_nat (n div 10) @ [digit_char (n mod 10)])"

declare show_nat.simps [simp del]

definition show_int :: "int \<Rightarrow> string" where
  "show_int i = (if i < 0 then CHR ''-'' # show_nat (nat (- i)) else show_nat (nat i))"

definition digits_val :: "string \<Rightarrow> nat" where
  "digits_val s = foldl (\<lambda>n c. 10 * n + (char_code c - 48)) 0 s"

lemma char_code_digit: "d < 10 \<Longrightarrow> char_code (digit_char d) = 48 + d"
  by (simp add: digit_char_def)

lemma digits_val_show_nat [simp]: "digits_val (show_nat n) = n"
proof (induction n rule: show_nat.induct)
  case (1 n)
  show ?case
  proof (cases "n < 10")
    case True
    then show ?thesis by (subst show_nat.simps) (simp add: digits_val_def char_code_digit)
  next
    case False
    have "n mod 10 < 10" by simp
    with False 1 show ?thesis
      by (subst show_nat.simps) (simp add: digits_val_def char_code_digit)
  qed
qed

lemma show_nat_inject [simp]: "show_nat m = show_nat n \<longleftrightarrow> m = n"
  by (metis digits_val_show_nat)

lemma show_nat_digits: "c \<in> set (show_nat n) \<Longrightarrow> 48 \<le> char_code c \<and> char_code c < 58"
proof (induction n rule: show_nat.induct)
  case (1 n)
  have "n mod 10 < 10" by simp
  with 1 show ?case
    by (subst (asm) (2) show_nat.simps) (auto simp: char_code_digit split: if_splits)
qed

lemma show_nat_not_dash: "CHR ''-'' \<notin> set (show_nat n)"
  using show_nat_digits[of "CHR ''-''" n] by auto

lemma show_nat_ne [simp]: "show_nat n \<noteq> []"
  by (subst show_nat.simps) simp

lemma show_nat_not_colon: "CHR '':'' \<notin> set (show_nat n)"
  using show_nat_digits[of "CHR '':''" n] by auto

lemma show_int_not_colon: "CHR '':'' \<notin> set (show_int i)"
  by (simp add: show_int_def show_nat_not_colon)

lemma show_int_inject [simp]: "show_int i = show_int j \<longleftrightarrow> i = j"
proof
  assume e: "show_int i = show_int j"
  have d: "CHR ''-'' # s \<noteq> show_nat n" "show_nat n \<noteq> CHR ''-'' # s" for s n
    using show_nat_not_dash[of n] by (metis list.set_intros(1))+
  from e show "i = j"
    by (auto simp: show_int_def d split: if_splits)
qed simp

text \<open>The text before the first colon of a key.\<close>

lemma colon_prefix_inject:
  assumes "CHR '':'' \<notin> set a" and "CHR '':'' \<notin> set b" and "a @ '':'' @ x = b @ '':'' @ y"
  shows "a = b"
proof -
  have "takeWhile (\<lambda>c. c \<noteq> CHR '':'') (s @ '':'' @ z) = s" if "CHR '':'' \<notin> set s" for s z :: string
    using that by (subst takeWhile_append2) auto
  then show ?thesis using assms by metis
qed

text \<open>A prefix and a number joined by a dash determine both when the number is the tail.\<close>

lemma dash_num_inject:
  "p @ ''-'' @ show_nat m = q @ ''-'' @ show_nat n \<longleftrightarrow> p = q \<and> m = n"
proof
  assume eq: "p @ ''-'' @ show_nat m = q @ ''-'' @ show_nat n"
  have rev: "takeWhile (\<lambda>c. c \<noteq> CHR ''-'') (rev (r @ ''-'' @ show_nat k)) = rev (show_nat k)"
    for r k using show_nat_not_dash[of k]
    by (subst rev_append, subst rev_append, subst append_assoc, subst takeWhile_append2) auto
  have "rev (show_nat m) = rev (show_nat n)"
    using rev[of p m] rev[of q n] eq by metis
  with eq show "p = q \<and> m = n" by simp
qed simp

section \<open>Case folding, prefixes, white space\<close>

definition to_lower_char :: "char \<Rightarrow> char" where
  "to_lower_char c = (let n = char_code c in
     if (65 \<le> n \<and> n \<le> 90) \<or> (192 \<le> n \<and> n \<le> 222 \<and> n \<noteq> 215) then char_of (n + 32) else c)"

definition to_lower :: "string \<Rightarrow> string" where
  "to_lower s = map to_lower_char s"

definition upper_ascii_char :: "char \<Rightarrow> char" where
  "upper_ascii_char c = (let n = char_code c in
     if 97 \<le> n \<and> n \<le> 122 then char_of (n - 32) else c)"

definition upper_ascii :: "string \<Rightarrow> string" where
  "upper_ascii s = map upper_ascii_char s"

text \<open>
  \<open>toUpperCase\<close> on Latin-1: the sharp s becomes two letters; the micro sign and y with diaeresis,
  whose capitals lie outside Latin-1, are left as they are.
\<close>

definition to_upper_char :: "char \<Rightarrow> string" where
  "to_upper_char c = (let n = char_code c in
     if (97 \<le> n \<and> n \<le> 122) \<or> (224 \<le> n \<and> n \<le> 254 \<and> n \<noteq> 247) then [char_of (n - 32)]
     else if n = 223 then ''SS'' else [c])"

definition to_upper :: "string \<Rightarrow> string" where
  "to_upper s = concat (map to_upper_char s)"

definition starts_with :: "string \<Rightarrow> string \<Rightarrow> bool" where
  "starts_with s p \<longleftrightarrow> take (length p) s = p"

definition is_space :: "char \<Rightarrow> bool" where
  "is_space c \<longleftrightarrow> char_code c \<in> {9, 10, 11, 12, 13, 32, 160}"

definition trim :: "string \<Rightarrow> string" where
  "trim s = rev (dropWhile is_space (rev (dropWhile is_space s)))"

lemma trim_eq_Nil: "trim s = [] \<longleftrightarrow> (\<forall>c\<in>set s. is_space c)"
proof (cases "dropWhile is_space s")
  case Nil
  then have "\<forall>c\<in>set s. is_space c" by (metis dropWhile_eq_Nil_conv)
  then show ?thesis by (auto simp: trim_def dest: set_dropWhileD)
next
  case (Cons c cs)
  then have c: "\<not> is_space c" "c \<in> set s"
    by (metis hd_dropWhile list.discI list.sel(1)) (metis Cons list.set_intros(1) set_dropWhileD)
  then have "trim s \<noteq> []" by (simp add: trim_def Cons dropWhile_eq_Nil_conv)
  with c show ?thesis by blast
qed

lemma starts_with_Nil [simp]: "starts_with s []"
  by (simp add: starts_with_def)

lemma trim_no_space: "\<forall>c\<in>set s. \<not> is_space c \<Longrightarrow> trim s = s"
proof -
  assume ns: "\<forall>c\<in>set s. \<not> is_space c"
  have "dropWhile is_space s = s" "dropWhile is_space (rev s) = rev s"
    using ns by (auto simp: dropWhile_eq_self_iff hd_rev)
  then show ?thesis by (simp add: trim_def)
qed

section \<open>split and join\<close>

fun join :: "'a list \<Rightarrow> 'a list list \<Rightarrow> 'a list" where
  "join sep [] = []"
| "join sep [x] = x"
| "join sep (x # y # ys) = x @ sep @ join sep (y # ys)"

text \<open>\<open>s.split(c)\<close> for a one-character separator: never empty, \<open>[s]\<close> where c does not occur.\<close>

fun split_on :: "char \<Rightarrow> string \<Rightarrow> string list" where
  "split_on c [] = [[]]"
| "split_on c (x # xs) =
     (if x = c then [] # split_on c xs
      else case split_on c xs of [] \<Rightarrow> [[x]] | y # ys \<Rightarrow> (x # y) # ys)"

lemma split_on_ne [simp]: "split_on c s \<noteq> []"
  by (induction s) (auto split: list.splits)

lemma split_on_no_sep: "c \<notin> set s \<Longrightarrow> split_on c s = [s]"
  by (induction s) auto

lemma split_on_append: "c \<notin> set s \<Longrightarrow> split_on c (s @ c # t) = s # split_on c t"
  by (induction s) auto

lemma split_on_join:
  "xs \<noteq> [] \<Longrightarrow> \<forall>x\<in>set xs. c \<notin> set x \<Longrightarrow> split_on c (join [c] xs) = xs"
  by (induction "[c]" xs rule: join.induct) (auto simp: split_on_no_sep split_on_append)

lemma join_split_on: "join [c] (split_on c s) = s"
proof (induction s)
  case Nil
  then show ?case by simp
next
  case (Cons x xs)
  then show ?case by (cases "split_on c xs"; cases "tl (split_on c xs)") auto
qed

section \<open>Default sort order of strings\<close>

text \<open>\<open>xs.sort()\<close> without comparator compares code units lexicographically.\<close>

fun units_cmp :: "nat list \<Rightarrow> nat list \<Rightarrow> int" where
  "units_cmp [] [] = 0"
| "units_cmp [] (y # ys) = -1"
| "units_cmp (x # xs) [] = 1"
| "units_cmp (x # xs) (y # ys) = (if x < y then -1 else if y < x then 1 else units_cmp xs ys)"

definition str_cmp :: "string \<Rightarrow> string \<Rightarrow> int" where
  "str_cmp s t = units_cmp (map of_char s) (map of_char t)"

lemma units_cmp_eq_0: "units_cmp x y = 0 \<longleftrightarrow> x = y"
  by (induction x y rule: units_cmp.induct) auto

lemma str_cmp_eq_0: "str_cmp x y = 0 \<longleftrightarrow> x = y"
proof -
  have "inj (of_char :: char \<Rightarrow> nat)" by (metis injI char_of_char)
  then show ?thesis by (simp add: str_cmp_def units_cmp_eq_0 inj_map_eq_map)
qed

lemma units_cmp_swap: "units_cmp x y < 0 \<longleftrightarrow> 0 < units_cmp y x"
  by (induction x y rule: units_cmp.induct) auto

lemma units_cmp_trans: "units_cmp x y \<le> 0 \<Longrightarrow> units_cmp y z \<le> 0 \<Longrightarrow> units_cmp x z \<le> 0"
proof (induction x y arbitrary: z rule: units_cmp.induct)
  case (1 z)
  then show ?case by (cases z) auto
next
  case (2 b bs z)
  then show ?case by (cases z) auto
next
  case (3 a as z)
  then show ?case by auto
next
  case (4 a as b bs z)
  show ?case
  proof (cases z)
    case Nil
    with 4 show ?thesis by simp
  next
    case (Cons c cs)
    show ?thesis
    proof (cases "a = b \<and> b = c")
      case True
      with 4 Cons show ?thesis by simp
    next
      case False
      with 4(2,3) Cons have "a < c" by (auto split: if_splits)
      with Cons show ?thesis by simp
    qed
  qed
qed

interpretation units_order: comparator units_cmp
  by unfold_locales (fact units_cmp_swap, fact units_cmp_trans)

interpretation str_order: comparator str_cmp
  by unfold_locales (auto simp: str_cmp_def units_cmp_swap intro: units_cmp_trans)

end
