(* ===== verification/Contracts.thy ===== *)
theory Contracts
  imports Prelude
begin

text \<open>
  The contracts shared by the controllers. A controller is a step function
  \<open>step op s = (s', es)\<close>: one call of its interface, the next state, and the events the
  call produced in order (snapshots delivered to listeners, callbacks invoked, values
  returned to the caller are events of the component's own type).
\<close>

section \<open>Listeners\<close>

text \<open>
  \<open>listeners\<close> is a \<open>Set\<close> of callbacks, here numbered; \<open>emit\<close> calls each of them in
  insertion order with the same snapshot. \<open>subscribe\<close> adds a callback and returns the
  disposer that deletes it.
\<close>

type_synonym listener = nat

definition subscribe :: "listener \<Rightarrow> listener jsset \<Rightarrow> listener jsset" where
  "subscribe l ls = set_add l ls"

definition unsubscribe :: "listener \<Rightarrow> listener jsset \<Rightarrow> listener jsset" where
  "unsubscribe l ls = removeAll l ls"

definition deliver :: "listener jsset \<Rightarrow> 'v \<Rightarrow> (listener \<times> 'v) list" where
  "deliver ls v = map (\<lambda>l. (l, v)) ls"

text \<open>The snapshots listener \<open>l\<close> got, in order, and what it shows if it keeps the last one.\<close>

definition received :: "listener \<Rightarrow> (listener \<times> 'v) list \<Rightarrow> 'v list" where
  "received l es = map snd (filter (\<lambda>e. fst e = l) es)"

definition mirror :: "listener \<Rightarrow> 'v \<Rightarrow> (listener \<times> 'v) list \<Rightarrow> 'v" where
  "mirror l v es = (if received l es = [] then v else last (received l es))"

lemma mirror_Nil [simp]: "mirror l v [] = v"
  by (simp add: mirror_def received_def)

lemma received_append [simp]: "received l (es @ fs) = received l es @ received l fs"
  by (simp add: received_def)

lemma mirror_append [simp]: "mirror l v (es @ fs) = mirror l (mirror l v es) fs"
  by (auto simp: mirror_def)

lemma set_received_deliver: "set (received l (deliver ls v)) \<subseteq> {v}"
  by (auto simp: received_def deliver_def)

lemma received_deliver_empty: "received l (deliver ls v) = [] \<longleftrightarrow> l \<notin> set ls"
  by (auto simp: received_def deliver_def filter_empty_conv)

lemma mirror_deliver [simp]: "mirror l v (deliver ls w) = (if l \<in> set ls then w else v)"
proof (cases "l \<in> set ls")
  case True
  then have "received l (deliver ls w) \<noteq> []" by (simp add: received_deliver_empty)
  then have "last (received l (deliver ls w)) \<in> {w}"
    using last_in_set set_received_deliver by fastforce
  with True show ?thesis by (simp add: mirror_def received_deliver_empty)
next
  case False
  then show ?thesis by (simp add: mirror_def received_deliver_empty)
qed

lemma subscribe_set [simp]: "set (subscribe l ls) = insert l (set ls)"
  by (simp add: subscribe_def)

lemma unsubscribe_set [simp]: "set (unsubscribe l ls) = set ls - {l}"
  by (simp add: unsubscribe_def)

text \<open>
  Per-key listeners: \<open>Map<string, Set<listener>>\<close>. The disposer of a subscription holds on to
  the \<open>Set\<close> object it added to, and drops the key when that set becomes empty, so the sets
  are a heap of objects addressed by the order of their creation.
\<close>

type_synonym keyed_listeners = "(string, nat) jsmap \<times> listener jsset list"

definition keyed_get :: "string \<Rightarrow> keyed_listeners \<Rightarrow> listener jsset" where
  "keyed_get k reg = (case map_get (fst reg) k of None \<Rightarrow> [] | Some r \<Rightarrow> snd reg ! r)"

definition keyed_subscribe :: "string \<Rightarrow> listener \<Rightarrow> keyed_listeners \<Rightarrow> keyed_listeners \<times> nat" where
  "keyed_subscribe k l reg =
     (case map_get (fst reg) k of
        Some r \<Rightarrow> ((fst reg, (snd reg)[r := subscribe l (snd reg ! r)]), r)
      | None \<Rightarrow> ((map_set k (length (snd reg)) (fst reg), snd reg @ [[l]]), length (snd reg)))"

definition keyed_dispose :: "string \<Rightarrow> nat \<Rightarrow> listener \<Rightarrow> keyed_listeners \<Rightarrow> keyed_listeners" where
  "keyed_dispose k r l reg =
     (let heap = (snd reg)[r := unsubscribe l (snd reg ! r)]
      in (if heap ! r = [] then map_del k (fst reg) else fst reg, heap))"

definition keyed_ok :: "keyed_listeners \<Rightarrow> bool" where
  "keyed_ok reg \<longleftrightarrow> distinct (map_keys (fst reg)) \<and> (\<forall>(k, r)\<in>set (fst reg). r < length (snd reg))"

lemma keyed_ok_get: "keyed_ok reg \<Longrightarrow> map_get (fst reg) k = Some r \<Longrightarrow> r < length (snd reg)"
  by (auto simp: keyed_ok_def dest: map_of_SomeD)

lemma keyed_ok_subscribe: "keyed_ok reg \<Longrightarrow> keyed_ok (fst (keyed_subscribe k l reg))"
  by (fastforce simp: keyed_ok_def keyed_subscribe_def in_update_distinct split: option.split)

lemma keyed_ok_dispose: "keyed_ok reg \<Longrightarrow> keyed_ok (keyed_dispose k r l reg)"
  by (auto simp: keyed_ok_def keyed_dispose_def Let_def in_delete)

lemma keyed_get_subscribe:
  assumes "keyed_ok reg"
  shows "l \<in> set (keyed_get k (fst (keyed_subscribe k l reg)))"
  using keyed_ok_get[OF assms, of k]
  by (auto simp: keyed_get_def keyed_subscribe_def nth_append split: option.split)

text \<open>
  A disposer called while its set is still the key's set removes its own listener and no other.
\<close>

lemma keyed_get_dispose:
  assumes "keyed_ok reg" and "map_get (fst reg) k = Some r"
  shows "set (keyed_get k (keyed_dispose k r l reg)) = set (keyed_get k reg) - {l}"
  using keyed_ok_get[OF assms] assms(2)
  by (auto simp: keyed_get_def keyed_dispose_def Let_def unsubscribe_def removeAll_filter_not_eq filter_empty_conv)

text \<open>
  What a call makes visible, in order: a snapshot sent to a listener, or another effect
  \<open>'x\<close> of the component (an option callback invoked, a default action prevented, ...).
  Option callbacks are recorded as events whether or not the caller supplied one; a missing
  callback ignores the event.
\<close>

datatype ('v, 'x) event = Sent listener 'v | Did 'x

fun sent1 :: "('v, 'x) event \<Rightarrow> (listener \<times> 'v) list" where
  "sent1 (Sent l v) = [(l, v)]"
| "sent1 (Did x) = []"

definition sent :: "('v, 'x) event list \<Rightarrow> (listener \<times> 'v) list" where
  "sent es = concat (map sent1 es)"

fun did1 :: "('v, 'x) event \<Rightarrow> 'x list" where
  "did1 (Sent l v) = []"
| "did1 (Did x) = [x]"

definition did :: "('v, 'x) event list \<Rightarrow> 'x list" where
  "did es = concat (map did1 es)"

definition emit_to :: "listener jsset \<Rightarrow> 'v \<Rightarrow> ('v, 'x) event list" where
  "emit_to ls v = map (\<lambda>l. Sent l v) ls"

lemma sent_simps [simp]:
  "sent [] = []" "sent (es @ fs) = sent es @ sent fs"
  "sent (Did x # es) = sent es" "sent (Sent l v # es) = (l, v) # sent es"
  by (simp_all add: sent_def)

lemma did_simps [simp]:
  "did [] = []" "did (es @ fs) = did es @ did fs"
  "did (Did x # es) = x # did es" "did (Sent l v # es) = did es"
  by (simp_all add: did_def)

lemma sent_emit_to [simp]: "sent (emit_to ls v) = deliver ls v"
  by (induction ls) (simp_all add: emit_to_def deliver_def)

lemma did_emit_to [simp]: "did (emit_to ls v) = []"
  by (induction ls) (simp_all add: emit_to_def)

section \<open>Runs\<close>

fun run :: "('op \<Rightarrow> 's \<Rightarrow> 's \<times> 'e list) \<Rightarrow> 'op list \<Rightarrow> 's \<Rightarrow> 's \<times> 'e list" where
  "run step [] s = (s, [])"
| "run step (x # xs) s =
     (let (s1, e1) = step x s; (s2, e2) = run step xs s1 in (s2, e1 @ e2))"

lemma run_Cons:
  "run step (x # xs) s =
   (fst (run step xs (fst (step x s))), snd (step x s) @ snd (run step xs (fst (step x s))))"
  by (simp add: split_def Let_def)

lemma run_append:
  "run step (xs @ ys) s =
   (fst (run step ys (fst (run step xs s))),
    snd (run step xs s) @ snd (run step ys (fst (run step xs s))))"
  by (induction xs arbitrary: s) (simp_all add: run_Cons del: run.simps(2))

text \<open>One call after another inside an operation, and an effect before the rest of it.\<close>

definition and_then :: "'s \<times> 'e list \<Rightarrow> ('s \<Rightarrow> 's \<times> 'e list) \<Rightarrow> 's \<times> 'e list" where
  "and_then p f = (fst (f (fst p)), snd p @ snd (f (fst p)))"

definition after :: "'e list \<Rightarrow> 's \<times> 'e list \<Rightarrow> 's \<times> 'e list" where
  "after es p = (fst p, es @ snd p)"

lemma fst_and_then [simp]: "fst (and_then p f) = fst (f (fst p))"
  by (simp add: and_then_def)

lemma snd_and_then [simp]: "snd (and_then p f) = snd p @ snd (f (fst p))"
  by (simp add: and_then_def)

lemma fst_after [simp]: "fst (after es p) = fst p"
  by (simp add: after_def)

lemma snd_after [simp]: "snd (after es p) = es @ snd p"
  by (simp add: after_def)

section \<open>Every operation keeps the invariant\<close>

text \<open>
  \<open>legal\<close> marks the calls the interface documents as valid (item lists with distinct ids,
  say); components that check their arguments themselves take every call as legal.
\<close>

locale component =
  fixes step :: "'op \<Rightarrow> 's \<Rightarrow> 's \<times> 'e list"
    and inv :: "'s \<Rightarrow> bool"
    and legal :: "'op \<Rightarrow> bool"
  assumes step_inv: "inv s \<Longrightarrow> legal x \<Longrightarrow> inv (fst (step x s))"
begin

lemma run_inv: "inv s \<Longrightarrow> \<forall>x\<in>set xs. legal x \<Longrightarrow> inv (fst (run step xs s))"
  by (induction xs arbitrary: s) (simp_all add: run_Cons step_inv del: run.simps(2))

text \<open>A fact of every state that satisfies the invariant holds along every run.\<close>

lemma run_fact:
  "inv s \<Longrightarrow> \<forall>x\<in>set xs. legal x \<Longrightarrow> (\<And>t. inv t \<Longrightarrow> P t) \<Longrightarrow> P (fst (run step xs s))"
  by (blast intro: run_inv)

end

section \<open>Subscribers are never stale\<close>

text \<open>
  \<open>view\<close> is what a snapshot shows and \<open>drops l x\<close> says that call \<open>x\<close> removes listener
  \<open>l\<close>. The law: as long as \<open>l\<close> stays subscribed, keeping the last delivered snapshot
  tracks the view.
\<close>

locale observable = component step inv legal
  for step :: "'op \<Rightarrow> 's \<Rightarrow> 's \<times> ('v, 'x) event list" and inv :: "'s \<Rightarrow> bool"
    and legal :: "'op \<Rightarrow> bool" +
  fixes subscribed :: "'s \<Rightarrow> listener jsset"
    and view :: "'s \<Rightarrow> 'v"
    and drops :: "listener \<Rightarrow> 'op \<Rightarrow> bool"
  assumes step_keeps: "l \<in> set (subscribed s) \<Longrightarrow> \<not> drops l x \<Longrightarrow>
      l \<in> set (subscribed (fst (step x s)))"
    and step_mirror: "inv s \<Longrightarrow> legal x \<Longrightarrow> l \<in> set (subscribed s) \<Longrightarrow> \<not> drops l x \<Longrightarrow>
      mirror l (view s) (sent (snd (step x s))) = view (fst (step x s))"
begin

lemma run_mirror:
  assumes "inv s" and "\<forall>x\<in>set xs. legal x" and "l \<in> set (subscribed s)"
    and "\<forall>x\<in>set xs. \<not> drops l x"
  shows "l \<in> set (subscribed (fst (run step xs s))) \<and>
         mirror l (view s) (sent (snd (run step xs s))) = view (fst (run step xs s))"
  using assms
proof (induction xs arbitrary: s)
  case Nil
  then show ?case by simp
next
  case (Cons x xs)
  let ?t = "fst (step x s)"
  have "inv ?t" "l \<in> set (subscribed ?t)" "mirror l (view s) (sent (snd (step x s))) = view ?t"
    using Cons.prems by (auto intro: step_inv step_keeps step_mirror)
  then show ?case
    using Cons.IH[of ?t] Cons.prems by (simp add: run_Cons del: run.simps(2))
qed

text \<open>Silence means nothing changed: a call that sends a subscriber nothing keeps the view.\<close>

lemma silent_unchanged:
  assumes "inv s" and "legal x" and "l \<in> set (subscribed s)" and "\<not> drops l x"
    and "received l (sent (snd (step x s))) = []"
  shows "view (fst (step x s)) = view s"
  using step_mirror[OF assms(1-4)] assms(5) by (simp add: mirror_def)

end

section \<open>Operations that report what they did\<close>

text \<open>
  The law of \<open>observable\<close> for one result \<open>(s', es)\<close> of a call in state \<open>s\<close>, and the three
  ways the operations of the controllers satisfy it: nothing visible changed, the call ends
  with an emit, or it is composed of calls that satisfy it.
\<close>

definition tracked :: "('s \<Rightarrow> listener jsset) \<Rightarrow> ('s \<Rightarrow> 'v) \<Rightarrow> 's \<Rightarrow> 's \<times> ('v, 'x) event list \<Rightarrow> bool" where
  "tracked subs view s p \<longleftrightarrow> subs (fst p) = subs s \<and>
     (\<forall>l\<in>set (subs s). mirror l (view s) (sent (snd p)) = view (fst p))"

lemma tracked_silent [simp]: "tracked subs view s (s', []) \<longleftrightarrow>
    subs s' = subs s \<and> (set (subs s) \<noteq> {} \<longrightarrow> view s' = view s)"
  by (auto simp: tracked_def)

lemma tracked_emit [simp]:
  "tracked subs view s (s', es @ emit_to (subs s') (view s')) \<longleftrightarrow> subs s' = subs s"
  by (auto simp: tracked_def)

lemma tracked_emit0 [simp]:
  "tracked subs view s (s', emit_to (subs s') (view s')) \<longleftrightarrow> subs s' = subs s"
  using tracked_emit[of subs view s s' "[]"] by simp

lemma tracked_Did [simp]: "tracked subs view s (s', Did x # es) \<longleftrightarrow> tracked subs view s (s', es)"
  by (simp add: tracked_def)

lemma tracked_emitI:
  "ls = subs s \<Longrightarrow> subs s' = subs s \<Longrightarrow> v = view s' \<Longrightarrow> tracked subs view s (s', es @ emit_to ls v)"
  by (simp add: tracked_def)

lemma tracked_emit0I:
  "ls = subs s \<Longrightarrow> subs s' = subs s \<Longrightarrow> v = view s' \<Longrightarrow> tracked subs view s (s', emit_to ls v)"
  by (simp add: tracked_def)

lemma tracked_and_then:
  "tracked subs view s p \<Longrightarrow> tracked subs view (fst p) (f (fst p)) \<Longrightarrow> tracked subs view s (and_then p f)"
  by (simp add: tracked_def)

lemma tracked_after [simp]: "sent es = [] \<Longrightarrow> tracked subs view s (after es p) \<longleftrightarrow> tracked subs view s p"
  by (simp add: tracked_def)

lemma tracked_then:
  "tracked subs view s (t, es) \<Longrightarrow> tracked subs view t (u, fs) \<Longrightarrow> tracked subs view s (u, es @ fs)"
  by (simp add: tracked_def)

lemma tracked_from:
  "tracked subs view s p \<Longrightarrow> subs s = subs r \<Longrightarrow> view s = view r \<Longrightarrow> tracked subs view r p"
  by (simp add: tracked_def)

text \<open>Stronger: the call ends by publishing the view, whatever the subscriber showed before.\<close>

definition published :: "('s \<Rightarrow> listener jsset) \<Rightarrow> ('s \<Rightarrow> 'v) \<Rightarrow> 's \<Rightarrow> 's \<times> ('v, 'x) event list \<Rightarrow> bool" where
  "published subs view s p \<longleftrightarrow> subs (fst p) = subs s \<and>
     (\<forall>l\<in>set (subs s). \<forall>v. mirror l v (sent (snd p)) = view (fst p))"

lemma published_tracked: "published subs view s p \<Longrightarrow> tracked subs view s p"
  by (simp add: published_def tracked_def)

lemma published_emitI:
  "ls = subs s \<Longrightarrow> subs s' = subs s \<Longrightarrow> v = view s' \<Longrightarrow> published subs view s (s', es @ emit_to ls v)"
  by (simp add: published_def)

lemma published_emit0I:
  "ls = subs s \<Longrightarrow> subs s' = subs s \<Longrightarrow> v = view s' \<Longrightarrow> published subs view s (s', emit_to ls v)"
  by (simp add: published_def)

lemma published_and_then:
  "subs (fst p) = subs s \<Longrightarrow> published subs view (fst p) (f (fst p)) \<Longrightarrow>
   published subs view s (and_then p f)"
  by (simp add: published_def)

lemma published_Cons [simp]:
  "published subs view s (s', Did x # es) \<longleftrightarrow> published subs view s (s', es)"
  by (simp add: published_def)

end
