(* ===== verification/Id_Generator.thy ===== *)
theory Id_Generator
  imports Js_Text Contracts
begin

text \<open>
  \<open>headless-core/id-generator.ts\<close>: a per-instance counter behind \<open><prefix>-<n>\<close> ids. The state
  is the counter; the default prefix is fixed at creation.
\<close>

record id_generator =
  ig_defaultPrefix :: string
  ig_counter :: nat

definition DEFAULT_SEED :: string where
  "DEFAULT_SEED = ''id''"

definition createIdGenerator :: "string option \<Rightarrow> id_generator" where
  "createIdGenerator seed =
     \<lparr>ig_defaultPrefix = (case seed of
          Some s \<Rightarrow> (if length s > 0 then s else DEFAULT_SEED) | None \<Rightarrow> DEFAULT_SEED),
      ig_counter = 0\<rparr>"

definition idgen_next :: "string option \<Rightarrow> id_generator \<Rightarrow> id_generator \<times> string" where
  "idgen_next prefix g =
     (let g' = g\<lparr>ig_counter := ig_counter g + 1\<rparr>;
          p = (case prefix of Some q \<Rightarrow> q | None \<Rightarrow> ig_defaultPrefix g) in
      (g', p @ ''-'' @ show_nat (ig_counter g')))"

definition idgen_reset :: "id_generator \<Rightarrow> id_generator" where
  "idgen_reset g = g\<lparr>ig_counter := 0\<rparr>"

datatype id_op = Id_next "string option" | Id_reset

fun idgen_step :: "id_op \<Rightarrow> id_generator \<Rightarrow> id_generator \<times> string list" where
  "idgen_step (Id_next p) g = (let (g', s) = idgen_next p g in (g', [s]))"
| "idgen_step Id_reset g = (idgen_reset g, [])"

text \<open>Numbers grow, so an id is never issued twice without a reset in between.\<close>

definition issued_by :: "nat \<Rightarrow> string \<Rightarrow> bool" where
  "issued_by n s \<longleftrightarrow> (\<exists>p m. m > n \<and> s = p @ ''-'' @ show_nat m)"

lemma idgen_ids_after:
  "x \<in> set (snd (run idgen_step (map Id_next ps) g)) \<Longrightarrow> issued_by (ig_counter g) x"
proof (induction ps arbitrary: g)
  case Nil
  then show ?case by simp
next
  case (Cons p ps)
  let ?g = "fst (idgen_step (Id_next p) g)"
  have g: "ig_counter ?g = Suc (ig_counter g)" by (simp add: idgen_next_def Let_def)
  consider "x \<in> set (snd (idgen_step (Id_next p) g))"
    | "x \<in> set (snd (run idgen_step (map Id_next ps) ?g))"
    using Cons.prems by (auto simp: run_Cons simp del: run.simps(2))
  then show ?case
  proof cases
    case 1
    then have "x = (case p of Some q \<Rightarrow> q | None \<Rightarrow> ig_defaultPrefix g) @ ''-'' @ show_nat (Suc (ig_counter g))"
      by (simp add: idgen_next_def Let_def)
    then show ?thesis unfolding issued_by_def by blast
  next
    case 2
    from Cons.IH[OF this] show ?thesis unfolding g issued_by_def using Suc_lessD by blast
  qed
qed

lemma idgen_ids_distinct: "distinct (snd (run idgen_step (map Id_next ps) g))"
proof (induction ps arbitrary: g)
  case Nil
  then show ?case by simp
next
  case (Cons p ps)
  let ?g = "fst (idgen_step (Id_next p) g)"
  let ?x = "(case p of Some q \<Rightarrow> q | None \<Rightarrow> ig_defaultPrefix g) @ ''-'' @ show_nat (Suc (ig_counter g))"
  have s: "snd (idgen_step (Id_next p) g) = [?x]" "ig_counter ?g = Suc (ig_counter g)"
    by (simp_all add: idgen_next_def Let_def)
  have "\<not> issued_by (Suc (ig_counter g)) ?x"
    unfolding issued_by_def using dash_num_inject by auto
  then have "?x \<notin> set (snd (run idgen_step (map Id_next ps) ?g))"
    using idgen_ids_after s(2) by metis
  with Cons.IH s(1) show ?case by (simp add: run_Cons del: run.simps(2))
qed

lemma idgen_run_prefix: "ig_defaultPrefix (fst (run idgen_step xs g)) = ig_defaultPrefix g"
proof (induction xs arbitrary: g)
  case (Cons x xs)
  then show ?case
    by (cases x) (simp_all add: run_Cons idgen_next_def idgen_reset_def Let_def del: run.simps(2))
qed simp

section \<open>Properties\<close>

text \<open>Between two resets every id a generator issues is new, whatever prefixes the callers
  pass, and after a reset the generator replays its ids from the start.\<close>

theorem idgen_unique_until_reset:
  "distinct (snd (run idgen_step (map Id_next ps) g)) \<and>
   snd (run idgen_step (map Id_next qs) (idgen_reset (fst (run idgen_step xs (createIdGenerator seed))))) =
   snd (run idgen_step (map Id_next qs) (createIdGenerator seed))"
proof -
  have "idgen_reset (fst (run idgen_step xs (createIdGenerator seed))) = createIdGenerator seed"
    using idgen_run_prefix[of xs "createIdGenerator seed"]
    by (simp add: idgen_reset_def createIdGenerator_def)
  then show ?thesis using idgen_ids_distinct by simp
qed

end
