(* ===== verification/Portal_Manager.thy ===== *)
theory Portal_Manager
  imports Js_Text Contracts
begin

text \<open>
  \<open>headless-core/portal-manager.ts\<close>: the stack of portal layers and the rule that decides which
  one is on top. The state is the \<open>stack\<close> array, oldest layer first.
\<close>

datatype portal_kind = Base | Sticky | Dropdown | Overlay | Drawer | Modal | Toast_layer

fun PORTAL_Z_INDEX :: "portal_kind \<Rightarrow> int" where
  "PORTAL_Z_INDEX Base = 1"
| "PORTAL_Z_INDEX Sticky = 20"
| "PORTAL_Z_INDEX Dropdown = 30"
| "PORTAL_Z_INDEX Overlay = 40"
| "PORTAL_Z_INDEX Drawer = 60"
| "PORTAL_Z_INDEX Modal = 80"
| "PORTAL_Z_INDEX Toast_layer = 100"

record portal_layer =
  pl_id :: string
  pl_layer :: portal_kind
  pl_zIndex :: "int option"

record active_layer =
  al_id :: string
  al_layer :: portal_kind
  al_zIndex :: int

type_synonym portal_stack = "active_layer list"

definition resolveZIndex :: "portal_layer \<Rightarrow> int" where
  "resolveZIndex layer =
     (case pl_zIndex layer of Some z \<Rightarrow> z | None \<Rightarrow> PORTAL_Z_INDEX (pl_layer layer))"

definition portal_push :: "portal_layer \<Rightarrow> portal_stack \<Rightarrow> portal_stack \<times> active_layer" where
  "portal_push layer stack =
     (let active = \<lparr>al_id = pl_id layer, al_layer = pl_layer layer, al_zIndex = resolveZIndex layer\<rparr>
      in (stack @ [active], active))"

definition portal_pop :: "string \<Rightarrow> portal_stack \<Rightarrow> portal_stack" where
  "portal_pop k stack =
     (let idx = find_index (\<lambda>l. al_id l = k) stack in
      if idx \<ge> 0 then take (nat idx) stack @ drop (Suc (nat idx)) stack else stack)"

text \<open>The walk from the latest layer down: a strictly higher candidate replaces the best so far.\<close>

fun topmost_walk :: "active_layer \<Rightarrow> active_layer list \<Rightarrow> active_layer" where
  "topmost_walk best [] = best"
| "topmost_walk best (candidate # earlier) =
     topmost_walk (if al_zIndex candidate > al_zIndex best then candidate else best) earlier"

definition portal_topmost :: "portal_stack \<Rightarrow> active_layer option" where
  "portal_topmost stack =
     (case rev stack of [] \<Rightarrow> None | latest # earlier \<Rightarrow> Some (topmost_walk latest earlier))"

definition portal_layers :: "portal_stack \<Rightarrow> active_layer list" where
  "portal_layers stack = stack"

text \<open>The kinds in the order of their default z-index.\<close>

instantiation portal_kind :: linorder
begin

definition less_eq_portal_kind :: "portal_kind \<Rightarrow> portal_kind \<Rightarrow> bool" where
  "less_eq_portal_kind a b \<longleftrightarrow> PORTAL_Z_INDEX a \<le> PORTAL_Z_INDEX b"

definition less_portal_kind :: "portal_kind \<Rightarrow> portal_kind \<Rightarrow> bool" where
  "less_portal_kind a b \<longleftrightarrow> PORTAL_Z_INDEX a < PORTAL_Z_INDEX b"

instance
proof
  have inj: "PORTAL_Z_INDEX a = PORTAL_Z_INDEX b \<Longrightarrow> a = b" for a b
    by (cases a; cases b) simp_all
  show "a \<le> b \<Longrightarrow> b \<le> a \<Longrightarrow> a = b" for a b :: portal_kind
    by (rule inj) (simp add: less_eq_portal_kind_def)
qed (auto simp: less_eq_portal_kind_def less_portal_kind_def)

end

lemma topmost_walk_spec:
  "topmost_walk best xs = best \<and> (\<forall>x\<in>set xs. al_zIndex x \<le> al_zIndex best) \<or>
   (\<exists>pre post. xs = pre @ topmost_walk best xs # post \<and>
      al_zIndex best < al_zIndex (topmost_walk best xs) \<and>
      (\<forall>x\<in>set pre. al_zIndex x < al_zIndex (topmost_walk best xs)) \<and>
      (\<forall>x\<in>set post. al_zIndex x \<le> al_zIndex (topmost_walk best xs)))"
proof (induction xs arbitrary: best)
  case Nil
  then show ?case by simp
next
  case (Cons c xs)
  let ?b = "if al_zIndex c > al_zIndex best then c else best"
  let ?t = "topmost_walk ?b xs"
  have t: "topmost_walk best (c # xs) = ?t" by simp
  from Cons.IH[of ?b] show ?case
  proof
    assume h: "?t = ?b \<and> (\<forall>x\<in>set xs. al_zIndex x \<le> al_zIndex ?b)"
    show ?thesis
    proof (cases "al_zIndex c > al_zIndex best")
      case True
      then have "c # xs = [] @ ?t # xs" using h by simp
      with True h show ?thesis unfolding t by (intro disjI2 exI[of _ "[]"] exI[of _ xs]) simp
    next
      case False
      with h show ?thesis unfolding t by auto
    qed
  next
    assume "\<exists>pre post. xs = pre @ ?t # post \<and> al_zIndex ?b < al_zIndex ?t \<and>
      (\<forall>x\<in>set pre. al_zIndex x < al_zIndex ?t) \<and> (\<forall>x\<in>set post. al_zIndex x \<le> al_zIndex ?t)"
    then obtain pre post where p: "xs = pre @ ?t # post" "al_zIndex ?b < al_zIndex ?t"
      "\<forall>x\<in>set pre. al_zIndex x < al_zIndex ?t" "\<forall>x\<in>set post. al_zIndex x \<le> al_zIndex ?t" by blast
    have "c # xs = (c # pre) @ ?t # post" using p(1) by (metis append_Cons)
    moreover have "al_zIndex c < al_zIndex ?t" "al_zIndex best < al_zIndex ?t"
      using p(2) by (auto split: if_splits)
    ultimately show ?thesis unfolding t using p(3,4)
      by (intro disjI2 exI[of _ "c # pre"] exI[of _ post]) auto
  qed
qed

lemma portal_pop_absent: "k \<notin> al_id ` set stack \<Longrightarrow> portal_pop k stack = stack"
  by (rule find_index_cases[of "\<lambda>l. al_id l = k" stack]) (auto simp: portal_pop_def)

lemma portal_pop_append:
  assumes "k \<notin> al_id ` set stack" and "al_id l = k"
  shows "portal_pop k (stack @ l # rest) = stack @ rest"
proof -
  have "find_index (\<lambda>l. al_id l = k) (stack @ l # rest) = int (length stack)"
    using assms by (intro find_index_append) (auto simp: rev_image_eqI image_iff)
  then show ?thesis by (simp add: portal_pop_def)
qed

section \<open>Properties\<close>

text \<open>the topmost layer of a non-empty stack is a pushed layer whose z-index no other layer
  exceeds, and every layer pushed after it is strictly lower: ties go to the latest push.\<close>

theorem portal_topmost_spec:
  assumes "stack \<noteq> []"
  shows "\<exists>before after best. portal_topmost stack = Some best \<and> stack = before @ best # after \<and>
     (\<forall>x\<in>set before. al_zIndex x \<le> al_zIndex best) \<and> (\<forall>x\<in>set after. al_zIndex x < al_zIndex best)"
proof -
  obtain l ls where r: "rev stack = l # ls" using assms by (cases "rev stack") auto
  then have s: "stack = rev ls @ [l]" by (metis rev.simps(2) rev_rev_ident)
  have top: "portal_topmost stack = Some (topmost_walk l ls)" by (simp add: portal_topmost_def r)
  from topmost_walk_spec[of l ls] show ?thesis
  proof
    assume "topmost_walk l ls = l \<and> (\<forall>x\<in>set ls. al_zIndex x \<le> al_zIndex l)"
    with top s show ?thesis by (intro exI[of _ "rev ls"] exI[of _ "[]"] exI[of _ l]) auto
  next
    assume "\<exists>pre post. ls = pre @ topmost_walk l ls # post \<and>
      al_zIndex l < al_zIndex (topmost_walk l ls) \<and>
      (\<forall>x\<in>set pre. al_zIndex x < al_zIndex (topmost_walk l ls)) \<and>
      (\<forall>x\<in>set post. al_zIndex x \<le> al_zIndex (topmost_walk l ls))"
    then obtain pre post where p: "ls = pre @ topmost_walk l ls # post"
      "al_zIndex l < al_zIndex (topmost_walk l ls)"
      "\<forall>x\<in>set pre. al_zIndex x < al_zIndex (topmost_walk l ls)"
      "\<forall>x\<in>set post. al_zIndex x \<le> al_zIndex (topmost_walk l ls)" by blast
    have "stack = rev post @ topmost_walk l ls # (rev pre @ [l])"
      unfolding s by (subst p(1)) simp
    with top p show ?thesis
      by (intro exI[of _ "rev post"] exI[of _ "rev pre @ [l]"] exI[of _ "topmost_walk l ls"]) auto
  qed
qed

theorem portal_topmost_spec_witness:
  "\<exists>before after best.
     portal_topmost [\<lparr>al_id = ''d'', al_layer = Modal, al_zIndex = 80\<rparr>,
       \<lparr>al_id = ''t'', al_layer = Dropdown, al_zIndex = 30\<rparr>] = Some best \<and>
     [\<lparr>al_id = ''d'', al_layer = Modal, al_zIndex = 80\<rparr>,
       \<lparr>al_id = ''t'', al_layer = Dropdown, al_zIndex = 30\<rparr>] = before @ best # after"
  using portal_topmost_spec[of "[\<lparr>al_id = ''d'', al_layer = Modal, al_zIndex = 80\<rparr>,
       \<lparr>al_id = ''t'', al_layer = Dropdown, al_zIndex = 30\<rparr>]"] by blast

text \<open>Popping the id that was just pushed restores the stack, layers pushed in the meantime
  stay, and the pushed layer carries its override or the default z-index of its kind.\<close>

theorem portal_push_pop:
  assumes "pl_id layer \<notin> al_id ` set stack"
  shows "portal_pop (pl_id layer) (fst (portal_push layer stack) @ later) = stack @ later \<and>
         al_zIndex (snd (portal_push layer stack)) =
           (case pl_zIndex layer of Some z \<Rightarrow> z | None \<Rightarrow> PORTAL_Z_INDEX (pl_layer layer))"
  using portal_pop_append[OF assms] by (simp add: portal_push_def Let_def resolveZIndex_def)

theorem portal_push_pop_witness:
  "portal_pop ''m'' (fst (portal_push \<lparr>pl_id = ''m'', pl_layer = Modal, pl_zIndex = None\<rparr> []) @ []) = []"
  using portal_push_pop[of "\<lparr>pl_id = ''m'', pl_layer = Modal, pl_zIndex = None\<rparr>" "[]" "[]"] by simp

end
