(* ===== verification/Roving_Tabindex.thy ===== *)
theory Roving_Tabindex
  imports Js_Text Contracts
begin

text \<open>
  \<open>headless-core/roving-tabindex.ts\<close>: one tab stop in a composite widget. State is the item
  list, the active id and the typeahead buffer with its reset timer; every operation returns
  the next state and its events. \<open>roving\<close> is the interface Tabs, Toolbar, Menu and TreeView
  use, interpreted on the operations here.
\<close>

section \<open>Data\<close>

datatype orientation = Horizontal | Vertical | Both

text \<open>\<open>disabled?: boolean\<close> is only compared with \<open>true\<close>, so absence is \<open>False\<close>.\<close>

record rover_item =
  ri_id :: string
  ri_disabled :: bool
  ri_text :: "string option"

record rover_options =
  ro_orientation :: orientation
  ro_loop :: bool
  ro_activateOnFocus :: bool
  ro_defaultActiveId :: "string option"
  ro_typeaheadResetMs :: int
  ro_hasOnActiveChange :: bool

record key_event =
  ke_key :: string
  ke_shift :: bool
  ke_meta :: bool
  ke_ctrl :: bool
  ke_alt :: bool

record rover =
  rv_items :: "rover_item list"
  rv_activeId :: "string option"
  rv_listeners :: "listener jsset"
  rv_buffer :: string
  rv_timer :: "int option"

datatype rover_effect = Rover_onActiveChange "string option" | Rover_preventDefault

type_synonym rover_event = "(string option, rover_effect) event"

record rover_item_props =
  rip_tabIndex :: int
  rip_dataActive :: "string option"
  rip_ariaDisabled :: "bool option"

record rover_container_props =
  rcp_ariaOrientation :: "string option"
  rcp_tabIndex :: int

section \<open>Pure helpers\<close>

definition isEnabled :: "rover_item \<Rightarrow> bool" where
  "isEnabled item \<longleftrightarrow> \<not> ri_disabled item"

fun findFirstEnabled :: "rover_item list \<Rightarrow> string option" where
  "findFirstEnabled [] = None"
| "findFirstEnabled (item # items) =
     (if isEnabled item then Some (ri_id item) else findFirstEnabled items)"

text \<open>The loop of the source runs from the last index down: the first hit of the reverse.\<close>

definition findLastEnabled :: "rover_item list \<Rightarrow> string option" where
  "findLastEnabled items = findFirstEnabled (rev items)"

definition indexOfId :: "rover_item list \<Rightarrow> string option \<Rightarrow> int" where
  "indexOfId items iid = (case iid of None \<Rightarrow> -1 | Some k \<Rightarrow> find_index (\<lambda>it. ri_id it = k) items)"

text \<open>
  The body of \<open>step\<close>: \<open>start\<close> is the anchored position, \<open>i\<close> the running one and the last
  argument the iterations left (\<open>items.length - traveled\<close>).
\<close>

fun step_loop :: "rover_item list \<Rightarrow> int \<Rightarrow> bool \<Rightarrow> int \<Rightarrow> int \<Rightarrow> nat \<Rightarrow> int" where
  "step_loop items dir loop start i 0 = start"
| "step_loop items dir loop start i (Suc left) =
     (let n = int (length items); j = i + dir in
      if j < 0 \<and> \<not> loop then start
      else if j \<ge> n \<and> \<not> loop then (if start = n then -1 else start)
      else
        (let k = (if j < 0 then n - 1 else if j \<ge> n then 0 else j) in
         if isEnabled (items ! nat k) then k
         else if k = start then start
         else step_loop items dir loop start k left))"

definition step :: "rover_item list \<Rightarrow> int \<Rightarrow> int \<Rightarrow> bool \<Rightarrow> int" where
  "step items from dir loop =
     (let n = int (length items) in
      if n = 0 then -1
      else
        (let start = (if from < 0 \<or> from \<ge> n then (if dir = 1 then -1 else n) else from) in
         step_loop items dir loop start start (length items)))"

fun nextKeysFor :: "orientation \<Rightarrow> string list" where
  "nextKeysFor Horizontal = [''ArrowRight'']"
| "nextKeysFor Vertical = [''ArrowDown'']"
| "nextKeysFor Both = [''ArrowRight'', ''ArrowDown'']"

fun prevKeysFor :: "orientation \<Rightarrow> string list" where
  "prevKeysFor Horizontal = [''ArrowLeft'']"
| "prevKeysFor Vertical = [''ArrowUp'']"
| "prevKeysFor Both = [''ArrowLeft'', ''ArrowUp'']"

definition isPrintable :: "string \<Rightarrow> bool" where
  "isPrintable key \<longleftrightarrow> length key = 1 \<and> (\<exists>c\<in>set key. \<not> is_space c)"

section \<open>Operations\<close>

definition resolveInitialActive :: "rover_options \<Rightarrow> rover_item list \<Rightarrow> string option" where
  "resolveInitialActive opts items =
     (case ro_defaultActiveId opts of
        None \<Rightarrow> findFirstEnabled items
      | Some requested \<Rightarrow>
          (let idx = indexOfId items (Some requested) in
           if idx \<ge> 0 \<and> isEnabled (items ! nat idx) then Some requested
           else findFirstEnabled items))"

definition createRovingTabindex :: "rover_options \<Rightarrow> rover_item list \<Rightarrow> rover" where
  "createRovingTabindex opts items =
     \<lparr>rv_items = items, rv_activeId = resolveInitialActive opts items,
      rv_listeners = [], rv_buffer = [], rv_timer = None\<rparr>"

definition rover_emit :: "rover_options \<Rightarrow> rover \<Rightarrow> rover_event list" where
  "rover_emit opts r =
     emit_to (rv_listeners r) (rv_activeId r) @
     (if ro_hasOnActiveChange opts then [Did (Rover_onActiveChange (rv_activeId r))] else [])"

definition clearTypeahead :: "rover \<Rightarrow> rover" where
  "clearTypeahead r = r\<lparr>rv_timer := None, rv_buffer := []\<rparr>"

definition setActiveInternal :: "rover_options \<Rightarrow> string \<Rightarrow> rover \<Rightarrow> rover \<times> rover_event list" where
  "setActiveInternal opts iid r =
     (if Some iid = rv_activeId r then (r, [])
      else
        (let idx = indexOfId (rv_items r) (Some iid) in
         if idx < 0 \<or> \<not> isEnabled (rv_items r ! nat idx) then (r, [])
         else (let r' = r\<lparr>rv_activeId := Some iid\<rparr> in (r', rover_emit opts r'))))"

definition moveTo :: "rover_options \<Rightarrow> int \<Rightarrow> rover \<Rightarrow> rover \<times> rover_event list" where
  "moveTo opts idx r =
     (if idx < 0 \<or> idx \<ge> int (length (rv_items r)) then (r, [])
      else setActiveInternal opts (ri_id (rv_items r ! nat idx)) r)"

text \<open>The indices the typeahead search visits: after the active item, wrapping around.\<close>

definition typeahead_order :: "rover \<Rightarrow> nat list" where
  "typeahead_order r =
     (let pivot = indexOfId (rv_items r) (rv_activeId r); n = length (rv_items r) in
      map (\<lambda>off. nat ((pivot + int off) mod int n)) [1..<Suc n])"

definition typeahead_hit :: "rover_item list \<Rightarrow> string \<Rightarrow> nat \<Rightarrow> bool" where
  "typeahead_hit items buf i \<longleftrightarrow>
     isEnabled (items ! i) \<and>
     (case ri_text (items ! i) of None \<Rightarrow> False | Some t \<Rightarrow> starts_with (to_lower t) buf)"

definition handleTypeahead :: "rover_options \<Rightarrow> string \<Rightarrow> rover \<Rightarrow> rover \<times> rover_event list" where
  "handleTypeahead opts char r =
     (let buf = rv_buffer r @ to_lower char;
          r1 = r\<lparr>rv_buffer := buf, rv_timer := Some (ro_typeaheadResetMs opts)\<rparr> in
      case List.find (typeahead_hit (rv_items r1) buf) (typeahead_order r1) of
        None \<Rightarrow> (r1, [])
      | Some i \<Rightarrow> setActiveInternal opts (ri_id (rv_items r1 ! i)) r1)"

text \<open>The timer set by \<open>setTimeout(clearTypeahead, typeaheadResetMs)\<close> fires.\<close>

definition typeahead_timeout :: "rover \<Rightarrow> rover" where
  "typeahead_timeout r = (if rv_timer r = None then r else clearTypeahead r)"

text \<open>\<open>findInsertionFallback\<close>: removal positions are not tracked, the walk starts at the end.\<close>

definition findInsertionFallback :: "string option \<Rightarrow> rover_item list \<Rightarrow> int" where
  "findInsertionFallback priorId items = int (length items) - 1"

text \<open>The walk \<open>for (let i = pseudoIdx; i >= 0; i -= 1)\<close> with its bounds check.\<close>

definition fallback_before :: "rover_item list \<Rightarrow> int \<Rightarrow> string option" where
  "fallback_before items i = findFirstEnabled (rev (take (nat (i + 1)) items))"

definition rover_setItems :: "rover_options \<Rightarrow> rover_item list \<Rightarrow> rover \<Rightarrow> rover \<times> rover_event list" where
  "rover_setItems opts nextItems r =
     (let prevActive = rv_activeId r;
          r1 = r\<lparr>rv_items := nextItems\<rparr>;
          idx = indexOfId nextItems prevActive in
      if idx < 0 \<or> \<not> isEnabled (nextItems ! nat idx) then
        (let pseudoIdx = (if idx \<ge> 0 then idx else findInsertionFallback prevActive nextItems);
             active = (case fallback_before nextItems pseudoIdx of
                         None \<Rightarrow> findFirstEnabled nextItems | Some k \<Rightarrow> Some k);
             r2 = r1\<lparr>rv_activeId := active\<rparr> in
         (r2, if active \<noteq> prevActive then rover_emit opts r2 else []))
      else (r1, []))"

definition rover_setActive :: "rover_options \<Rightarrow> string \<Rightarrow> rover \<Rightarrow> rover \<times> rover_event list" where
  "rover_setActive opts iid r = setActiveInternal opts iid r"

definition rover_next :: "rover_options \<Rightarrow> rover \<Rightarrow> rover \<times> rover_event list" where
  "rover_next opts r =
     moveTo opts (step (rv_items r) (indexOfId (rv_items r) (rv_activeId r)) 1 (ro_loop opts)) r"

definition rover_prev :: "rover_options \<Rightarrow> rover \<Rightarrow> rover \<times> rover_event list" where
  "rover_prev opts r =
     moveTo opts (step (rv_items r) (indexOfId (rv_items r) (rv_activeId r)) (-1) (ro_loop opts)) r"

definition rover_first :: "rover_options \<Rightarrow> rover \<Rightarrow> rover \<times> rover_event list" where
  "rover_first opts r =
     (case findFirstEnabled (rv_items r) of None \<Rightarrow> (r, []) | Some iid \<Rightarrow> setActiveInternal opts iid r)"

definition rover_last :: "rover_options \<Rightarrow> rover \<Rightarrow> rover \<times> rover_event list" where
  "rover_last opts r =
     (case findLastEnabled (rv_items r) of None \<Rightarrow> (r, []) | Some iid \<Rightarrow> setActiveInternal opts iid r)"

definition rover_getContainerProps :: "rover_options \<Rightarrow> rover_container_props" where
  "rover_getContainerProps opts =
     \<lparr>rcp_ariaOrientation = (case ro_orientation opts of
          Horizontal \<Rightarrow> Some ''horizontal'' | Vertical \<Rightarrow> Some ''vertical'' | Both \<Rightarrow> None),
      rcp_tabIndex = -1\<rparr>"

definition rover_getItemProps :: "rover \<Rightarrow> string \<Rightarrow> rover_item_props" where
  "rover_getItemProps r iid =
     (let idx = indexOfId (rv_items r) (Some iid);
          isActive = (Some iid = rv_activeId r);
          isDis = (idx \<ge> 0 \<and> \<not> isEnabled (rv_items r ! nat idx)) in
      \<lparr>rip_tabIndex = (if isActive then 0 else -1),
       rip_dataActive = (if isActive then Some [] else None),
       rip_ariaDisabled = (if isDis then Some True else None)\<rparr>)"

definition prevented :: "rover \<times> rover_event list \<Rightarrow> rover \<times> rover_event list" where
  "prevented p = after [Did Rover_preventDefault] p"

definition rover_handleKeyDown :: "rover_options \<Rightarrow> key_event \<Rightarrow> rover \<Rightarrow> rover \<times> rover_event list" where
  "rover_handleKeyDown opts e r =
     (if ke_meta e \<or> ke_ctrl e \<or> ke_alt e then (r, [])
      else if ke_key e \<in> set (nextKeysFor (ro_orientation opts)) then
        prevented (rover_next opts (clearTypeahead r))
      else if ke_key e \<in> set (prevKeysFor (ro_orientation opts)) then
        prevented (rover_prev opts (clearTypeahead r))
      else if ke_key e = ''Home'' then prevented (rover_first opts (clearTypeahead r))
      else if ke_key e = ''End'' then prevented (rover_last opts (clearTypeahead r))
      else if isPrintable (ke_key e) then handleTypeahead opts (ke_key e) r
      else (r, []))"

datatype rover_op =
    Rover_setItems "rover_item list"
  | Rover_setActive string
  | Rover_next | Rover_prev | Rover_first | Rover_last
  | Rover_keyDown key_event
  | Rover_timeout
  | Rover_subscribe listener
  | Rover_unsubscribe listener

fun rover_step :: "rover_options \<Rightarrow> rover_op \<Rightarrow> rover \<Rightarrow> rover \<times> rover_event list" where
  "rover_step opts (Rover_setItems items) r = rover_setItems opts items r"
| "rover_step opts (Rover_setActive iid) r = rover_setActive opts iid r"
| "rover_step opts Rover_next r = rover_next opts r"
| "rover_step opts Rover_prev r = rover_prev opts r"
| "rover_step opts Rover_first r = rover_first opts r"
| "rover_step opts Rover_last r = rover_last opts r"
| "rover_step opts (Rover_keyDown e) r = rover_handleKeyDown opts e r"
| "rover_step opts Rover_timeout r = (typeahead_timeout r, [])"
| "rover_step opts (Rover_subscribe l) r = (r\<lparr>rv_listeners := subscribe l (rv_listeners r)\<rparr>, [])"
| "rover_step opts (Rover_unsubscribe l) r =
     (r\<lparr>rv_listeners := unsubscribe l (rv_listeners r)\<rparr>, [])"

section \<open>The helpers\<close>

lemma findFirstEnabled_None: "findFirstEnabled items = None \<longleftrightarrow> (\<forall>it\<in>set items. \<not> isEnabled it)"
  by (induction items) auto

lemma findFirstEnabled_Some:
  "findFirstEnabled items = Some k \<Longrightarrow> \<exists>it\<in>set items. isEnabled it \<and> ri_id it = k"
  by (induction items) (auto split: if_splits)

lemma findLastEnabled_None: "findLastEnabled items = None \<longleftrightarrow> (\<forall>it\<in>set items. \<not> isEnabled it)"
  by (simp add: findLastEnabled_def findFirstEnabled_None)

lemma findLastEnabled_Some:
  "findLastEnabled items = Some k \<Longrightarrow> \<exists>it\<in>set items. isEnabled it \<and> ri_id it = k"
  using findFirstEnabled_Some[of "rev items" k] by (simp add: findLastEnabled_def)

lemma fallback_before_Some:
  "fallback_before items i = Some k \<Longrightarrow> \<exists>it\<in>set items. isEnabled it \<and> ri_id it = k"
  using findFirstEnabled_Some[of "rev (take (nat (i + 1)) items)" k]
  by (auto simp: fallback_before_def dest: in_set_takeD)

lemma indexOfId_None [simp]: "indexOfId items None = -1"
  by (simp add: indexOfId_def)

lemma indexOfId_nth:
  "0 \<le> indexOfId items (Some k) \<Longrightarrow>
   nat (indexOfId items (Some k)) < length items \<and> ri_id (items ! nat (indexOfId items (Some k))) = k"
  using find_index_nth[of "\<lambda>it. ri_id it = k" items] by (simp add: indexOfId_def)

lemma indexOfId_mem:
  "0 \<le> indexOfId items (Some k) \<Longrightarrow> items ! nat (indexOfId items (Some k)) \<in> set items"
  by (simp add: indexOfId_nth)

lemma indexOfId_ge0: "0 \<le> indexOfId items k \<Longrightarrow> \<exists>i. k = Some i"
  by (cases k) auto

lemma indexOfId_less: "indexOfId items k < int (length items)"
  by (cases k) (auto simp: indexOfId_def find_index_bound)

lemma indexOfId_distinct:
  assumes "distinct (map ri_id items)" and "a < length items"
  shows "indexOfId items (Some (ri_id (items ! a))) = int a"
proof -
  let ?P = "\<lambda>it. ri_id it = ri_id (items ! a)"
  show ?thesis
  proof (rule find_index_cases[of ?P items])
    assume "\<forall>x\<in>set items. \<not> ?P x"
    then show ?thesis using assms(2) by auto
  next
    fix j assume j: "find_index ?P items = int j" "j < length items" "?P (items ! j)"
    then have "j = a" using assms by (simp add: distinct_conv_nth) (metis length_map nth_map)
    then show ?thesis using j by (simp add: indexOfId_def)
  qed
qed

section \<open>The active id is always an enabled item\<close>

definition active_ok :: "rover_item list \<Rightarrow> string option \<Rightarrow> bool" where
  "active_ok items act \<longleftrightarrow>
     (case act of
        None \<Rightarrow> \<forall>it\<in>set items. \<not> isEnabled it
      | Some k \<Rightarrow> \<exists>it\<in>set items. isEnabled it \<and> ri_id it = k)"

definition rover_ok :: "rover \<Rightarrow> bool" where
  "rover_ok r \<longleftrightarrow> active_ok (rv_items r) (rv_activeId r)"

lemma active_ok_None: "active_ok items None \<longleftrightarrow> (\<forall>it\<in>set items. \<not> isEnabled it)"
  by (simp add: active_ok_def)

lemma active_ok_Some: "active_ok items (Some k) \<longleftrightarrow> (\<exists>it\<in>set items. isEnabled it \<and> ri_id it = k)"
  by (simp add: active_ok_def)

lemma active_ok_first: "active_ok items (findFirstEnabled items)"
  using findFirstEnabled_None[of items] findFirstEnabled_Some[of items]
  by (cases "findFirstEnabled items") (auto simp: active_ok_None active_ok_Some)

lemma active_ok_index:
  "0 \<le> indexOfId items k \<Longrightarrow> isEnabled (items ! nat (indexOfId items k)) \<Longrightarrow> active_ok items k"
  using indexOfId_mem[of items "the k"] indexOfId_nth[of items "the k"]
  by (cases k) (auto simp: active_ok_Some)

lemma rover_ok_None: "rover_ok r \<Longrightarrow> rv_activeId r = None \<Longrightarrow> it \<in> set (rv_items r) \<Longrightarrow> \<not> isEnabled it"
  by (simp add: rover_ok_def active_ok_None)

lemma rover_ok_Some:
  "rover_ok r \<Longrightarrow> rv_activeId r = Some k \<Longrightarrow> \<exists>it\<in>set (rv_items r). isEnabled it \<and> ri_id it = k"
  by (simp add: rover_ok_def active_ok_Some)

lemma rover_ok_create: "rover_ok (createRovingTabindex opts items)"
  by (auto simp: createRovingTabindex_def resolveInitialActive_def Let_def rover_ok_def
      active_ok_first active_ok_index split: option.split)

text \<open>What one activation can do: nothing, or move to an enabled item and emit once.\<close>

lemma setActiveInternal_cases:
  obtains (same) "setActiveInternal opts k r = (r, [])"
  | (moved) "setActiveInternal opts k r =
      (r\<lparr>rv_activeId := Some k\<rparr>, rover_emit opts (r\<lparr>rv_activeId := Some k\<rparr>))"
      "\<exists>it\<in>set (rv_items r). isEnabled it \<and> ri_id it = k"
proof (cases "Some k = rv_activeId r \<or> indexOfId (rv_items r) (Some k) < 0 \<or>
    \<not> isEnabled (rv_items r ! nat (indexOfId (rv_items r) (Some k)))")
  case True
  then show ?thesis using same by (auto simp: setActiveInternal_def Let_def)
next
  case False
  then have "\<exists>it\<in>set (rv_items r). isEnabled it \<and> ri_id it = k"
    using indexOfId_mem[of "rv_items r" k] indexOfId_nth[of "rv_items r" k] by (metis not_le)
  with False show ?thesis using moved by (auto simp: setActiveInternal_def Let_def)
qed

lemma setActiveInternal_enabled:
  assumes "distinct (map ri_id (rv_items r))" and "it \<in> set (rv_items r)" and "isEnabled it"
  shows "rv_activeId (fst (setActiveInternal opts (ri_id it) r)) = Some (ri_id it)"
proof -
  obtain a where a: "a < length (rv_items r)" "it = rv_items r ! a"
    using assms(2) by (metis in_set_conv_nth)
  with assms show ?thesis by (simp add: setActiveInternal_def Let_def indexOfId_distinct)
qed

definition rover_frame :: "rover \<Rightarrow> rover \<Rightarrow> bool" where
  "rover_frame r r' \<longleftrightarrow> rv_items r' = rv_items r \<and> rv_listeners r' = rv_listeners r \<and> (rover_ok r \<longrightarrow> rover_ok r')"

lemma rover_frame_refl [simp, intro]: "rover_frame r r"
  by (simp add: rover_frame_def)

lemma setActiveInternal_frame [intro]: "rover_frame r (fst (setActiveInternal opts k r))"
  by (rule setActiveInternal_cases[of opts k r]) (auto simp: rover_frame_def rover_ok_def active_ok_Some)

lemma clearTypeahead_frame [intro]: "rover_frame r (clearTypeahead r)"
  by (simp add: rover_frame_def clearTypeahead_def rover_ok_def)

lemma moveTo_frame [intro]: "rover_frame r (fst (moveTo opts i r))"
  by (simp add: moveTo_def setActiveInternal_frame)

lemma rover_frame_trans: "rover_frame r s \<Longrightarrow> rover_frame s t \<Longrightarrow> rover_frame r t"
  by (simp add: rover_frame_def)

lemma handleTypeahead_frame [intro]: "rover_frame r (fst (handleTypeahead opts c r))"
proof -
  let ?r1 = "r\<lparr>rv_buffer := rv_buffer r @ to_lower c, rv_timer := Some (ro_typeaheadResetMs opts)\<rparr>"
  have r1: "rover_frame r ?r1" by (simp add: rover_frame_def rover_ok_def)
  have "rover_frame r (fst (setActiveInternal opts k ?r1))" for k
    by (rule rover_frame_trans[OF r1 setActiveInternal_frame])
  with r1 show ?thesis by (simp add: handleTypeahead_def Let_def split: option.split)
qed

lemma rover_moves_frame [intro]:
  "rover_frame r (fst (rover_setActive opts k r))" "rover_frame r (fst (rover_next opts r))"
  "rover_frame r (fst (rover_prev opts r))" "rover_frame r (fst (rover_first opts r))"
  "rover_frame r (fst (rover_last opts r))"
  by (auto simp: rover_setActive_def rover_next_def rover_prev_def rover_first_def rover_last_def
      split: option.split)

lemma fst_prevented [simp]: "fst (prevented p) = fst p"
  by (simp add: prevented_def)

lemma rover_handleKeyDown_frame [intro]: "rover_frame r (fst (rover_handleKeyDown opts e r))"
  by (auto simp: rover_handleKeyDown_def intro: rover_frame_trans[OF clearTypeahead_frame])

lemma rover_setItems_items [simp]: "rv_items (fst (rover_setItems opts items r)) = items"
  by (simp add: rover_setItems_def Let_def)

lemma rover_setItems_listeners [simp]: "rv_listeners (fst (rover_setItems opts items r)) = rv_listeners r"
  by (simp add: rover_setItems_def Let_def)

text \<open>Re-anchoring needs no assumption on the state before.\<close>

lemma rover_setItems_ok: "rover_ok (fst (rover_setItems opts items r))"
proof (cases "indexOfId items (rv_activeId r) < 0 \<or>
    \<not> isEnabled (items ! nat (indexOfId items (rv_activeId r)))")
  case True
  have "active_ok items (case fallback_before items i of
      None \<Rightarrow> findFirstEnabled items | Some k \<Rightarrow> Some k)" for i
    by (auto simp: active_ok_first active_ok_Some dest: fallback_before_Some split: option.split)
  with True show ?thesis by (simp add: rover_setItems_def Let_def rover_ok_def)
next
  case False
  then show ?thesis by (simp add: rover_setItems_def Let_def rover_ok_def active_ok_index)
qed

lemma rover_frame_ok: "rover_ok r \<Longrightarrow> rover_frame r r' \<Longrightarrow> rover_ok r'"
  by (simp add: rover_frame_def)

lemma rover_step_ok: "rover_ok r \<Longrightarrow> rover_ok (fst (rover_step opts x r))"
proof (cases x)
  case (Rover_setItems items)
  then show ?thesis by (simp add: rover_setItems_ok)
next
  case Rover_timeout
  then show "rover_ok r \<Longrightarrow> ?thesis"
    by (auto simp: typeahead_timeout_def intro: rover_frame_ok)
next
  case (Rover_subscribe l)
  then show "rover_ok r \<Longrightarrow> ?thesis" by (simp add: rover_ok_def)
next
  case (Rover_unsubscribe l)
  then show "rover_ok r \<Longrightarrow> ?thesis" by (simp add: rover_ok_def)
qed (auto intro: rover_frame_ok)

interpretation rover_component: component "rover_step opts" rover_ok "\<lambda>_. True" for opts
  by unfold_locales (rule rover_step_ok)

section \<open>Listeners track the active id\<close>

abbreviation rover_tracked :: "rover \<Rightarrow> rover \<times> rover_event list \<Rightarrow> bool" where
  "rover_tracked \<equiv> tracked rv_listeners rv_activeId"

lemma rover_emit_tracked: "rv_listeners r = rv_listeners s \<Longrightarrow> rover_tracked s (r, rover_emit opts r)"
  by (simp add: rover_emit_def tracked_def)

lemma setActiveInternal_tracked: "rover_tracked r (setActiveInternal opts k r)"
  by (rule setActiveInternal_cases[of opts k r]) (auto simp: rover_emit_tracked)

lemma rover_tracked_prevented [simp]: "rover_tracked r (prevented p) \<longleftrightarrow> rover_tracked r p"
  by (simp add: prevented_def)

lemma handleTypeahead_tracked: "rover_tracked r (handleTypeahead opts c r)"
  by (rule tracked_from[where s = "r\<lparr>rv_buffer := rv_buffer r @ to_lower c,
      rv_timer := Some (ro_typeaheadResetMs opts)\<rparr>"])
    (auto simp: handleTypeahead_def Let_def setActiveInternal_tracked split: option.split)

lemma rover_setItems_tracked: "rover_tracked r (rover_setItems opts items r)"
  by (auto simp: rover_setItems_def Let_def rover_emit_tracked)

lemma rover_moves_tracked:
  "rover_tracked r (rover_setActive opts k r)" "rover_tracked r (rover_next opts r)"
  "rover_tracked r (rover_prev opts r)" "rover_tracked r (rover_first opts r)"
  "rover_tracked r (rover_last opts r)"
  by (auto simp: rover_setActive_def rover_next_def rover_prev_def rover_first_def rover_last_def
      moveTo_def setActiveInternal_tracked split: option.split)

lemma clearTypeahead_same [simp]:
  "rv_listeners (clearTypeahead r) = rv_listeners r" "rv_activeId (clearTypeahead r) = rv_activeId r"
  "rv_items (clearTypeahead r) = rv_items r"
  by (simp_all add: clearTypeahead_def)

lemma rover_handleKeyDown_tracked: "rover_tracked r (rover_handleKeyDown opts e r)"
  using rover_moves_tracked[of "clearTypeahead r" opts] handleTypeahead_tracked
  by (auto simp: rover_handleKeyDown_def intro: tracked_from)

fun rover_drops :: "listener \<Rightarrow> rover_op \<Rightarrow> bool" where
  "rover_drops l (Rover_unsubscribe k) \<longleftrightarrow> l = k"
| "rover_drops l _ \<longleftrightarrow> False"

lemma rover_step_listeners:
  "l \<in> set (rv_listeners r) \<Longrightarrow> \<not> rover_drops l x \<Longrightarrow> l \<in> set (rv_listeners (fst (rover_step opts x r)))"
  using rover_moves_frame[of r opts] rover_handleKeyDown_frame[of r opts]
  by (cases x) (auto simp: rover_frame_def typeahead_timeout_def)

lemma rover_step_tracked:
  "l \<in> set (rv_listeners r) \<Longrightarrow> \<not> rover_drops l x \<Longrightarrow>
   mirror l (rv_activeId r) (sent (snd (rover_step opts x r))) =
   rv_activeId (fst (rover_step opts x r))"
  using rover_moves_tracked[of r opts] rover_handleKeyDown_tracked[of r opts]
    rover_setItems_tracked[of r opts]
  by (cases x) (auto simp: tracked_def typeahead_timeout_def)

interpretation rover_observable:
  observable "rover_step opts" rover_ok "\<lambda>_. True" rv_listeners rv_activeId rover_drops for opts
  by unfold_locales (simp_all add: rover_step_listeners rover_step_tracked)

section \<open>Movement\<close>

text \<open>
  Offset \<open>k\<close> from index \<open>a\<close> in direction \<open>dir\<close>, wrapping around; \<open>step\<close> with \<open>loop\<close>
  answers the nearest enabled index in that direction.
\<close>

definition cyc :: "nat \<Rightarrow> int \<Rightarrow> nat \<Rightarrow> nat \<Rightarrow> nat" where
  "cyc n dir a k = nat ((int a + dir * int k) mod int n)"

lemma cyc_less: "0 < n \<Longrightarrow> cyc n dir a k < n"
  by (simp add: cyc_def nat_less_iff)

lemma int_cyc: "0 < n \<Longrightarrow> int (cyc n dir a k) = (int a + dir * int k) mod int n"
  by (simp add: cyc_def)

lemma cyc_full [simp]: "a < n \<Longrightarrow> cyc n dir a n = a"
  by (simp add: cyc_def)

lemma wrap_mod:
  assumes "(dir::int) = 1 \<or> dir = -1" and "0 \<le> i" and "i < n"
  shows "(if i + dir < 0 then n - 1 else if i + dir \<ge> n then 0 else i + dir) = (i + dir) mod n"
proof -
  consider "i + dir = -1" "dir = -1" | "i + dir = n" | "0 \<le> i + dir" "i + dir < n"
    using assms by linarith
  then show ?thesis
  proof cases
    case 1
    then show ?thesis using assms zmod_minus1[of n] by simp
  qed (use assms in auto)
qed

lemma step_loop_cyc:
  assumes dir: "dir = 1 \<or> dir = -1" and a: "a < length items" and en: "isEnabled (items ! a)"
    and t: "t + left = length items" "0 < left"
  shows "\<exists>k. t < k \<and> k \<le> length items \<and>
      step_loop items dir True (int a) (int (cyc (length items) dir a t)) left =
        int (cyc (length items) dir a k) \<and>
      isEnabled (items ! cyc (length items) dir a k) \<and>
      (\<forall>m. t < m \<and> m < k \<longrightarrow> \<not> isEnabled (items ! cyc (length items) dir a m))"
  using t
proof (induction left arbitrary: t)
  case 0
  then show ?case by simp
next
  case (Suc left)
  let ?n = "length items"
  let ?c = "cyc ?n dir a"
  have n0: "0 < ?n" using a by (cases items) auto
  have nxt: "(int (?c t) + dir) mod int ?n = int (?c (Suc t))"
    using n0 by (simp add: int_cyc mod_simps algebra_simps)
  have unf: "step_loop items dir True (int a) (int (?c t)) (Suc left) =
      (if isEnabled (items ! ?c (Suc t)) then int (?c (Suc t))
       else if int (?c (Suc t)) = int a then int a
       else step_loop items dir True (int a) (int (?c (Suc t))) left)"
    using wrap_mod[OF dir, of "int (?c t)" "int ?n"] cyc_less[OF n0, of dir a t] nxt
    by (simp add: Let_def split del: if_split cong: if_cong)
  show ?case
  proof (cases "isEnabled (items ! ?c (Suc t))")
    case True
    have "Suc t \<le> ?n" using Suc.prems by simp
    with True unf show ?thesis by (intro exI[of _ "Suc t"]) auto
  next
    case False
    have "Suc t < ?n" using False en Suc.prems a
      by (cases "left = 0") auto
    then have "Suc t + left = ?n" "0 < left" using Suc.prems by auto
    from Suc.IH[OF this] obtain k where k: "Suc t < k" "k \<le> ?n"
      "step_loop items dir True (int a) (int (?c (Suc t))) left = int (?c k)"
      "isEnabled (items ! ?c k)" "\<forall>m. Suc t < m \<and> m < k \<longrightarrow> \<not> isEnabled (items ! ?c m)" by blast
    have "?c (Suc t) \<noteq> a" using False en by auto
    then have "step_loop items dir True (int a) (int (?c t)) (Suc left) = int (?c k)"
      using unf False k(3) by simp
    moreover have "\<forall>m. t < m \<and> m < k \<longrightarrow> \<not> isEnabled (items ! ?c m)"
      using k(5) False by (metis Suc_lessI)
    ultimately show ?thesis using k by (intro exI[of _ k]) auto
  qed
qed

definition nearest :: "rover_item list \<Rightarrow> int \<Rightarrow> nat \<Rightarrow> nat \<Rightarrow> bool" where
  "nearest items dir a k \<longleftrightarrow> 1 \<le> k \<and> k \<le> length items \<and>
     isEnabled (items ! cyc (length items) dir a k) \<and>
     (\<forall>m. 1 \<le> m \<and> m < k \<longrightarrow> \<not> isEnabled (items ! cyc (length items) dir a m))"

lemma nearest_unique: "nearest items dir a k \<Longrightarrow> nearest items dir a l \<Longrightarrow> k = l"
  unfolding nearest_def by (metis linorder_neqE_nat)

lemma step_nearest:
  assumes "dir = 1 \<or> dir = -1" and a: "a < length items" and "isEnabled (items ! a)"
  shows "\<exists>k. nearest items dir a k \<and> step items (int a) dir True = int (cyc (length items) dir a k)"
proof -
  have c0: "cyc (length items) dir a 0 = a" using a by (simp add: cyc_def)
  have ne: "items \<noteq> []" using a by (cases items) auto
  then have "step items (int a) dir True = step_loop items dir True (int a) (int a) (length items)"
    using a by (auto simp: step_def Let_def)
  moreover note ne
  ultimately show ?thesis
    using step_loop_cyc[OF assms, of 0 "length items"] c0
    by (auto simp: nearest_def Suc_le_eq)
qed

text \<open>One arrow key, seen from a known active index.\<close>

lemma rover_move_nearest:
  assumes dist: "distinct (map ri_id (rv_items r))" and a: "a < length (rv_items r)"
    and en: "isEnabled (rv_items r ! a)" and act: "rv_activeId r = Some (ri_id (rv_items r ! a))"
    and dir: "dir = 1 \<or> dir = -1"
  shows "\<exists>k. nearest (rv_items r) dir a k \<and>
      rv_activeId (fst (moveTo opts (step (rv_items r) (indexOfId (rv_items r) (rv_activeId r)) dir True) r)) =
      Some (ri_id (rv_items r ! cyc (length (rv_items r)) dir a k))"
proof -
  let ?n = "length (rv_items r)"
  from step_nearest[OF dir a en] obtain k where k: "nearest (rv_items r) dir a k"
    "step (rv_items r) (int a) dir True = int (cyc ?n dir a k)" by blast
  have n0: "0 < ?n" using a by auto
  have "rv_activeId (fst (setActiveInternal opts (ri_id (rv_items r ! cyc ?n dir a k)) r)) =
      Some (ri_id (rv_items r ! cyc ?n dir a k))"
    using k(1) cyc_less[OF n0] by (intro setActiveInternal_enabled[OF dist]) (auto simp: nearest_def)
  then have "rv_activeId (fst (moveTo opts (step (rv_items r) (int a) dir True) r)) =
      Some (ri_id (rv_items r ! cyc ?n dir a k))"
    using k(2) cyc_less[OF n0, of dir a k] by (simp add: moveTo_def)
  then show ?thesis using k(1) act indexOfId_distinct[OF dist a] by auto
qed

text \<open>Going back: the nearest enabled index against the direction is where we came from.\<close>

lemma cyc_back: "a < n \<Longrightarrow> m \<le> k \<Longrightarrow> cyc n (- dir) (cyc n dir a k) m = cyc n dir a (k - m)"
  by (simp add: cyc_def mod_simps algebra_simps of_nat_diff)

lemma nearest_back:
  assumes a: "a < length items" and en: "isEnabled (items ! a)" and k: "nearest items dir a k"
  shows "nearest items (- dir) (cyc (length items) dir a k) k"
proof -
  have c0: "cyc (length items) dir a 0 = a" using a by (simp add: cyc_def)
  have "\<not> isEnabled (items ! cyc (length items) dir a (k - m))" if "1 \<le> m" "m < k" for m
    using k that by (simp add: nearest_def)
  then show ?thesis using k en c0 by (auto simp: nearest_def cyc_back[OF a])
qed

definition rover_move :: "rover_options \<Rightarrow> int \<Rightarrow> rover \<Rightarrow> rover \<times> rover_event list" where
  "rover_move opts dir r =
     moveTo opts (step (rv_items r) (indexOfId (rv_items r) (rv_activeId r)) dir (ro_loop opts)) r"

lemma rover_move_dirs: "rover_next opts = rover_move opts 1" "rover_prev opts = rover_move opts (-1)"
  by (simp_all add: fun_eq_iff rover_next_def rover_prev_def rover_move_def)

lemma rover_move_frame: "rover_frame r (fst (rover_move opts dir r))"
  by (auto simp: rover_move_def)

lemma rover_move_back:
  assumes loop: "ro_loop opts" and ok: "rover_ok r" and dist: "distinct (map ri_id (rv_items r))"
    and dir: "dir = 1 \<or> dir = -1"
  shows "rv_activeId (fst (rover_move opts (- dir) (fst (rover_move opts dir r)))) = rv_activeId r"
proof -
  let ?s = "fst (rover_move opts dir r)"
  let ?t = "fst (rover_move opts (- dir) ?s)"
  let ?n = "length (rv_items r)"
  have s: "rv_items ?s = rv_items r" "rover_ok ?s" "rv_items ?t = rv_items r" "rover_ok ?t"
    using rover_move_frame[of r opts dir] rover_move_frame[of ?s opts "- dir"] ok
    by (simp_all add: rover_frame_def)
  show ?thesis
  proof (cases "rv_activeId r")
    case None
    then have "\<forall>it\<in>set (rv_items ?t). \<not> isEnabled it" using ok s(3) by (simp add: rover_ok_None)
    then show ?thesis using rover_ok_Some[OF s(4)] None by (cases "rv_activeId ?t") auto
  next
    case (Some i)
    with ok obtain it where "it \<in> set (rv_items r)" "isEnabled it" "ri_id it = i"
      using rover_ok_Some by blast
    then obtain a where a: "a < ?n" "isEnabled (rv_items r ! a)" "i = ri_id (rv_items r ! a)"
      by (metis in_set_conv_nth)
    with rover_move_nearest[OF dist _ _ _ dir, of a opts] Some loop obtain k where
      k: "nearest (rv_items r) dir a k"
         "rv_activeId ?s = Some (ri_id (rv_items r ! cyc ?n dir a k))"
      by (auto simp: rover_move_def)
    let ?b = "cyc ?n dir a k"
    have "0 < ?n" using a by auto
    then have b: "?b < ?n" "isEnabled (rv_items r ! ?b)"
      using cyc_less k(1) by (auto simp: nearest_def)
    from rover_move_nearest[of ?s ?b "- dir" opts] b k(2) dist dir loop s(1) obtain l where
      l: "nearest (rv_items r) (- dir) ?b l"
         "rv_activeId ?t = Some (ri_id (rv_items r ! cyc ?n (- dir) ?b l))"
      by (auto simp: rover_move_def)
    have "l = k" using nearest_unique[OF l(1) nearest_back[OF a(1,2) k(1)]] .
    moreover have "cyc ?n (- dir) ?b k = a"
      using cyc_back[OF a(1), of k k dir] a(1) by (simp add: cyc_def)
    ultimately show ?thesis using l(2) Some a(3) by simp
  qed
qed

section \<open>The interface the composite widgets use\<close>

locale roving =
  fixes items_of :: "'r \<Rightarrow> rover_item list"
    and active_of :: "'r \<Rightarrow> string option"
    and ok :: "'r \<Rightarrow> bool"
    and set_items :: "rover_item list \<Rightarrow> 'r \<Rightarrow> 'r \<times> 'e list"
    and set_active :: "string \<Rightarrow> 'r \<Rightarrow> 'r \<times> 'e list"
    and key :: "'k \<Rightarrow> 'r \<Rightarrow> 'r \<times> 'e list"
  assumes ok_active: "ok r \<Longrightarrow> active_ok (items_of r) (active_of r)"
    and set_items_ok: "ok (fst (set_items xs r))"
    and set_items_items: "items_of (fst (set_items xs r)) = xs"
    and set_items_keeps: "active_of r = Some k \<Longrightarrow> distinct (map ri_id xs) \<Longrightarrow> it \<in> set xs \<Longrightarrow>
      ri_id it = k \<Longrightarrow> isEnabled it \<Longrightarrow> active_of (fst (set_items xs r)) = Some k"
    and set_active_ok: "ok r \<Longrightarrow> ok (fst (set_active k r))"
    and set_active_items: "items_of (fst (set_active k r)) = items_of r"
    and set_active_enabled: "distinct (map ri_id (items_of r)) \<Longrightarrow> it \<in> set (items_of r) \<Longrightarrow>
      isEnabled it \<Longrightarrow> active_of (fst (set_active (ri_id it) r)) = Some (ri_id it)"
    and key_ok: "ok r \<Longrightarrow> ok (fst (key e r))"
    and key_items: "items_of (fst (key e r)) = items_of r"
begin

text \<open>Exactly one item carries the tab stop, unless every item is disabled.\<close>

lemma tab_stops:
  assumes "ok r" and dist: "distinct (map ri_id (items_of r))"
  shows "length (filter (\<lambda>it. active_of r = Some (ri_id it)) (items_of r)) =
         (if \<exists>it\<in>set (items_of r). isEnabled it then 1 else 0)"
proof (cases "active_of r")
  case None
  then show ?thesis using ok_active[OF assms(1)] by (simp add: active_ok_None)
next
  case (Some k)
  then obtain it where it: "it \<in> set (items_of r)" "isEnabled it" "ri_id it = k"
    using ok_active[OF assms(1)] by (auto simp: active_ok_Some)
  have "filter (\<lambda>y. Some k = Some (ri_id y)) (items_of r) = [it]"
    using filter_key_unique[OF dist it(1)] it(3) by (simp add: eq_commute)
  with it Some show ?thesis by auto
qed

lemma active_enabled:
  "ok r \<Longrightarrow> active_of r = Some k \<Longrightarrow> \<exists>it\<in>set (items_of r). isEnabled it \<and> ri_id it = k"
  using ok_active[of r] by (simp add: active_ok_Some)

lemma active_in_set_items:
  "active_of (fst (set_items xs r)) = Some k \<Longrightarrow> k \<in> ri_id ` set xs"
  using active_enabled[OF set_items_ok] by (force simp: set_items_items)

end

interpretation rv: roving rv_items rv_activeId rover_ok
  "rover_setItems opts" "rover_setActive opts" "rover_handleKeyDown opts" for opts
proof unfold_locales
  show "rover_ok r \<Longrightarrow> active_ok (rv_items r) (rv_activeId r)" for r
    by (simp add: rover_ok_def)
  show "rv_activeId (fst (rover_setItems opts xs r)) = Some k"
    if "rv_activeId r = Some k" "distinct (map ri_id xs)" "it \<in> set xs" "ri_id it = k" "isEnabled it"
    for r k xs it
  proof -
    obtain a where "a < length xs" "it = xs ! a" using \<open>it \<in> set xs\<close> by (metis in_set_conv_nth)
    with that show ?thesis
      using indexOfId_distinct[OF that(2), of a] by (auto simp: rover_setItems_def Let_def)
  qed
  show "rv_activeId (fst (rover_setActive opts (ri_id it) r)) = Some (ri_id it)"
    if "distinct (map ri_id (rv_items r))" "it \<in> set (rv_items r)" "isEnabled it" for r it
    using setActiveInternal_enabled[OF that] by (simp add: rover_setActive_def)
qed (use rover_moves_frame(1)[of _ opts] rover_handleKeyDown_frame[of _ opts] in
      \<open>auto simp: rover_setItems_ok rover_frame_def\<close>)

section \<open>Properties\<close>

text \<open>C35: whatever calls are made on a rover from its creation on, exactly one of its items is
  rendered with \<open>tabIndex 0\<close>, or none when every item is disabled (item ids being distinct).\<close>

theorem rover_single_tab_stop:
  assumes "r = fst (run (rover_step opts) xs (createRovingTabindex opts items))"
    and "distinct (map ri_id (rv_items r))"
  shows "length (filter (\<lambda>it. rip_tabIndex (rover_getItemProps r (ri_id it)) = 0) (rv_items r)) =
         (if \<exists>it\<in>set (rv_items r). isEnabled it then 1 else 0)"
proof -
  have "rover_ok r" unfolding assms(1) by (rule rover_component.run_inv[OF rover_ok_create]) simp
  moreover have "rip_tabIndex (rover_getItemProps r k) = 0 \<longleftrightarrow> rv_activeId r = Some k" for k
    by (auto simp: rover_getItemProps_def Let_def)
  ultimately show ?thesis using rv.tab_stops[of r] assms(2) by simp
qed

definition demo_options :: rover_options where
  "demo_options = \<lparr>ro_orientation = Horizontal, ro_loop = True, ro_activateOnFocus = False,
     ro_defaultActiveId = None, ro_typeaheadResetMs = 500, ro_hasOnActiveChange = True\<rparr>"

definition demo_items :: "rover_item list" where
  "demo_items = [\<lparr>ri_id = ''a'', ri_disabled = False, ri_text = Some ''Alpha''\<rparr>,
     \<lparr>ri_id = ''b'', ri_disabled = True, ri_text = Some ''Beta''\<rparr>,
     \<lparr>ri_id = ''c'', ri_disabled = False, ri_text = None\<rparr>]"

theorem rover_single_tab_stop_witness:
  "length (filter (\<lambda>it. rip_tabIndex (rover_getItemProps
      (fst (run (rover_step demo_options) [Rover_next] (createRovingTabindex demo_options demo_items)))
      (ri_id it)) = 0) demo_items) = 1"
proof -
  let ?r = "fst (run (rover_step demo_options) [Rover_next] (createRovingTabindex demo_options demo_items))"
  have i: "rv_items ?r = demo_items" by code_simp
  have "distinct (map ri_id (rv_items ?r))" unfolding i by (simp add: demo_items_def)
  from rover_single_tab_stop[OF refl this] show ?thesis
    unfolding i by (simp add: demo_items_def isEnabled_def)
qed

text \<open>with \<open>loop\<close>, the next key moves the active id to the nearest enabled item after it,
  wrapping past the end, and stays only when no other item is enabled.\<close>

theorem rover_next_nearest:
  assumes "ro_loop opts" and "distinct (map ri_id (rv_items r))" and "a < length (rv_items r)"
    and "isEnabled (rv_items r ! a)" and "rv_activeId r = Some (ri_id (rv_items r ! a))"
  shows "\<exists>k. 1 \<le> k \<and> k \<le> length (rv_items r) \<and>
      rv_activeId (fst (rover_next opts r)) = Some (ri_id (rv_items r ! ((a + k) mod length (rv_items r)))) \<and>
      isEnabled (rv_items r ! ((a + k) mod length (rv_items r))) \<and>
      (\<forall>m. 1 \<le> m \<and> m < k \<longrightarrow> \<not> isEnabled (rv_items r ! ((a + m) mod length (rv_items r))))"
proof -
  have c: "cyc n 1 a k = (a + k) mod n" for n k
    by (simp add: cyc_def flip: of_nat_add of_nat_mod)
  show ?thesis
    using rover_move_nearest[OF assms(2-5), of 1 opts] assms(1)
    by (auto simp: rover_next_def nearest_def c)
qed

theorem rover_next_nearest_witness:
  "\<exists>k. 1 \<le> k \<and> k \<le> 3 \<and>
      rv_activeId (fst (rover_next demo_options (createRovingTabindex demo_options demo_items))) =
        Some (ri_id (demo_items ! ((0 + k) mod 3)))"
proof -
  let ?r = "createRovingTabindex demo_options demo_items"
  have i: "rv_items ?r = demo_items" "length demo_items = 3"
    by (simp_all add: createRovingTabindex_def demo_items_def)
  have "rv_activeId ?r = Some (ri_id (rv_items ?r ! 0))" "ro_loop demo_options"
    "distinct (map ri_id (rv_items ?r))" "isEnabled (rv_items ?r ! 0)" by code_simp+
  from rover_next_nearest[OF this(2,3) _ this(4,1)] show ?thesis unfolding i by auto
qed

text \<open>with \<open>loop\<close>, the previous key undoes the next key and the next key undoes the
  previous one, from every state whose active id is an enabled item.\<close>

theorem rover_next_prev_inverse:
  assumes "ro_loop opts" and "rover_ok r" and "distinct (map ri_id (rv_items r))"
  shows "rv_activeId (fst (rover_prev opts (fst (rover_next opts r)))) = rv_activeId r \<and>
         rv_activeId (fst (rover_next opts (fst (rover_prev opts r)))) = rv_activeId r"
  using rover_move_back[OF assms, of 1 ] rover_move_back[OF assms, of "-1"]
  by (simp add: rover_move_dirs)

theorem rover_next_prev_inverse_witness:
  "rv_activeId (fst (rover_prev demo_options (fst (rover_next demo_options
     (createRovingTabindex demo_options demo_items))))) = Some ''a''"
proof -
  let ?r = "createRovingTabindex demo_options demo_items"
  have "ro_loop demo_options" "distinct (map ri_id (rv_items ?r))" "rv_activeId ?r = Some ''a''"
    by code_simp+
  with rover_next_prev_inverse[OF this(1) rover_ok_create this(2)] show ?thesis by simp
qed

text \<open>a subscriber that stays subscribed and keeps the last id it was told shows the active
  id after any sequence of calls; a call that tells it nothing left the active id unchanged.\<close>

theorem rover_subscriber_current:
  assumes "rover_ok r" and "l \<in> set (rv_listeners r)" and "\<forall>x\<in>set xs. \<not> rover_drops l x"
  shows "mirror l (rv_activeId r) (sent (snd (run (rover_step opts) xs r))) =
         rv_activeId (fst (run (rover_step opts) xs r))"
  using rover_observable.run_mirror[OF assms(1) _ assms(2,3)] by blast

theorem rover_subscriber_current_witness:
  "mirror 0 (Some ''a'') (sent (snd (run (rover_step demo_options) [Rover_next, Rover_setItems []]
      ((createRovingTabindex demo_options demo_items)\<lparr>rv_listeners := [0]\<rparr>)))) = None"
proof -
  let ?r = "(createRovingTabindex demo_options demo_items)\<lparr>rv_listeners := [0]\<rparr>"
  have "rover_ok ?r" using rover_ok_create[of demo_options demo_items] by (simp add: rover_ok_def)
  moreover have "rv_activeId ?r = Some ''a''"
    "rv_activeId (fst (run (rover_step demo_options) [Rover_next, Rover_setItems []] ?r)) = None"
    by code_simp+
  ultimately show ?thesis
    using rover_subscriber_current[of ?r 0 "[Rover_next, Rover_setItems []]" demo_options] by simp
qed

text \<open>replacing the items keeps the active id while it is still an enabled item; otherwise the
  new active id is the last enabled item of the new list (the code searches back from the end,
  removal positions not being tracked), or nothing when all are disabled.\<close>

theorem rover_setItems_reanchor:
  assumes "distinct (map ri_id items)"
  shows "rv_activeId (fst (rover_setItems opts items r)) =
     (case rv_activeId r of
        None \<Rightarrow> findLastEnabled items
      | Some k \<Rightarrow>
          if \<exists>it\<in>set items. ri_id it = k \<and> isEnabled it then Some k
          else if \<exists>it\<in>set items. ri_id it = k then
            (case fallback_before items (indexOfId items (Some k)) of
               None \<Rightarrow> findFirstEnabled items | Some j \<Rightarrow> Some j)
          else findLastEnabled items)"
proof -
  have idx: "0 \<le> indexOfId items (Some k) \<longleftrightarrow> (\<exists>it\<in>set items. ri_id it = k)" for k
    by (simp add: indexOfId_def find_index_nonneg)
  have en: "(\<exists>it\<in>set items. ri_id it = k \<and> isEnabled it) \<longleftrightarrow>
      0 \<le> indexOfId items (Some k) \<and> isEnabled (items ! nat (indexOfId items (Some k)))" for k
  proof
    assume "\<exists>it\<in>set items. ri_id it = k \<and> isEnabled it"
    then obtain a where "a < length items" "ri_id (items ! a) = k" "isEnabled (items ! a)"
      by (metis in_set_conv_nth)
    with indexOfId_distinct[OF assms, of a]
    show "0 \<le> indexOfId items (Some k) \<and> isEnabled (items ! nat (indexOfId items (Some k)))" by auto
  next
    assume "0 \<le> indexOfId items (Some k) \<and> isEnabled (items ! nat (indexOfId items (Some k)))"
    then show "\<exists>it\<in>set items. ri_id it = k \<and> isEnabled it"
      using indexOfId_mem[of items k] indexOfId_nth[of items k] by blast
  qed
  have fb: "(case fallback_before items (int (length items) - 1) of
      None \<Rightarrow> findFirstEnabled items | Some k \<Rightarrow> Some k) = findLastEnabled items"
    using findFirstEnabled_None[of items] findFirstEnabled_None[of "rev items"]
    by (cases "findFirstEnabled (rev items)") (auto simp: fallback_before_def findLastEnabled_def)
  show ?thesis
    by (cases "rv_activeId r")
      (auto simp: rover_setItems_def Let_def fb findInsertionFallback_def en idx not_le [symmetric])
qed

theorem rover_setItems_reanchor_witness:
  "rv_activeId (fst (rover_setItems demo_options demo_items (createRovingTabindex demo_options []))) =
   Some ''c''"
proof -
  have "distinct (map ri_id demo_items)" by (simp add: demo_items_def)
  moreover have "rv_activeId (createRovingTabindex demo_options []) = None"
    "findLastEnabled demo_items = Some ''c''" by code_simp+
  ultimately show ?thesis using rover_setItems_reanchor[of demo_items] by simp
qed

end
