(* ===== verification/Tabs.thy ===== *)
theory Tabs
  imports Roving_Tabindex
begin

text \<open>
  \<open>headless-core/tabs.ts\<close>: a tablist over a rover. The controller keeps its own tab list and
  active tab beside the rover's; in automatic mode the rover's \<open>onActiveChange\<close> callback calls
  \<open>activate\<close> while the rover operation is still running (it is the rover's last action), which
  is what \<open>tabs_on_rover\<close> does with the rover's events.
\<close>

section \<open>Data\<close>

datatype activation_mode = Automatic | Manual

record tab =
  tab_id :: string
  tab_label :: string
  tab_disabled :: bool
  tab_closeable :: bool
  tab_pinned :: bool

record tabs_options =
  to_activationMode :: activation_mode
  to_orientation :: orientation
  to_defaultActiveId :: "string option"

record tabs_snapshot =
  ts_activeId :: "string option"
  ts_tabs :: "tab list"
  ts_draggingId :: "string option"

record tabs =
  tb_tabs :: "tab list"
  tb_activeId :: "string option"
  tb_draggingId :: "string option"
  tb_dragOverId :: "string option"
  tb_rover :: rover
  tb_listeners :: "listener jsset"

datatype tabs_effect =
    Tabs_onActiveChange string
  | Tabs_onClose string
  | Tabs_onReorder "string list"
  | Tabs_preventDefault

type_synonym tabs_event = "(tabs_snapshot, tabs_effect) event"

record tab_props =
  tp_id :: string
  tp_ariaSelected :: bool
  tp_ariaControls :: string
  tp_ariaDisabled :: "bool option"
  tp_tabIndex :: int
  tp_dataActive :: "string option"

record tab_panel_props =
  tpp_id :: string
  tpp_ariaLabelledby :: string
  tpp_tabIndex :: int
  tpp_hidden :: bool

record close_button_props =
  cbp_ariaLabel :: string
  cbp_tabIndex :: int

section \<open>Operations\<close>

definition tabPanelId :: "string \<Rightarrow> string" where
  "tabPanelId tabId = tabId @ ''-panel''"

definition tab_item :: "tab \<Rightarrow> rover_item" where
  "tab_item t = \<lparr>ri_id = tab_id t, ri_disabled = tab_disabled t, ri_text = Some (tab_label t)\<rparr>"

fun first_enabled_tab :: "tab list \<Rightarrow> string option" where
  "first_enabled_tab [] = None"
| "first_enabled_tab (t # ts) = (if \<not> tab_disabled t then Some (tab_id t) else first_enabled_tab ts)"

definition tabs_initial_active :: "tabs_options \<Rightarrow> tab list \<Rightarrow> string option" where
  "tabs_initial_active opts ts =
     (case to_defaultActiveId opts of Some k \<Rightarrow> Some k | None \<Rightarrow> first_enabled_tab ts)"

definition tabs_rover_options :: "tabs_options \<Rightarrow> tab list \<Rightarrow> rover_options" where
  "tabs_rover_options opts ts =
     \<lparr>ro_orientation = to_orientation opts, ro_loop = True,
      ro_activateOnFocus = (to_activationMode opts = Automatic),
      ro_defaultActiveId = tabs_initial_active opts ts,
      ro_typeaheadResetMs = 500, ro_hasOnActiveChange = True\<rparr>"

definition createTabs :: "tabs_options \<Rightarrow> tab list \<Rightarrow> tabs" where
  "createTabs opts ts =
     \<lparr>tb_tabs = ts, tb_activeId = tabs_initial_active opts ts,
      tb_draggingId = None, tb_dragOverId = None,
      tb_rover = createRovingTabindex (tabs_rover_options opts ts) (map tab_item ts),
      tb_listeners = []\<rparr>"

definition tabs_view :: "tabs \<Rightarrow> tabs_snapshot" where
  "tabs_view s = \<lparr>ts_activeId = tb_activeId s, ts_tabs = tb_tabs s, ts_draggingId = tb_draggingId s\<rparr>"

definition tabs_emit :: "tabs \<Rightarrow> tabs_event list" where
  "tabs_emit s = emit_to (tb_listeners s) (tabs_view s)"

definition tabs_activate :: "string \<Rightarrow> tabs \<Rightarrow> tabs \<times> tabs_event list" where
  "tabs_activate k s =
     (let idx = find_index (\<lambda>t. tab_id t = k) (tb_tabs s) in
      if idx < 0 then (s, [])
      else if tab_disabled (tb_tabs s ! nat idx) then (s, [])
      else if tb_activeId s = Some k then (s, [])
      else (let s' = s\<lparr>tb_activeId := Some k\<rparr> in (s', Did (Tabs_onActiveChange k) # tabs_emit s')))"

text \<open>The callback passed to the rover, over the events of one rover operation.\<close>

fun tabs_on_rover :: "tabs_options \<Rightarrow> rover_event list \<Rightarrow> tabs \<Rightarrow> tabs \<times> tabs_event list" where
  "tabs_on_rover opts [] s = (s, [])"
| "tabs_on_rover opts (Did (Rover_onActiveChange a) # es) s =
     and_then
       (case a of
          Some k \<Rightarrow> if to_activationMode opts = Automatic then tabs_activate k s else (s, [])
        | None \<Rightarrow> (s, []))
       (tabs_on_rover opts es)"
| "tabs_on_rover opts (Did Rover_preventDefault # es) s =
     after [Did Tabs_preventDefault] (tabs_on_rover opts es s)"
| "tabs_on_rover opts (Sent l a # es) s = tabs_on_rover opts es s"

text \<open>Runs a rover operation inside the controller.\<close>

definition tabs_via_rover ::
  "tabs_options \<Rightarrow> (rover_options \<Rightarrow> rover \<Rightarrow> rover \<times> rover_event list) \<Rightarrow> tabs \<Rightarrow> tabs \<times> tabs_event list"
where
  "tabs_via_rover opts f s =
     (let (r, es) = f (tabs_rover_options opts (tb_tabs s)) (tb_rover s)
      in tabs_on_rover opts es (s\<lparr>tb_rover := r\<rparr>))"

definition tabs_sync_rover :: "tabs_options \<Rightarrow> tabs \<Rightarrow> tabs \<times> tabs_event list" where
  "tabs_sync_rover opts s =
     tabs_via_rover opts (\<lambda>ro. rover_setItems ro (map tab_item (tb_tabs s))) s"

text \<open>The neighbour search of \<open>close\<close>: backwards from \<open>idx - 1\<close>, then forwards from \<open>idx\<close>.\<close>

definition close_neighbor :: "tab list \<Rightarrow> nat \<Rightarrow> string option" where
  "close_neighbor ts idx =
     (case first_enabled_tab (rev (take idx ts)) of
        Some k \<Rightarrow> Some k | None \<Rightarrow> first_enabled_tab (drop idx ts))"

definition tabs_close :: "tabs_options \<Rightarrow> string \<Rightarrow> tabs \<Rightarrow> tabs \<times> tabs_event list" where
  "tabs_close opts k s =
     (let idx = find_index (\<lambda>t. tab_id t = k) (tb_tabs s) in
      if idx < 0 then (s, [])
      else
        (let wasActive = (tb_activeId s = Some k);
             remaining = filter (\<lambda>t. tab_id t \<noteq> k) (tb_tabs s);
             neighborId = close_neighbor remaining (nat idx)
         in and_then (tabs_sync_rover opts (s\<lparr>tb_tabs := remaining\<rparr>)) (\<lambda>s1.
              let s2 = (if wasActive then s1\<lparr>tb_activeId := neighborId\<rparr> else s1)
              in (s2, (case neighborId of
                         Some n \<Rightarrow> if wasActive then [Did (Tabs_onActiveChange n)] else []
                       | None \<Rightarrow> []) @ [Did (Tabs_onClose k)] @ tabs_emit s2))))"

fun lookup_all :: "('k \<times> 'v) list \<Rightarrow> 'k list \<Rightarrow> 'v list option" where
  "lookup_all m [] = Some []"
| "lookup_all m (k # ks) =
     (case map_get m k of None \<Rightarrow> None | Some v \<Rightarrow> map_option ((#) v) (lookup_all m ks))"

definition tab_map :: "tab list \<Rightarrow> (string, tab) jsmap" where
  "tab_map ts = map_from (map (\<lambda>t. (tab_id t, t)) ts)"

definition tabs_reorder :: "tabs_options \<Rightarrow> string list \<Rightarrow> tabs \<Rightarrow> tabs \<times> tabs_event list" where
  "tabs_reorder opts ids s =
     (if length ids \<noteq> length (tb_tabs s) then (s, [])
      else case lookup_all (tab_map (tb_tabs s)) ids of
        None \<Rightarrow> (s, [])
      | Some reordered \<Rightarrow>
          and_then (tabs_sync_rover opts (s\<lparr>tb_tabs := reordered\<rparr>))
            (\<lambda>s1. (s1, [Did (Tabs_onReorder ids)] @ tabs_emit s1)))"

definition tabs_setTabs :: "tabs_options \<Rightarrow> tab list \<Rightarrow> tabs \<Rightarrow> tabs \<times> tabs_event list" where
  "tabs_setTabs opts nextTabs s =
     and_then (tabs_sync_rover opts (s\<lparr>tb_tabs := nextTabs\<rparr>)) (\<lambda>s1.
       case tb_activeId s1 of
         None \<Rightarrow> (s1, tabs_emit s1)
       | Some k \<Rightarrow>
           if find_index (\<lambda>t. tab_id t = k) nextTabs < 0 then
             (let neighborId = first_enabled_tab nextTabs;
                  s2 = s1\<lparr>tb_activeId := neighborId\<rparr>
              in (s2, (case neighborId of Some n \<Rightarrow> [Did (Tabs_onActiveChange n)] | None \<Rightarrow> []) @
                      tabs_emit s2))
           else (s1, tabs_emit s1))"

definition tabs_handleListKeyDown :: "tabs_options \<Rightarrow> key_event \<Rightarrow> tabs \<Rightarrow> tabs \<times> tabs_event list" where
  "tabs_handleListKeyDown opts e s =
     (let forward = tabs_via_rover opts (\<lambda>ro. rover_handleKeyDown ro e) s in
      case rv_activeId (tb_rover s) of
        None \<Rightarrow> forward
      | Some a \<Rightarrow>
          if to_activationMode opts = Manual \<and> (ke_key e = ''Enter'' \<or> ke_key e = '' '') then
            after [Did Tabs_preventDefault] (tabs_activate a s)
          else if ke_key e = ''Delete'' \<or> (ke_key e = ''w'' \<and> (ke_meta e \<or> ke_ctrl e)) then
            (case List.find (\<lambda>t. tab_id t = a) (tb_tabs s) of
               Some target \<Rightarrow>
                 if tab_closeable target
                 then after [Did Tabs_preventDefault] (tabs_close opts (tab_id target) s)
                 else forward
             | None \<Rightarrow> forward)
          else forward)"

definition tabs_handleDragStart :: "string \<Rightarrow> tabs \<Rightarrow> tabs \<times> tabs_event list" where
  "tabs_handleDragStart k s =
     (case List.find (\<lambda>t. tab_id t = k) (tb_tabs s) of
        None \<Rightarrow> (s, [])
      | Some t \<Rightarrow>
          if tab_pinned t then (s, [])
          else (let s' = s\<lparr>tb_draggingId := Some k, tb_dragOverId := None\<rparr> in (s', tabs_emit s')))"

definition tabs_handleDragOver :: "string \<Rightarrow> tabs \<Rightarrow> tabs \<times> tabs_event list" where
  "tabs_handleDragOver targetId s =
     (if tb_draggingId s = None \<or> tb_draggingId s = Some targetId then (s, [])
      else case List.find (\<lambda>t. tab_id t = targetId) (tb_tabs s) of
        None \<Rightarrow> (s, [])
      | Some target \<Rightarrow>
          if tab_pinned target then (s, []) else (s\<lparr>tb_dragOverId := Some targetId\<rparr>, []))"

text \<open>The loop that builds \<open>newOrder\<close>, and the append when the target was not met.\<close>

fun drag_order :: "string \<Rightarrow> string \<Rightarrow> tab list \<Rightarrow> string list" where
  "drag_order d over [] = []"
| "drag_order d over (t # ts) =
     (if tab_id t = d then drag_order d over ts
      else if tab_id t = over then d # tab_id t # drag_order d over ts
      else tab_id t # drag_order d over ts)"

definition drag_newOrder :: "string \<Rightarrow> string \<Rightarrow> tab list \<Rightarrow> string list" where
  "drag_newOrder d over ts =
     (let order = drag_order d over ts in if d \<in> set order then order else order @ [d])"

definition tabs_handleDragEnd :: "tabs_options \<Rightarrow> tabs \<Rightarrow> tabs \<times> tabs_event list" where
  "tabs_handleDragEnd opts s =
     (case tb_draggingId s of
        None \<Rightarrow> (s, tabs_emit s)
      | Some d \<Rightarrow>
          and_then
            (case tb_dragOverId s of
               None \<Rightarrow> (s, [])
             | Some over \<Rightarrow>
                 if over = d then (s, [])
                 else
                   (let newOrder = drag_newOrder d over (tb_tabs s);
                        reordered = List.map_filter (map_get (tab_map (tb_tabs s))) newOrder
                    in and_then (tabs_sync_rover opts (s\<lparr>tb_tabs := reordered\<rparr>))
                         (\<lambda>s'. (s', [Did (Tabs_onReorder newOrder)]))))
            (\<lambda>s1. let s2 = s1\<lparr>tb_draggingId := None, tb_dragOverId := None\<rparr> in (s2, tabs_emit s2)))"

definition tabs_getTabProps :: "tabs \<Rightarrow> string \<Rightarrow> tab_props" where
  "tabs_getTabProps s k =
     (let isActive = (tb_activeId s = Some k);
          isDis = (case List.find (\<lambda>t. tab_id t = k) (tb_tabs s) of
                     None \<Rightarrow> False | Some t \<Rightarrow> tab_disabled t)
      in \<lparr>tp_id = k, tp_ariaSelected = isActive, tp_ariaControls = tabPanelId k,
          tp_ariaDisabled = (if isDis then Some True else None),
          tp_tabIndex = (if isActive then 0 else -1),
          tp_dataActive = (if isActive then Some [] else None)\<rparr>)"

definition tabs_getTabPanelProps :: "tabs \<Rightarrow> string \<Rightarrow> tab_panel_props" where
  "tabs_getTabPanelProps s k =
     \<lparr>tpp_id = tabPanelId k, tpp_ariaLabelledby = k, tpp_tabIndex = 0,
      tpp_hidden = (tb_activeId s \<noteq> Some k)\<rparr>"

definition tabs_getCloseButtonProps :: "tabs \<Rightarrow> string \<Rightarrow> close_button_props" where
  "tabs_getCloseButtonProps s k =
     \<lparr>cbp_ariaLabel = (case List.find (\<lambda>t. tab_id t = k) (tb_tabs s) of
          Some t \<Rightarrow> ''Close '' @ tab_label t | None \<Rightarrow> ''Close''),
      cbp_tabIndex = -1\<rparr>"

datatype tabs_op =
    Tabs_setTabs "tab list" | Tabs_activate string | Tabs_close string | Tabs_reorder "string list"
  | Tabs_keyDown key_event | Tabs_typeaheadTimeout
  | Tabs_dragStart string | Tabs_dragOver string | Tabs_dragEnd
  | Tabs_subscribe listener | Tabs_unsubscribe listener

fun tabs_step :: "tabs_options \<Rightarrow> tabs_op \<Rightarrow> tabs \<Rightarrow> tabs \<times> tabs_event list" where
  "tabs_step opts (Tabs_setTabs ts) s = tabs_setTabs opts ts s"
| "tabs_step opts (Tabs_activate k) s = tabs_activate k s"
| "tabs_step opts (Tabs_close k) s = tabs_close opts k s"
| "tabs_step opts (Tabs_reorder ids) s = tabs_reorder opts ids s"
| "tabs_step opts (Tabs_keyDown e) s = tabs_handleListKeyDown opts e s"
| "tabs_step opts Tabs_typeaheadTimeout s = (s\<lparr>tb_rover := typeahead_timeout (tb_rover s)\<rparr>, [])"
| "tabs_step opts (Tabs_dragStart k) s = tabs_handleDragStart k s"
| "tabs_step opts (Tabs_dragOver k) s = tabs_handleDragOver k s"
| "tabs_step opts Tabs_dragEnd s = tabs_handleDragEnd opts s"
| "tabs_step opts (Tabs_subscribe l) s = (s\<lparr>tb_listeners := subscribe l (tb_listeners s)\<rparr>, [])"
| "tabs_step opts (Tabs_unsubscribe l) s = (s\<lparr>tb_listeners := unsubscribe l (tb_listeners s)\<rparr>, [])"

section \<open>The rover inside the tablist\<close>

text \<open>What the callback can change: the active tab only, and only to an enabled tab.\<close>

definition tabs_frame :: "tabs \<Rightarrow> tabs \<Rightarrow> bool" where
  "tabs_frame s s' \<longleftrightarrow> tb_rover s' = tb_rover s \<and> tb_tabs s' = tb_tabs s \<and>
     tb_listeners s' = tb_listeners s \<and> tb_draggingId s' = tb_draggingId s \<and>
     tb_dragOverId s' = tb_dragOverId s \<and>
     (tb_activeId s' = tb_activeId s \<or>
      (\<exists>t\<in>set (tb_tabs s). tb_activeId s' = Some (tab_id t) \<and> \<not> tab_disabled t))"

lemma tabs_frame_refl [simp]: "tabs_frame s s"
  by (simp add: tabs_frame_def)

lemma tabs_frame_trans: "tabs_frame s t \<Longrightarrow> tabs_frame t u \<Longrightarrow> tabs_frame s u"
  by (auto simp: tabs_frame_def)

lemma tabs_activate_frame: "tabs_frame s (fst (tabs_activate k s))"
proof (cases "find_index (\<lambda>t. tab_id t = k) (tb_tabs s) < 0")
  case False
  then have "tb_tabs s ! nat (find_index (\<lambda>t. tab_id t = k) (tb_tabs s)) \<in> set (tb_tabs s)"
    "tab_id (tb_tabs s ! nat (find_index (\<lambda>t. tab_id t = k) (tb_tabs s))) = k"
    using find_index_nth[of "\<lambda>t. tab_id t = k" "tb_tabs s"] by auto
  then show ?thesis by (auto simp: tabs_activate_def Let_def tabs_frame_def intro!: bexI)
qed (simp add: tabs_activate_def)

lemma tabs_on_rover_frame: "tabs_frame s (fst (tabs_on_rover opts es s))"
proof (induction opts es s rule: tabs_on_rover.induct)
  case (2 opts a es s)
  let ?p = "case a of Some k \<Rightarrow> if to_activationMode opts = Automatic then tabs_activate k s else (s, [])
            | None \<Rightarrow> (s, [])"
  have "tabs_frame s (fst ?p)" by (auto simp: tabs_activate_frame split: option.split)
  then show ?case using 2 by (auto intro: tabs_frame_trans)
qed auto

abbreviation tabs_tracked :: "tabs \<Rightarrow> tabs \<times> tabs_event list \<Rightarrow> bool" where
  "tabs_tracked \<equiv> tracked tb_listeners tabs_view"

lemma tabs_emit_tracked [simp]:
  "tb_listeners s' = tb_listeners s \<Longrightarrow> tabs_tracked s (s', es @ tabs_emit s')"
  "tb_listeners s' = tb_listeners s \<Longrightarrow> tabs_tracked s (s', tabs_emit s')"
  by (simp_all add: tabs_emit_def tracked_def)

lemma tabs_activate_tracked: "tabs_tracked s (tabs_activate k s)"
  by (auto simp: tabs_activate_def Let_def simp del: tabs_emit_tracked intro: tabs_emit_tracked)

lemma tabs_on_rover_tracked: "tabs_tracked s (tabs_on_rover opts es s)"
proof (induction opts es s rule: tabs_on_rover.induct)
  case (2 opts a es s)
  let ?p = "case a of Some k \<Rightarrow> if to_activationMode opts = Automatic then tabs_activate k s else (s, [])
            | None \<Rightarrow> (s, [])"
  have "tabs_tracked s ?p" by (auto simp: tabs_activate_tracked split: option.split)
  then show ?case using 2 by (auto intro: tracked_and_then)
qed auto

lemma tabs_on_rover_manual:
  "to_activationMode opts = Manual \<Longrightarrow> fst (tabs_on_rover opts es s) = s"
  by (induction opts es s rule: tabs_on_rover.induct) (auto split: option.split)

lemma tabs_via_rover_frame:
  "tabs_frame (s\<lparr>tb_rover := fst (f (tabs_rover_options opts (tb_tabs s)) (tb_rover s))\<rparr>)
     (fst (tabs_via_rover opts f s))"
  by (simp add: tabs_via_rover_def split_def Let_def tabs_on_rover_frame)

lemma tabs_via_rover_tracked: "tabs_tracked s (tabs_via_rover opts f s)"
proof -
  let ?p = "f (tabs_rover_options opts (tb_tabs s)) (tb_rover s)"
  have "tabs_tracked (s\<lparr>tb_rover := fst ?p\<rparr>) (tabs_on_rover opts (snd ?p) (s\<lparr>tb_rover := fst ?p\<rparr>))"
    by (rule tabs_on_rover_tracked)
  then show ?thesis
    by (simp add: tabs_via_rover_def split_def Let_def)
      (erule tracked_from, simp_all add: tabs_view_def)
qed

section \<open>Invariant\<close>

definition tab_ids :: "tab list \<Rightarrow> string set" where
  "tab_ids ts = tab_id ` set ts"

definition known_tab :: "tab list \<Rightarrow> string option \<Rightarrow> bool" where
  "known_tab ts act \<longleftrightarrow> (case act of None \<Rightarrow> True | Some k \<Rightarrow> k \<in> tab_ids ts)"

definition tabs_ok :: "tabs \<Rightarrow> bool" where
  "tabs_ok s \<longleftrightarrow> distinct (map tab_id (tb_tabs s)) \<and>
     rv_items (tb_rover s) = map tab_item (tb_tabs s) \<and> rover_ok (tb_rover s) \<and>
     known_tab (tb_tabs s) (tb_activeId s)"

lemma known_tab_simps [simp]:
  "known_tab ts None" "known_tab ts (Some k) \<longleftrightarrow> k \<in> tab_ids ts"
  by (simp_all add: known_tab_def)

fun tabs_legal :: "tabs_op \<Rightarrow> bool" where
  "tabs_legal (Tabs_setTabs ts) \<longleftrightarrow> distinct (map tab_id ts)"
| "tabs_legal (Tabs_reorder ids) \<longleftrightarrow> distinct ids"
| "tabs_legal _ \<longleftrightarrow> True"

lemma first_enabled_tab_Some:
  "first_enabled_tab ts = Some k \<Longrightarrow> \<exists>t\<in>set ts. tab_id t = k \<and> \<not> tab_disabled t"
  by (induction ts) (auto split: if_splits)

lemma first_enabled_tab_None: "first_enabled_tab ts = None \<longleftrightarrow> (\<forall>t\<in>set ts. tab_disabled t)"
  by (induction ts) auto

lemma close_neighbor_Some:
  "close_neighbor ts i = Some k \<Longrightarrow> \<exists>t\<in>set ts. tab_id t = k \<and> \<not> tab_disabled t"
  using first_enabled_tab_Some[of "rev (take i ts)" k] first_enabled_tab_Some[of "drop i ts" k]
  by (auto simp: close_neighbor_def split: option.splits dest: in_set_takeD in_set_dropD)

text \<open>After a resync the rover has the new items; the active tab is kept or is one of them.\<close>

lemma tabs_sync_rover_spec:
  fixes opts s
  defines "p \<equiv> tabs_sync_rover opts s"
  shows "tb_tabs (fst p) = tb_tabs s" and "tb_listeners (fst p) = tb_listeners s"
    and "rv_items (tb_rover (fst p)) = map tab_item (tb_tabs s)" and "rover_ok (tb_rover (fst p))"
    and "tb_draggingId (fst p) = tb_draggingId s" and "tb_dragOverId (fst p) = tb_dragOverId s"
    and "tb_activeId (fst p) = tb_activeId s \<or> (\<exists>t\<in>set (tb_tabs s). tb_activeId (fst p) = Some (tab_id t))"
    and "tabs_tracked s p"
  using tabs_via_rover_frame[where s = s and opts = opts and f = "\<lambda>ro. rover_setItems ro (map tab_item (tb_tabs s))"]
    tabs_via_rover_tracked[where s = s and opts = opts and f = "\<lambda>ro. rover_setItems ro (map tab_item (tb_tabs s))"]
  by (auto simp: p_def tabs_sync_rover_def tabs_frame_def rover_setItems_ok)

lemma tabs_ok_frame: "tabs_ok s \<Longrightarrow> tabs_frame s s' \<Longrightarrow> tabs_ok s'"
  by (auto simp: tabs_ok_def tabs_frame_def tab_ids_def)

lemma tabs_ok_createTabs:
  assumes "distinct (map tab_id ts)"
    and "\<And>k. to_defaultActiveId opts = Some k \<Longrightarrow> k \<in> tab_ids ts"
  shows "tabs_ok (createTabs opts ts)"
proof -
  have "rover_ok (createRovingTabindex ro its)" "rv_items (createRovingTabindex ro its) = its" for ro its
    by (rule rover_ok_create) (simp add: createRovingTabindex_def)
  moreover have "known_tab ts (first_enabled_tab ts)"
    by (cases "first_enabled_tab ts") (auto simp: tab_ids_def dest: first_enabled_tab_Some)
  ultimately show ?thesis using assms
    by (auto simp: tabs_ok_def createTabs_def tabs_initial_active_def split: option.split)
qed

lemma tab_map_get:
  "distinct (map tab_id ts) \<Longrightarrow> map_get (tab_map ts) k = Some t \<longleftrightarrow> t \<in> set ts \<and> tab_id t = k"
  unfolding tab_map_def by (subst map_from_distinct) (simp_all add: comp_def map_of_key_values del: map_of_eq_Some_iff)

lemma lookup_all_Some:
  "lookup_all m ks = Some vs \<Longrightarrow> vs = List.map_filter (map_get m) ks \<and> (\<forall>k\<in>set ks. map_get m k \<noteq> None)"
  by (induction ks arbitrary: vs) (auto simp: map_filter_simps split: option.splits)

text \<open>Picking the tabs of a list of distinct ids that has all of theirs permutes them.\<close>

lemma pick_tabs_mset:
  assumes dist: "distinct (map tab_id ts)" and ks: "distinct ks" "tab_ids ts \<subseteq> set ks"
  shows "mset (List.map_filter (map_get (tab_map ts)) ks) = mset ts"
proof (rule distinct_mset_eq)
  note g = tab_map_get[OF dist]
  show "distinct (List.map_filter (map_get (tab_map ts)) ks)"
    using ks(1) by (rule distinct_map_filter_option) (auto simp: g)
  show "distinct ts" using dist by (simp add: distinct_map)
  show "set (List.map_filter (map_get (tab_map ts)) ks) = set ts"
    using ks(2) by (auto simp: set_map_filter_iff g tab_ids_def)
qed

lemma tab_ids_mset: "mset ts = mset us \<Longrightarrow> tab_ids ts = tab_ids us"
  by (metis tab_ids_def set_mset_mset)

lemma distinct_ids_mset: "mset ts = mset us \<Longrightarrow> distinct (map tab_id ts) = distinct (map tab_id us)"
  by (metis mset_map mset_eq_imp_distinct_iff)

lemma lookup_all_perm:
  assumes dist: "distinct (map tab_id ts)" and "distinct ids" and len: "length ids = length ts"
    and l: "lookup_all (tab_map ts) ids = Some us"
  shows "mset us = mset ts"
proof -
  have "set ids \<subseteq> tab_ids ts"
    using lookup_all_Some[OF l] tab_map_get[OF dist] by (fastforce simp: tab_ids_def)
  moreover have "card (tab_ids ts) = card (set ids)"
    using dist assms(2) len by (simp add: tab_ids_def distinct_card flip: set_map)
  ultimately have "set ids = tab_ids ts"
    by (simp add: card_subset_eq tab_ids_def)
  then show ?thesis using pick_tabs_mset[OF dist assms(2)] lookup_all_Some[OF l] by simp
qed

lemma set_drag_order:
  "set (drag_order d over ts) = (tab_ids ts - {d}) \<union> (if over \<in> tab_ids ts \<and> over \<noteq> d then {d} else {})"
  by (induction ts) (auto simp: tab_ids_def)

lemma drag_order_absent:
  "over \<notin> tab_ids ts \<Longrightarrow> drag_order d over ts = filter (\<lambda>k. k \<noteq> d) (map tab_id ts)"
  by (induction ts) (auto simp: tab_ids_def)

lemma distinct_drag_order:
  "distinct (map tab_id ts) \<Longrightarrow> distinct (drag_order d over ts)"
proof (induction ts)
  case (Cons t ts)
  then have IH: "distinct (drag_order d over ts)" and t: "tab_id t \<notin> tab_ids ts"
    by (auto simp: tab_ids_def)
  show ?case
  proof (cases "tab_id t \<noteq> d \<and> tab_id t = over")
    case True
    then have "d \<notin> set (drag_order d over ts)" using t by (simp add: set_drag_order)
    with True t IH show ?thesis by (auto simp: set_drag_order)
  next
    case False
    with t IH show ?thesis by (auto simp: set_drag_order)
  qed
qed simp

lemma drag_newOrder_spec:
  "distinct (map tab_id ts) \<Longrightarrow>
   distinct (drag_newOrder d over ts) \<and> set (drag_newOrder d over ts) = insert d (tab_ids ts)"
  by (auto simp: drag_newOrder_def Let_def distinct_drag_order set_drag_order)

lemma drag_perm:
  "distinct (map tab_id ts) \<Longrightarrow>
   mset (List.map_filter (map_get (tab_map ts)) (drag_newOrder d over ts)) = mset ts"
  using drag_newOrder_spec[of ts d over] by (intro pick_tabs_mset) auto

lemma known_first_enabled [simp]: "known_tab ts (first_enabled_tab ts)"
  by (cases "first_enabled_tab ts") (auto simp: tab_ids_def dest: first_enabled_tab_Some)

lemma known_close_neighbor [simp]: "known_tab ts (close_neighbor ts i)"
  by (cases "close_neighbor ts i") (auto simp: tab_ids_def dest: close_neighbor_Some)

lemma tabs_ok_resync:
  assumes "distinct (map tab_id (tb_tabs s))" and "known_tab (tb_tabs s) (tb_activeId s)"
  shows "tabs_ok (fst (tabs_sync_rover opts s))"
  using assms tabs_sync_rover_spec[where opts = opts and s = s]
  by (auto simp: tabs_ok_def tab_ids_def)

lemma tabs_close_ok: "tabs_ok s \<Longrightarrow> tabs_ok (fst (tabs_close opts k s))"
proof -
  assume ok: "tabs_ok s"
  let ?ts = "filter (\<lambda>t. tab_id t \<noteq> k) (tb_tabs s)"
  let ?s1 = "fst (tabs_sync_rover opts (s\<lparr>tb_tabs := ?ts\<rparr>))"
  have d: "distinct (map tab_id ?ts)" using ok by (simp add: tabs_ok_def distinct_map_filter)
  have s1: "tb_tabs ?s1 = ?ts" "rv_items (tb_rover ?s1) = map tab_item ?ts" "rover_ok (tb_rover ?s1)"
    using tabs_sync_rover_spec[where opts = opts and s = "s\<lparr>tb_tabs := ?ts\<rparr>"] by simp_all
  show ?thesis
  proof (cases "tb_activeId s = Some k")
    case True
    show ?thesis using True ok d s1 by (simp add: tabs_close_def Let_def) (simp add: tabs_ok_def)
  next
    case False
    then have "known_tab ?ts (tb_activeId s)"
      using ok by (cases "tb_activeId s") (auto simp: tabs_ok_def tab_ids_def)
    then have "tabs_ok ?s1" using d by (intro tabs_ok_resync) auto
    with False ok show ?thesis by (simp add: tabs_close_def Let_def)
  qed
qed

lemma known_tab_mset: "mset us = mset ts \<Longrightarrow> known_tab us act = known_tab ts act"
  by (cases act) (simp_all add: tab_ids_mset[of us ts])

lemma tabs_ok_permute:
  assumes "tabs_ok s" and "mset us = mset (tb_tabs s)"
  shows "tabs_ok (fst (tabs_sync_rover opts (s\<lparr>tb_tabs := us\<rparr>)))"
  using assms distinct_ids_mset[OF assms(2)] known_tab_mset[OF assms(2)]
  by (intro tabs_ok_resync) (simp_all add: tabs_ok_def)

lemma tabs_reorder_ok:
  assumes "tabs_ok s" and "distinct ids"
  shows "tabs_ok (fst (tabs_reorder opts ids s))"
proof (cases "lookup_all (tab_map (tb_tabs s)) ids")
  case (Some us)
  have "mset us = mset (tb_tabs s)" if "length ids = length (tb_tabs s)"
    using assms that Some by (intro lookup_all_perm) (simp_all add: tabs_ok_def)
  with Some assms(1) show ?thesis by (simp add: tabs_reorder_def tabs_ok_permute)
qed (simp add: tabs_reorder_def assms(1))

lemma tabs_setTabs_ok: "distinct (map tab_id ts) \<Longrightarrow> tabs_ok (fst (tabs_setTabs opts ts s))"
proof -
  assume d: "distinct (map tab_id ts)"
  let ?s1 = "fst (tabs_sync_rover opts (s\<lparr>tb_tabs := ts\<rparr>))"
  have s1: "tb_tabs ?s1 = ts" "rv_items (tb_rover ?s1) = map tab_item ts" "rover_ok (tb_rover ?s1)"
    using tabs_sync_rover_spec[where opts = opts and s = "s\<lparr>tb_tabs := ts\<rparr>"] by simp_all
  have "known_tab ts (tb_activeId ?s1)" if "tb_activeId ?s1 = Some k" "\<not> find_index (\<lambda>t. tab_id t = k) ts < 0" for k
    using that find_index_nonneg[of "\<lambda>t. tab_id t = k" ts] by (auto simp: tab_ids_def not_less)
  with d s1 have "tabs_ok ?s1" if "tb_activeId ?s1 = Some k" "\<not> find_index (\<lambda>t. tab_id t = k) ts < 0" for k
    using that by (simp add: tabs_ok_def)
  moreover have "tabs_ok (?s1\<lparr>tb_activeId := first_enabled_tab ts\<rparr>)" using d s1 by (simp add: tabs_ok_def)
  moreover have "tabs_ok ?s1" if "tb_activeId ?s1 = None" using that d s1 by (simp add: tabs_ok_def)
  ultimately show ?thesis by (simp add: tabs_setTabs_def Let_def split: option.split)
qed

lemma tabs_ok_drag [simp]: "tabs_ok (s\<lparr>tb_draggingId := a, tb_dragOverId := b\<rparr>) = tabs_ok s"
  by (simp add: tabs_ok_def)

lemma tabs_handleDragEnd_ok:
  assumes "tabs_ok s"
  shows "tabs_ok (fst (tabs_handleDragEnd opts s))"
proof -
  have "distinct (map tab_id (tb_tabs s))" using assms by (simp add: tabs_ok_def)
  note tabs_ok_permute[OF assms drag_perm[OF this]]
  with assms show ?thesis
    by (simp add: tabs_handleDragEnd_def Let_def split: option.split)
qed

lemma tabs_via_rover_ok:
  assumes "tabs_ok s"
    and "\<And>ro. rover_ok (tb_rover s) \<Longrightarrow> rover_frame (tb_rover s) (fst (f ro (tb_rover s)))"
  shows "tabs_ok (fst (tabs_via_rover opts f s))"
proof (rule tabs_ok_frame[OF _ tabs_via_rover_frame])
  show "tabs_ok (s\<lparr>tb_rover := fst (f (tabs_rover_options opts (tb_tabs s)) (tb_rover s))\<rparr>)"
    using assms by (simp add: tabs_ok_def rover_frame_def)
qed

lemma tabs_handleListKeyDown_ok: "tabs_ok s \<Longrightarrow> tabs_ok (fst (tabs_handleListKeyDown opts e s))"
  by (auto simp: tabs_handleListKeyDown_def Let_def tabs_close_ok
      intro: tabs_ok_frame tabs_activate_frame tabs_via_rover_ok rover_handleKeyDown_frame
      split: option.split)

lemma tabs_step_ok: "tabs_ok s \<Longrightarrow> tabs_legal x \<Longrightarrow> tabs_ok (fst (tabs_step opts x s))"
proof (cases x)
  case Tabs_typeaheadTimeout
  assume "tabs_ok s"
  with Tabs_typeaheadTimeout show ?thesis
    by (auto simp: tabs_ok_def typeahead_timeout_def rover_ok_def)
qed (auto simp: tabs_close_ok tabs_reorder_ok tabs_setTabs_ok tabs_handleDragEnd_ok
      tabs_handleListKeyDown_ok tabs_handleDragStart_def tabs_handleDragOver_def Let_def
      intro: tabs_ok_frame tabs_activate_frame split: option.split, auto simp: tabs_ok_def)

section \<open>Subscribers\<close>

lemma tabs_emit_published [simp]:
  "tb_listeners s' = tb_listeners s \<Longrightarrow> published tb_listeners tabs_view s (s', es @ tabs_emit s')"
  "tb_listeners s' = tb_listeners s \<Longrightarrow> published tb_listeners tabs_view s (s', tabs_emit s')"
  by (simp_all add: tabs_emit_def published_def)

lemma tabs_sync_published:
  assumes "tb_listeners s0 = tb_listeners s"
    and "\<And>s1. published tb_listeners tabs_view s1 (f s1)"
  shows "published tb_listeners tabs_view s (and_then (tabs_sync_rover opts s0) f)"
  using assms tabs_sync_rover_spec(2)[of opts s0] by (intro published_and_then) simp_all

lemma tabs_close_tracked: "tabs_tracked s (tabs_close opts k s)"
  by (auto simp: tabs_close_def Let_def simp flip: append_assoc
      intro!: published_tracked tabs_sync_published tabs_emit_published split: option.split)

lemma tabs_reorder_tracked: "tabs_tracked s (tabs_reorder opts ids s)"
  by (auto simp: tabs_reorder_def Let_def intro!: published_tracked tabs_sync_published split: option.split)

lemma tabs_setTabs_tracked: "tabs_tracked s (tabs_setTabs opts ts s)"
  by (auto simp: tabs_setTabs_def Let_def intro!: published_tracked tabs_sync_published split: option.split)

lemma tabs_handleDragEnd_tracked: "tabs_tracked s (tabs_handleDragEnd opts s)"
proof (cases "tb_draggingId s")
  case (Some d)
  show ?thesis
    unfolding tabs_handleDragEnd_def Some Let_def option.case
    by (rule published_tracked, rule published_and_then)
      (auto simp: Let_def tabs_sync_rover_spec(2) split: option.split)
qed (simp add: tabs_handleDragEnd_def)

lemma tabs_handleListKeyDown_tracked: "tabs_tracked s (tabs_handleListKeyDown opts e s)"
  by (simp add: tabs_handleListKeyDown_def Let_def tabs_via_rover_tracked tabs_activate_tracked
      tabs_close_tracked split: option.split)

fun tabs_drops :: "listener \<Rightarrow> tabs_op \<Rightarrow> bool" where
  "tabs_drops l (Tabs_unsubscribe k) \<longleftrightarrow> l = k"
| "tabs_drops l _ \<longleftrightarrow> False"

lemma tabs_step_tracked:
  "(\<exists>l. x = Tabs_subscribe l \<or> x = Tabs_unsubscribe l) \<or> tabs_tracked s (tabs_step opts x s)"
proof (cases x)
  case (Tabs_dragStart k)
  then show ?thesis by (simp add: tabs_handleDragStart_def Let_def split: option.split)
next
  case (Tabs_dragOver k)
  then show ?thesis by (simp add: tabs_handleDragOver_def tabs_view_def split: option.split)
next
  case Tabs_typeaheadTimeout
  then show ?thesis by (simp add: tabs_view_def)
qed (auto simp: tabs_setTabs_tracked tabs_activate_tracked tabs_close_tracked tabs_reorder_tracked
      tabs_handleListKeyDown_tracked tabs_handleDragEnd_tracked)

interpretation tabs_component: component "tabs_step opts" tabs_ok tabs_legal for opts
  by unfold_locales (rule tabs_step_ok)

interpretation tabs_observable:
  observable "tabs_step opts" tabs_ok tabs_legal tb_listeners tabs_view tabs_drops for opts
proof unfold_locales
  show "l \<in> set (tb_listeners (fst (tabs_step opts x s)))"
    if "l \<in> set (tb_listeners s)" "\<not> tabs_drops l x" for l s x
    using that tabs_step_tracked[of x s opts] by (cases x) (auto simp: tracked_def)
  show "mirror l (tabs_view s) (sent (snd (tabs_step opts x s))) = tabs_view (fst (tabs_step opts x s))"
    if "l \<in> set (tb_listeners s)" "\<not> tabs_drops l x" for l s x
    using that tabs_step_tracked[of x s opts] by (cases x) (auto simp: tracked_def tabs_view_def)
qed

lemma drag_order_split:
  "filter (\<lambda>k. k \<noteq> d) (map tab_id ts) = b @ over # r \<Longrightarrow> distinct (map tab_id ts) \<Longrightarrow>
   drag_order d over ts = b @ d # over # r"
proof (induction ts arbitrary: b)
  case (Cons t ts)
  show ?case
  proof (cases "tab_id t = d")
    case False
    show ?thesis
    proof (cases b)
      case Nil
      with Cons.prems False have "tab_id t = over" "filter (\<lambda>k. k \<noteq> d) (map tab_id ts) = r" by auto
      with Cons.prems(2) False Nil show ?thesis by (auto simp: drag_order_absent tab_ids_def)
    next
      case (Cons x xs)
      with Cons.prems False Cons.IH[of xs] have "drag_order d over ts = xs @ d # over # r" "x = tab_id t"
        by auto
      moreover have "tab_id t \<noteq> over"
      proof -
        have "over \<in> set (filter (\<lambda>k. k \<noteq> d) (map tab_id ts))" using Cons Cons.prems False by auto
        then show ?thesis using Cons.prems(2) by auto
      qed
      ultimately show ?thesis using False Cons by simp
    qed
  qed (use Cons in auto)
qed simp

text \<open>Looking up ids of present tabs gives tabs with these ids, in order.\<close>

lemma map_ids_pick:
  assumes "distinct (map tab_id ts)" and "set ks \<subseteq> tab_ids ts"
  shows "map tab_id (List.map_filter (map_get (tab_map ts)) ks) = ks"
  using assms(2)
proof (induction ks)
  case (Cons k ks)
  then obtain t where "t \<in> set ts" "tab_id t = k" by (auto simp: tab_ids_def)
  then have "map_get (tab_map ts) k = Some t" using tab_map_get[OF assms(1)] by blast
  with Cons \<open>tab_id t = k\<close> show ?case by (simp add: map_filter_simps)
qed (simp add: map_filter_simps)

section \<open>Properties\<close>

text \<open>C11: along every run of calls with distinct tab ids, from a controller whose \<open>defaultActiveId\<close>, if given, is the id of one
  of its tabs: one tab is rendered selected, or none when none is active; the selected tab is the one tab stop, every
  other tab having the index -1; a panel is visible exactly when its tab is selected; and the rover navigates the controller's
  tabs in their order. (The code does not check \<open>defaultActiveId\<close>, see \<open>tabs_default_unchecked\<close>.)\<close>

theorem tabs_run_coherent:
  assumes "distinct (map tab_id ts)" and "\<And>k. to_defaultActiveId opts = Some k \<Longrightarrow> k \<in> tab_ids ts"
    and "\<forall>x\<in>set xs. tabs_legal x" and "s = fst (run (tabs_step opts) xs (createTabs opts ts))"
  shows "length (filter (\<lambda>t. tp_ariaSelected (tabs_getTabProps s (tab_id t))) (tb_tabs s)) =
         (if tb_activeId s = None then 0 else 1) \<and>
         map (\<lambda>t. tp_tabIndex (tabs_getTabProps s (tab_id t))) (tb_tabs s) =
         map (\<lambda>t. if tp_ariaSelected (tabs_getTabProps s (tab_id t)) then 0 else -1) (tb_tabs s) \<and>
         (\<forall>k. tpp_hidden (tabs_getTabPanelProps s k) \<longleftrightarrow> \<not> tp_ariaSelected (tabs_getTabProps s k)) \<and>
         map ri_id (rv_items (tb_rover s)) = map tab_id (tb_tabs s)"
proof -
  have ok: "tabs_ok s" unfolding assms(4)
    by (rule tabs_component.run_inv[OF tabs_ok_createTabs[OF assms(1,2)] assms(3)])
  have "length (filter (\<lambda>t. tb_activeId s = Some (tab_id t)) (tb_tabs s)) =
      (if tb_activeId s = None then 0 else 1)"
  proof (cases "tb_activeId s")
    case (Some k)
    then obtain t where t: "t \<in> set (tb_tabs s)" "tab_id t = k"
      using ok by (auto simp: tabs_ok_def tab_ids_def)
    have "distinct (map tab_id (tb_tabs s))" using ok by (simp add: tabs_ok_def)
    then have "filter (\<lambda>u. tab_id t = tab_id u) (tb_tabs s) = [t]"
      using filter_key_unique[OF _ t(1), of tab_id] by (simp add: eq_commute)
    with t(2) Some show ?thesis by auto
  qed simp
  then show ?thesis using ok
    by (simp add: tabs_getTabProps_def tabs_getTabPanelProps_def Let_def tabs_ok_def tab_item_def comp_def
        cong: conj_cong)
qed

definition demo_tabs :: "tab list" where
  "demo_tabs = [\<lparr>tab_id = ''a'', tab_label = ''A'', tab_disabled = False, tab_closeable = True, tab_pinned = True\<rparr>,
    \<lparr>tab_id = ''b'', tab_label = ''B'', tab_disabled = False, tab_closeable = True, tab_pinned = False\<rparr>,
    \<lparr>tab_id = ''c'', tab_label = ''C'', tab_disabled = False, tab_closeable = False, tab_pinned = False\<rparr>]"

definition demo_tabs_options :: "activation_mode \<Rightarrow> tabs_options" where
  "demo_tabs_options m = \<lparr>to_activationMode = m, to_orientation = Horizontal, to_defaultActiveId = None\<rparr>"

theorem tabs_run_coherent_witness:
  "map ri_id (rv_items (tb_rover (fst (run (tabs_step (demo_tabs_options Automatic))
     [Tabs_close ''b''] (createTabs (demo_tabs_options Automatic) demo_tabs))))) = [''a'', ''c'']"
proof -
  have "distinct (map tab_id demo_tabs)" by (simp add: demo_tabs_def)
  moreover have "to_defaultActiveId (demo_tabs_options Automatic) = None"
    by (simp add: demo_tabs_options_def)
  moreover have "map tab_id (tb_tabs (fst (run (tabs_step (demo_tabs_options Automatic))
     [Tabs_close ''b''] (createTabs (demo_tabs_options Automatic) demo_tabs)))) = [''a'', ''c'']"
    by code_simp
  ultimately show ?thesis
    using tabs_run_coherent[of demo_tabs "demo_tabs_options Automatic" "[Tabs_close ''b'']", OF _ _ _ refl]
    by simp
qed

text \<open>closing the active tab activates the nearest enabled tab before it, else the nearest
  after it, else none, in either activation mode; the other tabs keep their order and the
  caller's \<open>onClose\<close> is the last callback to run.\<close>

theorem tabs_close_active:
  assumes "tb_tabs s = pre @ t # post" and "distinct (map tab_id (tb_tabs s))"
    and "tb_activeId s = Some (tab_id t)"
  shows "tb_tabs (fst (tabs_close opts (tab_id t) s)) = pre @ post \<and>
         tb_activeId (fst (tabs_close opts (tab_id t) s)) =
           (case first_enabled_tab (rev pre) of Some k \<Rightarrow> Some k | None \<Rightarrow> first_enabled_tab post) \<and>
         last (did (snd (tabs_close opts (tab_id t) s))) = Tabs_onClose (tab_id t)"
proof -
  have idx: "find_index (\<lambda>u. tab_id u = tab_id t) (tb_tabs s) = int (length pre)"
    unfolding assms(1) using assms(1,2) by (intro find_index_append) (auto simp: rev_image_eqI)
  have f: "filter (\<lambda>u. tab_id u \<noteq> tab_id t) (tb_tabs s) = pre @ post"
    using assms(1,2) by (auto simp: filter_id_conv rev_image_eqI intro!: arg_cong2[where f = append])
  have "did (tabs_emit s') = []" for s' by (simp add: tabs_emit_def)
  then show ?thesis using assms(3) tabs_sync_rover_spec(1)
    by (simp add: tabs_close_def Let_def idx f close_neighbor_def split: option.split)
qed

theorem tabs_close_active_witness:
  "tb_activeId (fst (tabs_close (demo_tabs_options Manual) ''a''
     (createTabs (demo_tabs_options Manual) demo_tabs))) = Some ''b''"
proof -
  let ?s = "createTabs (demo_tabs_options Manual) demo_tabs"
  have "tb_tabs ?s = [] @ hd demo_tabs # tl demo_tabs" "distinct (map tab_id (tb_tabs ?s))"
    "tb_activeId ?s = Some (tab_id (hd demo_tabs))"
    by (simp_all add: createTabs_def demo_tabs_def demo_tabs_options_def tabs_initial_active_def)
  from tabs_close_active[OF this] show ?thesis by (simp add: demo_tabs_def)
qed

text \<open>in manual mode no key but Enter, Space, Delete or w changes the active tab or invokes
  \<open>onActiveChange\<close>: the rover moves alone.\<close>

theorem tabs_manual_keys_keep_active:
  assumes "to_activationMode opts = Manual"
    and "ke_key e \<notin> {''Enter'', '' '', ''Delete'', ''w''}"
  shows "tb_activeId (fst (tabs_handleListKeyDown opts e s)) = tb_activeId s \<and>
         tb_tabs (fst (tabs_handleListKeyDown opts e s)) = tb_tabs s \<and>
         (\<forall>k. Tabs_onActiveChange k \<notin> set (did (snd (tabs_handleListKeyDown opts e s))))"
proof -
  have quiet: "fst (tabs_on_rover opts es u) = u \<and>
      (\<forall>k. Tabs_onActiveChange k \<notin> set (did (snd (tabs_on_rover opts es u))))" for es u
    using assms(1) by (induction opts es u rule: tabs_on_rover.induct) (auto split: option.split)
  have "tabs_handleListKeyDown opts e s = tabs_via_rover opts (\<lambda>ro. rover_handleKeyDown ro e) s"
    using assms by (simp add: tabs_handleListKeyDown_def Let_def split: option.split)
  with quiet show ?thesis by (simp add: tabs_via_rover_def split_def Let_def)
qed

theorem tabs_manual_keys_keep_active_witness:
  "tb_activeId (fst (tabs_handleListKeyDown (demo_tabs_options Manual)
     \<lparr>ke_key = ''ArrowRight'', ke_shift = False, ke_meta = False, ke_ctrl = False, ke_alt = False\<rparr>
     (createTabs (demo_tabs_options Manual) demo_tabs))) = Some ''a''"
  using tabs_manual_keys_keep_active[of "demo_tabs_options Manual"
      "\<lparr>ke_key = ''ArrowRight'', ke_shift = False, ke_meta = False, ke_ctrl = False, ke_alt = False\<rparr>"
      "createTabs (demo_tabs_options Manual) demo_tabs"]
  by (simp add: demo_tabs_options_def createTabs_def tabs_initial_active_def demo_tabs_def)

text \<open>dropping a dragged tab on another puts it directly before the target and moves no other
  tab relative to the rest; \<open>onReorder\<close> gets the ids in the new order.\<close>

theorem tabs_drag_places_before_target:
  assumes "tabs_ok s" and "tb_draggingId s = Some d" and "tb_dragOverId s = Some over" and "over \<noteq> d"
    and "d \<in> tab_ids (tb_tabs s)"
    and "filter (\<lambda>k. k \<noteq> d) (map tab_id (tb_tabs s)) = before @ over # rest"
  shows "map tab_id (tb_tabs (fst (tabs_handleDragEnd opts s))) = before @ d # over # rest \<and>
         mset (tb_tabs (fst (tabs_handleDragEnd opts s))) = mset (tb_tabs s) \<and>
         Tabs_onReorder (before @ d # over # rest) \<in> set (did (snd (tabs_handleDragEnd opts s))) \<and>
         tb_draggingId (fst (tabs_handleDragEnd opts s)) = None"
proof -
  have dist: "distinct (map tab_id (tb_tabs s))" using assms(1) by (simp add: tabs_ok_def)
  then have order: "drag_newOrder d over (tb_tabs s) = before @ d # over # rest"
    using drag_order_split[OF assms(6)] by (simp add: drag_newOrder_def Let_def)
  let ?us = "List.map_filter (map_get (tab_map (tb_tabs s))) (before @ d # over # rest)"
  have "set (before @ d # over # rest) = tab_ids (tb_tabs s)"
    using drag_newOrder_spec[OF dist, of d over] assms(5) order by (simp add: insert_absorb)
  then have "map tab_id ?us = before @ d # over # rest" using map_ids_pick[OF dist] by blast
  moreover have "mset ?us = mset (tb_tabs s)" using drag_perm[OF dist, of d over] order by simp
  ultimately show ?thesis using assms(2-4) order
    by (simp add: tabs_handleDragEnd_def Let_def tabs_sync_rover_spec(1) del: map_filter_simps)
qed

theorem tabs_drag_places_before_target_witness:
  "map tab_id (tb_tabs (fst (tabs_handleDragEnd (demo_tabs_options Automatic)
     ((createTabs (demo_tabs_options Automatic) demo_tabs)\<lparr>tb_draggingId := Some ''c'', tb_dragOverId := Some ''b''\<rparr>)))) =
   [''a'', ''c'', ''b'']"
proof -
  let ?s = "(createTabs (demo_tabs_options Automatic) demo_tabs)\<lparr>tb_draggingId := Some ''c'', tb_dragOverId := Some ''b''\<rparr>"
  have "tabs_ok (createTabs (demo_tabs_options Automatic) demo_tabs)"
    by (rule tabs_ok_createTabs) (simp_all add: demo_tabs_def demo_tabs_options_def)
  then have "tabs_ok ?s" by simp
  moreover have "filter (\<lambda>k. k \<noteq> ''c'') (map tab_id (tb_tabs ?s)) = [''a''] @ ''b'' # []"
    "''c'' \<in> tab_ids (tb_tabs ?s)"
    by (simp_all add: createTabs_def demo_tabs_def tab_ids_def)
  ultimately show ?thesis
    using tabs_drag_places_before_target[of ?s "''c''" "''b''" "[''a'']" "[]" "demo_tabs_options Automatic"]
    by simp
qed

text \<open>activating a tab does not move the rover, so Delete afterwards closes the tab the rover
  is on (the last one reached by keyboard) and the activated tab stays active and open.\<close>

theorem tabs_delete_closes_rover_tab:
  assumes "tabs_ok s" and "rv_activeId (tb_rover s) = Some a" and "a \<noteq> k"
    and "List.find (\<lambda>t. tab_id t = a) (tb_tabs s) = Some t" and "tab_closeable t"
    and "ke_key e = ''Delete''" and "to_activationMode opts = Manual"
    and "k \<in> tab_ids (tb_tabs s)" and "tb_activeId (fst (tabs_activate k s)) = Some k"
  shows "tb_tabs (fst (tabs_handleListKeyDown opts e (fst (tabs_activate k s)))) =
           filter (\<lambda>u. tab_id u \<noteq> a) (tb_tabs s) \<and>
         tb_activeId (fst (tabs_handleListKeyDown opts e (fst (tabs_activate k s)))) = Some k"
proof -
  let ?s = "fst (tabs_activate k s)"
  have s: "tb_rover ?s = tb_rover s" "tb_tabs ?s = tb_tabs s"
    using tabs_activate_frame[of s k] by (simp_all add: tabs_frame_def)
  have ta: "tab_id t = a" "t \<in> set (tb_tabs s)" using find_Some_in[OF assms(4)] by auto
  then have idx: "\<not> find_index (\<lambda>u. tab_id u = a) (tb_tabs s) < 0"
    using find_index_nonneg[of "\<lambda>u. tab_id u = a" "tb_tabs s"] by auto
  have "tabs_handleListKeyDown opts e ?s = after [Did Tabs_preventDefault] (tabs_close opts a ?s)"
    using assms(2,4,5,6) s ta by (simp add: tabs_handleListKeyDown_def Let_def)
  moreover have "fst (tabs_sync_rover opts u) = u\<lparr>tb_rover := tb_rover (fst (tabs_sync_rover opts u))\<rparr>" for u
    using tabs_on_rover_manual[OF assms(7)]
    by (simp add: tabs_sync_rover_def tabs_via_rover_def split_def Let_def)
  then have "tb_activeId (fst (tabs_sync_rover opts u)) = tb_activeId u" for u by (metis tabs.select_convs(2) tabs.surjective tabs.update_convs(5))
  ultimately show ?thesis using assms(3,9) s idx tabs_sync_rover_spec(1)
    by (simp add: tabs_close_def Let_def)
qed

theorem tabs_delete_closes_rover_tab_witness:
  "map tab_id (tb_tabs (fst (tabs_handleListKeyDown (demo_tabs_options Manual)
     \<lparr>ke_key = ''Delete'', ke_shift = False, ke_meta = False, ke_ctrl = False, ke_alt = False\<rparr>
     (fst (tabs_activate ''c'' (createTabs (demo_tabs_options Manual) demo_tabs)))))) = [''b'', ''c'']"
proof -
  let ?s = "createTabs (demo_tabs_options Manual) demo_tabs"
  have "tabs_ok ?s" by (rule tabs_ok_createTabs) (simp_all add: demo_tabs_def demo_tabs_options_def)
  moreover have "rv_activeId (tb_rover ?s) = Some ''a''" "tb_activeId (fst (tabs_activate ''c'' ?s)) = Some ''c''"
    "List.find (\<lambda>t. tab_id t = ''a'') (tb_tabs ?s) = Some (hd demo_tabs)"
    by code_simp+
  moreover have "tb_tabs ?s = demo_tabs" "to_activationMode (demo_tabs_options Manual) = Manual"
    "tab_closeable (hd demo_tabs)" "''c'' \<in> tab_ids demo_tabs"
    by (simp_all add: createTabs_def demo_tabs_options_def demo_tabs_def tab_ids_def)
  ultimately show ?thesis
    using tabs_delete_closes_rover_tab[of ?s "''a''" "''c''" "hd demo_tabs"
        "\<lparr>ke_key = ''Delete'', ke_shift = False, ke_meta = False, ke_ctrl = False, ke_alt = False\<rparr>"
        "demo_tabs_options Manual"]
    by (simp add: demo_tabs_def)
qed

text \<open>A \<open>defaultActiveId\<close> that names no tab is kept: the controller has an active id and no tab is selected.\<close>

lemma tabs_default_unchecked:
  "tb_activeId (createTabs (demo_tabs_options Manual\<lparr>to_defaultActiveId := Some ''z''\<rparr>) demo_tabs) = Some ''z'' \<and>
   filter (\<lambda>t. tp_ariaSelected (tabs_getTabProps (createTabs (demo_tabs_options Manual\<lparr>to_defaultActiveId := Some ''z''\<rparr>) demo_tabs) (tab_id t)))
     demo_tabs = []"
  by (simp add: createTabs_def tabs_initial_active_def demo_tabs_options_def demo_tabs_def tabs_getTabProps_def Let_def)

end
