(* ===== verification/Task_Queue.thy ===== *)
theory Task_Queue
  imports Js_Text Contracts
begin

text \<open>
  \<open>headless-core/task-queue.ts\<close>: the queue of agent tasks. The concrete state is the code's (a
  \<open>Map\<close> of tasks, the \<open>insertionOrder\<close> array, the reorder override); the abstract one is the
  list of tasks in insertion order, and every operation refines a function on that list.
\<close>

section \<open>Data\<close>

datatype task_state = Queued | Running | Paused | Completed | Failed

record task_descriptor =
  td_id :: string
  td_agentId :: string
  td_title :: string
  td_description :: "string option"
  td_priority :: int
  td_state :: task_state
  td_progress :: "rat option"
  td_startedAt :: "string option"
  td_completedAt :: "string option"
  td_errorMessage :: "string option"

record task = task_descriptor +
  tk_createdAt :: string

text \<open>
  \<open>Partial<Omit<TaskDescriptor, 'id'>>\<close>: \<open>None\<close> is an absent key; for the optional fields a
  present key may hold \<open>undefined\<close> (\<open>Some None\<close>).
\<close>

record task_patch =
  tp_agentId :: "string option"
  tp_title :: "string option"
  tp_description :: "string option option"
  tp_priority :: "int option"
  tp_state :: "task_state option"
  tp_progress :: "rat option option"
  tp_startedAt :: "string option option"
  tp_completedAt :: "string option option"
  tp_errorMessage :: "string option option"

record state_announcement =
  sa_text :: string
  sa_assertive :: bool

record task_queue =
  tq_tasks :: "(string, task) jsmap"
  tq_insertionOrder :: "string list"
  tq_reorderOverride :: "string list option"
  tq_listeners :: "listener jsset"
  tq_taskListeners :: keyed_listeners

datatype task_effect = Task_listener listener task

type_synonym task_event = "(task list, task_effect) event"

section \<open>Operations\<close>

definition DEFAULT_RETENTION :: int where
  "DEFAULT_RETENTION = 200"

fun isActive :: "task_state \<Rightarrow> bool" where
  "isActive Queued = True"
| "isActive Running = True"
| "isActive Paused = True"
| "isActive _ = False"

fun isTerminal :: "task_state \<Rightarrow> bool" where
  "isTerminal Completed = True"
| "isTerminal Failed = True"
| "isTerminal _ = False"

fun activeStateRank :: "task_state \<Rightarrow> int" where
  "activeStateRank Running = 0"
| "activeStateRank Paused = 1"
| "activeStateRank Queued = 2"
| "activeStateRank _ = 3"

definition tq_snapshot :: "task_queue \<Rightarrow> task list" where
  "tq_snapshot s = List.map_filter (map_get (tq_tasks s)) (tq_insertionOrder s)"

definition tq_emit :: "task_queue \<Rightarrow> task_event list" where
  "tq_emit s = emit_to (tq_listeners s) (tq_snapshot s)"

definition tq_emitTask :: "task \<Rightarrow> task_queue \<Rightarrow> task_event list" where
  "tq_emitTask t s =
     map (\<lambda>l. Did (Task_listener l t)) (keyed_get (td_id t) (tq_taskListeners s))"

text \<open>One turn of the eviction loop: the oldest terminal task, if there is one.\<close>

definition evict_one :: "task_queue \<Rightarrow> task_queue" where
  "evict_one s =
     (case List.find (\<lambda>k. case map_get (tq_tasks s) k of
              None \<Rightarrow> False | Some t \<Rightarrow> isTerminal (td_state t)) (tq_insertionOrder s) of
        None \<Rightarrow> s
      | Some k \<Rightarrow> s\<lparr>tq_tasks := map_del k (tq_tasks s),
                   tq_insertionOrder := splice_out k (tq_insertionOrder s)\<rparr>)"

text \<open>\<open>while (nonActive > maxRetention)\<close>: the count falls by one each turn.\<close>

fun evict_loop :: "nat \<Rightarrow> task_queue \<Rightarrow> task_queue" where
  "evict_loop 0 s = s"
| "evict_loop (Suc n) s = evict_loop n (evict_one s)"

definition evictIfOverflow :: "int \<Rightarrow> task_queue \<Rightarrow> task_queue" where
  "evictIfOverflow maxRetention s =
     (let nonActive = length (filter (\<lambda>t. isTerminal (td_state t)) (map_values (tq_tasks s)))
      in evict_loop (nat (int nonActive - maxRetention)) s)"

text \<open>\<open>{...descriptor, createdAt: now()}\<close>, the clock's answer being an argument.\<close>

definition with_createdAt :: "task_descriptor \<Rightarrow> string \<Rightarrow> task" where
  "with_createdAt d now = task_descriptor.extend d \<lparr>tk_createdAt = now\<rparr>"

definition task_add :: "int \<Rightarrow> task_descriptor \<Rightarrow> string \<Rightarrow> task_queue \<Rightarrow> task_queue \<times> task_event list" where
  "task_add maxRetention descriptor now s =
     (if map_has (tq_tasks s) (td_id descriptor) then (s, [])
      else
        (let t = with_createdAt descriptor now;
             s1 = s\<lparr>tq_tasks := map_set (td_id t) t (tq_tasks s),
                    tq_insertionOrder := tq_insertionOrder s @ [td_id t]\<rparr>;
             s2 = evictIfOverflow maxRetention s1
         in (s2, tq_emit s2 @ tq_emitTask t s2)))"

definition task_remove :: "string \<Rightarrow> task_queue \<Rightarrow> task_queue \<times> task_event list" where
  "task_remove k s =
     (if \<not> map_has (tq_tasks s) k then (s, [])
      else
        (let s' = s\<lparr>tq_tasks := map_del k (tq_tasks s),
                    tq_insertionOrder := splice_out k (tq_insertionOrder s),
                    tq_reorderOverride := map_option (filter (\<lambda>x. x \<noteq> k)) (tq_reorderOverride s)\<rparr>
         in (s', tq_emit s')))"

definition field_patch :: "'a option \<Rightarrow> 'a \<Rightarrow> 'a" where
  "field_patch p old = (case p of None \<Rightarrow> old | Some v \<Rightarrow> v)"

text \<open>\<open>{...cur, ...patch}\<close>.\<close>

definition apply_patch :: "task_patch \<Rightarrow> task \<Rightarrow> task" where
  "apply_patch p cur = cur\<lparr>
     td_agentId := field_patch (tp_agentId p) (td_agentId cur),
     td_title := field_patch (tp_title p) (td_title cur),
     td_description := field_patch (tp_description p) (td_description cur),
     td_priority := field_patch (tp_priority p) (td_priority cur),
     td_state := field_patch (tp_state p) (td_state cur),
     td_progress := field_patch (tp_progress p) (td_progress cur),
     td_startedAt := field_patch (tp_startedAt p) (td_startedAt cur),
     td_completedAt := field_patch (tp_completedAt p) (td_completedAt cur),
     td_errorMessage := field_patch (tp_errorMessage p) (td_errorMessage cur)\<rparr>"

text \<open>\<open>'key' in patch && patch.key !== cur.key\<close>.\<close>

definition patch_changes :: "'a option \<Rightarrow> 'a \<Rightarrow> bool" where
  "patch_changes p old \<longleftrightarrow> (case p of None \<Rightarrow> False | Some v \<Rightarrow> v \<noteq> old)"

definition task_update :: "int \<Rightarrow> string \<Rightarrow> task_patch \<Rightarrow> task_queue \<Rightarrow> task_queue \<times> task_event list" where
  "task_update maxRetention k patch s =
     (case map_get (tq_tasks s) k of
        None \<Rightarrow> (s, [])
      | Some cur \<Rightarrow>
          (let next = apply_patch patch cur;
               s1 = s\<lparr>tq_tasks := map_set k next (tq_tasks s)\<rparr>;
               s2 = (if patch_changes (tp_priority patch) (td_priority cur) \<or>
                        patch_changes (tp_state patch) (td_state cur)
                     then s1\<lparr>tq_reorderOverride := None\<rparr> else s1);
               s3 = (if tp_state patch \<noteq> None \<and> isTerminal (td_state next) \<and> \<not> isTerminal (td_state cur)
                     then evictIfOverflow maxRetention s2 else s2)
           in (s3, tq_emit s3 @ tq_emitTask next s3)))"

definition task_reorder :: "string list \<Rightarrow> task_queue \<Rightarrow> task_queue \<times> task_event list" where
  "task_reorder ids s =
     (if \<exists>k\<in>set ids. (case map_get (tq_tasks s) k of None \<Rightarrow> True | Some t \<Rightarrow> \<not> isActive (td_state t))
      then (s, [])
      else (let s' = s\<lparr>tq_reorderOverride := Some ids\<rparr> in (s', tq_emit s')))"

definition task_byState :: "task_state \<Rightarrow> task_queue \<Rightarrow> task list" where
  "task_byState st s = filter (\<lambda>t. td_state t = st) (tq_snapshot s)"

definition task_byAgent :: "string \<Rightarrow> task_queue \<Rightarrow> task list" where
  "task_byAgent a s = filter (\<lambda>t. td_agentId t = a) (tq_snapshot s)"

text \<open>
  The comparator of \<open>byPriority\<close>. \<open>localeCompare\<close> depends on the host's locale, so it is an
  argument; what is used of it is that it is a consistent order (\<open>comparator\<close>).
\<close>

definition priority_cmp :: "(string \<Rightarrow> string \<Rightarrow> int) \<Rightarrow> task \<Rightarrow> task \<Rightarrow> int" where
  "priority_cmp localeCompare a b =
     (if td_priority a \<noteq> td_priority b then td_priority b - td_priority a
      else
        (let sa = activeStateRank (td_state a); sb = activeStateRank (td_state b) in
         if sa \<noteq> sb then sa - sb else localeCompare (tk_createdAt a) (tk_createdAt b)))"

definition task_map :: "task list \<Rightarrow> (string, task) jsmap" where
  "task_map ts = map_from (map (\<lambda>t. (td_id t, t)) ts)"

definition task_byPriority :: "(string \<Rightarrow> string \<Rightarrow> int) \<Rightarrow> task_queue \<Rightarrow> task list" where
  "task_byPriority localeCompare s =
     (let active = filter (\<lambda>t. isActive (td_state t)) (tq_snapshot s) in
      case tq_reorderOverride s of
        Some ids \<Rightarrow> List.map_filter (map_get (task_map active)) ids
      | None \<Rightarrow> js_sort (priority_cmp localeCompare) active)"

definition task_subscribeTask :: "string \<Rightarrow> listener \<Rightarrow> task_queue \<Rightarrow> task_queue \<times> nat" where
  "task_subscribeTask k l s =
     (let (reg, r) = keyed_subscribe k l (tq_taskListeners s) in (s\<lparr>tq_taskListeners := reg\<rparr>, r))"

definition task_disposeTask :: "string \<Rightarrow> nat \<Rightarrow> listener \<Rightarrow> task_queue \<Rightarrow> task_queue" where
  "task_disposeTask k r l s = s\<lparr>tq_taskListeners := keyed_dispose k r l (tq_taskListeners s)\<rparr>"

definition silent_announcement :: state_announcement where
  "silent_announcement = \<lparr>sa_text = [], sa_assertive = False\<rparr>"

definition task_announceStateChange :: "string \<Rightarrow> task_state \<Rightarrow> task_queue \<Rightarrow> state_announcement" where
  "task_announceStateChange k prev s =
     (case map_get (tq_tasks s) k of
        None \<Rightarrow> silent_announcement
      | Some cur \<Rightarrow>
          (let next = td_state cur in
           if next = prev then silent_announcement
           else if next = Queued then silent_announcement
           else if next = Running \<and> prev = Paused then
             \<lparr>sa_text = td_title cur @ '' resumed'', sa_assertive = False\<rparr>
           else if next = Running then
             \<lparr>sa_text = td_title cur @ '' started'', sa_assertive = False\<rparr>
           else if next = Paused \<and> prev = Running then
             \<lparr>sa_text = td_title cur @ '' paused'', sa_assertive = False\<rparr>
           else if next = Completed then
             \<lparr>sa_text = td_title cur @ '' completed'', sa_assertive = False\<rparr>
           else if next = Failed then
             \<lparr>sa_text = (case td_errorMessage cur of
                 Some m \<Rightarrow> if length m > 0 then td_title cur @ '' failed: '' @ m
                           else td_title cur @ '' failed''
               | None \<Rightarrow> td_title cur @ '' failed''), sa_assertive = True\<rparr>
           else silent_announcement))"

datatype task_op =
    Task_add task_descriptor string | Task_remove string | Task_update string task_patch
  | Task_reorder "string list"
  | Task_subscribe listener | Task_unsubscribe listener
  | Task_subscribeTask string listener | Task_disposeTask string nat listener

fun task_step :: "int \<Rightarrow> task_op \<Rightarrow> task_queue \<Rightarrow> task_queue \<times> task_event list" where
  "task_step m (Task_add d now) s = task_add m d now s"
| "task_step m (Task_remove k) s = task_remove k s"
| "task_step m (Task_update k p) s = task_update m k p s"
| "task_step m (Task_reorder ids) s = task_reorder ids s"
| "task_step m (Task_subscribe l) s = (s\<lparr>tq_listeners := subscribe l (tq_listeners s)\<rparr>, [])"
| "task_step m (Task_unsubscribe l) s = (s\<lparr>tq_listeners := unsubscribe l (tq_listeners s)\<rparr>, [])"
| "task_step m (Task_subscribeTask k l) s = (fst (task_subscribeTask k l s), [])"
| "task_step m (Task_disposeTask k r l) s = (task_disposeTask k r l s, [])"

definition empty_task_queue :: task_queue where
  "empty_task_queue =
     \<lparr>tq_tasks = [], tq_insertionOrder = [], tq_reorderOverride = None,
      tq_listeners = [], tq_taskListeners = ([], [])\<rparr>"

text \<open>\<open>createTaskQueueManager\<close> seeds the roster by \<open>add\<close>, the clock answering in order.\<close>

definition createTaskQueueManager :: "int \<Rightarrow> (task_descriptor \<times> string) list \<Rightarrow> task_queue" where
  "createTaskQueueManager m initialTasks =
     fst (run (task_step m) (map (\<lambda>(d, now). Task_add d now) initialTasks) empty_task_queue)"

section \<open>Abstract specification\<close>

text \<open>
  The list of tasks in insertion order. Overflow drops the oldest terminal tasks until
  \<open>maxRetention\<close> of them are left.
\<close>

abbreviation (input) terminal :: "task \<Rightarrow> bool" where
  "terminal t \<equiv> isTerminal (td_state t)"

definition evict_spec :: "int \<Rightarrow> task list \<Rightarrow> task list" where
  "evict_spec m ts = (drop_first terminal ^^ nat (int (length (filter terminal ts)) - m)) ts"

fun queue_spec :: "int \<Rightarrow> task_op \<Rightarrow> task list \<Rightarrow> task list" where
  "queue_spec m (Task_add d now) ts =
     (if td_id d \<in> td_id ` set ts then ts else evict_spec m (ts @ [with_createdAt d now]))"
| "queue_spec m (Task_remove k) ts = filter (\<lambda>t. td_id t \<noteq> k) ts"
| "queue_spec m (Task_update k p) ts =
     (let ts' = map (\<lambda>t. if td_id t = k then apply_patch p t else t) ts in
      if \<exists>t\<in>set ts. td_id t = k \<and> tp_state p \<noteq> None \<and> terminal (apply_patch p t) \<and> \<not> terminal t
      then evict_spec m ts' else ts')"
| "queue_spec m _ ts = ts"

definition tq_ok :: "task_queue \<Rightarrow> bool" where
  "tq_ok s \<longleftrightarrow> distinct (map_keys (tq_tasks s)) \<and> tq_insertionOrder s = map_keys (tq_tasks s) \<and>
     (\<forall>(k, t)\<in>set (tq_tasks s). td_id t = k) \<and>
     (\<forall>ids k. tq_reorderOverride s = Some ids \<longrightarrow> k \<in> set ids \<longrightarrow>
        (\<exists>t. map_get (tq_tasks s) k = Some t \<and> isActive (td_state t)))"

lemma tq_ok_snapshot: "tq_ok s \<Longrightarrow> tq_snapshot s = map_values (tq_tasks s)"
  by (simp add: tq_ok_def tq_snapshot_def map_filter_keys)

lemma tq_ok_ids: "tq_ok s \<Longrightarrow> map td_id (map_values (tq_tasks s)) = map_keys (tq_tasks s)"
  by (auto simp: tq_ok_def)

lemma not_active_terminal: "isActive st \<longleftrightarrow> \<not> isTerminal st"
  by (cases st) auto

text \<open>One eviction turn drops the first terminal task.\<close>

lemma evict_one_spec:
  assumes ok: "tq_ok s"
  shows "tq_ok (evict_one s) \<and> map_values (tq_tasks (evict_one s)) = drop_first terminal (map_values (tq_tasks s)) \<and>
         tq_listeners (evict_one s) = tq_listeners s"
proof (cases "List.find (\<lambda>p. terminal (snd p)) (tq_tasks s)")
  case None
  then have "\<forall>t\<in>set (map_values (tq_tasks s)). \<not> terminal t" by (auto simp: find_None_iff_all)
  moreover have "evict_one s = s"
    using ok None find_via_keys[of "tq_tasks s" terminal] by (simp add: evict_one_def tq_ok_def)
  ultimately show ?thesis using ok by (simp add: drop_first_none)
next
  case (Some p)
  obtain k t where p: "p = (k, t)" by (cases p)
  from find_split[OF Some] p obtain a b where
    s: "tq_tasks s = a @ (k, t) # b" "terminal t" "\<forall>x\<in>set a. \<not> terminal (snd x)" by auto
  have d: "distinct (map_keys (tq_tasks s))" and o1: "tq_insertionOrder s = map_keys (tq_tasks s)"
    using ok by (simp_all add: tq_ok_def)
  have e: "evict_one s = s\<lparr>tq_tasks := map_del k (tq_tasks s),
      tq_insertionOrder := splice_out k (tq_insertionOrder s)\<rparr>"
    using Some p d o1 find_via_keys[of "tq_tasks s" terminal] by (simp add: evict_one_def)
  have del: "map_del k (tq_tasks s) = a @ b" using d s(1) delete_distinct_split by metis
  have "k \<notin> set (map_keys a)" using d s(1) by auto
  then have rem: "splice_out k (map_keys (tq_tasks s)) = map_keys (a @ b)"
    by (simp add: splice_out_remove1 s(1) remove1_append)
  have "map_get (tq_tasks s) k = Some t" by (rule map_of_is_SomeI) (use d s(1) in auto)
  then have surv: "(\<exists>u. map_get (map_del k (tq_tasks s)) j = Some u \<and> isActive (td_state u))"
    if "\<exists>u. map_get (tq_tasks s) j = Some u \<and> isActive (td_state u)" for j
    using that s(2) map_of_delete[of k "tq_tasks s" j] by (auto simp: not_active_terminal)
  have ov: "\<forall>ids j. tq_reorderOverride s = Some ids \<longrightarrow> j \<in> set ids \<longrightarrow>
        (\<exists>u. map_get (map_del k (tq_tasks s)) j = Some u \<and> isActive (td_state u))"
    using ok surv unfolding tq_ok_def by blast
  have "tq_ok (evict_one s)"
    unfolding tq_ok_def
  proof (intro conjI)
    show "distinct (map_keys (tq_tasks (evict_one s)))" using e d by (simp add: distinct_keys_delete)
    show "tq_insertionOrder (evict_one s) = map_keys (tq_tasks (evict_one s))"
      using e o1 rem del s(1) by simp
    show "\<forall>(k, t)\<in>set (tq_tasks (evict_one s)). td_id t = k"
      using e ok by (auto simp: tq_ok_def in_delete)
    show "\<forall>ids j. tq_reorderOverride (evict_one s) = Some ids \<longrightarrow> j \<in> set ids \<longrightarrow>
        (\<exists>t. map_get (tq_tasks (evict_one s)) j = Some t \<and> isActive (td_state t))"
      using e ov by simp
  qed
  moreover have "map_values (tq_tasks (evict_one s)) = drop_first terminal (map_values (tq_tasks s))"
    using e del s drop_first_split[of "map snd a" terminal t "map snd b"] by simp
  ultimately show ?thesis using e by simp
qed

lemma evict_loop_spec:
  "tq_ok s \<Longrightarrow> tq_ok (evict_loop n s) \<and>
   map_values (tq_tasks (evict_loop n s)) = (drop_first terminal ^^ n) (map_values (tq_tasks s)) \<and>
   tq_listeners (evict_loop n s) = tq_listeners s"
  by (induction n arbitrary: s) (simp_all add: evict_one_spec funpow_Suc_right del: funpow.simps(2))

lemma evict_listeners [simp]: "tq_listeners (evictIfOverflow m s) = tq_listeners s"
proof -
  have "tq_listeners (evict_loop n u) = tq_listeners u" for n u
    by (induction n arbitrary: u) (simp_all add: evict_one_def split: option.split)
  then show ?thesis by (simp add: evictIfOverflow_def Let_def)
qed

lemma evictIfOverflow_spec:
  assumes "tq_ok s"
  shows "tq_ok (evictIfOverflow m s)"
    and "tq_snapshot (evictIfOverflow m s) = evict_spec m (tq_snapshot s)"
    and "tq_listeners (evictIfOverflow m s) = tq_listeners s"
proof -
  note e = evict_loop_spec[OF assms, of "nat (int (length (filter terminal (map_values (tq_tasks s)))) - m)"]
  then show "tq_ok (evictIfOverflow m s)" "tq_listeners (evictIfOverflow m s) = tq_listeners s"
    by (simp_all add: evictIfOverflow_def Let_def)
  with e show "tq_snapshot (evictIfOverflow m s) = evict_spec m (tq_snapshot s)"
    by (simp add: tq_ok_snapshot assms evict_spec_def) (simp add: evictIfOverflow_def Let_def)
qed

section \<open>The operations refine the specification\<close>

lemma values_update:
  "distinct (map_keys m) \<Longrightarrow> \<forall>(k, t)\<in>set m. td_id t = k \<Longrightarrow> map_get m k = Some cur \<Longrightarrow>
   map_values (map_set k (f cur) m) = map (\<lambda>t. if td_id t = k then f t else t) (map_values m)"
proof (induction m)
  case (Cons p m)
  show ?case
  proof (cases "fst p = k")
    case True
    have "map (\<lambda>t. if td_id t = k then f t else t) (map_values m) = map_values m"
      using Cons.prems True by (intro map_idI) force
    with True Cons.prems show ?thesis by (cases p) auto
  next
    case False
    with Cons show ?thesis by (cases p) auto
  qed
qed simp

lemma values_delete:
  "\<forall>(k, t)\<in>set m. td_id t = k \<Longrightarrow>
   map_values (map_del k m) = filter (\<lambda>t. td_id t \<noteq> k) (map_values m)"
  by (induction m) auto

lemma apply_patch_id [simp]: "td_id (apply_patch p t) = td_id t"
  by (simp add: apply_patch_def)

lemma apply_patch_state:
  "\<not> patch_changes (tp_state p) (td_state t) \<Longrightarrow> td_state (apply_patch p t) = td_state t"
  by (auto simp: apply_patch_def patch_changes_def field_patch_def split: option.splits)

lemma in_snapshot_ids: "tq_ok s \<Longrightarrow> k \<in> td_id ` set (tq_snapshot s) \<longleftrightarrow> map_has (tq_tasks s) k"
  using tq_ok_ids[of s] by (metis image_set map_has_iff tq_ok_snapshot)

lemma get_in_snapshot:
  assumes "tq_ok s"
  shows "map_get (tq_tasks s) k = Some t \<longleftrightarrow> t \<in> set (tq_snapshot s) \<and> td_id t = k"
proof -
  have "distinct (map_keys (tq_tasks s))" "\<forall>(k, t)\<in>set (tq_tasks s). td_id t = k"
    using assms by (auto simp: tq_ok_def)
  then show ?thesis using assms
    by (auto simp: tq_ok_snapshot map_of_eq_Some_iff intro: image_eqI[where x = "(k, t)"])
qed

lemma task_add_spec:
  assumes ok: "tq_ok s"
  shows "tq_ok (fst (task_add m d now s)) \<and>
         tq_snapshot (fst (task_add m d now s)) = queue_spec m (Task_add d now) (tq_snapshot s) \<and>
         tq_listeners (fst (task_add m d now s)) = tq_listeners s"
proof (cases "map_has (tq_tasks s) (td_id d)")
  case True
  then show ?thesis using ok by (simp add: task_add_def in_snapshot_ids)
next
  case False
  let ?t = "with_createdAt d now"
  let ?s = "s\<lparr>tq_tasks := map_set (td_id ?t) ?t (tq_tasks s),
              tq_insertionOrder := tq_insertionOrder s @ [td_id ?t]\<rparr>"
  have i: "td_id ?t = td_id d" by (simp add: with_createdAt_def task_descriptor.defs)
  have new: "td_id d \<notin> set (map_keys (tq_tasks s))" using False by (simp add: map_has_iff)
  have okS: "tq_ok ?s"
    unfolding tq_ok_def
  proof (intro conjI)
    show "\<forall>ids k. tq_reorderOverride ?s = Some ids \<longrightarrow> k \<in> set ids \<longrightarrow>
        (\<exists>t. map_get (tq_tasks ?s) k = Some t \<and> isActive (td_state t))"
      using ok new i unfolding tq_ok_def by (fastforce dest: map_of_SomeD simp: rev_image_eqI)
  qed (use ok new i in \<open>auto simp: tq_ok_def update_append\<close>)
  have "map_values (tq_tasks ?s) = map_values (tq_tasks s) @ [?t]"
    using new i by (simp add: update_append)
  then have snap: "tq_snapshot ?s = tq_snapshot s @ [?t]"
    using tq_ok_snapshot[OF okS] tq_ok_snapshot[OF ok] by simp
  have "fst (task_add m d now s) = evictIfOverflow m ?s"
    using False by (simp add: task_add_def Let_def)
  then show ?thesis
    using ok False evictIfOverflow_spec[OF okS, of m] snap by (simp add: in_snapshot_ids)
qed

lemma task_remove_spec:
  assumes ok: "tq_ok s"
  shows "tq_ok (fst (task_remove k s)) \<and>
         tq_snapshot (fst (task_remove k s)) = queue_spec m (Task_remove k) (tq_snapshot s)"
proof (cases "map_has (tq_tasks s) k")
  case True
  have "tq_ok (fst (task_remove k s))"
    using ok True
    by (auto simp: task_remove_def Let_def tq_ok_def splice_out_remove1 keys_delete distinct_remove1_removeAll distinct_removeAll in_delete)
  with ok True show ?thesis
    by (auto simp: tq_ok_snapshot task_remove_def Let_def values_delete tq_ok_def)
next
  case False
  then have "filter (\<lambda>t. td_id t \<noteq> k) (tq_snapshot s) = tq_snapshot s"
    using in_snapshot_ids[OF ok, of k] by (intro filter_True) auto
  with ok False show ?thesis by (simp add: task_remove_def)
qed

lemma task_update_spec:
  assumes ok: "tq_ok s"
  shows "tq_ok (fst (task_update m k p s)) \<and>
         tq_snapshot (fst (task_update m k p s)) = queue_spec m (Task_update k p) (tq_snapshot s) \<and>
         tq_listeners (fst (task_update m k p s)) = tq_listeners s"
proof (cases "map_get (tq_tasks s) k")
  case None
  then have "k \<notin> td_id ` set (tq_snapshot s)"
    using in_snapshot_ids[OF ok] by (simp add: map_has_def)
  then have "map (\<lambda>t. if td_id t = k then apply_patch p t else t) (tq_snapshot s) = tq_snapshot s"
    "\<not> (\<exists>t\<in>set (tq_snapshot s). td_id t = k)"
    by (auto intro!: map_idI)
  with None ok show ?thesis by (auto simp: task_update_def)
next
  case (Some cur)
  let ?next = "apply_patch p cur"
  let ?s1 = "s\<lparr>tq_tasks := map_set k ?next (tq_tasks s)\<rparr>"
  let ?s = "if patch_changes (tp_priority p) (td_priority cur) \<or> patch_changes (tp_state p) (td_state cur)
            then ?s1\<lparr>tq_reorderOverride := None\<rparr> else ?s1"
  have cur: "cur \<in> set (tq_snapshot s)" "td_id cur = k"
    using Some get_in_snapshot[OF ok] by auto
  have uniq: "t = cur" if "t \<in> set (tq_snapshot s)" "td_id t = k" for t
    using that Some get_in_snapshot[OF ok, of k t] by simp
  have "k \<in> set (map_keys (tq_tasks s))"
    using Some by (metis map_has_def map_has_iff option.distinct(1))
  then have keys: "map_keys (map_set k ?next (tq_tasks s)) = map_keys (tq_tasks s)"
    by (rule keys_update_in)
  have ok1: "tq_ok ?s"
    unfolding tq_ok_def
  proof (intro conjI)
    show "\<forall>(k, t)\<in>set (tq_tasks ?s). td_id t = k"
      using ok cur(2) by (auto simp: tq_ok_def dest!: in_update_cases)
    show "\<forall>ids k. tq_reorderOverride ?s = Some ids \<longrightarrow> k \<in> set ids \<longrightarrow>
        (\<exists>t. map_get (tq_tasks ?s) k = Some t \<and> isActive (td_state t))"
    proof (intro allI impI)
      fix ids j assume j: "tq_reorderOverride ?s = Some ids" "j \<in> set ids"
      then have "tq_reorderOverride s = Some ids" and same: "\<not> patch_changes (tp_state p) (td_state cur)"
        by (auto split: if_splits)
      then obtain t where "map_get (tq_tasks s) j = Some t" "isActive (td_state t)"
        using ok j(2) unfolding tq_ok_def by blast
      then show "\<exists>t. map_get (tq_tasks ?s) j = Some t \<and> isActive (td_state t)"
        using Some apply_patch_state[OF same] by (cases "j = k") auto
    qed
  qed (use ok keys in \<open>auto simp: tq_ok_def\<close>)
  have snap: "tq_snapshot ?s = map (\<lambda>t. if td_id t = k then apply_patch p t else t) (tq_snapshot s)"
    using ok Some values_update[of "tq_tasks s" k cur "apply_patch p"]
    unfolding tq_ok_snapshot[OF ok1] tq_ok_snapshot[OF ok] by (simp add: tq_ok_def)
  let ?C = "tp_state p \<noteq> None \<and> terminal ?next \<and> \<not> terminal cur"
  have c: "(\<exists>t\<in>set (tq_snapshot s). td_id t = k \<and> tp_state p \<noteq> None \<and> terminal (apply_patch p t) \<and> \<not> terminal t)
        \<longleftrightarrow> ?C"
    using uniq cur by blast
  have r: "fst (task_update m k p s) = (if ?C then evictIfOverflow m ?s else ?s)"
    using Some by (simp add: task_update_def Let_def)
  have q: "queue_spec m (Task_update k p) (tq_snapshot s) =
      (if ?C then evict_spec m (tq_snapshot ?s) else tq_snapshot ?s)"
    unfolding queue_spec.simps Let_def c snap by (rule refl)
  have l: "tq_listeners ?s = tq_listeners s" by simp
  show ?thesis
  proof (cases ?C)
    case True
    have "fst (task_update m k p s) = evictIfOverflow m ?s"
      "queue_spec m (Task_update k p) (tq_snapshot s) = evict_spec m (tq_snapshot ?s)"
      unfolding r q by (rule if_P[OF True])+
    then show ?thesis using evictIfOverflow_spec[OF ok1, of m] l by (simp only: simp_thms)
  next
    case False
    have "fst (task_update m k p s) = ?s" "queue_spec m (Task_update k p) (tq_snapshot s) = tq_snapshot ?s"
      unfolding r q by (rule if_not_P[OF False])+
    then show ?thesis using ok1 l by (simp only: simp_thms)
  qed
qed

lemma task_reorder_spec: "tq_ok s \<Longrightarrow> tq_ok (fst (task_reorder ids s)) \<and>
    tq_snapshot (fst (task_reorder ids s)) = tq_snapshot s"
  by (auto simp: task_reorder_def Let_def tq_ok_def tq_snapshot_def split: option.splits) blast

lemma subscriptions_only [simp]:
  "tq_ok (s\<lparr>tq_listeners := x\<rparr>) = tq_ok s" "tq_ok (s\<lparr>tq_taskListeners := y\<rparr>) = tq_ok s"
  "tq_snapshot (s\<lparr>tq_listeners := x\<rparr>) = tq_snapshot s"
  "tq_snapshot (s\<lparr>tq_taskListeners := y\<rparr>) = tq_snapshot s"
  by (simp_all add: tq_ok_def tq_snapshot_def)

lemma task_step_spec: "tq_ok s \<Longrightarrow> tq_ok (fst (task_step m x s)) \<and>
    tq_snapshot (fst (task_step m x s)) = queue_spec m x (tq_snapshot s)"
  by (cases x)
    (simp_all add: task_add_spec task_remove_spec task_update_spec task_reorder_spec
      task_subscribeTask_def task_disposeTask_def split_def Let_def del: queue_spec.simps(1-3))

lemma task_step_tracked:
  assumes "tq_ok s"
    and "\<forall>l. x \<noteq> Task_subscribe l" "\<forall>l. x \<noteq> Task_unsubscribe l"
  shows "tracked tq_listeners tq_snapshot s (task_step m x s)"
proof -
  have e [simp]: "sent (tq_emitTask t u) = []" for t u
    by (induction "keyed_get (td_id t) (tq_taskListeners u)") (simp_all add: tq_emitTask_def sent_def)
  show ?thesis
  proof (cases x)
    case (Task_add d now)
    then show ?thesis
      by (auto simp: tracked_def task_add_def Let_def tq_emit_def)
  next
    case (Task_update k p)
    then show ?thesis
      by (auto simp: tracked_def task_update_def Let_def tq_emit_def split: option.splits)
  qed (use assms in \<open>auto simp: tracked_def task_remove_def task_reorder_def Let_def tq_emit_def
        task_subscribeTask_def task_disposeTask_def split_def\<close>)
qed

interpretation task_component: component "task_step m" tq_ok "\<lambda>x. True"
  by unfold_locales (simp add: task_step_spec)

interpretation task_observable: observable "task_step m" tq_ok "\<lambda>x. True" tq_listeners tq_snapshot
  "\<lambda>l x. x = Task_unsubscribe l"
proof unfold_locales
  fix l x and s :: task_queue
  assume l: "l \<in> set (tq_listeners s)" "\<not> x = Task_unsubscribe l"
  show "l \<in> set (tq_listeners (fst (task_step m x s)))"
  proof (cases "(\<exists>k. x = Task_subscribe k) \<or> (\<exists>k. x = Task_unsubscribe k)")
    case True
    with l show ?thesis by auto
  next
    case False
    with l show ?thesis
      by (cases x) (auto simp: task_add_def task_update_def task_remove_def task_reorder_def
          task_subscribeTask_def task_disposeTask_def Let_def split_def split: option.splits)
  qed
next
  fix x l and s :: task_queue
  assume a: "tq_ok s" "l \<in> set (tq_listeners s)" "\<not> x = Task_unsubscribe l"
  show "mirror l (tq_snapshot s) (sent (snd (task_step m x s))) = tq_snapshot (fst (task_step m x s))"
  proof (cases "(\<exists>k. x = Task_subscribe k) \<or> (\<exists>k. x = Task_unsubscribe k)")
    case True
    with a show ?thesis by auto
  next
    case False
    with task_step_tracked[OF a(1), of x m] a(2) show ?thesis by (auto simp: tracked_def)
  qed
qed

section \<open>Properties\<close>

lemma tq_ok_empty [simp]: "tq_ok empty_task_queue" "tq_snapshot empty_task_queue = []"
  by (simp_all add: tq_ok_def empty_task_queue_def tq_snapshot_def map_filter_simps)

lemma task_run_spec:
  "tq_ok s \<Longrightarrow> tq_ok (fst (run (task_step m) xs s)) \<and>
   tq_snapshot (fst (run (task_step m) xs s)) = fold (queue_spec m) xs (tq_snapshot s)"
  by (induction xs arbitrary: s) (simp_all add: run_Cons task_step_spec del: run.simps(2))

lemma tq_ok_create: "tq_ok (createTaskQueueManager m init)"
  by (simp add: createTaskQueueManager_def task_run_spec)

text \<open>C1: Refinement. Whatever calls are made on a queue created from a seed roster, the snapshot
  is the list that the abstract specification computes from the same calls: \<open>add\<close> of a new id
  appends, of a known id does nothing, \<open>update\<close> rewrites one task in place, \<open>remove\<close> drops it,
  \<open>reorder\<close> does not touch the insertion order, and overflow drops the oldest terminal tasks.
\<close>

theorem task_queue_refines:
  "tq_snapshot (fst (run (task_step m) xs (createTaskQueueManager m init))) =
   fold (queue_spec m) (map (\<lambda>(d, now). Task_add d now) init @ xs) []"
  using task_run_spec[of "createTaskQueueManager m init" m xs]
    task_run_spec[of empty_task_queue m "map (\<lambda>(d, now). Task_add d now) init"]
  by (simp add: createTaskQueueManager_def)

definition terminal_count :: "task list \<Rightarrow> int" where
  "terminal_count ts = int (length (filter terminal ts))"

lemma terminal_drop_first:
  "length (filter P (drop_first P xs)) = length (filter P xs) - 1"
  by (induction xs) auto

lemma terminal_evict: "0 \<le> m \<Longrightarrow> terminal_count (evict_spec m ts) \<le> m"
proof -
  have "length (filter P ((drop_first P ^^ n) xs)) = length (filter P xs) - n" for P n and xs :: "task list"
    by (induction n) (simp_all add: terminal_drop_first)
  then show "0 \<le> m \<Longrightarrow> ?thesis" by (simp add: terminal_count_def evict_spec_def)
qed

lemma terminal_map:
  "(\<And>t. t \<in> set ts \<Longrightarrow> terminal (f t) \<Longrightarrow> terminal t) \<Longrightarrow> terminal_count (map f ts) \<le> terminal_count ts"
  by (induction ts) (auto simp: terminal_count_def)

lemma queue_spec_retention:
  assumes "0 \<le> m" and "terminal_count ts \<le> m"
  shows "terminal_count (queue_spec m x ts) \<le> m"
proof (cases x)
  case (Task_add d now)
  with assms show ?thesis by (simp add: terminal_evict)
next
  case (Task_remove k)
  have "terminal_count (filter P ts) \<le> terminal_count ts" for P
    by (induction ts) (auto simp: terminal_count_def)
  with Task_remove assms show ?thesis by (auto intro: order_trans)
next
  case (Task_update k p)
  let ?f = "\<lambda>t. if td_id t = k then apply_patch p t else t"
  show ?thesis
  proof (cases "\<exists>t\<in>set ts. td_id t = k \<and> tp_state p \<noteq> None \<and> terminal (apply_patch p t) \<and> \<not> terminal t")
    case True
    with Task_update assms show ?thesis by (simp add: terminal_evict Let_def)
  next
    case False
    have "terminal_count (map ?f ts) \<le> terminal_count ts"
    proof (rule terminal_map)
      fix t assume "t \<in> set ts" "terminal (?f t)"
      with False show "terminal t"
        by (cases "tp_state p") (auto simp: apply_patch_def field_patch_def split: if_splits)
    qed
    with False Task_update assms show ?thesis by (auto simp: Let_def)
  qed
qed (use assms in auto)

text \<open>C38: The retention bound. A queue created with a non-negative \<open>maxRetention\<close> never shows more
  than \<open>maxRetention\<close> finished tasks, whatever the roster and the calls.
\<close>

theorem task_queue_retention:
  assumes "0 \<le> m"
  shows "terminal_count (tq_snapshot (fst (run (task_step m) xs (createTaskQueueManager m init)))) \<le> m"
proof -
  have "terminal_count ts \<le> m \<Longrightarrow> terminal_count (fold (queue_spec m) ys ts) \<le> m" for ys ts
    using assms by (induction ys arbitrary: ts) (simp_all add: queue_spec_retention)
  from this[of "[]" "map (\<lambda>(d, now). Task_add d now) init @ xs"] assms
  show ?thesis
    using task_run_spec[of "createTaskQueueManager m init" m xs]
      task_run_spec[of empty_task_queue m "map (\<lambda>(d, now). Task_add d now) init"]
    by (simp add: createTaskQueueManager_def terminal_count_def)
qed

definition demo_task :: "string \<Rightarrow> task_state \<Rightarrow> int \<Rightarrow> task_descriptor" where
  "demo_task k st p = \<lparr>td_id = k, td_agentId = ''a'', td_title = k, td_description = None,
     td_priority = p, td_state = st, td_progress = None, td_startedAt = None,
     td_completedAt = None, td_errorMessage = None\<rparr>"

theorem task_queue_retention_witness:
  "terminal_count (tq_snapshot (fst (run (task_step 1)
     [Task_add (demo_task ''b'' Failed 2) ''1'', Task_add (demo_task ''c'' Running 2) ''2'']
     (createTaskQueueManager 1 [(demo_task ''a'' Completed 1, ''0'')])))) \<le> 1"
  by (rule task_queue_retention) simp

lemma comparator_diff: "comparator (\<lambda>a b. f a - (f b :: int))"
  by unfold_locales auto

lemma comparator_priority:
  assumes "comparator lc"
  shows "comparator (priority_cmp lc)"
proof -
  have "priority_cmp lc = then_cmp (\<lambda>a b. td_priority b - td_priority a)
      (then_cmp (\<lambda>a b. activeStateRank (td_state a) - activeStateRank (td_state b))
         (\<lambda>a b. lc (tk_createdAt a) (tk_createdAt b)))"
    by (auto simp: fun_eq_iff priority_cmp_def then_cmp_def Let_def)
  then show ?thesis
    using assms by (simp add: comparator_then comparator_diff comparator_flip[OF comparator_diff] comparator_key)
qed

lemma rank_inj: "isActive a \<Longrightarrow> isActive b \<Longrightarrow> activeStateRank a = activeStateRank b \<longleftrightarrow> a = b"
  by (cases a; cases b) auto

lemma map_filter_ids:
  "(\<And>k. k \<in> set ids \<Longrightarrow> \<exists>t. f k = Some t \<and> g t = k) \<Longrightarrow> map g (List.map_filter f ids) = ids"
proof (induction ids)
  case (Cons k ks)
  then obtain t where "f k = Some t" "g t = k" by auto
  with Cons show ?case by (simp add: map_filter_simps)
qed (simp add: map_filter_simps)

lemma task_map_get:
  assumes "tq_ok s"
  shows "map_get (task_map (filter P (tq_snapshot s))) k = Some t \<longleftrightarrow>
    t \<in> set (tq_snapshot s) \<and> P t \<and> td_id t = k"
proof -
  have "distinct (map td_id (tq_snapshot s))"
    unfolding tq_ok_snapshot[OF assms] tq_ok_ids[OF assms] using assms unfolding tq_ok_def by blast
  then have "distinct (map td_id (filter P (tq_snapshot s)))" by (simp add: distinct_map_filter)
  then show ?thesis
    by (auto simp: task_map_def map_from_distinct comp_def map_of_key_values)
qed

text \<open>\<open>byPriority\<close>. In every reachable state: without a reorder override it is exactly the
  active tasks, ordered by falling priority, then running before paused before queued, then by
  creation time; with an override it is the tasks of the override in its order, each of them
  still present and active.
\<close>

theorem task_byPriority_spec:
  assumes "comparator lc"
    and "s = fst (run (task_step m) xs (createTaskQueueManager m init))"
  shows "case tq_reorderOverride s of
      None \<Rightarrow> mset (task_byPriority lc s) = mset (filter (\<lambda>t. isActive (td_state t)) (tq_snapshot s)) \<and>
        sorted_wrt (\<lambda>a b. td_priority b < td_priority a \<or> td_priority a = td_priority b \<and>
          (activeStateRank (td_state a) < activeStateRank (td_state b) \<or>
           td_state a = td_state b \<and> lc (tk_createdAt a) (tk_createdAt b) \<le> 0)) (task_byPriority lc s)
    | Some ids \<Rightarrow> map td_id (task_byPriority lc s) = ids \<and>
        (\<forall>t\<in>set (task_byPriority lc s). t \<in> set (tq_snapshot s) \<and> isActive (td_state t))"
proof (cases "tq_reorderOverride s")
  case None
  let ?act = "filter (\<lambda>t. isActive (td_state t)) (tq_snapshot s)"
  have e: "task_byPriority lc s = js_sort (priority_cmp lc) ?act"
    using None by (simp add: task_byPriority_def)
  have "sorted_wrt (\<lambda>a b. priority_cmp lc a b \<le> 0) (task_byPriority lc s)"
    unfolding e by (rule comparator.js_sort_sorted[OF comparator_priority[OF assms(1)]])
  then have "sorted_wrt (\<lambda>a b. td_priority b < td_priority a \<or> td_priority a = td_priority b \<and>
          (activeStateRank (td_state a) < activeStateRank (td_state b) \<or>
           td_state a = td_state b \<and> lc (tk_createdAt a) (tk_createdAt b) \<le> 0)) (task_byPriority lc s)"
    by (rule sorted_wrt_mono_rel[rotated])
      (auto simp: e priority_cmp_def Let_def rank_inj less_le split: if_splits)
  then show ?thesis using None e by simp
next
  case (Some ids)
  have ok: "tq_ok s" using assms(2) by (simp add: task_run_spec tq_ok_create)
  have e: "task_byPriority lc s =
      List.map_filter (map_get (task_map (filter (\<lambda>t. isActive (td_state t)) (tq_snapshot s)))) ids"
    using Some by (simp add: task_byPriority_def)
  have "map td_id (task_byPriority lc s) = ids"
    unfolding e
  proof (rule map_filter_ids)
    fix k assume "k \<in> set ids"
    then show "\<exists>t. map_get (task_map (filter (\<lambda>t. isActive (td_state t)) (tq_snapshot s))) k = Some t \<and> td_id t = k"
      using ok Some get_in_snapshot[OF ok] unfolding task_map_get[OF ok] by (auto simp: tq_ok_def)
  qed
  moreover have "\<forall>t\<in>set (task_byPriority lc s). t \<in> set (tq_snapshot s) \<and> isActive (td_state t)"
    by (auto simp: e set_map_filter_iff task_map_get[OF ok])
  ultimately show ?thesis using Some by simp
qed

theorem task_byPriority_spec_witness:
  "let s = fst (run (task_step 5) [Task_add (demo_task ''b'' Running 1) ''1'']
       (createTaskQueueManager 5 [(demo_task ''a'' Queued 1, ''0''), (demo_task ''c'' Paused 7, ''2'')]))
   in sorted_wrt (\<lambda>a b. td_priority b < td_priority a \<or> td_priority a = td_priority b \<and>
          (activeStateRank (td_state a) < activeStateRank (td_state b) \<or>
           td_state a = td_state b \<and> str_cmp (tk_createdAt a) (tk_createdAt b) \<le> 0))
        (task_byPriority str_cmp s) \<and> map td_id (task_byPriority str_cmp s) = [''c'', ''b'', ''a'']"
proof -
  let ?s = "fst (run (task_step 5) [Task_add (demo_task ''b'' Running 1) ''1'']
       (createTaskQueueManager 5 [(demo_task ''a'' Queued 1, ''0''), (demo_task ''c'' Paused 7, ''2'')]))"
  have "tq_reorderOverride ?s = None" "map td_id (task_byPriority str_cmp ?s) = [''c'', ''b'', ''a'']"
    by code_simp+
  with task_byPriority_spec[OF str_order.comparator_axioms refl, of 5
      "[Task_add (demo_task ''b'' Running 1) ''1'']"
      "[(demo_task ''a'' Queued 1, ''0''), (demo_task ''c'' Paused 7, ''2'')]"]
  show ?thesis by (simp add: Let_def)
qed

text \<open>A disposer of \<open>subscribeTask\<close> called twice. After the first call emptied and dropped the
  task's listener set, a later subscriber of the same task gets a new set; the second call
  of the old disposer still deletes the task's key, so the new subscriber is cut off.
\<close>

theorem task_stale_disposer:
  "keyed_get k (tq_taskListeners (fst (run (task_step m)
      [Task_subscribeTask k l1, Task_disposeTask k 0 l1, Task_subscribeTask k l2]
      (createTaskQueueManager m init)))) = [l2] \<and>
   keyed_get k (tq_taskListeners (fst (run (task_step m)
      [Task_subscribeTask k l1, Task_disposeTask k 0 l1, Task_subscribeTask k l2, Task_disposeTask k 0 l1]
      (createTaskQueueManager m init)))) = []"
proof -
  have ev: "tq_taskListeners (evictIfOverflow m s) = tq_taskListeners s" for s
  proof -
    have "tq_taskListeners (evict_loop n u) = tq_taskListeners u" for n u
      by (induction n arbitrary: u) (simp_all add: evict_one_def split: option.split)
    then show ?thesis by (simp add: evictIfOverflow_def Let_def)
  qed
  have "tq_taskListeners (fst (run (task_step m) (map (\<lambda>(d, now). Task_add d now) ps) s)) = tq_taskListeners s"
    for ps s
    by (induction ps arbitrary: s) (auto simp: run_Cons task_add_def Let_def ev simp del: run.simps(2))
  then have "tq_taskListeners (createTaskQueueManager m init) = ([], [])"
    by (simp add: createTaskQueueManager_def empty_task_queue_def)
  then show ?thesis
    by (simp add: task_subscribeTask_def task_disposeTask_def keyed_subscribe_def keyed_dispose_def
        keyed_get_def subscribe_def unsubscribe_def Let_def)
qed

end
