(* ===== verification/Layered_Overlay.thy ===== *)
theory Layered_Overlay
  imports Js_Text Contracts
begin

text \<open>
  \<open>headless-core/layered-overlay.ts\<close>: the active set of the editor's overlay layers. Layers may
  be mutually exclusive or conflict pairwise; the controller keeps the active set free of
  both. The \<open>Set\<close> of active kinds is its list of members in insertion order.
\<close>

section \<open>Data and operations\<close>

record overlay_layer =
  ol_kind :: string
  ol_label :: string
  ol_description :: string
  ol_mutuallyExclusive :: bool
  ol_conflictsWith :: "string list"

record overlay =
  ov_layers :: "overlay_layer list"
  ov_layerByKind :: "(string, overlay_layer) jsmap"
  ov_activeSet :: "string jsset"
  ov_listeners :: "listener jsset"

type_synonym overlay_event = "(string jsset, unit) event"

text \<open>The constructor throws on a duplicate kind: \<open>Inl\<close> of the error's message.\<close>

fun register_layers :: "overlay_layer list \<Rightarrow> (string, overlay_layer) jsmap \<Rightarrow>
    string + (string, overlay_layer) jsmap" where
  "register_layers [] m = Inr m"
| "register_layers (layer # rest) m =
     (if map_has m (ol_kind layer)
      then Inl (''createLayeredOverlay: duplicate layer kind '' @ [CHR 0x22] @ ol_kind layer @ [CHR 0x22])
      else register_layers rest (map_set (ol_kind layer) layer m))"

definition createLayeredOverlay :: "overlay_layer list \<Rightarrow> string + overlay" where
  "createLayeredOverlay layers =
     (case register_layers layers [] of
        Inl msg \<Rightarrow> Inl msg
      | Inr m \<Rightarrow> Inr \<lparr>ov_layers = layers, ov_layerByKind = m, ov_activeSet = [], ov_listeners = []\<rparr>)"

definition overlay_emit :: "overlay \<Rightarrow> overlay_event list" where
  "overlay_emit s = emit_to (ov_listeners s) (ov_activeSet s)"

definition isExclusive :: "overlay \<Rightarrow> string \<Rightarrow> bool" where
  "isExclusive s kind =
     (case map_get (ov_layerByKind s) kind of None \<Rightarrow> False | Some l \<Rightarrow> ol_mutuallyExclusive l)"

definition declares :: "overlay \<Rightarrow> string \<Rightarrow> string \<Rightarrow> bool" where
  "declares s a b =
     (case map_get (ov_layerByKind s) a of None \<Rightarrow> False | Some l \<Rightarrow> b \<in> set (ol_conflictsWith l))"

definition isConflicting :: "overlay \<Rightarrow> string \<Rightarrow> string \<Rightarrow> bool" where
  "isConflicting s kindA kindB =
     (if kindA = kindB then False
      else if declares s kindA kindB then True
      else if declares s kindB kindA then True
      else False)"

definition dropConflicts :: "overlay \<Rightarrow> string jsset \<Rightarrow> string \<Rightarrow> string jsset" where
  "dropConflicts s target kind =
     fold (\<lambda>active target. if isConflicting s kind active then removeAll active target else target)
       target target"

definition sameActive :: "string jsset \<Rightarrow> string jsset \<Rightarrow> bool" where
  "sameActive left right =
     (if length left \<noteq> length right then False else list_all (\<lambda>k. k \<in> set right) left)"

text \<open>One turn of the outer conflict loop of \<open>normalizeActive\<close>, for one registered layer.\<close>

definition resolve_conflicts :: "overlay \<Rightarrow> overlay_layer \<Rightarrow> string jsset \<Rightarrow> string jsset" where
  "resolve_conflicts s layer next =
     (if ol_kind layer \<in> set next
      then fold (\<lambda>other next. if other \<noteq> ol_kind layer \<and> isConflicting s (ol_kind layer) other
                             then removeAll other next else next) next next
      else next)"

definition normalizeActive :: "overlay \<Rightarrow> string jsset \<Rightarrow> string jsset" where
  "normalizeActive s active =
     (let requested = set_from (filter (\<lambda>kind. map_has (ov_layerByKind s) kind) active) in
      case List.find (\<lambda>layer. ol_mutuallyExclusive layer \<and> ol_kind layer \<in> set requested) (ov_layers s) of
        Some exclusive \<Rightarrow> [ol_kind exclusive]
      | None \<Rightarrow>
          (let next = fold (\<lambda>layer next. if ol_kind layer \<in> set requested
                                        then set_add (ol_kind layer) next else next) (ov_layers s) []
           in fold (resolve_conflicts s) (ov_layers s) next))"

definition hasExclusiveActive :: "overlay \<Rightarrow> string option" where
  "hasExclusiveActive s = List.find (isExclusive s) (ov_activeSet s)"

definition toggle_next :: "overlay \<Rightarrow> string \<Rightarrow> string jsset" where
  "toggle_next s kind =
     (if kind \<in> set (ov_activeSet s) then removeAll kind (ov_activeSet s)
      else if isExclusive s kind then [kind]
      else
        (let next = (case hasExclusiveActive s of
                       None \<Rightarrow> ov_activeSet s | Some e \<Rightarrow> removeAll e (ov_activeSet s))
         in set_add kind (dropConflicts s next kind)))"

definition overlay_toggle :: "string \<Rightarrow> overlay \<Rightarrow> overlay \<times> overlay_event list" where
  "overlay_toggle kind s =
     (if \<not> map_has (ov_layerByKind s) kind then (s, [])
      else (let s' = s\<lparr>ov_activeSet := toggle_next s kind\<rparr> in (s', overlay_emit s')))"

definition overlay_setActive :: "string jsset \<Rightarrow> overlay \<Rightarrow> overlay \<times> overlay_event list" where
  "overlay_setActive active s =
     (let next = normalizeActive s active in
      if sameActive (ov_activeSet s) next then (s, [])
      else (let s' = s\<lparr>ov_activeSet := next\<rparr> in (s', overlay_emit s')))"

definition overlay_clear :: "overlay \<Rightarrow> overlay \<times> overlay_event list" where
  "overlay_clear s =
     (if ov_activeSet s = [] then (s, [])
      else (let s' = s\<lparr>ov_activeSet := []\<rparr> in (s', overlay_emit s')))"

definition overlay_isActive :: "string \<Rightarrow> overlay \<Rightarrow> bool" where
  "overlay_isActive kind s \<longleftrightarrow> kind \<in> set (ov_activeSet s)"

datatype overlay_op =
    Overlay_toggle string | Overlay_setActive "string jsset" | Overlay_clear
  | Overlay_subscribe listener | Overlay_unsubscribe listener

fun overlay_step :: "overlay_op \<Rightarrow> overlay \<Rightarrow> overlay \<times> overlay_event list" where
  "overlay_step (Overlay_toggle k) s = overlay_toggle k s"
| "overlay_step (Overlay_setActive a) s = overlay_setActive a s"
| "overlay_step Overlay_clear s = overlay_clear s"
| "overlay_step (Overlay_subscribe l) s = (s\<lparr>ov_listeners := subscribe l (ov_listeners s)\<rparr>, [])"
| "overlay_step (Overlay_unsubscribe l) s = (s\<lparr>ov_listeners := unsubscribe l (ov_listeners s)\<rparr>, [])"

text \<open>The query-string form: kinds in code-unit order, comma separated.\<close>

definition serializeActive :: "string jsset \<Rightarrow> string" where
  "serializeActive active = join '','' (js_sort str_cmp active)"

definition parseActive :: "string \<Rightarrow> string jsset \<Rightarrow> string jsset" where
  "parseActive input knownKinds =
     (let trimmed = trim input in
      if trimmed = [] then []
      else
        (let parts = filter (\<lambda>p. p \<noteq> []) (map trim (split_on CHR '','' trimmed)) in
         fold (\<lambda>kind filtered. if kind \<in> set knownKinds then set_add kind filtered else filtered) parts []))"

section \<open>The invariant\<close>

definition overlay_ok :: "overlay \<Rightarrow> bool" where
  "overlay_ok s \<longleftrightarrow> distinct (map ol_kind (ov_layers s)) \<and>
     ov_layerByKind s = map (\<lambda>l. (ol_kind l, l)) (ov_layers s) \<and>
     distinct (ov_activeSet s) \<and> set (ov_activeSet s) \<subseteq> ol_kind ` set (ov_layers s) \<and>
     (\<forall>k\<in>set (ov_activeSet s). isExclusive s k \<longrightarrow> ov_activeSet s = [k]) \<and>
     (\<forall>a\<in>set (ov_activeSet s). \<forall>b\<in>set (ov_activeSet s). \<not> isConflicting s a b)"

lemma isConflicting_sym: "isConflicting s a b = isConflicting s b a"
  by (auto simp: isConflicting_def)

lemma isConflicting_self [simp]: "\<not> isConflicting s a a"
  by (simp add: isConflicting_def)

lemma fold_drop_if:
  "fold (\<lambda>x t. if P x then removeAll x t else t) xs t = filter (\<lambda>x. \<not> (x \<in> set xs \<and> P x)) t"
proof (induction xs arbitrary: t)
  case (Cons x xs)
  then show ?case by (auto simp: removeAll_filter_not_eq intro!: filter_cong)
qed simp

lemma dropConflicts_eq: "dropConflicts s target kind = filter (\<lambda>a. \<not> isConflicting s kind a) target"
  by (auto simp: dropConflicts_def fold_drop_if intro: filter_cong)

lemma resolve_conflicts_eq:
  "resolve_conflicts s layer next =
   (if ol_kind layer \<in> set next then filter (\<lambda>a. \<not> isConflicting s (ol_kind layer) a) next else next)"
proof -
  have "filter (\<lambda>x. \<not> (x \<in> set next \<and> x \<noteq> ol_kind layer \<and> isConflicting s (ol_kind layer) x)) next =
        filter (\<lambda>a. \<not> isConflicting s (ol_kind layer) a) next"
    by (rule filter_cong) auto
  then show ?thesis by (simp add: resolve_conflicts_def fold_drop_if)
qed

lemma fold_resolve:
  "set (fold (resolve_conflicts s) ls next) \<subseteq> set next \<and>
   (distinct next \<longrightarrow> distinct (fold (resolve_conflicts s) ls next)) \<and>
   (\<forall>k\<in>ol_kind ` set ls. \<forall>b\<in>set (fold (resolve_conflicts s) ls next).
      k \<in> set (fold (resolve_conflicts s) ls next) \<longrightarrow> \<not> isConflicting s k b)"
proof (induction ls arbitrary: "next")
  case (Cons l ls)
  let ?n = "resolve_conflicts s l next"
  have "set ?n \<subseteq> set next" "distinct next \<longrightarrow> distinct ?n"
    "ol_kind l \<in> set ?n \<Longrightarrow> b \<in> set ?n \<Longrightarrow> \<not> isConflicting s (ol_kind l) b" for b
    by (auto simp: resolve_conflicts_eq split: if_splits)
  with Cons[of ?n] show ?case by auto
qed simp

lemma fold_resolve_id:
  "\<forall>a\<in>set next. \<forall>b\<in>set next. \<not> isConflicting s a b \<Longrightarrow> fold (resolve_conflicts s) ls next = next"
  by (induction ls) (auto simp: resolve_conflicts_eq filter_id_conv)

lemma fold_add_requested:
  "distinct (map ol_kind ls @ acc) \<Longrightarrow>
   fold (\<lambda>layer next. if ol_kind layer \<in> R then set_add (ol_kind layer) next else next) ls acc =
   acc @ filter (\<lambda>k. k \<in> R) (map ol_kind ls)"
  by (induction ls arbitrary: acc) (auto simp: set_add_def)

lemma overlay_ok_kinds: "overlay_ok s \<Longrightarrow> map_has (ov_layerByKind s) k \<longleftrightarrow> k \<in> ol_kind ` set (ov_layers s)"
  by (simp add: overlay_ok_def map_has_iff comp_def)

lemma overlay_ok_exclusive:
  assumes "overlay_ok s" and "l \<in> set (ov_layers s)"
  shows "isExclusive s (ol_kind l) = ol_mutuallyExclusive l"
proof -
  have "map_get (ov_layerByKind s) (ol_kind l) = Some l"
    using assms by (simp add: overlay_ok_def map_of_key_values)
  then show ?thesis by (simp add: isExclusive_def)
qed

lemma normalizeActive_spec:
  fixes active :: "string list"
  assumes ok: "overlay_ok s"
  defines "n \<equiv> normalizeActive s active"
  shows "distinct n" and "set n \<subseteq> ol_kind ` set (ov_layers s) \<inter> set active"
    and "\<forall>k\<in>set n. isExclusive s k \<longrightarrow> n = [k]"
    and "\<forall>a\<in>set n. \<forall>b\<in>set n. \<not> isConflicting s a b"
proof -
  let ?R = "ol_kind ` set (ov_layers s) \<inter> set active"
  let ?find = "List.find (\<lambda>layer. ol_mutuallyExclusive layer \<and> ol_kind layer \<in> ?R) (ov_layers s)"
  have R: "set (set_from (filter (\<lambda>kind. map_has (ov_layerByKind s) kind) active)) = ?R"
    using overlay_ok_kinds[OF ok] by auto
  have "distinct n \<and> set n \<subseteq> ?R \<and> (\<forall>k\<in>set n. isExclusive s k \<longrightarrow> n = [k]) \<and>
    (\<forall>a\<in>set n. \<forall>b\<in>set n. \<not> isConflicting s a b)"
  proof (cases ?find)
    case (Some l)
    then have "n = [ol_kind l]" unfolding n_def normalizeActive_def R Let_def by simp
    with find_Some_in[OF Some] show ?thesis by auto
  next
    case None
    let ?next = "filter (\<lambda>k. k \<in> ?R) (map ol_kind (ov_layers s))"
    have "distinct (map ol_kind (ov_layers s))" using ok by (simp add: overlay_ok_def)
    then have n: "n = fold (resolve_conflicts s) (ov_layers s) ?next" and d: "distinct ?next"
      using None fold_add_requested[of "ov_layers s" "[]" ?R]
      unfolding n_def normalizeActive_def R Let_def by auto
    have f: "set n \<subseteq> set ?next" "distinct n"
      "\<forall>a\<in>ol_kind ` set (ov_layers s). \<forall>b\<in>set n. a \<in> set n \<longrightarrow> \<not> isConflicting s a b"
      using fold_resolve[of s "ov_layers s" ?next] d unfolding n[symmetric] by blast+
    have "\<not> isExclusive s k" if k: "k \<in> set ?next" for k
    proof -
      obtain l where "l \<in> set (ov_layers s)" "ol_kind l = k" "k \<in> ?R" using k by auto
      then show ?thesis using None overlay_ok_exclusive[OF ok] by (auto simp: find_None_iff_all)
    qed
    with f show ?thesis by auto
  qed
  then show "distinct n" "set n \<subseteq> ?R" "\<forall>k\<in>set n. isExclusive s k \<longrightarrow> n = [k]"
    "\<forall>a\<in>set n. \<forall>b\<in>set n. \<not> isConflicting s a b" by blast+
qed

text \<open>A set that already satisfies the invariant survives normalisation.\<close>

lemma normalizeActive_id:
  assumes ok: "overlay_ok s" and eq: "set active = set (ov_activeSet s)"
  shows "set (normalizeActive s active) = set (ov_activeSet s)"
proof -
  have sub: "set active \<subseteq> ol_kind ` set (ov_layers s)" using ok eq by (simp add: overlay_ok_def)
  then have R: "set (set_from (filter (\<lambda>kind. map_has (ov_layerByKind s) kind) active)) = set active"
    using overlay_ok_kinds[OF ok] by auto
  show ?thesis
  proof (cases "List.find (\<lambda>layer. ol_mutuallyExclusive layer \<and> ol_kind layer \<in> set active) (ov_layers s)")
    case (Some l)
    then have "isExclusive s (ol_kind l)" "ol_kind l \<in> set (ov_activeSet s)"
      using find_Some_in[OF Some] overlay_ok_exclusive[OF ok] eq by auto
    then have "ov_activeSet s = [ol_kind l]" using ok unfolding overlay_ok_def by blast
    with Some show ?thesis unfolding normalizeActive_def R Let_def by simp
  next
    case None
    let ?next = "filter (\<lambda>k. k \<in> set active) (map ol_kind (ov_layers s))"
    have "distinct (map ol_kind (ov_layers s))" using ok by (simp add: overlay_ok_def)
    then have "normalizeActive s active = fold (resolve_conflicts s) (ov_layers s) ?next"
      using None fold_add_requested[of "ov_layers s" "[]" "set active"]
      unfolding normalizeActive_def R Let_def by simp
    moreover have "set ?next = set active" using sub by auto
    moreover from this have "fold (resolve_conflicts s) (ov_layers s) ?next = ?next"
      using ok eq by (intro fold_resolve_id) (simp add: overlay_ok_def)
    ultimately show ?thesis using eq by simp
  qed
qed

text \<open>What a toggle does to the active set, and that it keeps the invariant.\<close>

lemma set_toggle_next:
  assumes ok: "overlay_ok s"
  shows "set (toggle_next s kind) =
     (if kind \<in> set (ov_activeSet s) then set (ov_activeSet s) - {kind}
      else if isExclusive s kind then {kind}
      else insert kind {a \<in> set (ov_activeSet s). \<not> isExclusive s a \<and> \<not> isConflicting s kind a})"
proof (cases "hasExclusiveActive s")
  case None
  then have "\<forall>a\<in>set (ov_activeSet s). \<not> isExclusive s a"
    by (simp add: hasExclusiveActive_def find_None_iff_all)
  with None show ?thesis by (auto simp: toggle_next_def Let_def dropConflicts_eq)
next
  case (Some e)
  then have "e \<in> set (ov_activeSet s)" "isExclusive s e"
    unfolding hasExclusiveActive_def by (blast dest: find_Some_in)+
  moreover from this have "ov_activeSet s = [e]" using ok unfolding overlay_ok_def by blast
  ultimately show ?thesis using Some by (auto simp: toggle_next_def Let_def dropConflicts_eq)
qed

lemma isConflicting_cong [simp]:
  "isConflicting (s\<lparr>ov_activeSet := x\<rparr>) = isConflicting s" "isExclusive (s\<lparr>ov_activeSet := x\<rparr>) = isExclusive s"
  "isConflicting (s\<lparr>ov_listeners := y\<rparr>) = isConflicting s" "isExclusive (s\<lparr>ov_listeners := y\<rparr>) = isExclusive s"
  by (simp_all add: fun_eq_iff isConflicting_def declares_def isExclusive_def)

lemma overlay_ok_update:
  "overlay_ok s \<Longrightarrow> distinct a \<Longrightarrow> set a \<subseteq> ol_kind ` set (ov_layers s) \<Longrightarrow>
   \<forall>k\<in>set a. isExclusive s k \<longrightarrow> a = [k] \<Longrightarrow> \<forall>x\<in>set a. \<forall>y\<in>set a. \<not> isConflicting s x y \<Longrightarrow>
   overlay_ok (s\<lparr>ov_activeSet := a\<rparr>)"
  by (simp add: overlay_ok_def)

lemma overlay_ok_listeners [simp]: "overlay_ok (s\<lparr>ov_listeners := y\<rparr>) = overlay_ok s"
  by (simp add: overlay_ok_def)

lemma overlay_ok_toggle:
  assumes ok: "overlay_ok s"
  shows "overlay_ok (fst (overlay_toggle kind s))"
proof (cases "map_has (ov_layerByKind s) kind")
  case True
  let ?n = "toggle_next s kind"
  have "overlay_ok (s\<lparr>ov_activeSet := ?n\<rparr>)"
  proof (rule overlay_ok_update[OF ok])
    show "distinct ?n" using ok
      by (auto simp: toggle_next_def Let_def dropConflicts_eq overlay_ok_def distinct_removeAll split: option.split)
    show "set ?n \<subseteq> ol_kind ` set (ov_layers s)"
      using ok True overlay_ok_kinds[OF ok, of kind] by (auto simp: set_toggle_next[OF ok] overlay_ok_def)
    show "\<forall>k\<in>set ?n. isExclusive s k \<longrightarrow> ?n = [k]"
    proof (intro ballI impI)
      fix k assume k: "k \<in> set ?n" "isExclusive s k"
      show "?n = [k]"
      proof (cases "kind \<in> set (ov_activeSet s)")
        case True
        with k have "k \<in> set (ov_activeSet s)" "k \<noteq> kind" by (simp_all add: set_toggle_next[OF ok])
        with k(2) ok have "ov_activeSet s = [k]" unfolding overlay_ok_def by blast
        with True \<open>k \<noteq> kind\<close> show ?thesis by simp
      next
        case False
        with k have "isExclusive s kind" "k = kind" by (auto simp: set_toggle_next[OF ok] split: if_splits)
        with False show ?thesis by (simp add: toggle_next_def)
      qed
    qed
    show "\<forall>x\<in>set ?n. \<forall>y\<in>set ?n. \<not> isConflicting s x y"
      using ok isConflicting_sym[of s] by (auto simp: set_toggle_next[OF ok] overlay_ok_def)
  qed
  with True show ?thesis by (simp add: overlay_toggle_def Let_def)
qed (use ok in \<open>simp add: overlay_toggle_def\<close>)

lemma overlay_step_ok: "overlay_ok s \<Longrightarrow> overlay_ok (fst (overlay_step x s))"
proof (cases x)
  case (Overlay_setActive a)
  moreover assume "overlay_ok s"
  ultimately show ?thesis
    using normalizeActive_spec[of s a] overlay_ok_update[of s "normalizeActive s a"]
    by (auto simp: overlay_setActive_def Let_def)
qed (auto simp: overlay_ok_toggle overlay_clear_def Let_def intro: overlay_ok_update)

lemma overlay_step_tracked:
  "\<forall>l. x \<noteq> Overlay_subscribe l \<Longrightarrow> \<forall>l. x \<noteq> Overlay_unsubscribe l \<Longrightarrow>
   tracked ov_listeners ov_activeSet s (overlay_step x s)"
  by (cases x) (auto simp: overlay_toggle_def overlay_setActive_def overlay_clear_def Let_def overlay_emit_def
      intro: tracked_emit0I)

interpretation overlay_component: component overlay_step overlay_ok "\<lambda>x. True"
  by unfold_locales (simp add: overlay_step_ok)

interpretation overlay_observable: observable overlay_step overlay_ok "\<lambda>x. True" ov_listeners ov_activeSet
  "\<lambda>l x. x = Overlay_unsubscribe l"
proof unfold_locales
  fix l x and s :: overlay
  assume l: "l \<in> set (ov_listeners s)" "\<not> x = Overlay_unsubscribe l"
  show "l \<in> set (ov_listeners (fst (overlay_step x s)))"
    using l by (cases x) (auto simp: overlay_toggle_def overlay_setActive_def overlay_clear_def Let_def)
next
  fix x l and s :: overlay
  assume a: "l \<in> set (ov_listeners s)" "\<not> x = Overlay_unsubscribe l"
  show "mirror l (ov_activeSet s) (sent (snd (overlay_step x s))) = ov_activeSet (fst (overlay_step x s))"
    using overlay_step_tracked[of x s] a by (cases x) (auto simp: tracked_def)
qed

text \<open>The constructor answers exactly when the kinds are distinct.\<close>

lemma register_layers_spec:
  "register_layers ls m = Inr m' \<Longrightarrow> distinct (map ol_kind ls) \<and>
   (\<forall>k\<in>ol_kind ` set ls. k \<notin> set (map_keys m)) \<and> m' = m @ map (\<lambda>l. (ol_kind l, l)) ls"
proof (induction ls arbitrary: m)
  case (Cons l ls)
  then have new: "ol_kind l \<notin> set (map_keys m)" by (auto simp: map_has_iff split: if_splits)
  with Cons.prems have "register_layers ls (m @ [(ol_kind l, l)]) = Inr m'"
    by (simp add: map_has_iff update_append)
  from Cons.IH[OF this] new show ?case by auto
qed simp

lemma register_layers_throws:
  "register_layers ls [] = Inl msg \<Longrightarrow> \<not> distinct (map ol_kind ls)"
proof -
  have "distinct (map_keys m @ map ol_kind ls) \<Longrightarrow> \<exists>m'. register_layers ls m = Inr m'" for m
    by (induction ls arbitrary: m) (auto simp: map_has_iff update_append)
  from this[of "[]"] show "register_layers ls [] = Inl msg \<Longrightarrow> ?thesis" by auto
qed

lemma overlay_ok_create:
  assumes "createLayeredOverlay layers = Inr s"
  shows "overlay_ok s" and "ov_layers s = layers"
proof -
  have e: "register_layers layers [] = Inr (ov_layerByKind s)" and l: "ov_layers s = layers" "ov_activeSet s = []"
    using assms by (auto simp: createLayeredOverlay_def split: sum.splits)
  then show "overlay_ok s"
    using register_layers_spec[OF e] by (simp add: overlay_ok_def)
  show "ov_layers s = layers" by (fact l(1))
qed

section \<open>Properties\<close>

lemma overlay_reach:
  assumes "createLayeredOverlay layers = Inr s0"
  shows "overlay_ok (fst (run overlay_step xs s0)) \<and> ov_layers (fst (run overlay_step xs s0)) = layers"
proof -
  have "ov_layers (fst (overlay_step x s)) = ov_layers s" for x s
    by (cases x) (auto simp: overlay_toggle_def overlay_setActive_def overlay_clear_def Let_def)
  then have "ov_layers (fst (run overlay_step xs s)) = ov_layers s" for s
    by (induction xs arbitrary: s) (simp_all add: run_Cons del: run.simps(2))
  then show ?thesis
    using overlay_ok_create[OF assms] overlay_component.run_inv[of s0 xs] by simp
qed

text \<open>C4: The active set is always consistent. Whatever toggles and bulk updates are made on a
  controller, with registered kinds or others, the active kinds are registered layers, none twice; of any two different layers
  that are active neither is exclusive, so an exclusive layer is active only alone, and neither declares a conflict
  with the other.
\<close>

theorem overlay_always_consistent:
  fixes xs :: "overlay_op list"
  assumes "createLayeredOverlay layers = Inr s0"
  defines "s \<equiv> fst (run overlay_step xs s0)"
  shows "set (ov_activeSet s) \<subseteq> ol_kind ` set layers \<and> distinct (ov_activeSet s) \<and>
    {(a, b). a \<in> set layers \<and> b \<in> set layers \<and> ol_kind a \<noteq> ol_kind b \<and>
       overlay_isActive (ol_kind a) s \<and> overlay_isActive (ol_kind b) s} \<subseteq>
    {(a, b). \<not> ol_mutuallyExclusive a \<and> \<not> ol_mutuallyExclusive b \<and>
       ol_kind b \<notin> set (ol_conflictsWith a) \<and> ol_kind a \<notin> set (ol_conflictsWith b)}"
proof -
  have ok: "overlay_ok s" and L: "ov_layers s = layers" using overlay_reach[OF assms(1)] by (simp_all add: s_def)
  have get: "map_get (ov_layerByKind s) (ol_kind l) = Some l" if "l \<in> set layers" for l
    using ok L that by (simp add: overlay_ok_def map_of_key_values)
  have "\<not> ol_mutuallyExclusive a \<and> \<not> ol_mutuallyExclusive b \<and>
         ol_kind b \<notin> set (ol_conflictsWith a) \<and> ol_kind a \<notin> set (ol_conflictsWith b)"
    if h: "a \<in> set layers" "b \<in> set layers" "ol_kind a \<noteq> ol_kind b" "overlay_isActive (ol_kind a) s" "overlay_isActive (ol_kind b) s" for a b
  proof -
    have "\<not> isConflicting s (ol_kind a) (ol_kind b)" "\<not> isExclusive s (ol_kind a)" "\<not> isExclusive s (ol_kind b)"
      using ok h(3-5) unfolding overlay_ok_def overlay_isActive_def by auto
    with h(3) show ?thesis
      by (auto simp: isConflicting_def declares_def isExclusive_def get[OF h(1)] get[OF h(2)] split: if_splits)
  qed
  moreover have "set (ov_activeSet s) \<subseteq> ol_kind ` set layers" "distinct (ov_activeSet s)"
    using ok L by (simp_all add: overlay_ok_def)
  ultimately show ?thesis by blast
qed

definition demo_layers :: "overlay_layer list" where
  "demo_layers =
     [\<lparr>ol_kind = ''time'', ol_label = ''T'', ol_description = [], ol_mutuallyExclusive = False, ol_conflictsWith = [''heat'']\<rparr>,
      \<lparr>ol_kind = ''heat'', ol_label = ''H'', ol_description = [], ol_mutuallyExclusive = False, ol_conflictsWith = []\<rparr>,
      \<lparr>ol_kind = ''who'', ol_label = ''W'', ol_description = [], ol_mutuallyExclusive = False, ol_conflictsWith = []\<rparr>,
      \<lparr>ol_kind = ''explode'', ol_label = ''E'', ol_description = [], ol_mutuallyExclusive = True, ol_conflictsWith = []\<rparr>]"

definition demo_overlay :: overlay where
  "demo_overlay = (case createLayeredOverlay demo_layers of Inr s \<Rightarrow> s
     | Inl _ \<Rightarrow> \<lparr>ov_layers = [], ov_layerByKind = [], ov_activeSet = [], ov_listeners = []\<rparr>)"

lemma demo_overlay_created: "createLayeredOverlay demo_layers = Inr demo_overlay"
  by code_simp

theorem overlay_always_consistent_witness:
  "ov_activeSet (fst (run overlay_step
      [Overlay_toggle ''time'', Overlay_toggle ''none'', Overlay_toggle ''who'', Overlay_toggle ''heat''] demo_overlay)) = [''who'', ''heat''] \<and>
   {''who'', ''heat''} \<subseteq> ol_kind ` set demo_layers"
proof -
  let ?xs = "[Overlay_toggle ''time'', Overlay_toggle ''none'', Overlay_toggle ''who'', Overlay_toggle ''heat'']"
  have "ov_activeSet (fst (run overlay_step ?xs demo_overlay)) = [''who'', ''heat'']" by code_simp
  then show ?thesis using overlay_always_consistent[OF demo_overlay_created, of ?xs] by simp
qed

text \<open>The effect of a toggle, in every reachable state. An active layer is switched off and the
  others stay; an exclusive layer replaces everything; another layer is added, and exactly the
  exclusive layers and the layers in conflict with it are dropped.
\<close>

theorem overlay_toggle_effect:
  fixes xs :: "overlay_op list"
  assumes "createLayeredOverlay layers = Inr s0" and "k \<in> ol_kind ` set layers"
  defines "s \<equiv> fst (run overlay_step xs s0)"
  shows "set (ov_activeSet (fst (overlay_toggle k s))) =
     (if overlay_isActive k s then set (ov_activeSet s) - {k}
      else if isExclusive s k then {k}
      else insert k {a \<in> set (ov_activeSet s). \<not> isExclusive s a \<and> \<not> isConflicting s k a})"
proof -
  have ok: "overlay_ok s" "ov_layers s = layers" using overlay_reach[OF assms(1)] by (simp_all add: s_def)
  then have "map_has (ov_layerByKind s) k" using assms(2) by (simp add: overlay_ok_kinds)
  then show ?thesis by (simp add: overlay_toggle_def Let_def set_toggle_next[OF ok(1)] overlay_isActive_def)
qed

theorem overlay_toggle_effect_witness:
  "set (ov_activeSet (fst (overlay_toggle ''heat'' (fst (run overlay_step
      [Overlay_toggle ''time'', Overlay_toggle ''who''] demo_overlay))))) = {''heat'', ''who''}"
proof -
  let ?s = "fst (run overlay_step [Overlay_toggle ''time'', Overlay_toggle ''who''] demo_overlay)"
  have "''heat'' \<in> ol_kind ` set demo_layers" by code_simp
  moreover have "\<not> overlay_isActive ''heat'' ?s" "\<not> isExclusive ?s ''heat''"
    "ov_activeSet ?s = [''time'', ''who'']" "isConflicting ?s ''heat'' ''time''"
    "\<not> isExclusive ?s ''who''" "\<not> isConflicting ?s ''heat'' ''who''"
    by code_simp+
  ultimately show ?thesis
    using overlay_toggle_effect[OF demo_overlay_created, of "''heat''" "[Overlay_toggle ''time'', Overlay_toggle ''who'']"]
    by auto
qed

text \<open>A kind that survives a query string: not empty, no comma, no white space at its ends.\<close>

definition url_safe :: "string \<Rightarrow> bool" where
  "url_safe k \<longleftrightarrow> k \<noteq> [] \<and> CHR '','' \<notin> set k \<and> trim k = k"

lemma trim_id: "k \<noteq> [] \<Longrightarrow> trim k = k \<longleftrightarrow> \<not> is_space (hd k) \<and> \<not> is_space (last k)"
proof -
  assume k: "k \<noteq> []"
  have len: "length (dropWhile is_space s) = length s \<longleftrightarrow> s = [] \<or> \<not> is_space (hd s)" for s
    using length_dropWhile_le[of is_space "tl s"] by (cases s) auto
  show ?thesis
  proof
    assume t: "trim k = k"
    have "length (dropWhile is_space (rev (dropWhile is_space k))) = length k" using t by (metis length_rev trim_def)
    moreover have "length (dropWhile is_space (rev (dropWhile is_space k))) \<le> length (dropWhile is_space k)"
      by (metis length_dropWhile_le length_rev)
    ultimately have e: "length (dropWhile is_space k) = length k" using length_dropWhile_le[of is_space k] by linarith
    then have h: "\<not> is_space (hd k)" using len k by blast
    then have "dropWhile is_space k = k" using k by (cases k) simp_all
    then have "length (dropWhile is_space (rev k)) = length (rev k)"
      using t by (metis length_rev trim_def)
    then have "\<not> is_space (hd (rev k))" using len k by blast
    with h show "\<not> is_space (hd k) \<and> \<not> is_space (last k)" using k by (simp add: hd_rev)
  next
    assume "\<not> is_space (hd k) \<and> \<not> is_space (last k)"
    moreover have "dropWhile is_space s = s" if "s \<noteq> []" "\<not> is_space (hd s)" for s using that by (cases s) simp_all
    ultimately show "trim k = k" using k by (simp add: trim_def hd_rev)
  qed
qed

lemma hd_join: "xs \<noteq> [] \<Longrightarrow> hd xs \<noteq> [] \<Longrightarrow> hd (join sep xs) = hd (hd xs) \<and> join sep xs \<noteq> []"
  by (induction sep xs rule: join.induct) auto

lemma last_join: "xs \<noteq> [] \<Longrightarrow> \<forall>x\<in>set xs. x \<noteq> [] \<Longrightarrow> last (join sep xs) = last (last xs) \<and> join sep xs \<noteq> []"
  by (induction sep xs rule: join.induct) auto

lemma join_eq_Nil: "\<forall>x\<in>set xs. x \<noteq> [] \<Longrightarrow> join sep xs = [] \<longleftrightarrow> xs = []"
  by (induction sep xs rule: join.induct) auto

lemma parse_serialize:
  assumes "list_all url_safe active" and "distinct active" and "set active \<subseteq> set known"
  shows "parseActive (serializeActive active) known = js_sort str_cmp active"
proof (cases "active = []")
  case True
  then show ?thesis by (simp add: parseActive_def serializeActive_def trim_def Let_def)
next
  case False
  let ?xs = "js_sort str_cmp active"
  let ?txt = "join '','' ?xs"
  have xs: "?xs \<noteq> []" "distinct ?xs" "set ?xs \<subseteq> set known" and safe: "\<forall>x\<in>set ?xs. url_safe x"
    using assms False by (simp_all add: list_all_iff)
  have ends: "hd ?xs \<in> set ?xs" "last ?xs \<in> set ?xs" by (rule hd_in_set[OF xs(1)], rule last_in_set[OF xs(1)])
  have ne: "?txt \<noteq> []" using xs(1) safe by (subst join_eq_Nil) (auto simp: url_safe_def)
  have "\<not> is_space (hd ?txt) \<and> \<not> is_space (last ?txt)"
    using hd_join[OF xs(1), of "'',''"] last_join[OF xs(1), of "'',''"] ends safe trim_id by (metis url_safe_def)
  then have t: "trim ?txt = ?txt" using ne by (simp add: trim_id)
  have sp: "split_on CHR '','' ?txt = ?xs"
    using xs(1) safe by (intro split_on_join) (auto simp: url_safe_def)
  have tr: "map trim ?xs = ?xs"
    using safe by (intro map_idI) (simp add: url_safe_def)
  have fi: "filter (\<lambda>p. p \<noteq> []) ?xs = ?xs"
    using safe by (intro filter_True) (auto simp: url_safe_def)
  have "fold (\<lambda>kind filtered. if kind \<in> set known then set_add kind filtered else filtered) ys acc = fold set_add ys acc"
    if "set ys \<subseteq> set known" for ys acc
    using that by (induction ys arbitrary: acc) auto
  with xs fold_set_add_append[of "[]" ?xs]
  have fo: "fold (\<lambda>kind filtered. if kind \<in> set known then set_add kind filtered else filtered) ?xs [] = ?xs"
    by simp
  show ?thesis
    unfolding parseActive_def serializeActive_def Let_def t sp tr fi fo using ne by simp
qed

lemma sameActive_iff: "distinct a \<Longrightarrow> distinct b \<Longrightarrow> sameActive a b \<longleftrightarrow> set a = set b"
proof -
  assume d: "distinct a" "distinct b"
  show ?thesis
  proof
    assume "sameActive a b"
    then have "length a = length b" "set a \<subseteq> set b" by (auto simp: sameActive_def list_all_iff split: if_splits)
    with d show "set a = set b" by (metis List.finite_set card_subset_eq distinct_card)
  next
    assume "set a = set b"
    with d show "sameActive a b" by (auto simp: sameActive_def list_all_iff) (metis distinct_card)
  qed
qed

text \<open>C39: Deep links. For layers whose kinds are not empty, contain no comma and neither begin nor end with white space:
  writing the active set of any reachable controller into the query string, parsing it back against the registered kinds
  and setting it restores exactly that set on a new controller with the same layers, and is a silent no-op on the
  controller it came from. (Other kinds are lost, see \<open>overlay_comma_lost\<close>.)
\<close>

theorem overlay_url_roundtrip:
  fixes xs :: "overlay_op list"
  assumes "createLayeredOverlay layers = Inr s0" and "list_all url_safe (map ol_kind layers)"
  defines "s \<equiv> fst (run overlay_step xs s0)"
  shows "set (ov_activeSet (fst (overlay_setActive
           (parseActive (serializeActive (ov_activeSet s)) (map ol_kind layers)) s0))) = set (ov_activeSet s) \<and>
         overlay_setActive (parseActive (serializeActive (ov_activeSet s)) (map ol_kind layers)) s = (s, [])"
proof -
  let ?a = "parseActive (serializeActive (ov_activeSet s)) (map ol_kind layers)"
  have ok: "overlay_ok s" "ov_layers s = layers" using overlay_reach[OF assms(1)] by (simp_all add: s_def)
  have ok0: "overlay_ok s0" "ov_layers s0 = layers" using overlay_ok_create[OF assms(1)] by simp_all
  have "list_all url_safe (ov_activeSet s)" "set (ov_activeSet s) \<subseteq> set (map ol_kind layers)" "distinct (ov_activeSet s)"
    using ok assms(2) by (auto simp: overlay_ok_def list_all_iff)
  then have a: "set ?a = set (ov_activeSet s)" by (simp add: parse_serialize)
  have n: "set (normalizeActive s ?a) = set (ov_activeSet s)" by (rule normalizeActive_id[OF ok(1) a])
  have same: "ov_layerByKind s0 = ov_layerByKind s" using ok ok0 by (simp add: overlay_ok_def)
  have "isConflicting s0 = isConflicting s"
    by (simp add: fun_eq_iff isConflicting_def declares_def same)
  then have r: "resolve_conflicts s0 = resolve_conflicts s" by (simp add: fun_eq_iff resolve_conflicts_def)
  have n0: "normalizeActive s0 ?a = normalizeActive s ?a"
    unfolding normalizeActive_def same r ok(2) ok0(2) by (rule refl)
  have "sameActive (ov_activeSet s) (normalizeActive s ?a)"
    using n normalizeActive_spec(1)[OF ok(1)] ok by (simp add: sameActive_iff overlay_ok_def)
  moreover have "sameActive (ov_activeSet s0) (normalizeActive s0 ?a) \<Longrightarrow> set (ov_activeSet s0) = set (ov_activeSet s)"
    using n n0 normalizeActive_spec(1)[OF ok(1), of ?a] ok0 by (simp add: sameActive_iff overlay_ok_def)
  ultimately show ?thesis using n n0 by (simp add: overlay_setActive_def Let_def)
qed

theorem overlay_url_roundtrip_witness:
  "let s = fst (run overlay_step [Overlay_toggle ''who'', Overlay_toggle ''time''] demo_overlay)
   in serializeActive (ov_activeSet s) = ''time,who'' \<and>
      set (ov_activeSet (fst (overlay_setActive (parseActive ''time,who'' (map ol_kind demo_layers)) demo_overlay)))
        = {''time'', ''who''}"
proof -
  let ?s = "fst (run overlay_step [Overlay_toggle ''who'', Overlay_toggle ''time''] demo_overlay)"
  have e: "serializeActive (ov_activeSet ?s) = ''time,who''" "ov_activeSet ?s = [''who'', ''time'']"
    "list_all url_safe (map ol_kind demo_layers)" by code_simp+
  have r: "set (ov_activeSet (fst (overlay_setActive (parseActive ''time,who'' (map ol_kind demo_layers)) demo_overlay)))
      = set (ov_activeSet ?s)"
    using conjunct1[OF overlay_url_roundtrip[OF demo_overlay_created e(3),
          of "[Overlay_toggle ''who'', Overlay_toggle ''time'']"]]
    unfolding e(1) .
  show ?thesis
    unfolding Let_def
  proof (rule conjI)
    show "serializeActive (ov_activeSet ?s) = ''time,who''" by (rule e(1))
    show "set (ov_activeSet (fst (overlay_setActive (parseActive ''time,who'' (map ol_kind demo_layers)) demo_overlay)))
        = {''time'', ''who''}"
      unfolding r e(2) by auto
  qed
qed

text \<open>Nothing escapes a comma: an active layer with one in its kind does not come back from the query string.\<close>

lemma overlay_comma_lost: "parseActive (serializeActive [''a,b'']) [''a,b'', ''c''] = []"
  by code_simp

end
