(* ===== verification/Toast_Manager.thy ===== *)
theory Toast_Manager
  imports Js_Text Contracts
begin

text \<open>
  \<open>headless-core/toast-manager.ts\<close>: the notification queue. Toasts are mutable objects that a
  timer callback may still hold after the \<open>Map\<close> points elsewhere, so they live in a heap
  addressed by creation order; \<open>setTimeout\<close> handles are numbers, and the pending timers are
  part of the state, with the object each one will dismiss and the time it is due.
\<close>

section \<open>Data\<close>

datatype toast_severity = Sev_info | Sev_success | Sev_warning | Sev_error

datatype toast_state = Toast_queued | Toast_visible | Toast_dismissed

record toast_descriptor =
  dd_id :: "string option"
  dd_severity :: toast_severity
  dd_message :: string
  dd_description :: "string option"
  dd_action :: "string option"
  dd_duration :: "int option"
  dd_dedupKey :: "string option"

record toast =
  tt_id :: string
  tt_severity :: toast_severity
  tt_message :: string
  tt_description :: "string option"
  tt_action :: "string option"
  tt_duration :: int
  tt_dedupKey :: "string option"
  tt_priority :: int
  tt_createdAt :: int
  tt_state :: toast_state

record internal_toast = toast +
  it_pausedRemaining :: "int option"
  it_runStartedAt :: int
  it_timer :: "nat option"

text \<open>\<open>to_generateId n\<close> is the answer of the n-th call of \<open>generateId\<close>.\<close>

record toast_options =
  to_maxVisible :: int
  to_generateId :: "nat \<Rightarrow> string"

record toasts =
  tm_heap :: "internal_toast list"
  tm_toasts :: "(string, nat) jsmap"
  tm_idCounter :: nat
  tm_listeners :: "listener jsset"
  tm_pending :: "(nat, nat \<times> int) jsmap"
  tm_handles :: nat

type_synonym toast_event = "(toast list, string) event"

definition DEFAULT_MAX_VISIBLE :: int where
  "DEFAULT_MAX_VISIBLE = 5"

fun SEVERITY_PRIORITY :: "toast_severity \<Rightarrow> int" where
  "SEVERITY_PRIORITY Sev_error = 4"
| "SEVERITY_PRIORITY Sev_warning = 3"
| "SEVERITY_PRIORITY Sev_success = 2"
| "SEVERITY_PRIORITY Sev_info = 1"

fun SEVERITY_DEFAULT_DURATION_MS :: "toast_severity \<Rightarrow> int" where
  "SEVERITY_DEFAULT_DURATION_MS Sev_error = 0"
| "SEVERITY_DEFAULT_DURATION_MS Sev_warning = 8000"
| "SEVERITY_DEFAULT_DURATION_MS Sev_success = 5000"
| "SEVERITY_DEFAULT_DURATION_MS Sev_info = 5000"

fun SEVERITY_TO_ROLE :: "toast_severity \<Rightarrow> string" where
  "SEVERITY_TO_ROLE Sev_error = ''alert''"
| "SEVERITY_TO_ROLE _ = ''status''"

fun SEVERITY_TO_ARIA_LIVE :: "toast_severity \<Rightarrow> string" where
  "SEVERITY_TO_ARIA_LIVE Sev_error = ''assertive''"
| "SEVERITY_TO_ARIA_LIVE _ = ''polite''"

definition nextDefaultId :: "nat \<Rightarrow> string" where
  "nextDefaultId n = ''toast-'' @ show_nat n"

text \<open>Sort order of the snapshot: priority falling, then creation time.\<close>

definition sortToasts :: "('a toast_scheme) \<Rightarrow> ('a toast_scheme) \<Rightarrow> int" where
  "sortToasts a b =
     (if tt_priority a \<noteq> tt_priority b then tt_priority b - tt_priority a
      else tt_createdAt a - tt_createdAt b)"

definition moreDismissable :: "internal_toast \<Rightarrow> internal_toast \<Rightarrow> int" where
  "moreDismissable a b =
     (if tt_priority a \<noteq> tt_priority b then tt_priority a - tt_priority b
      else tt_createdAt a - tt_createdAt b)"

section \<open>Internals\<close>

abbreviation obj :: "toasts \<Rightarrow> nat \<Rightarrow> internal_toast" where
  "obj s r \<equiv> tm_heap s ! r"

definition put :: "nat \<Rightarrow> internal_toast \<Rightarrow> toasts \<Rightarrow> toasts" where
  "put r t s = s\<lparr>tm_heap := (tm_heap s)[r := t]\<rparr>"

definition refs :: "toasts \<Rightarrow> nat list" where
  "refs s = map_values (tm_toasts s)"

definition toast_snapshot :: "toasts \<Rightarrow> toast list" where
  "toast_snapshot s = js_sort sortToasts (map (\<lambda>r. toast.truncate (obj s r)) (refs s))"

definition toast_emit :: "toasts \<Rightarrow> toast_event list" where
  "toast_emit s = emit_to (tm_listeners s) (toast_snapshot s)"

definition clearTimer :: "nat \<Rightarrow> toasts \<Rightarrow> toasts" where
  "clearTimer r s =
     (case it_timer (obj s r) of
        None \<Rightarrow> s
      | Some h \<Rightarrow> put r ((obj s r)\<lparr>it_timer := None\<rparr>) (s\<lparr>tm_pending := map_del h (tm_pending s)\<rparr>))"

definition startTimer :: "int \<Rightarrow> nat \<Rightarrow> int \<Rightarrow> toasts \<Rightarrow> toasts" where
  "startTimer now r ms s =
     (if ms \<le> 0 then s
      else put r ((obj s r)\<lparr>it_runStartedAt := now, it_timer := Some (tm_handles s)\<rparr>)
             (s\<lparr>tm_pending := tm_pending s @ [(tm_handles s, (r, now + ms))],
                tm_handles := Suc (tm_handles s)\<rparr>))"

definition transitionToVisible :: "int \<Rightarrow> nat \<Rightarrow> toasts \<Rightarrow> toasts" where
  "transitionToVisible now r s =
     (if tt_state (obj s r) = Toast_visible then s
      else
        (let s' = put r ((obj s r)\<lparr>tt_state := Toast_visible\<rparr>) s in
         if tt_duration (obj s r) > 0 then startTimer now r (tt_duration (obj s r)) s' else s'))"

definition visibleCount :: "toasts \<Rightarrow> nat" where
  "visibleCount s = length (filter (\<lambda>r. tt_state (obj s r) = Toast_visible) (refs s))"

text \<open>The promotion loop takes the queued toasts in render order while there is room.\<close>

fun promote_loop :: "int \<Rightarrow> int \<Rightarrow> nat list \<Rightarrow> toasts \<Rightarrow> toasts \<times> toast_event list" where
  "promote_loop maxVisible now [] s = (s, [])"
| "promote_loop maxVisible now (r # rs) s =
     (if int (visibleCount s) < maxVisible
      then (let s1 = transitionToVisible now r s
            in after (toast_emit s1) (promote_loop maxVisible now rs s1))
      else (s, []))"

definition queued_refs :: "toasts \<Rightarrow> nat list" where
  "queued_refs s = filter (\<lambda>r. tt_state (obj s r) = Toast_queued) (refs s)"

definition promoteFromQueue :: "int \<Rightarrow> int \<Rightarrow> toasts \<Rightarrow> toasts \<times> toast_event list" where
  "promoteFromQueue maxVisible now s =
     (if int (visibleCount s) \<ge> maxVisible then (s, [])
      else promote_loop maxVisible now
             (js_sort (\<lambda>a b. sortToasts (obj s a) (obj s b)) (queued_refs s)) s)"

definition mark_dismissed :: "nat \<Rightarrow> toasts \<Rightarrow> toasts" where
  "mark_dismissed r s =
     (let s1 = clearTimer r s in put r ((obj s1 r)\<lparr>tt_state := Toast_dismissed\<rparr>) s1)"

definition transitionToDismissed :: "int \<Rightarrow> int \<Rightarrow> nat \<Rightarrow> toasts \<Rightarrow> toasts \<times> toast_event list" where
  "transitionToDismissed maxVisible now r s =
     (if tt_state (obj s r) = Toast_dismissed then (s, [])
      else
        (let s1 = mark_dismissed r s
         in after (toast_emit s1) (promoteFromQueue maxVisible now s1)))"

text \<open>The loop of \<open>preemptForError\<close>: the best victim so far, over the toasts in \<open>Map\<close> order.\<close>

fun pick_victim :: "toasts \<Rightarrow> int \<Rightarrow> nat list \<Rightarrow> nat option \<Rightarrow> nat option" where
  "pick_victim s p [] victim = victim"
| "pick_victim s p (r # rs) victim =
     pick_victim s p rs
       (if tt_state (obj s r) \<noteq> Toast_visible then victim
        else if tt_priority (obj s r) \<ge> p then victim
        else case victim of
            None \<Rightarrow> Some r
          | Some v \<Rightarrow> if moreDismissable (obj s r) (obj s v) < 0 then Some r else victim)"

definition preemptForError :: "int \<Rightarrow> int \<Rightarrow> int \<Rightarrow> toasts \<Rightarrow> toasts \<times> toast_event list" where
  "preemptForError maxVisible now incomingPriority s =
     (if int (visibleCount s) < maxVisible then (s, [])
      else if incomingPriority < SEVERITY_PRIORITY Sev_error then (s, [])
      else case pick_victim s incomingPriority (refs s) None of
          None \<Rightarrow> (s, [])
        | Some v \<Rightarrow> transitionToDismissed maxVisible now v s)"

definition findByDedupKey :: "string \<Rightarrow> toasts \<Rightarrow> nat option" where
  "findByDedupKey key s =
     List.find (\<lambda>r. tt_dedupKey (obj s r) = Some key \<and> tt_state (obj s r) \<noteq> Toast_dismissed) (refs s)"

definition duration_of :: "toast_descriptor \<Rightarrow> int" where
  "duration_of d = (case dd_duration d of None \<Rightarrow> SEVERITY_DEFAULT_DURATION_MS (dd_severity d) | Some n \<Rightarrow> n)"

text \<open>
  \<open>{...existing, ...}\<close>: a new object that copies the fields of the old one, its timer handle
  included, under the new descriptor's content.
\<close>

definition replacement_for :: "internal_toast \<Rightarrow> toast_descriptor \<Rightarrow> internal_toast" where
  "replacement_for existing d = existing\<lparr>
     tt_severity := dd_severity d, tt_message := dd_message d, tt_description := dd_description d,
     tt_action := dd_action d, tt_priority := SEVERITY_PRIORITY (dd_severity d),
     tt_duration := duration_of d, it_pausedRemaining := None\<rparr>"

definition fresh_toast :: "string \<Rightarrow> toast_descriptor \<Rightarrow> int \<Rightarrow> internal_toast" where
  "fresh_toast k d now =
     \<lparr>tt_id = k, tt_severity = dd_severity d, tt_message = dd_message d,
      tt_description = dd_description d, tt_action = dd_action d, tt_duration = duration_of d,
      tt_dedupKey = dd_dedupKey d, tt_priority = SEVERITY_PRIORITY (dd_severity d),
      tt_createdAt = now, tt_state = Toast_queued,
      it_pausedRemaining = None, it_runStartedAt = 0, it_timer = None\<rparr>"

text \<open>\<open>toasts.set(id, t)\<close> for a new object \<open>t\<close>: it gets the next address.\<close>

definition alloc :: "string \<Rightarrow> internal_toast \<Rightarrow> toasts \<Rightarrow> toasts" where
  "alloc k t s = s\<lparr>tm_heap := tm_heap s @ [t], tm_toasts := map_set k (length (tm_heap s)) (tm_toasts s)\<rparr>"

definition notify_replace :: "nat \<Rightarrow> toast_descriptor \<Rightarrow> int \<Rightarrow> toasts \<Rightarrow> toasts \<times> toast_event list" where
  "notify_replace e d now s =
     (let existing = obj s e;
          r = length (tm_heap s);
          s1 = alloc (tt_id existing) (replacement_for existing d) s;
          s2 = (if tt_state existing = Toast_visible
                then (let s' = clearTimer e s1 in
                      if duration_of d > 0 then startTimer now r (duration_of d) s' else s')
                else s1)
      in (s2, toast_emit s2 @ [Did (tt_id existing)]))"

definition notify_new :: "toast_options \<Rightarrow> toast_descriptor \<Rightarrow> int \<Rightarrow> toasts \<Rightarrow> toasts \<times> toast_event list" where
  "notify_new opts d now s =
     (let (k, s0) = (case dd_id d of
              Some k \<Rightarrow> (k, s)
            | None \<Rightarrow> (to_generateId opts (Suc (tm_idCounter s)), s\<lparr>tm_idCounter := Suc (tm_idCounter s)\<rparr>));
          r = length (tm_heap s0);
          p = SEVERITY_PRIORITY (dd_severity d);
          s1 = alloc k (fresh_toast k d now) s0;
          (s2, es) = (if p = SEVERITY_PRIORITY Sev_error
                      then preemptForError (to_maxVisible opts) now p s1 else (s1, []));
          s3 = (if int (visibleCount s2) < to_maxVisible opts then transitionToVisible now r s2 else s2)
      in (s3, es @ toast_emit s3 @ [Did k]))"

section \<open>Operations\<close>

definition toast_notify :: "toast_options \<Rightarrow> toast_descriptor \<Rightarrow> int \<Rightarrow> toasts \<Rightarrow> toasts \<times> toast_event list" where
  "toast_notify opts d now s =
     (case dd_dedupKey d of
        None \<Rightarrow> notify_new opts d now s
      | Some key \<Rightarrow> (case findByDedupKey key s of
            None \<Rightarrow> notify_new opts d now s
          | Some e \<Rightarrow> notify_replace e d now s))"

definition toast_dismiss :: "toast_options \<Rightarrow> string \<Rightarrow> int \<Rightarrow> toasts \<Rightarrow> toasts \<times> toast_event list" where
  "toast_dismiss opts k now s =
     (case map_get (tm_toasts s) k of
        None \<Rightarrow> (s, [])
      | Some r \<Rightarrow> transitionToDismissed (to_maxVisible opts) now r s)"

definition toast_dismissAll :: "toasts \<Rightarrow> toasts \<times> toast_event list" where
  "toast_dismissAll s =
     (let s' = fold (\<lambda>r s. if tt_state (obj s r) \<noteq> Toast_dismissed then mark_dismissed r s else s) (refs s) s
      in (s', toast_emit s'))"

text \<open>The common body of \<open>pause\<close> and \<open>pauseAll\<close> for one object.\<close>

definition pause_toast :: "int \<Rightarrow> nat \<Rightarrow> toasts \<Rightarrow> toasts" where
  "pause_toast now r s =
     (if tt_state (obj s r) \<noteq> Toast_visible \<or> it_timer (obj s r) = None then s
      else
        (let elapsed = now - it_runStartedAt (obj s r)
         in clearTimer r (put r ((obj s r)\<lparr>it_pausedRemaining := Some (max 0 (tt_duration (obj s r) - elapsed))\<rparr>) s)))"

definition toast_pause :: "string \<Rightarrow> int \<Rightarrow> toasts \<Rightarrow> toasts \<times> toast_event list" where
  "toast_pause k now s =
     (case map_get (tm_toasts s) k of None \<Rightarrow> (s, []) | Some r \<Rightarrow> (pause_toast now r s, []))"

definition toast_pauseAll :: "int \<Rightarrow> toasts \<Rightarrow> toasts \<times> toast_event list" where
  "toast_pauseAll now s = (fold (pause_toast now) (refs s) s, [])"

definition resume_toast :: "toast_options \<Rightarrow> int \<Rightarrow> nat \<Rightarrow> toasts \<Rightarrow> toasts \<times> toast_event list" where
  "resume_toast opts now r s =
     (if tt_state (obj s r) \<noteq> Toast_visible then (s, [])
      else case it_pausedRemaining (obj s r) of
          None \<Rightarrow> (s, [])
        | Some remaining \<Rightarrow>
            (let s1 = put r ((obj s r)\<lparr>it_pausedRemaining := None\<rparr>) s in
             if remaining \<le> 0 then transitionToDismissed (to_maxVisible opts) now r s1
             else (startTimer now r remaining s1, [])))"

definition toast_resume :: "toast_options \<Rightarrow> string \<Rightarrow> int \<Rightarrow> toasts \<Rightarrow> toasts \<times> toast_event list" where
  "toast_resume opts k now s =
     (case map_get (tm_toasts s) k of None \<Rightarrow> (s, []) | Some r \<Rightarrow> resume_toast opts now r s)"

fun resume_loop :: "toast_options \<Rightarrow> int \<Rightarrow> nat list \<Rightarrow> toasts \<Rightarrow> toasts \<times> toast_event list" where
  "resume_loop opts now [] s = (s, [])"
| "resume_loop opts now (r # rs) s = and_then (resume_toast opts now r s) (resume_loop opts now rs)"

definition toast_resumeAll :: "toast_options \<Rightarrow> int \<Rightarrow> toasts \<Rightarrow> toasts \<times> toast_event list" where
  "toast_resumeAll opts now s = resume_loop opts now (refs s) s"

text \<open>The timer callback: \<open>t.timer = null; transitionToDismissed(t)\<close>.\<close>

definition toast_fire :: "toast_options \<Rightarrow> nat \<Rightarrow> int \<Rightarrow> toasts \<Rightarrow> toasts \<times> toast_event list" where
  "toast_fire opts h now s =
     (case map_get (tm_pending s) h of
        None \<Rightarrow> (s, [])
      | Some (r, due) \<Rightarrow>
          transitionToDismissed (to_maxVisible opts) now r
            (put r ((obj s r)\<lparr>it_timer := None\<rparr>) (s\<lparr>tm_pending := map_del h (tm_pending s)\<rparr>)))"

datatype toast_op =
    Toast_notify toast_descriptor | Toast_dismiss string | Toast_dismissAll
  | Toast_pause string | Toast_resume string | Toast_pauseAll | Toast_resumeAll
  | Toast_fire nat
  | Toast_subscribe listener | Toast_unsubscribe listener

text \<open>One call at time \<open>now\<close> (what \<open>Date.now()\<close> answers during the call).\<close>

fun toast_step :: "toast_options \<Rightarrow> int \<times> toast_op \<Rightarrow> toasts \<Rightarrow> toasts \<times> toast_event list" where
  "toast_step opts (now, Toast_notify d) s = toast_notify opts d now s"
| "toast_step opts (now, Toast_dismiss k) s = toast_dismiss opts k now s"
| "toast_step opts (now, Toast_dismissAll) s = toast_dismissAll s"
| "toast_step opts (now, Toast_pause k) s = toast_pause k now s"
| "toast_step opts (now, Toast_resume k) s = toast_resume opts k now s"
| "toast_step opts (now, Toast_pauseAll) s = toast_pauseAll now s"
| "toast_step opts (now, Toast_resumeAll) s = toast_resumeAll opts now s"
| "toast_step opts (now, Toast_fire h) s = toast_fire opts h now s"
| "toast_step opts (now, Toast_subscribe l) s = (s\<lparr>tm_listeners := subscribe l (tm_listeners s)\<rparr>, [])"
| "toast_step opts (now, Toast_unsubscribe l) s = (s\<lparr>tm_listeners := unsubscribe l (tm_listeners s)\<rparr>, [])"

definition createToastManager :: toasts where
  "createToastManager =
     \<lparr>tm_heap = [], tm_toasts = [], tm_idCounter = 0, tm_listeners = [], tm_pending = [], tm_handles = 0\<rparr>"

definition default_toast_options :: toast_options where
  "default_toast_options = \<lparr>to_maxVisible = DEFAULT_MAX_VISIBLE, to_generateId = nextDefaultId\<rparr>"

section \<open>The system with its clock\<close>

text \<open>
  The manager in its environment: calls at any time, time passing, and the event loop running
  the callback of a pending timer that is due.
\<close>

inductive toast_sys :: "toast_options \<Rightarrow> toasts \<times> int \<Rightarrow> toasts \<times> int \<Rightarrow> bool"
  for opts :: toast_options where
  Sys_call: "\<forall>h. x \<noteq> Toast_fire h \<Longrightarrow>
    toast_sys opts (s, now) (fst (toast_step opts (now, x) s), now)"
| Sys_tick: "0 \<le> d \<Longrightarrow> toast_sys opts (s, now) (s, now + d)"
| Sys_fire: "map_get (tm_pending s) h = Some (r, due) \<Longrightarrow> due \<le> now \<Longrightarrow>
    toast_sys opts (s, now) (fst (toast_step opts (now, Toast_fire h) s), now)"

inductive toast_reachable :: "toast_options \<Rightarrow> toasts \<times> int \<Rightarrow> bool" for opts :: toast_options where
  Reach_init: "toast_reachable opts (createToastManager, now)"
| Reach_step: "toast_reachable opts c \<Longrightarrow> toast_sys opts c c' \<Longrightarrow> toast_reachable opts c'"

inductive_cases toast_sysE: "toast_sys opts c c'"
inductive_simps toast_sys_simps: "toast_sys opts (s, now) (s', now')"

section \<open>The heap invariant\<close>

definition toast_obj_ok :: "internal_toast \<Rightarrow> bool" where
  "toast_obj_ok t \<longleftrightarrow>
     (tt_state t = Toast_queued \<longrightarrow> it_timer t = None \<and> it_pausedRemaining t = None) \<and>
     (it_pausedRemaining t \<noteq> None \<longrightarrow> it_timer t = None)"

text \<open>
  A pending timer belongs to a visible toast that carries its handle; handles are never reused.
\<close>

definition pending_ok :: "toasts \<Rightarrow> bool" where
  "pending_ok s \<longleftrightarrow> distinct (map_keys (tm_pending s)) \<and>
     (\<forall>h r due. (h, r, due) \<in> set (tm_pending s) \<longrightarrow> h < tm_handles s \<and> r < length (tm_heap s) \<and>
        it_timer (obj s r) = Some h \<and> tt_state (obj s r) = Toast_visible)"

definition registry_ok :: "toasts \<Rightarrow> bool" where
  "registry_ok s \<longleftrightarrow> distinct (map_keys (tm_toasts s)) \<and> distinct (refs s) \<and>
     (\<forall>k r. (k, r) \<in> set (tm_toasts s) \<longrightarrow> r < length (tm_heap s) \<and> tt_id (obj s r) = k)"

definition toast_wf :: "toasts \<Rightarrow> bool" where
  "toast_wf s \<longleftrightarrow> pending_ok s \<and> registry_ok s \<and>
     (\<forall>r<length (tm_heap s). toast_obj_ok (obj s r) \<and>
        (\<forall>h. it_timer (obj s r) = Some h \<longrightarrow> h < tm_handles s))"

abbreviation st :: "toasts \<Rightarrow> nat \<Rightarrow> toast_state" where
  "st s r \<equiv> tt_state (obj s r)"

lemma put_simps [simp]:
  "length (tm_heap (put r t s)) = length (tm_heap s)" "tm_toasts (put r t s) = tm_toasts s"
  "tm_pending (put r t s) = tm_pending s" "tm_handles (put r t s) = tm_handles s"
  "tm_listeners (put r t s) = tm_listeners s" "refs (put r t s) = refs s"
  by (simp_all add: put_def refs_def)

lemma obj_put: "r < length (tm_heap s) \<Longrightarrow> obj (put r t s) x = (if x = r then t else obj s x)"
  by (simp add: put_def nth_list_update)

lemma wf_put:
  assumes "toast_wf s" and "r < length (tm_heap s)" and "toast_obj_ok t" and "tt_id t = tt_id (obj s r)"
    and "\<And>h. it_timer t = Some h \<Longrightarrow> h < tm_handles s"
    and "\<And>h due. (h, r, due) \<in> set (tm_pending s) \<Longrightarrow> it_timer t = Some h \<and> tt_state t = Toast_visible"
  shows "toast_wf (put r t s)"
  using assms by (auto simp: toast_wf_def pending_ok_def registry_ok_def obj_put)

lemma wf_pending:
  "toast_wf s \<Longrightarrow> (h, r, due) \<in> set (tm_pending s) \<Longrightarrow> h < tm_handles s \<and> r < length (tm_heap s) \<and>
   it_timer (obj s r) = Some h \<and> tt_state (obj s r) = Toast_visible"
  unfolding toast_wf_def pending_ok_def by blast

lemma wf_idle: "toast_wf s \<Longrightarrow> it_timer (obj s r) = None \<Longrightarrow> (h, r, due) \<notin> set (tm_pending s)"
  by (auto dest: wf_pending)

lemma wf_obj: "toast_wf s \<Longrightarrow> r < length (tm_heap s) \<Longrightarrow> toast_obj_ok (obj s r)"
  by (simp add: toast_wf_def)

lemma wf_ref: "toast_wf s \<Longrightarrow> r \<in> set (refs s) \<Longrightarrow> r < length (tm_heap s)"
  by (auto simp: toast_wf_def registry_ok_def refs_def)

lemma clearTimer_simps [simp]:
  "length (tm_heap (clearTimer r s)) = length (tm_heap s)" "tm_toasts (clearTimer r s) = tm_toasts s"
  "tm_handles (clearTimer r s) = tm_handles s" "tm_listeners (clearTimer r s) = tm_listeners s"
  "refs (clearTimer r s) = refs s"
  by (simp_all add: clearTimer_def refs_def split: option.split)

lemma clearTimer_obj:
  "r < length (tm_heap s) \<Longrightarrow>
   obj (clearTimer r s) x = (if x = r then (obj s r)\<lparr>it_timer := None\<rparr> else obj s x)"
proof (cases "it_timer (obj s r)")
  case None
  then have "(obj s r)\<lparr>it_timer := None\<rparr> = obj s r" by simp
  with None show ?thesis by (simp add: clearTimer_def)
qed (simp add: clearTimer_def put_def nth_list_update)

lemma wf_clearTimer:
  assumes "toast_wf s" and "r < length (tm_heap s)"
  shows "toast_wf (clearTimer r s) \<and> (\<forall>h due. (h, r, due) \<notin> set (tm_pending (clearTimer r s)))"
proof (cases "it_timer (obj s r)")
  case None
  with assms show ?thesis by (auto simp: clearTimer_def dest: wf_idle)
next
  case (Some h)
  let ?s = "s\<lparr>tm_pending := map_del h (tm_pending s)\<rparr>"
  have out: "(h', r, due) \<notin> set (map_del h (tm_pending s))" for h' due
    using wf_pending[OF assms(1)] Some by (fastforce simp: in_delete)
  have "toast_wf ?s"
    using assms(1) by (auto simp: toast_wf_def pending_ok_def registry_ok_def refs_def in_delete)
  moreover have "toast_obj_ok ((obj s r)\<lparr>it_timer := None\<rparr>)"
    using assms by (auto simp: toast_wf_def toast_obj_ok_def)
  ultimately have "toast_wf (put r ((obj s r)\<lparr>it_timer := None\<rparr>) ?s)"
    using assms(2) out by (intro wf_put) auto
  with Some out show ?thesis by (simp add: clearTimer_def)
qed

lemma startTimer_simps [simp]:
  "length (tm_heap (startTimer now r ms s)) = length (tm_heap s)" "tm_toasts (startTimer now r ms s) = tm_toasts s"
  "tm_listeners (startTimer now r ms s) = tm_listeners s" "refs (startTimer now r ms s) = refs s"
  by (simp_all add: startTimer_def refs_def)

lemma startTimer_st: "r < length (tm_heap s) \<Longrightarrow> st (startTimer now r ms s) x = st s x"
  by (simp add: startTimer_def put_def nth_list_update)

lemma startTimer_view [simp]: "r < length (tm_heap s) \<Longrightarrow>
    toast.truncate (obj (startTimer now r ms s) x) = toast.truncate (obj s x)"
  by (simp add: startTimer_def put_def nth_list_update toast.defs)

lemma wf_startTimer:
  assumes wf: "toast_wf s" and r: "r < length (tm_heap s)" and v: "st s r = Toast_visible"
    and p: "it_pausedRemaining (obj s r) = None" and idle: "\<forall>h due. (h, r, due) \<notin> set (tm_pending s)"
  shows "toast_wf (startTimer now r ms s)"
proof (cases "ms \<le> 0")
  case False
  let ?t = "(obj s r)\<lparr>it_runStartedAt := now, it_timer := Some (tm_handles s)\<rparr>"
  have h: "tm_handles s \<notin> set (map_keys (tm_pending s))"
    using wf_pending[OF wf, of "tm_handles s"] by fastforce
  have "toast_obj_ok ?t" using v p by (simp add: toast_obj_ok_def)
  with wf r v idle h False show ?thesis
    by (auto simp: toast_wf_def pending_ok_def registry_ok_def startTimer_def put_def nth_list_update refs_def
        less_Suc_eq)
qed (use wf in \<open>simp add: startTimer_def\<close>)

text \<open>Changing the state of one toast.\<close>

lemma transitionToVisible_simps [simp]:
  "length (tm_heap (transitionToVisible now r s)) = length (tm_heap s)"
  "tm_toasts (transitionToVisible now r s) = tm_toasts s"
  "tm_listeners (transitionToVisible now r s) = tm_listeners s"
  "refs (transitionToVisible now r s) = refs s"
  by (simp_all add: transitionToVisible_def Let_def)

lemma transitionToVisible_st:
  "r < length (tm_heap s) \<Longrightarrow> st (transitionToVisible now r s) x = (if x = r then Toast_visible else st s x)"
  by (simp add: transitionToVisible_def Let_def startTimer_st obj_put)

lemma wf_visible:
  assumes wf: "toast_wf s" and r: "r < length (tm_heap s)" and q: "st s r \<noteq> Toast_dismissed"
  shows "toast_wf (transitionToVisible now r s)"
proof (cases "st s r")
  case Toast_queued
  then have o0: "it_timer (obj s r) = None" "it_pausedRemaining (obj s r) = None"
    using wf_obj[OF wf r] by (auto simp: toast_obj_ok_def)
  let ?s = "put r ((obj s r)\<lparr>tt_state := Toast_visible\<rparr>) s"
  have "toast_wf ?s"
    using wf r o0 wf_idle[OF wf o0(1)] by (intro wf_put) (auto simp: toast_obj_ok_def)
  then have "toast_wf (startTimer now r ms ?s)" for ms
    using r o0 wf_idle[OF wf o0(1)] by (intro wf_startTimer) (auto simp: obj_put)
  with \<open>toast_wf ?s\<close> Toast_queued show ?thesis by (simp add: transitionToVisible_def Let_def)
qed (use wf q in \<open>simp_all add: transitionToVisible_def\<close>)

lemma mark_dismissed_simps [simp]:
  "length (tm_heap (mark_dismissed r s)) = length (tm_heap s)"
  "tm_toasts (mark_dismissed r s) = tm_toasts s"
  "tm_listeners (mark_dismissed r s) = tm_listeners s"
  "refs (mark_dismissed r s) = refs s"
  by (simp_all add: mark_dismissed_def Let_def)

lemma mark_dismissed_st:
  "r < length (tm_heap s) \<Longrightarrow> st (mark_dismissed r s) x = (if x = r then Toast_dismissed else st s x)"
  by (simp add: mark_dismissed_def Let_def obj_put clearTimer_obj)

lemma wf_mark_dismissed:
  assumes wf: "toast_wf s" and r: "r < length (tm_heap s)"
  shows "toast_wf (mark_dismissed r s)"
proof -
  note c = wf_clearTimer[OF wf r]
  have o0: "it_timer (obj (clearTimer r s) r) = None" using r by (simp add: clearTimer_obj)
  then have "toast_obj_ok ((obj (clearTimer r s) r)\<lparr>tt_state := Toast_dismissed\<rparr>)"
    by (simp add: toast_obj_ok_def)
  with c r o0 show ?thesis
    unfolding mark_dismissed_def Let_def by (intro wf_put) auto
qed

section \<open>The visibility bound and the full house\<close>

definition vis :: "toasts \<Rightarrow> nat set" where
  "vis s = {r \<in> set (refs s). st s r = Toast_visible}"

definition queue :: "toasts \<Rightarrow> nat set" where
  "queue s = {r \<in> set (refs s). st s r = Toast_queued}"

lemma finite_vis [simp]: "finite (vis s)"
  by (simp add: vis_def)

lemma visibleCount_card: "toast_wf s \<Longrightarrow> visibleCount s = card (vis s)"
proof -
  assume "toast_wf s"
  then have d: "distinct (filter (\<lambda>r. st s r = Toast_visible) (refs s))" by (simp add: toast_wf_def registry_ok_def)
  have "vis s = set (filter (\<lambda>r. st s r = Toast_visible) (refs s))" by (auto simp: vis_def)
  with distinct_card[OF d] show ?thesis by (simp add: visibleCount_def)
qed

text \<open>At most \<open>maxVisible\<close> toasts are visible; toasts wait only while that many are visible.\<close>

definition bounded :: "int \<Rightarrow> toasts \<Rightarrow> bool" where
  "bounded m s \<longleftrightarrow> toast_wf s \<and> int (card (vis s)) \<le> max 0 m"

definition full_house :: "int \<Rightarrow> toasts \<Rightarrow> bool" where
  "full_house m s \<longleftrightarrow> bounded m s \<and> (queue s \<noteq> {} \<longrightarrow> m \<le> int (card (vis s)))"

lemma vis_visible:
  "r \<in> set (refs s) \<Longrightarrow> r < length (tm_heap s) \<Longrightarrow>
   vis (transitionToVisible now r s) = insert r (vis s) \<and> queue (transitionToVisible now r s) = queue s - {r}"
  by (auto simp: vis_def queue_def transitionToVisible_st)

lemma promote_loop_full:
  "bounded m s \<Longrightarrow> set rs = queue s \<Longrightarrow> distinct rs \<Longrightarrow> full_house m (fst (promote_loop m now rs s))"
proof (induction rs arbitrary: s)
  case Nil
  then show ?case by (simp add: full_house_def)
next
  case (Cons r rs)
  have wf: "toast_wf s" using Cons.prems by (simp add: bounded_def)
  have r: "r \<in> set (refs s)" "st s r = Toast_queued" using Cons.prems(2) by (auto simp: queue_def)
  then have len: "r < length (tm_heap s)" by (rule_tac wf_ref[OF wf])
  show ?case
  proof (cases "int (visibleCount s) < m")
    case True
    let ?s = "transitionToVisible now r s"
    have v: "vis ?s = insert r (vis s)" "queue ?s = queue s - {r}" using vis_visible[OF r(1) len] by auto
    have "toast_wf ?s" using wf_visible[OF wf len] r(2) by simp
    moreover have "int (card (vis ?s)) \<le> max 0 m"
      using True visibleCount_card[OF wf] v(1) by (simp add: card_insert_if)
    ultimately have "bounded m ?s" by (simp add: bounded_def)
    moreover have "set rs = queue ?s" using Cons.prems v(2) by auto
    ultimately show ?thesis using True Cons.IH[of ?s] Cons.prems(3) by (simp add: Let_def)
  next
    case False
    with Cons.prems(1) visibleCount_card[OF wf] show ?thesis by (simp add: full_house_def)
  qed
qed

lemma promote_full: "bounded m s \<Longrightarrow> full_house m (fst (promoteFromQueue m now s))"
proof (cases "m \<le> int (visibleCount s)")
  case True
  moreover assume "bounded m s"
  ultimately show ?thesis
    by (simp add: promoteFromQueue_def full_house_def bounded_def visibleCount_card)
next
  case False
  moreover assume b: "bounded m s"
  moreover have "distinct (queued_refs s)"
    using b by (simp add: bounded_def toast_wf_def registry_ok_def queued_refs_def)
  moreover have "set (queued_refs s) = queue s" by (auto simp: queued_refs_def queue_def)
  ultimately show ?thesis by (simp add: promoteFromQueue_def promote_loop_full)
qed

lemma bounded_mark_dismissed:
  assumes "bounded m s" and "r < length (tm_heap s)"
  shows "bounded m (mark_dismissed r s)"
proof -
  have "vis (mark_dismissed r s) \<subseteq> vis s" using assms(2) by (auto simp: vis_def mark_dismissed_st)
  then have "card (vis (mark_dismissed r s)) \<le> card (vis s)" by (simp add: card_mono)
  with assms show ?thesis by (auto simp: bounded_def wf_mark_dismissed)
qed

lemma dismissed_full:
  "bounded m s \<Longrightarrow> r < length (tm_heap s) \<Longrightarrow> st s r \<noteq> Toast_dismissed \<or> full_house m s \<Longrightarrow>
   full_house m (fst (transitionToDismissed m now r s))"
  by (simp add: transitionToDismissed_def Let_def promote_full bounded_mark_dismissed)

text \<open>A new object under a key: it takes the place of the key's old object.\<close>

lemma values_update_set:
  "distinct (map_keys m) \<Longrightarrow> distinct (map_values m) \<Longrightarrow> v \<notin> set (map_values m) \<Longrightarrow>
   distinct (map_values (map_set k v m)) \<and>
   set (map_values (map_set k v m)) =
     insert v (case map_get m k of None \<Rightarrow> set (map_values m) | Some r \<Rightarrow> set (map_values m) - {r})"
proof (induction m)
  case (Cons p m)
  show ?case
  proof (cases "fst p = k")
    case True
    with Cons.prems show ?thesis by (cases p) auto
  next
    case False
    moreover have "map_get m k = Some r \<Longrightarrow> snd p \<noteq> r" for r
      using Cons.prems(2) by (metis distinct.simps(2) list.simps(9) map_of_SomeD rev_image_eqI set_map snd_conv)
    ultimately show ?thesis using Cons by (cases p) (auto split: option.splits)
  qed
qed simp

lemma alloc_simps [simp]:
  "tm_pending (alloc k t s) = tm_pending s" "tm_handles (alloc k t s) = tm_handles s"
  "tm_listeners (alloc k t s) = tm_listeners s" "length (tm_heap (alloc k t s)) = Suc (length (tm_heap s))"
  by (simp_all add: alloc_def)

lemma obj_alloc: "r < length (tm_heap s) \<Longrightarrow> obj (alloc k t s) r = obj s r"
  "obj (alloc k t s) (length (tm_heap s)) = t"
  by (simp_all add: alloc_def nth_append)

lemma wf_alloc:
  assumes wf: "toast_wf s" and t: "toast_obj_ok t" "tt_id t = k" and h: "\<And>h. it_timer t = Some h \<Longrightarrow> h < tm_handles s"
  shows "toast_wf (alloc k t s)"
    and "set (refs (alloc k t s)) = insert (length (tm_heap s))
      (case map_get (tm_toasts s) k of None \<Rightarrow> set (refs s) | Some r \<Rightarrow> set (refs s) - {r})"
proof -
  let ?n = "length (tm_heap s)"
  have n: "?n \<notin> set (refs s)" using wf_ref[OF wf] by blast
  have reg: "registry_ok s" using wf by (simp add: toast_wf_def)
  have rr: "refs s = map_values (tm_toasts s)" "refs (alloc k t s) = map_values (map_set k ?n (tm_toasts s))"
    by (simp_all add: refs_def alloc_def)
  have "distinct (map_keys (tm_toasts s))" "distinct (map_values (tm_toasts s))" "?n \<notin> set (map_values (tm_toasts s))"
    using reg n by (simp_all add: registry_ok_def refs_def)
  note v = values_update_set[OF this, of k, folded rr]
  then have v': "distinct (refs (alloc k t s))"
    "set (refs (alloc k t s)) = insert ?n
      (case map_get (tm_toasts s) k of None \<Rightarrow> set (refs s) | Some r \<Rightarrow> set (refs s) - {r})"
    by simp_all
  then show "set (refs (alloc k t s)) = insert ?n
      (case map_get (tm_toasts s) k of None \<Rightarrow> set (refs s) | Some r \<Rightarrow> set (refs s) - {r})" by simp
  have "registry_ok (alloc k t s)"
    unfolding registry_ok_def
  proof (intro conjI allI impI)
    show "distinct (map_keys (tm_toasts (alloc k t s)))" using reg by (simp add: registry_ok_def alloc_def)
    fix j r assume "(j, r) \<in> set (tm_toasts (alloc k t s))"
    then have "j = k \<and> r = ?n \<or> (j, r) \<in> set (tm_toasts s)"
      by (auto simp: alloc_def dest: in_update_cases)
    moreover have "(j, r) \<in> set (tm_toasts s) \<Longrightarrow> r < ?n \<and> tt_id (obj s r) = j"
      using reg unfolding registry_ok_def by blast
    ultimately show "r < length (tm_heap (alloc k t s))" "tt_id (obj (alloc k t s) r) = j"
      using t(2) by (auto simp: obj_alloc)
  qed (use v'(1) in simp)
  moreover have "pending_ok (alloc k t s)"
    using wf by (fastforce simp: toast_wf_def pending_ok_def obj_alloc)
  ultimately show "toast_wf (alloc k t s)"
    using wf t h unfolding toast_wf_def by (auto simp: less_Suc_eq obj_alloc)
qed

lemma st_alloc: "r < length (tm_heap s) \<Longrightarrow> st (alloc k t s) r = st s r"
  "st (alloc k t s) (length (tm_heap s)) = tt_state t"
  by (simp_all add: obj_alloc)

lemma ref_key: "toast_wf s \<Longrightarrow> r \<in> set (refs s) \<Longrightarrow> map_get (tm_toasts s) (tt_id (obj s r)) = Some r"
  by (auto simp: toast_wf_def registry_ok_def refs_def)

lemma full_bounded: "full_house m s \<Longrightarrow> bounded m s"
  by (simp add: full_house_def)

lemma full_wf: "full_house m s \<Longrightarrow> toast_wf s"
  by (simp add: full_house_def bounded_def)

lemma full_same:
  "full_house m s \<Longrightarrow> toast_wf s' \<Longrightarrow> card (vis s') = card (vis s) \<Longrightarrow> (queue s' \<noteq> {} \<Longrightarrow> queue s \<noteq> {}) \<Longrightarrow> full_house m s'"
  by (auto simp: full_house_def bounded_def)

lemma card_swap: "finite A \<Longrightarrow> x \<in> A \<Longrightarrow> y \<notin> A \<Longrightarrow> card (insert y (A - {x})) = card A"
  by (metis Diff_iff card_insert_disjoint card_Suc_Diff1 finite_Diff)

lemma notify_replace_full:
  assumes full: "full_house m s" and e: "e \<in> set (refs s)" "st s e \<noteq> Toast_dismissed"
  shows "full_house m (fst (notify_replace e d now s))"
proof -
  let ?n = "length (tm_heap s)" and ?t = "replacement_for (obj s e) d" and ?k = "tt_id (obj s e)"
  let ?s1 = "alloc ?k ?t s"
  note wf = full_wf[OF full]
  have len: "e < ?n" using wf e(1) by (rule wf_ref)
  have t: "toast_obj_ok ?t" "tt_id ?t = ?k" "tt_state ?t = st s e" "it_timer ?t = it_timer (obj s e)"
    using wf_obj[OF wf len] by (auto simp: toast_obj_ok_def replacement_for_def)
  have hs: "it_timer ?t = Some h \<Longrightarrow> h < tm_handles s" for h
    using wf len t(4) by (simp add: toast_wf_def)
  have wf1: "toast_wf ?s1" using wf t hs by (intro wf_alloc(1)) auto
  have refs1: "set (refs ?s1) = insert ?n (set (refs s) - {e})"
    using wf_alloc(2)[OF wf t(1,2) hs] ref_key[OF wf e(1)] by simp
  have sets: "vis ?s1 = (if st s e = Toast_visible then insert ?n (vis s - {e}) else vis s)"
    "queue ?s1 \<noteq> {} \<Longrightarrow> queue s \<noteq> {}"
    using refs1 e t(3) st_alloc wf_ref[OF wf] by (auto simp: vis_def queue_def)
  have "?n \<notin> vis s" using wf_ref[OF wf] by (auto simp: vis_def)
  moreover have "st s e = Toast_visible \<Longrightarrow> e \<in> vis s" using e by (simp add: vis_def)
  ultimately have "card (vis ?s1) = card (vis s)"
    using sets(1) card_swap[of "vis s" e ?n] by (cases "st s e = Toast_visible") simp_all
  with full wf1 sets(2) have full1: "full_house m ?s1" by (intro full_same[OF full]) auto
  show ?thesis
  proof (cases "st s e = Toast_visible")
    case True
    let ?s2 = "clearTimer e ?s1"
    have e1: "e < length (tm_heap ?s1)" using len by simp
    have st2: "st ?s2 x = st ?s1 x" for x using e1 by (simp add: clearTimer_obj)
    have wf2: "toast_wf ?s2" using wf_clearTimer[OF wf1 e1] by simp
    have o2: "obj ?s2 ?n = ?t" using e1 len by (simp add: clearTimer_obj obj_alloc)
    have "(h, ?n, due) \<notin> set (tm_pending s)" for h due using wf_pending[OF wf] by blast
    then have idle: "\<forall>h due. (h, ?n, due) \<notin> set (tm_pending ?s2)"
      by (simp add: clearTimer_def in_delete split: option.split)
    have wf3: "toast_wf (startTimer now ?n ms ?s2)" for ms
      using wf2 o2 t(3) True idle by (intro wf_startTimer) (auto simp: replacement_for_def)
    have f2: "full_house m ?s2"
      using full1 wf2 by (rule full_same) (simp_all add: vis_def queue_def st2)
    have "st (startTimer now ?n ms ?s2) x = st ?s2 x" for ms x by (rule startTimer_st) simp
    then have "full_house m (startTimer now ?n ms ?s2)" for ms
      using f2 wf3 by (intro full_same[OF f2]) (simp_all add: vis_def queue_def)
    with f2 True show ?thesis by (simp add: notify_replace_def Let_def)
  next
    case False
    with full1 show ?thesis by (simp add: notify_replace_def Let_def)
  qed
qed

lemma find_victim:
  "pick_victim s p rs v = Some r \<Longrightarrow> (v = Some r \<or> r \<in> set rs \<and> st s r = Toast_visible \<and> tt_priority (obj s r) < p)"
  by (induction rs arbitrary: v) (force split: if_splits option.splits)+

lemma preempt_bounded:
  assumes "bounded m s"
  shows "bounded m (fst (preemptForError m now p s)) \<and>
         (fst (preemptForError m now p s) = s \<or> full_house m (fst (preemptForError m now p s)))"
proof (cases "preemptForError m now p s = (s, [])")
  case False
  then obtain v where v: "pick_victim s p (refs s) None = Some v"
    and e: "preemptForError m now p s = transitionToDismissed m now v s"
    by (auto simp: preemptForError_def split: if_splits option.splits)
  have "v \<in> set (refs s)" "st s v = Toast_visible" using find_victim[OF v] by auto
  moreover from this have "v < length (tm_heap s)" using assms wf_ref by (auto simp: bounded_def)
  ultimately have "full_house m (fst (transitionToDismissed m now v s))"
    using assms by (intro dismissed_full) auto
  then show ?thesis by (simp add: e full_bounded)
qed (use assms in simp)

lemma preempt_refs [simp]: "refs (fst (preemptForError m now p s)) = refs s"
  "length (tm_heap (fst (preemptForError m now p s))) = length (tm_heap s)"
proof -
  have l: "refs (fst (promote_loop m now rs u)) = refs u \<and>
      length (tm_heap (fst (promote_loop m now rs u))) = length (tm_heap u)" for rs u
    by (induction rs arbitrary: u) (simp_all add: Let_def)
  then have "refs (fst (transitionToDismissed m now r u)) = refs u \<and>
      length (tm_heap (fst (transitionToDismissed m now r u))) = length (tm_heap u)" for r u
    by (simp add: transitionToDismissed_def Let_def promoteFromQueue_def)
  then show "refs (fst (preemptForError m now p s)) = refs s"
    "length (tm_heap (fst (preemptForError m now p s))) = length (tm_heap s)"
    by (auto simp: preemptForError_def split: option.split)
qed

lemma never_dismissed_promote:
  "r < length (tm_heap u) \<Longrightarrow> set rs \<subseteq> set (refs u) \<Longrightarrow> toast_wf u \<Longrightarrow> \<forall>q\<in>set rs. st u q \<noteq> Toast_dismissed \<Longrightarrow>
   st u r \<noteq> Toast_dismissed \<Longrightarrow> st (fst (promote_loop m now rs u)) r \<noteq> Toast_dismissed"
proof (induction rs arbitrary: u)
  case (Cons q rs)
  have q: "q < length (tm_heap u)" using Cons.prems(2,3) by (simp add: wf_ref)
  then show ?case
    using Cons.prems Cons.IH[of "transitionToVisible now q u"]
    by (simp add: Let_def transitionToVisible_st wf_visible)
qed simp

lemma preempt_keeps:
  assumes "bounded m u" and "r < length (tm_heap u)" and "st u r = Toast_queued"
  shows "st (fst (preemptForError m now p u)) r \<noteq> Toast_dismissed"
proof (cases "preemptForError m now p u = (u, [])")
  case False
  then obtain v where v: "pick_victim u p (refs u) None = Some v"
    and e: "preemptForError m now p u = transitionToDismissed m now v u"
    by (auto simp: preemptForError_def split: if_splits option.splits)
  have vr: "v \<in> set (refs u)" "st u v = Toast_visible" using find_victim[OF v] by auto
  then have vl: "v < length (tm_heap u)" using assms(1) wf_ref by (auto simp: bounded_def)
  let ?u = "mark_dismissed v u"
  have su: "st ?u x = (if x = v then Toast_dismissed else st u x)" for x using vl by (rule mark_dismissed_st)
  have "toast_wf ?u" using wf_mark_dismissed vl assms(1) by (simp add: bounded_def)
  moreover have "st ?u r = Toast_queued" using assms(3) vr(2) su by auto
  moreover have "set (queued_refs ?u) \<subseteq> set (refs ?u)" "\<forall>q\<in>set (queued_refs ?u). st ?u q \<noteq> Toast_dismissed"
    by (auto simp: queued_refs_def)
  ultimately have "st (fst (promoteFromQueue m now ?u)) r \<noteq> Toast_dismissed"
    using assms(2)
      never_dismissed_promote[of r ?u "js_sort (\<lambda>a b. sortToasts (obj ?u a) (obj ?u b)) (queued_refs ?u)"]
    by (simp add: promoteFromQueue_def)
  then show ?thesis using vr(2) by (simp add: e transitionToDismissed_def Let_def)
qed (use assms in simp)

lemma insert_new_full:
  fixes b :: bool and p now :: int
  assumes full: "full_house m s"
    and t: "toast_obj_ok t" "tt_id t = k" "tt_state t = Toast_queued" "it_timer t = None"
  defines "s1 \<equiv> alloc k t s"
  defines "s2 \<equiv> if b then fst (preemptForError m now p s1) else s1"
  shows "full_house m (if int (visibleCount s2) < m then transitionToVisible now (length (tm_heap s)) s2 else s2)"
proof -
  let ?n = "length (tm_heap s)"
  note wf = full_wf[OF full]
  have wf1: "toast_wf s1" unfolding s1_def using wf t by (intro wf_alloc(1)) auto
  define old where "old = (case map_get (tm_toasts s) k of None \<Rightarrow> {} | Some r \<Rightarrow> {r})"
  have R: "set (refs s1) = insert ?n (set (refs s) - old)"
    using wf_alloc(2)[OF wf t(1,2)] t(4) by (auto simp: s1_def old_def split: option.splits)
  have st1: "st s1 ?n = Toast_queued" "\<And>x. x < ?n \<Longrightarrow> st s1 x = st s x"
    using t(3) by (simp_all add: s1_def st_alloc)
  have lt: "\<And>x. x \<in> set (refs s) \<Longrightarrow> x < ?n" using wf_ref[OF wf] by blast
  have vis1: "vis s1 = vis s - old" "queue s1 = insert ?n (queue s - old)"
    using R st1 lt by (auto simp: vis_def queue_def)
  have cardold: "card (vis s) \<le> Suc (card (vis s1))" "card (vis s1) \<le> card (vis s)"
    unfolding vis1 old_def by (auto split: option.split simp: card_Diff_singleton_if)
  have b1: "bounded m s1" using wf1 full cardold(2) by (auto simp: full_house_def bounded_def)
  have b2: "bounded m s2" "s2 = s1 \<or> full_house m s2"
    using preempt_bounded[OF b1] b1 by (auto simp: s2_def)
  have r2: "refs s2 = refs s1" "length (tm_heap s2) = Suc ?n" by (simp_all add: s2_def s1_def)
  have n2: "?n \<in> set (refs s2)" "?n < length (tm_heap s2)" using r2 R by simp_all
  have nd: "st s2 ?n \<noteq> Toast_dismissed"
    using preempt_keeps[OF b1, of ?n] st1(1) by (simp add: s2_def s1_def)
  have wf2: "toast_wf s2" using b2(1) by (simp add: bounded_def)
  show ?thesis
  proof (cases "int (visibleCount s2) < m")
    case False
    then show ?thesis using b2(1) visibleCount_card[OF wf2] by (simp add: full_house_def)
  next
    case True
    let ?s3 = "transitionToVisible now ?n s2"
    have c2: "int (card (vis s2)) < m" using True visibleCount_card[OF wf2] by simp
    have v3: "vis ?s3 = insert ?n (vis s2)" "queue ?s3 = queue s2 - {?n}" using vis_visible[OF n2] by auto
    have b3: "bounded m ?s3"
      using wf_visible[OF wf2 n2(2) nd] c2 v3(1) by (simp add: bounded_def card_insert_if)
    have "m \<le> int (card (vis ?s3))" if q: "queue ?s3 \<noteq> {}"
    proof (cases "s2 = s1")
      case False
      with b2(2) c2 have "queue s2 = {}" by (auto simp: full_house_def)
      with q v3(2) show ?thesis by simp
    next
      case True
      with q v3(2) vis1(2) have "queue s \<noteq> {}" by auto
      with full have "m \<le> int (card (vis s))" by (simp add: full_house_def)
      moreover have "?n \<notin> vis s2" using True st1(1) by (simp add: vis_def)
      ultimately show ?thesis using True v3(1) cardold(1) by simp
    qed
    with b3 True show ?thesis by (simp add: full_house_def)
  qed
qed

lemma full_idCounter [simp]: "full_house m (s\<lparr>tm_idCounter := c\<rparr>) = full_house m s"
  by (simp add: full_house_def bounded_def toast_wf_def pending_ok_def registry_ok_def refs_def vis_def queue_def)

lemma notify_new_full:
  assumes "full_house (to_maxVisible opts) s"
  shows "full_house (to_maxVisible opts) (fst (notify_new opts d now s))"
proof -
  obtain k s0 where k: "(case dd_id d of Some k \<Rightarrow> (k, s)
      | None \<Rightarrow> (to_generateId opts (Suc (tm_idCounter s)), s\<lparr>tm_idCounter := Suc (tm_idCounter s)\<rparr>)) = (k, s0)"
    by (metis surj_pair)
  then have "full_house (to_maxVisible opts) s0" using assms by (auto split: option.splits)
  then show ?thesis
    using insert_new_full[of "to_maxVisible opts" s0 "fresh_toast k d now" k
        "SEVERITY_PRIORITY (dd_severity d) = SEVERITY_PRIORITY Sev_error" now "SEVERITY_PRIORITY (dd_severity d)"]
    unfolding notify_new_def k Let_def by (auto simp: fresh_toast_def toast_obj_ok_def split_def)
qed

text \<open>The remaining operations.\<close>

lemma toast_notify_full:
  "full_house (to_maxVisible opts) s \<Longrightarrow> full_house (to_maxVisible opts) (fst (toast_notify opts d now s))"
  by (auto simp: toast_notify_def findByDedupKey_def notify_new_full dest!: find_Some_in
      intro: notify_replace_full split: option.split)

lemma get_ref: "map_get (tm_toasts s) k = Some r \<Longrightarrow> r \<in> set (refs s)"
  by (auto simp: refs_def dest: map_of_SomeD intro: image_eqI[where x = "(k, r)"])

lemma toast_dismiss_full:
  "full_house (to_maxVisible opts) s \<Longrightarrow> full_house (to_maxVisible opts) (fst (toast_dismiss opts k now s))"
  by (auto simp: toast_dismiss_def full_bounded get_ref wf_ref[OF full_wf] intro!: dismissed_full split: option.split)

lemma dismissAll_loop:
  assumes "toast_wf s" and "set rs \<subseteq> set (refs s)"
  defines "s' \<equiv> fold (\<lambda>r s. if st s r \<noteq> Toast_dismissed then mark_dismissed r s else s) rs s"
  shows "toast_wf s' \<and> refs s' = refs s \<and> (\<forall>x. st s' x = (if x \<in> set rs then Toast_dismissed else st s x))"
  using assms(1,2) unfolding s'_def
proof (induction rs arbitrary: s)
  case (Cons r rs)
  let ?s = "if st s r \<noteq> Toast_dismissed then mark_dismissed r s else s"
  have r: "r < length (tm_heap s)" using Cons.prems by (simp add: wf_ref)
  then have "toast_wf ?s" "refs ?s = refs s" "st ?s x = (if x = r then Toast_dismissed else st s x)" for x
    using Cons.prems(1) by (simp_all add: wf_mark_dismissed mark_dismissed_st)
  with Cons.IH[of ?s] Cons.prems(2) show ?case by (cases "st s r = Toast_dismissed") auto
qed simp

lemma toast_dismissAll_full:
  assumes "full_house m s"
  shows "full_house m (fst (toast_dismissAll s))"
proof -
  note d = dismissAll_loop[OF full_wf[OF assms], of "refs s", simplified]
  then have "vis (fst (toast_dismissAll s)) = {}" "queue (fst (toast_dismissAll s)) = {}"
    by (auto simp: toast_dismissAll_def Let_def vis_def queue_def)
  with d show ?thesis by (auto simp: full_house_def bounded_def toast_dismissAll_def Let_def)
qed

lemma pause_toast_st:
  "r < length (tm_heap s) \<Longrightarrow> st (pause_toast now r s) x = st s x \<and> refs (pause_toast now r s) = refs s"
  by (simp add: pause_toast_def Let_def clearTimer_obj obj_put)

lemma pause_comm:
  "(t :: internal_toast)\<lparr>it_pausedRemaining := a, it_timer := b\<rparr> = t\<lparr>it_timer := b, it_pausedRemaining := a\<rparr>"
  by simp

lemma wf_pause_toast:
  assumes wf: "toast_wf s" and r: "r < length (tm_heap s)"
  shows "toast_wf (pause_toast now r s)"
proof (cases "st s r \<noteq> Toast_visible \<or> it_timer (obj s r) = None")
  case False
  then obtain h where h: "it_timer (obj s r) = Some h" "st s r = Toast_visible" by auto
  let ?p = "Some (max 0 (tt_duration (obj s r) - (now - it_runStartedAt (obj s r))))"
  let ?s = "s\<lparr>tm_pending := map_del h (tm_pending s)\<rparr>"
  have "pause_toast now r s = put r ((obj (clearTimer r s) r)\<lparr>it_pausedRemaining := ?p\<rparr>) (clearTimer r s)"
    using h r by (simp add: pause_toast_def clearTimer_def put_def pause_comm)
  moreover have "toast_wf \<dots>"
    using wf_clearTimer[OF wf r] r h
    by (intro wf_put) (auto simp: clearTimer_obj toast_obj_ok_def)
  ultimately show ?thesis by simp
qed (use wf in \<open>simp add: pause_toast_def\<close>)

lemma pause_toast_full:
  assumes "full_house m s" and "r \<in> set (refs s)"
  shows "full_house m (pause_toast now r s)"
proof -
  have r: "r < length (tm_heap s)" using wf_ref[OF full_wf] assms by blast
  with full_wf[OF assms(1)] show ?thesis
    by (intro full_same[OF assms(1)]) (auto simp: wf_pause_toast vis_def queue_def pause_toast_st)
qed

lemma pause_loop_full:
  "full_house m s \<Longrightarrow> set rs \<subseteq> set (refs s) \<Longrightarrow> full_house m (fold (pause_toast now) rs s)"
proof (induction rs arbitrary: s)
  case (Cons r rs)
  moreover have "refs (pause_toast now r s) = refs s"
    using Cons.prems wf_ref[OF full_wf] pause_toast_st by (meson list.set_intros(1) subsetD)
  ultimately show ?case by (simp add: pause_toast_full)
qed simp

lemma transition_refs [simp]: "refs (fst (transitionToDismissed m now r u)) = refs u"
proof -
  have "refs (fst (promote_loop m now rs u)) = refs u" for rs u
    by (induction rs arbitrary: u) (simp_all add: Let_def)
  then show ?thesis by (simp add: transitionToDismissed_def Let_def promoteFromQueue_def)
qed

lemma resume_toast_full:
  assumes full: "full_house (to_maxVisible opts) s" and r: "r \<in> set (refs s)"
  shows "full_house (to_maxVisible opts) (fst (resume_toast opts now r s)) \<and>
         refs (fst (resume_toast opts now r s)) = refs s"
proof (cases "st s r = Toast_visible \<and> it_pausedRemaining (obj s r) \<noteq> None")
  case True
  then obtain p where p: "it_pausedRemaining (obj s r) = Some p" "st s r = Toast_visible" by auto
  let ?s = "put r ((obj s r)\<lparr>it_pausedRemaining := None\<rparr>) s"
  note wf = full_wf[OF full]
  have len: "r < length (tm_heap s)" using wf r by (rule wf_ref)
  have nt: "it_timer (obj s r) = None" using wf_obj[OF wf len] p by (simp add: toast_obj_ok_def)
  have wf1: "toast_wf ?s"
    using wf len wf_idle[OF wf nt] nt by (intro wf_put) (auto simp: toast_obj_ok_def)
  have st1: "st ?s x = st s x" for x using len by (simp add: obj_put)
  have f1: "full_house (to_maxVisible opts) ?s"
    using wf1 by (intro full_same[OF full]) (simp_all add: vis_def queue_def st1)
  have wf2: "toast_wf (startTimer now r p ?s)"
    using wf1 len p wf_idle[OF wf nt] by (intro wf_startTimer) (auto simp: obj_put)
  have "st (startTimer now r p ?s) x = st ?s x" for x using len by (intro startTimer_st) simp
  then have f2: "full_house (to_maxVisible opts) (startTimer now r p ?s)"
    using wf2 by (intro full_same[OF f1]) (simp_all add: vis_def queue_def)
  have f3: "full_house (to_maxVisible opts) (fst (transitionToDismissed (to_maxVisible opts) now r ?s))"
    using f1 len p by (intro dismissed_full) (auto simp: full_bounded st1)
  show ?thesis using p f2 f3 by (simp add: resume_toast_def Let_def)
qed (use full in \<open>auto simp: resume_toast_def split: option.split\<close>)

lemma resume_loop_full:
  "full_house (to_maxVisible opts) s \<Longrightarrow> set rs \<subseteq> set (refs s) \<Longrightarrow>
   full_house (to_maxVisible opts) (fst (resume_loop opts now rs s))"
  by (induction rs arbitrary: s) (simp_all add: resume_toast_full)

lemma fire_pending:
  assumes wf: "toast_wf s" and p: "map_get (tm_pending s) h = Some (r, due)"
  shows "toast_wf (put r ((obj s r)\<lparr>it_timer := None\<rparr>) (s\<lparr>tm_pending := map_del h (tm_pending s)\<rparr>))"
    and "r < length (tm_heap s)" and "st s r = Toast_visible" and "it_timer (obj s r) = Some h"
proof -
  have i: "r < length (tm_heap s)" "st s r = Toast_visible" "it_timer (obj s r) = Some h"
    using wf_pending[OF wf] map_of_SomeD[OF p] by blast+
  then show "r < length (tm_heap s)" "st s r = Toast_visible" "it_timer (obj s r) = Some h" by simp_all
  have "clearTimer r s = put r ((obj s r)\<lparr>it_timer := None\<rparr>) (s\<lparr>tm_pending := map_del h (tm_pending s)\<rparr>)"
    using i by (simp add: clearTimer_def)
  with wf_clearTimer[OF wf i(1)]
  show "toast_wf (put r ((obj s r)\<lparr>it_timer := None\<rparr>) (s\<lparr>tm_pending := map_del h (tm_pending s)\<rparr>))"
    by simp
qed

lemma toast_fire_full:
  assumes full: "full_house (to_maxVisible opts) s"
  shows "full_house (to_maxVisible opts) (fst (toast_fire opts h now s))"
proof (cases "map_get (tm_pending s) h")
  case (Some p)
  obtain r due where rd: "p = (r, due)" by (cases p)
  let ?s = "put r ((obj s r)\<lparr>it_timer := None\<rparr>) (s\<lparr>tm_pending := map_del h (tm_pending s)\<rparr>)"
  note f = fire_pending[OF full_wf[OF full] Some[unfolded rd]]
  have "st ?s x = st s x" "refs ?s = refs s" for x using f(2) by (simp_all add: put_def refs_def nth_list_update)
  then have "full_house (to_maxVisible opts) ?s"
    using f(1) by (intro full_same[OF full]) (simp_all add: vis_def queue_def)
  then show ?thesis using f(2) Some rd by (simp add: toast_fire_def dismissed_full full_bounded)
qed (use full in \<open>simp add: toast_fire_def\<close>)

lemma full_listeners [simp]: "full_house m (s\<lparr>tm_listeners := c\<rparr>) = full_house m s"
  by (simp add: full_house_def bounded_def toast_wf_def pending_ok_def registry_ok_def refs_def vis_def queue_def)

lemma toast_step_full:
  "full_house (to_maxVisible opts) s \<Longrightarrow> full_house (to_maxVisible opts) (fst (toast_step opts x s))"
  by (cases "(opts, x, s)" rule: toast_step.cases)
    (auto simp: toast_notify_full toast_dismiss_full toast_dismissAll_full toast_pause_def toast_pauseAll_def
      toast_resume_def toast_resumeAll_def toast_fire_full pause_toast_full pause_loop_full resume_toast_full
      resume_loop_full get_ref split: option.split)

interpretation toast_component: component "toast_step opts" "full_house (to_maxVisible opts)" "\<lambda>x. True"
  by unfold_locales (simp add: toast_step_full)

lemma full_create: "full_house m createToastManager"
  by (simp add: full_house_def bounded_def toast_wf_def pending_ok_def registry_ok_def createToastManager_def
      refs_def vis_def queue_def)

lemma toast_reachable_full: "toast_reachable opts c \<Longrightarrow> full_house (to_maxVisible opts) (fst c)"
proof (induction rule: toast_reachable.induct)
  case (Reach_step c c')
  from Reach_step(2) show ?case
    by (rule toast_sysE) (use Reach_step.IH in \<open>simp_all add: toast_step_full toast_fire_full del: toast_step.simps\<close>)
qed (simp add: full_create)

section \<open>Properties\<close>

lemma length_filter_js_sort: "length (filter P (js_sort c xs)) = length (filter P xs)"
  by (metis mset_filter mset_js_sort size_mset)

lemma snapshot_visible:
  "length (filter (\<lambda>t. tt_state t = Toast_visible) (toast_snapshot s)) = visibleCount s"
  by (simp add: toast_snapshot_def length_filter_js_sort filter_map comp_def visibleCount_def toast.defs)

text \<open>C6: The visibility bound. In every state the manager can reach, with calls at any time and
  timers firing in any order once due, at most \<open>maxVisible\<close> toasts of the snapshot are
  visible, and no toast waits in the queue while there is room for it.
\<close>

theorem toast_visible_bound:
  assumes "toast_reachable opts (s, now)" and "0 \<le> to_maxVisible opts"
  defines "visible \<equiv> int (length (filter (\<lambda>t. tt_state t = Toast_visible) (toast_snapshot s)))"
  shows "visible \<le> to_maxVisible opts \<and>
    (\<forall>t\<in>set (toast_snapshot s). tt_state t = Toast_queued \<longrightarrow> visible = to_maxVisible opts)"
proof -
  have full: "full_house (to_maxVisible opts) s" using toast_reachable_full[OF assms(1)] by simp
  then have v: "visible = int (card (vis s))"
    unfolding visible_def snapshot_visible using visibleCount_card full_wf by metis
  then have b: "visible \<le> to_maxVisible opts" using full assms(2) by (simp add: full_house_def bounded_def)
  have "queue s \<noteq> {}" if "t \<in> set (toast_snapshot s)" "tt_state t = Toast_queued" for t
    using that by (auto simp: toast_snapshot_def queue_def toast.defs)
  then show ?thesis using b v full unfolding full_house_def by fastforce
qed

definition demo_toast :: "string \<Rightarrow> toast_severity \<Rightarrow> toast_descriptor" where
  "demo_toast k sev = \<lparr>dd_id = None, dd_severity = sev, dd_message = k, dd_description = None,
     dd_action = None, dd_duration = None, dd_dedupKey = Some k\<rparr>"

definition demo_toast_options :: toast_options where
  "demo_toast_options = \<lparr>to_maxVisible = 1, to_generateId = nextDefaultId\<rparr>"

definition demo_toasts :: toasts where
  "demo_toasts = fst (run (toast_step demo_toast_options)
     [(0, Toast_notify (demo_toast ''a'' Sev_info)), (10, Toast_notify (demo_toast ''b'' Sev_warning)),
      (20, Toast_notify (demo_toast ''c'' Sev_error))] createToastManager)"

lemma reachable_call:
  "toast_reachable opts (s, now) \<Longrightarrow> now \<le> now' \<Longrightarrow> \<forall>h. x \<noteq> Toast_fire h \<Longrightarrow>
   toast_reachable opts (fst (toast_step opts (now', x) s), now')"
proof -
  assume a: "toast_reachable opts (s, now)" "now \<le> now'" "\<forall>h. x \<noteq> Toast_fire h"
  have "toast_reachable opts (s, now + (now' - now))"
    by (rule Reach_step[OF a(1) Sys_tick]) (use a(2) in simp)
  then have "toast_reachable opts (s, now')" by simp
  then show ?thesis using Sys_call[OF a(3)] by (rule Reach_step)
qed

fun calls_from :: "int \<Rightarrow> (int \<times> toast_op) list \<Rightarrow> bool" where
  "calls_from now [] = True"
| "calls_from now ((t, x) # xs) = (now \<le> t \<and> (case x of Toast_fire h \<Rightarrow> False | _ \<Rightarrow> True) \<and> calls_from t xs)"

lemma reachable_run:
  "toast_reachable opts (s, now) \<Longrightarrow> calls_from now xs \<Longrightarrow>
   toast_reachable opts (fst (run (toast_step opts) xs s), fold (\<lambda>x _. fst x) xs now)"
proof (induction now xs arbitrary: s rule: calls_from.induct)
  case (2 now t x xs)
  then have "toast_reachable opts (fst (toast_step opts (t, x) s), t)"
    by (intro reachable_call) (auto split: toast_op.splits)
  with 2 show ?case by (simp add: run_Cons del: run.simps(2) toast_step.simps)
qed simp

lemma demo_toasts_reachable: "toast_reachable demo_toast_options (demo_toasts, 20)"
  using reachable_run[OF Reach_init, of 0 "[(0, Toast_notify (demo_toast ''a'' Sev_info)),
      (10, Toast_notify (demo_toast ''b'' Sev_warning)), (20, Toast_notify (demo_toast ''c'' Sev_error))]"
      demo_toast_options]
  by (simp add: demo_toasts_def del: run.simps(2) toast_step.simps)

theorem toast_visible_bound_witness:
  "map (\<lambda>t. (tt_message t, tt_state t)) (toast_snapshot demo_toasts) =
     [(''c'', Toast_visible), (''b'', Toast_queued), (''a'', Toast_dismissed)] \<and>
   int (length (filter (\<lambda>t. tt_state t = Toast_visible) (toast_snapshot demo_toasts))) \<le> 1"
  using conjunct1[OF toast_visible_bound[OF demo_toasts_reachable]]
  by (simp add: demo_toast_options_def) code_simp

text \<open>A toast in the first segment of its life: its timer runs for the whole duration.\<close>

definition first_segment :: "toasts \<Rightarrow> string \<Rightarrow> nat \<Rightarrow> int \<Rightarrow> bool" where
  "first_segment s k r due \<longleftrightarrow> map_get (tm_toasts s) k = Some r \<and>
     due = it_runStartedAt (obj s r) + tt_duration (obj s r) \<and>
     (case it_timer (obj s r) of None \<Rightarrow> False | Some h \<Rightarrow> map_get (tm_pending s) h = Some (r, due))"

definition due_time :: "toasts \<Rightarrow> nat \<Rightarrow> int option" where
  "due_time s r = (case it_timer (obj s r) of None \<Rightarrow> None | Some h \<Rightarrow> map_option snd (map_get (tm_pending s) h))"

lemma pause_effect:
  assumes wf: "toast_wf s" and f: "first_segment s k r due"
  shows "fst (toast_pause k t1 s) = clearTimer r (put r ((obj s r)\<lparr>it_pausedRemaining := Some (max 0 (due - t1))\<rparr>) s)"
    and "r < length (tm_heap s)" and "st s r = Toast_visible"
proof -
  obtain h where h: "it_timer (obj s r) = Some h" "map_get (tm_pending s) h = Some (r, due)"
    using f by (auto simp: first_segment_def split: option.splits)
  then show v: "r < length (tm_heap s)" "st s r = Toast_visible"
    using wf_pending[OF wf, of h r due] map_of_SomeD by fastforce+
  have "due - t1 = tt_duration (obj s r) - (t1 - it_runStartedAt (obj s r))"
    using f by (simp add: first_segment_def)
  then show "fst (toast_pause k t1 s) = clearTimer r (put r ((obj s r)\<lparr>it_pausedRemaining := Some (max 0 (due - t1))\<rparr>) s)"
    using f v h(1) by (simp add: toast_pause_def pause_toast_def first_segment_def algebra_simps)
qed

lemma pause_resume_effect:
  fixes t2 :: int and opts :: toast_options
  assumes wf: "toast_wf s" and f: "first_segment s k r due" and t: "t1 < due"
  defines "s2 \<equiv> fst (toast_resume opts k t2 (fst (toast_pause k t1 s)))"
  shows "map_get (tm_toasts s2) k = Some r \<and> st s2 r = Toast_visible \<and> it_timer (obj s2 r) = Some (tm_handles s) \<and>
         it_runStartedAt (obj s2 r) = t2 \<and> tt_duration (obj s2 r) = tt_duration (obj s r) \<and>
         map_get (tm_pending s2) (tm_handles s) = Some (r, due + (t2 - t1)) \<and> length (tm_heap s2) = length (tm_heap s)"
proof -
  obtain h where h: "it_timer (obj s r) = Some h" "map_get (tm_pending s) h = Some (r, due)"
    using f by (auto simp: first_segment_def split: option.splits)
  note p = pause_effect[OF wf f]
  have H: "map_get (tm_pending s) (tm_handles s) = None"
  proof (rule ccontr)
    assume "\<not> ?thesis"
    then obtain q where "(tm_handles s, q) \<in> set (tm_pending s)" by (auto dest: map_of_SomeD)
    then show False using wf_pending[OF wf, of "tm_handles s" "fst q" "snd q"] by simp
  qed
  show ?thesis
    using f t p(2,3) h H unfolding s2_def p(1)
    by (simp add: toast_resume_def resume_toast_def first_segment_def clearTimer_def put_def startTimer_def
        nth_list_update map_add_def Let_def split: option.split)
qed

text \<open>One pause preserves the elapsed time. A visible toast that is paused before it is due
  and resumed later is due later by exactly the length of the pause.
\<close>

theorem toast_pause_resume:
  assumes "toast_reachable opts (s, now)" and "first_segment s k r due" and "t1 < due"
  shows "due_time (fst (toast_resume opts k t2 (fst (toast_pause k t1 s)))) r = Some (due + (t2 - t1))"
  using pause_resume_effect[OF full_wf[OF toast_reachable_full[OF assms(1), unfolded fst_conv]] assms(2,3), of opts t2]
  by (simp add: due_time_def)

text \<open>A second pause forgets the first segment. Pausing the resumed toast again measures only
  the time since the resume, so the time shown before the first pause comes back: the toast is
  left with \<open>t1 - runStartedAt\<close> more than it had.
\<close>

theorem toast_second_pause_forgets:
  fixes t2 :: int
  assumes "toast_reachable opts (s, now)" and "first_segment s k r due" and "t1 < due"
    and "t2 \<le> t3" and "t3 < due + (t2 - t1)" and "it_runStartedAt (obj s r) \<le> t1"
  defines "s2 \<equiv> fst (toast_resume opts k t2 (fst (toast_pause k t1 s)))"
  shows "it_pausedRemaining (obj (fst (toast_pause k t3 s2)) r) =
    Some ((the (due_time s2 r) - t3) + (t1 - it_runStartedAt (obj s r)))"
proof -
  note e = pause_resume_effect[OF full_wf[OF toast_reachable_full[OF assms(1), unfolded fst_conv]] assms(2,3), of opts t2,
      folded s2_def]
  have "r < length (tm_heap s)"
    using pause_effect(2)[OF full_wf[OF toast_reachable_full[OF assms(1), unfolded fst_conv]] assms(2)] .
  then have "it_pausedRemaining (obj (fst (toast_pause k t3 s2)) r) = Some (max 0 (tt_duration (obj s r) - (t3 - t2)))"
    using e by (simp add: toast_pause_def pause_toast_def clearTimer_def put_def)
  moreover have "due = it_runStartedAt (obj s r) + tt_duration (obj s r)"
    using assms(2) by (simp add: first_segment_def)
  ultimately show ?thesis using e assms(5,6) by (simp add: due_time_def)
qed

definition demo_single_toast :: toasts where
  "demo_single_toast = fst (run (toast_step demo_toast_options)
     [(100, Toast_notify (demo_toast ''a'' Sev_info))] createToastManager)"

lemma demo_single_reachable: "toast_reachable demo_toast_options (demo_single_toast, 100)"
  using reachable_run[OF Reach_init, of 0 "[(100, Toast_notify (demo_toast ''a'' Sev_info))]" demo_toast_options]
  by (simp add: demo_single_toast_def del: run.simps(2) toast_step.simps)

lemma demo_first_segment: "first_segment demo_single_toast ''toast-1'' 0 5100"
  by code_simp

theorem toast_pause_resume_witness:
  "due_time (fst (toast_resume demo_toast_options ''toast-1'' 3000
     (fst (toast_pause ''toast-1'' 1100 demo_single_toast)))) 0 = Some 7000"
  using toast_pause_resume[OF demo_single_reachable demo_first_segment, of 1100 3000] by simp

theorem toast_second_pause_forgets_witness:
  "it_pausedRemaining (obj (fst (toast_pause ''toast-1'' 3500
     (fst (toast_resume demo_toast_options ''toast-1'' 3000
       (fst (toast_pause ''toast-1'' 1100 demo_single_toast)))))) 0) = Some (3500 + 1000)"
proof -
  have "it_runStartedAt (obj demo_single_toast 0) = 100" by code_simp
  moreover have "due_time (fst (toast_resume demo_toast_options ''toast-1'' 3000
     (fst (toast_pause ''toast-1'' 1100 demo_single_toast)))) 0 = Some 7000" by code_simp
  ultimately show ?thesis
    using toast_second_pause_forgets[OF demo_single_reachable demo_first_segment, of 1100 3000 3500] by simp
qed

text \<open>A sticky toast that replaces a timed one keeps the old timer handle. If an error toast
  takes over the dedup key of a visible timed toast, then pausing and resuming it (a pointer
  passing over it) dismisses it, although sticky toasts have no timer to resume.
\<close>

theorem toast_sticky_lost_on_resume:
  fixes t0 t1 t2 t3 :: int
  assumes "0 < to_maxVisible opts" and "dd_id d = Some k" and "dd_dedupKey d = Some key" and "0 < duration_of d"
    and "dd_dedupKey d' = Some key" and "duration_of d' = 0" and "dd_severity d \<noteq> Sev_error" and "t0 \<le> t2"
  defines "s \<equiv> fst (run (toast_step opts) [(t0, Toast_notify d), (t1, Toast_notify d')] createToastManager)"
  defines "s' \<equiv> fst (run (toast_step opts) [(t2, Toast_pause k), (t3, Toast_resume k)] s)"
  shows "map tt_state (toast_snapshot s) = [Toast_visible] \<and> map tt_state (toast_snapshot s') = [Toast_dismissed]"
proof -
  have p: "SEVERITY_PRIORITY (dd_severity d) \<noteq> 4" using assms(7) by (cases "dd_severity d") auto
  have s: "tm_heap s = [(fresh_toast k d t0)\<lparr>tt_state := Toast_visible, it_runStartedAt := t0, it_timer := None\<rparr>,
      (replacement_for ((fresh_toast k d t0)\<lparr>tt_state := Toast_visible, it_runStartedAt := t0, it_timer := Some 0\<rparr>) d')]"
    "tm_toasts s = [(k, 1)]" "tm_pending s = []"
    unfolding s_def using assms(1-6) p
    by (simp_all add: run_Cons toast_notify_def findByDedupKey_def notify_new_def createToastManager_def alloc_def refs_def
        visibleCount_def transitionToVisible_def startTimer_def put_def fresh_toast_def notify_replace_def clearTimer_def
        replacement_for_def Let_def del: run.simps(2))
  have "map tt_state (toast_snapshot s) = [Toast_visible]"
    by (simp add: toast_snapshot_def refs_def s replacement_for_def toast.defs)
  moreover have "map tt_state (toast_snapshot s') = [Toast_dismissed]"
    unfolding s'_def using assms(6,8)
    by (simp add: run_Cons toast_pause_def toast_resume_def pause_toast_def resume_toast_def s clearTimer_def put_def
        replacement_for_def transitionToDismissed_def mark_dismissed_def promoteFromQueue_def queued_refs_def refs_def
        toast_snapshot_def toast.defs Let_def del: run.simps(2))
  ultimately show ?thesis by blast
qed

theorem toast_sticky_lost_on_resume_witness:
  "let d = (demo_toast ''a'' Sev_info)\<lparr>dd_id := Some ''x''\<rparr>; d' = demo_toast ''a'' Sev_error;
       s = fst (run (toast_step demo_toast_options) [(0, Toast_notify d), (10, Toast_notify d')] createToastManager);
       s' = fst (run (toast_step demo_toast_options) [(20, Toast_pause ''x''), (30, Toast_resume ''x'')] s)
   in map tt_state (toast_snapshot s) = [Toast_visible] \<and> map tt_state (toast_snapshot s') = [Toast_dismissed]"
  unfolding Let_def
  by (rule toast_sticky_lost_on_resume[where key = "''a''"])
    (simp_all add: demo_toast_def demo_toast_options_def duration_of_def)

end
