(* ===== verification/Toolbar.thy ===== *)
theory Toolbar
  imports Roving_Tabindex
begin

text \<open>
  \<open>headless-core/toolbar.ts\<close>: an action group on top of the rover. Buttons, toggles and radios
  are rover items; separators and group markers are not. The overflow split is computed from
  the container size and the measured widths, and measurements are coalesced by a timer.
\<close>

section \<open>Data\<close>

datatype toolbar_item_kind = Kind_button | Kind_toggle | Kind_radio | Kind_separator | Kind_group_start | Kind_group_end

record toolbar_item =
  ti_id :: string
  ti_kind :: toolbar_item_kind
  ti_label :: string
  ti_disabled :: bool
  ti_pressed :: bool
  ti_radioGroup :: "string option"
  ti_checked :: "bool option"
  ti_groupLabel :: "string option"
  ti_shortcut :: "string option"
  ti_action :: bool

datatype toolbar_orientation = Toolbar_horizontal | Toolbar_vertical

record toolbar_options =
  tlo_ariaLabel :: string
  tlo_orientation :: toolbar_orientation
  tlo_containerSize :: "rat option"
  tlo_overflowAt :: "int option"
  tlo_resizeThrottleMs :: int

record toolbar =
  tl_items :: "toolbar_item list"
  tl_containerSize :: "rat option"
  tl_itemWidths :: "(string, rat) jsmap"
  tl_overflowMenuOpen :: bool
  tl_pendingResize :: bool
  tl_resizeTimer :: "int option"
  tl_rover :: rover
  tl_listeners :: "listener jsset"

record toolbar_snapshot =
  tls_visibleItems :: "toolbar_item list"
  tls_overflowItems :: "toolbar_item list"
  tls_activeId :: "string option"
  tls_overflowMenuOpen :: bool

datatype toolbar_effect =
    Toolbar_onItemActivate string | Toolbar_action string | Toolbar_onToggle string bool
  | Toolbar_onRadioSelect string string | Toolbar_preventDefault

type_synonym toolbar_event = "(toolbar_snapshot, toolbar_effect) event"

record toolbar_root_props =
  trp_role :: string
  trp_ariaLabel :: string
  trp_ariaOrientation :: toolbar_orientation
  trp_tabIndex :: int

record toolbar_item_props =
  tip_id :: string
  tip_type :: "string option"
  tip_role :: "string option"
  tip_ariaPressed :: "bool option"
  tip_ariaChecked :: "bool option"
  tip_ariaDisabled :: "bool option"
  tip_ariaKeyshortcuts :: "string option"
  tip_tabIndex :: int
  tip_dataActive :: "string option"
  tip_dataPressed :: "string option"
  tip_dataChecked :: "string option"
  tip_onClick :: bool

record toolbar_overflow_trigger_props =
  otp_ariaLabel :: string
  otp_ariaHaspopup :: string
  otp_ariaExpanded :: bool
  otp_tabIndex :: int

section \<open>Operations\<close>

fun isRoveable :: "toolbar_item_kind \<Rightarrow> bool" where
  "isRoveable kind = (kind = Kind_button \<or> kind = Kind_toggle \<or> kind = Kind_radio)"

definition roveableSubset :: "toolbar_item list \<Rightarrow> rover_item list" where
  "roveableSubset arr =
     map (\<lambda>it. \<lparr>ri_id = ti_id it, ri_disabled = ti_disabled it, ri_text = Some (ti_label it)\<rparr>)
       (filter (\<lambda>it. isRoveable (ti_kind it)) arr)"

text \<open>The toolbar passes no \<open>onActiveChange\<close> and never subscribes to its rover.\<close>

definition toolbar_rover_options :: "toolbar_options \<Rightarrow> rover_options" where
  "toolbar_rover_options opts =
     \<lparr>ro_orientation = (case tlo_orientation opts of Toolbar_horizontal \<Rightarrow> Horizontal | Toolbar_vertical \<Rightarrow> Vertical),
      ro_loop = True, ro_activateOnFocus = False, ro_defaultActiveId = None,
      ro_typeaheadResetMs = 500, ro_hasOnActiveChange = False\<rparr>"

definition createToolbar :: "toolbar_options \<Rightarrow> toolbar_item list \<Rightarrow> toolbar" where
  "createToolbar opts items =
     \<lparr>tl_items = items, tl_containerSize = tlo_containerSize opts, tl_itemWidths = [],
      tl_overflowMenuOpen = False, tl_pendingResize = False, tl_resizeTimer = None,
      tl_rover = createRovingTabindex (toolbar_rover_options opts) (roveableSubset items),
      tl_listeners = []\<rparr>"

definition item_width :: "(string, rat) jsmap \<Rightarrow> toolbar_item \<Rightarrow> rat" where
  "item_width widths it = (case map_get widths (ti_id it) of None \<Rightarrow> 0 | Some w \<Rightarrow> w)"

text \<open>The cut of the width loop: the first item that no longer fits after \<open>cumulative\<close>.\<close>

fun width_cut :: "(string, rat) jsmap \<Rightarrow> rat \<Rightarrow> rat \<Rightarrow> toolbar_item list \<Rightarrow> nat" where
  "width_cut widths containerSize cumulative [] = 0"
| "width_cut widths containerSize cumulative (item # items) =
     (if cumulative + item_width widths item > containerSize then 0
      else Suc (width_cut widths containerSize (cumulative + item_width widths item) items))"

definition computeSplit :: "toolbar_options \<Rightarrow> toolbar \<Rightarrow> toolbar_item list \<times> toolbar_item list" where
  "computeSplit opts s =
     (let byWidth = (case tl_containerSize s of
            None \<Rightarrow> (tl_items s, [])
          | Some px \<Rightarrow>
              (let cut = width_cut (tl_itemWidths s) px 0 (tl_items s)
               in (take cut (tl_items s), drop cut (tl_items s)))) in
      case tlo_overflowAt opts of
        None \<Rightarrow> byWidth
      | Some n \<Rightarrow>
          if n \<ge> 0 then
            (let cut = nat (min n (int (length (tl_items s))))
             in (take cut (tl_items s), drop cut (tl_items s)))
          else byWidth)"

definition toolbar_snapshot_of :: "toolbar_options \<Rightarrow> toolbar \<Rightarrow> toolbar_snapshot" where
  "toolbar_snapshot_of opts s =
     (let (visible, overflow) = computeSplit opts s in
      \<lparr>tls_visibleItems = visible, tls_overflowItems = overflow,
       tls_activeId = rv_activeId (tl_rover s), tls_overflowMenuOpen = tl_overflowMenuOpen s\<rparr>)"

definition toolbar_emit :: "toolbar_options \<Rightarrow> toolbar \<Rightarrow> toolbar_event list" where
  "toolbar_emit opts s = emit_to (tl_listeners s) (toolbar_snapshot_of opts s)"

definition scheduleResizeEmit :: "toolbar_options \<Rightarrow> toolbar \<Rightarrow> toolbar" where
  "scheduleResizeEmit opts s =
     (if tl_pendingResize s then s
      else s\<lparr>tl_pendingResize := True, tl_resizeTimer := Some (tlo_resizeThrottleMs opts)\<rparr>)"

text \<open>The resize timer's callback.\<close>

definition toolbar_resizeTimeout :: "toolbar_options \<Rightarrow> toolbar \<Rightarrow> toolbar \<times> toolbar_event list" where
  "toolbar_resizeTimeout opts s =
     (if tl_resizeTimer s = None then (s, [])
      else (let s' = s\<lparr>tl_pendingResize := False, tl_resizeTimer := None\<rparr> in (s', toolbar_emit opts s')))"

definition findItem :: "string \<Rightarrow> toolbar \<Rightarrow> toolbar_item option" where
  "findItem k s = List.find (\<lambda>it. ti_id it = k) (tl_items s)"

text \<open>\<open>items = next; rover.setItems(roveableSubset(items))\<close>; the rover reports to nobody.\<close>

definition put_items :: "toolbar_options \<Rightarrow> toolbar_item list \<Rightarrow> toolbar \<Rightarrow> toolbar" where
  "put_items opts items s =
     s\<lparr>tl_items := items,
       tl_rover := fst (rover_setItems (toolbar_rover_options opts) (roveableSubset items) (tl_rover s))\<rparr>"

text \<open>\<open>replaceItem(id, { pressed })\<close>, its only use.\<close>

definition replaceItem :: "toolbar_options \<Rightarrow> string \<Rightarrow> bool \<Rightarrow> toolbar \<Rightarrow> toolbar" where
  "replaceItem opts k pressed s =
     put_items opts (map (\<lambda>it. if ti_id it = k then it\<lparr>ti_pressed := pressed\<rparr> else it) (tl_items s)) s"

definition toolbar_selectRadio :: "toolbar_options \<Rightarrow> string \<Rightarrow> toolbar \<Rightarrow> toolbar \<times> toolbar_event list" where
  "toolbar_selectRadio opts k s =
     (case findItem k s of
        None \<Rightarrow> (s, [])
      | Some target \<Rightarrow>
          if ti_kind target \<noteq> Kind_radio then (s, [])
          else if ti_disabled target then (s, [])
          else case ti_radioGroup target of
              None \<Rightarrow> (s, [])
            | Some g \<Rightarrow>
                (let next = map (\<lambda>it.
                       if ti_kind it \<noteq> Kind_radio \<or> ti_radioGroup it \<noteq> Some g then it
                       else if ti_checked it = Some (ti_id it = k) then it
                       else it\<lparr>ti_checked := Some (ti_id it = k)\<rparr>) (tl_items s);
                     s' = put_items opts next s
                 in (s', [Did (Toolbar_onRadioSelect g k)] @ toolbar_emit opts s')))"

definition run_action :: "toolbar_item \<Rightarrow> toolbar_event list" where
  "run_action item = (if ti_action item then [Did (Toolbar_action (ti_id item))] else [])"

definition toolbar_activate :: "toolbar_options \<Rightarrow> string \<Rightarrow> toolbar \<Rightarrow> toolbar \<times> toolbar_event list" where
  "toolbar_activate opts k s =
     (case findItem k s of
        None \<Rightarrow> (s, [])
      | Some item \<Rightarrow>
          if ti_disabled item then (s, [])
          else if \<not> isRoveable (ti_kind item) then (s, [])
          else if ti_kind item = Kind_button then (s, [Did (Toolbar_onItemActivate k)] @ run_action item)
          else if ti_kind item = Kind_toggle then
            (let nextPressed = (\<not> ti_pressed item);
                 s' = replaceItem opts k nextPressed s
             in (s', [Did (Toolbar_onToggle k nextPressed), Did (Toolbar_onItemActivate k)] @
                     run_action item @ toolbar_emit opts s'))
          else
            and_then (toolbar_selectRadio opts k s)
              (\<lambda>s'. (s', [Did (Toolbar_onItemActivate k)] @ run_action item)))"

definition toolbar_toggle :: "toolbar_options \<Rightarrow> string \<Rightarrow> toolbar \<Rightarrow> toolbar \<times> toolbar_event list" where
  "toolbar_toggle opts k s =
     (case findItem k s of
        None \<Rightarrow> (s, [])
      | Some item \<Rightarrow>
          if ti_kind item \<noteq> Kind_toggle then (s, [])
          else if ti_disabled item then (s, [])
          else
            (let nextPressed = (\<not> ti_pressed item);
                 s' = replaceItem opts k nextPressed s
             in (s', [Did (Toolbar_onToggle k nextPressed)] @ toolbar_emit opts s')))"

text \<open>What reaches the toolbar's caller from a rover call: only prevented defaults.\<close>

definition toolbar_rover_events :: "rover_event list \<Rightarrow> toolbar_event list" where
  "toolbar_rover_events es =
     map (\<lambda>_. Did Toolbar_preventDefault) (filter (\<lambda>x. x = Rover_preventDefault) (did es))"

definition toolbar_handleKeyDown :: "toolbar_options \<Rightarrow> key_event \<Rightarrow> toolbar \<Rightarrow> toolbar \<times> toolbar_event list" where
  "toolbar_handleKeyDown opts e s =
     (let forward =
        (let (r, es) = rover_handleKeyDown (toolbar_rover_options opts) e (tl_rover s)
         in (s\<lparr>tl_rover := r\<rparr>, toolbar_rover_events es)) in
      case rv_activeId (tl_rover s) of
        None \<Rightarrow> forward
      | Some a \<Rightarrow>
          if (ke_key e = ''Enter'' \<or> ke_key e = '' '') \<and> \<not> ke_meta e \<and> \<not> ke_ctrl e \<and> \<not> ke_alt e
          then after [Did Toolbar_preventDefault] (toolbar_activate opts a s)
          else forward)"

definition toolbar_setItems :: "toolbar_options \<Rightarrow> toolbar_item list \<Rightarrow> toolbar \<Rightarrow> toolbar \<times> toolbar_event list" where
  "toolbar_setItems opts nextItems s =
     (let s1 = put_items opts nextItems s;
          live = set_from (map ti_id nextItems);
          s2 = s1\<lparr>tl_itemWidths := filter (\<lambda>p. fst p \<in> set live) (tl_itemWidths s1)\<rparr>
      in (s2, toolbar_emit opts s2))"

definition toolbar_setContainerSize :: "toolbar_options \<Rightarrow> rat \<Rightarrow> toolbar \<Rightarrow> toolbar \<times> toolbar_event list" where
  "toolbar_setContainerSize opts px s = (scheduleResizeEmit opts (s\<lparr>tl_containerSize := Some px\<rparr>), [])"

definition toolbar_setItemWidth :: "toolbar_options \<Rightarrow> string \<Rightarrow> rat \<Rightarrow> toolbar \<Rightarrow> toolbar \<times> toolbar_event list" where
  "toolbar_setItemWidth opts k px s =
     (scheduleResizeEmit opts (s\<lparr>tl_itemWidths := map_set k px (tl_itemWidths s)\<rparr>), [])"

definition toolbar_openOverflowMenu :: "toolbar_options \<Rightarrow> toolbar \<Rightarrow> toolbar \<times> toolbar_event list" where
  "toolbar_openOverflowMenu opts s =
     (if tl_overflowMenuOpen s then (s, [])
      else (let s' = s\<lparr>tl_overflowMenuOpen := True\<rparr> in (s', toolbar_emit opts s')))"

definition toolbar_closeOverflowMenu :: "toolbar_options \<Rightarrow> toolbar \<Rightarrow> toolbar \<times> toolbar_event list" where
  "toolbar_closeOverflowMenu opts s =
     (if \<not> tl_overflowMenuOpen s then (s, [])
      else (let s' = s\<lparr>tl_overflowMenuOpen := False\<rparr> in (s', toolbar_emit opts s')))"

definition toolbar_getRootProps :: "toolbar_options \<Rightarrow> toolbar_root_props" where
  "toolbar_getRootProps opts =
     \<lparr>trp_role = ''toolbar'', trp_ariaLabel = tlo_ariaLabel opts,
      trp_ariaOrientation = tlo_orientation opts, trp_tabIndex = -1\<rparr>"

definition inert_props :: "string \<Rightarrow> string option \<Rightarrow> toolbar_item_props" where
  "inert_props k role =
     \<lparr>tip_id = k, tip_type = None, tip_role = role, tip_ariaPressed = None, tip_ariaChecked = None,
      tip_ariaDisabled = None, tip_ariaKeyshortcuts = None, tip_tabIndex = -1, tip_dataActive = None,
      tip_dataPressed = None, tip_dataChecked = None, tip_onClick = False\<rparr>"

definition toolbar_getItemProps :: "string \<Rightarrow> toolbar \<Rightarrow> toolbar_item_props" where
  "toolbar_getItemProps k s =
     (case findItem k s of
        None \<Rightarrow> inert_props k None
      | Some item \<Rightarrow>
          (let isActive = (rv_activeId (tl_rover s) = Some k);
               isDis = ti_disabled item;
               isRover = isRoveable (ti_kind item) in
           if ti_kind item = Kind_separator then inert_props k (Some ''separator'')
           else if ti_kind item = Kind_group_start \<or> ti_kind item = Kind_group_end then inert_props k None
           else
             (let togglePressed = (ti_kind item = Kind_toggle \<and> ti_pressed item);
                  radioChecked = (ti_kind item = Kind_radio \<and> ti_checked item = Some True) in
              \<lparr>tip_id = k, tip_type = Some ''button'', tip_role = None,
               tip_ariaPressed = (if ti_kind item = Kind_toggle then Some togglePressed else None),
               tip_ariaChecked = (if ti_kind item = Kind_radio then Some radioChecked else None),
               tip_ariaDisabled = (if isDis then Some True else None),
               tip_ariaKeyshortcuts = ti_shortcut item,
               tip_tabIndex = (if isRover \<and> isActive then 0 else -1),
               tip_dataActive = (if isRover \<and> isActive then Some [] else None),
               tip_dataPressed = (if togglePressed then Some [] else None),
               tip_dataChecked = (if radioChecked then Some [] else None),
               tip_onClick = (\<not> isDis)\<rparr>)))"

definition toolbar_getOverflowMenuTriggerProps :: "toolbar \<Rightarrow> toolbar_overflow_trigger_props" where
  "toolbar_getOverflowMenuTriggerProps s =
     \<lparr>otp_ariaLabel = ''More actions'', otp_ariaHaspopup = ''menu'',
      otp_ariaExpanded = tl_overflowMenuOpen s, otp_tabIndex = 0\<rparr>"

datatype toolbar_op =
    Toolbar_setItems "toolbar_item list" | Toolbar_setContainerSize rat | Toolbar_setItemWidth string rat
  | Toolbar_toggle string | Toolbar_selectRadio string | Toolbar_activate string
  | Toolbar_openOverflowMenu | Toolbar_closeOverflowMenu | Toolbar_keyDown key_event
  | Toolbar_overflowClick | Toolbar_resizeTimeout | Toolbar_typeaheadTimeout
  | Toolbar_subscribe listener | Toolbar_unsubscribe listener

fun toolbar_step :: "toolbar_options \<Rightarrow> toolbar_op \<Rightarrow> toolbar \<Rightarrow> toolbar \<times> toolbar_event list" where
  "toolbar_step opts (Toolbar_setItems items) s = toolbar_setItems opts items s"
| "toolbar_step opts (Toolbar_setContainerSize px) s = toolbar_setContainerSize opts px s"
| "toolbar_step opts (Toolbar_setItemWidth k px) s = toolbar_setItemWidth opts k px s"
| "toolbar_step opts (Toolbar_toggle k) s = toolbar_toggle opts k s"
| "toolbar_step opts (Toolbar_selectRadio k) s = toolbar_selectRadio opts k s"
| "toolbar_step opts (Toolbar_activate k) s = toolbar_activate opts k s"
| "toolbar_step opts Toolbar_openOverflowMenu s = toolbar_openOverflowMenu opts s"
| "toolbar_step opts Toolbar_closeOverflowMenu s = toolbar_closeOverflowMenu opts s"
| "toolbar_step opts (Toolbar_keyDown e) s = toolbar_handleKeyDown opts e s"
| "toolbar_step opts Toolbar_overflowClick s =
     (if tl_overflowMenuOpen s then toolbar_closeOverflowMenu opts s else toolbar_openOverflowMenu opts s)"
| "toolbar_step opts Toolbar_resizeTimeout s = toolbar_resizeTimeout opts s"
| "toolbar_step opts Toolbar_typeaheadTimeout s = (s\<lparr>tl_rover := typeahead_timeout (tl_rover s)\<rparr>, [])"
| "toolbar_step opts (Toolbar_subscribe l) s = (s\<lparr>tl_listeners := subscribe l (tl_listeners s)\<rparr>, [])"
| "toolbar_step opts (Toolbar_unsubscribe l) s = (s\<lparr>tl_listeners := unsubscribe l (tl_listeners s)\<rparr>, [])"

section \<open>The invariant\<close>

definition radio_ok :: "toolbar_item list \<Rightarrow> bool" where
  "radio_ok items \<longleftrightarrow> (\<forall>a\<in>set items. \<forall>b\<in>set items. ti_kind a = Kind_radio \<and> ti_kind b = Kind_radio \<and>
     ti_radioGroup a \<noteq> None \<and> ti_radioGroup a = ti_radioGroup b \<and>
     ti_checked a = Some True \<and> ti_checked b = Some True \<longrightarrow> ti_id a = ti_id b)"

definition toolbar_items_ok :: "toolbar_item list \<Rightarrow> bool" where
  "toolbar_items_ok items \<longleftrightarrow> distinct (map ti_id items) \<and> radio_ok items"

definition toolbar_ok :: "toolbar \<Rightarrow> bool" where
  "toolbar_ok s \<longleftrightarrow> toolbar_items_ok (tl_items s) \<and> rover_ok (tl_rover s) \<and>
     rv_items (tl_rover s) = roveableSubset (tl_items s)"

fun toolbar_legal :: "toolbar_op \<Rightarrow> bool" where
  "toolbar_legal (Toolbar_setItems items) = toolbar_items_ok items"
| "toolbar_legal _ = True"

lemma toolbar_ok_create: "toolbar_items_ok items \<Longrightarrow> toolbar_ok (createToolbar opts items)"
  by (simp add: toolbar_ok_def createToolbar_def rover_ok_create) (simp add: createRovingTabindex_def)

lemma toolbar_ok_put: "toolbar_items_ok items \<Longrightarrow> toolbar_ok (put_items opts items s)"
  by (simp add: toolbar_ok_def put_items_def rover_setItems_ok)

lemma put_items_simps [simp]:
  "tl_items (put_items opts items s) = items" "tl_listeners (put_items opts items s) = tl_listeners s"
  by (simp_all add: put_items_def)

text \<open>\<open>clash a b\<close>: two checked radios of one group. Updating items keeps a list free of clashes.\<close>

definition clash :: "toolbar_item \<Rightarrow> toolbar_item \<Rightarrow> bool" where
  "clash a b \<longleftrightarrow> ti_kind a = Kind_radio \<and> ti_kind b = Kind_radio \<and>
     ti_radioGroup a \<noteq> None \<and> ti_radioGroup a = ti_radioGroup b \<and>
     ti_checked a = Some True \<and> ti_checked b = Some True \<and> ti_id a \<noteq> ti_id b"

lemma radio_ok_clash: "radio_ok items \<longleftrightarrow> (\<forall>a\<in>set items. \<forall>b\<in>set items. \<not> clash a b)"
  unfolding radio_ok_def clash_def by blast

lemma items_ok_map:
  assumes "toolbar_items_ok items" and "\<And>it. ti_id (f it) = ti_id it"
    and c: "\<And>a b. clash (f a) (f b) \<Longrightarrow> clash a b"
  shows "toolbar_items_ok (map f items)"
proof -
  have "map ti_id (map f items) = map ti_id items" using assms(2) by simp
  moreover have "radio_ok (map f items)"
    using assms(1) c unfolding radio_ok_clash toolbar_items_ok_def by fastforce
  ultimately show ?thesis using assms(1) by (simp add: toolbar_items_ok_def del: map_map)
qed

lemma items_ok_pressed:
  "toolbar_items_ok items \<Longrightarrow> toolbar_items_ok (map (\<lambda>it. if P it then it\<lparr>ti_pressed := p\<rparr> else it) items)"
  by (erule items_ok_map) (auto simp: clash_def split: if_splits)

lemma toolbar_ok_replaceItem: "toolbar_ok s \<Longrightarrow> toolbar_ok (replaceItem opts k p s)"
  by (simp add: replaceItem_def toolbar_ok_put items_ok_pressed toolbar_ok_def[of s])

definition radio_update :: "string \<Rightarrow> string \<Rightarrow> toolbar_item \<Rightarrow> toolbar_item" where
  "radio_update g k it =
     (if ti_kind it \<noteq> Kind_radio \<or> ti_radioGroup it \<noteq> Some g then it
      else if ti_checked it = Some (ti_id it = k) then it
      else it\<lparr>ti_checked := Some (ti_id it = k)\<rparr>)"

lemma radio_update_simps [simp]:
  "ti_id (radio_update g k it) = ti_id it" "ti_kind (radio_update g k it) = ti_kind it"
  "ti_radioGroup (radio_update g k it) = ti_radioGroup it" "ti_label (radio_update g k it) = ti_label it"
  "ti_disabled (radio_update g k it) = ti_disabled it"
  "ti_checked (radio_update g k it) =
     (if ti_kind it = Kind_radio \<and> ti_radioGroup it = Some g then Some (ti_id it = k) else ti_checked it)"
  by (simp_all add: radio_update_def)

lemma toolbar_selectRadio_cases:
  obtains (ignored) "toolbar_selectRadio opts k s = (s, [])"
  | (selected) target g where "findItem k s = Some target" "ti_kind target = Kind_radio" "\<not> ti_disabled target"
      "ti_radioGroup target = Some g"
      "toolbar_selectRadio opts k s =
         (let s' = put_items opts (map (radio_update g k) (tl_items s)) s
          in (s', [Did (Toolbar_onRadioSelect g k)] @ toolbar_emit opts s'))"
proof -
  have u: "(\<lambda>it. if ti_kind it \<noteq> Kind_radio \<or> ti_radioGroup it \<noteq> Some g then it
                       else if ti_checked it = Some (ti_id it = k) then it
                       else it\<lparr>ti_checked := Some (ti_id it = k)\<rparr>) = radio_update g k" for g
    by (simp add: fun_eq_iff radio_update_def)
  show ?thesis
  proof (cases "findItem k s")
    case (Some target)
    show ?thesis
    proof (cases "ti_kind target = Kind_radio \<and> \<not> ti_disabled target \<and> ti_radioGroup target \<noteq> None")
      case True
      then obtain g where "ti_radioGroup target = Some g" by auto
      with True Some u selected[of target g] show ?thesis by (simp add: toolbar_selectRadio_def Let_def)
    next
      case False
      with Some ignored show ?thesis by (auto simp: toolbar_selectRadio_def)
    qed
  qed (use ignored in \<open>simp add: toolbar_selectRadio_def\<close>)
qed

lemma items_ok_radio: "toolbar_items_ok items \<Longrightarrow> toolbar_items_ok (map (radio_update g k) items)"
  by (erule items_ok_map) (auto simp: clash_def split: if_splits)

lemma toolbar_ok_selectRadio: "toolbar_ok s \<Longrightarrow> toolbar_ok (fst (toolbar_selectRadio opts k s))"
  by (rule toolbar_selectRadio_cases[of opts k s])
    (auto simp: Let_def toolbar_ok_put items_ok_radio toolbar_ok_def[of s])

lemma toolbar_ok_activate: "toolbar_ok s \<Longrightarrow> toolbar_ok (fst (toolbar_activate opts k s))"
  by (auto simp: toolbar_activate_def Let_def toolbar_ok_replaceItem toolbar_ok_selectRadio split: option.split)

lemma toolbar_ok_key: "toolbar_ok s \<Longrightarrow> toolbar_ok (fst (toolbar_handleKeyDown opts e s))"
proof -
  assume ok: "toolbar_ok s"
  have "rover_ok (fst (rover_handleKeyDown o' e (tl_rover s)))" "rv_items (fst (rover_handleKeyDown o' e (tl_rover s))) = rv_items (tl_rover s)"
    for o' using ok rv.key_ok[of "tl_rover s"] rv.key_items by (simp_all add: toolbar_ok_def)
  with ok show ?thesis
    by (auto simp: toolbar_handleKeyDown_def Let_def split_def toolbar_ok_activate toolbar_ok_def[of "tl_rover_update _ _"]
        toolbar_ok_def[of s] split: option.split)
qed

lemma scheduleResizeEmit_simps [simp]:
  "toolbar_ok (scheduleResizeEmit opts s) = toolbar_ok s" "tl_listeners (scheduleResizeEmit opts s) = tl_listeners s"
  "computeSplit opts (scheduleResizeEmit opts s) = computeSplit opts s"
  by (simp_all add: scheduleResizeEmit_def toolbar_ok_def computeSplit_def Let_def split: option.split)

lemma toolbar_ok_other [simp]:
  "toolbar_ok (s\<lparr>tl_containerSize := a\<rparr>) = toolbar_ok s" "toolbar_ok (s\<lparr>tl_itemWidths := b\<rparr>) = toolbar_ok s"
  "toolbar_ok (s\<lparr>tl_overflowMenuOpen := c\<rparr>) = toolbar_ok s"
  "toolbar_ok (s\<lparr>tl_listeners := d\<rparr>) = toolbar_ok s" "toolbar_ok (s\<lparr>tl_pendingResize := e, tl_resizeTimer := f\<rparr>) = toolbar_ok s"
  by (simp_all add: toolbar_ok_def)

lemma toolbar_ok_typeahead: "toolbar_ok s \<Longrightarrow> toolbar_ok (s\<lparr>tl_rover := typeahead_timeout (tl_rover s)\<rparr>)"
  by (auto simp: toolbar_ok_def typeahead_timeout_def clearTypeahead_def rover_ok_def)

lemma toolbar_step_ok: "toolbar_ok s \<Longrightarrow> toolbar_legal x \<Longrightarrow> toolbar_ok (fst (toolbar_step opts x s))"
  by (cases x)
    (auto simp: toolbar_setItems_def toolbar_setContainerSize_def toolbar_setItemWidth_def toolbar_toggle_def
      toolbar_openOverflowMenu_def toolbar_closeOverflowMenu_def toolbar_resizeTimeout_def Let_def
      toolbar_ok_put toolbar_ok_replaceItem toolbar_ok_selectRadio toolbar_ok_activate toolbar_ok_key
      toolbar_ok_typeahead split: option.split)

interpretation toolbar_component: component "toolbar_step opts" toolbar_ok toolbar_legal
  by unfold_locales (rule toolbar_step_ok)

lemmas toolbar_run_ok = toolbar_component.run_inv[OF toolbar_ok_create]

section \<open>Properties\<close>

lemma find_own_item:
  "toolbar_ok s \<Longrightarrow> it \<in> set (tl_items s) \<Longrightarrow> findItem (ti_id it) s = Some it"
  using find_key_unique[of ti_id "tl_items s" it]
  by (simp add: findItem_def toolbar_ok_def toolbar_items_ok_def)

text \<open>Radio groups. On a toolbar driven by any legal calls, choosing an enabled radio makes it
  the one checked radio of its group, as every radio's \<open>aria-checked\<close> shows, and no group ever
  has two checked radios.\<close>

theorem toolbar_radio_group:
  fixes xs :: "toolbar_op list" and opts :: toolbar_options
  assumes "toolbar_items_ok items" and "\<forall>x\<in>set xs. toolbar_legal x"
  defines "s \<equiv> fst (run (toolbar_step opts) xs (createToolbar opts items))"
  assumes "findItem k s = Some target" and "ti_kind target = Kind_radio" and "\<not> ti_disabled target"
    and "ti_radioGroup target = Some g"
  defines "s' \<equiv> fst (toolbar_selectRadio opts k s)"
  shows "radio_ok (tl_items s') \<and>
    (\<forall>it\<in>set (tl_items s'). ti_kind it = Kind_radio \<and> ti_radioGroup it = Some g \<longrightarrow>
       tip_ariaChecked (toolbar_getItemProps (ti_id it) s') = Some (ti_id it = k))"
proof -
  have ok: "toolbar_ok s" unfolding s_def by (rule toolbar_run_ok[OF assms(1,2)])
  then have ok': "toolbar_ok s'" unfolding s'_def by (rule toolbar_ok_selectRadio)
  have e: "tl_items s' = map (radio_update g k) (tl_items s)"
    using assms(4-7) by (rule_tac toolbar_selectRadio_cases[of opts k s])
      (auto simp: s'_def Let_def toolbar_selectRadio_def)
  have "tip_ariaChecked (toolbar_getItemProps (ti_id it) s') = Some (ti_id it = k)"
    if it: "it \<in> set (tl_items s')" "ti_kind it = Kind_radio" "ti_radioGroup it = Some g" for it
  proof -
    have "ti_checked it = Some (ti_id it = k)" using it unfolding e by auto
    then show ?thesis
      using it(2) find_own_item[OF ok' it(1)] by (simp add: toolbar_getItemProps_def Let_def)
  qed
  with ok' show ?thesis by (simp add: toolbar_ok_def toolbar_items_ok_def)
qed

definition demo_tool :: "string \<Rightarrow> toolbar_item_kind \<Rightarrow> toolbar_item" where
  "demo_tool k kind = \<lparr>ti_id = k, ti_kind = kind, ti_label = k, ti_disabled = False, ti_pressed = False,
     ti_radioGroup = (if kind = Kind_radio then Some ''g'' else None), ti_checked = None, ti_groupLabel = None,
     ti_shortcut = None, ti_action = False\<rparr>"

definition demo_tools :: "toolbar_item list" where
  "demo_tools = [demo_tool ''b'' Kind_button, demo_tool ''-'' Kind_separator, demo_tool ''r1'' Kind_radio,
     demo_tool ''r2'' Kind_radio]"

definition demo_toolbar_options :: toolbar_options where
  "demo_toolbar_options = \<lparr>tlo_ariaLabel = ''Tools'', tlo_orientation = Toolbar_horizontal, tlo_containerSize = None,
     tlo_overflowAt = None, tlo_resizeThrottleMs = 16\<rparr>"

lemma demo_tools_ok: "toolbar_items_ok demo_tools"
  by (simp add: toolbar_items_ok_def radio_ok_clash clash_def demo_tools_def demo_tool_def)

theorem toolbar_radio_group_witness:
  "let s = fst (run (toolbar_step demo_toolbar_options) [Toolbar_selectRadio ''r1''] (createToolbar demo_toolbar_options demo_tools))
   in radio_ok (tl_items (fst (toolbar_selectRadio demo_toolbar_options ''r2'' s)))"
proof -
  let ?s = "fst (run (toolbar_step demo_toolbar_options) [Toolbar_selectRadio ''r1''] (createToolbar demo_toolbar_options demo_tools))"
  have f: "case findItem ''r2'' ?s of None \<Rightarrow> False | Some it \<Rightarrow>
      ti_kind it = Kind_radio \<and> \<not> ti_disabled it \<and> ti_radioGroup it = Some ''g''"
    by code_simp
  then obtain it where "findItem ''r2'' ?s = Some it" "ti_kind it = Kind_radio" "\<not> ti_disabled it" "ti_radioGroup it = Some ''g''"
    by (cases "findItem ''r2'' ?s") simp_all
  then show ?thesis
    using toolbar_radio_group[OF demo_tools_ok, where xs = "[Toolbar_selectRadio ''r1'']" and opts = demo_toolbar_options
        and k = "''r2''" and target = it and g = "''g''"]
    unfolding Let_def by simp
qed

lemma width_cut_spec:
  fixes w :: "(string, rat) jsmap" and items :: "toolbar_item list"
  assumes "c \<le> px"
  defines "n \<equiv> width_cut w px c items"
  shows "n \<le> length items \<and> c + sum_list (map (item_width w) (take n items)) \<le> px \<and>
    (n < length items \<longrightarrow> px < c + sum_list (map (item_width w) (take n items)) + item_width w (items ! n))"
  using assms(1) unfolding n_def
proof (induction w px c items rule: width_cut.induct)
  case (2 w px c item items)
  then show ?case by (cases "c + item_width w item > px") (auto simp: not_less ac_simps)
qed simp

text \<open>The overflow split. The visible and the overflow items are the items in order, cut in two;
  with a container size and no manual cut, the visible ones fit into the container and the next
  item would not.\<close>

theorem toolbar_split_maximal:
  assumes "tlo_overflowAt opts = None" and "tl_containerSize s = Some px" and "0 \<le> px"
  shows "case computeSplit opts s of (visible, overflow) \<Rightarrow>
    visible @ overflow = tl_items s \<and>
    sum_list (map (item_width (tl_itemWidths s)) visible) \<le> px \<and>
    (overflow \<noteq> [] \<longrightarrow>
       px < sum_list (map (item_width (tl_itemWidths s)) visible) + item_width (tl_itemWidths s) (hd overflow))"
  using assms width_cut_spec[of 0 px "tl_itemWidths s" "tl_items s"]
  by (simp add: computeSplit_def Let_def hd_drop_conv_nth)

theorem toolbar_split_maximal_witness:
  "let s = fst (run (toolbar_step demo_toolbar_options)
        [Toolbar_setContainerSize 100, Toolbar_setItemWidth ''b'' 60, Toolbar_setItemWidth ''r1'' 50]
        (createToolbar demo_toolbar_options demo_tools))
   in map ti_id (fst (computeSplit demo_toolbar_options s)) = [''b'', ''-''] \<and>
      sum_list (map (item_width (tl_itemWidths s)) (fst (computeSplit demo_toolbar_options s))) \<le> 100"
proof -
  let ?s = "fst (run (toolbar_step demo_toolbar_options)
        [Toolbar_setContainerSize 100, Toolbar_setItemWidth ''b'' 60, Toolbar_setItemWidth ''r1'' 50]
        (createToolbar demo_toolbar_options demo_tools))"
  have "map ti_id (fst (computeSplit demo_toolbar_options ?s)) = [''b'', ''-'']"
    "tlo_overflowAt demo_toolbar_options = None" "tl_containerSize ?s = Some 100" by code_simp+
  with toolbar_split_maximal[of demo_toolbar_options ?s 100] show ?thesis
    unfolding Let_def by (simp add: split_def)
qed

text \<open>One tab stop. On a toolbar driven by any legal calls, exactly one item's props carry
  \<open>tabIndex: 0\<close> - a button, toggle or radio that is enabled - or none if there is no such item.\<close>

theorem toolbar_single_tab_stop:
  fixes xs :: "toolbar_op list" and opts :: toolbar_options
  assumes "toolbar_items_ok items" and "\<forall>x\<in>set xs. toolbar_legal x"
  defines "s \<equiv> fst (run (toolbar_step opts) xs (createToolbar opts items))"
  shows "length (filter (\<lambda>it. tip_tabIndex (toolbar_getItemProps (ti_id it) s) = 0) (tl_items s)) =
    (if \<exists>it\<in>set (tl_items s). isRoveable (ti_kind it) \<and> \<not> ti_disabled it then 1 else 0)"
proof -
  have ok: "toolbar_ok s" unfolding s_def by (rule toolbar_run_ok[OF assms(1,2)])
  let ?act = "rv_activeId (tl_rover s)"
  have p: "tip_tabIndex (toolbar_getItemProps (ti_id it) s) = 0 \<longleftrightarrow> isRoveable (ti_kind it) \<and> ?act = Some (ti_id it)"
    if "it \<in> set (tl_items s)" for it
    using find_own_item[OF ok that] by (auto simp: toolbar_getItemProps_def Let_def inert_props_def)
  have r: "rv_items (tl_rover s) = roveableSubset (tl_items s)" "rover_ok (tl_rover s)"
    and d: "distinct (map ti_id (tl_items s))"
    using ok by (simp_all add: toolbar_ok_def toolbar_items_ok_def)
  have "map ri_id (roveableSubset (tl_items s)) = map ti_id (filter (\<lambda>it. isRoveable (ti_kind it)) (tl_items s))"
    by (simp add: roveableSubset_def comp_def)
  with d have "distinct (map ri_id (rv_items (tl_rover s)))" by (simp add: r(1) distinct_map_filter)
  from rv.tab_stops[OF r(2) this]
  have "length (filter (\<lambda>it. ?act = Some (ri_id it)) (roveableSubset (tl_items s))) =
    (if \<exists>it\<in>set (roveableSubset (tl_items s)). isEnabled it then 1 else 0)"
    by (simp add: r(1))
  moreover have "length (filter (\<lambda>it. ?act = Some (ri_id it)) (roveableSubset arr)) =
      length (filter (\<lambda>it. isRoveable (ti_kind it) \<and> ?act = Some (ti_id it)) arr)" for arr
    by (induction arr) (auto simp: roveableSubset_def)
  moreover have "(\<exists>it\<in>set (roveableSubset arr). isEnabled it) \<longleftrightarrow> (\<exists>it\<in>set arr. isRoveable (ti_kind it) \<and> \<not> ti_disabled it)" for arr
    by (auto simp: roveableSubset_def isEnabled_def)
  moreover have "filter (\<lambda>it. tip_tabIndex (toolbar_getItemProps (ti_id it) s) = 0) (tl_items s) =
      filter (\<lambda>it. isRoveable (ti_kind it) \<and> ?act = Some (ti_id it)) (tl_items s)"
    by (rule filter_cong) (simp_all add: p)
  ultimately show ?thesis by simp
qed

theorem toolbar_single_tab_stop_witness:
  "let s = fst (run (toolbar_step demo_toolbar_options) [Toolbar_selectRadio ''r1''] (createToolbar demo_toolbar_options demo_tools))
   in length (filter (\<lambda>it. tip_tabIndex (toolbar_getItemProps (ti_id it) s) = 0) (tl_items s)) = 1"
proof -
  let ?s = "fst (run (toolbar_step demo_toolbar_options) [Toolbar_selectRadio ''r1''] (createToolbar demo_toolbar_options demo_tools))"
  have "list_ex (\<lambda>it. isRoveable (ti_kind it) \<and> \<not> ti_disabled it) (tl_items ?s)" by code_simp
  then have ex: "\<exists>it\<in>set (tl_items ?s). isRoveable (ti_kind it) \<and> \<not> ti_disabled it" by (simp add: list_ex_iff)
  have "\<forall>x\<in>set [Toolbar_selectRadio ''r1'']. toolbar_legal x" by simp
  from toolbar_single_tab_stop[OF demo_tools_ok this, of demo_toolbar_options] show ?thesis
    unfolding Let_def using ex by (simp only: if_True)
qed

fun is_resize :: "toolbar_op \<Rightarrow> bool" where
  "is_resize (Toolbar_setContainerSize px) = True"
| "is_resize (Toolbar_setItemWidth k px) = True"
| "is_resize _ = False"

text \<open>Resize storms are coalesced. However many size and width measurements arrive, nothing is
  sent until the throttle timer fires; then every listener gets one snapshot, and it shows the
  final layout.\<close>

theorem toolbar_resize_coalesced:
  assumes "xs \<noteq> []" and "\<forall>x\<in>set xs. is_resize x" and "tl_pendingResize s \<longleftrightarrow> tl_resizeTimer s \<noteq> None"
  shows "snd (run (toolbar_step opts) xs s) = [] \<and>
    sent (snd (run (toolbar_step opts) (xs @ [Toolbar_resizeTimeout]) s)) =
      deliver (tl_listeners s) (toolbar_snapshot_of opts (fst (run (toolbar_step opts) xs s)))"
proof -
  have pend: "tl_pendingResize t \<longleftrightarrow> tl_resizeTimer t \<noteq> None \<Longrightarrow> is_resize x \<Longrightarrow>
      snd (toolbar_step opts x t) = [] \<and> tl_pendingResize (fst (toolbar_step opts x t)) \<and>
      tl_resizeTimer (fst (toolbar_step opts x t)) \<noteq> None \<and>
      tl_listeners (fst (toolbar_step opts x t)) = tl_listeners t" for x t
    by (cases x) (auto simp: toolbar_setContainerSize_def toolbar_setItemWidth_def scheduleResizeEmit_def)
  have r: "snd (run (toolbar_step opts) xs t) = [] \<and> tl_resizeTimer (fst (run (toolbar_step opts) xs t)) \<noteq> None \<and>
      tl_listeners (fst (run (toolbar_step opts) xs t)) = tl_listeners t"
    if "tl_pendingResize t \<longleftrightarrow> tl_resizeTimer t \<noteq> None" "xs \<noteq> [] \<or> tl_resizeTimer t \<noteq> None" for t
    using assms(2) that
  proof (induction xs arbitrary: t)
    case (Cons x xs)
    then show ?case using pend[of t x] by (simp add: run_Cons del: run.simps(2) toolbar_step.simps)
  qed simp
  let ?t = "fst (run (toolbar_step opts) xs s)"
  have v: "toolbar_snapshot_of opts (?t\<lparr>tl_pendingResize := False, tl_resizeTimer := None\<rparr>) = toolbar_snapshot_of opts ?t"
    by (simp add: toolbar_snapshot_of_def computeSplit_def Let_def split: option.split)
  from r[of s] assms(1,3) v show ?thesis
    by (auto simp: run_append toolbar_resizeTimeout_def toolbar_emit_def Let_def run_Cons)
qed

theorem toolbar_resize_coalesced_witness:
  "sent (snd (run (toolbar_step demo_toolbar_options)
      ([Toolbar_setContainerSize 100, Toolbar_setItemWidth ''b'' 60] @ [Toolbar_resizeTimeout])
      (fst (toolbar_step demo_toolbar_options (Toolbar_subscribe 7) (createToolbar demo_toolbar_options demo_tools))))) =
   deliver [7] (toolbar_snapshot_of demo_toolbar_options (fst (run (toolbar_step demo_toolbar_options)
      [Toolbar_setContainerSize 100, Toolbar_setItemWidth ''b'' 60]
      (fst (toolbar_step demo_toolbar_options (Toolbar_subscribe 7) (createToolbar demo_toolbar_options demo_tools))))))"
proof -
  let ?s = "fst (toolbar_step demo_toolbar_options (Toolbar_subscribe 7) (createToolbar demo_toolbar_options demo_tools))"
  have s: "tl_pendingResize ?s \<longleftrightarrow> tl_resizeTimer ?s \<noteq> None" "tl_listeners ?s = [7]"
    by (simp_all add: createToolbar_def subscribe_def set_add_def)
  from conjunct2[OF toolbar_resize_coalesced[OF _ _ s(1),
      of "[Toolbar_setContainerSize 100, Toolbar_setItemWidth ''b'' 60]" demo_toolbar_options]]
  show ?thesis unfolding s(2) by simp
qed

end
