(* ===== verification/Menu.thy ===== *)
theory Menu
  imports Roving_Tabindex
begin

text \<open>
  \<open>headless-core/menu.ts\<close>: menus with submenus, and context menus. A menu is a tree: every item
  with nested items owns a child controller, which only its parent can reach
  (\<open>_openImmediate\<close>, \<open>close\<close>). A node keeps its own state in a record; the children hang
  below it. The two delays are pending timers in that record.
\<close>

section \<open>Data\<close>

datatype menu_placement =
    Bottom_start | Bottom_end | Top_start | Top_end | Right_start | Right_end | Left_start | Left_end

datatype menu_item =
  Menu_item (mi_id: string) (mi_label: string) (mi_disabled: bool) (mi_shortcut: "string option")
    (mi_items: "menu_item list option") (mi_separator: bool)

datatype menu_orientation = Menu_vertical | Menu_horizontal

text \<open>The options a controller closes over, \<open>parentItemId\<close> and the optional callbacks included.\<close>

record menu_options =
  mo_id :: string
  mo_items :: "menu_item list"
  mo_placement :: menu_placement
  mo_orientation :: menu_orientation
  mo_loop :: bool
  mo_openDelay :: int
  mo_closeDelay :: int
  mo_parentItemId :: "string option"
  mo_hasOnOpenChange :: bool
  mo_hasOnChainSelect :: bool

record menu_node =
  mn_opts :: menu_options
  mn_isOpen :: bool
  mn_openSubmenuId :: "string option"
  mn_openTimer :: "(string \<times> int) option"
  mn_closeTimer :: "int option"
  mn_rover :: rover
  mn_listeners :: "listener jsset"

datatype menu = Menu (mnode: menu_node) (msubs: "(string \<times> menu) list")

record menu_snapshot =
  ms_isOpen :: bool
  ms_activeId :: "string option"
  ms_openPath :: "string list"

datatype menu_effect =
    Menu_onSelect string "string list" | Menu_onChainSelect "string list" | Menu_onOpenChange bool
  | Menu_preventDefault

type_synonym menu_event = "(menu_snapshot, menu_effect) event"

record menu_trigger_props =
  mtp_ariaHaspopup :: string
  mtp_ariaExpanded :: bool
  mtp_ariaControls :: string

record menu_props =
  mp_id :: string
  mp_role :: string
  mp_ariaOrientation :: menu_orientation
  mp_tabIndex :: int

record menu_item_props =
  mip_id :: string
  mip_role :: string
  mip_tabIndex :: int
  mip_ariaDisabled :: "bool option"
  mip_ariaHaspopup :: "string option"
  mip_ariaExpanded :: "bool option"
  mip_ariaKeyshortcuts :: "string option"
  mip_dataActive :: "string option"

section \<open>Construction\<close>

definition DEFAULT_OPEN_DELAY :: int where
  "DEFAULT_OPEN_DELAY = 200"

definition DEFAULT_CLOSE_DELAY :: int where
  "DEFAULT_CLOSE_DELAY = 300"

definition menu_rover_items :: "menu_item list \<Rightarrow> rover_item list" where
  "menu_rover_items items =
     map (\<lambda>i. \<lparr>ri_id = mi_id i, ri_disabled = mi_disabled i, ri_text = Some (mi_label i)\<rparr>)
       (filter (\<lambda>i. \<not> mi_separator i) items)"

definition menu_rover_options :: "menu_options \<Rightarrow> rover_options" where
  "menu_rover_options opts =
     \<lparr>ro_orientation = (case mo_orientation opts of Menu_vertical \<Rightarrow> Vertical | Menu_horizontal \<Rightarrow> Horizontal),
      ro_loop = mo_loop opts, ro_activateOnFocus = False, ro_defaultActiveId = None,
      ro_typeaheadResetMs = 500, ro_hasOnActiveChange = False\<rparr>"

definition menu_init :: "menu_options \<Rightarrow> menu_node" where
  "menu_init opts =
     \<lparr>mn_opts = opts, mn_isOpen = False, mn_openSubmenuId = None, mn_openTimer = None, mn_closeTimer = None,
      mn_rover = createRovingTabindex (menu_rover_options opts) (menu_rover_items (mo_items opts)),
      mn_listeners = []\<rparr>"

text \<open>The options of the child that belongs to item \<open>k\<close>: \<open>onOpenChange\<close> is not passed on.\<close>

definition child_options :: "menu_options \<Rightarrow> string \<Rightarrow> menu_item list \<Rightarrow> menu_options" where
  "child_options opts k items =
     \<lparr>mo_id = mo_id opts @ ''-sub-'' @ k, mo_items = items, mo_placement = Right_start,
      mo_orientation = Menu_vertical, mo_loop = mo_loop opts, mo_openDelay = mo_openDelay opts,
      mo_closeDelay = mo_closeDelay opts, mo_parentItemId = Some k, mo_hasOnOpenChange = False,
      mo_hasOnChainSelect = mo_hasOnChainSelect opts\<rparr>"

fun menu_children :: "menu_options \<Rightarrow> menu_item list \<Rightarrow> (string \<times> menu) list" where
  "menu_children opts [] = []"
| "menu_children opts (Menu_item k l d sc (Some (c # cs)) sep # rest) =
     (k, Menu (menu_init (child_options opts k (c # cs)))
           (map_from (menu_children (child_options opts k (c # cs)) (c # cs)))) # menu_children opts rest"
| "menu_children opts (item # rest) = menu_children opts rest"

definition createMenuInternal :: "menu_options \<Rightarrow> menu" where
  "createMenuInternal opts = Menu (menu_init opts) (map_from (menu_children opts (mo_items opts)))"

definition createMenu :: "menu_options \<Rightarrow> menu" where
  "createMenu opts = createMenuInternal (opts\<lparr>mo_parentItemId := None\<rparr>)"

section \<open>Operations\<close>

definition menu_view :: "menu_node \<Rightarrow> menu_snapshot" where
  "menu_view n =
     \<lparr>ms_isOpen = mn_isOpen n, ms_activeId = rv_activeId (mn_rover n),
      ms_openPath = (case mn_openSubmenuId n of None \<Rightarrow> [] | Some k \<Rightarrow> [k])\<rparr>"

definition menu_emit :: "menu_node \<Rightarrow> menu_event list" where
  "menu_emit n = emit_to (mn_listeners n) (menu_view n)"

definition notify_open :: "menu_node \<Rightarrow> bool \<Rightarrow> menu_event list" where
  "notify_open n b = (if mo_hasOnOpenChange (mn_opts n) then [Did (Menu_onOpenChange b)] else []) @ menu_emit n"

text \<open>
  \<open>setOpen(false)\<close> and the \<open>closeSubmenu\<close> inside it, down the chain of open children. Events
  of a child reach nobody but the option callbacks it shares.
\<close>

function menu_setClosed :: "menu \<Rightarrow> menu \<times> menu_event list" where
  "menu_setClosed (Menu n subs) =
     (if \<not> mn_isOpen n then (Menu n subs, [])
      else
        (let n1 = n\<lparr>mn_isOpen := False\<rparr>;
             (n2, subs2, es) =
               (case mn_openSubmenuId n1 of
                  None \<Rightarrow> (n1, subs, [])
                | Some k \<Rightarrow>
                    (let n2 = n1\<lparr>mn_openSubmenuId := None\<rparr> in
                     case map_get subs k of
                       None \<Rightarrow> (n2, subs, menu_emit n2)
                     | Some c \<Rightarrow> (let (c', ce) = menu_setClosed c in (n2, map_set k c' subs, ce @ menu_emit n2))));
             n3 = n2\<lparr>mn_openTimer := None, mn_closeTimer := None\<rparr>
         in (Menu n3 subs2, es @ notify_open n3 False)))"
  by pat_completeness auto

lemma menu_child_size: "map_get subs k = Some c \<Longrightarrow> size c < size (Menu n subs)"
proof -
  assume "map_get subs k = Some c"
  then have "(k, c) \<in> set subs" by (rule map_of_SomeD)
  then show ?thesis by (induction subs) auto
qed

termination menu_setClosed
  by (relation "measure size") (auto simp: menu_child_size simp del: menu.size)

definition menu_setOpen :: "menu \<Rightarrow> menu \<times> menu_event list" where
  "menu_setOpen m =
     (if mn_isOpen (mnode m) then (m, [])
      else (let n = (mnode m)\<lparr>mn_isOpen := True\<rparr> in (Menu n (msubs m), notify_open n True)))"

definition upd_rover :: "(rover_options \<Rightarrow> rover \<Rightarrow> rover \<times> rover_event list) \<Rightarrow> menu \<Rightarrow> menu \<times> menu_event list" where
  "upd_rover f m =
     (let n = mnode m; (r, es) = f (menu_rover_options (mn_opts n)) (mn_rover n)
      in (Menu (n\<lparr>mn_rover := r\<rparr>) (msubs m),
          map (\<lambda>_. Did Menu_preventDefault) (filter (\<lambda>x. x = Rover_preventDefault) (did es))))"

text \<open>\<open>open\<close> and \<open>_openImmediate\<close>.\<close>

definition menu_open :: "menu \<Rightarrow> menu \<times> menu_event list" where
  "menu_open m = and_then (menu_setOpen m) (upd_rover rover_first)"

definition closeSubmenu :: "menu \<Rightarrow> menu \<times> menu_event list" where
  "closeSubmenu m =
     (case mn_openSubmenuId (mnode m) of
        None \<Rightarrow> (m, [])
      | Some k \<Rightarrow>
          (let n = (mnode m)\<lparr>mn_openSubmenuId := None\<rparr> in
           case map_get (msubs m) k of
             None \<Rightarrow> (Menu n (msubs m), menu_emit n)
           | Some c \<Rightarrow> (let (c', ce) = menu_setClosed c in (Menu n (map_set k c' (msubs m)), ce @ menu_emit n))))"

definition openSubmenu :: "string \<Rightarrow> menu \<Rightarrow> menu \<times> menu_event list" where
  "openSubmenu k m =
     (if mn_openSubmenuId (mnode m) = Some k then (m, [])
      else
        (let (subs1, es1) =
           (case mn_openSubmenuId (mnode m) of
              None \<Rightarrow> (msubs m, [])
            | Some o' \<Rightarrow>
                (case map_get (msubs m) o' of
                   None \<Rightarrow> (msubs m, [])
                 | Some c \<Rightarrow> (let (c', ce) = menu_setClosed c in (map_set o' c' (msubs m), ce)))) in
         case map_get subs1 k of
           None \<Rightarrow> (Menu (mnode m) subs1, es1)
         | Some child \<Rightarrow>
             (let (child', ce) = menu_open child;
                  n = (mnode m)\<lparr>mn_openSubmenuId := Some k\<rparr>
              in (Menu n (map_set k child' subs1), es1 @ ce @ menu_emit n))))"

definition find_menu_item :: "string \<Rightarrow> menu \<Rightarrow> menu_item option" where
  "find_menu_item k m = List.find (\<lambda>i. mi_id i = k) (mo_items (mn_opts (mnode m)))"

definition has_items :: "menu_item \<Rightarrow> bool" where
  "has_items item = (case mi_items item of Some (c # cs) \<Rightarrow> True | _ \<Rightarrow> False)"

definition menu_select :: "string \<Rightarrow> menu \<Rightarrow> menu \<times> menu_event list" where
  "menu_select k m =
     (case find_menu_item k m of
        None \<Rightarrow> (m, [])
      | Some item \<Rightarrow>
          if mi_disabled item \<or> mi_separator item then (m, [])
          else if has_items item then openSubmenu k m
          else
            (let path = (case mo_parentItemId (mn_opts (mnode m)) of None \<Rightarrow> [] | Some p \<Rightarrow> [p]) @ [k]
             in after ([Did (Menu_onSelect k path)] @
                       (if mo_hasOnChainSelect (mn_opts (mnode m)) then [Did (Menu_onChainSelect path)] else []))
                  (menu_setClosed m)))"

definition menu_handleTriggerKeyDown :: "key_event \<Rightarrow> menu \<Rightarrow> menu \<times> menu_event list" where
  "menu_handleTriggerKeyDown e m =
     (if ke_key e = ''Enter'' \<or> ke_key e = '' '' \<or> ke_key e = ''ArrowDown'' then
        after [Did Menu_preventDefault] (and_then (menu_setOpen m) (upd_rover rover_first))
      else if ke_key e = ''ArrowUp'' then
        after [Did Menu_preventDefault] (and_then (menu_setOpen m) (upd_rover rover_last))
      else (m, []))"

definition menu_handleMenuKeyDown :: "key_event \<Rightarrow> menu \<Rightarrow> menu \<times> menu_event list" where
  "menu_handleMenuKeyDown e m =
     (let n = mnode m in
      if \<not> mn_isOpen n then (m, [])
      else if ke_key e = ''Escape'' then
        after [Did Menu_preventDefault]
          (if mn_openSubmenuId n \<noteq> None then closeSubmenu m else menu_setClosed m)
      else if ke_key e = ''ArrowRight'' then
        (case rv_activeId (mn_rover n) of
           None \<Rightarrow> (m, [])
         | Some focusedId \<Rightarrow>
             if map_has (msubs m) focusedId then after [Did Menu_preventDefault] (openSubmenu focusedId m)
             else (m, []))
      else if ke_key e = ''ArrowLeft'' then
        (if mn_openSubmenuId n \<noteq> None then after [Did Menu_preventDefault] (closeSubmenu m)
         else if mo_parentItemId (mn_opts n) \<noteq> None then after [Did Menu_preventDefault] (menu_setClosed m)
         else (m, []))
      else if ke_key e = ''Enter'' \<or> ke_key e = '' '' then
        after [Did Menu_preventDefault]
          (case rv_activeId (mn_rover n) of None \<Rightarrow> (m, []) | Some k \<Rightarrow> menu_select k m)
      else upd_rover (\<lambda>ro. rover_handleKeyDown ro e) m)"

definition menu_toggle :: "menu \<Rightarrow> menu \<times> menu_event list" where
  "menu_toggle m = (if mn_isOpen (mnode m) then menu_setClosed m else menu_open m)"

definition menu_focus :: "string \<Rightarrow> menu \<Rightarrow> menu \<times> menu_event list" where
  "menu_focus k m = upd_rover (\<lambda>ro. rover_setActive ro k) m"

definition menu_getTriggerProps :: "menu \<Rightarrow> menu_trigger_props" where
  "menu_getTriggerProps m =
     \<lparr>mtp_ariaHaspopup = ''menu'', mtp_ariaExpanded = mn_isOpen (mnode m), mtp_ariaControls = mo_id (mn_opts (mnode m))\<rparr>"

definition menu_getMenuProps :: "menu \<Rightarrow> menu_props" where
  "menu_getMenuProps m =
     \<lparr>mp_id = mo_id (mn_opts (mnode m)), mp_role = ''menu'',
      mp_ariaOrientation = mo_orientation (mn_opts (mnode m)), mp_tabIndex = -1\<rparr>"

definition menu_inert_props :: "string \<Rightarrow> string \<Rightarrow> menu_item_props" where
  "menu_inert_props k role =
     \<lparr>mip_id = k, mip_role = role, mip_tabIndex = -1, mip_ariaDisabled = None, mip_ariaHaspopup = None,
      mip_ariaExpanded = None, mip_ariaKeyshortcuts = None, mip_dataActive = None\<rparr>"

definition menu_getItemProps :: "string \<Rightarrow> menu \<Rightarrow> menu_item_props" where
  "menu_getItemProps k m =
     (case find_menu_item k m of
        None \<Rightarrow> menu_inert_props k ''menuitem''
      | Some item \<Rightarrow>
          if mi_separator item then menu_inert_props k ''separator''
          else
            (let isActive = (rv_activeId (mn_rover (mnode m)) = Some k);
                 isDis = mi_disabled item;
                 hasSub = has_items item in
             \<lparr>mip_id = k, mip_role = ''menuitem'', mip_tabIndex = (if isActive then 0 else -1),
              mip_ariaDisabled = (if isDis then Some True else None),
              mip_ariaHaspopup = (if hasSub then Some ''menu'' else None),
              mip_ariaExpanded = (if hasSub then Some (mn_openSubmenuId (mnode m) = Some k) else None),
              mip_ariaKeyshortcuts = mi_shortcut item,
              mip_dataActive = (if isActive then Some [] else None)\<rparr>))"

text \<open>The mouse handlers of an item's props; unknown items and separators have none.\<close>

definition menu_mouseEnter :: "string \<Rightarrow> menu \<Rightarrow> menu \<times> menu_event list" where
  "menu_mouseEnter k m =
     (case find_menu_item k m of
        None \<Rightarrow> (m, [])
      | Some item \<Rightarrow>
          if mi_separator item then (m, [])
          else if mi_disabled item then (m, [])
          else
            and_then (menu_focus k m) (\<lambda>m1.
              let n = mnode m1 in
              if has_items item then
                (Menu (n\<lparr>mn_closeTimer := None, mn_openTimer := Some (k, mo_openDelay (mn_opts n))\<rparr>) (msubs m1), [])
              else if mn_openSubmenuId n \<noteq> None then
                (Menu (n\<lparr>mn_closeTimer := Some (mo_closeDelay (mn_opts n))\<rparr>) (msubs m1), [])
              else (m1, [])))"

definition menu_mouseLeave :: "string \<Rightarrow> menu \<Rightarrow> menu" where
  "menu_mouseLeave k m =
     (case find_menu_item k m of
        None \<Rightarrow> m
      | Some item \<Rightarrow> if mi_separator item then m else Menu ((mnode m)\<lparr>mn_openTimer := None\<rparr>) (msubs m))"

definition menu_itemClick :: "string \<Rightarrow> menu \<Rightarrow> menu \<times> menu_event list" where
  "menu_itemClick k m =
     (case find_menu_item k m of
        None \<Rightarrow> (m, [])
      | Some item \<Rightarrow> if mi_separator item then (m, []) else if mi_disabled item then (m, []) else menu_select k m)"

text \<open>The timers' callbacks.\<close>

definition menu_openTimeout :: "menu \<Rightarrow> menu \<times> menu_event list" where
  "menu_openTimeout m =
     (case mn_openTimer (mnode m) of
        None \<Rightarrow> (m, [])
      | Some (k, delay) \<Rightarrow> openSubmenu k (Menu ((mnode m)\<lparr>mn_openTimer := None\<rparr>) (msubs m)))"

definition menu_closeTimeout :: "menu \<Rightarrow> menu \<times> menu_event list" where
  "menu_closeTimeout m =
     (if mn_closeTimer (mnode m) = None then (m, [])
      else closeSubmenu (Menu ((mnode m)\<lparr>mn_closeTimer := None\<rparr>) (msubs m)))"

datatype menu_op =
    Menu_open | Menu_close | Menu_toggle | Menu_focus string | Menu_select string
  | Menu_triggerKey key_event | Menu_menuKey key_event | Menu_itemClick string
  | Menu_mouseEnter string | Menu_mouseLeave string
  | Menu_openTimeout | Menu_closeTimeout | Menu_typeaheadTimeout
  | Menu_subscribe listener | Menu_unsubscribe listener

fun menu_step :: "menu_op \<Rightarrow> menu \<Rightarrow> menu \<times> menu_event list" where
  "menu_step Menu_open m = menu_open m"
| "menu_step Menu_close m = menu_setClosed m"
| "menu_step Menu_toggle m = menu_toggle m"
| "menu_step (Menu_focus k) m = menu_focus k m"
| "menu_step (Menu_select k) m = menu_select k m"
| "menu_step (Menu_triggerKey e) m = menu_handleTriggerKeyDown e m"
| "menu_step (Menu_menuKey e) m = menu_handleMenuKeyDown e m"
| "menu_step (Menu_itemClick k) m = menu_itemClick k m"
| "menu_step (Menu_mouseEnter k) m = menu_mouseEnter k m"
| "menu_step (Menu_mouseLeave k) m = (menu_mouseLeave k m, [])"
| "menu_step Menu_openTimeout m = menu_openTimeout m"
| "menu_step Menu_closeTimeout m = menu_closeTimeout m"
| "menu_step Menu_typeaheadTimeout m =
     (Menu ((mnode m)\<lparr>mn_rover := typeahead_timeout (mn_rover (mnode m))\<rparr>) (msubs m), [])"
| "menu_step (Menu_subscribe l) m =
     (Menu ((mnode m)\<lparr>mn_listeners := subscribe l (mn_listeners (mnode m))\<rparr>) (msubs m), [])"
| "menu_step (Menu_unsubscribe l) m =
     (Menu ((mnode m)\<lparr>mn_listeners := unsubscribe l (mn_listeners (mnode m))\<rparr>) (msubs m), [])"

section \<open>Context menus\<close>

text \<open>The viewport is the option if given; otherwise the host's window, an argument here.\<close>

record context_menu =
  cm_inner :: menu
  cm_position :: "(rat \<times> rat) option"
  cm_resolvedPlacement :: menu_placement
  cm_viewport :: "(rat \<times> rat) option"

definition createContextMenu :: "(rat \<times> rat) option \<Rightarrow> menu_options \<Rightarrow> context_menu" where
  "createContextMenu viewport opts =
     \<lparr>cm_inner = createMenu opts, cm_position = None, cm_resolvedPlacement = mo_placement opts, cm_viewport = viewport\<rparr>"

definition getViewport :: "(rat \<times> rat) option \<Rightarrow> context_menu \<Rightarrow> rat \<times> rat" where
  "getViewport window cm =
     (case cm_viewport cm of
        Some vp \<Rightarrow> vp
      | None \<Rightarrow> (case window of Some w \<Rightarrow> w | None \<Rightarrow> (1024, 768)))"

definition context_openAt :: "(rat \<times> rat) option \<Rightarrow> rat \<times> rat \<Rightarrow> context_menu \<Rightarrow> context_menu \<times> menu_event list" where
  "context_openAt window coords cm =
     (let (w, h) = getViewport window cm;
          rightHalf = (fst coords > w / 2);
          bottomHalf = (snd coords > h / 2);
          placement = (if rightHalf \<and> bottomHalf then Top_end
                       else if rightHalf then Bottom_end
                       else if bottomHalf then Top_start
                       else Bottom_start);
          (m, es) = menu_open (cm_inner cm)
      in (cm\<lparr>cm_position := Some coords, cm_resolvedPlacement := placement, cm_inner := m\<rparr>, es))"

text \<open>Every other member forwards to the inner menu.\<close>

definition context_forward :: "menu_op \<Rightarrow> context_menu \<Rightarrow> context_menu \<times> menu_event list" where
  "context_forward x cm = (let (m, es) = menu_step x (cm_inner cm) in (cm\<lparr>cm_inner := m\<rparr>, es))"

section \<open>Open and closed trees\<close>

definition node_shut :: "menu_node \<Rightarrow> bool" where
  "node_shut n \<longleftrightarrow> \<not> mn_isOpen n \<and> mn_openSubmenuId n = None \<and> mn_openTimer n = None \<and> mn_closeTimer n = None"

fun all_closed :: "menu \<Rightarrow> bool" where
  "all_closed (Menu n subs) \<longleftrightarrow> node_shut n \<and> (\<forall>p\<in>set subs. all_closed (snd p))"

definition open_leaf :: "menu \<Rightarrow> bool" where
  "open_leaf m \<longleftrightarrow> mn_isOpen (mnode m) \<and> mn_openSubmenuId (mnode m) = None \<and>
     mn_openTimer (mnode m) = None \<and> mn_closeTimer (mnode m) = None \<and> (\<forall>p\<in>set (msubs m). all_closed (snd p))"

definition menu_ok :: "menu \<Rightarrow> bool" where
  "menu_ok m \<longleftrightarrow> distinct (map_keys (msubs m)) \<and>
     (\<forall>k c. (k, c) \<in> set (msubs m) \<longrightarrow>
        (if mn_openSubmenuId (mnode m) = Some k then open_leaf c else all_closed c)) \<and>
     (\<forall>k. mn_openSubmenuId (mnode m) = Some k \<longrightarrow> k \<in> set (map_keys (msubs m)))"

lemma all_closed_iff: "all_closed m \<longleftrightarrow> node_shut (mnode m) \<and> (\<forall>p\<in>set (msubs m). all_closed (snd p))"
  by (cases m) auto

lemma setClosed_closed: "\<not> mn_isOpen (mnode m) \<Longrightarrow> menu_setClosed m = (m, [])"
  by (cases m) simp

lemma setClosed_leaf: "open_leaf m \<Longrightarrow> all_closed (fst (menu_setClosed m))"
  by (cases m) (simp add: open_leaf_def node_shut_def Let_def)

lemma upd_rover_simps [simp]:
  "msubs (fst (upd_rover f m)) = msubs m"
  "mn_isOpen (mnode (fst (upd_rover f m))) = mn_isOpen (mnode m)"
  "mn_openSubmenuId (mnode (fst (upd_rover f m))) = mn_openSubmenuId (mnode m)"
  "mn_openTimer (mnode (fst (upd_rover f m))) = mn_openTimer (mnode m)"
  "mn_closeTimer (mnode (fst (upd_rover f m))) = mn_closeTimer (mnode m)"
  "mn_opts (mnode (fst (upd_rover f m))) = mn_opts (mnode m)"
  by (simp_all add: upd_rover_def Let_def split_def)

lemma menu_setOpen_simps [simp]:
  "msubs (fst (menu_setOpen m)) = msubs m" "mn_isOpen (mnode (fst (menu_setOpen m)))"
  "mn_openSubmenuId (mnode (fst (menu_setOpen m))) = mn_openSubmenuId (mnode m)"
  "mn_openTimer (mnode (fst (menu_setOpen m))) = mn_openTimer (mnode m)"
  "mn_closeTimer (mnode (fst (menu_setOpen m))) = mn_closeTimer (mnode m)"
  by (simp_all add: menu_setOpen_def Let_def)

lemma menu_open_leaf: "all_closed c \<Longrightarrow> open_leaf (fst (menu_open c))"
  by (simp add: open_leaf_def menu_open_def all_closed_iff[of c] node_shut_def)

text \<open>\<open>menu_ok\<close> looks at the path and the children only.\<close>

lemma menu_ok_same:
  "menu_ok m \<Longrightarrow> msubs m' = msubs m \<Longrightarrow> mn_openSubmenuId (mnode m') = mn_openSubmenuId (mnode m) \<Longrightarrow> menu_ok m'"
  by (simp add: menu_ok_def)

lemma menu_ok_child:
  assumes "menu_ok m" and "map_get (msubs m) k = Some c"
  shows "if mn_openSubmenuId (mnode m) = Some k then open_leaf c else all_closed c"
  using assms map_of_SomeD[OF assms(2)] unfolding menu_ok_def by blast

text \<open>Shutting the open child and dropping it from the path.\<close>

lemma menu_ok_shut:
  assumes ok: "menu_ok m" and o1: "mn_openSubmenuId (mnode m) = Some k" and c: "map_get (msubs m) k = Some c"
    and o2: "mn_openSubmenuId n = None"
  shows "menu_ok (Menu n (map_set k (fst (menu_setClosed c)) (msubs m)))"
proof -
  have "open_leaf c" using menu_ok_child[OF ok c] o1 by simp
  then have "all_closed (fst (menu_setClosed c))" by (rule setClosed_leaf)
  then show ?thesis
    using ok o1 o2 unfolding menu_ok_def by (auto simp: in_update_distinct)
qed

lemma menu_ok_open_child: "menu_ok m \<Longrightarrow> mn_openSubmenuId (mnode m) = Some k \<Longrightarrow> \<exists>c. map_get (msubs m) k = Some c"
  unfolding menu_ok_def by (metis map_has_def map_has_iff option.exhaust)

lemma closeSubmenu_ok: "menu_ok m \<Longrightarrow> menu_ok (fst (closeSubmenu m))"
proof (cases "mn_openSubmenuId (mnode m)")
  case (Some k)
  assume ok: "menu_ok m"
  then obtain c where c: "map_get (msubs m) k = Some c" using Some menu_ok_open_child by blast
  then show ?thesis using menu_ok_shut[OF ok Some c] Some by (simp add: closeSubmenu_def Let_def split_def)
qed (simp add: closeSubmenu_def)

lemma menu_ok_enter:
  assumes ok: "menu_ok m" and o1: "mn_openSubmenuId (mnode m) = None" and c: "map_get (msubs m) k = Some c"
    and o2: "mn_openSubmenuId n = Some k"
  shows "menu_ok (Menu n (map_set k (fst (menu_open c)) (msubs m)))"
proof -
  have "all_closed c" using menu_ok_child[OF ok c] o1 by simp
  then have "open_leaf (fst (menu_open c))" by (rule menu_open_leaf)
  then show ?thesis
    using ok o1 o2 unfolding menu_ok_def by (auto simp: in_update_distinct set_keys_update)
qed

lemma openSubmenu_ok:
  assumes ok: "menu_ok m" and k: "map_has (msubs m) k"
  shows "menu_ok (fst (openSubmenu k m))"
proof (cases "mn_openSubmenuId (mnode m)")
  case None
  obtain c where "map_get (msubs m) k = Some c" using k by (auto simp: map_has_def split: option.splits)
  then show ?thesis
    using menu_ok_enter[OF ok None, of k c] None by (simp add: openSubmenu_def Let_def split_def)
next
  case (Some o')
  show ?thesis
  proof (cases "o' = k")
    case True
    then show ?thesis using ok Some by (simp add: openSubmenu_def)
  next
    case False
    obtain d where d: "map_get (msubs m) o' = Some d" using menu_ok_open_child[OF ok Some] by blast
    obtain c where c: "map_get (msubs m) k = Some c" using k by (auto simp: map_has_def split: option.splits)
    let ?m = "Menu ((mnode m)\<lparr>mn_openSubmenuId := None\<rparr>) (map_set o' (fst (menu_setClosed d)) (msubs m))"
    have "menu_ok ?m" by (rule menu_ok_shut[OF ok Some d]) simp
    from menu_ok_enter[OF this, of k c "(mnode m)\<lparr>mn_openSubmenuId := Some k\<rparr>"] show ?thesis
      using Some False c d by (simp add: openSubmenu_def Let_def split_def)
  qed
qed

text \<open>Items with nested items have a child, and the open timer is only armed for such items.\<close>

definition menu_wired :: "menu \<Rightarrow> bool" where
  "menu_wired m \<longleftrightarrow>
     (\<forall>item\<in>set (mo_items (mn_opts (mnode m))). has_items item \<longrightarrow> mi_id item \<in> set (map_keys (msubs m))) \<and>
     (\<forall>k d. mn_openTimer (mnode m) = Some (k, d) \<longrightarrow> k \<in> set (map_keys (msubs m)))"

lemma menu_wired_same:
  "menu_wired m \<Longrightarrow> mn_opts (mnode m') = mn_opts (mnode m) \<Longrightarrow>
   set (map_keys (msubs m)) \<subseteq> set (map_keys (msubs m')) \<Longrightarrow>
   mn_openTimer (mnode m') = mn_openTimer (mnode m) \<or> mn_openTimer (mnode m') = None \<Longrightarrow> menu_wired m'"
  unfolding menu_wired_def by (metis (no_types, lifting) option.distinct(1) subsetD)

lemma setClosed_simps [simp]:
  "mn_opts (mnode (fst (menu_setClosed m))) = mn_opts (mnode m)"
  "set (map_keys (msubs m)) \<subseteq> set (map_keys (msubs (fst (menu_setClosed m))))"
  "mn_openTimer (mnode (fst (menu_setClosed m))) = (if mn_isOpen (mnode m) then None else mn_openTimer (mnode m))"
  by (cases m; auto simp: Let_def split_def set_keys_update split: option.split)+

lemma closeSubmenu_simps [simp]:
  "mn_opts (mnode (fst (closeSubmenu m))) = mn_opts (mnode m)"
  "set (map_keys (msubs m)) \<subseteq> set (map_keys (msubs (fst (closeSubmenu m))))"
  "mn_openTimer (mnode (fst (closeSubmenu m))) = mn_openTimer (mnode m)"
  by (auto simp: closeSubmenu_def Let_def split_def set_keys_update split: option.split)

lemma openSubmenu_simps [simp]:
  "mn_opts (mnode (fst (openSubmenu k m))) = mn_opts (mnode m)"
  "set (map_keys (msubs m)) \<subseteq> set (map_keys (msubs (fst (openSubmenu k m))))"
  "mn_openTimer (mnode (fst (openSubmenu k m))) = mn_openTimer (mnode m)"
  by (auto simp: openSubmenu_def Let_def split_def set_keys_update split: option.split)

lemma setClosed_ok: "menu_ok m \<Longrightarrow> menu_ok (fst (menu_setClosed m))"
proof -
  assume ok: "menu_ok m"
  show ?thesis
  proof (cases "mn_isOpen (mnode m)")
    case True
    show ?thesis
    proof (cases "mn_openSubmenuId (mnode m)")
      case None
      with True ok show ?thesis by (cases m) (simp add: Let_def menu_ok_def)
    next
      case (Some k)
      obtain c where c: "map_get (msubs m) k = Some c" using menu_ok_open_child[OF ok Some] by blast
      with True Some show ?thesis
        using menu_ok_shut[OF ok Some c] by (cases m) (simp add: Let_def split_def)
    qed
  qed (simp add: ok setClosed_closed)
qed

definition menu_inv :: "menu \<Rightarrow> bool" where
  "menu_inv m \<longleftrightarrow> menu_ok m \<and> menu_wired m"

lemma menu_inv_rover: "menu_inv m \<Longrightarrow> menu_inv (fst (upd_rover f m))"
  unfolding menu_inv_def by (auto intro: menu_ok_same menu_wired_same)

lemma menu_inv_setOpen: "menu_inv m \<Longrightarrow> menu_inv (fst (menu_setOpen m))"
  unfolding menu_inv_def
  by (auto intro!: menu_ok_same[of m] menu_wired_same[of m]) (auto simp: menu_setOpen_def Let_def)

lemma menu_inv_node:
  "menu_inv m \<Longrightarrow> mn_opts n = mn_opts (mnode m) \<Longrightarrow> mn_openSubmenuId n = mn_openSubmenuId (mnode m) \<Longrightarrow>
   mn_openTimer n = mn_openTimer (mnode m) \<or> mn_openTimer n = None \<Longrightarrow> menu_inv (Menu n (msubs m))"
  unfolding menu_inv_def by (auto intro!: menu_ok_same[of m] menu_wired_same[of m])

lemma menu_inv_close:
  "menu_inv m \<Longrightarrow> menu_inv (fst (menu_setClosed m))" "menu_inv m \<Longrightarrow> menu_inv (fst (closeSubmenu m))"
  unfolding menu_inv_def
  by (simp_all add: setClosed_ok closeSubmenu_ok menu_wired_same[OF _ setClosed_simps(1,2)]
      menu_wired_same[OF _ closeSubmenu_simps(1,2)] del: list.set_map)

lemma menu_inv_openSubmenu:
  "menu_inv m \<Longrightarrow> map_has (msubs m) k \<Longrightarrow> menu_inv (fst (openSubmenu k m))"
  unfolding menu_inv_def
  by (simp add: openSubmenu_ok menu_wired_same[OF _ openSubmenu_simps(1,2)] del: list.set_map)

lemma wired_child: "menu_inv m \<Longrightarrow> find_menu_item k m = Some item \<Longrightarrow> has_items item \<Longrightarrow> map_has (msubs m) k"
  unfolding menu_inv_def menu_wired_def find_menu_item_def by (auto simp: map_has_iff dest!: find_Some_in)

lemma menu_inv_select: "menu_inv m \<Longrightarrow> menu_inv (fst (menu_select k m))"
  by (auto simp: menu_select_def Let_def menu_inv_close wired_child intro: menu_inv_openSubmenu split: option.split)

lemma menu_inv_mouseEnter:
  assumes inv: "menu_inv m"
  shows "menu_inv (fst (menu_mouseEnter k m))"
proof -
  let ?m = "fst (menu_focus k m)"
  have inv1: "menu_inv ?m" using inv by (simp add: menu_focus_def menu_inv_rover)
  have t: "menu_inv (Menu ((mnode ?m)\<lparr>mn_closeTimer := None, mn_openTimer := Some (k, d)\<rparr>) (msubs ?m))"
    if "map_has (msubs m) k" for d
    using inv1 that unfolding menu_inv_def menu_wired_def
    by (auto simp: menu_focus_def map_has_iff intro: menu_ok_same)
  have "menu_inv (Menu ((mnode ?m)\<lparr>mn_closeTimer := x\<rparr>) (msubs ?m))" for x
    using inv1 by (intro menu_inv_node) simp_all
  with inv inv1 t wired_child[OF inv, of k] show ?thesis
    by (auto simp: menu_mouseEnter_def Let_def split: option.split)
qed

lemma menu_step_inv: "menu_inv m \<Longrightarrow> menu_inv (fst (menu_step x m))"
proof -
  assume inv: "menu_inv m"
  have op: "menu_inv (fst (menu_open m))" using inv by (simp add: menu_open_def menu_inv_rover menu_inv_setOpen)
  have leave: "menu_inv (menu_mouseLeave k m)" for k
    using inv by (auto simp: menu_mouseLeave_def intro!: menu_inv_node split: option.split)
  have ot: "menu_inv (fst (menu_openTimeout m))"
  proof (cases "mn_openTimer (mnode m)")
    case (Some p)
    obtain k d where p: "p = (k, d)" by (cases p)
    have "map_has (msubs m) k" using inv Some p unfolding menu_inv_def menu_wired_def by (auto simp: map_has_iff)
    moreover have "menu_inv (Menu ((mnode m)\<lparr>mn_openTimer := None\<rparr>) (msubs m))"
      using inv by (intro menu_inv_node) simp_all
    ultimately show ?thesis using Some p by (simp add: menu_openTimeout_def menu_inv_openSubmenu)
  qed (simp add: menu_openTimeout_def inv)
  have ct: "menu_inv (fst (menu_closeTimeout m))"
    using inv by (auto simp: menu_closeTimeout_def intro!: menu_inv_close(2) menu_inv_node)
  have key: "menu_inv (fst (menu_handleMenuKeyDown e m))" for e
    using inv by (auto simp: menu_handleMenuKeyDown_def Let_def menu_inv_close menu_inv_openSubmenu menu_inv_select
        menu_inv_rover split: option.split)
  show ?thesis
    using inv op leave ot ct key
    by (cases x) (auto simp: menu_toggle_def menu_focus_def menu_handleTriggerKeyDown_def menu_itemClick_def
        menu_inv_close menu_inv_rover menu_inv_setOpen menu_inv_select menu_inv_mouseEnter
        intro!: menu_inv_node split: option.split)
qed

interpretation menu_component: component menu_step menu_inv "\<lambda>x. True"
  by unfold_locales (simp add: menu_step_inv)

lemma map_from_facts:
  "distinct (map_keys (map_from ps)) \<and> set (map_from ps) \<subseteq> set ps \<and> fst ` set (map_from ps) = fst ` set ps"
proof -
  have "distinct (map_keys m) \<Longrightarrow> distinct (map_keys (fold (\<lambda>(k, v). map_set k v) ps m)) \<and>
      set (fold (\<lambda>(k, v). map_set k v) ps m) \<subseteq> set m \<union> set ps \<and>
      fst ` set (fold (\<lambda>(k, v). map_set k v) ps m) = fst ` set m \<union> fst ` set ps" for m
  proof (induction ps arbitrary: m)
    case (Cons p ps)
    have "set (map_set (fst p) (snd p) m) \<subseteq> insert p (set m)" by (auto dest!: in_update_cases)
    with Cons.IH[of "map_set (fst p) (snd p) m"] Cons.prems show ?case by (simp add: split_def) blast
  qed simp
  from this[of "[]"] show ?thesis by (simp add: map_from_def)
qed

lemma menu_children_closed:
  "\<forall>p\<in>set (menu_children opts items). all_closed (snd p)"
proof (induction opts items rule: menu_children.induct)
  case (2 opts k l d sc c cs sep rest)
  then have "all_closed (Menu (menu_init (child_options opts k (c # cs)))
      (map_from (menu_children (child_options opts k (c # cs)) (c # cs))))"
    using map_from_facts[of "menu_children (child_options opts k (c # cs)) (c # cs)"]
    by (auto simp: node_shut_def menu_init_def)
  with 2 show ?case by simp
qed simp_all

lemma menu_children_keys:
  "item \<in> set items \<Longrightarrow> has_items item \<Longrightarrow> mi_id item \<in> fst ` set (menu_children opts items)"
  by (induction opts items rule: menu_children.induct) (auto simp: has_items_def)

lemma menu_inv_create: "menu_inv (createMenu opts)"
proof -
  let ?o = "opts\<lparr>mo_parentItemId := None\<rparr>" and ?items = "mo_items opts"
  note f = map_from_facts[of "menu_children ?o ?items"]
  have "menu_ok (createMenu opts)"
    using f menu_children_closed[of ?o ?items]
    by (fastforce simp: menu_ok_def createMenu_def createMenuInternal_def menu_init_def)
  moreover have "menu_wired (createMenu opts)"
    using f menu_children_keys[of _ ?items ?o]
    by (simp add: menu_wired_def createMenu_def createMenuInternal_def menu_init_def)
  ultimately show ?thesis by (simp add: menu_inv_def)
qed

lemmas menu_run_inv = menu_component.run_inv[OF menu_inv_create]

section \<open>Properties\<close>

definition sub_item :: "string \<Rightarrow> menu_item list \<Rightarrow> menu_item" where
  "sub_item k items = Menu_item k k False None (Some items) False"

definition leaf_item :: "string \<Rightarrow> menu_item" where
  "leaf_item k = Menu_item k k False None None False"

definition demo_menu_options :: menu_options where
  "demo_menu_options = \<lparr>mo_id = ''m'', mo_items = [leaf_item ''a'', sub_item ''b'' [leaf_item ''b1'', leaf_item ''b2''],
       sub_item ''c'' [sub_item ''c1'' [leaf_item ''x'']]],
     mo_placement = Bottom_start, mo_orientation = Menu_vertical, mo_loop = True,
     mo_openDelay = DEFAULT_OPEN_DELAY, mo_closeDelay = DEFAULT_CLOSE_DELAY, mo_parentItemId = None,
     mo_hasOnOpenChange = True, mo_hasOnChainSelect = False\<rparr>"

definition demo_menu :: menu where
  "demo_menu = fst (run menu_step [Menu_open, Menu_select ''b'', Menu_mouseEnter ''c'', Menu_openTimeout]
     (createMenu demo_menu_options))"

text \<open>C10: What the snapshot says of the submenus is true. Whatever mixture of clicks, keys, hovering and timers drives
  a menu, a child menu is open exactly when the snapshot's \<open>openPath\<close> is the path to it, and nothing below a child is
  open, so the path always tells all that is open. In particular only one level below the menu ever opens: the controllers
  of the children are private to the menu, which forwards no key and no item of theirs. That departs from the chains
  of several levels, with the deepest last and closed first, that RFC 0005 and the header of the file describe, and
  is recorded as a finding.\<close>

theorem menu_path_coherent:
  assumes "(k, c) \<in> set (msubs (fst (run menu_step xs (createMenu opts))))"
  shows "(mn_isOpen (mnode c) \<longleftrightarrow> ms_openPath (menu_view (mnode (fst (run menu_step xs (createMenu opts))))) = [k]) \<and>
    list_all (\<lambda>p. all_closed (snd p)) (msubs c)"
proof -
  let ?m = "fst (run menu_step xs (createMenu opts))"
  have "menu_ok ?m" using menu_run_inv[of xs opts] by (simp add: menu_inv_def)
  then have "if mn_openSubmenuId (mnode ?m) = Some k then open_leaf c else all_closed c"
    using assms unfolding menu_ok_def by blast
  then show ?thesis
    by (auto simp: open_leaf_def all_closed_iff[of c] node_shut_def menu_view_def list_all_iff split: if_splits option.split)
qed

theorem menu_path_coherent_witness:
  "ms_openPath (menu_view (mnode demo_menu)) = [''c''] \<and>
   mn_isOpen (mnode (snd (msubs demo_menu ! 1))) \<and> \<not> mn_isOpen (mnode (snd (msubs demo_menu ! 0)))"
proof -
  have e: "ms_openPath (menu_view (mnode demo_menu)) = [''c'']" "length (msubs demo_menu) = 2"
    "fst (msubs demo_menu ! 0) = ''b''" "fst (msubs demo_menu ! 1) = ''c''" by code_simp+
  have "mn_isOpen (mnode (snd (msubs demo_menu ! i))) \<longleftrightarrow>
      ms_openPath (menu_view (mnode demo_menu)) = [fst (msubs demo_menu ! i)]" if "i < 2" for i
  proof -
    have "(fst (msubs demo_menu ! i), snd (msubs demo_menu ! i)) \<in> set (msubs demo_menu)"
      using that e(2) by simp
    from menu_path_coherent[OF this[unfolded demo_menu_def]] show ?thesis
      unfolding demo_menu_def by blast
  qed
  from this[of 0] this[of 1] show ?thesis unfolding e by simp
qed

lemma setClosed_shut: "mn_isOpen (mnode m) \<Longrightarrow> node_shut (mnode (fst (menu_setClosed m)))"
  by (cases m) (simp add: Let_def split_def node_shut_def split: option.split)

lemma ok_pathless:
  assumes "menu_ok m" and "mn_openSubmenuId (mnode m) = None"
  shows "\<forall>p\<in>set (msubs m). all_closed (snd p)"
proof
  fix p assume "p \<in> set (msubs m)"
  then have "(fst p, snd p) \<in> set (msubs m)" by simp
  then have "if mn_openSubmenuId (mnode m) = Some (fst p) then open_leaf (snd p) else all_closed (snd p)"
    using assms(1) unfolding menu_ok_def by blast
  then show "all_closed (snd p)" using assms(2) by simp
qed

lemma setClosed_all:
  assumes "menu_ok m" and "mn_isOpen (mnode m)"
  shows "all_closed (fst (menu_setClosed m))"
proof -
  have s: "node_shut (mnode (fst (menu_setClosed m)))" using assms(2) by (rule setClosed_shut)
  then have "mn_openSubmenuId (mnode (fst (menu_setClosed m))) = None" unfolding node_shut_def by blast
  then show ?thesis using ok_pathless[OF setClosed_ok[OF assms(1)]] s
    by (subst all_closed_iff) blast
qed

text \<open>Closing cascades. Closing an open menu, in any state that calls can lead to, closes every
  menu of the tree, empties the path and cancels both hover timers.\<close>

theorem menu_close_cascades:
  assumes "mn_isOpen (mnode (fst (run menu_step xs (createMenu opts))))"
  shows "all_closed (fst (menu_step Menu_close (fst (run menu_step xs (createMenu opts)))))"
proof -
  have "menu_ok (fst (run menu_step xs (createMenu opts)))" using menu_run_inv[of xs opts] by (simp add: menu_inv_def)
  then show ?thesis unfolding menu_step.simps using assms by (rule setClosed_all)
qed

theorem menu_close_cascades_witness:
  "mn_isOpen (mnode (snd (msubs demo_menu ! 1))) \<and> all_closed (fst (menu_step Menu_close demo_menu))"
proof -
  have "mn_isOpen (mnode demo_menu)" "mn_isOpen (mnode (snd (msubs demo_menu ! 1)))" by code_simp+
  then show ?thesis
    using menu_close_cascades[of "[Menu_open, Menu_select ''b'', Menu_mouseEnter ''c'', Menu_openTimeout]" demo_menu_options]
    unfolding demo_menu_def by blast
qed

text \<open>Navigation is not published. Keys that move the rover of an open menu change the
  \<open>activeId\<close> its snapshots show - to the rover's new active item - without sending any
  subscriber a snapshot; \<open>focus\<close> does the same.\<close>

theorem menu_navigation_silent:
  assumes "mn_isOpen (mnode m)"
    and "ke_key e \<notin> set [''Escape'', ''ArrowRight'', ''ArrowLeft'', ''Enter'', '' '']"
  shows "sent (snd (menu_handleMenuKeyDown e m)) = [] \<and>
    ms_activeId (menu_view (mnode (fst (menu_handleMenuKeyDown e m)))) =
      rv_activeId (fst (rover_handleKeyDown (menu_rover_options (mn_opts (mnode m))) e (mn_rover (mnode m)))) \<and>
    sent (snd (menu_focus k m)) = []"
proof -
  have s: "sent (map (\<lambda>_. Did x) ys) = []" for x :: menu_effect and ys :: "rover_effect list"
    by (induction ys) simp_all
  show ?thesis
    using assms by (simp add: menu_handleMenuKeyDown_def upd_rover_def menu_focus_def menu_view_def s Let_def split_def)
qed

theorem menu_navigation_silent_witness:
  "let m = fst (menu_step Menu_open (fst (menu_step (Menu_subscribe 1) (createMenu demo_menu_options))));
       e = \<lparr>ke_key = ''ArrowDown'', ke_shift = False, ke_meta = False, ke_ctrl = False, ke_alt = False\<rparr>
   in ms_activeId (menu_view (mnode m)) = Some ''a'' \<and> sent (snd (menu_handleMenuKeyDown e m)) = [] \<and>
      ms_activeId (menu_view (mnode (fst (menu_handleMenuKeyDown e m)))) = Some ''b''"
proof -
  let ?m = "fst (menu_step Menu_open (fst (menu_step (Menu_subscribe 1) (createMenu demo_menu_options))))"
  let ?e = "\<lparr>ke_key = ''ArrowDown'', ke_shift = False, ke_meta = False, ke_ctrl = False, ke_alt = False\<rparr>"
  have "mn_isOpen (mnode ?m)" "ms_activeId (menu_view (mnode ?m)) = Some ''a''"
    "ms_activeId (menu_view (mnode (fst (menu_handleMenuKeyDown ?e ?m)))) = Some ''b''" by code_simp+
  with menu_navigation_silent[of ?m ?e undefined] show ?thesis unfolding Let_def by simp
qed

end
