(* ===== verification/Tree_View.thy ===== *)
theory Tree_View
  imports Roving_Tabindex
begin

text \<open>
  \<open>headless-core/tree-view.ts\<close>: a tree over a flat node list with parent ids. The flattening of
  the expanded part recurses along the child lists; on a malformed list it need not end, so
  the walk has fuel and \<open>None\<close> is running out of it. Lazy expansion is split where the code
  awaits: the call that starts the load, and the promise settling later.
\<close>

section \<open>Data\<close>

datatype has_children = No_children | Has_children | Lazy_children

record tree_node =
  tn_id :: string
  tn_label :: string
  tn_parentId :: "string option"
  tn_hasChildren :: has_children
  tn_disabled :: bool

datatype selection_mode = Select_none | Select_single | Select_multi

record tree_options =
  tvo_selectionMode :: selection_mode
  tvo_defaultExpanded :: "string list"
  tvo_defaultSelected :: "string list"
  tvo_hasOnLoadChildren :: bool

record tree_view =
  tv_nodes :: "tree_node list"
  tv_expanded :: "string jsset"
  tv_selected :: "string jsset"
  tv_busy :: "string jsset"
  tv_selectionAnchor :: "string option"
  tv_loading :: "string list"
  tv_rover :: rover
  tv_listeners :: "listener jsset"

record tree_snapshot =
  tvs_nodes :: "tree_node list"
  tvs_visible :: "tree_node list"
  tvs_expanded :: "string jsset"
  tvs_selected :: "string jsset"
  tvs_activeId :: "string option"

datatype tree_effect =
    Tree_onExpansionChange "string list" | Tree_onSelectionChange "string list"
  | Tree_onLoadChildren string | Tree_preventDefault

type_synonym tree_event = "(tree_snapshot, tree_effect) event"

record tree_root_props =
  tvp_role :: string
  tvp_ariaMultiselectable :: "bool option"
  tvp_tabIndex :: int

record tree_node_props =
  tnp_id :: string
  tnp_role :: string
  tnp_ariaLevel :: "nat option"
  tnp_ariaExpanded :: "bool option"
  tnp_ariaSelected :: "bool option"
  tnp_ariaBusy :: "bool option"
  tnp_ariaDisabled :: "bool option"
  tnp_tabIndex :: int
  tnp_dataActive :: "string option"

section \<open>Reading the tree\<close>

text \<open>\<open>buildChildrenMap().get(p) ?? []\<close>: the nodes with that parent, in list order.\<close>

definition children_of :: "tree_node list \<Rightarrow> string option \<Rightarrow> tree_node list" where
  "children_of nodes p = filter (\<lambda>n. tn_parentId n = p) nodes"

definition has_kids :: "tree_node \<Rightarrow> bool" where
  "has_kids n \<longleftrightarrow> tn_hasChildren n \<noteq> No_children"

definition find_node :: "tree_node list \<Rightarrow> string \<Rightarrow> tree_node option" where
  "find_node nodes k = List.find (\<lambda>n. tn_id n = k) nodes"

text \<open>The nested \<open>walk\<close>: \<open>follow k\<close> says whether it descends into \<open>k\<close>.\<close>

fun walk :: "nat \<Rightarrow> tree_node list \<Rightarrow> (tree_node \<Rightarrow> bool) \<Rightarrow> string option \<Rightarrow> tree_node list option" where
  "walk 0 nodes follow p = None"
| "walk (Suc fuel) nodes follow p =
     map_option concat (those (map (\<lambda>k.
       if follow k then map_option (Cons k) (walk fuel nodes follow (Some (tn_id k))) else Some [k])
     (children_of nodes p)))"

definition visible_walk :: "tree_node list \<Rightarrow> string jsset \<Rightarrow> tree_node list option" where
  "visible_walk nodes expanded =
     walk (Suc (length nodes)) nodes (\<lambda>k. has_kids k \<and> tn_id k \<in> set expanded) None"

text \<open>\<open>getVisible\<close>; \<open>visible_walk_total\<close> shows that the walk never runs out of fuel.\<close>

definition visible_nodes :: "tree_node list \<Rightarrow> string jsset \<Rightarrow> tree_node list" where
  "visible_nodes nodes expanded = (case visible_walk nodes expanded of None \<Rightarrow> [] | Some v \<Rightarrow> v)"

definition tree_getVisible :: "tree_view \<Rightarrow> tree_node list" where
  "tree_getVisible s = visible_nodes (tv_nodes s) (tv_expanded s)"

text \<open>The loop of \<open>getAriaLevel\<close>; on a parent cycle it does not end (\<open>None\<close>).\<close>

partial_function (option) level_loop :: "tree_node list \<Rightarrow> tree_node option \<Rightarrow> nat \<Rightarrow> nat option" where
  "level_loop nodes cursor lvl =
     (case cursor of
        None \<Rightarrow> Some lvl
      | Some n \<Rightarrow>
          (case tn_parentId n of
             None \<Rightarrow> Some lvl
           | Some p \<Rightarrow> level_loop nodes (find_node nodes p) (lvl + 1)))"

definition tree_getAriaLevel :: "string \<Rightarrow> tree_view \<Rightarrow> nat option" where
  "tree_getAriaLevel k s = level_loop (tv_nodes s) (find_node (tv_nodes s) k) 1"

definition tree_getDescendants :: "string \<Rightarrow> tree_view \<Rightarrow> tree_node list option" where
  "tree_getDescendants k s = walk (Suc (length (tv_nodes s))) (tv_nodes s) (\<lambda>_. True) (Some k)"

definition visibleItems :: "tree_view \<Rightarrow> rover_item list" where
  "visibleItems s =
     map (\<lambda>n. \<lparr>ri_id = tn_id n, ri_disabled = tn_disabled n, ri_text = Some (tn_label n)\<rparr>) (tree_getVisible s)"

section \<open>Operations\<close>

definition tree_rover_options :: rover_options where
  "tree_rover_options =
     \<lparr>ro_orientation = Vertical, ro_loop = True, ro_activateOnFocus = True, ro_defaultActiveId = None,
      ro_typeaheadResetMs = 500, ro_hasOnActiveChange = False\<rparr>"

text \<open>Listener 0 of the rover is the tree's own \<open>() => emit()\<close>.\<close>

definition createTreeView :: "tree_options \<Rightarrow> tree_node list \<Rightarrow> tree_view" where
  "createTreeView opts nodes =
     (let s = \<lparr>tv_nodes = nodes, tv_expanded = set_from (tvo_defaultExpanded opts),
               tv_selected = set_from (tvo_defaultSelected opts), tv_busy = [], tv_selectionAnchor = None,
               tv_loading = [], tv_rover = createRovingTabindex tree_rover_options [], tv_listeners = []\<rparr>
      in s\<lparr>tv_rover := (createRovingTabindex tree_rover_options (visibleItems s))\<lparr>rv_listeners := [0]\<rparr>\<rparr>)"

definition tree_view_of :: "tree_view \<Rightarrow> tree_snapshot" where
  "tree_view_of s =
     \<lparr>tvs_nodes = tv_nodes s, tvs_visible = tree_getVisible s, tvs_expanded = tv_expanded s,
      tvs_selected = tv_selected s, tvs_activeId = rv_activeId (tv_rover s)\<rparr>"

definition tree_emit :: "tree_view \<Rightarrow> tree_event list" where
  "tree_emit s = emit_to (tv_listeners s) (tree_view_of s)"

definition on_rover_event :: "tree_view \<Rightarrow> rover_event \<Rightarrow> tree_event list" where
  "on_rover_event s e =
     (case e of
        Sent l a \<Rightarrow> tree_emit s
      | Did Rover_preventDefault \<Rightarrow> [Did Tree_preventDefault]
      | Did (Rover_onActiveChange a) \<Rightarrow> [])"

definition tree_via_rover :: "(rover \<Rightarrow> rover \<times> rover_event list) \<Rightarrow> tree_view \<Rightarrow> tree_view \<times> tree_event list" where
  "tree_via_rover f s =
     (let (r, es) = f (tv_rover s); s' = s\<lparr>tv_rover := r\<rparr> in (s', concat (map (on_rover_event s') es)))"

definition syncRover :: "tree_view \<Rightarrow> tree_view \<times> tree_event list" where
  "syncRover s = tree_via_rover (rover_setItems tree_rover_options (visibleItems s)) s"

definition fireExpansion :: "tree_view \<Rightarrow> tree_event list" where
  "fireExpansion s = [Did (Tree_onExpansionChange (tv_expanded s))]"

definition fireSelection :: "tree_view \<Rightarrow> tree_event list" where
  "fireSelection s = [Did (Tree_onSelectionChange (tv_selected s))]"

text \<open>\<open>syncRover(); fireExpansion(); emit()\<close>, the end of every change of \<open>expanded\<close>.\<close>

definition expansion_done :: "tree_view \<Rightarrow> tree_view \<times> tree_event list" where
  "expansion_done s = and_then (syncRover s) (\<lambda>s'. (s', fireExpansion s' @ tree_emit s'))"

text \<open>The part of \<open>expand\<close> before its \<open>await\<close>.\<close>

definition tree_expand :: "tree_options \<Rightarrow> string \<Rightarrow> tree_view \<Rightarrow> tree_view \<times> tree_event list" where
  "tree_expand opts k s =
     (case find_node (tv_nodes s) k of
        None \<Rightarrow> (s, [])
      | Some node \<Rightarrow>
          if \<not> has_kids node then (s, [])
          else if k \<in> set (tv_expanded s) then (s, [])
          else if tn_hasChildren node = Lazy_children \<and> tvo_hasOnLoadChildren opts then
            (let s' = s\<lparr>tv_busy := set_add k (tv_busy s), tv_loading := tv_loading s @ [k]\<rparr>
             in (s', tree_emit s' @ [Did (Tree_onLoadChildren k)]))
          else expansion_done (s\<lparr>tv_expanded := set_add k (tv_expanded s)\<rparr>))"

text \<open>The \<open>dedup\<close> map: new nodes replace old ones of the same id in place, others are appended.\<close>

definition merge_nodes :: "tree_node list \<Rightarrow> tree_node list \<Rightarrow> tree_node list" where
  "merge_nodes nodes newKids = map_values (map_from (map (\<lambda>n. (tn_id n, n)) (nodes @ newKids)))"

text \<open>The promise of a pending load resolves, or rejects.\<close>

definition tree_loaded :: "string \<Rightarrow> tree_node list \<Rightarrow> tree_view \<Rightarrow> tree_view \<times> tree_event list" where
  "tree_loaded k newKids s =
     (if k \<notin> set (tv_loading s) then (s, [])
      else expansion_done
        (s\<lparr>tv_loading := remove1 k (tv_loading s), tv_nodes := merge_nodes (tv_nodes s) newKids,
           tv_busy := removeAll k (tv_busy s), tv_expanded := set_add k (tv_expanded s)\<rparr>))"

definition tree_loadFailed :: "string \<Rightarrow> tree_view \<Rightarrow> tree_view \<times> tree_event list" where
  "tree_loadFailed k s =
     (if k \<notin> set (tv_loading s) then (s, [])
      else
        (let s' = s\<lparr>tv_loading := remove1 k (tv_loading s), tv_busy := removeAll k (tv_busy s)\<rparr>
         in (s', tree_emit s')))"

definition tree_collapse :: "string \<Rightarrow> tree_view \<Rightarrow> tree_view \<times> tree_event list" where
  "tree_collapse k s =
     (if k \<notin> set (tv_expanded s) then (s, [])
      else expansion_done (s\<lparr>tv_expanded := removeAll k (tv_expanded s)\<rparr>))"

definition tree_toggleExpand :: "tree_options \<Rightarrow> string \<Rightarrow> tree_view \<Rightarrow> tree_view \<times> tree_event list" where
  "tree_toggleExpand opts k s = (if k \<in> set (tv_expanded s) then tree_collapse k s else tree_expand opts k s)"

definition selection_done :: "tree_view \<Rightarrow> tree_view \<times> tree_event list" where
  "selection_done s = (s, fireSelection s @ tree_emit s)"

definition range_ids :: "tree_node list \<Rightarrow> nat \<Rightarrow> nat \<Rightarrow> string jsset" where
  "range_ids visible lo hi =
     set_from (map tn_id (filter (\<lambda>n. \<not> tn_disabled n) (take (Suc hi - lo) (drop lo visible))))"

definition tree_selectImpl :: "tree_options \<Rightarrow> string \<Rightarrow> bool \<Rightarrow> bool \<Rightarrow> tree_view \<Rightarrow> tree_view \<times> tree_event list" where
  "tree_selectImpl opts k ext tog s =
     (let replace = selection_done (s\<lparr>tv_selected := [k], tv_selectionAnchor := Some k\<rparr>);
          rest = (if tog then
                    selection_done (s\<lparr>tv_selected := (if k \<in> set (tv_selected s) then removeAll k (tv_selected s)
                                                      else set_add k (tv_selected s)),
                                      tv_selectionAnchor := Some k\<rparr>)
                  else replace) in
      if tvo_selectionMode opts = Select_none then (s, [])
      else if tvo_selectionMode opts = Select_single then replace
      else if ext then
        (case tv_selectionAnchor s of
           None \<Rightarrow> rest
         | Some a \<Rightarrow>
             (let visible = tree_getVisible s;
                  start = find_index (\<lambda>n. tn_id n = a) visible;
                  finish = find_index (\<lambda>n. tn_id n = k) visible in
              if start < 0 \<or> finish < 0 then (s, [])
              else selection_done (s\<lparr>tv_selected := range_ids visible (nat (min start finish)) (nat (max start finish))\<rparr>)))
      else rest)"

definition tree_clearSelection :: "tree_view \<Rightarrow> tree_view \<times> tree_event list" where
  "tree_clearSelection s =
     (if tv_selected s = [] then (s, [])
      else selection_done (s\<lparr>tv_selected := [], tv_selectionAnchor := None\<rparr>))"

definition tree_expandAllSiblings :: "string \<Rightarrow> tree_view \<Rightarrow> tree_view \<times> tree_event list" where
  "tree_expandAllSiblings k s =
     (case find_node (tv_nodes s) k of
        None \<Rightarrow> (s, [])
      | Some node \<Rightarrow>
          (let siblings = children_of (tv_nodes s) (tn_parentId node);
               expanded = fold (\<lambda>n ex. if has_kids n \<and> tn_id n \<notin> set ex then set_add (tn_id n) ex else ex)
                            siblings (tv_expanded s) in
           if length expanded \<noteq> length (tv_expanded s) then expansion_done (s\<lparr>tv_expanded := expanded\<rparr>)
           else (s, [])))"

definition focusedNode :: "tree_view \<Rightarrow> tree_node option" where
  "focusedNode s = (case rv_activeId (tv_rover s) of None \<Rightarrow> None | Some k \<Rightarrow> find_node (tv_nodes s) k)"

definition tree_handleKeyDown :: "tree_options \<Rightarrow> key_event \<Rightarrow> tree_view \<Rightarrow> tree_view \<times> tree_event list" where
  "tree_handleKeyDown opts e s =
     (case focusedNode s of
        None \<Rightarrow> (s, [])
      | Some focused \<Rightarrow>
          (let open' = tn_id focused \<in> set (tv_expanded s) in
           if ke_key e = ''ArrowRight'' then
             after [Did Tree_preventDefault]
               (if has_kids focused \<and> \<not> open' then tree_expand opts (tn_id focused) s
                else if has_kids focused \<and> open' then
                  (case List.find (\<lambda>n. \<not> tn_disabled n) (children_of (tv_nodes s) (Some (tn_id focused))) of
                     None \<Rightarrow> (s, [])
                   | Some first \<Rightarrow> tree_via_rover (rover_setActive tree_rover_options (tn_id first)) s)
                else (s, []))
           else if ke_key e = ''ArrowLeft'' then
             after [Did Tree_preventDefault]
               (if has_kids focused \<and> open' then tree_collapse (tn_id focused) s
                else case tn_parentId focused of
                    None \<Rightarrow> (s, [])
                  | Some p \<Rightarrow> tree_via_rover (rover_setActive tree_rover_options p) s)
           else if ke_key e = ''Enter'' \<or> ke_key e = '' '' then
             after [Did Tree_preventDefault] (tree_selectImpl opts (tn_id focused) False False s)
           else if ke_key e = ''*'' then
             after [Did Tree_preventDefault] (tree_expandAllSiblings (tn_id focused) s)
           else tree_via_rover (rover_handleKeyDown tree_rover_options e) s))"

definition tree_getRootProps :: "tree_options \<Rightarrow> tree_root_props" where
  "tree_getRootProps opts =
     \<lparr>tvp_role = ''tree'',
      tvp_ariaMultiselectable = (if tvo_selectionMode opts = Select_multi then Some True else None), tvp_tabIndex = -1\<rparr>"

definition tree_getNodeProps :: "tree_options \<Rightarrow> string \<Rightarrow> tree_view \<Rightarrow> tree_node_props" where
  "tree_getNodeProps opts k s =
     (let node = find_node (tv_nodes s) k;
          isActive = (rv_activeId (tv_rover s) = Some k);
          isDis = (case node of None \<Rightarrow> False | Some n \<Rightarrow> tn_disabled n) in
      \<lparr>tnp_id = k, tnp_role = ''treeitem'', tnp_ariaLevel = tree_getAriaLevel k s,
       tnp_ariaExpanded = (case node of None \<Rightarrow> None
          | Some n \<Rightarrow> if has_kids n then Some (k \<in> set (tv_expanded s)) else None),
       tnp_ariaSelected = (if tvo_selectionMode opts = Select_none then None else Some (k \<in> set (tv_selected s))),
       tnp_ariaBusy = (if k \<in> set (tv_busy s) then Some True else None),
       tnp_ariaDisabled = (if isDis then Some True else None),
       tnp_tabIndex = (if isActive then 0 else -1),
       tnp_dataActive = (if isActive then Some [] else None)\<rparr>)"

text \<open>The \<open>onClick\<close> of a node's props.\<close>

definition tree_click :: "tree_options \<Rightarrow> string \<Rightarrow> key_event \<Rightarrow> tree_view \<Rightarrow> tree_view \<times> tree_event list" where
  "tree_click opts k e s =
     and_then
       (if ke_shift e then tree_selectImpl opts k True False s
        else if ke_meta e \<or> ke_ctrl e then tree_selectImpl opts k False True s
        else tree_selectImpl opts k False False s)
       (tree_via_rover (rover_setActive tree_rover_options k))"

datatype tree_op =
    Tree_expand string | Tree_loaded string "tree_node list" | Tree_loadFailed string
  | Tree_collapse string | Tree_toggleExpand string
  | Tree_select string bool bool | Tree_clearSelection | Tree_expandAllSiblings string
  | Tree_keyDown key_event | Tree_click string key_event | Tree_typeaheadTimeout
  | Tree_subscribe listener | Tree_unsubscribe listener

fun tree_step :: "tree_options \<Rightarrow> tree_op \<Rightarrow> tree_view \<Rightarrow> tree_view \<times> tree_event list" where
  "tree_step opts (Tree_expand k) s = tree_expand opts k s"
| "tree_step opts (Tree_loaded k kids) s = tree_loaded k kids s"
| "tree_step opts (Tree_loadFailed k) s = tree_loadFailed k s"
| "tree_step opts (Tree_collapse k) s = tree_collapse k s"
| "tree_step opts (Tree_toggleExpand k) s = tree_toggleExpand opts k s"
| "tree_step opts (Tree_select k ext tog) s = tree_selectImpl opts k ext tog s"
| "tree_step opts Tree_clearSelection s = tree_clearSelection s"
| "tree_step opts (Tree_expandAllSiblings k) s = tree_expandAllSiblings k s"
| "tree_step opts (Tree_keyDown e) s = tree_handleKeyDown opts e s"
| "tree_step opts (Tree_click k e) s = tree_click opts k e s"
| "tree_step opts Tree_typeaheadTimeout s = (s\<lparr>tv_rover := typeahead_timeout (tv_rover s)\<rparr>, [])"
| "tree_step opts (Tree_subscribe l) s = (s\<lparr>tv_listeners := subscribe l (tv_listeners s)\<rparr>, [])"
| "tree_step opts (Tree_unsubscribe l) s = (s\<lparr>tv_listeners := unsubscribe l (tv_listeners s)\<rparr>, [])"

section \<open>The walk ends\<close>

text \<open>\<open>up nodes cs p\<close>: \<open>cs\<close> is the chain of ancestors from \<open>p\<close> up to a root. With distinct ids it
  is unique and repeats no node, so a walk that starts at the root never nests deeper than
  there are nodes.\<close>

fun up :: "tree_node list \<Rightarrow> tree_node list \<Rightarrow> string option \<Rightarrow> bool" where
  "up nodes [] p = (p = None)"
| "up nodes (c # cs) p = (p = Some (tn_id c) \<and> c \<in> set nodes \<and> up nodes cs (tn_parentId c))"

lemma node_id_inj: "distinct (map tn_id nodes) \<Longrightarrow> a \<in> set nodes \<Longrightarrow> b \<in> set nodes \<Longrightarrow> tn_id a = tn_id b \<Longrightarrow> a = b"
  by (simp add: distinct_map inj_on_def)

lemma up_det: "distinct (map tn_id nodes) \<Longrightarrow> up nodes cs p \<Longrightarrow> up nodes ds p \<Longrightarrow> cs = ds"
proof (induction cs arbitrary: ds p)
  case Nil
  then show ?case by (cases ds) auto
next
  case (Cons c cs)
  then obtain d ds' where ds: "ds = d # ds'" by (cases ds) auto
  with Cons.prems have "c = d" by (auto intro: node_id_inj)
  with Cons ds show ?case by auto
qed

lemma up_suffix: "up nodes (as @ c # bs) p \<Longrightarrow> up nodes (c # bs) (Some (tn_id c))"
  by (induction as arbitrary: p) auto

lemma up_distinct: "distinct (map tn_id nodes) \<Longrightarrow> up nodes cs p \<Longrightarrow> distinct cs"
proof (induction cs arbitrary: p)
  case (Cons c cs)
  have "c \<notin> set cs"
  proof
    assume "c \<in> set cs"
    then obtain as bs where s: "cs = as @ c # bs" by (meson split_list)
    have "up nodes (c # bs) (Some (tn_id c))" using Cons.prems(2) s up_suffix[of nodes "c # as" c bs p] by simp
    with up_det[OF Cons.prems(1) this, of "c # as @ c # bs"] Cons.prems(2) s show False by simp
  qed
  with Cons show ?case by auto
qed simp

lemma up_length:
  assumes "distinct (map tn_id nodes)" and "up nodes cs p"
  shows "length cs \<le> length nodes"
proof -
  have "set cs \<subseteq> set nodes" using assms(2) by (induction cs arbitrary: p) auto
  moreover have "distinct cs" using assms by (rule up_distinct)
  ultimately show ?thesis by (metis card_length card_mono distinct_card List.finite_set le_trans)
qed

lemma those_Some: "\<forall>x\<in>set xs. x \<noteq> None \<Longrightarrow> those xs = Some (map the xs)"
  by (induction xs) auto

definition sub_walk :: "nat \<Rightarrow> tree_node list \<Rightarrow> (tree_node \<Rightarrow> bool) \<Rightarrow> tree_node \<Rightarrow> tree_node list option" where
  "sub_walk fuel nodes follow k =
     (if follow k then map_option (Cons k) (walk fuel nodes follow (Some (tn_id k))) else Some [k])"

lemma walk_Suc: "walk (Suc fuel) nodes follow p = map_option concat (those (map (sub_walk fuel nodes follow) (children_of nodes p)))"
  by (simp add: sub_walk_def[abs_def])

lemma up_child: "up nodes cs p \<Longrightarrow> k \<in> set (children_of nodes p) \<Longrightarrow> up nodes (k # cs) (Some (tn_id k))"
  by (auto simp: children_of_def)

lemma walk_total:
  "distinct (map tn_id nodes) \<Longrightarrow> up nodes cs p \<Longrightarrow> length nodes < length cs + fuel \<Longrightarrow>
   \<exists>v. walk fuel nodes follow p = Some v"
proof (induction fuel arbitrary: cs p)
  case 0
  then show ?case using up_length by fastforce
next
  case (Suc fuel)
  have "sub_walk fuel nodes follow k \<noteq> None" if "k \<in> set (children_of nodes p)" for k
    using Suc.IH[OF Suc.prems(1) up_child[OF Suc.prems(2) that]] Suc.prems(3) by (auto simp: sub_walk_def)
  then have "\<forall>x\<in>set (map (sub_walk fuel nodes follow) (children_of nodes p)). x \<noteq> None" by auto
  then show ?case unfolding walk_Suc by (simp add: those_Some)
qed

lemma visible_walk_total: "distinct (map tn_id nodes) \<Longrightarrow> \<exists>v. visible_walk nodes expanded = Some v"
  unfolding visible_walk_def by (rule walk_total[of nodes "[]"]) simp_all

section \<open>What is visible\<close>

text \<open>The abstract reading: a node is shown if it is a root, or if its parent is shown and open.\<close>

inductive shown :: "tree_node list \<Rightarrow> (tree_node \<Rightarrow> bool) \<Rightarrow> string option \<Rightarrow> tree_node \<Rightarrow> bool"
  for nodes :: "tree_node list" and follow :: "tree_node \<Rightarrow> bool" and p :: "string option" where
  Shown_top: "n \<in> set nodes \<Longrightarrow> tn_parentId n = p \<Longrightarrow> shown nodes follow p n"
| Shown_below: "shown nodes follow p m \<Longrightarrow> follow m \<Longrightarrow> n \<in> set nodes \<Longrightarrow> tn_parentId n = Some (tn_id m) \<Longrightarrow>
    shown nodes follow p n"

inductive_cases shownE: "shown nodes follow p n"

lemma shown_first_step:
  "shown nodes follow (Some (tn_id m)) n \<Longrightarrow> m \<in> set nodes \<Longrightarrow> tn_parentId m = p \<Longrightarrow> follow m \<Longrightarrow> shown nodes follow p n"
proof (induction rule: shown.induct)
  case (Shown_top n)
  then show ?case using Shown_below[OF shown.Shown_top[of m nodes p follow]] by simp
next
  case (Shown_below m' n)
  then show ?case by (intro shown.Shown_below[of nodes follow p m' n]) auto
qed

lemma shown_split:
  "shown nodes follow p n \<longleftrightarrow>
   (\<exists>k\<in>set (children_of nodes p). n = k \<or> follow k \<and> shown nodes follow (Some (tn_id k)) n)"
proof
  show "shown nodes follow p n \<Longrightarrow> \<exists>k\<in>set (children_of nodes p). n = k \<or> follow k \<and> shown nodes follow (Some (tn_id k)) n"
  proof (induction rule: shown.induct)
    case (Shown_top n)
    then show ?case by (auto simp: children_of_def)
  next
    case (Shown_below m n)
    then show ?case using shown.Shown_top[of n nodes "Some (tn_id m)" follow] by (blast intro: shown.Shown_below)
  qed
  show "\<exists>k\<in>set (children_of nodes p). n = k \<or> follow k \<and> shown nodes follow (Some (tn_id k)) n \<Longrightarrow> shown nodes follow p n"
    by (auto simp: children_of_def intro: Shown_top shown_first_step)
qed

lemma those_eq_Some: "those xs = Some ys \<longleftrightarrow> xs = map Some ys"
proof (induction xs arbitrary: ys)
  case Nil
  then show ?case by auto
next
  case (Cons x xs)
  then show ?case by (cases x; cases ys) auto
qed

lemma walk_set: "walk fuel nodes follow p = Some v \<Longrightarrow> n \<in> set v \<longleftrightarrow> shown nodes follow p n"
proof (induction fuel arbitrary: p v n)
  case (Suc fuel)
  then obtain vs where vs: "map (sub_walk fuel nodes follow) (children_of nodes p) = map Some vs" "v = concat vs"
    unfolding walk_Suc by (auto simp: those_eq_Some)
  have sub: "set (the (sub_walk fuel nodes follow k)) = insert k (if follow k then {n. shown nodes follow (Some (tn_id k)) n} else {})"
    if "k \<in> set (children_of nodes p)" for k
  proof -
    have "sub_walk fuel nodes follow k \<in> set (map Some vs)" using that vs(1) by (metis image_eqI set_map)
    then show ?thesis using Suc.IH[of "Some (tn_id k)"] by (auto simp: sub_walk_def split: if_splits)
  qed
  have "vs = map (\<lambda>k. the (sub_walk fuel nodes follow k)) (children_of nodes p)"
    using arg_cong[OF vs(1), of "map the"] by (simp add: comp_def)
  then have "set v = (\<Union>k\<in>set (children_of nodes p). set (the (sub_walk fuel nodes follow k)))"
    using vs(2) by simp
  then show ?case using sub shown_split[of nodes follow p n] by (auto split: if_splits)
qed simp

lemma shown_chain:
  "shown nodes follow p n \<Longrightarrow> up nodes cs p \<Longrightarrow> \<exists>as. up nodes (n # as @ cs) (Some (tn_id n))"
proof (induction rule: shown.induct)
  case (Shown_top n)
  then show ?case by (intro exI[of _ "[]"]) simp
next
  case (Shown_below m n)
  then obtain as where "up nodes (m # as @ cs) (Some (tn_id m))" by blast
  with Shown_below show ?case by (intro exI[of _ "m # as"]) simp
qed

lemma distinct_concat_map:
  "distinct ks \<Longrightarrow> (\<And>k. k \<in> set ks \<Longrightarrow> distinct (g k)) \<Longrightarrow>
   (\<And>j k. j \<in> set ks \<Longrightarrow> k \<in> set ks \<Longrightarrow> j \<noteq> k \<Longrightarrow> set (g j) \<inter> set (g k) = {}) \<Longrightarrow> distinct (concat (map g ks))"
  by (induction ks) fastforce+

lemma walk_distinct:
  "distinct (map tn_id nodes) \<Longrightarrow> up nodes cs p \<Longrightarrow> walk fuel nodes follow p = Some v \<Longrightarrow> distinct v"
proof (induction fuel arbitrary: p cs v)
  case (Suc fuel)
  let ?g = "\<lambda>k. the (sub_walk fuel nodes follow k)"
  obtain vs where vs: "map (sub_walk fuel nodes follow) (children_of nodes p) = map Some vs" "v = concat vs"
    using Suc.prems(3) unfolding walk_Suc by (auto simp: those_eq_Some)
  have v: "v = concat (map ?g (children_of nodes p))"
    using arg_cong[OF vs(1), of "map the"] vs(2) by (simp add: comp_def)
  have g: "?g k = (if follow k then k # the (walk fuel nodes follow (Some (tn_id k))) else [k])"
    "follow k \<Longrightarrow> \<exists>w. walk fuel nodes follow (Some (tn_id k)) = Some w"
    if "k \<in> set (children_of nodes p)" for k
  proof -
    have "sub_walk fuel nodes follow k \<in> set (map Some vs)" using that vs(1) by (metis image_eqI set_map)
    then show "?g k = (if follow k then k # the (walk fuel nodes follow (Some (tn_id k))) else [k])"
      "follow k \<Longrightarrow> \<exists>w. walk fuel nodes follow (Some (tn_id k)) = Some w"
      by (auto simp: sub_walk_def)
  qed
  have mem: "\<exists>as. up nodes (as @ k # cs) (Some (tn_id n)) \<and> (n \<noteq> k \<longrightarrow> as \<noteq> [])"
    if k: "k \<in> set (children_of nodes p)" and n: "n \<in> set (?g k)" for k n
  proof (cases "n = k")
    case True
    then show ?thesis using up_child[OF Suc.prems(2) k] by (intro exI[of _ "[]"]) simp
  next
    case False
    with n g[OF k] have "shown nodes follow (Some (tn_id k)) n" by (auto simp: walk_set split: if_splits)
    from shown_chain[OF this up_child[OF Suc.prems(2) k]] obtain as where
      "up nodes (n # as @ k # cs) (Some (tn_id n))" by blast
    then show ?thesis by (intro exI[of _ "n # as"]) simp
  qed
  show ?case
    unfolding v
  proof (rule distinct_concat_map)
    show "distinct (children_of nodes p)" using Suc.prems(1) by (simp add: children_of_def distinct_map)
    fix k assume k: "k \<in> set (children_of nodes p)"
    have "k \<notin> set w" if w: "walk fuel nodes follow (Some (tn_id k)) = Some w" for w
    proof
      assume "k \<in> set w"
      then have "shown nodes follow (Some (tn_id k)) k" using walk_set[OF w] by simp
      from shown_chain[OF this up_child[OF Suc.prems(2) k]] obtain as where
        "up nodes (k # as @ k # cs) (Some (tn_id k))" by blast
      from up_det[OF Suc.prems(1) this up_child[OF Suc.prems(2) k]] show False by simp
    qed
    moreover have "distinct w" if "walk fuel nodes follow (Some (tn_id k)) = Some w" for w
      using Suc.IH[OF Suc.prems(1) up_child[OF Suc.prems(2) k] that] .
    ultimately show "distinct (?g k)" using g[OF k] by auto
  next
    fix j k assume j: "j \<in> set (children_of nodes p)" and k: "k \<in> set (children_of nodes p)" and ne: "j \<noteq> k"
    show "set (?g j) \<inter> set (?g k) = {}"
    proof (rule ccontr)
      assume "set (?g j) \<inter> set (?g k) \<noteq> {}"
      then obtain n where n: "n \<in> set (?g j)" "n \<in> set (?g k)" by auto
      obtain as bs where "up nodes (as @ j # cs) (Some (tn_id n))" "up nodes (bs @ k # cs) (Some (tn_id n))"
        using mem[OF j n(1)] mem[OF k n(2)] by blast
      from up_det[OF Suc.prems(1) this] have "as @ [j] @ cs = bs @ [k] @ cs" by simp
      then have "as @ [j] = bs @ [k]" by simp
      with ne show False by simp
    qed
  qed
qed simp

section \<open>The invariant\<close>

text \<open>Node ids stay distinct and the rover always holds exactly the visible nodes.\<close>

definition tree_ok :: "tree_view \<Rightarrow> bool" where
  "tree_ok s \<longleftrightarrow> distinct (map tn_id (tv_nodes s)) \<and> rover_ok (tv_rover s) \<and>
     rv_items (tv_rover s) = visibleItems s"

lemma tree_visible_cong [simp]:
  "tree_getVisible (s\<lparr>tv_rover := r\<rparr>) = tree_getVisible s" "tree_getVisible (s\<lparr>tv_selected := a\<rparr>) = tree_getVisible s"
  "tree_getVisible (s\<lparr>tv_busy := b\<rparr>) = tree_getVisible s" "tree_getVisible (s\<lparr>tv_selectionAnchor := c\<rparr>) = tree_getVisible s"
  "tree_getVisible (s\<lparr>tv_loading := d\<rparr>) = tree_getVisible s" "tree_getVisible (s\<lparr>tv_listeners := e\<rparr>) = tree_getVisible s"
  by (simp_all add: tree_getVisible_def)

lemma tree_ok_cong [simp]:
  "tree_ok (s\<lparr>tv_selected := a\<rparr>) = tree_ok s" "tree_ok (s\<lparr>tv_busy := b\<rparr>) = tree_ok s"
  "tree_ok (s\<lparr>tv_selectionAnchor := c\<rparr>) = tree_ok s" "tree_ok (s\<lparr>tv_loading := d\<rparr>) = tree_ok s"
  "tree_ok (s\<lparr>tv_listeners := e\<rparr>) = tree_ok s"
  by (simp_all add: tree_ok_def visibleItems_def)

lemma tree_via_rover_fst: "fst (tree_via_rover f s) = s\<lparr>tv_rover := fst (f (tv_rover s))\<rparr>"
  by (simp add: tree_via_rover_def Let_def split_def)

lemma tree_ok_rover:
  "tree_ok s \<Longrightarrow> rover_ok (fst (f (tv_rover s))) \<Longrightarrow> rv_items (fst (f (tv_rover s))) = rv_items (tv_rover s) \<Longrightarrow>
   tree_ok (fst (tree_via_rover f s))"
  by (simp add: tree_ok_def tree_via_rover_fst visibleItems_def)

lemma tree_ok_setActive: "tree_ok s \<Longrightarrow> tree_ok (fst (tree_via_rover (rover_setActive o' k) s))"
  using rv.set_active_ok[of "tv_rover s"] rv.set_active_items by (intro tree_ok_rover) (auto simp: tree_ok_def)

lemma tree_ok_key: "tree_ok s \<Longrightarrow> tree_ok (fst (tree_via_rover (rover_handleKeyDown o' e) s))"
  using rv.key_ok[of "tv_rover s"] rv.key_items by (intro tree_ok_rover) (auto simp: tree_ok_def)

lemma tree_ok_expansion: "distinct (map tn_id (tv_nodes s)) \<Longrightarrow> tree_ok (fst (expansion_done s))"
  by (simp add: expansion_done_def syncRover_def tree_via_rover_fst tree_ok_def rover_setItems_ok visibleItems_def)

lemma tree_ok_ids: "tree_ok s \<Longrightarrow> distinct (map tn_id (tv_nodes s))"
  by (simp add: tree_ok_def)

lemma merge_nodes_distinct: "distinct (map tn_id (merge_nodes a b))"
proof -
  have "distinct (map_keys m) \<and> (\<forall>(k, n)\<in>set m. tn_id n = k) \<Longrightarrow>
      distinct (map_keys (fold (\<lambda>(k, v). map_set k v) (map (\<lambda>n. (tn_id n, n)) ns) m)) \<and>
      (\<forall>(k, n)\<in>set (fold (\<lambda>(k, v). map_set k v) (map (\<lambda>n. (tn_id n, n)) ns) m). tn_id n = k)" for ns m
  proof (induction ns arbitrary: m)
    case (Cons n ns)
    have "distinct (map_keys (map_set (tn_id n) n m)) \<and> (\<forall>(k, x)\<in>set (map_set (tn_id n) n m). tn_id x = k)"
      using Cons.prems by (auto dest!: in_update_cases)
    from Cons.IH[OF this] show ?case by simp
  qed simp
  from this[of "[]" "a @ b"]
  have d: "distinct (map_keys (map_from (map (\<lambda>n. (tn_id n, n)) (a @ b))))"
    and k: "\<forall>(k, n)\<in>set (map_from (map (\<lambda>n. (tn_id n, n)) (a @ b))). tn_id n = k"
    by (simp_all add: map_from_def)
  have "map tn_id (merge_nodes a b) = map_keys (map_from (map (\<lambda>n. (tn_id n, n)) (a @ b)))"
    using k by (auto simp: merge_nodes_def)
  with d show ?thesis by simp
qed

lemma tree_ok_selection: "tree_ok s \<Longrightarrow> tree_ok (fst (tree_selectImpl opts k ext tog s))"
  by (auto simp: tree_selectImpl_def selection_done_def Let_def split: option.split)

lemma tree_ok_expand: "tree_ok s \<Longrightarrow> tree_ok (fst (tree_expand opts k s))"
  by (auto simp: tree_expand_def Let_def tree_ok_ids intro: tree_ok_expansion split: option.split)

lemma tree_ok_collapse: "tree_ok s \<Longrightarrow> tree_ok (fst (tree_collapse k s))"
  by (auto simp: tree_collapse_def tree_ok_ids intro: tree_ok_expansion)

lemma tree_ok_siblings: "tree_ok s \<Longrightarrow> tree_ok (fst (tree_expandAllSiblings k s))"
  by (auto simp: tree_expandAllSiblings_def Let_def tree_ok_ids intro: tree_ok_expansion split: option.split)

lemma tree_ok_typeahead: "tree_ok s \<Longrightarrow> tree_ok (s\<lparr>tv_rover := typeahead_timeout (tv_rover s)\<rparr>)"
  by (auto simp: tree_ok_def typeahead_timeout_def clearTypeahead_def rover_ok_def visibleItems_def)

lemma tree_ok_handleKeyDown: "tree_ok s \<Longrightarrow> tree_ok (fst (tree_handleKeyDown opts e s))"
  by (auto simp: tree_handleKeyDown_def Let_def tree_ok_expand tree_ok_collapse tree_ok_selection tree_ok_siblings
      tree_ok_setActive tree_ok_key split: option.split)

lemma tree_step_ok: "tree_ok s \<Longrightarrow> tree_ok (fst (tree_step opts x s))"
  by (cases x)
    (auto simp: tree_ok_expand tree_loaded_def merge_nodes_distinct tree_loadFailed_def tree_ok_collapse
      tree_toggleExpand_def tree_ok_selection tree_clearSelection_def selection_done_def tree_ok_siblings
      tree_ok_handleKeyDown tree_click_def tree_ok_setActive tree_ok_typeahead Let_def intro: tree_ok_expansion)

interpretation tree_component: component "tree_step opts" tree_ok "\<lambda>x. True"
  by unfold_locales (simp add: tree_step_ok)

lemma tree_ok_create:
  assumes "distinct (map tn_id nodes)"
  shows "tree_ok (createTreeView opts nodes)"
proof -
  have "rover_ok ((createRovingTabindex o' items)\<lparr>rv_listeners := l\<rparr>)" for o' items l
    using rover_ok_create[of o' items] by (simp add: rover_ok_def)
  moreover have "rv_items (createRovingTabindex o' items) = items" for o' items
    by (simp add: createRovingTabindex_def)
  ultimately show ?thesis
    using assms by (simp add: tree_ok_def createTreeView_def Let_def visibleItems_def tree_getVisible_def)
qed

lemmas tree_run_ok = tree_component.run_inv[OF tree_ok_create, simplified]

section \<open>Properties\<close>

definition demo_node :: "string \<Rightarrow> string option \<Rightarrow> has_children \<Rightarrow> tree_node" where
  "demo_node k p h = \<lparr>tn_id = k, tn_label = k, tn_parentId = p, tn_hasChildren = h, tn_disabled = (k = ''d'')\<rparr>"

definition demo_nodes :: "tree_node list" where
  "demo_nodes = [demo_node ''a'' None Has_children, demo_node ''a1'' (Some ''a'') No_children,
     demo_node ''b'' None Lazy_children, demo_node ''d'' None No_children]"

definition demo_tree_options :: tree_options where
  "demo_tree_options = \<lparr>tvo_selectionMode = Select_multi, tvo_defaultExpanded = [], tvo_defaultSelected = [],
     tvo_hasOnLoadChildren = True\<rparr>"

lemma demo_nodes_distinct: "distinct (map tn_id demo_nodes)"
  by (simp add: demo_nodes_def demo_node_def)

text \<open>C19: The flattening. On a tree with distinct node ids driven by any calls, loads that resolve or
  fail at any time included, \<open>getVisible\<close> ends and lists exactly the nodes that are roots or
  whose parent is listed, has children and is expanded - each of them once.\<close>

theorem tree_visible_spec:
  fixes xs :: "tree_op list" and opts :: tree_options
  assumes "distinct (map tn_id nodes)"
  defines "s \<equiv> fst (run (tree_step opts) xs (createTreeView opts nodes))"
  shows "visible_walk (tv_nodes s) (tv_expanded s) = Some (tree_getVisible s) \<and> distinct (tree_getVisible s) \<and>
    set (tree_getVisible s) =
      {n. shown (tv_nodes s) (\<lambda>m. has_kids m \<and> tn_id m \<in> set (tv_expanded s)) None n}"
proof -
  have d: "distinct (map tn_id (tv_nodes s))"
    unfolding s_def using tree_ok_ids[OF tree_run_ok[OF assms(1)]] .
  then obtain v where v: "visible_walk (tv_nodes s) (tv_expanded s) = Some v" using visible_walk_total by blast
  then have "tree_getVisible s = v" by (simp add: tree_getVisible_def visible_nodes_def)
  moreover note w = v[unfolded visible_walk_def]
  moreover have "distinct v" by (rule walk_distinct[OF d _ w, of "[]"]) simp
  moreover have "set v = {n. shown (tv_nodes s) (\<lambda>m. has_kids m \<and> tn_id m \<in> set (tv_expanded s)) None n}"
    using walk_set[OF w] by blast
  ultimately show ?thesis using v by (simp only: simp_thms)
qed

theorem tree_visible_spec_witness:
  "let s = fst (run (tree_step demo_tree_options)
       [Tree_expand ''b'', Tree_expand ''a'', Tree_loaded ''b'' [demo_node ''b1'' (Some ''b'') No_children]]
       (createTreeView demo_tree_options demo_nodes))
   in map tn_id (tree_getVisible s) = [''a'', ''a1'', ''b'', ''b1'', ''d''] \<and> distinct (tree_getVisible s)"
proof -
  let ?xs = "[Tree_expand ''b'', Tree_expand ''a'', Tree_loaded ''b'' [demo_node ''b1'' (Some ''b'') No_children]]"
  have "map tn_id (tree_getVisible (fst (run (tree_step demo_tree_options) ?xs (createTreeView demo_tree_options demo_nodes))))
      = [''a'', ''a1'', ''b'', ''b1'', ''d'']" by code_simp
  with tree_visible_spec[OF demo_nodes_distinct, of demo_tree_options ?xs] show ?thesis unfolding Let_def by blast
qed

text \<open>Focus is never on a hidden node. The node with the tab stop is a visible, enabled one,
  whatever was collapsed, loaded or selected in between; there is none only while every visible
  node is disabled.\<close>

theorem tree_focus_visible:
  fixes xs :: "tree_op list" and opts :: tree_options
  assumes "distinct (map tn_id nodes)"
  defines "s \<equiv> fst (run (tree_step opts) xs (createTreeView opts nodes))"
  shows "case tvs_activeId (tree_view_of s) of
      None \<Rightarrow> list_all tn_disabled (tree_getVisible s)
    | Some k \<Rightarrow> list_ex (\<lambda>n. tn_id n = k \<and> \<not> tn_disabled n) (tree_getVisible s)"
proof -
  have ok: "tree_ok s" unfolding s_def by (rule tree_run_ok[OF assms(1)])
  then have "active_ok (visibleItems s) (rv_activeId (tv_rover s))" by (auto simp: tree_ok_def rover_ok_def)
  then show ?thesis
    by (auto simp: active_ok_def tree_view_of_def visibleItems_def isEnabled_def list_all_iff list_ex_iff split: option.splits)
qed

theorem tree_focus_visible_witness:
  "let s = fst (run (tree_step demo_tree_options)
       [Tree_expand ''a'', Tree_click ''a1'' \<lparr>ke_key = [], ke_shift = False, ke_meta = False, ke_ctrl = False, ke_alt = False\<rparr>,
        Tree_collapse ''a''] (createTreeView demo_tree_options demo_nodes))
   in tvs_activeId (tree_view_of s) = Some ''b'' \<and>
      list_ex (\<lambda>n. tn_id n = ''b'' \<and> \<not> tn_disabled n) (tree_getVisible s)"
proof -
  let ?xs = "[Tree_expand ''a'', Tree_click ''a1'' \<lparr>ke_key = [], ke_shift = False, ke_meta = False, ke_ctrl = False, ke_alt = False\<rparr>,
        Tree_collapse ''a'']"
  have "tvs_activeId (tree_view_of (fst (run (tree_step demo_tree_options) ?xs (createTreeView demo_tree_options demo_nodes))))
      = Some ''b''" by code_simp
  with tree_focus_visible[OF demo_nodes_distinct, of demo_tree_options ?xs] show ?thesis unfolding Let_def by simp
qed

text \<open>A click on a disabled node selects it. In a selectable tree, a plain click makes any node
  the selection and reports it, although the node's props say \<open>aria-disabled\<close>; only the focus
  stays away from it.\<close>

theorem tree_click_selects_disabled:
  assumes "tvo_selectionMode opts \<noteq> Select_none" and "\<not> ke_shift e" and "\<not> ke_meta e" and "\<not> ke_ctrl e"
    and "tnp_ariaDisabled (tree_getNodeProps opts k s) = Some True"
  shows "tv_selected (fst (tree_click opts k e s)) = [k] \<and>
    Tree_onSelectionChange [k] \<in> set (did (snd (tree_click opts k e s)))"
proof -
  have d: "x \<in> set (did es) \<Longrightarrow> x \<in> set (did (es @ fs))" for x and es fs :: "tree_event list" by simp
  show ?thesis
    using assms(1-4) by (auto simp: tree_click_def tree_selectImpl_def selection_done_def fireSelection_def
        tree_via_rover_fst Let_def)
qed

theorem tree_click_selects_disabled_witness:
  "tv_selected (fst (tree_click demo_tree_options ''d''
     \<lparr>ke_key = [], ke_shift = False, ke_meta = False, ke_ctrl = False, ke_alt = False\<rparr>
     (createTreeView demo_tree_options demo_nodes))) = [''d'']"
proof -
  have "find_node demo_nodes ''d'' = Some (demo_node ''d'' None No_children)"
    by (simp add: find_node_def demo_nodes_def demo_node_def)
  then have "tnp_ariaDisabled (tree_getNodeProps demo_tree_options ''d'' (createTreeView demo_tree_options demo_nodes)) = Some True"
    by (simp add: tree_getNodeProps_def createTreeView_def Let_def demo_node_def)
  then show ?thesis
    using tree_click_selects_disabled[of demo_tree_options
        "\<lparr>ke_key = [], ke_shift = False, ke_meta = False, ke_ctrl = False, ke_alt = False\<rparr>" "''d''"]
    by (simp add: demo_tree_options_def)
qed

end
