(* ===== verification/Split_Pane.thy ===== *)
theory Split_Pane
  imports Js_Text Contracts
begin

text \<open>
  \<open>headless-core/split-pane.ts\<close>: a resizable splitter. Ratios are rationals (the code's doubles
  without rounding); where the code looks at \<open>NaN\<close> a number is a \<open>jsnum\<close>. A stored value is
  what \<open>parseFloat\<close> reads from the stored text; the text \<open>String(ratio)\<close> reads as the ratio.
\<close>

section \<open>Data\<close>

datatype split_direction = Split_horizontal | Split_vertical

datatype split_side = Side_first | Side_second

record split_options =
  spo_direction :: split_direction
  spo_defaultRatio :: jsnum
  spo_minRatio :: rat
  spo_maxRatio :: rat
  spo_persists :: bool
  spo_ariaLabel :: string

record split_pane =
  sp_ratio :: rat
  sp_prevRatio :: rat
  sp_collapsed :: bool
  sp_containerSize :: rat
  sp_dragging :: bool
  sp_dragStartClient :: rat
  sp_dragStartRatio :: rat
  sp_stored :: "jsnum option"
  sp_listeners :: "listener jsset"

datatype split_effect = Split_onResize rat | Split_preventDefault

type_synonym split_event = "(rat \<times> bool, split_effect) event"

record splitter_props =
  spp_role :: string
  spp_ariaLabel :: string
  spp_ariaOrientation :: split_direction
  spp_ariaValuenow :: int
  spp_ariaValuemin :: int
  spp_ariaValuemax :: int
  spp_tabIndex :: int

section \<open>Operations\<close>

definition DEFAULT_DEFAULT_RATIO :: rat where "DEFAULT_DEFAULT_RATIO = 1/2"
definition DEFAULT_MIN_RATIO :: rat where "DEFAULT_MIN_RATIO = 1/10"
definition DEFAULT_MAX_RATIO :: rat where "DEFAULT_MAX_RATIO = 9/10"
definition STEP :: rat where "STEP = 2/100"
definition COARSE_STEP :: rat where "COARSE_STEP = 1/10"

definition clamp :: "split_options \<Rightarrow> jsnum \<Rightarrow> rat" where
  "clamp opts v =
     (case v of
        NaN \<Rightarrow> DEFAULT_DEFAULT_RATIO
      | PosInf \<Rightarrow> max (spo_minRatio opts) (spo_maxRatio opts)
      | NegInf \<Rightarrow> spo_minRatio opts
      | Num x \<Rightarrow> max (spo_minRatio opts) (min (spo_maxRatio opts) x))"

text \<open>\<open>!Number.isNaN(parsed) && parsed >= minRatio && parsed <= maxRatio\<close>.\<close>

definition restorable :: "split_options \<Rightarrow> jsnum \<Rightarrow> bool" where
  "restorable opts v =
     (case v of Num x \<Rightarrow> spo_minRatio opts \<le> x \<and> x \<le> spo_maxRatio opts | _ \<Rightarrow> False)"

definition initial_ratio :: "split_options \<Rightarrow> jsnum option \<Rightarrow> jsnum" where
  "initial_ratio opts stored =
     (case stored of
        None \<Rightarrow> spo_defaultRatio opts
      | Some parsed \<Rightarrow> if spo_persists opts \<and> restorable opts parsed then parsed else spo_defaultRatio opts)"

definition createSplitPane :: "split_options \<Rightarrow> jsnum option \<Rightarrow> split_pane" where
  "createSplitPane opts stored =
     (let ratio = clamp opts (initial_ratio opts stored) in
      \<lparr>sp_ratio = ratio, sp_prevRatio = ratio, sp_collapsed = False, sp_containerSize = 0,
       sp_dragging = False, sp_dragStartClient = 0, sp_dragStartRatio = 0, sp_stored = stored, sp_listeners = []\<rparr>)"

definition split_view :: "split_pane \<Rightarrow> rat \<times> bool" where
  "split_view s = (sp_ratio s, sp_collapsed s)"

definition split_emit :: "split_pane \<Rightarrow> split_event list" where
  "split_emit s = emit_to (sp_listeners s) (split_view s) @ [Did (Split_onResize (sp_ratio s))]"

definition split_persist :: "split_options \<Rightarrow> split_pane \<Rightarrow> split_pane" where
  "split_persist opts s = (if spo_persists opts then s\<lparr>sp_stored := Some (Num (sp_ratio s))\<rparr> else s)"

definition setRatioInternal :: "split_options \<Rightarrow> bool \<Rightarrow> jsnum \<Rightarrow> split_pane \<Rightarrow> split_pane \<times> split_event list" where
  "setRatioInternal opts persist v s =
     (let next = clamp opts v in
      if next = sp_ratio s then (s, [])
      else
        (let s1 = s\<lparr>sp_ratio := next\<rparr>;
             s2 = (if persist then split_persist opts s1 else s1)
         in (s2, split_emit s2)))"

definition split_setRatio :: "split_options \<Rightarrow> jsnum \<Rightarrow> split_pane \<Rightarrow> split_pane \<times> split_event list" where
  "split_setRatio opts v s = setRatioInternal opts True v s"

definition split_collapse :: "split_options \<Rightarrow> split_side \<Rightarrow> split_pane \<Rightarrow> split_pane \<times> split_event list" where
  "split_collapse opts side s =
     (let s1 = (if sp_collapsed s then s else s\<lparr>sp_prevRatio := sp_ratio s\<rparr>);
          s2 = s1\<lparr>sp_collapsed := True,
                  sp_ratio := (if side = Side_first then spo_minRatio opts else spo_maxRatio opts)\<rparr>
      in (s2, split_emit s2))"

definition split_expand :: "split_options \<Rightarrow> split_pane \<Rightarrow> split_pane \<times> split_event list" where
  "split_expand opts s =
     (if \<not> sp_collapsed s then (s, [])
      else
        (let s1 = split_persist opts (s\<lparr>sp_collapsed := False, sp_ratio := clamp opts (Num (sp_prevRatio s))\<rparr>)
         in (s1, split_emit s1)))"

definition js_round :: "rat \<Rightarrow> int" where
  "js_round x = \<lfloor>x + 1/2\<rfloor>"

definition split_getSplitterProps :: "split_options \<Rightarrow> split_pane \<Rightarrow> splitter_props" where
  "split_getSplitterProps opts s =
     \<lparr>spp_role = ''separator'', spp_ariaLabel = spo_ariaLabel opts, spp_ariaOrientation = spo_direction opts,
      spp_ariaValuenow = js_round (sp_ratio s * 100), spp_ariaValuemin = js_round (spo_minRatio opts * 100),
      spp_ariaValuemax = js_round (spo_maxRatio opts * 100), spp_tabIndex = 0\<rparr>"

definition split_setContainerSize :: "rat \<Rightarrow> split_pane \<Rightarrow> split_pane" where
  "split_setContainerSize px s = s\<lparr>sp_containerSize := px\<rparr>"

definition client_of :: "split_options \<Rightarrow> rat \<times> rat \<Rightarrow> rat" where
  "client_of opts p = (if spo_direction opts = Split_horizontal then fst p else snd p)"

definition split_handlePointerDown :: "split_options \<Rightarrow> rat \<times> rat \<Rightarrow> split_pane \<Rightarrow> split_pane" where
  "split_handlePointerDown opts p s =
     s\<lparr>sp_dragging := True, sp_dragStartClient := client_of opts p, sp_dragStartRatio := sp_ratio s\<rparr>"

definition split_handlePointerMove :: "split_options \<Rightarrow> rat \<times> rat \<Rightarrow> split_pane \<Rightarrow> split_pane \<times> split_event list" where
  "split_handlePointerMove opts p s =
     (if \<not> sp_dragging s then (s, [])
      else if sp_containerSize s \<le> 0 then (s, [])
      else
        (let delta = (client_of opts p - sp_dragStartClient s) / sp_containerSize s
         in setRatioInternal opts False (Num (sp_dragStartRatio s + delta)) s))"

definition split_handlePointerUp :: "split_options \<Rightarrow> split_pane \<Rightarrow> split_pane" where
  "split_handlePointerUp opts s =
     (if \<not> sp_dragging s then s else split_persist opts (s\<lparr>sp_dragging := False\<rparr>))"

definition split_handleKeyDown :: "split_options \<Rightarrow> string \<Rightarrow> bool \<Rightarrow> split_pane \<Rightarrow> split_pane \<times> split_event list" where
  "split_handleKeyDown opts key shift s =
     (let step = (if shift then COARSE_STEP else STEP);
          isHorizontal = (spo_direction opts = Split_horizontal);
          go = (\<lambda>x. after [Did Split_preventDefault] (setRatioInternal opts True (Num x) s)) in
      if key = ''ArrowRight'' then (if isHorizontal then go (sp_ratio s + step) else (s, []))
      else if key = ''ArrowLeft'' then (if isHorizontal then go (sp_ratio s - step) else (s, []))
      else if key = ''ArrowDown'' then (if \<not> isHorizontal then go (sp_ratio s + step) else (s, []))
      else if key = ''ArrowUp'' then (if \<not> isHorizontal then go (sp_ratio s - step) else (s, []))
      else if key = ''Home'' then go (spo_minRatio opts)
      else if key = ''End'' then go (spo_maxRatio opts)
      else if key = ''Enter'' \<or> key = '' '' then
        after [Did Split_preventDefault]
          (if sp_collapsed s then split_expand opts s
           else split_collapse opts
             (if sp_ratio s < (spo_minRatio opts + spo_maxRatio opts) / 2 then Side_first else Side_second) s)
      else (s, []))"

datatype split_op =
    Split_setRatio jsnum | Split_collapse split_side | Split_expand | Split_setContainerSize rat
  | Split_pointerDown "rat \<times> rat" | Split_pointerMove "rat \<times> rat" | Split_pointerUp
  | Split_keyDown string bool | Split_subscribe listener | Split_unsubscribe listener

fun split_step :: "split_options \<Rightarrow> split_op \<Rightarrow> split_pane \<Rightarrow> split_pane \<times> split_event list" where
  "split_step opts (Split_setRatio v) s = split_setRatio opts v s"
| "split_step opts (Split_collapse side) s = split_collapse opts side s"
| "split_step opts Split_expand s = split_expand opts s"
| "split_step opts (Split_setContainerSize px) s = (split_setContainerSize px s, [])"
| "split_step opts (Split_pointerDown p) s = (split_handlePointerDown opts p s, [])"
| "split_step opts (Split_pointerMove p) s = split_handlePointerMove opts p s"
| "split_step opts Split_pointerUp s = (split_handlePointerUp opts s, [])"
| "split_step opts (Split_keyDown key shift) s = split_handleKeyDown opts key shift s"
| "split_step opts (Split_subscribe l) s = (s\<lparr>sp_listeners := subscribe l (sp_listeners s)\<rparr>, [])"
| "split_step opts (Split_unsubscribe l) s = (s\<lparr>sp_listeners := unsubscribe l (sp_listeners s)\<rparr>, [])"

section \<open>The range of the ratio\<close>

definition split_range :: "split_options \<Rightarrow> rat \<Rightarrow> bool" where
  "split_range opts x \<longleftrightarrow> spo_minRatio opts \<le> x \<and> x \<le> spo_maxRatio opts"

definition split_ok :: "split_options \<Rightarrow> split_pane \<Rightarrow> bool" where
  "split_ok opts s \<longleftrightarrow> split_range opts (sp_ratio s) \<and> split_range opts (sp_prevRatio s)"

text \<open>\<open>NaN\<close> clamps to one half, whatever the limits are: legal only when one half is in range.\<close>

definition split_legal :: "split_options \<Rightarrow> split_op \<Rightarrow> bool" where
  "split_legal opts x \<longleftrightarrow> spo_minRatio opts \<le> spo_maxRatio opts \<and>
     (x = Split_setRatio NaN \<longrightarrow> split_range opts DEFAULT_DEFAULT_RATIO)"

lemma clamp_range:
  "spo_minRatio opts \<le> spo_maxRatio opts \<Longrightarrow> v = NaN \<longrightarrow> split_range opts DEFAULT_DEFAULT_RATIO \<Longrightarrow>
   split_range opts (clamp opts v)"
  by (auto simp: split_range_def clamp_def split: jsnum.split)

lemma clamp_id [simp]: "split_range opts x \<Longrightarrow> clamp opts (Num x) = x"
  by (simp add: split_range_def clamp_def)

lemma split_persist_simps [simp]:
  "sp_ratio (split_persist opts s) = sp_ratio s" "sp_prevRatio (split_persist opts s) = sp_prevRatio s"
  "sp_collapsed (split_persist opts s) = sp_collapsed s" "sp_listeners (split_persist opts s) = sp_listeners s"
  "split_view (split_persist opts s) = split_view s"
  by (simp_all add: split_persist_def split_view_def)

lemma setRatioInternal_fst:
  "sp_ratio (fst (setRatioInternal opts p v s)) = clamp opts v"
  "sp_prevRatio (fst (setRatioInternal opts p v s)) = sp_prevRatio s"
  "sp_collapsed (fst (setRatioInternal opts p v s)) = sp_collapsed s"
  "sp_listeners (fst (setRatioInternal opts p v s)) = sp_listeners s"
  by (auto simp: setRatioInternal_def Let_def)

lemma split_step_ok: "split_ok opts s \<Longrightarrow> split_legal opts x \<Longrightarrow> split_ok opts (fst (split_step opts x s))"
  by (cases x)
    (auto simp: split_ok_def split_legal_def split_setRatio_def setRatioInternal_fst clamp_range split_collapse_def
      split_expand_def split_setContainerSize_def split_handlePointerDown_def split_handlePointerMove_def
      split_handlePointerUp_def split_handleKeyDown_def Let_def split_range_def[of opts "spo_minRatio opts"]
      split_range_def[of opts "spo_maxRatio opts"])

interpretation split_component: component "split_step opts" "split_ok opts" "split_legal opts" for opts
  by unfold_locales (rule split_step_ok)

lemma split_ok_create:
  assumes "spo_minRatio opts \<le> spo_maxRatio opts"
    and "spo_defaultRatio opts = NaN \<longrightarrow> split_range opts DEFAULT_DEFAULT_RATIO"
  shows "split_ok opts (createSplitPane opts stored)"
proof -
  have "initial_ratio opts stored = NaN \<longrightarrow> spo_defaultRatio opts = NaN"
    by (auto simp: initial_ratio_def restorable_def split: option.split jsnum.split)
  with assms have "split_range opts (clamp opts (initial_ratio opts stored))"
    by (intro clamp_range) auto
  then show ?thesis by (simp add: createSplitPane_def split_ok_def Let_def)
qed

section \<open>Properties\<close>

text \<open>The ratio stays in range. Whatever is stored, dragged, typed or set, the ratio of a pane
  lies between its limits, and so does the integer percentage its \<open>aria-valuenow\<close> shows. A
  \<open>NaN\<close> is mapped to one half without regard to the limits, so it is excluded unless one half
  is in range.\<close>

theorem split_ratio_in_range:
  fixes xs :: "split_op list" and stored :: "jsnum option"
  assumes "spo_minRatio opts \<le> spo_maxRatio opts"
    and "spo_defaultRatio opts = NaN \<longrightarrow> split_range opts DEFAULT_DEFAULT_RATIO"
    and "\<forall>x\<in>set xs. split_legal opts x"
  defines "s \<equiv> fst (run (split_step opts) xs (createSplitPane opts stored))"
  shows "split_range opts (sp_ratio s) \<and>
    spp_ariaValuemin (split_getSplitterProps opts s) \<le> spp_ariaValuenow (split_getSplitterProps opts s) \<and>
    spp_ariaValuenow (split_getSplitterProps opts s) \<le> spp_ariaValuemax (split_getSplitterProps opts s)"
proof -
  have "split_ok opts s"
    unfolding s_def by (rule split_component.run_inv[OF split_ok_create[OF assms(1,2)] assms(3)])
  moreover have "x \<le> y \<Longrightarrow> js_round (x * 100) \<le> js_round (y * 100)" for x y
    by (simp add: js_round_def floor_mono)
  ultimately show ?thesis
    by (simp add: split_ok_def split_range_def split_getSplitterProps_def)
qed

definition demo_split_options :: split_options where
  "demo_split_options = \<lparr>spo_direction = Split_horizontal, spo_defaultRatio = Num (1/2), spo_minRatio = DEFAULT_MIN_RATIO,
     spo_maxRatio = DEFAULT_MAX_RATIO, spo_persists = True, spo_ariaLabel = ''Panel resize handle''\<rparr>"

lemma demo_split_legal:
  "spo_minRatio demo_split_options \<le> spo_maxRatio demo_split_options" "spo_defaultRatio demo_split_options \<noteq> NaN"
  "split_legal demo_split_options x"
  by (simp_all add: demo_split_options_def split_legal_def split_range_def DEFAULT_MIN_RATIO_def DEFAULT_MAX_RATIO_def
      DEFAULT_DEFAULT_RATIO_def)

theorem split_ratio_in_range_witness:
  "let s = fst (run (split_step demo_split_options)
        [Split_setContainerSize 100, Split_pointerDown (50, 0), Split_pointerMove (700, 0), Split_keyDown ''ArrowRight'' True]
        (createSplitPane demo_split_options (Some (Num (3/10)))))
   in split_range demo_split_options (sp_ratio s)"
  unfolding Let_def using split_ratio_in_range[of demo_split_options, OF demo_split_legal(1)] demo_split_legal(2,3) by blast

text \<open>The calls that leave a collapsed pane collapsed.\<close>

fun keeps_collapsed :: "split_op \<Rightarrow> bool" where
  "keeps_collapsed Split_expand = False"
| "keeps_collapsed (Split_keyDown key shift) = (key \<noteq> ''Enter'' \<and> key \<noteq> '' '')"
| "keeps_collapsed _ = True"

text \<open>Collapse and expand restore the ratio. After a collapse to either side, and whatever is
  done to the pane while it is collapsed - further collapses, drags, arrow keys, \<open>setRatio\<close> -
  expanding it brings back the ratio it had.\<close>

theorem split_collapse_expand:
  fixes xs :: "split_op list" and opts :: split_options and side :: split_side
  assumes "split_ok opts s" and "\<not> sp_collapsed s" and "\<forall>x\<in>set xs. keeps_collapsed x"
  defines "t \<equiv> fst (split_expand opts (fst (run (split_step opts) (Split_collapse side # xs) s)))"
  shows "sp_ratio t = sp_ratio s \<and> \<not> sp_collapsed t"
proof -
  have step: "sp_collapsed (fst (split_step opts x u)) \<and> sp_prevRatio (fst (split_step opts x u)) = sp_prevRatio u"
    if "sp_collapsed u" "keeps_collapsed x" for u x
    using that by (cases x)
      (auto simp: split_setRatio_def setRatioInternal_fst split_collapse_def split_setContainerSize_def
        split_handlePointerDown_def split_handlePointerMove_def split_handlePointerUp_def split_handleKeyDown_def Let_def)
  have "sp_collapsed (fst (run (split_step opts) xs u)) \<and>
      sp_prevRatio (fst (run (split_step opts) xs u)) = sp_prevRatio u" if "sp_collapsed u" for u
    using assms(3) that
  proof (induction xs arbitrary: u)
    case (Cons x xs)
    then show ?case using step[of u x] by (simp add: run_Cons del: run.simps(2) split_step.simps)
  qed simp
  from this[of "fst (split_collapse opts side s)"] assms(1,2) show ?thesis
    by (simp add: t_def run_Cons split_collapse_def split_expand_def Let_def split_ok_def del: run.simps(2))
qed

theorem split_collapse_expand_witness:
  "sp_ratio (fst (split_expand demo_split_options (fst (run (split_step demo_split_options)
      [Split_collapse Side_first, Split_keyDown ''ArrowRight'' False, Split_setRatio (Num (4/5))]
      (createSplitPane demo_split_options None))))) = 1/2"
proof -
  have "split_ok demo_split_options (createSplitPane demo_split_options None)"
    using demo_split_legal by (intro split_ok_create) auto
  moreover have "\<not> sp_collapsed (createSplitPane demo_split_options None)" "sp_ratio (createSplitPane demo_split_options None) = 1/2"
    by (simp_all add: createSplitPane_def Let_def clamp_def initial_ratio_def demo_split_options_def DEFAULT_MIN_RATIO_def DEFAULT_MAX_RATIO_def)
  ultimately show ?thesis
    using split_collapse_expand[of demo_split_options "createSplitPane demo_split_options None"
        "[Split_keyDown ''ArrowRight'' False, Split_setRatio (Num (4/5))]" Side_first] by simp
qed

end
