(* ===== verification/Agent_Presence.thy ===== *)
theory Agent_Presence
  imports Js_Text Contracts "HOL-Library.Word"
begin

unbundle bit_operations_syntax

text \<open>
  \<open>headless-core/agent-presence.ts\<close>: the agent registry with its sigils and colour slots, the
  coalescer of presence updates and the summary of activity events. \<open>nowIso()\<close> is an
  argument of the operations that read the clock; the FNV hash is on 32-bit words.
\<close>

section \<open>Data\<close>

datatype agent_state = Agent_idle | Agent_working | Agent_thinking | Agent_waiting | Agent_error | Agent_completed

record agent_selection =
  as_file :: string
  as_anchor :: "int \<times> int"
  as_focus :: "int \<times> int"

datatype agent_focus_kind = Focus_file | Focus_symbol | Focus_task | Focus_panel

record agent_focus_target =
  af_kind :: agent_focus_kind
  af_id :: string
  af_label :: "string option"

record agent_ephemeral =
  ae_role :: "string option"
  ae_currentTask :: "string option"
  ae_selection :: "agent_selection option"
  ae_focus :: "agent_focus_target option"
  ae_updatedAt :: string

text \<open>\<open>Superscript n\<close> is the digit \<open>SUPERSCRIPT_DIGITS[n - 1]\<close>, \<open>Caret n\<close> the text \<open>^n\<close>.\<close>

datatype sigil_suffix = Superscript nat | Caret nat

record agent_sigil =
  sg_text :: string
  sg_suffix :: "sigil_suffix option"

record agent_descriptor =
  ag_id :: string
  ag_name :: string
  ag_sigil :: agent_sigil
  ag_colorSlot :: nat

record agent = agent_descriptor +
  ag_state :: agent_state
  ag_currentFile :: "string option"
  ag_cursor :: "(int \<times> int) option"
  ag_presence :: "agent_ephemeral option"
  ag_stateChangedAt :: string
  ag_idleMs :: "int option"

record agent_update =
  au_role :: "string option"
  au_currentTask :: "string option"
  au_selection :: "agent_selection option"
  au_focus :: "agent_focus_target option"
  au_updatedAt :: "string option"

record announcement =
  an_text :: string
  an_assertive :: bool

record agent_registry =
  ar_map :: "(string, agent) jsmap"
  ar_listeners :: "listener jsset"
  ar_perAgent :: "(string, listener jsset) jsmap"

datatype agent_effect = Agent_listener listener agent

type_synonym agent_event = "(agent list, agent_effect) event"

section \<open>Sigils and colours\<close>

definition AGENT_COLOR_PALETTE :: "string list" where
  "AGENT_COLOR_PALETTE =
     [''#E74C3C'', ''#3498DB'', ''#2ECC71'', ''#F39C12'', ''#9B59B6'', ''#1ABC9C'', ''#E91E63'', ''#00BCD4'',
      ''#8BC34A'', ''#FF9800'', ''#673AB7'', ''#795548'', ''#607D8B'', ''#CDDC39'', ''#FF5722'']"

text \<open>\<open>SUPERSCRIPT_DIGITS\<close> has nine entries.\<close>

definition defaultDisambiguate :: "agent_sigil \<Rightarrow> agent_sigil list \<Rightarrow> agent_sigil" where
  "defaultDisambiguate candidate existing =
     (let count = length (filter (\<lambda>e. sg_text e = sg_text candidate) existing) in
      if count = 0 then candidate
      else \<lparr>sg_text = sg_text candidate,
            sg_suffix = Some (if count < 9 then Superscript (Suc count) else Caret (count + 1))\<rparr>)"

definition fnv_step :: "32 word \<Rightarrow> char \<Rightarrow> 32 word" where
  "fnv_step hash c = (hash XOR word_of_nat (char_code c)) * 0x01000193"

definition kSlot :: "string \<Rightarrow> nat" where
  "kSlot k = unat (foldl fnv_step 0x811c9dc5 k) mod 12 + 1"

definition colorForSlot :: "nat \<Rightarrow> string" where
  "colorForSlot slot = AGENT_COLOR_PALETTE ! (slot - 1)"

definition assignAgentColorSlot :: "string \<Rightarrow> (string, nat) jsmap \<Rightarrow> nat" where
  "assignAgentColorSlot agentId existing =
     (case map_get existing agentId of
        Some current \<Rightarrow> current
      | None \<Rightarrow>
          (let used = set_from (map_values existing) in
           case List.find (\<lambda>slot. slot \<notin> set used) [1..<Suc (length AGENT_COLOR_PALETTE)] of
             Some slot \<Rightarrow> slot
           | None \<Rightarrow> kSlot agentId))"

definition is_letter :: "char \<Rightarrow> bool" where
  "is_letter c \<longleftrightarrow> (65 \<le> char_code c \<and> char_code c \<le> 90) \<or> (97 \<le> char_code c \<and> char_code c \<le> 122)"

definition deriveSigil :: "string \<Rightarrow> agent_sigil" where
  "deriveSigil name =
     (let cleaned = upper_ascii (filter is_letter name) in
      \<lparr>sg_text = (if length cleaned \<ge> 2 then take 2 cleaned
                  else cleaned @ replicate (2 - length cleaned) CHR ''?''),
       sg_suffix = None\<rparr>)"

section \<open>The registry\<close>

definition freezePresence :: "agent_update \<Rightarrow> string \<Rightarrow> agent_ephemeral" where
  "freezePresence u now =
     \<lparr>ae_role = au_role u, ae_currentTask = au_currentTask u, ae_selection = au_selection u,
      ae_focus = au_focus u, ae_updatedAt = (case au_updatedAt u of None \<Rightarrow> now | Some t \<Rightarrow> t)\<rparr>"

definition agent_snapshot :: "agent_registry \<Rightarrow> agent list" where
  "agent_snapshot s = map_values (ar_map s)"

definition agent_emit :: "agent_registry \<Rightarrow> agent_event list" where
  "agent_emit s = emit_to (ar_listeners s) (agent_snapshot s)"

definition emitAgent :: "string \<Rightarrow> agent_registry \<Rightarrow> agent_event list" where
  "emitAgent k s =
     (case map_get (ar_map s) k of
        None \<Rightarrow> []
      | Some a \<Rightarrow> (case map_get (ar_perAgent s) k of
                     None \<Rightarrow> [] | Some ls \<Rightarrow> map (\<lambda>l. Did (Agent_listener l a)) ls))"

definition existingSigils :: "string \<Rightarrow> agent_registry \<Rightarrow> agent_sigil list" where
  "existingSigils excludeId s = map ag_sigil (filter (\<lambda>a. ag_id a \<noteq> excludeId) (map_values (ar_map s)))"

definition setAgent :: "agent \<Rightarrow> agent_registry \<Rightarrow> agent_registry \<times> agent_event list" where
  "setAgent next s =
     (let s' = s\<lparr>ar_map := map_set (ag_id next) next (ar_map s)\<rparr>
      in (s', agent_emit s' @ emitAgent (ag_id next) s'))"

text \<open>\<open>disambiguate\<close> is the option \<open>sigilDisambiguate\<close>.\<close>

type_synonym disambiguator = "agent_sigil \<Rightarrow> agent_sigil list \<Rightarrow> agent_sigil"

definition initial_agent :: "disambiguator \<Rightarrow> agent_descriptor \<Rightarrow> string \<Rightarrow> agent_registry \<Rightarrow> agent" where
  "initial_agent disambiguate d now s =
     agent_descriptor.extend (d\<lparr>ag_sigil := disambiguate (ag_sigil d) (existingSigils (ag_id d) s)\<rparr>)
       \<lparr>ag_state = Agent_idle, ag_currentFile = None, ag_cursor = None, ag_presence = None,
        ag_stateChangedAt = now, ag_idleMs = None\<rparr>"

definition createAgentPresenceManager :: "disambiguator \<Rightarrow> (agent_descriptor \<times> string) list \<Rightarrow> agent_registry" where
  "createAgentPresenceManager disambiguate initialAgents =
     fold (\<lambda>(d, now) s. s\<lparr>ar_map := map_set (ag_id d) (initial_agent disambiguate d now s) (ar_map s)\<rparr>) initialAgents
       \<lparr>ar_map = [], ar_listeners = [], ar_perAgent = []\<rparr>"

definition registered_agent :: "disambiguator \<Rightarrow> agent_descriptor \<Rightarrow> string \<Rightarrow> agent_registry \<Rightarrow> agent" where
  "registered_agent disambiguate d now s =
     (let d' = d\<lparr>ag_sigil := disambiguate (ag_sigil d) (existingSigils (ag_id d) s)\<rparr> in
      case map_get (ar_map s) (ag_id d) of
        None \<Rightarrow> agent_descriptor.extend d'
          \<lparr>ag_state = Agent_idle, ag_currentFile = None, ag_cursor = None, ag_presence = None,
           ag_stateChangedAt = now, ag_idleMs = None\<rparr>
      | Some prior \<Rightarrow> agent_descriptor.extend d'
          \<lparr>ag_state = ag_state prior, ag_currentFile = ag_currentFile prior, ag_cursor = ag_cursor prior,
           ag_presence = ag_presence prior, ag_stateChangedAt = ag_stateChangedAt prior, ag_idleMs = ag_idleMs prior\<rparr>)"

definition agent_register :: "disambiguator \<Rightarrow> agent_descriptor \<Rightarrow> string \<Rightarrow> agent_registry \<Rightarrow> agent_registry \<times> agent_event list" where
  "agent_register disambiguate d now s = setAgent (registered_agent disambiguate d now s) s"

definition agent_unregister :: "string \<Rightarrow> agent_registry \<Rightarrow> agent_registry \<times> agent_event list" where
  "agent_unregister k s =
     (if \<not> map_has (ar_map s) k then (s, [])
      else (let s' = s\<lparr>ar_map := map_del k (ar_map s), ar_perAgent := map_del k (ar_perAgent s)\<rparr> in (s', agent_emit s')))"

definition update_agent :: "string \<Rightarrow> (agent \<Rightarrow> agent) \<Rightarrow> agent_registry \<Rightarrow> agent_registry \<times> agent_event list" where
  "update_agent k f s =
     (case map_get (ar_map s) k of None \<Rightarrow> (s, []) | Some prior \<Rightarrow> setAgent (f prior) s)"

definition agent_updateState :: "string \<Rightarrow> agent_state \<Rightarrow> string \<Rightarrow> agent_registry \<Rightarrow> agent_registry \<times> agent_event list" where
  "agent_updateState k st now s =
     (case map_get (ar_map s) k of
        None \<Rightarrow> (s, [])
      | Some prior \<Rightarrow>
          if ag_state prior = st then (s, [])
          else setAgent (prior\<lparr>ag_state := st, ag_stateChangedAt := now\<rparr>) s)"

definition agent_updateCursor :: "string \<Rightarrow> string \<Rightarrow> int \<Rightarrow> int \<Rightarrow> agent_registry \<Rightarrow> agent_registry \<times> agent_event list" where
  "agent_updateCursor k file line column =
     update_agent k (\<lambda>prior. prior\<lparr>ag_currentFile := Some file, ag_cursor := Some (line, column)\<rparr>)"

definition or_else :: "'a option \<Rightarrow> 'a option \<Rightarrow> 'a option" where
  "or_else a b = (case a of None \<Rightarrow> b | Some x \<Rightarrow> Some x)"

definition agent_updatePresence :: "string \<Rightarrow> agent_update \<Rightarrow> string \<Rightarrow> agent_registry \<Rightarrow> agent_registry \<times> agent_event list" where
  "agent_updatePresence k u now =
     update_agent k (\<lambda>prior.
       prior\<lparr>ag_presence := Some (freezePresence
         \<lparr>au_role = or_else (au_role u) (case ag_presence prior of None \<Rightarrow> None | Some p \<Rightarrow> ae_role p),
          au_currentTask = or_else (au_currentTask u) (case ag_presence prior of None \<Rightarrow> None | Some p \<Rightarrow> ae_currentTask p),
          au_selection = or_else (au_selection u) (case ag_presence prior of None \<Rightarrow> None | Some p \<Rightarrow> ae_selection p),
          au_focus = or_else (au_focus u) (case ag_presence prior of None \<Rightarrow> None | Some p \<Rightarrow> ae_focus p),
          au_updatedAt = au_updatedAt u\<rparr> now)\<rparr>)"

definition agent_clearCursor :: "string \<Rightarrow> agent_registry \<Rightarrow> agent_registry \<times> agent_event list" where
  "agent_clearCursor k = update_agent k (\<lambda>prior. prior\<lparr>ag_currentFile := None, ag_cursor := None\<rparr>)"

definition agent_heartbeat :: "string \<Rightarrow> agent_registry \<Rightarrow> agent_registry \<times> agent_event list" where
  "agent_heartbeat k = update_agent k (\<lambda>prior. prior\<lparr>ag_idleMs := Some 0\<rparr>)"

definition agent_byState :: "agent_state \<Rightarrow> agent_registry \<Rightarrow> agent list" where
  "agent_byState st s = filter (\<lambda>a. ag_state a = st) (map_values (ar_map s))"

definition agent_withinFile :: "string \<Rightarrow> agent_registry \<Rightarrow> agent list" where
  "agent_withinFile file s = filter (\<lambda>a. ag_currentFile a = Some file) (map_values (ar_map s))"

definition agent_subscribeAgent :: "string \<Rightarrow> listener \<Rightarrow> agent_registry \<Rightarrow> agent_registry" where
  "agent_subscribeAgent k l s =
     s\<lparr>ar_perAgent := map_set k (subscribe l (case map_get (ar_perAgent s) k of None \<Rightarrow> [] | Some ls \<Rightarrow> ls)) (ar_perAgent s)\<rparr>"

definition agent_unsubscribeAgent :: "string \<Rightarrow> listener \<Rightarrow> agent_registry \<Rightarrow> agent_registry" where
  "agent_unsubscribeAgent k l s =
     (case map_get (ar_perAgent s) k of
        None \<Rightarrow> s
      | Some ls \<Rightarrow> s\<lparr>ar_perAgent := map_set k (unsubscribe l ls) (ar_perAgent s)\<rparr>)"

definition agent_announceStateChange :: "string \<Rightarrow> agent_registry \<Rightarrow> announcement option" where
  "agent_announceStateChange k s =
     (case map_get (ar_map s) k of
        None \<Rightarrow> None
      | Some a \<Rightarrow>
          (case ag_state a of
             Agent_working \<Rightarrow> Some \<lparr>an_text = ag_name a @ '' is now working'', an_assertive = False\<rparr>
           | Agent_waiting \<Rightarrow> Some \<lparr>an_text = ag_name a @ '' is waiting for your input'', an_assertive = False\<rparr>
           | Agent_error \<Rightarrow> Some \<lparr>an_text = ag_name a @ '' reported an error'', an_assertive = True\<rparr>
           | Agent_completed \<Rightarrow> Some \<lparr>an_text = ag_name a @ '' completed'', an_assertive = False\<rparr>
           | _ \<Rightarrow> None))"

datatype agent_op =
    Agent_register agent_descriptor string | Agent_unregister string
  | Agent_updateState string agent_state string | Agent_updateCursor string string int int
  | Agent_updatePresence string agent_update string | Agent_clearCursor string | Agent_heartbeat string
  | Agent_subscribe listener | Agent_unsubscribe listener
  | Agent_subscribeAgent string listener | Agent_unsubscribeAgent string listener

fun agent_step :: "disambiguator \<Rightarrow> agent_op \<Rightarrow> agent_registry \<Rightarrow> agent_registry \<times> agent_event list" where
  "agent_step dis (Agent_register d now) s = agent_register dis d now s"
| "agent_step dis (Agent_unregister k) s = agent_unregister k s"
| "agent_step dis (Agent_updateState k st now) s = agent_updateState k st now s"
| "agent_step dis (Agent_updateCursor k f l c) s = agent_updateCursor k f l c s"
| "agent_step dis (Agent_updatePresence k u now) s = agent_updatePresence k u now s"
| "agent_step dis (Agent_clearCursor k) s = agent_clearCursor k s"
| "agent_step dis (Agent_heartbeat k) s = agent_heartbeat k s"
| "agent_step dis (Agent_subscribe l) s = (s\<lparr>ar_listeners := subscribe l (ar_listeners s)\<rparr>, [])"
| "agent_step dis (Agent_unsubscribe l) s = (s\<lparr>ar_listeners := unsubscribe l (ar_listeners s)\<rparr>, [])"
| "agent_step dis (Agent_subscribeAgent k l) s = (agent_subscribeAgent k l s, [])"
| "agent_step dis (Agent_unsubscribeAgent k l) s = (agent_unsubscribeAgent k l s, [])"

section \<open>Coalescing presence updates\<close>

text \<open>
  A \<open>Partial\<close> update under object spread: \<open>None\<close> is an absent key, \<open>Some None\<close> a key that is
  present with the value \<open>undefined\<close>; the later object wins wherever its key is present.
\<close>

record coalesced_update =
  cu_id :: string
  cu_role :: "string option option"
  cu_currentTask :: "string option option"
  cu_selection :: "agent_selection option option"
  cu_focus :: "agent_focus_target option option"
  cu_updatedAt :: "string option option"
  cu_file :: "string option option"
  cu_cursor :: "(int \<times> int) option option"

definition spread_update :: "coalesced_update \<Rightarrow> coalesced_update \<Rightarrow> coalesced_update" where
  "spread_update old new =
     \<lparr>cu_id = cu_id new, cu_role = or_else (cu_role new) (cu_role old),
      cu_currentTask = or_else (cu_currentTask new) (cu_currentTask old),
      cu_selection = or_else (cu_selection new) (cu_selection old), cu_focus = or_else (cu_focus new) (cu_focus old),
      cu_updatedAt = or_else (cu_updatedAt new) (cu_updatedAt old), cu_file = or_else (cu_file new) (cu_file old),
      cu_cursor = or_else (cu_cursor new) (cu_cursor old)\<rparr>"

record coalescer =
  co_pending :: "(string, coalesced_update) jsmap"
  co_timer :: bool

datatype coalescer_effect = Applied coalesced_update | Timer_set | Timer_cleared

definition createPresenceUpdateCoalescer :: coalescer where
  "createPresenceUpdateCoalescer = \<lparr>co_pending = [], co_timer = False\<rparr>"

definition coalescer_schedule :: "coalescer \<Rightarrow> coalescer \<times> coalescer_effect list" where
  "coalescer_schedule s = (if co_timer s then (s, []) else (s\<lparr>co_timer := True\<rparr>, [Timer_set]))"

definition coalescer_enqueue :: "coalesced_update \<Rightarrow> coalescer \<Rightarrow> coalescer \<times> coalescer_effect list" where
  "coalescer_enqueue u s =
     coalescer_schedule (s\<lparr>co_pending := map_set (cu_id u)
        (case map_get (co_pending s) (cu_id u) of None \<Rightarrow> u | Some old \<Rightarrow> spread_update old u) (co_pending s)\<rparr>)"

definition coalescer_flush :: "coalescer \<Rightarrow> coalescer \<times> coalescer_effect list" where
  "coalescer_flush s =
     (s\<lparr>co_pending := [], co_timer := False\<rparr>,
      (if co_timer s then [Timer_cleared] else []) @ map Applied (map_values (co_pending s)))"

definition coalescer_cancel :: "coalescer \<Rightarrow> coalescer \<times> coalescer_effect list" where
  "coalescer_cancel s =
     (s\<lparr>co_pending := [], co_timer := False\<rparr>, if co_timer s then [Timer_cleared] else [])"

text \<open>The armed timer's callback.\<close>

definition coalescer_timeout :: "coalescer \<Rightarrow> coalescer \<times> coalescer_effect list" where
  "coalescer_timeout s = (if co_timer s then coalescer_flush (s\<lparr>co_timer := False\<rparr>) else (s, []))"

datatype coalescer_op = Co_enqueue coalesced_update | Co_flush | Co_cancel | Co_timeout

fun coalescer_step :: "coalescer_op \<Rightarrow> coalescer \<Rightarrow> coalescer \<times> coalescer_effect list" where
  "coalescer_step (Co_enqueue u) s = coalescer_enqueue u s"
| "coalescer_step Co_flush s = coalescer_flush s"
| "coalescer_step Co_cancel s = coalescer_cancel s"
| "coalescer_step Co_timeout s = coalescer_timeout s"

section \<open>Activity events\<close>

datatype activity_type =
    Agent_started | Agent_done | Agent_failed | Conflict_detected | Conflict_resolved | Pr_merged
  | Edit_started | File_locked | File_unlocked | Commit_created | Pr_opened

datatype activity_severity = Sev_critical | Sev_high | Sev_normal | Sev_low

fun type_name :: "activity_type \<Rightarrow> string" where
  "type_name Agent_started = ''agent.started''"
| "type_name Agent_done = ''agent.completed''"
| "type_name Agent_failed = ''agent.error''"
| "type_name Conflict_detected = ''conflict.detected''"
| "type_name Conflict_resolved = ''conflict.resolved''"
| "type_name Pr_merged = ''pr.merged''"
| "type_name Edit_started = ''edit.started''"
| "type_name File_locked = ''file.locked''"
| "type_name File_unlocked = ''file.unlocked''"
| "type_name Commit_created = ''commit.created''"
| "type_name Pr_opened = ''pr.opened''"

record activity_event =
  ev_id :: string
  ev_type :: activity_type
  ev_agentId :: "string option"
  ev_agentName :: "string option"
  ev_file :: "string option"
  ev_message :: "string option"
  ev_severity :: "activity_severity option"
  ev_timestampMs :: int

record activity_summary =
  su_key :: string
  su_type :: activity_type
  su_count :: nat
  su_agentIds :: "string list"
  su_files :: "string list"
  su_severity :: activity_severity
  su_startedAtMs :: int
  su_endedAtMs :: int
  su_message :: string

fun SEVERITY_RANK :: "activity_severity \<Rightarrow> nat" where
  "SEVERITY_RANK Sev_low = 0"
| "SEVERITY_RANK Sev_normal = 1"
| "SEVERITY_RANK Sev_high = 2"
| "SEVERITY_RANK Sev_critical = 3"

definition defaultSeverity :: "activity_type \<Rightarrow> activity_severity" where
  "defaultSeverity ty =
     (case ty of
        Agent_failed \<Rightarrow> Sev_critical | Conflict_detected \<Rightarrow> Sev_critical
      | Conflict_resolved \<Rightarrow> Sev_high | Pr_merged \<Rightarrow> Sev_high
      | Agent_started \<Rightarrow> Sev_normal | Agent_done \<Rightarrow> Sev_normal
      | _ \<Rightarrow> Sev_low)"

definition event_severity :: "activity_event \<Rightarrow> activity_severity" where
  "event_severity e = (case ev_severity e of None \<Rightarrow> defaultSeverity (ev_type e) | Some v \<Rightarrow> v)"

definition maxSeverity :: "activity_event list \<Rightarrow> activity_severity" where
  "maxSeverity evs =
     foldl (\<lambda>best e. if SEVERITY_RANK (event_severity e) > SEVERITY_RANK best then event_severity e else best) Sev_low evs"

definition or_default :: "'a \<Rightarrow> 'a option \<Rightarrow> 'a" where
  "or_default d x = (case x of None \<Rightarrow> d | Some v \<Rightarrow> v)"

text \<open>\<open>div\<close> on \<open>int\<close> is \<open>Math.floor\<close> of the quotient, for a positive \<open>windowMs\<close>.\<close>

definition activity_key :: "int \<Rightarrow> activity_event \<Rightarrow> string" where
  "activity_key windowMs e =
     show_int (ev_timestampMs e div windowMs * windowMs) @ '':'' @ or_default ''*'' (ev_agentId e) @ '':'' @
     type_name (ev_type e) @ '':'' @ or_default ''*'' (ev_file e)"

definition bucket_add :: "int \<Rightarrow> activity_event \<Rightarrow> (string, activity_event list) jsmap \<Rightarrow> (string, activity_event list) jsmap" where
  "bucket_add windowMs e buckets =
     (let key = activity_key windowMs e in
      case map_get buckets key of None \<Rightarrow> map_set key [e] buckets | Some bucket \<Rightarrow> map_set key (bucket @ [e]) buckets)"

definition by_timestamp :: "activity_event \<Rightarrow> activity_event \<Rightarrow> int" where
  "by_timestamp a b = ev_timestampMs a - ev_timestampMs b"

definition summarize_bucket :: "string \<Rightarrow> activity_event list \<Rightarrow> activity_summary option" where
  "summarize_bucket key bucket =
     (let sorted = js_sort by_timestamp bucket in
      if sorted = [] then None
      else (let first = hd sorted;
                last_ev = last sorted;
                agentIds = set_from (List.map_filter ev_agentId sorted);
                files = set_from (List.map_filter ev_file sorted);
                count = length sorted;
                actor = or_default (or_default ''System'' (ev_agentId first)) (ev_agentName first);
                target = (if files = [] then [] else '' in '' @ join '', '' files);
                message = (if count = 1 then or_default (actor @ '' '' @ type_name (ev_type first) @ target) (ev_message first)
                           else actor @ '' '' @ type_name (ev_type first) @ '' x'' @ show_nat count @ target)
            in Some \<lparr>su_key = key, su_type = ev_type first, su_count = count, su_agentIds = agentIds, su_files = files,
                     su_severity = maxSeverity sorted, su_startedAtMs = ev_timestampMs first,
                     su_endedAtMs = ev_timestampMs last_ev, su_message = message\<rparr>))"

definition by_start :: "activity_summary \<Rightarrow> activity_summary \<Rightarrow> int" where
  "by_start a b = su_startedAtMs a - su_startedAtMs b"

definition summarizeActivityEvents :: "int \<Rightarrow> activity_event list \<Rightarrow> activity_summary list" where
  "summarizeActivityEvents windowMs events =
     js_sort by_start (List.map_filter (\<lambda>(key, bucket). summarize_bucket key bucket) (fold (bucket_add windowMs) events []))"

definition activityAnnouncement :: "activity_event \<Rightarrow> announcement option" where
  "activityAnnouncement e =
     (let name = or_default (or_default ''Agent'' (ev_agentId e)) (ev_agentName e);
          place = (case ev_file e of None \<Rightarrow> [] | Some f \<Rightarrow> '' in '' @ f) in
      case ev_type e of
        Agent_started \<Rightarrow> Some \<lparr>an_text = name @ '' started'', an_assertive = False\<rparr>
      | Agent_done \<Rightarrow> Some \<lparr>an_text = name @ '' completed'', an_assertive = False\<rparr>
      | Agent_failed \<Rightarrow> Some \<lparr>an_text = name @ '' reported an error'', an_assertive = True\<rparr>
      | Conflict_detected \<Rightarrow> Some \<lparr>an_text = ''Conflict detected'' @ place, an_assertive = True\<rparr>
      | Conflict_resolved \<Rightarrow> Some \<lparr>an_text = ''Conflict resolved'' @ place, an_assertive = False\<rparr>
      | Pr_merged \<Rightarrow> Some \<lparr>an_text = or_default ''Pull request merged'' (ev_message e), an_assertive = False\<rparr>
      | _ \<Rightarrow> None)"

section \<open>The registry keeps one entry per agent and its subscribers up to date\<close>

definition agents_ok :: "agent_registry \<Rightarrow> bool" where
  "agents_ok s \<longleftrightarrow> distinct (map_keys (ar_map s)) \<and> (\<forall>(k, a)\<in>set (ar_map s). ag_id a = k)"

fun agent_drops :: "listener \<Rightarrow> agent_op \<Rightarrow> bool" where
  "agent_drops l (Agent_unsubscribe l') = (l' = l)"
| "agent_drops l _ = False"

lemma agents_ok_get: "agents_ok s \<Longrightarrow> map_get (ar_map s) k = Some a \<Longrightarrow> ag_id a = k"
  by (auto simp: agents_ok_def dest: map_of_SomeD)

lemma agents_ok_set: "agents_ok s \<Longrightarrow> agents_ok (fst (setAgent a s))"
  by (auto simp: agents_ok_def setAgent_def Let_def in_update_distinct)

lemma agents_ok_update: "agents_ok s \<Longrightarrow> agents_ok (fst (update_agent k f s))"
  by (auto simp: update_agent_def agents_ok_set split: option.split)

lemma agents_ok_step:
  assumes ok: "agents_ok s"
  shows "agents_ok (fst (agent_step dis x s))"
proof -
  have same: "agents_ok t" if "ar_map t = ar_map s" for t
    using ok that by (simp add: agents_ok_def)
  show ?thesis
  proof (cases x)
    case (Agent_unregister k)
    with ok show ?thesis by (auto simp: agents_ok_def agent_unregister_def Let_def in_delete)
  next
    case (Agent_unsubscribeAgent k l)
    then show ?thesis by (auto intro!: same simp: agent_unsubscribeAgent_def split: option.split)
  next
    case (Agent_updateState k st now)
    with ok show ?thesis by (simp add: agent_updateState_def agents_ok_set split: option.split)
  qed (simp_all add: ok same agents_ok_set agents_ok_update agent_register_def agent_updateCursor_def
         agent_updatePresence_def agent_clearCursor_def agent_heartbeat_def agent_subscribeAgent_def)
qed

interpretation agent_component: component "agent_step dis" agents_ok "\<lambda>x. True" for dis
  by unfold_locales (rule agents_ok_step)

lemma sent_emitAgent [simp]: "sent (emitAgent k s) = []"
proof -
  have "sent (map (\<lambda>l. Did (Agent_listener l a)) ls :: agent_event list) = []" for a ls
    by (induction ls) simp_all
  then show ?thesis by (simp add: emitAgent_def split: option.split)
qed

lemma tracked_setAgent: "tracked ar_listeners agent_snapshot s (setAgent a s)"
  by (simp add: tracked_def setAgent_def Let_def agent_emit_def)

lemma tracked_update_agent: "tracked ar_listeners agent_snapshot s (update_agent k f s)"
  by (simp add: update_agent_def tracked_setAgent split: option.split)

lemmas agent_tracked = tracked_setAgent tracked_update_agent

lemma agent_step_tracked:
  assumes "\<forall>l. x \<noteq> Agent_subscribe l" and "\<forall>l. x \<noteq> Agent_unsubscribe l"
  shows "tracked ar_listeners agent_snapshot s (agent_step dis x s)"
  using assms
  by (cases x) (simp_all add: agent_tracked agent_register_def agent_updateState_def agent_updateCursor_def
      agent_updatePresence_def agent_clearCursor_def agent_heartbeat_def agent_subscribeAgent_def
      agent_unsubscribeAgent_def agent_unregister_def agent_emit_def tracked_emit0I Let_def agent_snapshot_def
      split: option.split)

interpretation agent_observable:
  observable "agent_step dis" agents_ok "\<lambda>x. True" ar_listeners agent_snapshot agent_drops for dis
proof
  fix l x and s :: agent_registry
  assume l: "l \<in> set (ar_listeners s)" and d: "\<not> agent_drops l x"
  show "l \<in> set (ar_listeners (fst (agent_step dis x s)))"
    using agent_step_tracked[of x s dis] l d by (cases x) (auto simp: tracked_def)
  show "mirror l (agent_snapshot s) (sent (snd (agent_step dis x s))) = agent_snapshot (fst (agent_step dis x s))"
    using agent_step_tracked[of x s dis] l d by (cases x) (auto simp: tracked_def agent_snapshot_def)
qed

section \<open>Sigils\<close>

text \<open>The sigil the default disambiguator gives the j-th agent (from 0) of a text.\<close>

definition nth_sigil :: "string \<Rightarrow> nat \<Rightarrow> agent_sigil" where
  "nth_sigil t j =
     \<lparr>sg_text = t, sg_suffix = (if j = 0 then None else if j < 9 then Some (Superscript (Suc j)) else Some (Caret (Suc j)))\<rparr>"

lemma nth_sigil_text [simp]: "sg_text (nth_sigil t j) = t"
  by (simp add: nth_sigil_def)

fun suffix_rank :: "sigil_suffix option \<Rightarrow> nat" where
  "suffix_rank None = 0"
| "suffix_rank (Some (Superscript n)) = n - 1"
| "suffix_rank (Some (Caret n)) = n - 1"

lemma suffix_rank_nth [simp]: "suffix_rank (sg_suffix (nth_sigil t j)) = j"
  by (simp add: nth_sigil_def)

lemma defaultDisambiguate_nth:
  "sg_suffix c = None \<Longrightarrow>
   defaultDisambiguate c existing = nth_sigil (sg_text c) (length (filter (\<lambda>e. sg_text e = sg_text c) existing))"
  by (cases c) (simp add: defaultDisambiguate_def nth_sigil_def Let_def)

definition same_text :: "string \<Rightarrow> agent_sigil list \<Rightarrow> nat" where
  "same_text t gs = length (filter (\<lambda>e. sg_text e = t) gs)"

definition sigils_ok :: "agent_sigil list \<Rightarrow> bool" where
  "sigils_ok gs \<longleftrightarrow> distinct gs \<and> (\<forall>g\<in>set gs. suffix_rank (sg_suffix g) < same_text (sg_text g) gs)"

lemma same_text_snoc: "same_text t gs \<le> same_text t (gs @ [g])"
  by (simp add: same_text_def)

lemma sigils_ok_snoc:
  assumes "sigils_ok gs"
  shows "sigils_ok (gs @ [nth_sigil t (same_text t gs)])"
proof -
  have "nth_sigil t (same_text t gs) \<notin> set gs"
    using assms by (force simp: sigils_ok_def)
  moreover have "same_text t (gs @ [nth_sigil t n]) = Suc (same_text t gs)" for n
    by (simp add: same_text_def)
  ultimately show ?thesis
    using assms by (auto simp: sigils_ok_def intro: less_le_trans[OF _ same_text_snoc])
qed

lemma map_fst_snd_ids: "agents_ok s \<Longrightarrow> map ag_id (map_values (ar_map s)) = map_keys (ar_map s)"
  by (auto simp: agents_ok_def)

lemma existingSigils_absent:
  "agents_ok s \<Longrightarrow> k \<notin> set (map_keys (ar_map s)) \<Longrightarrow> existingSigils k s = map ag_sigil (map_values (ar_map s))"
  unfolding existingSigils_def
  by (rule arg_cong[where f = "map ag_sigil"], rule filter_True)
     (force simp: agents_ok_def)

lemma roster_step:
  fixes now :: string and s :: agent_registry
  assumes "agents_ok s" and "sigils_ok (map ag_sigil (map_values (ar_map s)))"
    and "ag_id d \<notin> set (map_keys (ar_map s))" and "sg_suffix (ag_sigil d) = None"
  defines "t \<equiv> s\<lparr>ar_map := map_set (ag_id d) (initial_agent defaultDisambiguate d now s) (ar_map s)\<rparr>"
  shows "agents_ok t \<and> sigils_ok (map ag_sigil (map_values (ar_map t))) \<and>
         map_keys (ar_map t) = map_keys (ar_map s) @ [ag_id d]"
proof -
  have [simp]: "ag_id (initial_agent dis d now s) = ag_id d" for dis
    by (simp add: initial_agent_def agent_descriptor.extend_def)
  have g: "ag_sigil (initial_agent defaultDisambiguate d now s) = nth_sigil (sg_text (ag_sigil d))
        (same_text (sg_text (ag_sigil d)) (map ag_sigil (map_values (ar_map s))))"
    unfolding same_text_def using existingSigils_absent[OF assms(1,3)] defaultDisambiguate_nth[OF assms(4)]
    by (simp add: initial_agent_def agent_descriptor.extend_def)
  have "ar_map t = ar_map s @ [(ag_id d, initial_agent defaultDisambiguate d now s)]"
    using assms(3) by (simp add: t_def update_append)
  moreover have "agents_ok t"
    using assms(1) by (auto simp: t_def agents_ok_def in_update_distinct)
  ultimately show ?thesis using sigils_ok_snoc[OF assms(2)] by (simp add: g)
qed

lemma roster_fold:
  assumes "agents_ok s" and "sigils_ok (map ag_sigil (map_values (ar_map s)))"
    and "distinct (map_keys (ar_map s) @ map (\<lambda>(d, now). ag_id d) ds)"
    and "\<forall>(d, now)\<in>set ds. sg_suffix (ag_sigil d) = None"
  defines "t \<equiv> fold (\<lambda>(d, now) s. s\<lparr>ar_map := map_set (ag_id d) (initial_agent defaultDisambiguate d now s) (ar_map s)\<rparr>) ds s"
  shows "agents_ok t \<and> sigils_ok (map ag_sigil (map_values (ar_map t))) \<and>
         map_keys (ar_map t) = map_keys (ar_map s) @ map (\<lambda>(d, now). ag_id d) ds"
  using assms(1-4) unfolding t_def
proof (induction ds arbitrary: s)
  case Nil
  then show ?case by simp
next
  case (Cons x ds)
  obtain d now where x: "x = (d, now)" by (cases x)
  let ?s = "s\<lparr>ar_map := map_set (ag_id d) (initial_agent defaultDisambiguate d now s) (ar_map s)\<rparr>"
  have "agents_ok ?s \<and> sigils_ok (map ag_sigil (map_values (ar_map ?s))) \<and>
        map_keys (ar_map ?s) = map_keys (ar_map s) @ [ag_id d]"
    using roster_step[of s d now] Cons.prems x by auto
  then show ?case using Cons.IH[of ?s] Cons.prems x by auto
qed

text \<open>Agents with pairwise distinct ids, whose descriptors carry plain sigils, are listed in the order
  of the initial roster, and no two of them show the same sigil, whatever names collide.
\<close>

theorem agent_sigils_distinct:
  assumes "distinct (map (\<lambda>(d, now). ag_id d) ds)" and "\<forall>(d, now)\<in>set ds. sg_suffix (ag_sigil d) = None"
  defines "agents \<equiv> agent_snapshot (createAgentPresenceManager defaultDisambiguate ds)"
  shows "map ag_id agents = map (\<lambda>(d, now). ag_id d) ds \<and> distinct (map ag_sigil agents)"
proof -
  let ?e = "\<lparr>ar_map = [], ar_listeners = [], ar_perAgent = []\<rparr> :: agent_registry"
  have e: "agents_ok ?e" "sigils_ok (map ag_sigil (map_values (ar_map ?e)))"
    by (simp_all add: agents_ok_def sigils_ok_def)
  let ?s = "createAgentPresenceManager defaultDisambiguate ds"
  have ok: "agents_ok ?s" and sig: "sigils_ok (map ag_sigil (map_values (ar_map ?s)))"
    and keys: "map_keys (ar_map ?s) = map (\<lambda>(d, now). ag_id d) ds"
    using roster_fold[OF e, of ds] assms(1,2) unfolding createAgentPresenceManager_def by simp_all
  have "distinct (map ag_sigil (map_values (ar_map ?s)))" using sig by (simp only: sigils_ok_def)
  then show ?thesis
    by (simp only: agents_def agent_snapshot_def map_fst_snd_ids[OF ok] keys simp_thms)
qed

definition demo_desc :: "string \<Rightarrow> string \<Rightarrow> agent_descriptor" where
  "demo_desc k name = \<lparr>ag_id = k, ag_name = name, ag_sigil = deriveSigil name, ag_colorSlot = kSlot k\<rparr>"

theorem agent_sigils_distinct_witness:
  "distinct (map ag_sigil (agent_snapshot (createAgentPresenceManager defaultDisambiguate
      [(demo_desc ''a'' ''Claude'', ''t''), (demo_desc ''b'' ''Clara'', ''t''), (demo_desc ''c'' ''7'', ''t'')])))"
proof -
  have "distinct (map (\<lambda>(d, now). ag_id d)
      [(demo_desc ''a'' ''Claude'', ''t''), (demo_desc ''b'' ''Clara'', ''t''), (demo_desc ''c'' ''7'', ''t'')])"
    "\<forall>(d, now)\<in>set [(demo_desc ''a'' ''Claude'', ''t''), (demo_desc ''b'' ''Clara'', ''t''), (demo_desc ''c'' ''7'', ''t'')].
       sg_suffix (ag_sigil d) = None"
    by (simp_all add: demo_desc_def deriveSigil_def Let_def)
  from agent_sigils_distinct[OF this] show ?thesis by blast
qed

text \<open>Registering an agent again loses the uniqueness: with two agents of the same sigil text in the
  roster, a second \<open>register\<close> of the first one counts the other as a collision and gives both
  the superscript two.
\<close>

theorem agent_reregister_collides:
  fixes t1 t2 t3 :: string
  assumes "ag_id d1 \<noteq> ag_id d2" and "ag_sigil d1 = ag_sigil d2" and "sg_suffix (ag_sigil d1) = None"
  defines "s \<equiv> createAgentPresenceManager defaultDisambiguate [(d1, t1), (d2, t2)]"
  shows "map ag_sigil (agent_snapshot s) = [nth_sigil (sg_text (ag_sigil d1)) 0, nth_sigil (sg_text (ag_sigil d1)) 1] \<and>
         map ag_sigil (agent_snapshot (fst (agent_register defaultDisambiguate d1 t3 s))) =
           [nth_sigil (sg_text (ag_sigil d1)) 1, nth_sigil (sg_text (ag_sigil d1)) 1]"
proof -
  note defs = createAgentPresenceManager_def initial_agent_def agent_descriptor.extend_def existingSigils_def
    agent_register_def registered_agent_def setAgent_def agent_snapshot_def Let_def
  show ?thesis
    using assms(1-3)
    by (simp add: s_def defs defaultDisambiguate_nth)
qed

theorem agent_reregister_collides_witness:
  "map (sg_suffix \<circ> ag_sigil) (agent_snapshot (fst (agent_register defaultDisambiguate (demo_desc ''a'' ''Claude'') ''u''
     (createAgentPresenceManager defaultDisambiguate
        [(demo_desc ''a'' ''Claude'', ''t''), (demo_desc ''b'' ''Clara'', ''t'')])))) =
   [Some (Superscript 2), Some (Superscript 2)]"
proof -
  have "ag_id (demo_desc ''a'' ''Claude'') \<noteq> ag_id (demo_desc ''b'' ''Clara'')"
    "ag_sigil (demo_desc ''a'' ''Claude'') = ag_sigil (demo_desc ''b'' ''Clara'')"
    "sg_suffix (ag_sigil (demo_desc ''a'' ''Claude'')) = None"
    by (simp_all add: demo_desc_def deriveSigil_def is_letter_def upper_ascii_def upper_ascii_char_def Let_def)
  note e = agent_reregister_collides[OF this, of "''t''" "''t''" "''u''", THEN conjunct2]
  have "map (sg_suffix \<circ> ag_sigil) xs = map sg_suffix ys" if "map ag_sigil xs = ys" for xs :: "agent list" and ys
    using that by auto
  from this[OF e] show ?thesis unfolding nth_sigil_def by (elim trans) simp
qed

section \<open>Colour slots\<close>

definition palette_slots :: "nat list" where
  "palette_slots = [1..<Suc (length AGENT_COLOR_PALETTE)]"

lemma palette_length [simp]: "length AGENT_COLOR_PALETTE = 15"
  by (simp add: AGENT_COLOR_PALETTE_def)

lemma colorForSlot_inject:
  assumes "i \<in> {1..15}" and "j \<in> {1..15}" and "colorForSlot i = colorForSlot j"
  shows "i = j"
proof -
  have "distinct AGENT_COLOR_PALETTE" by (simp add: AGENT_COLOR_PALETTE_def)
  from nth_eq_iff_index_eq[OF this, of "i - 1" "j - 1"] have "i - 1 = j - 1"
    using assms by (simp add: colorForSlot_def Suc_le_eq) linarith
  then show ?thesis using assms(1,2) by simp linarith
qed

lemma kSlot_bounds: "1 \<le> kSlot k \<and> kSlot k \<le> 12"
  by (simp add: kSlot_def Suc_leI)

lemma assign_new_slot:
  assumes "map_get m k = None" and "length m < 15"
  shows "assignAgentColorSlot k m \<notin> set (map_values m) \<and> assignAgentColorSlot k m \<in> {1..15}"
proof -
  have "card (set (map_values m)) < card (set [1..<Suc 15])"
    using assms(2) card_length[of "map_values m"] by simp
  then have "\<not> set [1..<Suc 15] \<subseteq> set (map_values m)"
    by (meson List.finite_set card_mono not_le)
  then have "\<exists>x\<in>set [1..<Suc 15]. x \<notin> set (map_values m)" by blast
  then obtain slot where f: "List.find (\<lambda>slot. slot \<notin> set (map_values m)) [1..<Suc 15] = Some slot"
    using find_Some_iff_ex[of "\<lambda>slot. slot \<notin> set (map_values m)" "[1..<Suc 15]"] by blast
  from find_Some_in[OF f] have "slot \<in> {1..15}" "slot \<notin> set (map_values m)" by auto
  with f assms(1) show ?thesis by (simp add: assignAgentColorSlot_def Let_def)
qed

text \<open>The slots of agents that are assigned one after the other.\<close>

definition assign_all :: "string list \<Rightarrow> (string, nat) jsmap" where
  "assign_all = foldl (\<lambda>m k. map_set k (assignAgentColorSlot k m) m) []"

lemma assign_all_spec:
  "distinct ks \<Longrightarrow> length ks \<le> 15 \<Longrightarrow>
   map_keys (assign_all ks) = ks \<and> distinct (map_values (assign_all ks)) \<and> set (map_values (assign_all ks)) \<subseteq> {1..15}"
proof (induction ks rule: rev_induct)
  case Nil
  then show ?case by (simp add: assign_all_def)
next
  case (snoc k ks)
  let ?m = "assign_all ks" and ?c = "assignAgentColorSlot k (assign_all ks)"
  have ih: "map_keys ?m = ks" "distinct (map_values ?m)" "set (map_values ?m) \<subseteq> {1..15}"
    using snoc by auto
  then have "length ?m = length ks" by (metis length_map)
  moreover have "map_get ?m k = None"
    unfolding map_of_eq_None_iff using snoc.prems ih(1) by (metis distinct_append list.set_map not_distinct_conv_prefix)
  ultimately have c: "?c \<notin> set (map_values ?m) \<and> ?c \<in> {1..15}"
    using assign_new_slot[of ?m k] snoc.prems by simp
  have "assign_all (ks @ [k]) = ?m @ [(k, ?c)]"
    using snoc.prems ih(1) by (simp add: assign_all_def update_append)
  then show ?case using ih c by simp
qed

text \<open>Up to fifteen agents that ask for a slot one after the other each get a palette slot of their
  own and keep it when they ask again, and their colours are pairwise distinct.
\<close>

theorem agent_colors_distinct:
  assumes "distinct ks" and "length ks \<le> 15"
  shows "map_keys (assign_all ks) = ks \<and> distinct (map colorForSlot (map_values (assign_all ks))) \<and>
         set (map_values (assign_all ks)) \<subseteq> {1..15} \<and>
         (\<forall>(k, slot)\<in>set (assign_all ks). assignAgentColorSlot k (assign_all ks) = slot)"
proof -
  note sp = assign_all_spec[OF assms]
  have "inj_on colorForSlot (set (map_values (assign_all ks)))"
    using sp colorForSlot_inject by (intro inj_onI) blast
  moreover have "\<forall>(k, slot)\<in>set (assign_all ks). assignAgentColorSlot k (assign_all ks) = slot"
  proof -
    have "distinct (map_keys (assign_all ks))" using sp assms(1) by simp
    then show ?thesis by (auto simp: assignAgentColorSlot_def map_of_is_SomeI simp del: set_map)
  qed
  moreover have "distinct (map colorForSlot (map_values (assign_all ks)))"
    by (rule distinct_map[THEN iffD2, OF conjI]) (use sp calculation(1) in blast)+
  ultimately show ?thesis using sp by blast
qed

theorem agent_colors_distinct_witness:
  "map colorForSlot (map_values (assign_all [''a'', ''b'', ''c''])) = [''#E74C3C'', ''#3498DB'', ''#2ECC71''] \<and>
   distinct (map colorForSlot (map_values (assign_all [''a'', ''b'', ''c''])))"
proof
  show "map colorForSlot (map_values (assign_all [''a'', ''b'', ''c''])) = [''#E74C3C'', ''#3498DB'', ''#2ECC71'']"
    by (simp add: assign_all_def assignAgentColorSlot_def colorForSlot_def AGENT_COLOR_PALETTE_def
        set_from_def set_add_def upt_rec Let_def)
  have "distinct [''a'', ''b'', ''c'']" "length [''a'', ''b'', ''c''] \<le> 15" by simp_all
  from agent_colors_distinct[OF this]
  show "distinct (map colorForSlot (map_values (assign_all [''a'', ''b'', ''c''])))" by blast
qed

section \<open>The coalescer applies one merged update per agent\<close>

fun merge_updates :: "coalesced_update list \<Rightarrow> coalesced_update option" where
  "merge_updates [] = None"
| "merge_updates (u # us) = Some (foldl spread_update u us)"

lemma merge_updates_snoc:
  "merge_updates (us @ [u]) = Some (case merge_updates us of None \<Rightarrow> u | Some v \<Rightarrow> spread_update v u)"
  by (cases us) simp_all

definition enqueued :: "coalesced_update list \<Rightarrow> coalescer" where
  "enqueued us = fst (run coalescer_step (map Co_enqueue us) createPresenceUpdateCoalescer)"

lemma enqueued_Nil [simp]: "enqueued [] = createPresenceUpdateCoalescer"
  by (simp add: enqueued_def)

lemma enqueued_snoc: "enqueued (us @ [u]) = fst (coalescer_enqueue u (enqueued us))"
  by (simp add: enqueued_def run_append run_Cons del: run.simps(2))

lemma enqueued_spec:
  "co_timer (enqueued us) = (us \<noteq> []) \<and> map_keys (co_pending (enqueued us)) = set_from (map cu_id us) \<and>
   (\<forall>k. map_get (co_pending (enqueued us)) k = merge_updates (filter (\<lambda>u. cu_id u = k) us))"
proof (induction us rule: rev_induct)
  case Nil
  then show ?case by (simp add: createPresenceUpdateCoalescer_def set_from_def)
next
  case (snoc u us)
  let ?p = "co_pending (enqueued us)"
  let ?v = "case map_get ?p (cu_id u) of None \<Rightarrow> u | Some old \<Rightarrow> spread_update old u"
  have p: "co_pending (enqueued (us @ [u])) = map_set (cu_id u) ?v ?p" and t: "co_timer (enqueued (us @ [u]))"
    by (simp_all add: enqueued_snoc coalescer_enqueue_def coalescer_schedule_def)
  have "map_keys (map_set (cu_id u) ?v ?p) = set_from (map cu_id (us @ [u]))"
    using snoc by (cases "cu_id u \<in> set (map_keys ?p)")
      (simp_all add: keys_update_in update_append set_from_def set_add_def fold_set_add_set)
  then show ?case using snoc by (simp add: p t merge_updates_snoc)
qed

text \<open>The updates enqueued since the last flush are applied by the timer in one call per agent, in the
  order in which the agents first appeared; each call carries the spread of that agent's updates in
  order, so a later update wins key by key. The timer is armed once and nothing stays pending.
\<close>

theorem coalescer_applies_merged:
  "run coalescer_step (map Co_enqueue us @ [Co_timeout]) createPresenceUpdateCoalescer =
     (createPresenceUpdateCoalescer,
      (if us = [] then [] else [Timer_set]) @
      map (\<lambda>k. Applied (the (merge_updates (filter (\<lambda>u. cu_id u = k) us)))) (set_from (map cu_id us)))"
proof -
  have ev: "snd (run coalescer_step (map Co_enqueue us) s) = (if us = [] \<or> co_timer s then [] else [Timer_set])"
    for us s
    by (induction us arbitrary: s)
      (auto simp: run_Cons coalescer_enqueue_def coalescer_schedule_def simp del: run.simps(2))
  note sp = enqueued_spec[of us]
  have d: "distinct (map_keys (co_pending (enqueued us)))" using sp by simp
  have "map_values (co_pending (enqueued us)) =
      map (\<lambda>k. the (merge_updates (filter (\<lambda>u. cu_id u = k) us))) (map_keys (co_pending (enqueued us)))"
    unfolding values_by_key[OF d] using sp by simp
  then have vals: "map Applied (map_values (co_pending (enqueued us))) =
      map (\<lambda>k. Applied (the (merge_updates (filter (\<lambda>u. cu_id u = k) us)))) (set_from (map cu_id us))"
    using sp by simp
  have to: "coalescer_timeout (enqueued us) =
      (createPresenceUpdateCoalescer, map Applied (map_values (co_pending (enqueued us))))"
    using sp by (cases "enqueued us") (auto simp: coalescer_timeout_def coalescer_flush_def createPresenceUpdateCoalescer_def set_from_def)
  have "\<not> co_timer createPresenceUpdateCoalescer" by (simp add: createPresenceUpdateCoalescer_def)
  then show ?thesis
    by (simp add: run_append run_Cons ev to flip: enqueued_def del: run.simps(2) map_map) (simp only: vals)
qed

section \<open>The activity summary accounts for every event\<close>

lemma bucket_add_spec:
  defines "B \<equiv> \<lambda>w es. fold (bucket_add w) es []"
  shows "distinct (map_keys (B w es)) \<and>
         (\<forall>k. map_get (B w es) k = (case filter (\<lambda>e. activity_key w e = k) es of [] \<Rightarrow> None | b \<Rightarrow> Some b))"
proof (induction es rule: rev_induct)
  case Nil
  then show ?case by (simp add: B_def)
next
  case (snoc e es)
  have "B w (es @ [e]) = bucket_add w e (B w es)" by (simp add: B_def)
  then show ?case using snoc
    by (auto simp: bucket_add_def Let_def split: option.split list.split)
qed

lemma by_timestamp_comparator: "comparator by_timestamp"
  by unfold_locales (auto simp: by_timestamp_def)

interpretation timestamp_order: comparator by_timestamp
  by (rule by_timestamp_comparator)

interpretation start_order: comparator by_start
  by unfold_locales (auto simp: by_start_def)

lemma sorted_last_max:
  "sorted_wrt (\<lambda>a b. by_timestamp a b \<le> 0) xs \<Longrightarrow> x \<in> set xs \<Longrightarrow> ev_timestampMs x \<le> ev_timestampMs (last xs)"
  by (induction xs) (auto simp: by_timestamp_def)

lemma summarize_bucket_spec:
  assumes "b \<noteq> []"
  obtains su where "summarize_bucket k b = Some su" and "su_key su = k" and "su_count su = length b"
    and "\<exists>e\<in>set b. su_startedAtMs su = ev_timestampMs e" and "\<exists>e\<in>set b. su_endedAtMs su = ev_timestampMs e"
    and "\<forall>e\<in>set b. su_startedAtMs su \<le> ev_timestampMs e \<and> ev_timestampMs e \<le> su_endedAtMs su"
proof -
  let ?s = "js_sort by_timestamp b"
  have s: "?s \<noteq> []" "set ?s = set b" "length ?s = length b" using assms by simp_all
  have "hd ?s \<in> set b" "last ?s \<in> set b" using s by (metis hd_in_set last_in_set)+
  moreover have "\<forall>e\<in>set b. ev_timestampMs (hd ?s) \<le> ev_timestampMs e \<and> ev_timestampMs e \<le> ev_timestampMs (last ?s)"
    using timestamp_order.hd_js_sort_le[of _ b] sorted_last_max[OF timestamp_order.js_sort_sorted, of _ b]
    by (auto simp: by_timestamp_def)
  moreover obtain su where "summarize_bucket k b = Some su" "su_key su = k" "su_count su = length b"
    "su_startedAtMs su = ev_timestampMs (hd ?s)" "su_endedAtMs su = ev_timestampMs (last ?s)"
    using assms by (simp add: summarize_bucket_def Let_def)
  ultimately show thesis by (intro that[of su]) auto
qed

lemma activity_key_window:
  "activity_key w a = activity_key w b \<Longrightarrow> ev_timestampMs a div w * w = ev_timestampMs b div w * w"
  unfolding activity_key_def
  by (drule colon_prefix_inject[OF show_int_not_colon show_int_not_colon]) simp

lemma same_window_lt:
  fixes w :: int
  assumes "0 < w" and "a div w * w = b div w * w"
  shows "b - a < w"
  using assms div_mult_mod_eq[of a w] div_mult_mod_eq[of b w] pos_mod_bound[of w b] pos_mod_sign[of w a] by linarith

lemma summaries_spec:
  defines "B \<equiv> \<lambda>w es. fold (bucket_add w) es []"
    and "P \<equiv> \<lambda>w es. List.map_filter (\<lambda>(key, bucket). summarize_bucket key bucket) (fold (bucket_add w) es [])"
  shows "map su_key (P w es) = map_keys (B w es)"
    and "su \<in> set (P w es) \<Longrightarrow> \<exists>b. map_get (B w es) (su_key su) = Some b \<and> summarize_bucket (su_key su) b = Some su"
proof -
  have d: "distinct (map_keys (B w es))" using bucket_add_spec by (simp add: B_def)
  have ne: "b \<noteq> []" if "(k, b) \<in> set (B w es)" for k b
    using bucket_add_spec[of w es] map_of_is_SomeI[OF d that] by (auto simp: B_def split: list.splits)
  have key: "summarize_bucket k b = Some u \<Longrightarrow> su_key u = k" for k b u
    by (auto simp: summarize_bucket_def Let_def split: if_splits)
  have "map su_key (List.map_filter (\<lambda>(key, bucket). summarize_bucket key bucket) m) = map_keys m"
    if "\<forall>(k, b)\<in>set m. b \<noteq> []" for m
    using that
  proof (induction m)
    case (Cons x m)
    obtain k b where x: "x = (k, b)" by (cases x)
    obtain u where "summarize_bucket k b = Some u" "su_key u = k"
      using summarize_bucket_spec[of b k] Cons.prems x by auto
    then show ?case using Cons x by (simp add: map_filter_simps)
  qed (simp add: map_filter_simps)
  then show "map su_key (P w es) = map_keys (B w es)" using ne by (auto simp: P_def B_def)
  show "\<exists>b. map_get (B w es) (su_key su) = Some b \<and> summarize_bucket (su_key su) b = Some su" if "su \<in> set (P w es)"
  proof -
    obtain k b where "(k, b) \<in> set (B w es)" "summarize_bucket k b = Some su"
      using \<open>su \<in> set (P w es)\<close> unfolding P_def B_def set_map_filter_iff by auto
    then show ?thesis using map_of_is_SomeI[OF d] key by metis
  qed
qed

text \<open>No activity event is lost or counted twice: the summaries have pairwise distinct keys, exactly the
  keys of the events; each counts all the events of its key, spans their first and last timestamp,
  which lie less than one window apart; and the summaries come in the order of their start.
\<close>

theorem activity_summary_accounts:
  fixes events :: "activity_event list"
  assumes "0 < w"
  defines "S \<equiv> summarizeActivityEvents w events"
  shows "distinct (map su_key S) \<and> set (map su_key S) = activity_key w ` set events \<and>
         sorted (map su_startedAtMs S) \<and>
         (\<forall>su\<in>set S. su_count su = length (filter (\<lambda>e. activity_key w e = su_key su) events) \<and>
            su_startedAtMs su \<le> su_endedAtMs su \<and> su_endedAtMs su - su_startedAtMs su < w \<and>
            (\<forall>e\<in>set events. activity_key w e = su_key su \<longrightarrow>
               su_startedAtMs su \<le> ev_timestampMs e \<and> ev_timestampMs e \<le> su_endedAtMs su))"
proof -
  let ?B = "fold (bucket_add w) events []"
  let ?P = "List.map_filter (\<lambda>(key, bucket). summarize_bucket key bucket) ?B"
  have S: "S = js_sort by_start ?P" by (simp add: S_def summarizeActivityEvents_def)
  note B = bucket_add_spec[of w events]
  have get: "map_get ?B k = Some b \<longleftrightarrow> b = filter (\<lambda>e. activity_key w e = k) events \<and> b \<noteq> []" for k b
    using B by (auto split: list.split)
  have "distinct (map su_key S)"
    unfolding S distinct_map_js_sort summaries_spec(1) using B by blast
  moreover have "set (map su_key S) = activity_key w ` set events"
  proof -
    have "set (map su_key S) = set (map_keys ?B)" using summaries_spec(1)[of w events] S by (metis mset_js_sort mset_map set_mset_mset)
    also have "\<dots> = {k. map_get ?B k \<noteq> None}" by (simp only: map_of_eq_None_iff not_not list.set_map Collect_mem_eq)
    also have "\<dots> = activity_key w ` set events"
      by (auto simp: get filter_empty_conv image_iff)
    finally show ?thesis .
  qed
  moreover have "sorted (map su_startedAtMs S)"
    using start_order.js_sort_sorted[of ?P] by (simp add: S by_start_def sorted_wrt_map)
  moreover have "su_count su = length (filter (\<lambda>e. activity_key w e = su_key su) events) \<and>
            su_startedAtMs su \<le> su_endedAtMs su \<and> su_endedAtMs su - su_startedAtMs su < w \<and>
            (\<forall>e\<in>set events. activity_key w e = su_key su \<longrightarrow>
               su_startedAtMs su \<le> ev_timestampMs e \<and> ev_timestampMs e \<le> su_endedAtMs su)"
    if "su \<in> set S" for su
  proof -
    have "su \<in> set ?P" using that S by simp
    from summaries_spec(2)[OF this] obtain b where "map_get ?B (su_key su) = Some b"
      and sb: "summarize_bucket (su_key su) b = Some su" by blast
    then have b: "b = filter (\<lambda>e. activity_key w e = su_key su) events" "b \<noteq> []" using get by auto
    from summarize_bucket_spec[OF b(2), of "su_key su"] sb obtain e1 e2 where
      e: "e1 \<in> set b" "e2 \<in> set b" "su_startedAtMs su = ev_timestampMs e1" "su_endedAtMs su = ev_timestampMs e2"
      and c: "su_count su = length b"
        "\<forall>e\<in>set b. su_startedAtMs su \<le> ev_timestampMs e \<and> ev_timestampMs e \<le> su_endedAtMs su" by (metis option.inject)
    have "activity_key w e1 = activity_key w e2" using e(1,2) b(1) by auto
    then have "ev_timestampMs e2 - ev_timestampMs e1 < w"
      using activity_key_window same_window_lt[OF assms(1)] by blast
    then show ?thesis using e c b(1) by auto
  qed
  ultimately show ?thesis by blast
qed

definition demo_event :: "activity_type \<Rightarrow> int \<Rightarrow> activity_event" where
  "demo_event ty t = \<lparr>ev_id = ''e'', ev_type = ty, ev_agentId = Some ''a'', ev_agentName = None, ev_file = None,
     ev_message = None, ev_severity = None, ev_timestampMs = t\<rparr>"

theorem activity_summary_accounts_witness:
  "let events = [demo_event Edit_started 7000, demo_event Agent_failed 100, demo_event Edit_started 6000];
       S = summarizeActivityEvents 5000 events
   in sorted (map su_startedAtMs S) \<and> (\<exists>su\<in>set S. su_count su = 2)"
proof -
  let ?es = "[demo_event Edit_started 7000, demo_event Agent_failed 100, demo_event Edit_started 6000]"
  let ?k = "activity_key 5000 (demo_event Edit_started 7000)"
  have "(0::int) < 5000" by simp
  note acc = activity_summary_accounts[OF this, of ?es]
  have "?k \<in> set (map su_key (summarizeActivityEvents 5000 ?es))"
    using acc by (simp only: list.set image_insert insertI1)
  then obtain su where su: "su \<in> set (summarizeActivityEvents 5000 ?es)" "su_key su = ?k" by auto
  have "activity_key 5000 (demo_event Edit_started 6000) = ?k"
    by (simp add: activity_key_def demo_event_def)
  moreover have "activity_key 5000 (demo_event Agent_failed 100) \<noteq> ?k"
    using activity_key_window[of 5000 "demo_event Agent_failed 100" "demo_event Edit_started 7000"]
    by (auto simp: demo_event_def)
  ultimately have "length (filter (\<lambda>e. activity_key 5000 e = su_key su) ?es) = 2" using su(2) by simp
  then have "su_count su = 2" using acc su(1) by metis
  then show ?thesis using acc su(1) unfolding Let_def by blast
qed

end
