(* ===== verification/Collaboration.thy ===== *)
theory Collaboration
  imports Agent_Presence
begin

text \<open>
  \<open>headless-core/collaboration.ts\<close>: cursors per file, selections and conflict zones on top of the
  agent registry. The manager lives beside a registry (\<open>Agent_Presence\<close>) and subscribes to it, so the
  state here is a pair, and an operation on the registry calls the manager's snapshot handler
  whenever the registry sends a snapshot to the manager's listener.
\<close>

section \<open>Data\<close>

record collab_selection =
  sn_line :: int
  sn_column :: int
  sn_end :: "int \<times> int"

record agent_cursor =
  cr_agent :: agent
  cr_file :: string
  cr_position :: "int \<times> int"
  cr_selection :: "collab_selection option"

record file_conflict =
  fc_file :: string
  fc_lineFrom :: int
  fc_lineTo :: int
  fc_agents :: "agent list"

record zone =
  zn_agent :: agent
  zn_from :: int
  zn_to :: int

type_synonym seen_at = "string option \<times> int option \<times> int option"

record collab =
  cl_selections :: "(string, collab_selection) jsmap"
  cl_fileListeners :: keyed_listeners
  cl_conflictListeners :: "listener jsset"
  cl_lastFileCursors :: "(string, agent_cursor list) jsmap"
  cl_lastConflicts :: "(string, file_conflict list) jsmap"
  cl_lastAgentSeen :: "(string, seen_at) jsmap"
  cl_self :: listener

datatype collab_view = Cursors string "agent_cursor list" | Conflicts "file_conflict list"

type_synonym collab_event = "(collab_view, unit) event"

section \<open>Comparison of listings\<close>

definition basename :: "string \<Rightarrow> string" where
  "basename path = last (split_on CHR ''/'' path)"

definition cursorEqual :: "agent_cursor \<Rightarrow> agent_cursor \<Rightarrow> bool" where
  "cursorEqual a b \<longleftrightarrow> ag_id (cr_agent a) = ag_id (cr_agent b) \<and> cr_file a = cr_file b \<and>
     cr_position a = cr_position b \<and> cr_selection a = cr_selection b"

definition cursorListEqual :: "agent_cursor list \<Rightarrow> agent_cursor list \<Rightarrow> bool" where
  "cursorListEqual a b \<longleftrightarrow> length a = length b \<and> list_all2 cursorEqual a b"

definition conflictEqual :: "file_conflict \<Rightarrow> file_conflict \<Rightarrow> bool" where
  "conflictEqual a b \<longleftrightarrow> fc_file a = fc_file b \<and> fc_lineFrom a = fc_lineFrom b \<and> fc_lineTo a = fc_lineTo b \<and>
     length (fc_agents a) = length (fc_agents b) \<and>
     js_sort str_cmp (map ag_id (fc_agents a)) = js_sort str_cmp (map ag_id (fc_agents b))"

definition conflictListEqual :: "file_conflict list \<Rightarrow> file_conflict list \<Rightarrow> bool" where
  "conflictListEqual a b \<longleftrightarrow> length a = length b \<and> list_all2 conflictEqual a b"

section \<open>Cursors and conflicts of a file\<close>

definition activeAgentsInFile :: "string \<Rightarrow> agent_registry \<Rightarrow> collab \<Rightarrow> agent_cursor list" where
  "activeAgentsInFile file pr s =
     List.map_filter (\<lambda>a. case ag_cursor a of
         None \<Rightarrow> None
       | Some pos \<Rightarrow> Some \<lparr>cr_agent = a, cr_file = file, cr_position = pos,
                          cr_selection = map_get (cl_selections s) (ag_id a)\<rparr>) (agent_withinFile file pr)"

definition zone_of :: "int \<Rightarrow> agent_cursor \<Rightarrow> zone" where
  "zone_of radius c =
     (let (lo, hi) = (case cr_selection c of
            Some sel \<Rightarrow> (min (sn_line sel) (fst (sn_end sel)), max (sn_line sel) (fst (sn_end sel)))
          | None \<Rightarrow> (fst (cr_position c), fst (cr_position c)))
      in \<lparr>zn_agent = cr_agent c, zn_from = lo - radius, zn_to = hi + radius\<rparr>)"

definition by_from :: "zone \<Rightarrow> zone \<Rightarrow> int" where
  "by_from a b = zn_from a - zn_from b"

definition makeConflict :: "string \<Rightarrow> zone list \<Rightarrow> file_conflict" where
  "makeConflict file cluster =
     \<lparr>fc_file = file,
      fc_lineFrom = foldl (\<lambda>m z. if zn_from z < m then zn_from z else m) (zn_from (hd cluster)) (tl cluster),
      fc_lineTo = foldl (\<lambda>m z. if zn_to z > m then zn_to z else m) (zn_to (hd cluster)) (tl cluster),
      fc_agents = map zn_agent cluster\<rparr>"

text \<open>
  The loop over the sorted zones. \<open>clusterMaxTo\<close> is read only where the cluster is not empty, so its
  initial \<open>-Infinity\<close> needs no number, and \<open>makeConflict\<close> starts from the first zone instead of the
  infinities.
\<close>

fun sweep :: "zone list \<Rightarrow> zone list \<Rightarrow> int \<Rightarrow> zone list list" where
  "sweep [] cluster clusterMaxTo = (if length cluster \<ge> 2 then [cluster] else [])"
| "sweep (z # zs) cluster clusterMaxTo =
     (if cluster = [] \<or> zn_from z \<le> clusterMaxTo
      then sweep zs (cluster @ [z]) (if cluster = [] then zn_to z else max clusterMaxTo (zn_to z))
      else (if length cluster \<ge> 2 then [cluster] else []) @ sweep zs [z] (zn_to z))"

definition conflictsInFile :: "int \<Rightarrow> string \<Rightarrow> agent_registry \<Rightarrow> collab \<Rightarrow> file_conflict list" where
  "conflictsInFile radius file pr s =
     (let cursors = activeAgentsInFile file pr s in
      if length cursors < 2 then []
      else map (makeConflict file) (sweep (js_sort by_from (map (zone_of radius) cursors)) [] 0))"

definition announceConflict :: "file_conflict \<Rightarrow> announcement" where
  "announceConflict c =
     (let names = map ag_name (fc_agents c);
          others = length names - 2;
          tail = (if others = 1 then ''1 other'' else show_nat others @ '' others'');
          participants = (if length names = 2 then names ! 0 @ '' and '' @ names ! 1
                          else if length names \<ge> 3 then names ! 0 @ '', '' @ names ! 1 @ '', and '' @ tail
                          else join '', '' names);
          lines = (if fc_lineFrom c = fc_lineTo c then ''line '' @ show_int (fc_lineFrom c)
                   else ''lines '' @ show_int (fc_lineFrom c) @ ''-'' @ show_int (fc_lineTo c))
      in \<lparr>an_text = ''Editing conflict between '' @ participants @ '' on '' @ lines @ '' of '' @ basename (fc_file c),
          an_assertive = True\<rparr>)"

section \<open>Notifications\<close>

definition emitFile :: "string \<Rightarrow> agent_registry \<Rightarrow> collab \<Rightarrow> collab \<times> collab_event list" where
  "emitFile file pr s =
     (let ls = keyed_get file (cl_fileListeners s) in
      if ls = [] then (s, [])
      else
        (let cursors = activeAgentsInFile file pr s;
             prev = (case map_get (cl_lastFileCursors s) file of None \<Rightarrow> [] | Some c \<Rightarrow> c) in
         if cursorListEqual prev cursors then (s, [])
         else (s\<lparr>cl_lastFileCursors := map_set file cursors (cl_lastFileCursors s)\<rparr>, emit_to ls (Cursors file cursors))))"

definition emitConflictsForFile :: "int \<Rightarrow> string \<Rightarrow> agent_registry \<Rightarrow> collab \<Rightarrow> bool \<times> collab" where
  "emitConflictsForFile radius file pr s =
     (let next = conflictsInFile radius file pr s;
          prev = (case map_get (cl_lastConflicts s) file of None \<Rightarrow> [] | Some c \<Rightarrow> c) in
      if conflictListEqual prev next then (False, s)
      else (True, s\<lparr>cl_lastConflicts := map_set file next (cl_lastConflicts s)\<rparr>))"

definition emitConflictsAggregate :: "collab \<Rightarrow> collab_event list" where
  "emitConflictsAggregate s = emit_to (cl_conflictListeners s) (Conflicts (concat (map_values (cl_lastConflicts s))))"

definition add_file :: "string option \<Rightarrow> string jsset \<Rightarrow> string jsset" where
  "add_file f affected = (case f of None \<Rightarrow> affected | Some k \<Rightarrow> set_add k affected)"

definition see_agent :: "agent \<Rightarrow> string jsset \<times> (string, seen_at) jsmap \<Rightarrow> string jsset \<times> (string, seen_at) jsmap" where
  "see_agent a p =
     (let (affected, seen) = p;
          prev = map_get seen (ag_id a);
          cur = (ag_currentFile a, map_option fst (ag_cursor a), map_option snd (ag_cursor a));
          affected' = (if prev \<noteq> Some cur
                       then add_file (ag_currentFile a) (add_file (case prev of None \<Rightarrow> None | Some q \<Rightarrow> fst q) affected)
                       else affected)
      in (affected', map_set (ag_id a) cur seen))"

definition forget_agent :: "string \<Rightarrow> string jsset \<times> (string, seen_at) jsmap \<Rightarrow> string jsset \<times> (string, seen_at) jsmap" where
  "forget_agent k p =
     (let (affected, seen) = p
      in (add_file (case map_get seen k of None \<Rightarrow> None | Some q \<Rightarrow> fst q) affected, map_del k seen))"

definition affectedFilesFromSnapshot :: "agent list \<Rightarrow> (string, seen_at) jsmap \<Rightarrow> string jsset \<times> (string, seen_at) jsmap" where
  "affectedFilesFromSnapshot snapshot seen =
     (let p = fold see_agent snapshot ([], seen);
          gone = filter (\<lambda>k. k \<notin> set (map ag_id snapshot)) (map_keys (snd p))
      in fold forget_agent gone p)"

text \<open>The loop of the presence listener; the flag is \<open>conflictsChanged\<close>.\<close>

fun emit_affected :: "int \<Rightarrow> string list \<Rightarrow> agent_registry \<Rightarrow> bool \<Rightarrow> collab \<Rightarrow> (bool \<times> collab) \<times> collab_event list" where
  "emit_affected radius [] pr changed s = ((changed, s), [])"
| "emit_affected radius (f # fs) pr changed s =
     (let (s1, es) = emitFile f pr s;
          (c, s2) = emitConflictsForFile radius f pr s1;
          (r, es') = emit_affected radius fs pr (changed \<or> c) s2
      in (r, es @ es'))"

definition onSnapshot :: "int \<Rightarrow> agent list \<Rightarrow> agent_registry \<Rightarrow> collab \<Rightarrow> collab \<times> collab_event list" where
  "onSnapshot radius snapshot pr s =
     (let (affected, seen) = affectedFilesFromSnapshot snapshot (cl_lastAgentSeen s);
          ((changed, s1), es) = emit_affected radius affected pr False (s\<lparr>cl_lastAgentSeen := seen\<rparr>)
      in (s1, es @ (if changed then emitConflictsAggregate s1 else [])))"

text \<open>The tail that \<open>setSelection\<close> and \<open>clearSelection\<close> share.\<close>

definition emit_both :: "int \<Rightarrow> string \<Rightarrow> agent_registry \<Rightarrow> collab \<Rightarrow> collab \<times> collab_event list" where
  "emit_both radius file pr s =
     (let (s1, es) = emitFile file pr s;
          (changed, s2) = emitConflictsForFile radius file pr s1
      in (s2, es @ (if changed then emitConflictsAggregate s2 else [])))"

definition setSelection :: "int \<Rightarrow> string \<Rightarrow> string \<Rightarrow> collab_selection \<Rightarrow> agent_registry \<Rightarrow> collab \<Rightarrow> collab \<times> collab_event list" where
  "setSelection radius agentId file sel pr s =
     emit_both radius file pr (s\<lparr>cl_selections := map_set agentId sel (cl_selections s)\<rparr>)"

definition clearSelection :: "int \<Rightarrow> string \<Rightarrow> agent_registry \<Rightarrow> collab \<Rightarrow> collab \<times> collab_event list" where
  "clearSelection radius agentId pr s =
     (if \<not> map_has (cl_selections s) agentId then (s, [])
      else
        (let file = (case map_get (ar_map pr) agentId of None \<Rightarrow> None | Some a \<Rightarrow> ag_currentFile a);
             s1 = s\<lparr>cl_selections := map_del agentId (cl_selections s)\<rparr> in
         case file of None \<Rightarrow> (s1, []) | Some f \<Rightarrow> emit_both radius f pr s1))"

section \<open>The registry and the manager together\<close>

type_synonym collab_sys = "agent_registry \<times> collab"

text \<open>\<open>self\<close> is the identity of the callback the manager passes to \<open>presence.subscribe\<close>.\<close>

definition createCollaborationManager :: "listener \<Rightarrow> agent_registry \<Rightarrow> collab_sys" where
  "createCollaborationManager self pr =
     (pr\<lparr>ar_listeners := subscribe self (ar_listeners pr)\<rparr>,
      \<lparr>cl_selections = [], cl_fileListeners = ([], []), cl_conflictListeners = [], cl_lastFileCursors = [],
       cl_lastConflicts = [], cl_lastAgentSeen = [], cl_self = self\<rparr>)"

definition collab_presence :: "int \<Rightarrow> disambiguator \<Rightarrow> agent_op \<Rightarrow> collab_sys \<Rightarrow> collab_sys \<times> collab_event list" where
  "collab_presence radius dis x sys =
     (let (pr, es) = agent_step dis x (fst sys);
          (s, out) = foldl (\<lambda>(s, out) snap. let (s', es') = onSnapshot radius snap pr s in (s', out @ es'))
                       (snd sys, []) (received (cl_self (snd sys)) (sent es))
      in ((pr, s), out))"

datatype collab_op =
    Collab_presence agent_op
  | Collab_setSelection string string collab_selection | Collab_clearSelection string
  | Collab_subscribeFile string listener | Collab_disposeFile string nat listener
  | Collab_subscribeConflicts listener | Collab_unsubscribeConflicts listener
  | Collab_dispose

fun collab_step :: "int \<Rightarrow> disambiguator \<Rightarrow> collab_op \<Rightarrow> collab_sys \<Rightarrow> collab_sys \<times> collab_event list" where
  "collab_step radius dis (Collab_presence x) sys = collab_presence radius dis x sys"
| "collab_step radius dis (Collab_setSelection k f sel) sys =
     (let (s, es) = setSelection radius k f sel (fst sys) (snd sys) in ((fst sys, s), es))"
| "collab_step radius dis (Collab_clearSelection k) sys =
     (let (s, es) = clearSelection radius k (fst sys) (snd sys) in ((fst sys, s), es))"
| "collab_step radius dis (Collab_subscribeFile f l) sys =
     ((fst sys, (snd sys)\<lparr>cl_fileListeners := fst (keyed_subscribe f l (cl_fileListeners (snd sys)))\<rparr>), [])"
| "collab_step radius dis (Collab_disposeFile f r l) sys =
     ((fst sys, (snd sys)\<lparr>cl_fileListeners := keyed_dispose f r l (cl_fileListeners (snd sys))\<rparr>), [])"
| "collab_step radius dis (Collab_subscribeConflicts l) sys =
     ((fst sys, (snd sys)\<lparr>cl_conflictListeners := subscribe l (cl_conflictListeners (snd sys))\<rparr>), [])"
| "collab_step radius dis (Collab_unsubscribeConflicts l) sys =
     ((fst sys, (snd sys)\<lparr>cl_conflictListeners := unsubscribe l (cl_conflictListeners (snd sys))\<rparr>), [])"
| "collab_step radius dis Collab_dispose sys =
     (((fst sys)\<lparr>ar_listeners := unsubscribe (cl_self (snd sys)) (ar_listeners (fst sys))\<rparr>, snd sys), [])"

section \<open>Conflicts are the connected groups of overlapping zones\<close>

definition zones_overlap :: "zone \<Rightarrow> zone \<Rightarrow> bool" where
  "zones_overlap y z \<longleftrightarrow> zn_from y \<le> zn_to z \<and> zn_from z \<le> zn_to y"

abbreviation from_sorted :: "zone list \<Rightarrow> bool" where
  "from_sorted \<equiv> sorted_wrt (\<lambda>a b. zn_from a \<le> zn_from b)"

text \<open>All clusters of the sweep, also those of a single zone.\<close>

fun groups :: "zone list \<Rightarrow> zone list \<Rightarrow> int \<Rightarrow> zone list list" where
  "groups [] cl m = (if cl = [] then [] else [cl])"
| "groups (z # zs) cl m =
     (if cl = [] \<or> zn_from z \<le> m then groups zs (cl @ [z]) (if cl = [] then zn_to z else max m (zn_to z))
      else cl # groups zs [z] (zn_to z))"

lemma sweep_groups: "sweep zs cl m = filter (\<lambda>g. 2 \<le> length g) (groups zs cl m)"
  by (induction zs cl m rule: groups.induct) auto

lemma concat_groups: "concat (groups zs cl m) = cl @ zs"
  by (induction zs cl m rule: groups.induct) auto

text \<open>A cluster grows by zones that begin before some earlier zone of it has ended.\<close>

inductive linked :: "zone list \<Rightarrow> bool" where
  linked_single: "linked [z]"
| linked_snoc: "linked g \<Longrightarrow> y \<in> set g \<Longrightarrow> zn_from z \<le> zn_to y \<Longrightarrow> linked (g @ [z])"

definition reaches :: "zone list \<Rightarrow> int \<Rightarrow> bool" where
  "reaches cl m \<longleftrightarrow> (\<forall>z\<in>set cl. zn_to z \<le> m) \<and> (\<exists>z\<in>set cl. zn_to z = m)"

lemma reaches_snoc: "reaches cl m \<Longrightarrow> reaches (cl @ [z]) (max m (zn_to z))"
  by (fastforce simp: reaches_def max_def)

lemma reaches_single [simp]: "reaches [z] (zn_to z)"
  by (simp add: reaches_def)

lemma groups_linked:
  "cl = [] \<or> linked cl \<and> reaches cl m \<Longrightarrow> g \<in> set (groups zs cl m) \<Longrightarrow> linked g"
proof (induction zs cl m rule: groups.induct)
  case (2 z zs cl m)
  show ?case
  proof (cases "cl = [] \<or> zn_from z \<le> m")
    case True
    have "linked (cl @ [z]) \<and> reaches (cl @ [z]) (if cl = [] then zn_to z else max m (zn_to z))"
    proof (cases "cl = []")
      case False
      then have "zn_from z \<le> m" "linked cl" "reaches cl m" using True 2 by auto
      then show ?thesis using False by (auto simp: reaches_snoc reaches_def intro: linked_snoc)
    qed (simp add: linked_single)
    then show ?thesis using 2 True by simp
  next
    case False
    then show ?thesis using 2 by (auto simp: linked_single)
  qed
qed (auto split: if_splits)

definition apart :: "zone list \<Rightarrow> zone list \<Rightarrow> bool" where
  "apart g h \<longleftrightarrow> (\<forall>y\<in>set g. \<forall>z\<in>set h. zn_to y < zn_from z)"

lemma groups_apart:
  "from_sorted (cl @ zs) \<Longrightarrow> cl = [] \<or> reaches cl m \<Longrightarrow> sorted_wrt apart (groups zs cl m)"
proof (induction zs cl m rule: groups.induct)
  case (2 z zs cl m)
  show ?case
  proof (cases "cl = [] \<or> zn_from z \<le> m")
    case True
    then show ?thesis using 2 by (auto simp: reaches_snoc)
  next
    case False
    have later: "apart cl g" if g: "g \<in> set (groups zs [z] (zn_to z))" for g
    proof -
      have "set g \<subseteq> set (z # zs)" using g concat_groups[of zs "[z]" "zn_to z"] by (metis UN_upper append_Cons append_Nil set_concat)
      moreover have "\<forall>x\<in>set (z # zs). zn_from z \<le> zn_from x" using 2(3) by (auto simp: sorted_wrt_append)
      ultimately show ?thesis using False 2(4) by (fastforce simp: apart_def reaches_def)
    qed
    have "sorted_wrt apart (groups zs [z] (zn_to z))"
      using False 2 by (auto simp: sorted_wrt_append)
    then show ?thesis using False later by auto
  qed
qed auto

lemma linked_overlap:
  assumes "linked g" and "from_sorted g" and "\<forall>z\<in>set g. zn_from z \<le> zn_to z" and "distinct g"
    and "2 \<le> length g" and "z \<in> set g"
  shows "\<exists>y\<in>set g. y \<noteq> z \<and> zones_overlap z y"
  using assms
proof (induction arbitrary: z)
  case (linked_snoc g y w)
  have yw: "zones_overlap w y" "y \<noteq> w"
    using linked_snoc.hyps linked_snoc.prems by (force simp: zones_overlap_def sorted_wrt_append)+
  show ?case
  proof (cases "z = w")
    case True
    then show ?thesis using yw linked_snoc.hyps by auto
  next
    case False
    then have z: "z \<in> set g" using linked_snoc.prems by simp
    show ?thesis
    proof (cases "2 \<le> length g")
      case True
      then show ?thesis using linked_snoc.IH[of z] linked_snoc.prems z by (auto simp: sorted_wrt_append)
    next
      case False
      then have "z = y" using z linked_snoc.hyps by (cases g; cases "tl g") auto
      then show ?thesis using yw by (intro bexI[of _ w]) (auto simp: zones_overlap_def)
    qed
  qed
qed simp

lemma foldl_least:
  fixes f :: "'a \<Rightarrow> int"
  shows "foldl (\<lambda>m z. if f z < m then f z else m) m zs = Min (insert m (f ` set zs))"
proof (induction zs arbitrary: m)
  case (Cons a zs)
  have "foldl (\<lambda>m z. if f z < m then f z else m) m (a # zs) = Min (insert (min m (f a)) (f ` set zs))"
    using Cons.IH[of "min m (f a)"] by (cases "f a < m") (simp_all add: min_def)
  also have "\<dots> = Min (insert m (f ` set (a # zs)))"
    by (cases zs) (simp_all add: min.assoc)
  finally show ?case .
qed simp

lemma foldl_greatest:
  fixes f :: "'a \<Rightarrow> int"
  shows "foldl (\<lambda>m z. if f z > m then f z else m) m zs = Max (insert m (f ` set zs))"
proof (induction zs arbitrary: m)
  case (Cons a zs)
  have "foldl (\<lambda>m z. if f z > m then f z else m) m (a # zs) = Max (insert (max m (f a)) (f ` set zs))"
    using Cons.IH[of "max m (f a)"] by (cases "m < f a") (simp_all add: max_def)
  also have "\<dots> = Max (insert m (f ` set (a # zs)))"
    by (cases zs) (simp_all add: max.assoc)
  finally show ?case .
qed simp

lemma makeConflict_lines:
  assumes "g \<noteq> []"
  shows "fc_lineFrom (makeConflict f g) = Min (zn_from ` set g)" and "fc_lineTo (makeConflict f g) = Max (zn_to ` set g)"
  using assms by (cases g; simp add: makeConflict_def foldl_least foldl_greatest)+

lemma makeConflict_span:
  assumes "g \<noteq> []"
  shows "\<forall>z\<in>set g. fc_lineFrom (makeConflict f g) \<le> zn_from z \<and> zn_to z \<le> fc_lineTo (makeConflict f g)"
    and "\<exists>z\<in>set g. fc_lineFrom (makeConflict f g) = zn_from z" and "\<exists>z\<in>set g. fc_lineTo (makeConflict f g) = zn_to z"
proof -
  have n: "finite (h ` set g)" "h ` set g \<noteq> {}" for h :: "zone \<Rightarrow> int" using assms by auto
  show "\<forall>z\<in>set g. fc_lineFrom (makeConflict f g) \<le> zn_from z \<and> zn_to z \<le> fc_lineTo (makeConflict f g)"
    by (simp add: makeConflict_lines[OF assms])
  show "\<exists>z\<in>set g. fc_lineFrom (makeConflict f g) = zn_from z"
    using Min_in[OF n[of zn_from]] by (auto simp: makeConflict_lines[OF assms])
  show "\<exists>z\<in>set g. fc_lineTo (makeConflict f g) = zn_to z"
    using Max_in[OF n[of zn_to]] by (auto simp: makeConflict_lines[OF assms])
qed

interpretation from_order: comparator by_from
  by unfold_locales (auto simp: by_from_def)

lemma withinFile_ids: "agents_ok pr \<Longrightarrow> distinct (map ag_id (agent_withinFile file pr))"
proof -
  assume ok: "agents_ok pr"
  then have "distinct (map ag_id (map_values (ar_map pr)))"
    unfolding map_fst_snd_ids[OF ok] by (simp add: agents_ok_def)
  then show ?thesis unfolding agent_withinFile_def by (rule distinct_map_filter)
qed

lemma activeAgents_ids: "agents_ok pr \<Longrightarrow> distinct (map (ag_id \<circ> cr_agent) (activeAgentsInFile file pr s))"
proof -
  have "map (ag_id \<circ> cr_agent) (List.map_filter (\<lambda>a. case ag_cursor a of None \<Rightarrow> None
       | Some pos \<Rightarrow> Some \<lparr>cr_agent = a, cr_file = file, cr_position = pos,
                          cr_selection = map_get (cl_selections s) (ag_id a)\<rparr>) xs) =
     map ag_id (filter (\<lambda>a. ag_cursor a \<noteq> None) xs)" for xs
    by (induction xs) (auto simp: map_filter_simps split: option.split)
  then show "agents_ok pr \<Longrightarrow> ?thesis"
    unfolding activeAgentsInFile_def by (simp only: distinct_map_filter[OF withinFile_ids])
qed

abbreviation zones_in :: "int \<Rightarrow> string \<Rightarrow> agent_registry \<Rightarrow> collab \<Rightarrow> zone list" where
  "zones_in radius file pr s \<equiv> map (zone_of radius) (activeAgentsInFile file pr s)"

lemma zone_of_agent [simp]: "zn_agent (zone_of r c) = cr_agent c"
  by (simp add: zone_of_def split_def Let_def)

lemma zones_distinct: "agents_ok pr \<Longrightarrow> distinct (zones_in radius file pr s)"
proof -
  assume "agents_ok pr"
  from activeAgents_ids[OF this] have "distinct (map (ag_id \<circ> zn_agent) (zones_in radius file pr s))"
    by (simp add: comp_def)
  then show ?thesis by (simp only: distinct_map)
qed

lemma zone_of_valid: "0 \<le> radius \<Longrightarrow> zn_from (zone_of radius c) \<le> zn_to (zone_of radius c)"
  by (auto simp: zone_of_def split_def Let_def split: option.split)

text \<open>The guard on fewer than two cursors is subsumed by the sweep.\<close>

lemma conflicts_groups:
  "conflictsInFile radius file pr s =
   map (makeConflict file) (filter (\<lambda>g. 2 \<le> length g) (groups (js_sort by_from (zones_in radius file pr s)) [] 0))"
proof (cases "length (activeAgentsInFile file pr s) < 2")
  case True
  have "length g < 2" if "g \<in> set (groups (js_sort by_from (zones_in radius file pr s)) [] 0)" for g
  proof -
    have "length g \<le> length (concat (groups (js_sort by_from (zones_in radius file pr s)) [] 0))"
      unfolding length_concat by (rule member_le_sum_list) (use that in simp_all)
    then show ?thesis using True unfolding concat_groups by simp
  qed
  then have "filter (\<lambda>g. 2 \<le> length g) (groups (js_sort by_from (zones_in radius file pr s)) [] 0) = []"
    by (fastforce simp: filter_empty_conv)
  then show ?thesis using True by (simp add: conflictsInFile_def)
next
  case False
  then show ?thesis by (simp add: conflictsInFile_def sweep_groups)
qed

lemma groups_facts:
  fixes f :: string and s :: collab
  assumes "0 \<le> radius" and "agents_ok pr"
  defines "G \<equiv> groups (js_sort by_from (zones_in radius f pr s)) [] 0"
  shows "set (concat (G)) = set (zones_in radius f pr s)" and "sorted_wrt apart (G)"
    and "g \<in> set (G) \<Longrightarrow> linked g \<and> from_sorted g \<and> distinct g \<and> (\<forall>z\<in>set g. zn_from z \<le> zn_to z)"
proof -
  let ?zs = "js_sort by_from (zones_in radius f pr s)"
  have so: "from_sorted ?zs" using from_order.js_sort_sorted[of "zones_in radius f pr s"] by (simp add: by_from_def)
  have cc: "concat (G) = ?zs" by (simp add: G_def concat_groups)
  show "set (concat (G)) = set (zones_in radius f pr s)" by (simp only: cc set_js_sort)
  show "sorted_wrt apart (G)" using groups_apart[of "[]" ?zs 0] so by (simp add: G_def)
  assume g: "g \<in> set (G)"
  then obtain pre post where "?zs = pre @ g @ post"
    using cc by (metis concat.simps(2) concat_append split_list)
  moreover have "distinct ?zs" using zones_distinct[OF assms(2)] by simp
  moreover have "\<forall>z\<in>set ?zs. zn_from z \<le> zn_to z" using zone_of_valid[OF assms(1)] by auto
  moreover have "linked g" using groups_linked[of "[]" 0 g ?zs] g by (simp add: G_def)
  ultimately show "linked g \<and> from_sorted g \<and> distinct g \<and> (\<forall>z\<in>set g. zn_from z \<le> zn_to z)"
    using so by (auto simp: sorted_wrt_append)
qed

text \<open>C5: The conflicts of a file are exact. Any two cursors whose zones overlap are in a common conflict, so
  chains of overlaps are merged; every agent of a conflict has a zone that lies within the lines of
  the conflict and overlaps another agent's zone; and the conflicts cover disjoint line ranges, in order.
\<close>

theorem collab_conflicts_exact:
  assumes "0 \<le> radius" and "agents_ok pr"
  shows "(\<forall>y\<in>set (zones_in radius file pr s). \<forall>z\<in>set (zones_in radius file pr s). y \<noteq> z \<and> zones_overlap y z \<longrightarrow>
            (\<exists>c\<in>set (conflictsInFile radius file pr s). {zn_agent y, zn_agent z} \<subseteq> set (fc_agents c))) \<and>
         (\<forall>c\<in>set (conflictsInFile radius file pr s). \<forall>a\<in>set (fc_agents c).
            \<exists>y\<in>set (zones_in radius file pr s). \<exists>z\<in>set (zones_in radius file pr s).
              zn_agent y = a \<and> zn_agent z \<in> set (fc_agents c) \<and> y \<noteq> z \<and> zones_overlap y z \<and>
              fc_lineFrom c \<le> zn_from y \<and> zn_to y \<le> fc_lineTo c) \<and>
         sorted_wrt (\<lambda>c d. fc_lineTo c < fc_lineFrom d) (conflictsInFile radius file pr s)"
    (is "?common \<and> ?exact \<and> ?disjoint")
proof (intro conjI)
  let ?zs = "zones_in radius file pr s"
  let ?G = "groups (js_sort by_from ?zs) [] 0"
  note facts = groups_facts[OF assms, where f = "file" and s = s]
  have cs: "conflictsInFile radius file pr s = map (makeConflict file) (filter (\<lambda>g. 2 \<le> length g) ?G)"
    by (rule conflicts_groups)
  have mem: "c \<in> set (conflictsInFile radius file pr s) \<longleftrightarrow> (\<exists>g\<in>set ?G. 2 \<le> length g \<and> c = makeConflict file g)" for c
    unfolding cs by auto
  show ?common
  proof (intro ballI impI)
    fix y z assume y: "y \<in> set ?zs" and z: "z \<in> set ?zs" and o: "y \<noteq> z \<and> zones_overlap y z"
    obtain g h where g: "g \<in> set ?G" "y \<in> set g" and h: "h \<in> set ?G" "z \<in> set h"
      using y z facts(1) by (metis UN_E set_concat)
    have "g = h"
    proof (rule ccontr)
      assume "g \<noteq> h"
      then have "apart g h \<or> apart h g"
        using sorted_wrt_either[OF facts(2) g(1) h(1)] by blast
      then show False using o g(2) h(2) by (force simp: apart_def zones_overlap_def)
    qed
    moreover have "2 \<le> length g"
    proof -
      have "card {y, z} \<le> card (set g)" using g(2) h(2) \<open>g = h\<close> by (intro card_mono) auto
      then show ?thesis using o card_length[of g] by auto
    qed
    ultimately have "makeConflict file g \<in> set (conflictsInFile radius file pr s)" using g(1) mem by blast
    moreover have "{zn_agent y, zn_agent z} \<subseteq> set (fc_agents (makeConflict file g))"
      using g(2) h(2) \<open>g = h\<close> by (simp add: makeConflict_def)
    ultimately show "\<exists>c\<in>set (conflictsInFile radius file pr s). {zn_agent y, zn_agent z} \<subseteq> set (fc_agents c)"
      by blast
  qed
  show ?exact
  proof (intro ballI)
    fix c a assume "c \<in> set (conflictsInFile radius file pr s)" and a: "a \<in> set (fc_agents c)"
    then obtain g where g: "g \<in> set ?G" "2 \<le> length g" "c = makeConflict file g" using mem by blast
    obtain y where y: "y \<in> set g" "zn_agent y = a" using a g(3) by (auto simp: makeConflict_def)
    obtain z where z: "z \<in> set g" "z \<noteq> y" "zones_overlap y z"
      using linked_overlap[of g y] facts(3)[OF g(1)] g(2) y(1) by blast
    have "set g \<subseteq> set ?zs" using facts(1) g(1) by (metis UN_upper set_concat)
    moreover have "fc_lineFrom c \<le> zn_from y \<and> zn_to y \<le> fc_lineTo c"
    proof -
      have "g \<noteq> []" using g(2) by auto
      from makeConflict_span(1)[OF this, of "file"] show ?thesis using g(3) y(1) by auto
    qed
    moreover have "zn_agent z \<in> set (fc_agents c)" using z(1) g(3) by (simp add: makeConflict_def)
    ultimately show "\<exists>y\<in>set ?zs. \<exists>z\<in>set ?zs. zn_agent y = a \<and> zn_agent z \<in> set (fc_agents c) \<and> y \<noteq> z \<and>
        zones_overlap y z \<and> fc_lineFrom c \<le> zn_from y \<and> zn_to y \<le> fc_lineTo c"
      using y z by blast
  qed
  have "sorted_wrt (\<lambda>g h. fc_lineTo (makeConflict file g) < fc_lineFrom (makeConflict file h)) (filter (\<lambda>g. 2 \<le> length g) ?G)"
  proof (rule sorted_wrt_mono_rel[OF _ sorted_wrt_filter[OF facts(2)]])
    fix g h assume gh: "g \<in> set (filter (\<lambda>g. 2 \<le> length g) ?G)" "h \<in> set (filter (\<lambda>g. 2 \<le> length g) ?G)" "apart g h"
    then have "g \<noteq> []" "h \<noteq> []" by auto
    from makeConflict_span(3)[OF this(1), of "file"] makeConflict_span(2)[OF this(2), of "file"] gh(3)
    show "fc_lineTo (makeConflict file g) < fc_lineFrom (makeConflict file h)" by (auto simp: apart_def)
  qed
  then show ?disjoint unfolding cs sorted_wrt_map .
qed

definition demo_agent :: "string \<Rightarrow> string \<Rightarrow> int \<Rightarrow> agent" where
  "demo_agent k f line = agent_descriptor.extend (demo_desc k k)
     \<lparr>ag_state = Agent_working, ag_currentFile = Some f, ag_cursor = Some (line, 1), ag_presence = None,
      ag_stateChangedAt = [], ag_idleMs = None\<rparr>"

definition demo_registry :: agent_registry where
  "demo_registry = \<lparr>ar_map = [(''a'', demo_agent ''a'' ''f'' 10), (''b'', demo_agent ''b'' ''f'' 12)],
     ar_listeners = [], ar_perAgent = []\<rparr>"

lemmas demo_agent_simps = demo_agent_def demo_desc_def agent_descriptor.extend_def

theorem collab_conflicts_exact_witness:
  "\<exists>c\<in>set (conflictsInFile 1 ''f'' demo_registry (snd (createCollaborationManager 0 demo_registry))).
     {demo_agent ''a'' ''f'' 10, demo_agent ''b'' ''f'' 12} \<subseteq> set (fc_agents c)"
proof -
  let ?s = "snd (createCollaborationManager 0 demo_registry)"
  let ?za = "\<lparr>zn_agent = demo_agent ''a'' ''f'' 10, zn_from = 9, zn_to = 11\<rparr>"
  let ?zb = "\<lparr>zn_agent = demo_agent ''b'' ''f'' 12, zn_from = 11, zn_to = 13\<rparr>"
  have "agents_ok demo_registry"
    by (simp add: agents_ok_def demo_registry_def demo_agent_simps)
  moreover have "set (zones_in 1 ''f'' demo_registry ?s) = {?za, ?zb}"
    by (simp add: activeAgentsInFile_def agent_withinFile_def demo_registry_def zone_of_def
        createCollaborationManager_def map_filter_simps Let_def)
      (simp add: demo_agent_simps map_filter_simps)
  moreover have "?za \<noteq> ?zb" "zones_overlap ?za ?zb" by (simp_all add: zones_overlap_def)
  ultimately show ?thesis
    using collab_conflicts_exact[of 1 demo_registry "''f''" ?s] by auto
qed

section \<open>Where notifications and selections go wrong\<close>

definition collab_frame :: "collab \<Rightarrow> collab \<Rightarrow> bool" where
  "collab_frame s t \<longleftrightarrow> cl_selections t = cl_selections s \<and> cl_fileListeners t = cl_fileListeners s \<and>
     cl_conflictListeners t = cl_conflictListeners s \<and> cl_self t = cl_self s"

lemma collab_frame_refl [simp]: "collab_frame s s"
  by (simp add: collab_frame_def)

lemma collab_frame_trans: "collab_frame s t \<Longrightarrow> collab_frame t u \<Longrightarrow> collab_frame s u"
  by (simp add: collab_frame_def)

lemma emitFile_frame: "collab_frame s (fst (emitFile f pr s))"
  by (simp add: collab_frame_def emitFile_def Let_def)

lemma emitConflicts_frame: "collab_frame s (snd (emitConflictsForFile radius f pr s))"
  by (simp add: collab_frame_def emitConflictsForFile_def Let_def)

lemma emit_affected_frame: "collab_frame s (snd (fst (emit_affected radius fs pr c s)))"
proof (induction fs arbitrary: c s)
  case (Cons f fs)
  show ?case
    using collab_frame_trans[OF collab_frame_trans[OF emitFile_frame emitConflicts_frame] Cons.IH]
    by (simp add: split_def Let_def)
qed simp

lemma onSnapshot_frame: "collab_frame s (fst (onSnapshot radius snap pr s))"
proof -
  have "collab_frame s (s\<lparr>cl_lastAgentSeen := seen\<rparr>)" for seen by (simp add: collab_frame_def)
  from collab_frame_trans[OF this emit_affected_frame] show ?thesis by (simp add: onSnapshot_def split_def Let_def)
qed

lemma collab_presence_registry [simp]: "fst (fst (collab_presence radius dis x sys)) = fst (agent_step dis x (fst sys))"
  by (simp add: collab_presence_def split_def Let_def)

lemma collab_presence_frame: "collab_frame (snd sys) (snd (fst (collab_presence radius dis x sys)))"
proof -
  have "collab_frame s (fst (foldl (\<lambda>(s, out) snap. let (s', es') = onSnapshot radius snap pr s in (s', out @ es')) (s, out) snaps))"
    for s out pr and snaps :: "agent list list"
  proof (induction snaps arbitrary: s out)
    case (Cons snap snaps)
    show ?case using collab_frame_trans[OF onSnapshot_frame Cons.IH] by (simp add: split_def Let_def)
  qed simp
  then show ?thesis by (simp add: collab_presence_def split_def Let_def)
qed

lemma setSelection_selections: "cl_selections (fst (setSelection radius k f sel pr s)) = map_set k sel (cl_selections s)"
  using emitFile_frame[of "s\<lparr>cl_selections := map_set k sel (cl_selections s)\<rparr>" f pr]
    emitConflicts_frame[of "fst (emitFile f pr (s\<lparr>cl_selections := map_set k sel (cl_selections s)\<rparr>))" radius f pr]
  by (simp add: setSelection_def emit_both_def collab_frame_def split_def Let_def)

text \<open>A selection follows its agent into other files: after \<open>setSelection\<close> for one file, moving the agent's
  cursor to another file shows the selection there, and the agent's conflict zone in the new file is
  around the lines selected in the old one, wherever the cursor is.
\<close>

theorem collab_selection_follows_agent:
  fixes pr :: agent_registry and s :: collab
  assumes "map_get (ar_map pr) k = Some a" and "agents_ok pr"
    and "sys = fst (run (collab_step radius dis)
      [Collab_setSelection k old sel, Collab_presence (Agent_updateCursor k new line column)] (pr, s))"
  shows "\<exists>c\<in>set (activeAgentsInFile new (fst sys) (snd sys)).
           ag_id (cr_agent c) = k \<and> cr_position c = (line, column) \<and> cr_selection c = Some sel \<and>
           zn_from (zone_of radius c) = min (sn_line sel) (fst (sn_end sel)) - radius"
proof -
  let ?s1 = "fst (setSelection radius k old sel pr s)"
  let ?sys = "fst (collab_presence radius dis (Agent_updateCursor k new line column) (pr, ?s1))"
  have sys: "sys = ?sys" using assms(3) by (simp add: split_def Let_def)
  have "map_get (cl_selections (snd sys)) k = Some sel"
    using collab_presence_frame[of "(pr, ?s1)" radius dis "Agent_updateCursor k new line column"]
    by (simp add: sys collab_frame_def setSelection_selections)
  moreover have id: "ag_id a = k" using agents_ok_get[OF assms(2,1)] .
  moreover have "ar_map (fst sys) = map_set k (a\<lparr>ag_currentFile := Some new, ag_cursor := Some (line, column)\<rparr>) (ar_map pr)"
    using assms(1) id by (simp add: sys agent_updateCursor_def update_agent_def setAgent_def Let_def)
  then have "(k, a\<lparr>ag_currentFile := Some new, ag_cursor := Some (line, column)\<rparr>) \<in> set (ar_map (fst sys))"
    by (metis map_of_SomeD map_of_update)
  then have "a\<lparr>ag_currentFile := Some new, ag_cursor := Some (line, column)\<rparr> \<in> set (agent_withinFile new (fst sys))"
    by (force simp: agent_withinFile_def)
  ultimately have "\<lparr>cr_agent = a\<lparr>ag_currentFile := Some new, ag_cursor := Some (line, column)\<rparr>, cr_file = new,
      cr_position = (line, column), cr_selection = Some sel\<rparr> \<in> set (activeAgentsInFile new (fst sys) (snd sys))"
    unfolding activeAgentsInFile_def set_map_filter_iff by (intro bexI) simp_all
  then show ?thesis by (rule bexI[rotated]) (simp add: id zone_of_def Let_def)
qed

theorem collab_selection_follows_agent_witness:
  "let sel = \<lparr>sn_line = 40, sn_column = 1, sn_end = (50, 1)\<rparr>;
       sys = fst (run (collab_step 1 defaultDisambiguate)
         [Collab_setSelection ''a'' ''f'' sel, Collab_presence (Agent_updateCursor ''a'' ''g'' 3 1)]
         (demo_registry, snd (createCollaborationManager 0 demo_registry)))
   in \<exists>c\<in>set (activeAgentsInFile ''g'' (fst sys) (snd sys)). cr_position c = (3, 1) \<and> zn_from (zone_of 1 c) = 39"
proof -
  have "map_get (ar_map demo_registry) ''a'' = Some (demo_agent ''a'' ''f'' 10)" "agents_ok demo_registry"
    by (simp_all add: demo_registry_def agents_ok_def demo_agent_simps)
  note w = collab_selection_follows_agent[OF this refl, where new = "''g''" and line = 3 and column = 1
      and sel = "\<lparr>sn_line = 40, sn_column = 1, sn_end = (50, 1)\<rparr>" and radius = 1
      and dis = defaultDisambiguate and old = "''f''" and s = "snd (createCollaborationManager 0 demo_registry)"]
  show ?thesis unfolding Let_def using w by fastforce
qed

definition single :: "listener \<Rightarrow> agent \<Rightarrow> agent_registry" where
  "single self a = \<lparr>ar_map = [(ag_id a, a)], ar_listeners = [self], ar_perAgent = []\<rparr>"

definition placed :: "agent \<Rightarrow> string \<Rightarrow> int \<Rightarrow> int \<Rightarrow> agent" where
  "placed a f x col = a\<lparr>ag_currentFile := Some f, ag_cursor := Some (x, col)\<rparr>"

lemma placed_simps [simp]:
  "ag_id (placed a f x col) = ag_id a" "placed (placed a f x col) f' y col' = placed a f' y col'"
  "ag_currentFile (placed a f x col) = Some f" "ag_cursor (placed a f x col) = Some (x, col)"
  by (simp_all add: placed_def)

lemma single_active:
  "activeAgentsInFile f (single self (placed a f x col)) s =
     [\<lparr>cr_agent = placed a f x col, cr_file = f, cr_position = (x, col), cr_selection = map_get (cl_selections s) (ag_id a)\<rparr>]"
  by (simp add: activeAgentsInFile_def agent_withinFile_def single_def map_filter_simps)

text \<open>The only agent moves within a file: the conflicts stay empty, so only the file listing is emitted.\<close>

lemma single_move:
  assumes "cl_self s = self" and "cl_lastConflicts s = []"
    and "cl_lastAgentSeen s = [] \<or> (\<exists>y. y \<noteq> x \<and> cl_lastAgentSeen s = [(ag_id a, (Some f, Some y, Some col))])"
  shows "collab_presence radius dis (Agent_updateCursor (ag_id a) f x col) (single self a, s) =
     (let (s', es) = emitFile f (single self (placed a f x col))
            (s\<lparr>cl_lastAgentSeen := [(ag_id a, (Some f, Some x, Some col))]\<rparr>)
      in ((single self (placed a f x col), s'), es))"
proof -
  have upd: "agent_updateCursor (ag_id a) f x col (single self a) =
      (single self (placed a f x col), [Sent self [placed a f x col]])"
    by (simp add: agent_updateCursor_def update_agent_def setAgent_def agent_emit_def emitAgent_def emit_to_def
        agent_snapshot_def single_def placed_def Let_def)
  have aff: "affectedFilesFromSnapshot [placed a f x col] (cl_lastAgentSeen s) =
      ([f], [(ag_id a, (Some f, Some x, Some col))])"
  proof -
    have "affectedFilesFromSnapshot [placed a f x col] [] = ([f], [(ag_id a, (Some f, Some x, Some col))])"
      by (simp add: affectedFilesFromSnapshot_def see_agent_def add_file_def set_add_def Let_def)
    moreover have "affectedFilesFromSnapshot [placed a f x col] [(ag_id a, (Some f, Some y, Some col))] =
        ([f], [(ag_id a, (Some f, Some x, Some col))])" if "y \<noteq> x" for y
      using that by (simp add: affectedFilesFromSnapshot_def see_agent_def add_file_def set_add_def Let_def)
    ultimately show ?thesis using assms(3) by auto
  qed
  have "conflictsInFile radius f (single self (placed a f x col)) t = []" for t
    by (simp add: conflictsInFile_def single_active)
  moreover have "cl_lastConflicts (fst (emitFile f pr t)) = cl_lastConflicts t" for pr t
    by (simp add: emitFile_def Let_def)
  ultimately show ?thesis
    using assms(1,2)
    by (simp add: collab_presence_def upd received_def onSnapshot_def aff emitConflictsForFile_def conflictListEqual_def
        split_def Let_def)
qed

text \<open>A file subscriber can stay stale: the manager compares with the listing it last delivered for the file,
  to anybody. When the listing changes while nobody is subscribed and changes back after a new
  subscriber came, the new subscriber hears nothing of the second change.
\<close>

theorem collab_stale_subscriber:
  fixes f k :: string
  assumes "sys0 = createCollaborationManager self \<lparr>ar_map = [(ag_id a, a)], ar_listeners = [], ar_perAgent = []\<rparr>"
    and "x \<noteq> y"
    and "sys1 = fst (run (collab_step radius dis)
      [Collab_subscribeFile f l1, Collab_presence (Agent_updateCursor (ag_id a) f x col), Collab_disposeFile f 0 l1,
       Collab_presence (Agent_updateCursor (ag_id a) f y col), Collab_subscribeFile f l2] sys0)"
    and "(sys2, es) = collab_step radius dis (Collab_presence (Agent_updateCursor (ag_id a) f x col)) sys1"
  shows "es = [] \<and> keyed_get f (cl_fileListeners (snd sys2)) = [l2] \<and>
         map cr_position (activeAgentsInFile f (fst sys1) (snd sys1)) = [(y, col)] \<and>
         map cr_position (activeAgentsInFile f (fst sys2) (snd sys2)) = [(x, col)]"
proof -
  let ?c = "\<lambda>p. \<lparr>cr_agent = placed a f p col, cr_file = f, cr_position = (p, col), cr_selection = None\<rparr>"
  let ?seen = "\<lambda>p. [(ag_id a, (Some f, Some p, Some col))]"
  let ?st = "\<lambda>ls cs seen. \<lparr>cl_selections = [], cl_fileListeners = ls, cl_conflictListeners = [], cl_lastFileCursors = cs,
       cl_lastConflicts = [], cl_lastAgentSeen = seen, cl_self = self\<rparr>"
  have s0: "sys0 = (single self a, ?st ([], []) [] [])"
    by (simp add: assms(1) createCollaborationManager_def single_def subscribe_def set_add_def)
  note ks = keyed_get_def keyed_subscribe_def keyed_dispose_def unsubscribe_def subscribe_def set_add_def
  have first: "collab_presence radius dis (Agent_updateCursor (ag_id a) f x col) (single self a, ?st ([(f, 0)], [[l1]]) [] []) =
      ((single self (placed a f x col), ?st ([(f, 0)], [[l1]]) [(f, [?c x])] (?seen x)), [Sent l1 (Cursors f [?c x])])"
    by (subst single_move) (simp_all add: emitFile_def single_active ks cursorListEqual_def emit_to_def Let_def)
  have quiet: "collab_presence radius dis (Agent_updateCursor (ag_id a) f y col)
      (single self (placed a f x col), ?st ([], [[]]) [(f, [?c x])] (?seen x)) =
      ((single self (placed a f y col), ?st ([], [[]]) [(f, [?c x])] (?seen y)), [])"
    using single_move[of "?st ([], [[]]) [(f, [?c x])] (?seen x)" self y "placed a f x col" f col radius dis] assms(2)
    by (simp add: emitFile_def ks Let_def)
  have again: "collab_presence radius dis (Agent_updateCursor (ag_id a) f x col)
      (single self (placed a f y col), ?st ([(f, 1)], [[], [l2]]) [(f, [?c x])] (?seen y)) =
      ((single self (placed a f x col), ?st ([(f, 1)], [[], [l2]]) [(f, [?c x])] (?seen x)), [])"
    using single_move[of "?st ([(f, 1)], [[], [l2]]) [(f, [?c x])] (?seen y)" self x "placed a f y col" f col radius dis] assms(2)
    by (simp add: emitFile_def single_active ks cursorListEqual_def cursorEqual_def Let_def)
  have s1: "sys1 = (single self (placed a f y col), ?st ([(f, 1)], [[], [l2]]) [(f, [?c x])] (?seen y))"
    unfolding assms(3) s0 by (simp add: run_Cons ks first quiet del: run.simps(2))
  with assms(4) again show ?thesis by (simp add: s1 single_active ks)
qed

theorem collab_stale_subscriber_witness:
  "\<exists>sys1 sys2. collab_step 1 defaultDisambiguate
       (Collab_presence (Agent_updateCursor (ag_id (demo_agent ''a'' ''g'' 1)) ''f'' 5 1)) sys1 = (sys2, []) \<and>
     map cr_position (activeAgentsInFile ''f'' (fst sys1) (snd sys1)) = [(7, 1)] \<and>
     map cr_position (activeAgentsInFile ''f'' (fst sys2) (snd sys2)) = [(5, 1)]"
proof -
  let ?a = "demo_agent ''a'' ''g'' 1"
  let ?sys0 = "createCollaborationManager 0 \<lparr>ar_map = [(ag_id ?a, ?a)], ar_listeners = [], ar_perAgent = []\<rparr>"
  let ?sys1 = "fst (run (collab_step 1 defaultDisambiguate)
      [Collab_subscribeFile ''f'' 1, Collab_presence (Agent_updateCursor (ag_id ?a) ''f'' 5 1), Collab_disposeFile ''f'' 0 1,
       Collab_presence (Agent_updateCursor (ag_id ?a) ''f'' 7 1), Collab_subscribeFile ''f'' 2] ?sys0)"
  obtain sys2 es where e: "(sys2, es) = collab_step 1 defaultDisambiguate
      (Collab_presence (Agent_updateCursor (ag_id ?a) ''f'' 5 1)) ?sys1" by (metis surj_pair)
  have "(5::int) \<noteq> 7" by simp
  from collab_stale_subscriber[OF refl this refl e] e show ?thesis by metis
qed

section \<open>Invariant of the composed system\<close>

definition collab_ok :: "collab_sys \<Rightarrow> bool" where
  "collab_ok sys \<longleftrightarrow> agents_ok (fst sys) \<and> keyed_ok (cl_fileListeners (snd sys))"

lemma emit_both_frame: "collab_frame s (fst (emit_both radius f pr s))"
  using collab_frame_trans[OF emitFile_frame emitConflicts_frame] by (simp add: emit_both_def split_def Let_def)

lemma clearSelection_listeners: "cl_fileListeners (fst (clearSelection radius k pr s)) = cl_fileListeners s"
  using emit_both_frame by (simp add: clearSelection_def collab_frame_def Let_def split: option.split)

lemma collab_step_ok: "collab_ok sys \<Longrightarrow> collab_ok (fst (collab_step radius dis x sys))"
proof (cases x)
  case (Collab_presence y)
  assume "collab_ok sys"
  with Collab_presence show ?thesis
    using collab_presence_frame[of sys radius dis y] by (simp add: collab_ok_def agents_ok_step collab_frame_def)
next
  case (Collab_setSelection k f sel)
  assume "collab_ok sys"
  with Collab_setSelection show ?thesis
    using emit_both_frame[of "(snd sys)\<lparr>cl_selections := map_set k sel (cl_selections (snd sys))\<rparr>" radius f "fst sys"]
    by (simp add: collab_ok_def setSelection_def collab_frame_def split_def Let_def)
qed (simp_all add: collab_ok_def clearSelection_listeners keyed_ok_subscribe keyed_ok_dispose agents_ok_def split_def Let_def)

interpretation collab_component: component "collab_step radius dis" collab_ok "\<lambda>x. True" for radius dis
  by unfold_locales (rule collab_step_ok)

end
