(* ===== verification/Keyboard_Shortcuts.thy ===== *)
theory Keyboard_Shortcuts
  imports Js_Text Contracts
begin

text \<open>
  \<open>headless-core/keyboard-shortcuts.ts\<close>: the registry of shortcuts, the matching of chords and the
  choice among several matches. Descriptors are objects compared by identity in the disposer, so a
  descriptor carries a number that stands for its object. A region of the page is what its \<open>contains\<close>
  answers; \<open>within()\<close> reads the page at dispatch time and is an argument of \<open>shortcut_dispatch\<close>.
\<close>

section \<open>Data\<close>

datatype modifier = Mod | Shift | Alt | Ctrl

record chord =
  ch_key :: string
  ch_modifiers :: "modifier list"

text \<open>\<open>Within r\<close> names the closure that looks the region up.\<close>

datatype shortcut_scope = Global | Within nat

record shortcut =
  sh_object :: nat
  sh_id :: string
  sh_chord :: chord
  sh_description :: string
  sh_scope :: shortcut_scope
  sh_preserveInInputs :: "bool option"
  sh_priority :: "int option"

record key_target =
  kt_node :: nat
  kt_tagName :: "string option"
  kt_isContentEditable :: bool

record shortcut_event =
  se_key :: string
  se_metaKey :: bool
  se_ctrlKey :: bool
  se_shiftKey :: bool
  se_altKey :: bool
  se_target :: "key_target option"

datatype platform = Mac | Win | Linux

text \<open>The region: \<open>None\<close> is \<open>null\<close>, \<open>Some None\<close> an object without a \<open>contains\<close> function.\<close>

type_synonym regions = "nat \<Rightarrow> (nat \<Rightarrow> bool) option option"

record shortcuts =
  ks_registry :: "(string, shortcut) jsmap"
  ks_listeners :: "listener jsset"

datatype shortcut_effect = Shortcut_warn string | Shortcut_action nat

type_synonym shortcuts_event = "(shortcut list, shortcut_effect) event"

section \<open>Matching\<close>

text \<open>\<open>navigator.platform\<close> is the argument, \<open>None\<close> when there is no \<open>navigator\<close>.\<close>

fun js_includes :: "string \<Rightarrow> string \<Rightarrow> bool" where
  "js_includes [] p = (p = [])"
| "js_includes (c # s) p = (starts_with (c # s) p \<or> js_includes s p)"

definition detectPlatform :: "string option \<Rightarrow> platform" where
  "detectPlatform navigator_platform =
     (case navigator_platform of
        None \<Rightarrow> Linux
      | Some name \<Rightarrow> (let p = to_lower name in if js_includes p ''mac'' then Mac else if js_includes p ''win'' then Win else Linux))"

datatype mod_key = Meta | Control

definition modKeyForPlatform :: "platform \<Rightarrow> mod_key" where
  "modKeyForPlatform p = (if p = Mac then Meta else Control)"

definition mod_pressed :: "platform \<Rightarrow> shortcut_event \<Rightarrow> bool" where
  "mod_pressed p e = (if modKeyForPlatform p = Meta then se_metaKey e else se_ctrlKey e)"

definition chordMatches :: "chord \<Rightarrow> shortcut_event \<Rightarrow> platform \<Rightarrow> bool" where
  "chordMatches chord event platform =
     (if to_lower (ch_key chord) \<noteq> to_lower (se_key event) then False
      else
        (let wantsMod = (Mod \<in> set (ch_modifiers chord));
             wantsShift = (Shift \<in> set (ch_modifiers chord));
             wantsAlt = (Alt \<in> set (ch_modifiers chord));
             wantsCtrl = (Ctrl \<in> set (ch_modifiers chord)) in
         if wantsMod \<and> \<not> mod_pressed platform event then False
         else if wantsCtrl \<and> \<not> wantsMod \<and> \<not> se_ctrlKey event then False
         else if wantsShift \<noteq> se_shiftKey event then False
         else if wantsAlt \<noteq> se_altKey event then False
         else if \<not> wantsMod \<and> \<not> wantsCtrl \<and> mod_pressed platform event then False
         else True))"

definition isInputTarget :: "key_target option \<Rightarrow> bool" where
  "isInputTarget target =
     (case target of
        None \<Rightarrow> False
      | Some t \<Rightarrow>
          (let tag = map_option to_upper (kt_tagName t) in
           tag = Some ''INPUT'' \<or> tag = Some ''TEXTAREA'' \<or> tag = Some ''SELECT'' \<or> kt_isContentEditable t))"

definition isInScope :: "regions \<Rightarrow> shortcut_scope \<Rightarrow> key_target option \<Rightarrow> bool" where
  "isInScope region scope target =
     (case scope of
        Global \<Rightarrow> True
      | Within r \<Rightarrow>
          (case (region r, target) of
             (Some (Some contains), Some t) \<Rightarrow> contains (kt_node t)
           | _ \<Rightarrow> False))"

section \<open>The registry\<close>

definition createKeyboardShortcutManager :: shortcuts where
  "createKeyboardShortcutManager = \<lparr>ks_registry = [], ks_listeners = []\<rparr>"

definition shortcut_getAll :: "shortcuts \<Rightarrow> shortcut list" where
  "shortcut_getAll s = map_values (ks_registry s)"

definition shortcut_emit :: "shortcuts \<Rightarrow> shortcuts_event list" where
  "shortcut_emit s = emit_to (ks_listeners s) (shortcut_getAll s)"

definition shortcut_register :: "shortcut \<Rightarrow> shortcuts \<Rightarrow> shortcuts \<times> shortcuts_event list" where
  "shortcut_register d s =
     (let s' = s\<lparr>ks_registry := map_set (sh_id d) d (ks_registry s)\<rparr> in
      (s', (if map_has (ks_registry s) (sh_id d)
            then [Did (Shortcut_warn (''KeyboardShortcutManager: id '' @ sh_id d @ '' already registered; replacing''))]
            else []) @ shortcut_emit s'))"

text \<open>The disposer \<open>register\<close> returns.\<close>

definition shortcut_dispose :: "shortcut \<Rightarrow> shortcuts \<Rightarrow> shortcuts \<times> shortcuts_event list" where
  "shortcut_dispose d s =
     (case map_get (ks_registry s) (sh_id d) of
        None \<Rightarrow> (s, [])
      | Some cur \<Rightarrow>
          if sh_object cur = sh_object d
          then (let s' = s\<lparr>ks_registry := map_del (sh_id d) (ks_registry s)\<rparr> in (s', shortcut_emit s'))
          else (s, []))"

definition shortcut_unregisterAll :: "string option \<Rightarrow> shortcuts \<Rightarrow> shortcuts \<times> shortcuts_event list" where
  "shortcut_unregisterAll idPrefix s =
     (case idPrefix of
        None \<Rightarrow> (let s' = s\<lparr>ks_registry := []\<rparr> in (s', if ks_registry s \<noteq> [] then shortcut_emit s' else []))
      | Some p \<Rightarrow>
          (let ids = filter (\<lambda>k. starts_with k p) (map_keys (ks_registry s));
               s' = s\<lparr>ks_registry := fold map_del ids (ks_registry s)\<rparr>
           in (s', if ids \<noteq> [] then shortcut_emit s' else [])))"

definition shortcut_getById :: "string \<Rightarrow> shortcuts \<Rightarrow> shortcut option" where
  "shortcut_getById k s = map_get (ks_registry s) k"

section \<open>Labels\<close>

text \<open>The sign of the command key is outside Latin-1, so a label is a list of glyphs.\<close>

datatype glyph = Glyph char | Command_sign

definition PLATFORM_CHORD_MOD_LABEL :: "platform \<Rightarrow> glyph list" where
  "PLATFORM_CHORD_MOD_LABEL p = (if p = Mac then [Command_sign] else map Glyph ''Ctrl'')"

fun PLATFORM_CHORD_LABELS :: "modifier \<Rightarrow> string" where
  "PLATFORM_CHORD_LABELS Mod = ''__placeholder__''"
| "PLATFORM_CHORD_LABELS Shift = ''Shift''"
| "PLATFORM_CHORD_LABELS Alt = ''Alt''"
| "PLATFORM_CHORD_LABELS Ctrl = ''Ctrl''"

fun ARIA_MOD_TOKENS_MAC :: "modifier \<Rightarrow> string" where
  "ARIA_MOD_TOKENS_MAC Mod = ''Meta''"
| "ARIA_MOD_TOKENS_MAC Shift = ''Shift''"
| "ARIA_MOD_TOKENS_MAC Alt = ''Alt''"
| "ARIA_MOD_TOKENS_MAC Ctrl = ''Control''"

fun ARIA_MOD_TOKENS_NONMAC :: "modifier \<Rightarrow> string" where
  "ARIA_MOD_TOKENS_NONMAC Mod = ''Control''"
| "ARIA_MOD_TOKENS_NONMAC Shift = ''Shift''"
| "ARIA_MOD_TOKENS_NONMAC Alt = ''Alt''"
| "ARIA_MOD_TOKENS_NONMAC Ctrl = ''Control''"

definition key_label :: "chord \<Rightarrow> string" where
  "key_label c = (if length (ch_key c) = 1 then to_upper (ch_key c) else ch_key c)"

definition formatChord :: "chord \<Rightarrow> platform \<Rightarrow> glyph list" where
  "formatChord c p =
     join [Glyph CHR ''+'']
       (map (\<lambda>m. if m = Mod then PLATFORM_CHORD_MOD_LABEL p else map Glyph (PLATFORM_CHORD_LABELS m)) (ch_modifiers c)
        @ [map Glyph (key_label c)])"

definition formatAria :: "platform \<Rightarrow> chord \<Rightarrow> string" where
  "formatAria p c =
     (let tokens = (if p = Mac then ARIA_MOD_TOKENS_MAC else ARIA_MOD_TOKENS_NONMAC)
      in join ''+'' (map tokens (ch_modifiers c) @ [key_label c]))"

section \<open>Dispatch\<close>

definition dispatch_candidate :: "platform \<Rightarrow> regions \<Rightarrow> shortcut_event \<Rightarrow> shortcut \<Rightarrow> bool" where
  "dispatch_candidate p region e d \<longleftrightarrow>
     chordMatches (sh_chord d) e p \<and> \<not> (isInputTarget (se_target e) \<and> sh_preserveInInputs d \<noteq> Some True) \<and>
     isInScope region (sh_scope d) (se_target e)"

definition scoped :: "shortcut \<Rightarrow> int" where
  "scoped d = (if sh_scope d \<noteq> Global then 1 else 0)"

definition priority_of :: "shortcut \<Rightarrow> int" where
  "priority_of d = (case sh_priority d of None \<Rightarrow> 0 | Some p \<Rightarrow> p)"

definition by_precedence :: "shortcut \<Rightarrow> shortcut \<Rightarrow> int" where
  "by_precedence a b =
     (if scoped a \<noteq> scoped b then scoped b - scoped a
      else if priority_of a \<noteq> priority_of b then priority_of b - priority_of a
      else 0)"

text \<open>The loop after the sort: the last candidate that ties with the winner.\<close>

definition latest_tie :: "shortcut \<Rightarrow> shortcut list \<Rightarrow> shortcut" where
  "latest_tie winner candidates =
     foldl (\<lambda>best c. if scoped c \<noteq> scoped winner then best
                     else if priority_of c \<noteq> priority_of winner then best else c) winner candidates"

definition shortcut_dispatch :: "platform \<Rightarrow> regions \<Rightarrow> shortcut_event \<Rightarrow> shortcuts \<Rightarrow> bool \<times> shortcuts_event list" where
  "shortcut_dispatch p region e s =
     (let candidates = filter (dispatch_candidate p region e) (map_values (ks_registry s)) in
      if candidates = [] then (False, [])
      else (let sorted = js_sort by_precedence candidates
            in (True, [Did (Shortcut_action (sh_object (latest_tie (hd sorted) sorted)))])))"

datatype shortcut_op =
    Shortcut_register shortcut | Shortcut_dispose shortcut | Shortcut_unregisterAll "string option"
  | Shortcut_dispatch platform regions shortcut_event | Shortcut_subscribe listener | Shortcut_unsubscribe listener

fun shortcut_step :: "shortcut_op \<Rightarrow> shortcuts \<Rightarrow> shortcuts \<times> shortcuts_event list" where
  "shortcut_step (Shortcut_register d) s = shortcut_register d s"
| "shortcut_step (Shortcut_dispose d) s = shortcut_dispose d s"
| "shortcut_step (Shortcut_unregisterAll p) s = shortcut_unregisterAll p s"
| "shortcut_step (Shortcut_dispatch p w e) s = (s, snd (shortcut_dispatch p w e s))"
| "shortcut_step (Shortcut_subscribe l) s = (s\<lparr>ks_listeners := subscribe l (ks_listeners s)\<rparr>, [])"
| "shortcut_step (Shortcut_unsubscribe l) s = (s\<lparr>ks_listeners := unsubscribe l (ks_listeners s)\<rparr>, [])"

section \<open>The registry is keyed by the ids of its descriptors\<close>

definition shortcuts_ok :: "shortcuts \<Rightarrow> bool" where
  "shortcuts_ok s \<longleftrightarrow> distinct (map_keys (ks_registry s)) \<and> (\<forall>(k, d)\<in>set (ks_registry s). sh_id d = k)"

lemma fold_map_del: "set (fold map_del ks m) = {(k, v)\<in>set m. k \<notin> set ks}"
  by (induction ks arbitrary: m) (auto simp: in_delete)

lemma distinct_fold_map_del: "distinct (map_keys m) \<Longrightarrow> distinct (map_keys (fold map_del ks m))"
  by (induction ks arbitrary: m) simp_all

lemma shortcut_step_ok: "shortcuts_ok s \<Longrightarrow> shortcuts_ok (fst (shortcut_step x s))"
proof (cases x)
  case (Shortcut_unregisterAll p)
  assume "shortcuts_ok s"
  with Shortcut_unregisterAll show ?thesis
    by (auto simp: shortcuts_ok_def shortcut_unregisterAll_def Let_def distinct_fold_map_del fold_map_del split: option.split)
qed (auto simp: shortcuts_ok_def shortcut_register_def shortcut_dispose_def Let_def in_update_distinct in_delete split: option.split)

interpretation shortcut_component: component shortcut_step shortcuts_ok "\<lambda>x. True"
  by unfold_locales (rule shortcut_step_ok)

fun shortcut_drops :: "listener \<Rightarrow> shortcut_op \<Rightarrow> bool" where
  "shortcut_drops l (Shortcut_unsubscribe l') = (l' = l)"
| "shortcut_drops l _ = False"

lemma shortcut_step_tracked:
  assumes "\<forall>l. x \<noteq> Shortcut_subscribe l" and "\<forall>l. x \<noteq> Shortcut_unsubscribe l"
  shows "tracked ks_listeners shortcut_getAll s (shortcut_step x s)"
proof (cases x)
  case (Shortcut_register d)
  then show ?thesis by (simp add: shortcut_register_def shortcut_emit_def tracked_emit0I Let_def)
next
  case (Shortcut_dispose d)
  then show ?thesis by (simp add: shortcut_dispose_def shortcut_emit_def tracked_emit0I Let_def split: option.split)
next
  case (Shortcut_unregisterAll p)
  then show ?thesis
    by (simp add: shortcut_unregisterAll_def shortcut_emit_def tracked_emit0I shortcut_getAll_def Let_def split: option.split)
next
  case (Shortcut_dispatch p w e)
  then show ?thesis by (simp add: tracked_def shortcut_dispatch_def Let_def)
qed (use assms in simp_all)

interpretation shortcut_observable:
  observable shortcut_step shortcuts_ok "\<lambda>x. True" ks_listeners shortcut_getAll shortcut_drops
proof
  fix l x and s :: shortcuts
  assume l: "l \<in> set (ks_listeners s)" and d: "\<not> shortcut_drops l x"
  show "l \<in> set (ks_listeners (fst (shortcut_step x s)))"
    using shortcut_step_tracked[of x s] l d by (cases x) (auto simp: tracked_def)
  show "mirror l (shortcut_getAll s) (sent (snd (shortcut_step x s))) = shortcut_getAll (fst (shortcut_step x s))"
    using shortcut_step_tracked[of x s] l d by (cases x) (auto simp: tracked_def shortcut_getAll_def)
qed

section \<open>Which shortcut fires\<close>

text \<open>The precedence of the documents: scoped over global, then the higher priority.\<close>

definition outranks :: "shortcut \<Rightarrow> shortcut \<Rightarrow> bool" where
  "outranks a b \<longleftrightarrow> scoped b < scoped a \<or> scoped a = scoped b \<and> priority_of b < priority_of a"

interpretation precedence: comparator by_precedence
  by unfold_locales (auto simp: by_precedence_def split: if_splits)

lemma by_precedence_outranks: "by_precedence a b < 0 \<longleftrightarrow> outranks a b"
  by (auto simp: by_precedence_def outranks_def)

lemma by_precedence_eq: "by_precedence a b = 0 \<longleftrightarrow> scoped a = scoped b \<and> priority_of a = priority_of b"
  by (auto simp: by_precedence_def)

lemma latest_tie_last:
  "latest_tie w xs = (case rev (filter (\<lambda>c. by_precedence w c = 0) xs) of [] \<Rightarrow> w | c # _ \<Rightarrow> c)"
  unfolding latest_tie_def
  by (induction xs rule: rev_induct) (auto simp: by_precedence_eq split: list.split)

lemma last_filter_split:
  assumes "rev (filter P xs) = c # cs"
  shows "\<exists>pre post. xs = pre @ c # post \<and> P c \<and> (\<forall>x\<in>set post. \<not> P x)"
  using assms
proof (induction xs rule: rev_induct)
  case (snoc x xs)
  show ?case
  proof (cases "P x")
    case True
    with snoc.prems have "c = x" by simp
    with True show ?thesis by (intro exI[of _ xs] exI[of _ "[]"]) simp
  next
    case False
    with snoc obtain pre post where "xs = pre @ c # post" "P c" "\<forall>y\<in>set post. \<not> P y" by auto
    with False show ?thesis by (intro exI[of _ pre] exI[of _ "post @ [x]"]) auto
  qed
qed simp

text \<open>C36: An event fires one shortcut or, when no registered shortcut matches it, none and \<open>dispatch\<close> answers
  false. The one that fires matches the event, no match outranks it (scoped before global, then the
  higher priority), and it outranks every match that comes after it in the registry.
\<close>

theorem shortcut_dispatch_winner:
  defines "matches \<equiv> \<lambda>p rg e s. filter (dispatch_candidate p rg e) (shortcut_getAll s)"
  shows "if matches p rg e s = [] then shortcut_dispatch p rg e s = (False, [])
     else \<exists>pre d post. matches p rg e s = pre @ d # post \<and>
            shortcut_dispatch p rg e s = (True, [Did (Shortcut_action (sh_object d))]) \<and>
            (\<forall>c\<in>set (pre @ post). \<not> outranks c d) \<and> (\<forall>c\<in>set post. outranks d c)"
proof -
  let ?cs = "filter (dispatch_candidate p rg e) (map_values (ks_registry s))"
  have ms: "matches p rg e s = ?cs" by (simp add: matches_def shortcut_getAll_def)
  show ?thesis
  proof (cases "?cs = []")
    case True
    then show ?thesis by (simp add: ms shortcut_dispatch_def)
  next
    case False
    let ?so = "js_sort by_precedence ?cs"
    let ?w = "hd ?so"
    have le: "by_precedence ?w c \<le> 0" if "c \<in> set ?cs" for c
      using precedence.hd_js_sort_le[OF that] .
    have "?w \<in> set ?cs" using False hd_in_set[of ?so] by simp
    then have "?w \<in> set (filter (\<lambda>c. by_precedence ?w c = 0) ?cs)" by (simp add: by_precedence_eq)
    then obtain d ds where d: "rev (filter (\<lambda>c. by_precedence ?w c = 0) ?cs) = d # ds"
      by (metis list.exhaust empty_iff list.set(1) rev_is_Nil_conv)
    have best: "latest_tie ?w ?so = d" by (simp add: latest_tie_last precedence.js_sort_stable d del: filter_filter)
    from last_filter_split[OF d] obtain pre post where sp: "?cs = pre @ d # post" "by_precedence ?w d = 0"
      "\<forall>x\<in>set post. by_precedence ?w x \<noteq> 0" by blast
    have top: "\<not> outranks c d \<and> (c \<in> set post \<longrightarrow> outranks d c)" if "c \<in> set ?cs" for c
      using le[OF that] sp(2,3) by (auto simp: by_precedence_def outranks_def split: if_splits)
    have "\<forall>c\<in>set (pre @ post). \<not> outranks c d" "\<forall>c\<in>set post. outranks d c"
      using top sp(1) by auto
    moreover have "shortcut_dispatch p rg e s = (True, [Did (Shortcut_action (sh_object d))])"
      using False by (simp only: shortcut_dispatch_def Let_def best if_False)
    ultimately show ?thesis using False sp(1) ms by auto
  qed
qed

definition demo_shortcut :: "nat \<Rightarrow> string \<Rightarrow> modifier list \<Rightarrow> int \<Rightarrow> shortcut" where
  "demo_shortcut obj k mods pr = \<lparr>sh_object = obj, sh_id = k, sh_chord = \<lparr>ch_key = ''b'', ch_modifiers = mods\<rparr>,
     sh_description = [], sh_scope = Global, sh_preserveInInputs = None, sh_priority = Some pr\<rparr>"

definition demo_key :: "bool \<Rightarrow> bool \<Rightarrow> shortcut_event" where
  "demo_key meta ctrl = \<lparr>se_key = ''B'', se_metaKey = meta, se_ctrlKey = ctrl, se_shiftKey = False,
     se_altKey = False, se_target = None\<rparr>"

lemma demo_lower: "to_lower ''B'' = ''b''" "to_lower ''b'' = ''b''"
  by code_simp+

lemmas demo_dispatch = shortcut_dispatch_def dispatch_candidate_def chordMatches_def mod_pressed_def modKeyForPlatform_def
  isInScope_def isInputTarget_def demo_shortcut_def demo_key_def demo_lower latest_tie_def
  by_precedence_def scoped_def priority_of_def Let_def

theorem shortcut_dispatch_winner_witness:
  "\<exists>pre d post. [demo_shortcut 0 ''hi'' [Mod] 10, demo_shortcut 1 ''lo'' [Mod] 0] = pre @ d # post \<and>
     shortcut_dispatch Mac (\<lambda>_. None) (demo_key True False)
       \<lparr>ks_registry = [(''hi'', demo_shortcut 0 ''hi'' [Mod] 10), (''lo'', demo_shortcut 1 ''lo'' [Mod] 0)], ks_listeners = []\<rparr> =
     (True, [Did (Shortcut_action (sh_object d))])"
proof -
  let ?s = "\<lparr>ks_registry = [(''hi'', demo_shortcut 0 ''hi'' [Mod] 10), (''lo'', demo_shortcut 1 ''lo'' [Mod] 0)],
    ks_listeners = []\<rparr>"
  have "filter (dispatch_candidate Mac (\<lambda>_. None) (demo_key True False)) (shortcut_getAll ?s) =
      [demo_shortcut 0 ''hi'' [Mod] 10, demo_shortcut 1 ''lo'' [Mod] 0]"
    by (simp add: shortcut_getAll_def demo_dispatch)
  then show ?thesis
    using shortcut_dispatch_winner[of Mac "\<lambda>_. None" "demo_key True False" ?s] by auto
qed

text \<open>On a Mac a chord with \<open>Mod\<close> ignores the Control key of the event, whatever its other modifiers: it
  fires with Control held although the chord does not ask for it, and a chord that names both
  \<open>Mod\<close> and \<open>Ctrl\<close> fires without Control.
\<close>

theorem shortcut_mod_ignores_ctrl:
  assumes "Mod \<in> set (ch_modifiers c)"
  shows "chordMatches c (e\<lparr>se_ctrlKey := b\<rparr>) Mac = chordMatches c e Mac"
  using assms by (simp add: chordMatches_def mod_pressed_def modKeyForPlatform_def Let_def)

theorem shortcut_mod_ignores_ctrl_witness:
  "chordMatches \<lparr>ch_key = ''b'', ch_modifiers = [Mod]\<rparr> (demo_key True True) Mac \<and>
   chordMatches \<lparr>ch_key = ''b'', ch_modifiers = [Mod, Ctrl]\<rparr> (demo_key True False) Mac"
proof
  have e: "(demo_key True False)\<lparr>se_ctrlKey := True\<rparr> = demo_key True True"
    "(demo_key True True)\<lparr>se_ctrlKey := False\<rparr> = demo_key True False" by (simp_all add: demo_key_def)
  show "chordMatches \<lparr>ch_key = ''b'', ch_modifiers = [Mod]\<rparr> (demo_key True True) Mac"
    using shortcut_mod_ignores_ctrl[where c = "\<lparr>ch_key = ''b'', ch_modifiers = [Mod]\<rparr>" and e = "demo_key True False" and b = True]
    by (simp add: e(1)) (simp add: demo_dispatch)
  show "chordMatches \<lparr>ch_key = ''b'', ch_modifiers = [Mod, Ctrl]\<rparr> (demo_key True False) Mac"
    using shortcut_mod_ignores_ctrl[where c = "\<lparr>ch_key = ''b'', ch_modifiers = [Mod, Ctrl]\<rparr>" and e = "demo_key True True" and b = False]
    by (simp add: e(2)) (simp add: demo_dispatch)
qed

text \<open>Registering a shortcut again under its id replaces it in place, so it does not become the last
  registered one: with two matching shortcuts of the same rank, the second keeps firing after the
  first has been registered again.
\<close>

theorem shortcut_reregister_keeps_rank:
  assumes "sh_id a \<noteq> sh_id b" and "sh_id a' = sh_id a"
    and "dispatch_candidate p rg e a" and "dispatch_candidate p rg e a'" and "dispatch_candidate p rg e b"
    and "by_precedence a b = 0" and "by_precedence a' b = 0"
  shows "snd (shortcut_dispatch p rg e (fst (run shortcut_step
            [Shortcut_register a, Shortcut_register b] createKeyboardShortcutManager))) = [Did (Shortcut_action (sh_object b))] \<and>
         snd (shortcut_dispatch p rg e (fst (run shortcut_step
            [Shortcut_register a, Shortcut_register b, Shortcut_register a'] createKeyboardShortcutManager))) =
              [Did (Shortcut_action (sh_object b))]"
proof -
  have fire: "snd (shortcut_dispatch p rg e s) = [Did (Shortcut_action (sh_object b))]"
    if "map_values (ks_registry s) = [c, b]" "dispatch_candidate p rg e c" "by_precedence c b = 0" for s c
    using that assms(5) by (simp add: shortcut_dispatch_def latest_tie_def Let_def by_precedence_def split: if_splits)
  show ?thesis
    using assms(1,2) by (intro conjI fire[OF _ assms(3,6)] fire[OF _ assms(4,7)])
      (simp_all add: createKeyboardShortcutManager_def shortcut_register_def Let_def)
qed

theorem shortcut_reregister_keeps_rank_witness:
  "snd (shortcut_dispatch Linux (\<lambda>_. None) (demo_key False True) (fst (run shortcut_step
     [Shortcut_register (demo_shortcut 0 ''a'' [Mod] 0), Shortcut_register (demo_shortcut 1 ''b'' [Mod] 0),
      Shortcut_register (demo_shortcut 2 ''a'' [Mod] 0)] createKeyboardShortcutManager))) = [Did (Shortcut_action 1)]"
proof -
  let ?a = "demo_shortcut 0 ''a'' [Mod] 0" and ?b = "demo_shortcut 1 ''b'' [Mod] 0" and ?c = "demo_shortcut 2 ''a'' [Mod] 0"
  have "sh_id ?a \<noteq> sh_id ?b" "sh_id ?c = sh_id ?a" by (simp_all add: demo_shortcut_def)
  moreover have "dispatch_candidate Linux (\<lambda>_. None) (demo_key False True) (demo_shortcut n k [Mod] 0)" for n k
    by (simp add: demo_dispatch)
  moreover have "by_precedence ?a ?b = 0" "by_precedence ?c ?b = 0" by (simp_all add: demo_dispatch)
  ultimately show ?thesis
    using shortcut_reregister_keeps_rank[of ?a ?b ?c Linux "\<lambda>_. None" "demo_key False True"]
    by (simp add: demo_shortcut_def del: run.simps)
qed

end
