(* ===== verification/Inline_Suggestion.thy ===== *)
theory Inline_Suggestion
  imports Id_Generator
begin

text \<open>
  \<open>headless-core/inline-suggestion.ts\<close>: the roster of proposed edits, their time to live, and the
  controller of one suggestion. \<open>Suggestion_timeout k\<close> is the callback of the timer that \<open>propose\<close>
  armed for id \<open>k\<close>; it can run only while that timer is pending. The confidence is a rational.
\<close>

section \<open>Data\<close>

record suggestion_range =
  rg_file :: string
  rg_fromLine :: int
  rg_toLine :: int

record suggestion_input =
  ss_agentId :: string
  ss_agentName :: string
  ss_agentColorSlot :: nat
  ss_range :: suggestion_range
  ss_before :: "string list"
  ss_after :: "string list"
  ss_rationale :: "string option"
  ss_confidence :: rat

record suggestion = suggestion_input +
  ss_id :: string
  ss_createdAt :: string

record suggestions =
  is_idGen :: id_generator
  is_suggestions :: "(string, suggestion) jsmap"
  is_ttlTimers :: "(string, int) jsmap"
  is_fileListeners :: keyed_listeners

datatype suggestion_effect = Sg_onAccept suggestion | Sg_onReject suggestion | Sg_proposed string

type_synonym suggestions_event = "(suggestion list, suggestion_effect) event"

record suggestion_key_event =
  sk_key :: string
  sk_metaKey :: bool
  sk_ctrlKey :: bool
  sk_shiftKey :: bool
  sk_altKey :: bool

record suggestion_root_props =
  sr_id :: string
  sr_ariaLabel :: string
  sr_ariaKeyshortcuts :: string
  sr_agentColor :: string
  sr_tabIndex :: int

record suggestion_button_props =
  sb_ariaLabel :: string
  sb_ariaKeyshortcuts :: string

section \<open>The manager\<close>

definition DEFAULT_TTL_MS :: int where
  "DEFAULT_TTL_MS = 30000"

definition rangesOverlap :: "suggestion_range \<Rightarrow> suggestion_range \<Rightarrow> bool" where
  "rangesOverlap a b \<longleftrightarrow> rg_file a = rg_file b \<and> rg_fromLine a < rg_toLine b \<and> rg_fromLine b < rg_toLine a"

definition createInlineSuggestionManager :: suggestions where
  "createInlineSuggestionManager =
     \<lparr>is_idGen = createIdGenerator (Some ''inline-suggestion''), is_suggestions = [], is_ttlTimers = [],
      is_fileListeners = ([], [])\<rparr>"

definition suggestion_getAll :: "suggestions \<Rightarrow> suggestion list" where
  "suggestion_getAll s = map_values (is_suggestions s)"

definition suggestion_inFile :: "string \<Rightarrow> suggestions \<Rightarrow> suggestion list" where
  "suggestion_inFile f s = filter (\<lambda>g. rg_file (ss_range g) = f) (map_values (is_suggestions s))"

definition suggestion_emitFile :: "string \<Rightarrow> suggestions \<Rightarrow> suggestions_event list" where
  "suggestion_emitFile f s =
     (let ls = keyed_get f (is_fileListeners s) in
      if ls = [] then [] else emit_to ls (suggestion_inFile f s))"

definition suggestion_clearTimer :: "string \<Rightarrow> suggestions \<Rightarrow> suggestions" where
  "suggestion_clearTimer k s = s\<lparr>is_ttlTimers := map_del k (is_ttlTimers s)\<rparr>"

text \<open>\<open>suggestions.delete(id)\<close> and \<open>clearTimer(id)\<close>, which every removal runs.\<close>

definition suggestion_drop :: "string \<Rightarrow> suggestions \<Rightarrow> suggestions" where
  "suggestion_drop k s = suggestion_clearTimer k (s\<lparr>is_suggestions := map_del k (is_suggestions s)\<rparr>)"

definition full_suggestion :: "suggestion_input \<Rightarrow> string \<Rightarrow> string \<Rightarrow> suggestion" where
  "full_suggestion input k now = suggestion_input.extend input \<lparr>ss_id = k, ss_createdAt = now\<rparr>"

definition suggestion_propose :: "int \<Rightarrow> suggestion_input \<Rightarrow> string \<Rightarrow> suggestions \<Rightarrow> suggestions \<times> suggestions_event list" where
  "suggestion_propose ttlMs input now s =
     (let (g, k) = idgen_next None (is_idGen s);
          full = full_suggestion input k now;
          s1 = s\<lparr>is_idGen := g, is_suggestions := map_set k full (is_suggestions s)\<rparr>;
          s2 = (if ttlMs > 0 then s1\<lparr>is_ttlTimers := map_set k ttlMs (is_ttlTimers s1)\<rparr> else s1)
      in (s2, suggestion_emitFile (rg_file (ss_range full)) s2 @ [Did (Sg_proposed k)]))"

definition suggestion_retract :: "string \<Rightarrow> suggestions \<Rightarrow> suggestions \<times> suggestions_event list" where
  "suggestion_retract k s =
     (case map_get (is_suggestions s) k of
        None \<Rightarrow> (s, [])
      | Some g \<Rightarrow> (let s' = suggestion_drop k s in (s', suggestion_emitFile (rg_file (ss_range g)) s')))"

definition suggestion_reject :: "string \<Rightarrow> suggestions \<Rightarrow> suggestions \<times> suggestions_event list" where
  "suggestion_reject k s =
     (case map_get (is_suggestions s) k of
        None \<Rightarrow> (s, [])
      | Some g \<Rightarrow> (let s' = suggestion_drop k s in (s', [Did (Sg_onReject g)] @ suggestion_emitFile (rg_file (ss_range g)) s')))"

text \<open>The operations here run to their end with option callbacks that do not call the manager; theory
  \<open>Suggestion_Callbacks\<close> has the manager with callbacks that do.\<close>

definition overlapping :: "suggestion \<Rightarrow> suggestions \<Rightarrow> suggestion list" where
  "overlapping g s = filter (\<lambda>other. rangesOverlap (ss_range other) (ss_range g)) (map_values (is_suggestions s))"

text \<open>The loop over the losers: each is deleted, its timer cleared, and reported.\<close>

fun reject_each :: "suggestion list \<Rightarrow> suggestions \<Rightarrow> suggestions \<times> suggestions_event list" where
  "reject_each [] s = (s, [])"
| "reject_each (other # rest) s = after [Did (Sg_onReject other)] (reject_each rest (suggestion_drop (ss_id other) s))"

definition suggestion_accept :: "string \<Rightarrow> suggestions \<Rightarrow> suggestions \<times> suggestions_event list" where
  "suggestion_accept k s =
     (case map_get (is_suggestions s) k of
        None \<Rightarrow> (s, [])
      | Some g \<Rightarrow>
          (let s1 = suggestion_drop k s
           in after [Did (Sg_onAccept g)]
                (and_then (reject_each (overlapping g s1) s1) (\<lambda>s2. (s2, suggestion_emitFile (rg_file (ss_range g)) s2)))))"

lemma reject_each_eq:
  "reject_each gs s = (fold (\<lambda>other. suggestion_drop (ss_id other)) gs s, map (\<lambda>other. Did (Sg_onReject other)) gs)"
  by (induction gs arbitrary: s) (simp_all add: prod_eq_iff)

lemma suggestion_accept_eq:
  "suggestion_accept k s =
     (case map_get (is_suggestions s) k of
        None \<Rightarrow> (s, [])
      | Some g \<Rightarrow>
          (let s1 = suggestion_drop k s;
               losers = filter (\<lambda>other. rangesOverlap (ss_range other) (ss_range g)) (map_values (is_suggestions s1));
               s2 = fold (\<lambda>other. suggestion_drop (ss_id other)) losers s1
           in (s2, [Did (Sg_onAccept g)] @ map (\<lambda>other. Did (Sg_onReject other)) losers @
                   suggestion_emitFile (rg_file (ss_range g)) s2)))"
  by (simp add: suggestion_accept_def overlapping_def reject_each_eq Let_def prod_eq_iff split: option.split)

definition suggestion_timeout :: "string \<Rightarrow> suggestions \<Rightarrow> suggestions \<times> suggestions_event list" where
  "suggestion_timeout k s =
     (if map_has (is_ttlTimers s) k \<and> map_has (is_suggestions s) k then suggestion_reject k s else (s, []))"

definition suggestion_inRange :: "string \<Rightarrow> int \<Rightarrow> int \<Rightarrow> suggestions \<Rightarrow> suggestion list" where
  "suggestion_inRange f lo hi s =
     filter (\<lambda>g. rangesOverlap (ss_range g) \<lparr>rg_file = f, rg_fromLine = lo, rg_toLine = hi\<rparr>) (map_values (is_suggestions s))"

definition covers :: "string \<Rightarrow> int \<Rightarrow> suggestion \<Rightarrow> bool" where
  "covers f line g \<longleftrightarrow> rg_file (ss_range g) = f \<and> \<not> (line < rg_fromLine (ss_range g) \<or> line \<ge> rg_toLine (ss_range g))"

definition suggestion_topAtLine :: "string \<Rightarrow> int \<Rightarrow> suggestions \<Rightarrow> suggestion option" where
  "suggestion_topAtLine f line s =
     foldl (\<lambda>best g. if \<not> covers f line g then best
                     else case best of None \<Rightarrow> Some g
                          | Some b \<Rightarrow> if ss_confidence g > ss_confidence b then Some g else best)
       None (map_values (is_suggestions s))"

datatype suggestion_op =
    Suggestion_propose suggestion_input string | Suggestion_retract string | Suggestion_accept string
  | Suggestion_reject string | Suggestion_timeout string
  | Suggestion_subscribeFile string listener | Suggestion_disposeFile string nat listener

fun suggestion_step :: "int \<Rightarrow> suggestion_op \<Rightarrow> suggestions \<Rightarrow> suggestions \<times> suggestions_event list" where
  "suggestion_step ttlMs (Suggestion_propose input now) s = suggestion_propose ttlMs input now s"
| "suggestion_step ttlMs (Suggestion_retract k) s = suggestion_retract k s"
| "suggestion_step ttlMs (Suggestion_accept k) s = suggestion_accept k s"
| "suggestion_step ttlMs (Suggestion_reject k) s = suggestion_reject k s"
| "suggestion_step ttlMs (Suggestion_timeout k) s = suggestion_timeout k s"
| "suggestion_step ttlMs (Suggestion_subscribeFile f l) s =
     (s\<lparr>is_fileListeners := fst (keyed_subscribe f l (is_fileListeners s))\<rparr>, [])"
| "suggestion_step ttlMs (Suggestion_disposeFile f r l) s =
     (s\<lparr>is_fileListeners := keyed_dispose f r l (is_fileListeners s)\<rparr>, [])"

section \<open>The controller of one suggestion\<close>

text \<open>\<open>Inl\<close> is the thrown \<open>Error\<close>.\<close>

definition createSuggestionController :: "string \<Rightarrow> suggestions \<Rightarrow> string + suggestion" where
  "createSuggestionController k s =
     (case List.find (\<lambda>g. ss_id g = k) (suggestion_getAll s) of
        None \<Rightarrow> Inl (''InlineSuggestion not found: '' @ k)
      | Some g \<Rightarrow> Inr g)"

definition line_label :: "suggestion \<Rightarrow> string" where
  "line_label g =
     (let r = ss_range g in
      if rg_fromLine r = rg_toLine r - 1 then ''line '' @ show_int (rg_fromLine r)
      else ''lines '' @ show_int (rg_fromLine r) @ ''-'' @ show_int (rg_toLine r - 1))"

definition base_label :: "suggestion \<Rightarrow> string" where
  "base_label g = ''Suggestion from '' @ ss_agentName g @ '': replace '' @ line_label g @
     ''. Press Tab to accept or Escape to reject.''"

text \<open>The first component: whether \<open>preventDefault\<close> is called.\<close>

definition suggestion_handleKeyDown :: "string \<Rightarrow> suggestion_key_event \<Rightarrow> suggestions \<Rightarrow> bool \<times> (suggestions \<times> suggestions_event list)" where
  "suggestion_handleKeyDown k e s =
     (if sk_metaKey e \<or> sk_ctrlKey e \<or> sk_altKey e then (False, (s, []))
      else if sk_key e = ''Tab'' \<and> \<not> sk_shiftKey e then (True, suggestion_accept k s)
      else if sk_key e = ''Escape'' then (True, suggestion_reject k s)
      else (False, (s, [])))"

definition suggestion_getRootProps :: "suggestion \<Rightarrow> suggestion_root_props" where
  "suggestion_getRootProps g =
     \<lparr>sr_id = ''suggestion-'' @ ss_id g, sr_ariaLabel = base_label g, sr_ariaKeyshortcuts = ''Tab Escape'',
      sr_agentColor = ''--k-'' @ show_nat (ss_agentColorSlot g), sr_tabIndex = 0\<rparr>"

definition suggestion_getAcceptButtonProps :: "suggestion \<Rightarrow> suggestion_button_props" where
  "suggestion_getAcceptButtonProps g =
     \<lparr>sb_ariaLabel = ''Accept suggestion from '' @ ss_agentName g, sb_ariaKeyshortcuts = ''Tab''\<rparr>"

definition suggestion_getRejectButtonProps :: "suggestion \<Rightarrow> suggestion_button_props" where
  "suggestion_getRejectButtonProps g =
     \<lparr>sb_ariaLabel = ''Reject suggestion from '' @ ss_agentName g, sb_ariaKeyshortcuts = ''Escape''\<rparr>"

section \<open>Invariant\<close>

definition suggestion_name :: "nat \<Rightarrow> string" where
  "suggestion_name n = ''inline-suggestion-'' @ show_nat n"

abbreviation open_ids :: "suggestions \<Rightarrow> string set" where
  "open_ids s \<equiv> set (map_keys (is_suggestions s))"

abbreviation issued :: "suggestions \<Rightarrow> nat" where
  "issued s \<equiv> ig_counter (is_idGen s)"

definition suggestions_ok :: "int \<Rightarrow> suggestions \<Rightarrow> bool" where
  "suggestions_ok ttlMs s \<longleftrightarrow> distinct (map_keys (is_suggestions s)) \<and>
     (\<forall>(k, g)\<in>set (is_suggestions s). ss_id g = k) \<and>
     open_ids s \<subseteq> suggestion_name ` {1..issued s} \<and>
     set (map_keys (is_ttlTimers s)) = (if 0 < ttlMs then open_ids s else {}) \<and>
     ig_defaultPrefix (is_idGen s) = ''inline-suggestion'' \<and> keyed_ok (is_fileListeners s)"

lemma suggestion_name_inject [simp]: "suggestion_name m = suggestion_name n \<longleftrightarrow> m = n"
  by (simp add: suggestion_name_def)

lemma drop_simps [simp]:
  "is_suggestions (suggestion_drop k s) = map_del k (is_suggestions s)"
  "is_ttlTimers (suggestion_drop k s) = map_del k (is_ttlTimers s)"
  "is_idGen (suggestion_drop k s) = is_idGen s" "is_fileListeners (suggestion_drop k s) = is_fileListeners s"
  by (simp_all add: suggestion_drop_def suggestion_clearTimer_def)

lemma suggestions_ok_drop: "suggestions_ok ttl s \<Longrightarrow> suggestions_ok ttl (suggestion_drop k s)"
  by (auto simp: suggestions_ok_def image_keys_delete in_delete)

lemma suggestions_ok_drops:
  "suggestions_ok ttl s \<Longrightarrow> suggestions_ok ttl (fold (\<lambda>g. suggestion_drop (ss_id g)) gs s)"
  by (induction gs arbitrary: s) (simp_all add: suggestions_ok_drop)

lemma drops_simps:
  "open_ids (fold (\<lambda>g. suggestion_drop (ss_id g)) gs s) = open_ids s - ss_id ` set gs"
  "is_idGen (fold (\<lambda>g. suggestion_drop (ss_id g)) gs s) = is_idGen s"
  by (induction gs arbitrary: s) (auto simp: image_keys_delete)

lemma next_name:
  "suggestions_ok ttl s \<Longrightarrow> idgen_next None (is_idGen s) =
     ((is_idGen s)\<lparr>ig_counter := Suc (issued s)\<rparr>, suggestion_name (Suc (issued s)))"
  by (simp add: idgen_next_def suggestions_ok_def suggestion_name_def Let_def)

lemma propose_simps:
  assumes "suggestions_ok ttl s"
  defines "k \<equiv> suggestion_name (Suc (issued s))"
  shows "is_suggestions (fst (suggestion_propose ttl input now s)) = map_set k (full_suggestion input k now) (is_suggestions s)"
    and "is_ttlTimers (fst (suggestion_propose ttl input now s)) =
       (if 0 < ttl then map_set k ttl (is_ttlTimers s) else is_ttlTimers s)"
    and "is_idGen (fst (suggestion_propose ttl input now s)) = (is_idGen s)\<lparr>ig_counter := Suc (issued s)\<rparr>"
    and "is_fileListeners (fst (suggestion_propose ttl input now s)) = is_fileListeners s"
  using next_name[OF assms(1)] by (simp_all add: suggestion_propose_def k_def Let_def)

lemma full_suggestion_simps [simp]:
  "ss_id (full_suggestion input k now) = k" "ss_range (full_suggestion input k now) = ss_range input"
  by (simp_all add: full_suggestion_def suggestion_input.extend_def)

lemma suggestions_ok_propose:
  assumes ok: "suggestions_ok ttl s"
  shows "suggestions_ok ttl (fst (suggestion_propose ttl input now s))"
proof -
  have "suggestion_name ` {1..issued s} \<subseteq> suggestion_name ` {1..Suc (issued s)}"
    by (intro image_mono) auto
  then show ?thesis
    using ok unfolding suggestions_ok_def propose_simps[OF ok] by (auto simp: in_update_distinct)
qed

lemma suggestions_ok_listeners:
  "suggestions_ok ttl s \<Longrightarrow> keyed_ok ls \<Longrightarrow> suggestions_ok ttl (s\<lparr>is_fileListeners := ls\<rparr>)"
  by (simp add: suggestions_ok_def)

lemma suggestions_ok_reject: "suggestions_ok ttl s \<Longrightarrow> suggestions_ok ttl (fst (suggestion_reject k s))"
  by (simp add: suggestion_reject_def suggestions_ok_drop Let_def split: option.split)

lemma suggestion_step_ok: "suggestions_ok ttl s \<Longrightarrow> suggestions_ok ttl (fst (suggestion_step ttl x s))"
proof (cases x)
  case (Suggestion_retract k)
  assume "suggestions_ok ttl s"
  with Suggestion_retract show ?thesis by (simp add: suggestion_retract_def suggestions_ok_drop Let_def split: option.split)
next
  case (Suggestion_accept k)
  assume "suggestions_ok ttl s"
  with Suggestion_accept show ?thesis
    by (simp add: suggestion_accept_eq suggestions_ok_drop suggestions_ok_drops Let_def split: option.split)
next
  case (Suggestion_subscribeFile f l)
  assume ok: "suggestions_ok ttl s"
  then have "keyed_ok (is_fileListeners s)" by (simp add: suggestions_ok_def)
  with ok Suggestion_subscribeFile show ?thesis by (simp add: suggestions_ok_listeners keyed_ok_subscribe)
next
  case (Suggestion_disposeFile f r l)
  assume ok: "suggestions_ok ttl s"
  then have "keyed_ok (is_fileListeners s)" by (simp add: suggestions_ok_def)
  with ok Suggestion_disposeFile show ?thesis by (simp add: suggestions_ok_listeners keyed_ok_dispose)
qed (simp_all add: suggestions_ok_propose suggestions_ok_reject suggestion_timeout_def)

lemma suggestions_ok_create: "suggestions_ok ttl createInlineSuggestionManager"
  by (simp add: suggestions_ok_def createInlineSuggestionManager_def createIdGenerator_def keyed_ok_def)

interpretation suggestion_component: component "suggestion_step ttl" "suggestions_ok ttl" "\<lambda>x. True" for ttl
  by unfold_locales (rule suggestion_step_ok)

section \<open>Every proposal gets at most one verdict\<close>

fun verdict_on :: "string \<Rightarrow> suggestion_effect \<Rightarrow> bool" where
  "verdict_on k (Sg_onAccept g) = (ss_id g = k)"
| "verdict_on k (Sg_onReject g) = (ss_id g = k)"
| "verdict_on k (Sg_proposed _) = False"

abbreviation verdicts :: "string \<Rightarrow> suggestions_event list \<Rightarrow> suggestion_effect list" where
  "verdicts k es \<equiv> filter (verdict_on k) (did es)"

lemma did_emitFile [simp]: "did (suggestion_emitFile f s) = []"
  by (simp add: suggestion_emitFile_def Let_def)

lemma did_map_Did: "did (map (\<lambda>x. Did (h x)) xs) = map h xs"
  by (induction xs) simp_all

lemma get_open:
  assumes "suggestions_ok ttl s" and "map_get (is_suggestions s) k = Some g"
  shows "k \<in> open_ids s \<and> ss_id g = k"
proof -
  have m: "(k, g) \<in> set (is_suggestions s)" using assms(2) by (rule map_of_SomeD)
  then have "k \<in> open_ids s" by (simp add: rev_image_eqI)
  moreover have "\<forall>(k, g)\<in>set (is_suggestions s). ss_id g = k" using assms(1) by (simp add: suggestions_ok_def)
  ultimately show ?thesis using m by blast
qed

lemma reject_verdicts:
  assumes "suggestions_ok ttl s"
  shows "length (verdicts k (snd (suggestion_reject j s))) = (if k = j \<and> k \<in> open_ids s then 1 else 0)"
    and "open_ids (fst (suggestion_reject j s)) = open_ids s - {j}"
  using get_open[OF assms, of j] map_of_eq_None_iff[of "is_suggestions s" j]
  by (auto simp: suggestion_reject_def Let_def image_keys_delete split: option.split)

lemma accept_verdicts:
  assumes ok: "suggestions_ok ttl s" and g: "map_get (is_suggestions s) j = Some g"
  defines "lost \<equiv> filter (\<lambda>h. ss_id h \<noteq> j \<and> rangesOverlap (ss_range h) (ss_range g)) (map_values (is_suggestions s))"
  shows "did (snd (suggestion_accept j s)) = Sg_onAccept g # map Sg_onReject lost"
    and "open_ids (fst (suggestion_accept j s)) = open_ids s - {j} - ss_id ` set lost"
proof -
  have ids: "\<forall>(k, h)\<in>set (is_suggestions s). ss_id h = k" using ok by (simp add: suggestions_ok_def)
  have "map_values (map_del j m) = filter (\<lambda>h. ss_id h \<noteq> j) (map_values m)" if "\<forall>(k, h)\<in>set m. ss_id h = k" for m :: "(string, suggestion) jsmap"
    using that by (induction m) auto
  then have l: "filter (\<lambda>h. rangesOverlap (ss_range h) (ss_range g)) (map_values (map_del j (is_suggestions s))) = lost"
    using ids by (simp add: lost_def conj_commute)
  show "did (snd (suggestion_accept j s)) = Sg_onAccept g # map Sg_onReject lost"
    by (simp add: suggestion_accept_eq g l did_map_Did Let_def)
  show "open_ids (fst (suggestion_accept j s)) = open_ids s - {j} - ss_id ` set lost"
    using drops_simps(1)[of lost "suggestion_drop j s"]
    by (simp add: suggestion_accept_eq g l image_keys_delete Let_def)
qed

lemma filter_id_length:
  "distinct (map f xs) \<Longrightarrow> length (filter (\<lambda>x. f x = k) xs) = (if k \<in> f ` set xs then 1 else 0)"
  by (induction xs) (auto simp: rev_image_eqI)

lemma ids_distinct: "suggestions_ok ttl s \<Longrightarrow> map ss_id (map_values (is_suggestions s)) = map_keys (is_suggestions s)"
  by (auto simp: suggestions_ok_def)

lemma step_verdicts:
  assumes ok: "suggestions_ok ttl s"
  defines "t \<equiv> \<lambda>x. fst (suggestion_step ttl x s)"
  shows "length (verdicts k (snd (suggestion_step ttl x s))) \<le> (if k \<in> open_ids s \<and> k \<notin> open_ids (t x) then 1 else 0)"
    and "k \<in> open_ids (t x) \<Longrightarrow> k \<notin> open_ids s \<Longrightarrow> k = suggestion_name (Suc (issued s)) \<and> issued (t x) = Suc (issued s)"
    and "issued s \<le> issued (t x)"
proof -
  have "length (verdicts k (snd (suggestion_step ttl x s))) \<le> (if k \<in> open_ids s \<and> k \<notin> open_ids (t x) then 1 else 0) \<and>
    (k \<in> open_ids (t x) \<longrightarrow> k \<notin> open_ids s \<longrightarrow> k = suggestion_name (Suc (issued s)) \<and> issued (t x) = Suc (issued s)) \<and>
    issued s \<le> issued (t x)"
  proof (cases x)
    case (Suggestion_propose input now)
    then show ?thesis
      using propose_simps[OF ok, of input now] next_name[OF ok] by (auto simp: t_def suggestion_propose_def Let_def)
  next
    case (Suggestion_retract j)
    then show ?thesis
      by (auto simp: t_def suggestion_retract_def image_keys_delete Let_def split: option.split)
  next
    case (Suggestion_accept j)
    show ?thesis
    proof (cases "map_get (is_suggestions s) j")
      case None
      then show ?thesis using Suggestion_accept by (simp add: t_def suggestion_accept_eq)
    next
      case (Some g)
      obtain L where L: "L = filter (\<lambda>h. ss_id h \<noteq> j \<and> rangesOverlap (ss_range h) (ss_range g)) (map_values (is_suggestions s))"
        by blast
      note a = accept_verdicts[OF ok Some, folded L]
      have "distinct (map ss_id (map_values (is_suggestions s)))"
        unfolding ids_distinct[OF ok] using ok by (simp add: suggestions_ok_def)
      then have d: "distinct (map ss_id L)" unfolding L by (rule distinct_map_filter)
      have "verdict_on i \<circ> Sg_onReject = (\<lambda>h. ss_id h = i)" for i by (auto simp: comp_def)
      then have n: "length (verdicts k (snd (suggestion_accept j s))) =
          (if k = j then 1 else 0) + (if k \<in> ss_id ` set L then 1 else 0)"
        using get_open[OF ok Some] filter_id_length[OF d, of k]
        by (cases "k = j") (auto simp: a(1) filter_map split: if_splits)
      have "ss_id ` set L \<subseteq> set (map ss_id (map_values (is_suggestions s))) - {j}"
        by (auto simp: L)
      then have "ss_id ` set L \<subseteq> open_ids s - {j}" unfolding ids_distinct[OF ok] .
      moreover have "is_idGen (fst (suggestion_accept j s)) = is_idGen s"
        by (simp add: suggestion_accept_eq Some drops_simps(2) Let_def)
      moreover have "j \<in> open_ids s" using get_open[OF ok Some] by blast
      ultimately show ?thesis
        using a(2) n Suggestion_accept by (auto simp: t_def)
    qed
  next
    case (Suggestion_reject j)
    then show ?thesis
      using reject_verdicts(1)[OF ok, of k j] reject_verdicts(2)[OF ok, of j]
      by (auto simp: t_def suggestion_reject_def Let_def split: option.split)
  next
    case (Suggestion_timeout j)
    then show ?thesis
      using reject_verdicts(1)[OF ok, of k j] reject_verdicts(2)[OF ok, of j]
      by (auto simp: t_def suggestion_timeout_def suggestion_reject_def Let_def split: option.split)
  qed (auto simp: t_def)
  then show "length (verdicts k (snd (suggestion_step ttl x s))) \<le> (if k \<in> open_ids s \<and> k \<notin> open_ids (t x) then 1 else 0)"
    and "k \<in> open_ids (t x) \<Longrightarrow> k \<notin> open_ids s \<Longrightarrow> k = suggestion_name (Suc (issued s)) \<and> issued (t x) = Suc (issued s)"
    and "issued s \<le> issued (t x)" by blast+
qed

text \<open>The verdicts so far: none for an open or a future id, at most one for a closed one.\<close>

definition verdicts_ok :: "suggestions \<times> suggestions_event list \<Rightarrow> bool" where
  "verdicts_ok p \<longleftrightarrow> (\<forall>k. length (verdicts k (snd p)) \<le>
     (if k \<in> open_ids (fst p) \<or> (\<exists>n > issued (fst p). k = suggestion_name n) then 0 else 1))"

lemma verdicts_ok_step:
  assumes ok: "suggestions_ok ttl s" and v: "verdicts_ok (s, es)"
  shows "verdicts_ok (fst (suggestion_step ttl x s), es @ snd (suggestion_step ttl x s))"
  unfolding verdicts_ok_def
proof
  fix k
  let ?t = "fst (suggestion_step ttl x s)"
  let ?later = "\<lambda>u. \<exists>n > issued u. k = suggestion_name n"
  have named: "\<not> (k \<in> open_ids u \<and> ?later u)" if u: "suggestions_ok ttl u" for u
  proof
    assume h: "k \<in> open_ids u \<and> ?later u"
    have "open_ids u \<subseteq> suggestion_name ` {1..issued u}" using u by (simp only: suggestions_ok_def)
    then obtain m where "m \<le> issued u" "k = suggestion_name m" using h by auto
    moreover obtain n where "n > issued u" "k = suggestion_name n" using h by blast
    ultimately show False by simp
  qed
  have old: "length (verdicts k es) \<le> (if k \<in> open_ids s \<or> ?later s then 0 else 1)"
    using v by (simp add: verdicts_ok_def)
  have new: "length (verdicts k (snd (suggestion_step ttl x s))) \<le> (if k \<in> open_ids s \<and> k \<notin> open_ids ?t then 1 else 0)"
    by (rule step_verdicts(1)[OF ok])
  have later: "?later ?t \<Longrightarrow> ?later s" using step_verdicts(3)[OF ok, of x] le_less_trans by blast
  have fresh: "k \<in> open_ids ?t \<Longrightarrow> k \<notin> open_ids s \<Longrightarrow> ?later s" using step_verdicts(2)[OF ok] by blast
  have count: "a + b \<le> (if P' \<or> Q' then 0 else 1)"
    if "a \<le> (if P \<or> Q then 0 else 1)" "b \<le> (if P \<and> \<not> P' then 1 else 0)" "\<not> (P \<and> Q)" "Q' \<Longrightarrow> Q" "P' \<Longrightarrow> \<not> P \<Longrightarrow> Q"
    for a b :: nat and P P' Q Q' :: bool
    using that by (cases P; cases P'; cases Q; cases Q') auto
  have "length (verdicts k (es @ snd (suggestion_step ttl x s))) \<le> (if k \<in> open_ids ?t \<or> ?later ?t then 0 else 1)"
    using count[OF old new named[OF ok] later fresh] by simp
  then show "length (verdicts k (snd (?t, es @ snd (suggestion_step ttl x s)))) \<le>
      (if k \<in> open_ids (fst (?t, es @ snd (suggestion_step ttl x s))) \<or>
          ?later (fst (?t, es @ snd (suggestion_step ttl x s))) then 0 else 1)"
    by (simp only: fst_conv snd_conv)
qed

text \<open>Every proposal gets at most one verdict when no callback calls the manager: an id is reported at most once through
  \<open>onAccept\<close> and \<open>onReject\<close> together, and not at all while its suggestion is still listed.
\<close>

theorem suggestion_uninterrupted_verdict:
  "length (verdicts k (snd (run (suggestion_step ttl) xs createInlineSuggestionManager))) \<le>
     (if k \<in> ss_id ` set (suggestion_getAll (fst (run (suggestion_step ttl) xs createInlineSuggestionManager))) then 0 else 1)"
proof -
  let ?r = "\<lambda>xs. run (suggestion_step ttl) xs createInlineSuggestionManager"
  have ok: "suggestions_ok ttl (fst (?r xs))" for xs
    by (rule suggestion_component.run_inv[OF suggestions_ok_create]) simp
  have "verdicts_ok (?r xs)"
  proof (induction xs rule: rev_induct)
    case Nil
    then show ?case by (simp add: verdicts_ok_def)
  next
    case (snoc x xs)
    have "verdicts_ok (fst (?r xs), snd (?r xs))" using snoc by simp
    from verdicts_ok_step[OF ok this, of x] show ?case by (simp add: run_append run_Cons del: run.simps(2))
  qed
  moreover have "ss_id ` set (suggestion_getAll (fst (?r xs))) = open_ids (fst (?r xs))"
    using ids_distinct[OF ok] unfolding suggestion_getAll_def by (metis list.set_map)
  ultimately show ?thesis
    unfolding verdicts_ok_def by (auto dest!: spec[of _ k] split: if_splits)
qed

section \<open>Accepting, ranking, expiring\<close>

lemma values_drops:
  "\<forall>(k, g)\<in>set (is_suggestions s). ss_id g = k \<Longrightarrow>
   map_values (is_suggestions (fold (\<lambda>g. suggestion_drop (ss_id g)) gs s)) =
   filter (\<lambda>h. ss_id h \<notin> ss_id ` set gs) (map_values (is_suggestions s))"
proof (induction gs arbitrary: s)
  case (Cons g gs)
  have "map_values (map_del k m) = filter (\<lambda>h. ss_id h \<noteq> k) (map_values m)"
    if "\<forall>(k, h)\<in>set m. ss_id h = k" for k and m :: "(string, suggestion) jsmap"
    using that by (induction m) auto
  then have "map_values (is_suggestions (suggestion_drop (ss_id g) s)) =
      filter (\<lambda>h. ss_id h \<noteq> ss_id g) (map_values (is_suggestions s))" using Cons.prems by simp
  moreover have "\<forall>(k, h)\<in>set (is_suggestions (suggestion_drop (ss_id g) s)). ss_id h = k"
    using Cons.prems by (auto simp: in_delete)
  ultimately show ?case
    using Cons.IH by (simp add: conj_commute)
qed simp

text \<open>Accepting a suggestion removes it and every other one that overlaps its range, and nothing else: the
  survivors keep their order and none of them overlaps, and the callbacks are one \<open>onAccept\<close> for the
  winner followed by one \<open>onReject\<close> for each loser in the order of proposal.
\<close>

theorem suggestion_accept_exclusive:
  assumes "s = fst (run (suggestion_step ttl) xs createInlineSuggestionManager)"
    and "g \<in> set (suggestion_getAll s)"
  defines "lost \<equiv> filter (\<lambda>h. ss_id h \<noteq> ss_id g \<and> rangesOverlap (ss_range h) (ss_range g)) (suggestion_getAll s)"
    and "kept \<equiv> filter (\<lambda>h. ss_id h \<noteq> ss_id g \<and> \<not> rangesOverlap (ss_range h) (ss_range g)) (suggestion_getAll s)"
  shows "suggestion_getAll (fst (suggestion_accept (ss_id g) s)) = kept \<and>
         did (snd (suggestion_accept (ss_id g) s)) = Sg_onAccept g # map Sg_onReject lost"
proof -
  have ok: "suggestions_ok ttl s"
    unfolding assms(1) by (rule suggestion_component.run_inv[OF suggestions_ok_create]) simp
  then have ids: "\<forall>(k, h)\<in>set (is_suggestions s). ss_id h = k" and d: "distinct (map_keys (is_suggestions s))"
    by (simp_all add: suggestions_ok_def)
  have "(ss_id g, g) \<in> set (is_suggestions s)"
    using assms(2) ids by (auto simp: suggestion_getAll_def)
  then have get: "map_get (is_suggestions s) (ss_id g) = Some g" using d by simp
  note a = accept_verdicts(1)[OF ok get]
  let ?s1 = "suggestion_drop (ss_id g) s"
  let ?gs = "filter (\<lambda>h. rangesOverlap (ss_range h) (ss_range g)) (map_values (is_suggestions ?s1))"
  have v1: "map_values (is_suggestions ?s1) = filter (\<lambda>h. ss_id h \<noteq> ss_id g) (suggestion_getAll s)"
    using values_drops[of s "[g]"] ids by (simp add: suggestion_getAll_def)
  have "\<forall>(k, h)\<in>set (is_suggestions ?s1). ss_id h = k" using ids by (auto simp: in_delete)
  from values_drops[OF this, of ?gs]
  have "suggestion_getAll (fst (suggestion_accept (ss_id g) s)) =
      filter (\<lambda>h. ss_id h \<notin> ss_id ` set ?gs) (map_values (is_suggestions ?s1))"
    by (simp add: suggestion_getAll_def suggestion_accept_eq get Let_def)
  also have "\<dots> = filter (\<lambda>h. \<not> rangesOverlap (ss_range h) (ss_range g)) (map_values (is_suggestions ?s1))"
  proof (rule filter_cong[OF refl])
    fix h assume h: "h \<in> set (map_values (is_suggestions ?s1))"
    have "inj_on ss_id (set (map_values (is_suggestions s)))"
      using d ids_distinct[OF ok] by (metis distinct_map)
    then have "h' = h" if "h' \<in> set ?gs" "ss_id h' = ss_id h" for h'
    proof -
      have sub: "x \<in> set (map_values (is_suggestions s))" if "x \<in> set (map_values (is_suggestions ?s1))" for x
        using that unfolding v1 suggestion_getAll_def by (simp only: set_filter mem_Collect_eq)
      have "h' \<in> set (map_values (is_suggestions ?s1))" using that(1) by (simp only: set_filter mem_Collect_eq)
      with inj_onD[OF \<open>inj_on ss_id (set (map_values (is_suggestions s)))\<close> that(2)] sub h show ?thesis by blast
    qed
    then have same: "h' = h" if "ss_id h = ss_id h'" "h' \<in> set ?gs" for h' using that by (simp only:)
    have "ss_id h \<in> ss_id ` set ?gs \<longleftrightarrow> h \<in> set ?gs"
    proof
      assume "ss_id h \<in> ss_id ` set ?gs"
      then show "h \<in> set ?gs" by (rule imageE) (use same in \<open>simp only:\<close>)
    qed (rule imageI)
    also have "\<dots> \<longleftrightarrow> rangesOverlap (ss_range h) (ss_range g)" using h by simp
    finally show "(ss_id h \<notin> ss_id ` set ?gs) = (\<not> rangesOverlap (ss_range h) (ss_range g))" by (rule arg_cong)
  qed
  also have "\<dots> = kept" unfolding v1 kept_def by (simp add: conj_commute)
  finally show ?thesis using a by (simp add: lost_def suggestion_getAll_def)
qed

text \<open>\<open>topAtLine\<close> is empty exactly when no suggestion of the file covers the line, and otherwise answers a
  covering suggestion of the highest confidence, the earliest proposed one among equals.
\<close>

theorem suggestion_topAtLine_spec:
  "case suggestion_topAtLine f line s of
     None \<Rightarrow> filter (covers f line) (suggestion_getAll s) = []
   | Some b \<Rightarrow> \<exists>pre post. filter (covers f line) (suggestion_getAll s) = pre @ b # post \<and>
       (\<forall>g\<in>set pre. ss_confidence g < ss_confidence b) \<and> (\<forall>g\<in>set post. ss_confidence g \<le> ss_confidence b)"
proof -
  have "case foldl (\<lambda>best g. if \<not> covers f line g then best
                     else case best of None \<Rightarrow> Some g
                          | Some b \<Rightarrow> if ss_confidence g > ss_confidence b then Some g else best) None gs of
     None \<Rightarrow> filter (covers f line) gs = []
   | Some b \<Rightarrow> \<exists>pre post. filter (covers f line) gs = pre @ b # post \<and>
       (\<forall>g\<in>set pre. ss_confidence g < ss_confidence b) \<and> (\<forall>g\<in>set post. ss_confidence g \<le> ss_confidence b)"
    (is "case ?fold gs of None \<Rightarrow> ?none gs | Some b \<Rightarrow> ?some gs b") for gs
  proof (induction gs rule: rev_induct)
    case (snoc g gs)
    show ?case
    proof (cases "covers f line g")
      case False
      with snoc show ?thesis by (simp split: option.splits)
    next
      case cov: True
      show ?thesis
      proof (cases "?fold gs")
        case None
        with snoc cov show ?thesis by (auto intro!: exI[of _ "[]"])
      next
        case (Some b)
        with snoc obtain pre post where sp: "filter (covers f line) gs = pre @ b # post"
          "\<forall>g\<in>set pre. ss_confidence g < ss_confidence b" "\<forall>g\<in>set post. ss_confidence g \<le> ss_confidence b"
          by auto
        show ?thesis
        proof (cases "ss_confidence g > ss_confidence b")
          case True
          then have "\<forall>h\<in>set (pre @ b # post). ss_confidence h < ss_confidence g" using sp(2,3) by auto
          moreover have r: "?fold (gs @ [g]) = Some g" using True Some cov by simp
          moreover have "filter (covers f line) (gs @ [g]) = (pre @ b # post) @ g # []" by (simp add: sp(1) cov)
          ultimately show ?thesis unfolding r option.simps(5) by (intro exI[of _ "pre @ b # post"] exI[of _ "[]"]) simp
        next
          case False
          then have "\<forall>h\<in>set (post @ [g]). ss_confidence h \<le> ss_confidence b" using sp(3) by auto
          moreover have r: "?fold (gs @ [g]) = Some b" using False Some cov by simp
          moreover have "filter (covers f line) (gs @ [g]) = pre @ b # (post @ [g])" by (simp add: sp(1) cov)
          ultimately show ?thesis unfolding r option.simps(5) using sp(2) by blast
        qed
      qed
    qed
  qed simp
  then show ?thesis unfolding suggestion_topAtLine_def suggestion_getAll_def .
qed

lemma timeouts_reject:
  "suggestions_ok ttl s \<Longrightarrow> 0 < ttl \<Longrightarrow> distinct ks \<Longrightarrow> set ks \<subseteq> open_ids s \<Longrightarrow>
   open_ids (fst (run (suggestion_step ttl) (map Suggestion_timeout ks) s)) = open_ids s - set ks \<and>
   did (snd (run (suggestion_step ttl) (map Suggestion_timeout ks) s)) = map (\<lambda>k. Sg_onReject (the (map_get (is_suggestions s) k))) ks"
proof (induction ks arbitrary: s)
  case (Cons k ks)
  let ?t = "fst (suggestion_timeout k s)"
  have k: "k \<in> open_ids s" "map_has (is_ttlTimers s) k" "map_has (is_suggestions s) k"
    using Cons.prems by (auto simp: suggestions_ok_def map_has_iff simp del: set_map)
  then have to: "suggestion_timeout k s = suggestion_reject k s" by (simp add: suggestion_timeout_def)
  obtain g where g: "map_get (is_suggestions s) k = Some g" using k(3) by (auto simp: map_has_def)
  have t: "open_ids ?t = open_ids s - {k}" "suggestions_ok ttl ?t" "did (snd (suggestion_timeout k s)) = [Sg_onReject g]"
    "\<And>j. j \<noteq> k \<Longrightarrow> map_get (is_suggestions ?t) j = map_get (is_suggestions s) j"
    using reject_verdicts(2)[OF Cons.prems(1), of k] suggestions_ok_reject[OF Cons.prems(1), of k]
    by (simp_all add: to suggestion_reject_def g Let_def)
  have "set ks \<subseteq> open_ids ?t" using Cons.prems(3,4) by (auto simp: t(1) simp del: set_map)
  note ih = Cons.IH[OF t(2) Cons.prems(2) _ this]
  have "map (\<lambda>j. Sg_onReject (the (map_get (is_suggestions ?t) j))) ks =
      map (\<lambda>j. Sg_onReject (the (map_get (is_suggestions s) j))) ks"
    using Cons.prems(3) by (intro map_cong refl) (metis t(4) distinct.simps(2))
  then show ?case
    using ih Cons.prems(3) t(1,3) g by (auto simp: run_Cons simp del: run.simps(2) set_map)
qed simp

text \<open>With a positive time to live no suggestion stays for ever: in every reachable state each listed
  suggestion has a pending timer, and when the pending timers run, in any order, the roster is empty
  and each suggestion has been rejected through one \<open>onReject\<close>.
\<close>

theorem suggestion_expires:
  assumes "0 < ttl" and "s = fst (run (suggestion_step ttl) xs createInlineSuggestionManager)"
    and "distinct ks" and "set ks = set (map_keys (is_ttlTimers s))"
  shows "suggestion_getAll (fst (run (suggestion_step ttl) (map Suggestion_timeout ks) s)) = [] \<and>
         did (snd (run (suggestion_step ttl) (map Suggestion_timeout ks) s)) =
           map (\<lambda>k. Sg_onReject (the (map_get (is_suggestions s) k))) ks \<and>
         set ks = ss_id ` set (suggestion_getAll s)"
proof -
  have ok: "suggestions_ok ttl s"
    unfolding assms(2) by (rule suggestion_component.run_inv[OF suggestions_ok_create]) simp
  then have ks: "set ks = open_ids s" using assms(1,4) by (simp only: suggestions_ok_def if_True)
  have r: "open_ids (fst (run (suggestion_step ttl) (map Suggestion_timeout ks) s)) = {}"
      "did (snd (run (suggestion_step ttl) (map Suggestion_timeout ks) s)) =
         map (\<lambda>k. Sg_onReject (the (map_get (is_suggestions s) k))) ks"
    using timeouts_reject[OF ok assms(1,3)] ks by simp_all
  have "set ks = ss_id ` set (suggestion_getAll s)"
    using ks ids_distinct[OF ok] unfolding suggestion_getAll_def by (metis list.set_map)
  then show ?thesis using r by (simp add: suggestion_getAll_def)
qed

definition demo_input :: "int \<Rightarrow> int \<Rightarrow> rat \<Rightarrow> suggestion_input" where
  "demo_input lo hi c = \<lparr>ss_agentId = ''a'', ss_agentName = ''Ada'', ss_agentColorSlot = 1,
     ss_range = \<lparr>rg_file = ''f'', rg_fromLine = lo, rg_toLine = hi\<rparr>, ss_before = [], ss_after = [],
     ss_rationale = None, ss_confidence = c\<rparr>"

definition demo_suggestions :: suggestions where
  "demo_suggestions = fst (run (suggestion_step 30000)
     [Suggestion_propose (demo_input 10 15 1) [], Suggestion_propose (demo_input 13 20 1) [],
      Suggestion_propose (demo_input 40 41 1) []] createInlineSuggestionManager)"

theorem suggestion_accept_exclusive_witness:
  "\<exists>g\<in>set (suggestion_getAll demo_suggestions). ss_id g = ''inline-suggestion-1'' \<and>
     suggestion_getAll (fst (suggestion_accept (ss_id g) demo_suggestions)) =
       filter (\<lambda>h. ss_id h \<noteq> ss_id g \<and> \<not> rangesOverlap (ss_range h) (ss_range g)) (suggestion_getAll demo_suggestions)"
proof -
  have "\<exists>g\<in>set (suggestion_getAll demo_suggestions). ss_id g = ''inline-suggestion-1''"
    by code_simp
  then obtain g where g: "g \<in> set (suggestion_getAll demo_suggestions)" "ss_id g = ''inline-suggestion-1''" by blast
  from suggestion_accept_exclusive[OF demo_suggestions_def g(1)] g show ?thesis by blast
qed

theorem suggestion_expires_witness:
  "suggestion_getAll (fst (run (suggestion_step 30000)
     (map Suggestion_timeout (map_keys (is_ttlTimers demo_suggestions))) demo_suggestions)) = [] \<and>
   length (map_keys (is_ttlTimers demo_suggestions)) = 3"
proof -
  have "length (map_keys (is_ttlTimers demo_suggestions)) = 3 \<and> distinct (map_keys (is_ttlTimers demo_suggestions))"
    by code_simp
  moreover have "(0::int) < 30000" by simp
  ultimately show ?thesis
    using suggestion_expires[OF _ demo_suggestions_def _ refl] by blast
qed

text \<open>A controller exists exactly for the listed suggestions: creating one for any other id throws an error
  that names the id. Once its suggestion is gone, the keys of a controller change nothing.\<close>

theorem suggestion_controller_error:
  "(createSuggestionController k s = Inl (''InlineSuggestion not found: '' @ k) \<longleftrightarrow> k \<notin> ss_id ` set (suggestion_getAll s)) \<and>
   (\<forall>g. createSuggestionController k s = Inr g \<longrightarrow> ss_id g = k \<and> g \<in> set (suggestion_getAll s)) \<and>
   (map_get (is_suggestions s) k = None \<longrightarrow> snd (suggestion_handleKeyDown k e s) = (s, []))"
proof (intro conjI)
  show "createSuggestionController k s = Inl (''InlineSuggestion not found: '' @ k) \<longleftrightarrow> k \<notin> ss_id ` set (suggestion_getAll s)"
  proof (cases "List.find (\<lambda>g. ss_id g = k) (suggestion_getAll s)")
    case None
    then have "k \<notin> ss_id ` set (suggestion_getAll s)" unfolding find_None_iff_all by blast
    then show ?thesis by (simp add: createSuggestionController_def None)
  next
    case (Some g)
    with find_Some_in[OF Some] show ?thesis by (auto simp: createSuggestionController_def)
  qed
  show "\<forall>g. createSuggestionController k s = Inr g \<longrightarrow> ss_id g = k \<and> g \<in> set (suggestion_getAll s)"
    by (auto simp: createSuggestionController_def dest: find_Some_in split: option.splits)
  show "map_get (is_suggestions s) k = None \<longrightarrow> snd (suggestion_handleKeyDown k e s) = (s, [])"
    by (simp add: suggestion_handleKeyDown_def suggestion_accept_eq suggestion_reject_def)
qed

theorem suggestion_controller_error_witness:
  "createSuggestionController ''x'' createInlineSuggestionManager = Inl ''InlineSuggestion not found: x'' \<and>
   snd (suggestion_handleKeyDown ''x'' \<lparr>sk_key = ''Tab'', sk_metaKey = False, sk_ctrlKey = False, sk_shiftKey = False,
     sk_altKey = False\<rparr> createInlineSuggestionManager) = (createInlineSuggestionManager, [])"
proof
  note err = suggestion_controller_error[of "''x''" createInlineSuggestionManager
      "\<lparr>sk_key = ''Tab'', sk_metaKey = False, sk_ctrlKey = False, sk_shiftKey = False, sk_altKey = False\<rparr>"]
  have none: "''x'' \<notin> ss_id ` set (suggestion_getAll createInlineSuggestionManager)"
    "map_get (is_suggestions createInlineSuggestionManager) ''x'' = None"
    by (simp_all add: suggestion_getAll_def createInlineSuggestionManager_def)
  show "createSuggestionController ''x'' createInlineSuggestionManager = Inl ''InlineSuggestion not found: x''"
    using err[THEN conjunct1, THEN iffD2, OF none(1)] by simp
  show "snd (suggestion_handleKeyDown ''x'' \<lparr>sk_key = ''Tab'', sk_metaKey = False, sk_ctrlKey = False, sk_shiftKey = False,
     sk_altKey = False\<rparr> createInlineSuggestionManager) = (createInlineSuggestionManager, [])"
    using err[THEN conjunct2, THEN conjunct2] none(2) by blast
qed

theorem suggestion_topAtLine_spec_witness:
  "case suggestion_topAtLine ''f'' 14 demo_suggestions of
     None \<Rightarrow> filter (covers ''f'' 14) (suggestion_getAll demo_suggestions) = []
   | Some b \<Rightarrow> b \<in> set (filter (covers ''f'' 14) (suggestion_getAll demo_suggestions))"
proof (cases "suggestion_topAtLine ''f'' 14 demo_suggestions")
  case None
  then show ?thesis using suggestion_topAtLine_spec[of "''f''" 14 demo_suggestions] by simp
next
  case (Some b)
  then obtain pre post where "filter (covers ''f'' 14) (suggestion_getAll demo_suggestions) = pre @ b # post"
    using suggestion_topAtLine_spec[of "''f''" 14 demo_suggestions] by auto
  then show ?thesis unfolding Some option.simps(5) by (simp only: set_append list.set insertI1 UnI2)
qed

end
