(* ===== verification/Suggestion_Callbacks.thy ===== *)
theory Suggestion_Callbacks
  imports Inline_Suggestion
begin

text \<open>
  The suggestion manager of \<open>headless-core/inline-suggestion.ts\<close> when its callbacks call it. \<open>accept\<close> and \<open>reject\<close> call
  \<open>onAccept\<close> and \<open>onReject\<close> in the middle of their work; what is left to do is a frame on a stack, and between the
  call of a callback and its return (\<open>Sg_return\<close>) any operation may run, to any depth. Timers fire only when no
  callback is running. Listeners of a file are told at the end of an operation, so a call they make comes after it.
  A callback that throws, and so leaves the rest of the work undone, is left out.
\<close>

section \<open>The machine\<close>

text \<open>Within the callback for an accepted suggestion, for a loser with the losers still to come, and for a rejected one.\<close>

datatype suggestion_frame = In_accept suggestion | In_losers "suggestion list" string | In_reject string

type_synonym suggestion_machine = "suggestions \<times> suggestion_frame list"

type_synonym machine_result = "suggestion_machine \<times> suggestions_event list"

definition suggestion_file :: "suggestion \<Rightarrow> string" where
  "suggestion_file g = rg_file (ss_range g)"

definition accept_begin :: "string \<Rightarrow> suggestions \<Rightarrow> machine_result" where
  "accept_begin k s =
     (case map_get (is_suggestions s) k of
        None \<Rightarrow> ((s, []), [])
      | Some g \<Rightarrow> ((suggestion_drop k s, [In_accept g]), [Did (Sg_onAccept g)]))"

definition reject_begin :: "string \<Rightarrow> suggestions \<Rightarrow> machine_result" where
  "reject_begin k s =
     (case map_get (is_suggestions s) k of
        None \<Rightarrow> ((s, []), [])
      | Some g \<Rightarrow> ((suggestion_drop k s, [In_reject (suggestion_file g)]), [Did (Sg_onReject g)]))"

text \<open>The turns of the loop over the losers, whose list is not looked at again.\<close>

fun next_loser :: "suggestion list \<Rightarrow> string \<Rightarrow> suggestions \<Rightarrow> machine_result" where
  "next_loser [] f s = ((s, []), suggestion_emitFile f s)"
| "next_loser (other # rest) f s = ((suggestion_drop (ss_id other) s, [In_losers rest f]), [Did (Sg_onReject other)])"

fun frame_continue :: "suggestion_frame \<Rightarrow> suggestions \<Rightarrow> machine_result" where
  "frame_continue (In_accept g) s = next_loser (overlapping g s) (suggestion_file g) s"
| "frame_continue (In_losers losers f) s = next_loser losers f s"
| "frame_continue (In_reject f) s = ((s, []), suggestion_emitFile f s)"

fun call_begin :: "int \<Rightarrow> suggestion_op \<Rightarrow> suggestions \<Rightarrow> machine_result" where
  "call_begin ttl (Suggestion_accept k) s = accept_begin k s"
| "call_begin ttl (Suggestion_reject k) s = reject_begin k s"
| "call_begin ttl (Suggestion_timeout k) s =
     (if map_has (is_ttlTimers s) k \<and> map_has (is_suggestions s) k then reject_begin k s else ((s, []), []))"
| "call_begin ttl op s = ((fst (suggestion_step ttl op s), []), snd (suggestion_step ttl op s))"

datatype machine_op = Sg_call suggestion_op | Sg_return

fun fires_timer :: "suggestion_op \<Rightarrow> bool" where
  "fires_timer (Suggestion_timeout k) = True"
| "fires_timer _ = False"

definition stacked :: "suggestion_frame list \<Rightarrow> machine_result \<Rightarrow> machine_result" where
  "stacked fs p = ((fst (fst p), snd (fst p) @ fs), snd p)"

fun machine_step :: "int \<Rightarrow> machine_op \<Rightarrow> suggestion_machine \<Rightarrow> machine_result" where
  "machine_step ttl (Sg_call op) (s, fs) =
     (if fires_timer op \<and> fs \<noteq> [] then ((s, fs), []) else stacked fs (call_begin ttl op s))"
| "machine_step ttl Sg_return (s, []) = ((s, []), [])"
| "machine_step ttl Sg_return (s, f # fs) = stacked fs (frame_continue f s)"

definition machine_init :: suggestion_machine where
  "machine_init = (createInlineSuggestionManager, [])"

section \<open>Callbacks that return at once\<close>

lemma run_returns:
  "run (machine_step ttl) (replicate (Suc (length gs)) Sg_return) (s, [In_losers gs f]) =
     (let (t, es) = reject_each gs s in ((t, []), es @ suggestion_emitFile f t))"
proof (induction gs arbitrary: s)
  case (Cons g gs)
  have "run (machine_step ttl) (replicate (Suc (length (g # gs))) Sg_return) (s, [In_losers (g # gs) f]) =
      after [Did (Sg_onReject g)] (run (machine_step ttl) (replicate (Suc (length gs)) Sg_return) (suggestion_drop (ss_id g) s, [In_losers gs f]))"
    by (simp add: run_Cons stacked_def after_def split_beta Let_def del: run.simps(2))
  then show ?case unfolding Cons.IH by (simp add: split_beta Let_def after_def)
qed (simp add: stacked_def)

text \<open>The machine does what the operations of \<open>Inline_Suggestion\<close> do when every callback returns without a call.\<close>

lemma machine_refines_step:
  "\<exists>n. run (machine_step ttl) (Sg_call op # replicate n Sg_return) (s, []) =
     ((fst (suggestion_step ttl op s), []), snd (suggestion_step ttl op s))"
proof -
  have nil: "run (machine_step ttl) [Sg_call op] (s, []) = ((fst (suggestion_step ttl op s), []), snd (suggestion_step ttl op s))"
    if "call_begin ttl op s = ((fst (suggestion_step ttl op s), []), snd (suggestion_step ttl op s))"
    using that by (simp add: stacked_def)
  have rej: "\<exists>n. run (machine_step ttl) (Sg_call op # replicate n Sg_return) (s, []) = ((fst (suggestion_reject k s), []), snd (suggestion_reject k s))"
    if "call_begin ttl op s = reject_begin k s" for k
  proof (cases "map_get (is_suggestions s) k")
    case None
    then show ?thesis
      using that by (intro exI[of _ 0]) (simp add: stacked_def reject_begin_def suggestion_reject_def)
  next
    case (Some g)
    then show ?thesis
      using that by (intro exI[of _ "Suc 0"]) (simp add: stacked_def reject_begin_def suggestion_reject_def suggestion_file_def Let_def)
  qed
  show ?thesis
  proof (cases op)
    case (Suggestion_accept k)
    show ?thesis
    proof (cases "map_get (is_suggestions s) k")
      case None
      then show ?thesis
        using Suggestion_accept by (intro exI[of _ 0]) (simp add: stacked_def accept_begin_def suggestion_accept_def)
    next
      case (Some g)
      let ?s = "suggestion_drop k s"
      let ?gs = "overlapping g ?s"
      have "machine_step ttl Sg_return (?s, [In_accept g]) = machine_step ttl Sg_return (?s, [In_losers ?gs (suggestion_file g)])"
        by simp
      then have same: "run (machine_step ttl) (replicate (Suc n) Sg_return) (?s, [In_accept g]) =
          run (machine_step ttl) (replicate (Suc n) Sg_return) (?s, [In_losers ?gs (suggestion_file g)])" for n
        by (simp add: run_Cons del: run.simps(2) machine_step.simps)
      have "run (machine_step ttl) (Sg_call op # replicate (Suc (length ?gs)) Sg_return) (s, []) =
          after [Did (Sg_onAccept g)] (run (machine_step ttl) (replicate (Suc (length ?gs)) Sg_return) (?s, [In_accept g]))"
        using Suggestion_accept Some
        by (simp add: run_Cons stacked_def accept_begin_def after_def split_beta Let_def del: run.simps(2) replicate.simps)
      then show ?thesis
        unfolding same run_returns using Suggestion_accept Some
        by (intro exI[of _ "Suc (length ?gs)"]) (simp add: suggestion_accept_def suggestion_file_def Let_def split_beta after_def and_then_def)
    qed
  next
    case (Suggestion_reject k)
    then show ?thesis using rej[of k] by simp
  next
    case (Suggestion_timeout k)
    show ?thesis
    proof (cases "map_has (is_ttlTimers s) k \<and> map_has (is_suggestions s) k")
      case True
      then show ?thesis using Suggestion_timeout rej[of k] by (simp add: suggestion_timeout_def)
    next
      case False
      then show ?thesis
        using Suggestion_timeout by (intro exI[of _ 0]) (auto simp: stacked_def suggestion_timeout_def)
    qed
  qed (use nil in \<open>auto intro!: exI[of _ 0] simp: stacked_def\<close>)
qed

section \<open>Verdicts\<close>

fun accepts_id :: "string \<Rightarrow> suggestion_effect \<Rightarrow> bool" where
  "accepts_id k (Sg_onAccept g) = (ss_id g = k)"
| "accepts_id k _ = False"

abbreviation accepts :: "string \<Rightarrow> suggestions_event list \<Rightarrow> suggestion_effect list" where
  "accepts k es \<equiv> filter (accepts_id k) (did es)"

text \<open>The ids that the open loops over losers will still report.\<close>

fun still_owed :: "suggestion_frame \<Rightarrow> string list" where
  "still_owed (In_losers gs f) = map ss_id gs"
| "still_owed _ = []"

abbreviation still_owed_all :: "suggestion_frame list \<Rightarrow> string set" where
  "still_owed_all fs \<equiv> \<Union>f\<in>set fs. set (still_owed f)"

definition upcoming :: "string \<Rightarrow> suggestions \<Rightarrow> bool" where
  "upcoming k s \<longleftrightarrow> (\<exists>n > issued s. k = suggestion_name n)"

definition machine_ok :: "int \<Rightarrow> suggestion_machine \<Rightarrow> bool" where
  "machine_ok ttl m \<longleftrightarrow> suggestions_ok ttl (fst m) \<and> still_owed_all (snd m) \<subseteq> suggestion_name ` {1..issued (fst m)}"

text \<open>What one step does to an id: its verdicts, and how it enters and leaves the roster.\<close>

definition fair :: "string \<Rightarrow> suggestion_machine \<Rightarrow> machine_result \<Rightarrow> bool" where
  "fair k m p \<longleftrightarrow>
     length (accepts k (snd p)) \<le> (if k \<in> open_ids (fst m) \<and> k \<notin> open_ids (fst (fst p)) then 1 else 0) \<and>
     (verdicts k (snd p) \<noteq> [] \<longrightarrow> (k \<in> open_ids (fst m) \<or> k \<in> still_owed_all (snd m)) \<and> k \<notin> open_ids (fst (fst p))) \<and>
     length (verdicts k (snd p)) \<le> 1 \<and>
     (k \<in> open_ids (fst (fst p)) \<and> k \<notin> open_ids (fst m) \<longrightarrow> upcoming k (fst m)) \<and>
     (k \<in> open_ids (fst (fst p)) \<longrightarrow> \<not> upcoming k (fst (fst p))) \<and>
     issued (fst m) \<le> issued (fst (fst p))"

lemma not_upcoming: "k \<in> suggestion_name ` {1..issued s} \<Longrightarrow> \<not> upcoming k s"
  by (auto simp: upcoming_def)

lemma open_not_upcoming: "suggestions_ok ttl s \<Longrightarrow> k \<in> open_ids s \<Longrightarrow> \<not> upcoming k s"
  by (rule not_upcoming) (auto simp only: suggestions_ok_def)

lemma drop_open: "open_ids (suggestion_drop j s) = open_ids s - {j}"
  by (simp add: image_keys_delete)

lemma overlapping_ids:
  assumes "suggestions_ok ttl s"
  shows "set (map ss_id (overlapping g s)) \<subseteq> open_ids s \<and> distinct (map ss_id (overlapping g s))"
proof -
  have "distinct (map ss_id (map_values (is_suggestions s)))"
    unfolding ids_distinct[OF assms] using assms by (simp add: suggestions_ok_def)
  then have "distinct (map ss_id (overlapping g s))" unfolding overlapping_def by (rule distinct_map_filter)
  moreover have "set (map ss_id (overlapping g s)) \<subseteq> set (map ss_id (map_values (is_suggestions s)))"
    by (auto simp: overlapping_def)
  ultimately show ?thesis
    unfolding ids_distinct[OF assms] by simp
qed

text \<open>The shapes of a step's first part, of which each is fair.\<close>

lemma fair_drop:
  assumes "suggestions_ok ttl s" and "ss_id g = j" and "e = Sg_onAccept g \<and> j \<in> open_ids s \<or> e = Sg_onReject g \<and> (j \<in> open_ids s \<or> j \<in> still_owed_all fs)"
  shows "fair k (s, fs) ((suggestion_drop j s, fs'), [Did e])"
proof -
  have i: "issued (suggestion_drop j s) = issued s" "upcoming k (suggestion_drop j s) = upcoming k s"
    by (simp_all add: upcoming_def)
  show ?thesis
    using assms open_not_upcoming[OF assms(1), of k] unfolding fair_def fst_conv snd_conv drop_open i by (auto simp del: set_map)
qed

lemma fair_quiet:
  assumes "suggestions_ok ttl s"
  shows "did es = [] \<Longrightarrow> fair k (s, fs) ((s, fs'), es)"
  using open_not_upcoming[OF assms, of k] by (simp add: fair_def)

lemma fair_plain:
  assumes ok: "suggestions_ok ttl s" and "\<forall>j. op \<noteq> Suggestion_accept j" "\<forall>j. op \<noteq> Suggestion_reject j" "\<forall>j. op \<noteq> Suggestion_timeout j"
  shows "fair k (s, fs) ((fst (suggestion_step ttl op s), fs'), snd (suggestion_step ttl op s))"
proof -
  let ?t = "fst (suggestion_step ttl op s)"
  have t: "suggestions_ok ttl ?t" by (rule suggestion_step_ok[OF ok])
  have "verdicts k (snd (suggestion_step ttl op s)) = []" "accepts k (snd (suggestion_step ttl op s)) = []"
    using assms by (cases op; simp add: suggestion_propose_def suggestion_retract_def Let_def split: option.split prod.split)+
  then show ?thesis
    using step_verdicts(2)[OF ok, of k op] step_verdicts(3)[OF ok, of op] open_not_upcoming[OF t, of k]
    by (auto simp: fair_def upcoming_def simp del: set_map)
qed

lemma drop_issued [simp]: "issued (suggestion_drop j s) = issued s"
  by simp

lemma reject_begin_fair:
  assumes ok: "suggestions_ok ttl s"
  shows "fair k (s, fs) (stacked fs (reject_begin j s)) \<and> suggestions_ok ttl (fst (fst (reject_begin j s))) \<and>
    still_owed_all (snd (fst (reject_begin j s))) = {} \<and> issued (fst (fst (reject_begin j s))) = issued s"
proof (cases "map_get (is_suggestions s) j")
  case None
  then show ?thesis using ok fair_quiet[OF ok, of "[]"] by (simp add: reject_begin_def stacked_def)
next
  case (Some g)
  note g = get_open[OF ok Some]
  have "fair k (s, fs) ((suggestion_drop j s, In_reject (suggestion_file g) # fs), [Did (Sg_onReject g)])"
    by (rule fair_drop[OF ok]) (use g in \<open>auto simp del: set_map\<close>)
  then show ?thesis using Some suggestions_ok_drop[OF ok] by (simp add: reject_begin_def stacked_def)
qed

lemma accept_begin_fair:
  assumes ok: "suggestions_ok ttl s"
  shows "fair k (s, fs) (stacked fs (accept_begin j s)) \<and> suggestions_ok ttl (fst (fst (accept_begin j s))) \<and>
    still_owed_all (snd (fst (accept_begin j s))) = {} \<and> issued (fst (fst (accept_begin j s))) = issued s"
proof (cases "map_get (is_suggestions s) j")
  case None
  then show ?thesis using ok fair_quiet[OF ok, of "[]"] by (simp add: accept_begin_def stacked_def)
next
  case (Some g)
  note g = get_open[OF ok Some]
  have "fair k (s, fs) ((suggestion_drop j s, In_accept g # fs), [Did (Sg_onAccept g)])"
    by (rule fair_drop[OF ok]) (use g in \<open>auto simp del: set_map\<close>)
  then show ?thesis using Some suggestions_ok_drop[OF ok] by (simp add: accept_begin_def stacked_def)
qed

lemma call_begin_fair:
  assumes ok: "suggestions_ok ttl s"
  shows "fair k (s, fs) (stacked fs (call_begin ttl op s)) \<and> suggestions_ok ttl (fst (fst (call_begin ttl op s))) \<and>
    still_owed_all (snd (fst (call_begin ttl op s))) = {} \<and> issued s \<le> issued (fst (fst (call_begin ttl op s)))"
proof (cases op)
  case (Suggestion_accept j)
  then show ?thesis using accept_begin_fair[OF ok, of k fs j] by simp
next
  case (Suggestion_reject j)
  then show ?thesis using reject_begin_fair[OF ok, of k fs j] by simp
next
  case (Suggestion_timeout j)
  then show ?thesis
    using reject_begin_fair[OF ok, of k fs j] ok fair_quiet[OF ok, of "[]" k fs fs] by (simp add: stacked_def)
qed (use fair_plain[OF ok, of op k fs fs] suggestion_step_ok[OF ok, of op] step_verdicts(3)[OF ok, of op] in
    \<open>auto simp: stacked_def simp del: suggestion_step.simps\<close>)

text \<open>A turn of the loop over losers that are still_owed, or are listed as it begins.\<close>

lemma next_loser_fair:
  assumes ok: "suggestions_ok ttl s" and "set (map ss_id gs) \<subseteq> open_ids s \<or> set (map ss_id gs) \<subseteq> still_owed_all fs"
  shows "fair k (s, fs) (stacked fs' (next_loser gs f s)) \<and> suggestions_ok ttl (fst (fst (next_loser gs f s))) \<and>
    still_owed_all (snd (fst (next_loser gs f s))) \<subseteq> set (map ss_id gs) \<and> issued (fst (fst (next_loser gs f s))) = issued s"
proof (cases gs)
  case Nil
  then show ?thesis using ok fair_quiet[OF ok, of "suggestion_emitFile f s"] by (simp add: stacked_def)
next
  case (Cons g rest)
  have "fair k (s, fs) ((suggestion_drop (ss_id g) s, In_losers rest f # fs'), [Did (Sg_onReject g)])"
    by (rule fair_drop[OF ok]) (use assms(2) in \<open>auto simp: Cons simp del: set_map\<close>)
  then show ?thesis using Cons suggestions_ok_drop[OF ok] by (auto simp: stacked_def)
qed

lemma machine_step_fair:
  assumes "machine_ok ttl m"
  shows "fair k m (machine_step ttl x m) \<and> machine_ok ttl (fst (machine_step ttl x m))"
proof -
  obtain s fs where m: "m = (s, fs)" by fastforce
  have ok: "suggestions_ok ttl s" and still_owed: "still_owed_all fs \<subseteq> suggestion_name ` {1..issued s}"
    using assms by (simp_all add: m machine_ok_def)
  have grow: "still_owed_all fs \<subseteq> suggestion_name ` {1..n}" if "issued s \<le> n" for n
    using still_owed that by (meson atLeastatMost_subset_iff image_mono order_refl order_trans)
  have still: "fair k m (m, []) \<and> machine_ok ttl m" using assms fair_quiet[OF ok, of "[]"] by (simp add: m)
  show ?thesis
  proof (cases x)
    case (Sg_call op)
    then show ?thesis
      using call_begin_fair[OF ok, of k fs op] still grow
      by (auto simp: m machine_ok_def stacked_def simp del: call_begin.simps)
  next
    case Sg_return
    show ?thesis
    proof (cases fs)
      case Nil
      then show ?thesis using still Sg_return by (simp add: m)
    next
      case (Cons fr rest)
      have names: "open_ids s \<subseteq> suggestion_name ` {1..issued s}" using ok by (simp only: suggestions_ok_def)
      have loop: "fair k m (stacked rest (next_loser gs f s)) \<and> machine_ok ttl (fst (stacked rest (next_loser gs f s)))"
        if gs: "set (map ss_id gs) \<subseteq> open_ids s \<or> set (map ss_id gs) \<subseteq> set (still_owed fr)" for gs f
      proof -
        have "set (map ss_id gs) \<subseteq> open_ids s \<or> set (map ss_id gs) \<subseteq> still_owed_all fs" using gs Cons by (auto simp del: set_map)
        note n = next_loser_fair[OF ok this, of k rest f]
        have fr: "set (still_owed fr) \<subseteq> suggestion_name ` {1..issued s}" and rest: "still_owed_all rest \<subseteq> suggestion_name ` {1..issued s}"
          using still_owed by (simp_all add: Cons)
        have "set (map ss_id gs) \<subseteq> suggestion_name ` {1..issued s}"
          using gs fr names by (blast intro: order_trans)
        then have new: "still_owed_all (snd (fst (next_loser gs f s))) \<subseteq> suggestion_name ` {1..issued s}"
          using n by (blast intro: order_trans)
        have "still_owed_all (snd (fst (next_loser gs f s)) @ rest) \<subseteq> suggestion_name ` {1..issued s}"
          using new rest unfolding set_append by blast
        then show ?thesis using n by (simp add: m machine_ok_def stacked_def del: set_append set_map)
      qed
      show ?thesis
      proof (cases fr)
        case (In_accept g)
        then show ?thesis using loop[of "overlapping g s" "suggestion_file g"] overlapping_ids[OF ok, of g] Cons Sg_return by (simp add: m del: set_map)
      next
        case (In_losers gs f)
        then show ?thesis using loop[of gs f] Cons Sg_return by (simp add: m del: set_map)
      next
        case (In_reject f)
        then show ?thesis using loop[of "[]" f] Cons Sg_return by (simp add: m)
      qed
    qed
  qed
qed

text \<open>Along every run.\<close>

lemma runs_of_machine:
  "machine_ok ttl (fst (run (machine_step ttl) xs machine_init)) \<and>
   length (accepts k (snd (run (machine_step ttl) xs machine_init))) \<le>
     (if k \<in> open_ids (fst (fst (run (machine_step ttl) xs machine_init))) \<or> upcoming k (fst (fst (run (machine_step ttl) xs machine_init))) then 0 else 1) \<and>
   (k \<in> open_ids (fst (fst (run (machine_step ttl) xs machine_init))) \<or> upcoming k (fst (fst (run (machine_step ttl) xs machine_init))) \<longrightarrow>
     verdicts k (snd (run (machine_step ttl) xs machine_init)) = [])"
proof (induction xs rule: rev_induct)
  case Nil
  show ?case by (simp add: machine_init_def machine_ok_def suggestions_ok_create)
next
  case (snoc x xs)
  let ?r = "run (machine_step ttl) xs machine_init"
  let ?p = "machine_step ttl x (fst ?r)"
  note st = machine_step_fair[OF conjunct1[OF snoc], of k x]
  have f: "fair k (fst ?r) ?p" "machine_ok ttl (fst ?p)" using st by blast+
  have ok: "suggestions_ok ttl (fst (fst ?r))" and still_owed: "still_owed_all (snd (fst ?r)) \<subseteq> suggestion_name ` {1..issued (fst (fst ?r))}"
    using snoc by (simp_all add: machine_ok_def)
  have known: "\<not> upcoming k (fst (fst ?r))" if "k \<in> open_ids (fst (fst ?r)) \<or> k \<in> still_owed_all (snd (fst ?r))"
    using that open_not_upcoming[OF ok] not_upcoming still_owed by blast
  have later: "upcoming k (fst (fst ?r))" if "upcoming k (fst (fst ?p))"
    using that f(1) by (auto simp: fair_def upcoming_def intro: le_less_trans)
  have count: "a + b \<le> (if P' \<or> Q' then 0 else 1)"
    if "a \<le> (if P \<or> Q then 0 else 1)" "b \<le> (if P \<and> \<not> P' then 1 else 0)" "P \<Longrightarrow> \<not> Q" "Q' \<Longrightarrow> Q" "P' \<and> \<not> P \<Longrightarrow> Q"
    for a b :: nat and P P' Q Q' :: bool
    using that by (cases P; cases P'; cases Q; cases Q') auto
  have "length (accepts k (snd ?r)) + length (accepts k (snd ?p)) \<le>
      (if k \<in> open_ids (fst (fst ?p)) \<or> upcoming k (fst (fst ?p)) then 0 else 1)"
    by (rule count[OF _ _ _ later, of _ "k \<in> open_ids (fst (fst ?r))"]) (use snoc f(1) known in \<open>auto simp: fair_def simp del: set_map\<close>)
  moreover have "verdicts k (snd ?r) = [] \<and> verdicts k (snd ?p) = []"
    if "k \<in> open_ids (fst (fst ?p)) \<or> upcoming k (fst (fst ?p))"
    using that snoc f(1) known later unfolding fair_def by blast
  ultimately show ?case
    using f(2) by (simp add: run_append split_beta Let_def del: machine_step.simps set_map)
qed

section \<open>Calls from outside the callbacks\<close>

fun verdict_call :: "machine_op \<Rightarrow> bool" where
  "verdict_call (Sg_call (Suggestion_accept k)) = True"
| "verdict_call (Sg_call (Suggestion_reject k)) = True"
| "verdict_call _ = False"

text \<open>In this run no callback accepts or rejects; it may still propose, retract and subscribe.\<close>

fun from_outside :: "int \<Rightarrow> machine_op list \<Rightarrow> suggestion_machine \<Rightarrow> bool" where
  "from_outside ttl [] m \<longleftrightarrow> True"
| "from_outside ttl (x # xs) m \<longleftrightarrow> \<not> (verdict_call x \<and> snd m \<noteq> []) \<and> from_outside ttl xs (fst (machine_step ttl x m))"

lemma from_outside_append:
  "from_outside ttl (xs @ ys) m \<longleftrightarrow> from_outside ttl xs m \<and> from_outside ttl ys (fst (run (machine_step ttl) xs m))"
  by (induction xs arbitrary: m) (simp_all add: run_Cons del: run.simps(2) machine_step.simps)

definition one_frame :: "suggestion_frame list \<Rightarrow> bool" where
  "one_frame fs \<longleftrightarrow> length fs \<le> 1 \<and> distinct (concat (map still_owed fs))"

lemma next_loser_alone:
  "distinct (map ss_id gs) \<Longrightarrow>
   one_frame (snd (fst (next_loser gs f s))) \<and> still_owed_all (snd (fst (next_loser gs f s))) \<subseteq> set (map ss_id gs) \<and>
   (verdicts k (snd (next_loser gs f s)) \<noteq> [] \<longrightarrow> k \<notin> still_owed_all (snd (fst (next_loser gs f s))))"
  by (cases gs) (auto simp: one_frame_def)

lemma call_begin_alone:
  "(\<not> verdict_call (Sg_call op) \<and> \<not> fires_timer op \<longrightarrow> snd (fst (call_begin ttl op s)) = [] \<and> verdicts k (snd (call_begin ttl op s)) = []) \<and>
   one_frame (snd (fst (call_begin ttl op s))) \<and> still_owed_all (snd (fst (call_begin ttl op s))) = {}"
  by (cases op) (auto simp: one_frame_def accept_begin_def reject_begin_def suggestion_propose_def suggestion_retract_def Let_def
      split: option.split prod.split)

lemma machine_step_alone:
  assumes "machine_ok ttl (s, fs)" and "one_frame fs" and "\<not> (verdict_call x \<and> fs \<noteq> [])"
  shows "case machine_step ttl x (s, fs) of ((t, fs'), es) \<Rightarrow>
    one_frame fs' \<and> still_owed_all fs' \<subseteq> still_owed_all fs \<union> open_ids s \<and> (verdicts k es \<noteq> [] \<longrightarrow> k \<notin> still_owed_all fs')"
proof (cases x)
  case (Sg_call op)
  then show ?thesis
    using assms(2,3) call_begin_alone[of op ttl s k]
    by (cases "fs = []") (auto simp: stacked_def split_beta simp del: call_begin.simps)
next
  case Sg_return
  have ok: "suggestions_ok ttl s" using assms(1) by (simp add: machine_ok_def)
  show ?thesis
  proof (cases fs)
    case (Cons fr rest)
    then have rest: "rest = []" and d: "distinct (still_owed fr)" using assms(2) by (simp_all add: one_frame_def)
    have loop: "case next_loser gs f s of ((t, fs'), es) \<Rightarrow>
        one_frame fs' \<and> still_owed_all fs' \<subseteq> set (still_owed fr) \<union> open_ids s \<and> (verdicts k es \<noteq> [] \<longrightarrow> k \<notin> still_owed_all fs')"
      if "distinct (map ss_id gs)" "set (map ss_id gs) \<subseteq> set (still_owed fr) \<union> open_ids s" for gs f
      using next_loser_alone[OF that(1), of f s k] that(2) by (auto simp: split_beta simp del: set_map)
    show ?thesis
    proof (cases fr)
      case (In_accept g)
      then show ?thesis
        using loop[of "overlapping g s" "suggestion_file g"] overlapping_ids[OF ok, of g] Sg_return Cons rest
        by (simp add: stacked_def split_beta del: set_map)
    next
      case (In_losers gs f)
      then show ?thesis using loop[of gs f] d Sg_return Cons rest by (simp add: stacked_def split_beta del: set_map)
    next
      case (In_reject f)
      then show ?thesis using Sg_return Cons rest by (simp add: stacked_def one_frame_def)
    qed
  qed (use Sg_return in \<open>simp add: one_frame_def\<close>)
qed

lemma runs_from_outside:
  "from_outside ttl xs machine_init \<Longrightarrow>
   one_frame (snd (fst (run (machine_step ttl) xs machine_init))) \<and>
   length (verdicts k (snd (run (machine_step ttl) xs machine_init))) \<le>
     (if k \<in> open_ids (fst (fst (run (machine_step ttl) xs machine_init))) \<or> upcoming k (fst (fst (run (machine_step ttl) xs machine_init))) \<or>
         k \<in> still_owed_all (snd (fst (run (machine_step ttl) xs machine_init))) then 0 else 1)"
proof (induction xs rule: rev_induct)
  case Nil
  show ?case by (simp add: machine_init_def one_frame_def)
next
  case (snoc x xs)
  let ?r = "run (machine_step ttl) xs machine_init"
  obtain s fs es where r: "?r = ((s, fs), es)" by (metis prod.exhaust)
  obtain t fs' es' where p: "machine_step ttl x (s, fs) = ((t, fs'), es')" by (metis prod.exhaust)
  have ok: "machine_ok ttl (s, fs)" using runs_of_machine[of ttl xs] by (simp add: r)
  have prem: "from_outside ttl xs machine_init" "\<not> (verdict_call x \<and> fs \<noteq> [])"
    using snoc.prems by (simp_all add: from_outside_append r)
  have ih: "one_frame fs" "length (verdicts k es) \<le> (if k \<in> open_ids s \<or> upcoming k s \<or> k \<in> still_owed_all fs then 0 else 1)"
    using snoc.IH[OF prem(1)] unfolding r fst_conv snd_conv by blast+
  have f: "fair k (s, fs) ((t, fs'), es')" "machine_ok ttl (t, fs')" using machine_step_fair[OF ok, of k x] by (simp_all add: p)
  have a: "one_frame fs'" "still_owed_all fs' \<subseteq> still_owed_all fs \<union> open_ids s" "verdicts k es' \<noteq> [] \<Longrightarrow> k \<notin> still_owed_all fs'"
    using machine_step_alone[OF ok ih(1) prem(2), of k] unfolding p prod.case by blast+
  have later: "upcoming k s" if "upcoming k t"
    using that f(1) by (auto simp: fair_def upcoming_def intro: le_less_trans)
  have known: "\<not> upcoming k s" if "k \<in> open_ids s \<or> k \<in> still_owed_all fs"
    using that ok open_not_upcoming[of ttl s k] not_upcoming[of k s] by (auto simp: machine_ok_def simp del: set_map)
  have "length (verdicts k es) + length (verdicts k es') \<le> (if k \<in> open_ids t \<or> upcoming k t \<or> k \<in> still_owed_all fs' then 0 else 1)"
  proof (cases "verdicts k es' = []")
    case True
    have "k \<in> open_ids s \<or> upcoming k s \<or> k \<in> still_owed_all fs" if "k \<in> open_ids t \<or> upcoming k t \<or> k \<in> still_owed_all fs'"
      using that a(2) later f(1) unfolding fair_def fst_conv snd_conv by blast
    then show ?thesis using ih(2) True by (auto split: if_splits simp del: set_map)
  next
    case False
    then have k: "k \<in> open_ids s \<or> k \<in> still_owed_all fs" "k \<notin> open_ids t" "length (verdicts k es') \<le> 1"
      using f(1) unfolding fair_def fst_conv snd_conv by blast+
    then have "length (verdicts k es) = 0" using ih(2) by (auto split: if_splits simp del: set_map)
    moreover have "\<not> upcoming k t" using k(1) known later by blast
    ultimately show ?thesis using k a(3)[OF False] by (simp del: set_map)
  qed
  then show ?case using a(1) by (simp add: run_append r p del: machine_step.simps set_map)
qed

text \<open>C16: Verdicts on proposals, with callbacks that may call the manager at any depth. Along every run, accepted or rejected
  by hand, by a competing accept or by its timer: a suggestion is reported through \<open>onAccept\<close> at most once; while it is
  listed it has not been reported at all; and if no callback itself accepts or rejects (it may propose, retract and
  subscribe), a suggestion is reported at most once through \<open>onAccept\<close> and \<open>onReject\<close> together. Without that
  condition it may be reported again: the losers of an accept are collected before the first of them is reported and not
  looked up again, see \<open>loser_reported_twice\<close>.\<close>

theorem suggestion_single_verdict:
  "case run (machine_step ttl) xs machine_init of ((s, fs), es) \<Rightarrow>
     length (accepts k es) \<le> 1 \<and>
     (k \<in> ss_id ` set (suggestion_getAll s) \<longrightarrow> verdicts k es = []) \<and>
     (from_outside ttl xs machine_init \<longrightarrow> length (verdicts k es) \<le> 1)"
proof -
  obtain s fs es where r: "run (machine_step ttl) xs machine_init = ((s, fs), es)" by (metis prod.exhaust)
  have a: "machine_ok ttl (s, fs)" "length (accepts k es) \<le> 1" "k \<in> open_ids s \<Longrightarrow> verdicts k es = []"
    using runs_of_machine[of ttl xs k] unfolding r fst_conv snd_conv by (auto split: if_splits simp del: set_map)
  have b: "from_outside ttl xs machine_init \<Longrightarrow> length (verdicts k es) \<le> 1"
    using runs_from_outside[of ttl xs k] unfolding r fst_conv snd_conv by (auto split: if_splits simp del: set_map)
  have ok: "suggestions_ok ttl s" using a(1) by (simp add: machine_ok_def)
  have "ss_id ` set (suggestion_getAll s) = open_ids s"
    using ids_distinct[OF ok] unfolding suggestion_getAll_def by (metis list.set_map)
  then show ?thesis using a b by (simp add: r del: set_map)
qed

definition two_overlapping :: "machine_op list" where
  "two_overlapping =
     [Sg_call (Suggestion_propose (demo_input 10 15 1) []), Sg_call (Suggestion_propose (demo_input 13 20 1) []),
      Sg_call (Suggestion_propose (demo_input 14 21 1) []), Sg_call (Suggestion_accept ''inline-suggestion-1'')]"

lemma suggestion_single_verdict_witness:
  "from_outside 0 (two_overlapping @ [Sg_return, Sg_return, Sg_return]) machine_init \<and>
   length (verdicts ''inline-suggestion-3'' (snd (run (machine_step 0) (two_overlapping @ [Sg_return, Sg_return, Sg_return]) machine_init))) \<le> 1"
proof -
  let ?xs = "two_overlapping @ [Sg_return, Sg_return, Sg_return]"
  have f: "from_outside 0 ?xs machine_init" by code_simp
  have "case run (machine_step 0) ?xs machine_init of ((s, fs), es) \<Rightarrow> length (verdicts ''inline-suggestion-3'' es) \<le> 1"
    using suggestion_single_verdict[where k = "''inline-suggestion-3''" and ttl = 0 and xs = ?xs] f
    by (cases "run (machine_step 0) ?xs machine_init") auto
  then show ?thesis using f by (simp add: split_beta del: run.simps(2))
qed

text \<open>The callback for the first loser rejects the second, which is then reported again.\<close>

lemma loser_reported_twice:
  "map (\<lambda>k. length (verdicts k (snd (run (machine_step 0)
       (two_overlapping @ [Sg_return, Sg_call (Suggestion_reject ''inline-suggestion-3''), Sg_return, Sg_return, Sg_return]) machine_init))))
     [''inline-suggestion-1'', ''inline-suggestion-2'', ''inline-suggestion-3''] = [1, 1, 2]"
  by code_simp

end
