(* ===== verification/Tooltip.thy ===== *)
theory Tooltip
  imports Prelude Contracts
begin

text \<open>
  \<open>headless-core/tooltip.ts\<close> and \<open>headless-core/tooltip-manager.ts\<close>: tooltips that share one manager.
  The two call each other (\<open>setOpen\<close> notifies the manager, which hides the tooltip that was open), so
  the state is the manager together with its tooltips, addressed by their position: the object
  identity of the controllers. \<open>Date.now()\<close> is an argument of the calls that may read it, and the timers
  are pending flags with their timeouts as operations.
\<close>

section \<open>Data\<close>

datatype tooltip_placement = Tip_top | Tip_bottom | Tip_left | Tip_right

record tooltip_options =
  tio_showDelay :: "int option"
  tio_hideDelay :: "int option"
  tio_placement :: "tooltip_placement option"
  tio_id :: string
  tio_manager :: bool
  tio_open :: "bool option"

record tooltip =
  tip_opts :: tooltip_options
  tip_isOpen :: bool
  tip_showTimer :: bool
  tip_hideTimer :: bool
  tip_listeners :: "listener jsset"

record tooltip_close =
  tce_id :: string
  tce_skip :: bool

record tooltip_manager =
  tim_active :: "nat option"
  tim_lastCloseAt :: int
  tim_closeListeners :: "listener jsset"

record tips =
  ts_tips :: "tooltip list"
  ts_manager :: tooltip_manager

text \<open>A close listener gets \<open>Tip_closed\<close>; \<open>Did\<close> is the option \<open>onOpenChange\<close> or \<open>preventDefault\<close>.\<close>

datatype tooltip_view = Tip_open bool | Tip_closed tooltip_close

datatype tooltip_effect = Tip_onOpenChange nat bool | Tip_preventDefault

type_synonym tooltip_event = "(tooltip_view, tooltip_effect) event"

definition DEFAULT_SHOW_DELAY_MS :: int where
  "DEFAULT_SHOW_DELAY_MS = 300"

definition DEFAULT_HIDE_DELAY_MS :: int where
  "DEFAULT_HIDE_DELAY_MS = 0"

definition DEFAULT_SKIP_WINDOW_MS :: int where
  "DEFAULT_SKIP_WINDOW_MS = 100"

section \<open>Access\<close>

abbreviation tip :: "tips \<Rightarrow> nat \<Rightarrow> tooltip" where
  "tip s i \<equiv> ts_tips s ! i"

definition upd_tip :: "nat \<Rightarrow> (tooltip \<Rightarrow> tooltip) \<Rightarrow> tips \<Rightarrow> tips" where
  "upd_tip i f s = s\<lparr>ts_tips := (ts_tips s)[i := f (tip s i)]\<rparr>"

definition upd_mgr :: "(tooltip_manager \<Rightarrow> tooltip_manager) \<Rightarrow> tips \<Rightarrow> tips" where
  "upd_mgr f s = s\<lparr>ts_manager := f (ts_manager s)\<rparr>"

definition tip_showDelay :: "tooltip \<Rightarrow> int" where
  "tip_showDelay t = (case tio_showDelay (tip_opts t) of None \<Rightarrow> DEFAULT_SHOW_DELAY_MS | Some d \<Rightarrow> d)"

definition tip_hideDelay :: "tooltip \<Rightarrow> int" where
  "tip_hideDelay t = (case tio_hideDelay (tip_opts t) of None \<Rightarrow> DEFAULT_HIDE_DELAY_MS | Some d \<Rightarrow> d)"

definition tip_controlled :: "tooltip \<Rightarrow> bool" where
  "tip_controlled t \<longleftrightarrow> tio_open (tip_opts t) \<noteq> None"

section \<open>The manager and the tooltips\<close>

definition emitClose :: "string \<Rightarrow> bool \<Rightarrow> tips \<Rightarrow> tooltip_event list" where
  "emitClose k skip s = emit_to (tim_closeListeners (ts_manager s)) (Tip_closed \<lparr>tce_id = k, tce_skip = skip\<rparr>)"

definition notifyClosed :: "int \<Rightarrow> nat \<Rightarrow> tips \<Rightarrow> tips \<times> tooltip_event list" where
  "notifyClosed now i s =
     (if tim_active (ts_manager s) = Some i
      then (upd_mgr (\<lambda>m. m\<lparr>tim_active := None, tim_lastCloseAt := now\<rparr>) s, emitClose (tio_id (tip_opts (tip s i))) False s)
      else (s, []))"

definition tip_broadcast :: "nat \<Rightarrow> bool \<Rightarrow> tips \<Rightarrow> tooltip_event list" where
  "tip_broadcast i b s = emit_to (tip_listeners (tip s i)) (Tip_open b) @ [Did (Tip_onOpenChange i b)]"

definition clearShowTimer :: "nat \<Rightarrow> tips \<Rightarrow> tips" where
  "clearShowTimer i = upd_tip i (\<lambda>t. t\<lparr>tip_showTimer := False\<rparr>)"

definition clearHideTimer :: "nat \<Rightarrow> tips \<Rightarrow> tips" where
  "clearHideTimer i = upd_tip i (\<lambda>t. t\<lparr>tip_hideTimer := False\<rparr>)"

text \<open>\<open>setOpen(false)\<close>, that is \<open>hideNow\<close>.\<close>

definition tip_hideNow :: "int \<Rightarrow> nat \<Rightarrow> tips \<Rightarrow> tips \<times> tooltip_event list" where
  "tip_hideNow now i s =
     (if tip_controlled (tip s i) then (s, if tip_isOpen (tip s i) then tip_broadcast i False s else [])
      else if \<not> tip_isOpen (tip s i) then (s, [])
      else
        (let s1 = upd_tip i (\<lambda>t. t\<lparr>tip_isOpen := False\<rparr>) s;
             (s2, es) = (if tio_manager (tip_opts (tip s1 i)) then notifyClosed now i s1 else (s1, []))
         in (s2, es @ tip_broadcast i False s2)))"

definition tip_hide :: "int \<Rightarrow> nat \<Rightarrow> tips \<Rightarrow> tips \<times> tooltip_event list" where
  "tip_hide now i s = tip_hideNow now i (clearHideTimer i (clearShowTimer i s))"

definition notifyOpened :: "int \<Rightarrow> int \<Rightarrow> nat \<Rightarrow> tips \<Rightarrow> tips \<times> tooltip_event list" where
  "notifyOpened skipWindowMs now i s =
     (let (s1, es) =
        (case tim_active (ts_manager s) of
           None \<Rightarrow> (s, [])
         | Some prior \<Rightarrow>
             if prior = i then (s, [])
             else
               (let skip = (now - tim_lastCloseAt (ts_manager s) \<le> skipWindowMs);
                    (s', es') = tip_hide now prior s
                in (s', es' @ (if skip then emitClose (tio_id (tip_opts (tip s' prior))) True s' else []))))
      in (upd_mgr (\<lambda>m. m\<lparr>tim_active := Some i\<rparr>) s1, es))"

text \<open>\<open>setOpen(true)\<close>, that is \<open>showNow\<close>.\<close>

definition tip_showNow :: "int \<Rightarrow> int \<Rightarrow> nat \<Rightarrow> tips \<Rightarrow> tips \<times> tooltip_event list" where
  "tip_showNow w now i s =
     (if tip_controlled (tip s i) then (s, if \<not> tip_isOpen (tip s i) then tip_broadcast i True s else [])
      else if tip_isOpen (tip s i) then (s, [])
      else
        (let s1 = upd_tip i (\<lambda>t. t\<lparr>tip_isOpen := True\<rparr>) s;
             (s2, es) = (if tio_manager (tip_opts (tip s1 i)) then notifyOpened w now i s1 else (s1, []))
         in (s2, es @ tip_broadcast i (tip_isOpen (tip s2 i)) s2)))"

definition startShowTimer :: "int \<Rightarrow> int \<Rightarrow> nat \<Rightarrow> tips \<Rightarrow> tips \<times> tooltip_event list" where
  "startShowTimer w now i s =
     (let s1 = clearHideTimer i s in
      if tip_isOpen (tip s1 i) \<or> tip_showTimer (tip s1 i) then (s1, [])
      else if tip_showDelay (tip s1 i) \<le> 0 then tip_showNow w now i s1
      else (upd_tip i (\<lambda>t. t\<lparr>tip_showTimer := True\<rparr>) s1, []))"

definition startHideTimer :: "int \<Rightarrow> nat \<Rightarrow> tips \<Rightarrow> tips \<times> tooltip_event list" where
  "startHideTimer now i s =
     (let s1 = clearShowTimer i s in
      if \<not> tip_isOpen (tip s1 i) \<or> tip_hideTimer (tip s1 i) then (s1, [])
      else if tip_hideDelay (tip s1 i) \<le> 0 then tip_hideNow now i s1
      else (upd_tip i (\<lambda>t. t\<lparr>tip_hideTimer := True\<rparr>) s1, []))"

definition tip_showTimeout :: "int \<Rightarrow> int \<Rightarrow> nat \<Rightarrow> tips \<Rightarrow> tips \<times> tooltip_event list" where
  "tip_showTimeout w now i s =
     (if tip_showTimer (tip s i) then tip_showNow w now i (clearShowTimer i s) else (s, []))"

definition tip_hideTimeout :: "int \<Rightarrow> nat \<Rightarrow> tips \<Rightarrow> tips \<times> tooltip_event list" where
  "tip_hideTimeout now i s =
     (if tip_hideTimer (tip s i) then tip_hideNow now i (clearHideTimer i s) else (s, []))"

definition tip_show :: "int \<Rightarrow> int \<Rightarrow> nat \<Rightarrow> tips \<Rightarrow> tips \<times> tooltip_event list" where
  "tip_show w now i s = tip_showNow w now i (clearHideTimer i (clearShowTimer i s))"

definition tip_handleTriggerKeyDown :: "int \<Rightarrow> string \<Rightarrow> nat \<Rightarrow> tips \<Rightarrow> tips \<times> tooltip_event list" where
  "tip_handleTriggerKeyDown now key i s =
     (if key = ''Escape'' \<and> tip_isOpen (tip s i) then after [Did Tip_preventDefault] (tip_hide now i s) else (s, []))"

definition tip_destroy :: "int \<Rightarrow> nat \<Rightarrow> tips \<Rightarrow> tips \<times> tooltip_event list" where
  "tip_destroy now i s =
     (let s1 = clearHideTimer i (clearShowTimer i s);
          (s2, es) = (if tip_isOpen (tip s1 i)
                      then (let t = upd_tip i (\<lambda>t. t\<lparr>tip_isOpen := False\<rparr>) s1 in (t, tip_broadcast i False t)) else (s1, []));
          s3 = upd_tip i (\<lambda>t. t\<lparr>tip_listeners := []\<rparr>) s2;
          (s4, es') = (if tio_manager (tip_opts (tip s3 i)) then notifyClosed now i s3 else (s3, []))
      in (s4, es @ es'))"

definition closeAll :: "int \<Rightarrow> tips \<Rightarrow> tips \<times> tooltip_event list" where
  "closeAll now s =
     (case tim_active (ts_manager s) of
        None \<Rightarrow> (s, [])
      | Some prior \<Rightarrow> tip_hide now prior (upd_mgr (\<lambda>m. m\<lparr>tim_active := None\<rparr>) s))"

definition createTooltipManager :: tooltip_manager where
  "createTooltipManager = \<lparr>tim_active = None, tim_lastCloseAt = 0, tim_closeListeners = []\<rparr>"

definition no_tips :: tips where
  "no_tips = \<lparr>ts_tips = [], ts_manager = createTooltipManager\<rparr>"

definition new_tooltip :: "tooltip_options \<Rightarrow> tooltip" where
  "new_tooltip opts = \<lparr>tip_opts = opts, tip_isOpen = (tio_open opts = Some True), tip_showTimer = False,
     tip_hideTimer = False, tip_listeners = []\<rparr>"

definition createTooltip :: "int \<Rightarrow> int \<Rightarrow> tooltip_options \<Rightarrow> tips \<Rightarrow> tips \<times> tooltip_event list" where
  "createTooltip w now opts s =
     (let i = length (ts_tips s); s1 = s\<lparr>ts_tips := ts_tips s @ [new_tooltip opts]\<rparr> in
      if tip_isOpen (tip s1 i) \<and> tio_manager opts then notifyOpened w now i s1 else (s1, []))"

datatype tooltip_op =
    Tip_create tooltip_options | Tip_show nat | Tip_hide nat
  | Tip_triggerMouseEnter nat | Tip_triggerMouseLeave nat | Tip_triggerFocus nat | Tip_triggerBlur nat
  | Tip_triggerKeyDown nat string | Tip_contentMouseEnter nat | Tip_contentMouseLeave nat
  | Tip_showTimeout nat | Tip_hideTimeout nat | Tip_subscribe nat listener | Tip_unsubscribe nat listener
  | Tip_destroy nat | Tip_closeAll | Tip_subscribeClose listener | Tip_unsubscribeClose listener

text \<open>An operation with the time it runs at.\<close>

fun tip_step :: "int \<Rightarrow> int \<times> tooltip_op \<Rightarrow> tips \<Rightarrow> tips \<times> tooltip_event list" where
  "tip_step w (now, Tip_create opts) s = createTooltip w now opts s"
| "tip_step w (now, Tip_show i) s = tip_show w now i s"
| "tip_step w (now, Tip_hide i) s = tip_hide now i s"
| "tip_step w (now, Tip_triggerMouseEnter i) s = startShowTimer w now i s"
| "tip_step w (now, Tip_triggerMouseLeave i) s = startHideTimer now i s"
| "tip_step w (now, Tip_triggerFocus i) s = startShowTimer w now i s"
| "tip_step w (now, Tip_triggerBlur i) s = startHideTimer now i s"
| "tip_step w (now, Tip_triggerKeyDown i key) s = tip_handleTriggerKeyDown now key i s"
| "tip_step w (now, Tip_contentMouseEnter i) s = (clearHideTimer i s, [])"
| "tip_step w (now, Tip_contentMouseLeave i) s = startHideTimer now i s"
| "tip_step w (now, Tip_showTimeout i) s = tip_showTimeout w now i s"
| "tip_step w (now, Tip_hideTimeout i) s = tip_hideTimeout now i s"
| "tip_step w (now, Tip_subscribe i l) s = (upd_tip i (\<lambda>t. t\<lparr>tip_listeners := subscribe l (tip_listeners t)\<rparr>) s, [])"
| "tip_step w (now, Tip_unsubscribe i l) s = (upd_tip i (\<lambda>t. t\<lparr>tip_listeners := unsubscribe l (tip_listeners t)\<rparr>) s, [])"
| "tip_step w (now, Tip_destroy i) s = tip_destroy now i s"
| "tip_step w (now, Tip_closeAll) s = closeAll now s"
| "tip_step w (now, Tip_subscribeClose l) s =
     (upd_mgr (\<lambda>m. m\<lparr>tim_closeListeners := subscribe l (tim_closeListeners m)\<rparr>) s, [])"
| "tip_step w (now, Tip_unsubscribeClose l) s =
     (upd_mgr (\<lambda>m. m\<lparr>tim_closeListeners := unsubscribe l (tim_closeListeners m)\<rparr>) s, [])"

text \<open>A call needs the controller it is made on; without it nothing happens.\<close>

fun tip_target :: "tooltip_op \<Rightarrow> nat option" where
  "tip_target (Tip_create _) = None"
| "tip_target Tip_closeAll = None"
| "tip_target (Tip_subscribeClose _) = None"
| "tip_target (Tip_unsubscribeClose _) = None"
| "tip_target (Tip_show i) = Some i"
| "tip_target (Tip_hide i) = Some i"
| "tip_target (Tip_triggerMouseEnter i) = Some i"
| "tip_target (Tip_triggerMouseLeave i) = Some i"
| "tip_target (Tip_triggerFocus i) = Some i"
| "tip_target (Tip_triggerBlur i) = Some i"
| "tip_target (Tip_triggerKeyDown i _) = Some i"
| "tip_target (Tip_contentMouseEnter i) = Some i"
| "tip_target (Tip_contentMouseLeave i) = Some i"
| "tip_target (Tip_showTimeout i) = Some i"
| "tip_target (Tip_hideTimeout i) = Some i"
| "tip_target (Tip_subscribe i _) = Some i"
| "tip_target (Tip_unsubscribe i _) = Some i"
| "tip_target (Tip_destroy i) = Some i"

definition tip_call :: "int \<Rightarrow> int \<times> tooltip_op \<Rightarrow> tips \<Rightarrow> tips \<times> tooltip_event list" where
  "tip_call w x s =
     (case tip_target (snd x) of
        None \<Rightarrow> tip_step w x s
      | Some i \<Rightarrow> if i < length (ts_tips s) then tip_step w x s else (s, []))"

section \<open>One tooltip at a time\<close>

definition managed :: "tooltip \<Rightarrow> bool" where
  "managed t \<longleftrightarrow> \<not> tip_controlled t \<and> tio_manager (tip_opts t)"

definition timers_ok :: "tooltip \<Rightarrow> bool" where
  "timers_ok t \<longleftrightarrow> (tip_showTimer t \<longrightarrow> \<not> tip_isOpen t) \<and> (tip_hideTimer t \<longrightarrow> tip_isOpen t)"

abbreviation active :: "tips \<Rightarrow> nat option" where
  "active s \<equiv> tim_active (ts_manager s)"

definition tips_ok :: "tips \<Rightarrow> bool" where
  "tips_ok s \<longleftrightarrow> (\<forall>i<length (ts_tips s). timers_ok (tip s i) \<and> (managed (tip s i) \<longrightarrow> (tip_isOpen (tip s i) \<longleftrightarrow> active s = Some i))) \<and>
     (\<forall>i. active s = Some i \<longrightarrow> i < length (ts_tips s) \<and> tio_manager (tip_opts (tip s i)))"

lemma upd_simps [simp]:
  "ts_tips (upd_mgr f s) = ts_tips s" "ts_manager (upd_mgr f s) = f (ts_manager s)"
  "ts_manager (upd_tip i g s) = ts_manager s" "ts_tips (upd_tip i g s) = (ts_tips s)[i := g (tip s i)]"
  by (simp_all add: upd_mgr_def upd_tip_def)

lemma clear_simps [simp]:
  "ts_tips (clearShowTimer i s) = (ts_tips s)[i := (tip s i)\<lparr>tip_showTimer := False\<rparr>]"
  "ts_tips (clearHideTimer i s) = (ts_tips s)[i := (tip s i)\<lparr>tip_hideTimer := False\<rparr>]"
  "ts_manager (clearShowTimer i s) = ts_manager s" "ts_manager (clearHideTimer i s) = ts_manager s"
  by (simp_all add: clearShowTimer_def clearHideTimer_def)

lemma controlled_upd [simp]:
  "tip_controlled (t\<lparr>tip_isOpen := b\<rparr>) = tip_controlled t" "tip_controlled (t\<lparr>tip_showTimer := b\<rparr>) = tip_controlled t"
  "tip_controlled (t\<lparr>tip_hideTimer := b\<rparr>) = tip_controlled t" "tip_controlled (t\<lparr>tip_listeners := ls\<rparr>) = tip_controlled t"
  "managed (t\<lparr>tip_isOpen := b\<rparr>) = managed t" "managed (t\<lparr>tip_showTimer := b\<rparr>) = managed t"
  "managed (t\<lparr>tip_hideTimer := b\<rparr>) = managed t" "managed (t\<lparr>tip_listeners := ls\<rparr>) = managed t"
  by (simp_all add: tip_controlled_def managed_def)

lemma notifyClosed_simps [simp]:
  "ts_tips (fst (notifyClosed now i s)) = ts_tips s"
  "active (fst (notifyClosed now i s)) = (if active s = Some i then None else active s)"
  by (simp_all add: notifyClosed_def)

definition closed :: "tooltip \<Rightarrow> tooltip" where
  "closed t = t\<lparr>tip_isOpen := (tip_controlled t \<and> tip_isOpen t)\<rparr>"

lemma closed_simps [simp]:
  "tip_opts (closed t) = tip_opts t" "tip_showTimer (closed t) = tip_showTimer t" "tip_hideTimer (closed t) = tip_hideTimer t"
  "tip_isOpen (closed t) = (tip_controlled t \<and> tip_isOpen t)" "managed (closed t) = managed t"
  "tip_controlled (closed t) = tip_controlled t"
  by (simp_all add: closed_def)

lemma hideNow_effect:
  assumes "i < length (ts_tips s)"
  shows "ts_tips (fst (tip_hideNow now i s)) = (ts_tips s)[i := closed (tip s i)]"
    and "active (fst (tip_hideNow now i s)) =
      (if managed (tip s i) \<and> tip_isOpen (tip s i) \<and> active s = Some i then None else active s)"
proof -
  have same: "closed (tip s i) = tip s i" if "tip_controlled (tip s i) \<or> \<not> tip_isOpen (tip s i)"
    using that by (cases "tip s i") (auto simp: closed_def)
  have shut: "closed (tip s i) = (tip s i)\<lparr>tip_isOpen := False\<rparr>" if "\<not> tip_controlled (tip s i)"
    using that by (simp add: closed_def)
  show "ts_tips (fst (tip_hideNow now i s)) = (ts_tips s)[i := closed (tip s i)]"
  proof (cases "tip_controlled (tip s i) \<or> \<not> tip_isOpen (tip s i)")
    case True
    then show ?thesis using same by (auto simp: tip_hideNow_def)
  next
    case False
    then show ?thesis using shut by (simp add: tip_hideNow_def split_def Let_def)
  qed
  show "active (fst (tip_hideNow now i s)) =
      (if managed (tip s i) \<and> tip_isOpen (tip s i) \<and> active s = Some i then None else active s)"
    using assms by (auto simp: tip_hideNow_def managed_def split_def Let_def)
qed

definition quiet :: "tooltip \<Rightarrow> tooltip" where
  "quiet t = t\<lparr>tip_showTimer := False, tip_hideTimer := False\<rparr>"

lemma quiet_simps [simp]:
  "tip_opts (quiet t) = tip_opts t" "tip_isOpen (quiet t) = tip_isOpen t" "managed (quiet t) = managed t"
  "tip_controlled (quiet t) = tip_controlled t" "timers_ok (quiet t)" "timers_ok (closed (quiet t))"
  by (simp_all add: quiet_def timers_ok_def)

lemma clear_both:
  "i < length (ts_tips s) \<Longrightarrow> ts_tips (clearHideTimer i (clearShowTimer i s)) = (ts_tips s)[i := quiet (tip s i)]"
  by (simp add: quiet_def)

lemma hide_effect:
  assumes "i < length (ts_tips s)"
  shows "ts_tips (fst (tip_hide now i s)) = (ts_tips s)[i := closed (quiet (tip s i))]"
    and "active (fst (tip_hide now i s)) =
      (if managed (tip s i) \<and> tip_isOpen (tip s i) \<and> active s = Some i then None else active s)"
  using hideNow_effect[of i "clearHideTimer i (clearShowTimer i s)" now] assms
  by (simp_all add: tip_hide_def quiet_def split: if_splits)

lemma tips_okI:
  assumes "\<And>i. i < length (ts_tips s) \<Longrightarrow> timers_ok (tip s i)"
    and "\<And>i. i < length (ts_tips s) \<Longrightarrow> managed (tip s i) \<Longrightarrow> tip_isOpen (tip s i) = (active s = Some i)"
    and "\<And>i. active s = Some i \<Longrightarrow> i < length (ts_tips s) \<and> tio_manager (tip_opts (tip s i))"
  shows "tips_ok s"
  using assms by (simp add: tips_ok_def)

lemma tips_okD:
  assumes "tips_ok s"
  shows "i < length (ts_tips s) \<Longrightarrow> timers_ok (tip s i)"
    and "i < length (ts_tips s) \<Longrightarrow> managed (tip s i) \<Longrightarrow> tip_isOpen (tip s i) = (active s = Some i)"
    and "active s = Some i \<Longrightarrow> i < length (ts_tips s) \<and> tio_manager (tip_opts (tip s i))"
  using assms by (simp_all add: tips_ok_def)

text \<open>Replacing one tooltip by one with the same options and the active entry accordingly.\<close>

lemma tips_ok_replace:
  assumes "tips_ok s" and "i < length (ts_tips s)" and "ts_tips s' = (ts_tips s)[i := t]"
    and "tip_opts t = tip_opts (tip s i)" and "timers_ok t"
    and "active s' = active s \<or> active s = Some i \<and> active s' = None"
    and "managed t \<Longrightarrow> tip_isOpen t = (active s' = Some i)"
  shows "tips_ok s'"
proof (rule tips_okI)
  fix j assume j: "j < length (ts_tips s')"
  show "timers_ok (tip s' j)" using assms j tips_okD(1)[OF assms(1)] by (cases "j = i") auto
  show "managed (tip s' j) \<Longrightarrow> tip_isOpen (tip s' j) = (active s' = Some j)"
    using assms j tips_okD(2)[OF assms(1), of j] by (cases "j = i") auto
next
  fix j assume "active s' = Some j"
  then have "active s = Some j" using assms(6) by auto
  then show "j < length (ts_tips s') \<and> tio_manager (tip_opts (tip s' j))"
    using tips_okD(3)[OF assms(1), of j] assms(2-4) by (cases "j = i") auto
qed

lemma tips_ok_closed:
  assumes ok: "tips_ok s" and i: "i < length (ts_tips s)" and t: "ts_tips s' = (ts_tips s)[i := closed t]"
    and "tip_opts t = tip_opts (tip s i)" and "tip_isOpen t = tip_isOpen (tip s i)" and "timers_ok (closed t)"
    and act: "active s' = (if managed (tip s i) \<and> tip_isOpen (tip s i) \<and> active s = Some i then None else active s)"
  shows "tips_ok s'"
proof (rule tips_ok_replace[OF ok i t])
  show "managed (closed t) \<Longrightarrow> tip_isOpen (closed t) = (active s' = Some i)"
    using tips_okD(2)[OF ok i] assms(4,5) by (auto simp: act managed_def tip_controlled_def)
qed (use assms in auto)

lemma tips_ok_hide:
  assumes ok: "tips_ok s" and i: "i < length (ts_tips s)"
  shows "tips_ok (fst (tip_hide now i s))"
  by (rule tips_ok_closed[OF ok i hide_effect(1)[OF i]]) (simp_all add: hide_effect(2)[OF i])

lemma tips_ok_hideNow:
  assumes ok: "tips_ok s" and i: "i < length (ts_tips s)" and t: "\<not> tip_hideTimer (tip s i)"
  shows "tips_ok (fst (tip_hideNow now i s))"
  using tips_okD(1)[OF ok i] t
  by (intro tips_ok_closed[OF ok i hideNow_effect(1)[OF i]]) (simp_all add: hideNow_effect(2)[OF i] timers_ok_def)

text \<open>A tooltip opens: whichever was active is hidden first.\<close>

lemma tips_ok_notifyOpened:
  assumes i: "i < length (ts_tips s)" and tm: "\<And>j. j < length (ts_tips s) \<Longrightarrow> timers_ok (tip s j)"
    and op: "\<And>j. j < length (ts_tips s) \<Longrightarrow> j \<noteq> i \<Longrightarrow> managed (tip s j) \<Longrightarrow> tip_isOpen (tip s j) = (active s = Some j)"
    and mi: "managed (tip s i) \<Longrightarrow> tip_isOpen (tip s i)" and mg: "tio_manager (tip_opts (tip s i))"
    and act: "\<And>p. active s = Some p \<Longrightarrow> p < length (ts_tips s)"
  shows "tips_ok (fst (notifyOpened w now i s))"
proof -
  have *: "tips_ok t" if t: "ts_tips t = ts_tips u" and a: "active t = Some i"
    and u: "u = s \<and> (active s = None \<or> active s = Some i) \<or>
      (\<exists>p. active s = Some p \<and> p \<noteq> i \<and> ts_tips u = (ts_tips s)[p := closed (quiet (tip s p))])" for t u
    using u
  proof (elim disjE exE conjE)
    assume "u = s" "active s = None"
    then show ?thesis using i tm op mi mg t a by (intro tips_okI) (metis option.distinct(1) option.inject)+
  next
    assume "u = s" "active s = Some i"
    then show ?thesis using i tm op mi mg t a by (intro tips_okI) (metis option.inject)+
  next
    fix p assume p: "active s = Some p" "p \<noteq> i" "ts_tips u = (ts_tips s)[p := closed (quiet (tip s p))]"
    have pl: "p < length (ts_tips s)" using act p(1) by blast
    show ?thesis
    proof (rule tips_okI)
      fix j assume j: "j < length (ts_tips t)"
      show "timers_ok (tip t j)" using j t p(3) tm pl by (cases "j = p") simp_all
      show "managed (tip t j) \<Longrightarrow> tip_isOpen (tip t j) = (active t = Some j)"
        using j t a p op[of j] mi pl by (cases "j = p"; cases "j = i") (auto simp: managed_def)
    next
      fix j assume "active t = Some j"
      then show "j < length (ts_tips t) \<and> tio_manager (tip_opts (tip t j))" using a t p i mg by simp
    qed
  qed
  have eff: "ts_tips (fst (notifyOpened w now i s)) =
      ts_tips (case active s of None \<Rightarrow> s | Some p \<Rightarrow> if p = i then s else fst (tip_hide now p s))"
    "active (fst (notifyOpened w now i s)) = Some i"
    by (simp_all add: notifyOpened_def split_def Let_def split: option.split)
  show ?thesis
  proof (rule *[OF eff])
    show "(case active s of None \<Rightarrow> s | Some p \<Rightarrow> if p = i then s else fst (tip_hide now p s)) = s \<and>
        (active s = None \<or> active s = Some i) \<or>
      (\<exists>p. active s = Some p \<and> p \<noteq> i \<and>
         ts_tips (case active s of None \<Rightarrow> s | Some p \<Rightarrow> if p = i then s else fst (tip_hide now p s)) =
           (ts_tips s)[p := closed (quiet (tip s p))])"
      using act hide_effect(1)[of _ s now] by (cases "active s") auto
  qed
qed

lemma tips_ok_showNow:
  assumes ok: "tips_ok s" and i: "i < length (ts_tips s)" and t: "\<not> tip_showTimer (tip s i)"
  shows "tips_ok (fst (tip_showNow w now i s))"
proof (cases "tip_controlled (tip s i) \<or> tip_isOpen (tip s i)")
  case True
  then show ?thesis using ok by (auto simp: tip_showNow_def)
next
  case False
  let ?s1 = "upd_tip i (\<lambda>t. t\<lparr>tip_isOpen := True\<rparr>) s"
  have h: "\<not> tip_hideTimer (tip s i)" using tips_okD(1)[OF ok i] False by (auto simp: timers_ok_def)
  have tm: "timers_ok (tip ?s1 j)" if "j < length (ts_tips s)" for j
    using that t h tips_okD(1)[OF ok that] by (cases "j = i") (simp_all add: timers_ok_def)
  show ?thesis
  proof (cases "tio_manager (tip_opts (tip s i))")
    case True
    have "tips_ok (fst (notifyOpened w now i ?s1))"
      by (rule tips_ok_notifyOpened) (use i tm True tips_okD(2)[OF ok] tips_okD(3)[OF ok] in auto)
    then show ?thesis using False True i by (simp add: tip_showNow_def split_def Let_def)
  next
    case unm: False
    have "tips_ok ?s1"
      by (rule tips_ok_replace[OF ok i, of _ "(tip s i)\<lparr>tip_isOpen := True\<rparr>"])
        (use tm[OF i] i unm in \<open>simp_all add: managed_def\<close>)
    then show ?thesis using False unm i by (simp add: tip_showNow_def split_def Let_def)
  qed
qed

text \<open>Timers and listeners of one tooltip change without the rest.\<close>

lemma tips_ok_upd:
  assumes "tips_ok s" and "i < length (ts_tips s)" and "tip_opts (f (tip s i)) = tip_opts (tip s i)"
    and "tip_isOpen (f (tip s i)) = tip_isOpen (tip s i)" and "timers_ok (f (tip s i))"
  shows "tips_ok (upd_tip i f s)"
  by (rule tips_ok_replace[OF assms(1,2) _ assms(3,5)])
    (use assms tips_okD(2)[OF assms(1,2)] in \<open>auto simp: managed_def tip_controlled_def\<close>)

lemma tips_ok_clear:
  assumes "tips_ok s" and "i < length (ts_tips s)"
  shows "tips_ok (clearShowTimer i s)" and "tips_ok (clearHideTimer i s)"
  unfolding clearShowTimer_def clearHideTimer_def
  using tips_okD(1)[OF assms] by (auto intro!: tips_ok_upd[OF assms] simp: timers_ok_def)

lemma len_clear [simp]: "length (ts_tips (clearShowTimer i s)) = length (ts_tips s)" "length (ts_tips (clearHideTimer i s)) = length (ts_tips s)"
  by simp_all

lemma tips_ok_show: "tips_ok s \<Longrightarrow> i < length (ts_tips s) \<Longrightarrow> tips_ok (fst (tip_show w now i s))"
  unfolding tip_show_def by (intro tips_ok_showNow tips_ok_clear) simp_all

lemma tips_ok_startShow:
  assumes ok: "tips_ok s" and i: "i < length (ts_tips s)"
  shows "tips_ok (fst (startShowTimer w now i s))"
proof -
  let ?s1 = "clearHideTimer i s"
  have ok1: "tips_ok ?s1" and i1: "i < length (ts_tips ?s1)" using tips_ok_clear(2)[OF ok i] i by simp_all
  have "tips_ok (upd_tip i (\<lambda>t. t\<lparr>tip_showTimer := True\<rparr>) ?s1)" if "\<not> tip_isOpen (tip ?s1 i)"
    using that tips_okD(1)[OF ok1 i1] by (intro tips_ok_upd[OF ok1 i1]) (simp_all add: timers_ok_def)
  moreover have "tips_ok (fst (tip_showNow w now i ?s1))" if "\<not> tip_showTimer (tip ?s1 i)"
    by (rule tips_ok_showNow[OF ok1 i1 that])
  ultimately show ?thesis using ok1 by (simp only: startShowTimer_def Let_def fst_conv split: if_split) blast
qed

lemma tips_ok_startHide:
  assumes ok: "tips_ok s" and i: "i < length (ts_tips s)"
  shows "tips_ok (fst (startHideTimer now i s))"
proof -
  let ?s1 = "clearShowTimer i s"
  have ok1: "tips_ok ?s1" and i1: "i < length (ts_tips ?s1)" using tips_ok_clear(1)[OF ok i] i by simp_all
  have "tips_ok (upd_tip i (\<lambda>t. t\<lparr>tip_hideTimer := True\<rparr>) ?s1)" if "tip_isOpen (tip ?s1 i)"
    using that tips_okD(1)[OF ok1 i1] by (intro tips_ok_upd[OF ok1 i1]) (simp_all add: timers_ok_def)
  moreover have "tips_ok (fst (tip_hideNow now i ?s1))" if "\<not> tip_hideTimer (tip ?s1 i)"
    by (rule tips_ok_hideNow[OF ok1 i1 that])
  ultimately show ?thesis using ok1 by (simp only: startHideTimer_def Let_def fst_conv split: if_split) blast
qed

lemma tips_ok_timeouts:
  assumes ok: "tips_ok s" and i: "i < length (ts_tips s)"
  shows "tips_ok (fst (tip_showTimeout w now i s))" and "tips_ok (fst (tip_hideTimeout now i s))"
proof -
  show "tips_ok (fst (tip_showTimeout w now i s))"
    using ok tips_ok_showNow[OF tips_ok_clear(1)[OF ok i], of i w now] i by (simp add: tip_showTimeout_def)
  show "tips_ok (fst (tip_hideTimeout now i s))"
    using ok tips_ok_hideNow[OF tips_ok_clear(2)[OF ok i], of i now] i by (simp add: tip_hideTimeout_def)
qed

lemma tips_ok_mgr: "tips_ok s \<Longrightarrow> tim_active (f (ts_manager s)) = active s \<Longrightarrow> tips_ok (upd_mgr f s)"
  by (simp add: tips_ok_def)

lemma tips_ok_closeAll: "tips_ok s \<Longrightarrow> tips_ok (fst (closeAll now s))"
proof (cases "active s")
  case (Some p)
  assume ok: "tips_ok s"
  have p: "p < length (ts_tips s)" using tips_okD(3)[OF ok Some] by blast
  let ?s1 = "upd_mgr (\<lambda>m. m\<lparr>tim_active := None\<rparr>) s"
  have "tips_ok (fst (tip_hide now p ?s1))"
    by (rule tips_ok_replace[OF ok p, of _ "closed (quiet (tip s p))"])
      (use p Some in \<open>auto simp: hide_effect managed_def\<close>)
  then show ?thesis by (simp add: closeAll_def Some)
qed (simp add: closeAll_def)

lemma tips_ok_destroy:
  assumes ok: "tips_ok s" and i: "i < length (ts_tips s)"
  shows "tips_ok (fst (tip_destroy now i s))"
proof -
  let ?t = "(quiet (tip s i))\<lparr>tip_isOpen := False, tip_listeners := []\<rparr>"
  have t: "ts_tips (fst (tip_destroy now i s)) = (ts_tips s)[i := ?t]"
    using i by (cases "tip s i") (simp add: tip_destroy_def quiet_def split_def Let_def)
  have a: "active (fst (tip_destroy now i s)) =
      (if tio_manager (tip_opts (tip s i)) \<and> active s = Some i then None else active s)"
    using i by (simp add: tip_destroy_def split_def Let_def)
  show ?thesis
    by (rule tips_ok_replace[OF ok i t])
      (use tips_okD(3)[OF ok] in \<open>auto simp: a timers_ok_def quiet_def\<close>)
qed

lemma tips_ok_create: "tips_ok s \<Longrightarrow> tips_ok (fst (createTooltip w now opts s))"
proof -
  assume ok: "tips_ok s"
  let ?n = "length (ts_tips s)" and ?s1 = "s\<lparr>ts_tips := ts_tips s @ [new_tooltip opts]\<rparr>"
  have new: "timers_ok (new_tooltip opts)" "managed (new_tooltip opts) \<Longrightarrow> \<not> tip_isOpen (new_tooltip opts)"
    by (auto simp: new_tooltip_def timers_ok_def managed_def tip_controlled_def)
  have act: "p < ?n \<and> tio_manager (tip_opts (tip s p))" if "active s = Some p" for p
    using tips_okD(3)[OF ok that] .
  have tm: "timers_ok (tip ?s1 j)" if "j < length (ts_tips ?s1)" for j
    using that new(1) tips_okD(1)[OF ok, of j] by (auto simp: nth_append less_Suc_eq)
  have "tips_ok ?s1"
  proof (rule tips_okI[OF tm])
    fix j assume "j < length (ts_tips ?s1)" "managed (tip ?s1 j)"
    then show "tip_isOpen (tip ?s1 j) = (active ?s1 = Some j)"
      using new(2) act[of j] tips_okD(2)[OF ok, of j] by (auto simp: nth_append less_Suc_eq)
  next
    fix j assume "active ?s1 = Some j"
    then show "j < length (ts_tips ?s1) \<and> tio_manager (tip_opts (tip ?s1 j))"
      using act[of j] by (auto simp: nth_append)
  qed auto
  moreover have "tips_ok (fst (notifyOpened w now ?n ?s1))" if "tip_isOpen (new_tooltip opts)" "tio_manager opts"
  proof (rule tips_ok_notifyOpened[OF _ tm])
    fix j assume "j < length (ts_tips ?s1)" "j \<noteq> ?n" "managed (tip ?s1 j)"
    then show "tip_isOpen (tip ?s1 j) = (active ?s1 = Some j)"
      using tips_okD(2)[OF ok, of j] by (auto simp: nth_append less_Suc_eq)
  next
    show "active ?s1 = Some p \<Longrightarrow> p < length (ts_tips ?s1)" for p using act[of p] by auto
  qed (use that in \<open>simp_all add: new_tooltip_def\<close>)
  ultimately show ?thesis by (simp add: createTooltip_def Let_def)
qed

lemma tips_ok_call: "tips_ok s \<Longrightarrow> tips_ok (fst (tip_call w x s))"
proof -
  assume ok: "tips_ok s"
  obtain now op where x: "x = (now, op)" by (cases x)
  have listeners: "tips_ok (upd_tip i (\<lambda>t. t\<lparr>tip_listeners := f t\<rparr>) s)" if "i < length (ts_tips s)" for i f
    using tips_okD(1)[OF ok that] by (intro tips_ok_upd[OF ok that]) (simp_all add: timers_ok_def)
  show ?thesis unfolding x using ok
    by (cases op) (auto simp: tip_call_def tip_handleTriggerKeyDown_def tips_ok_create tips_ok_show tips_ok_hide
        tips_ok_startShow tips_ok_startHide tips_ok_timeouts tips_ok_clear tips_ok_destroy tips_ok_closeAll
        tips_ok_mgr listeners)
qed

lemma tips_ok_none: "tips_ok no_tips"
  by (simp add: tips_ok_def no_tips_def createTooltipManager_def)

interpretation tooltip_component: component "tip_call w" tips_ok "\<lambda>x. True" for w
  by unfold_locales (rule tips_ok_call)

text \<open>C12: However tooltips that share a manager are hovered, focused, timed out, closed and destroyed, at
  most one uncontrolled tooltip is open, and it is the one the manager calls active; a tooltip that
  waits to open is closed and one that waits to close is open, so no two timers of it are pending.
\<close>

theorem tooltip_one_at_a_time:
  assumes "s = fst (run (tip_call w) xs no_tips)" and "i < length (ts_tips s)" and "j < length (ts_tips s)"
  shows "(managed (tip s i) \<and> managed (tip s j) \<and> tip_isOpen (tip s i) \<and> tip_isOpen (tip s j) \<longrightarrow> i = j \<and> active s = Some i) \<and>
         (tip_showTimer (tip s i) \<longrightarrow> \<not> tip_isOpen (tip s i) \<and> \<not> tip_hideTimer (tip s i)) \<and>
         (tip_hideTimer (tip s i) \<longrightarrow> tip_isOpen (tip s i))"
proof -
  have ok: "tips_ok s"
    unfolding assms(1) by (rule tooltip_component.run_inv[OF tips_ok_none]) simp
  show ?thesis
    using tips_okD(1)[OF ok assms(2)] tips_okD(2)[OF ok assms(2)] tips_okD(2)[OF ok assms(3)]
    by (auto simp: timers_ok_def)
qed

definition demo_tip :: "string \<Rightarrow> tooltip_options" where
  "demo_tip k = \<lparr>tio_showDelay = None, tio_hideDelay = None, tio_placement = None, tio_id = k, tio_manager = True, tio_open = None\<rparr>"

definition demo_tips :: tips where
  "demo_tips = fst (run (tip_call 100)
     [(0, Tip_create (demo_tip ''a'')), (0, Tip_create (demo_tip ''b'')), (0, Tip_subscribeClose 7),
      (5, Tip_show 0), (9, Tip_triggerFocus 1), (309, Tip_showTimeout 1)] no_tips)"

lemma demo_tips_facts:
  "length (ts_tips demo_tips) = 2 \<and> tip_isOpen (tip demo_tips 1) \<and> \<not> tip_isOpen (tip demo_tips 0) \<and>
   managed (tip demo_tips 1) \<and> active demo_tips = Some 1"
  by code_simp

theorem tooltip_one_at_a_time_witness:
  "tip_isOpen (tip demo_tips 1) \<and> active demo_tips = Some 1 \<and> \<not> tip_showTimer (tip demo_tips 1)"
  using tooltip_one_at_a_time[OF demo_tips_def, of 1 1] demo_tips_facts by simp

text \<open>\<open>closeAll\<close> closes the active tooltip without telling the close listeners: it forgets the active controller
  before it hides it, so \<open>notifyClosed\<close> ignores the close, no event is sent and the time of the close is
  not recorded, while \<open>hide\<close> on the same tooltip does report it.
\<close>

theorem tooltip_closeAll_silent:
  assumes "s = fst (run (tip_call w) xs no_tips)" and "active s = Some i" and "managed (tip s i)"
    and "t = fst (closeAll now s)"
  shows "\<not> tip_isOpen (tip t i) \<and> active t = None \<and>
         tim_lastCloseAt (ts_manager t) = tim_lastCloseAt (ts_manager s) \<and>
         (\<forall>l c. (l, Tip_closed c) \<notin> set (sent (snd (closeAll now s)))) \<and>
         (\<forall>l\<in>set (tim_closeListeners (ts_manager s)).
            (l, Tip_closed \<lparr>tce_id = tio_id (tip_opts (tip s i)), tce_skip = False\<rparr>) \<in> set (sent (snd (tip_hide now i s))))"
proof -
  have ok: "tips_ok s"
    unfolding assms(1) by (rule tooltip_component.run_inv[OF tips_ok_none]) simp
  have i: "i < length (ts_tips s)" using tips_okD(3)[OF ok assms(2)] by blast
  have o: "tip_isOpen (tip s i)" using tips_okD(2)[OF ok i assms(3)] assms(2) by simp
  let ?s1 = "upd_mgr (\<lambda>m. m\<lparr>tim_active := None\<rparr>) s"
  have ca: "closeAll now s = tip_hide now i ?s1" by (simp add: closeAll_def assms(2))
  have m: "\<not> tip_controlled (tip s i)" "tio_manager (tip_opts (tip s i))" using assms(3) by (auto simp: managed_def)
  show ?thesis
    using i o m assms(2) unfolding assms(4) ca
    by (auto simp: tip_hide_def tip_hideNow_def notifyClosed_def tip_broadcast_def emitClose_def deliver_def split_def Let_def)
qed

theorem tooltip_closeAll_silent_witness:
  "\<not> tip_isOpen (tip (fst (closeAll 400 demo_tips)) 1) \<and>
   (\<forall>l c. (l, Tip_closed c) \<notin> set (sent (snd (closeAll 400 demo_tips))))"
  using tooltip_closeAll_silent[OF demo_tips_def, of 1 _ 400, OF _ _ refl] demo_tips_facts by blast

end
