(* ===== verification/Line_Ownership.thy ===== *)
theory Line_Ownership
  imports Agent_Presence
begin

text \<open>
  \<open>headless-core/keeper-line-ownership.ts\<close>: who last edited each line of the active file. Line numbers
  and timestamps arrive as unchecked numbers (\<open>jsnum\<close>) and are validated by the code; the loop over the
  range of an event is a fold over \<open>[start..end]\<close>.
\<close>

section \<open>The accumulator\<close>

datatype keeper_edit_kind = Edit | Create | Refactor | Revert

record keeper_edit =
  ke_file_path :: string
  ke_line_start :: jsnum
  ke_line_end :: jsnum
  ke_keeper_id :: string
  ke_timestamp_ms :: jsnum
  ke_kind :: keeper_edit_kind

record line_owner =
  lo_keeper_id :: string
  lo_hue_index :: nat
  lo_last_edit_kind :: keeper_edit_kind
  lo_last_edit_ms :: rat

record ownership =
  ow_activeFilePath :: string
  ow_ownershipByLine :: "(int, line_owner) jsmap"
  ow_eventsByLine :: "(int, keeper_edit list) jsmap"
  ow_keepers :: "string jsset"

definition keeperHueIndex :: "string \<Rightarrow> nat" where
  "keeperHueIndex keeperId = kSlot keeperId"

definition validLineRange :: "keeper_edit \<Rightarrow> (int \<times> int) option" where
  "validLineRange e =
     (case (safe_integer (ke_line_start e), safe_integer (ke_line_end e)) of
        (Some s, Some f) \<Rightarrow> if s < 1 \<or> f < 1 \<or> f < s then None else Some (s, f)
      | _ \<Rightarrow> None)"

definition shouldReplace :: "line_owner option \<Rightarrow> rat \<Rightarrow> bool" where
  "shouldReplace existing ts = (case existing of None \<Rightarrow> True | Some o' \<Rightarrow> ts \<ge> lo_last_edit_ms o')"

definition createKeeperLineOwnershipAccumulator :: "string \<Rightarrow> ownership" where
  "createKeeperLineOwnershipAccumulator f =
     \<lparr>ow_activeFilePath = f, ow_ownershipByLine = [], ow_eventsByLine = [], ow_keepers = []\<rparr>"

definition owner_of_event :: "keeper_edit \<Rightarrow> rat \<Rightarrow> line_owner" where
  "owner_of_event e ts =
     \<lparr>lo_keeper_id = ke_keeper_id e, lo_hue_index = keeperHueIndex (ke_keeper_id e),
      lo_last_edit_kind = ke_kind e, lo_last_edit_ms = ts\<rparr>"

definition ingest_line :: "keeper_edit \<Rightarrow> rat \<Rightarrow> int \<Rightarrow> ownership \<Rightarrow> ownership" where
  "ingest_line e ts line s =
     (let s1 = s\<lparr>ow_eventsByLine := map_set line
                 (case map_get (ow_eventsByLine s) line of None \<Rightarrow> [e] | Some history \<Rightarrow> history @ [e]) (ow_eventsByLine s)\<rparr>
      in if shouldReplace (map_get (ow_ownershipByLine s1) line) ts
         then s1\<lparr>ow_ownershipByLine := map_set line (owner_of_event e ts) (ow_ownershipByLine s1)\<rparr> else s1)"

definition ingest :: "keeper_edit \<Rightarrow> ownership \<Rightarrow> bool \<times> ownership" where
  "ingest e s =
     (if ke_file_path e \<noteq> ow_activeFilePath s then (False, s)
      else case finite_num (ke_timestamp_ms e) of
          None \<Rightarrow> (False, s)
        | Some ts \<Rightarrow>
            (case validLineRange e of
               None \<Rightarrow> (False, s)
             | Some (lo, hi) \<Rightarrow>
                 (True, fold (ingest_line e ts) [lo..hi] (s\<lparr>ow_keepers := set_add (ke_keeper_id e) (ow_keepers s)\<rparr>))))"

definition ownership_reset :: "string option \<Rightarrow> ownership \<Rightarrow> ownership" where
  "ownership_reset f s =
     \<lparr>ow_activeFilePath = (case f of None \<Rightarrow> ow_activeFilePath s | Some p \<Rightarrow> p), ow_ownershipByLine = [],
      ow_eventsByLine = [], ow_keepers = []\<rparr>"

definition eventsForLine :: "jsnum \<Rightarrow> ownership \<Rightarrow> keeper_edit list" where
  "eventsForLine line s =
     (case safe_integer line of
        None \<Rightarrow> []
      | Some l \<Rightarrow> (case map_get (ow_eventsByLine s) l of None \<Rightarrow> [] | Some h \<Rightarrow> h))"

definition knownKeepers :: "ownership \<Rightarrow> string list" where
  "knownKeepers s = js_sort str_cmp (ow_keepers s)"

datatype ownership_op = Own_ingest keeper_edit | Own_reset "string option"

fun own_step :: "ownership_op \<Rightarrow> ownership \<Rightarrow> ownership \<times> bool list" where
  "own_step (Own_ingest e) s = (let (b, s') = ingest e s in (s', [b]))"
| "own_step (Own_reset f) s = (ownership_reset f s, [])"

section \<open>Reference: the owner of a line is its latest edit\<close>

text \<open>The edits of a list that the accumulator takes into account for a file, and those that touch a line.\<close>

definition accepted :: "string \<Rightarrow> keeper_edit \<Rightarrow> bool" where
  "accepted f e \<longleftrightarrow> ke_file_path e = f \<and> finite_num (ke_timestamp_ms e) \<noteq> None \<and> validLineRange e \<noteq> None"

definition touches :: "int \<Rightarrow> keeper_edit \<Rightarrow> bool" where
  "touches l e \<longleftrightarrow> (case validLineRange e of None \<Rightarrow> False | Some (lo, hi) \<Rightarrow> lo \<le> l \<and> l \<le> hi)"

definition time_of :: "keeper_edit \<Rightarrow> rat" where
  "time_of e = the (finite_num (ke_timestamp_ms e))"

definition line_edits :: "string \<Rightarrow> keeper_edit list \<Rightarrow> int \<Rightarrow> keeper_edit list" where
  "line_edits f es l = filter (\<lambda>e. accepted f e \<and> touches l e) es"

text \<open>The last edit among those with the greatest timestamp.\<close>

definition latest_edit :: "keeper_edit list \<Rightarrow> keeper_edit option" where
  "latest_edit es =
     (if es = [] then None else Some (last (filter (\<lambda>e. time_of e = Max (time_of ` set es)) es)))"

lemma latest_edit_snoc:
  "latest_edit (es @ [e]) =
     (case latest_edit es of None \<Rightarrow> Some e | Some d \<Rightarrow> if time_of e \<ge> time_of d then Some e else Some d)"
proof (cases "es = []")
  case True
  then show ?thesis by (simp add: latest_edit_def)
next
  case False
  let ?m = "Max (time_of ` set es)"
  have "?m \<in> time_of ` set es"
    using False by (intro Max_in) auto
  then obtain x where "x \<in> set es" "time_of x = ?m" by force
  then have ne: "filter (\<lambda>e. time_of e = ?m) es \<noteq> []"
    by (metis (mono_tags, lifting) filter_empty_conv)
  have d: "time_of (last (filter (\<lambda>e. time_of e = ?m) es)) = ?m"
    using last_in_set[OF ne] by simp
  have m: "Max (time_of ` set (es @ [e])) = max (time_of e) ?m"
    using False by (simp add: Max_insert)
  show ?thesis
  proof (cases "time_of e \<ge> ?m")
    case True
    then show ?thesis using False d by (simp add: latest_edit_def m)
  next
    case less: False
    then have x: "max (time_of e) ?m = ?m" "time_of e \<noteq> ?m" by (auto simp: max_def simp del: Max_less_iff Max_gr_iff)
    have same: "latest_edit (es @ [e]) = latest_edit es" using x(2) unfolding latest_edit_def m x(1) using False by simp
    show ?thesis unfolding same using less False d by (simp add: latest_edit_def del: Max_le_iff)
  qed
qed

definition own_ok :: "keeper_edit list \<Rightarrow> ownership \<Rightarrow> bool" where
  "own_ok es s \<longleftrightarrow>
     (\<forall>l. map_get (ow_ownershipByLine s) l =
            map_option (\<lambda>e. owner_of_event e (time_of e)) (latest_edit (line_edits (ow_activeFilePath s) es l))) \<and>
     (\<forall>l. map_get (ow_eventsByLine s) l =
            (if line_edits (ow_activeFilePath s) es l = [] then None else Some (line_edits (ow_activeFilePath s) es l))) \<and>
     ow_keepers s = set_from (map ke_keeper_id (filter (accepted (ow_activeFilePath s)) es))"

lemma ingest_lines:
  assumes "distinct ls"
  shows "map_get (ow_eventsByLine (fold (ingest_line e ts) ls s)) l =
     (if l \<in> set ls then Some (case map_get (ow_eventsByLine s) l of None \<Rightarrow> [e] | Some h \<Rightarrow> h @ [e])
      else map_get (ow_eventsByLine s) l)"
    and "map_get (ow_ownershipByLine (fold (ingest_line e ts) ls s)) l =
     (if l \<in> set ls \<and> shouldReplace (map_get (ow_ownershipByLine s) l) ts then Some (owner_of_event e ts)
      else map_get (ow_ownershipByLine s) l)"
    and "ow_keepers (fold (ingest_line e ts) ls s) = ow_keepers s"
    and "ow_activeFilePath (fold (ingest_line e ts) ls s) = ow_activeFilePath s"
  using assms by (induction ls arbitrary: s) (auto simp: ingest_line_def Let_def)

lemma ingest_ok:
  assumes ok: "own_ok es s"
  shows "own_ok (es @ [e]) (snd (ingest e s)) \<and> fst (ingest e s) = accepted (ow_activeFilePath s) e \<and>
         ow_activeFilePath (snd (ingest e s)) = ow_activeFilePath s"
proof (cases "accepted (ow_activeFilePath s) e")
  case False
  then have "ingest e s = (False, s)"
    by (auto simp: accepted_def ingest_def split: option.split)
  then show ?thesis using ok False by (simp add: own_ok_def line_edits_def)
next
  case True
  then obtain ts lo hi where ts: "finite_num (ke_timestamp_ms e) = Some ts" and r: "validLineRange e = Some (lo, hi)"
    and f: "ke_file_path e = ow_activeFilePath s" by (auto simp: accepted_def)
  let ?s1 = "s\<lparr>ow_keepers := set_add (ke_keeper_id e) (ow_keepers s)\<rparr>"
  have ing: "ingest e s = (True, fold (ingest_line e ts) [lo..hi] ?s1)" by (simp add: ingest_def ts r f)
  have t: "time_of e = ts" by (simp add: time_of_def ts)
  have le: "line_edits (ow_activeFilePath s) (es @ [e]) l =
      line_edits (ow_activeFilePath s) es l @ (if l \<in> set [lo..hi] then [e] else [])" for l
    using True by (simp add: line_edits_def touches_def r)
  have ow: "map_get (ow_ownershipByLine s) l =
      map_option (\<lambda>e. owner_of_event e (time_of e)) (latest_edit (line_edits (ow_activeFilePath s) es l))" for l
    using ok by (simp add: own_ok_def)
  have "map_get (ow_ownershipByLine (snd (ingest e s))) l =
      map_option (\<lambda>e. owner_of_event e (time_of e)) (latest_edit (line_edits (ow_activeFilePath s) (es @ [e]) l))" for l
    by (cases "latest_edit (line_edits (ow_activeFilePath s) es l)")
      (simp_all add: ing ingest_lines(2) ow le latest_edit_snoc shouldReplace_def t owner_of_event_def del: set_upto)
  moreover have "map_get (ow_eventsByLine (snd (ingest e s))) l =
      (if line_edits (ow_activeFilePath s) (es @ [e]) l = [] then None
       else Some (line_edits (ow_activeFilePath s) (es @ [e]) l))" for l
    using ok by (simp add: ing ingest_lines(1) le own_ok_def del: set_upto)
  moreover have "ow_keepers (snd (ingest e s)) = set_from (map ke_keeper_id (filter (accepted (ow_activeFilePath s)) (es @ [e])))"
    using ok True by (simp add: ing ingest_lines(3) own_ok_def set_from_def)
  moreover have "ow_activeFilePath (snd (ingest e s)) = ow_activeFilePath s"
    by (simp add: ing ingest_lines(4))
  ultimately show ?thesis using True ing by (simp add: own_ok_def)
qed

section \<open>Runs of the accumulator\<close>

text \<open>The edits a list of operations ingests after its last reset, the file it leaves active and the answers of its
  ingests.\<close>

fun pending_edits :: "keeper_edit list \<Rightarrow> ownership_op list \<Rightarrow> keeper_edit list" where
  "pending_edits es [] = es"
| "pending_edits es (Own_ingest e # cs) = pending_edits (es @ [e]) cs"
| "pending_edits es (Own_reset f # cs) = pending_edits [] cs"

fun active_file :: "string \<Rightarrow> ownership_op list \<Rightarrow> string" where
  "active_file f [] = f"
| "active_file f (Own_ingest e # cs) = active_file f cs"
| "active_file f (Own_reset g # cs) = active_file (case g of None \<Rightarrow> f | Some p \<Rightarrow> p) cs"

fun ingest_answers :: "string \<Rightarrow> ownership_op list \<Rightarrow> bool list" where
  "ingest_answers f [] = []"
| "ingest_answers f (Own_ingest e # cs) = accepted f e # ingest_answers f cs"
| "ingest_answers f (Own_reset g # cs) = ingest_answers (case g of None \<Rightarrow> f | Some p \<Rightarrow> p) cs"

lemma own_ok_reset: "own_ok [] (ownership_reset f s)"
  by (simp add: own_ok_def ownership_reset_def line_edits_def latest_edit_def set_from_def)

lemma own_run_ok:
  assumes "own_ok es s"
  shows "own_ok (pending_edits es cs) (fst (run own_step cs s)) \<and>
         ow_activeFilePath (fst (run own_step cs s)) = active_file (ow_activeFilePath s) cs \<and>
         snd (run own_step cs s) = ingest_answers (ow_activeFilePath s) cs"
  using assms
proof (induction cs arbitrary: es s)
  case (Cons c cs)
  show ?case
  proof (cases c)
    case (Own_ingest e)
    then show ?thesis
      using Cons.IH[OF conjunct1[OF ingest_ok[OF Cons.prems, of e]]] ingest_ok[OF Cons.prems, of e]
      by (simp add: case_prod_unfold Let_def)
  next
    case (Own_reset f)
    then show ?thesis
      using Cons.IH[OF own_ok_reset[of f s]] by (simp add: case_prod_unfold Let_def ownership_reset_def)
  qed
qed simp

lemma knownKeepers_spec:
  "set (knownKeepers s) = set (ow_keepers s) \<and> sorted_wrt (\<lambda>a b. str_cmp a b \<le> 0) (knownKeepers s) \<and>
   (distinct (ow_keepers s) \<longrightarrow> distinct (knownKeepers s))"
  by (simp add: knownKeepers_def str_order.js_sort_sorted)

text \<open>C17: After any sequence of ingests and resets, the owner of every line is taken from the edit with the greatest
  timestamp among the valid edits of the active file that touch the line since the last reset, the last ingested
  on a tie, and there is none when no edit touches it; \<open>eventsForLine\<close> returns exactly those edits in the order
  of ingestion, and nothing for a line that is not a safe integer; \<open>knownKeepers\<close> lists, sorted and without
  repetition, the keepers of the valid edits; and \<open>ingest\<close> answers true exactly for the valid edits of the file
  that is active at that moment.\<close>
theorem ownership_latest_edit:
  assumes "run own_step cs (createKeeperLineOwnershipAccumulator f) = (s, bs)"
  shows "bs = ingest_answers f cs \<and> ow_activeFilePath s = active_file f cs \<and>
    map_get (ow_ownershipByLine s) l =
      map_option (\<lambda>e. owner_of_event e (time_of e)) (latest_edit (line_edits (active_file f cs) (pending_edits [] cs) l)) \<and>
    eventsForLine x s = (case safe_integer x of None \<Rightarrow> [] | Some n \<Rightarrow> line_edits (active_file f cs) (pending_edits [] cs) n) \<and>
    set (knownKeepers s) = ke_keeper_id ` set (filter (accepted (active_file f cs)) (pending_edits [] cs)) \<and>
    sorted_wrt (\<lambda>a b. str_cmp a b \<le> 0) (knownKeepers s) \<and> distinct (knownKeepers s)"
proof (intro conjI)
  have "own_ok [] (createKeeperLineOwnershipAccumulator f)"
    using own_ok_reset[of "Some f"] by (simp add: ownership_reset_def createKeeperLineOwnershipAccumulator_def)
  from own_run_ok[OF this, of cs] have ok: "own_ok (pending_edits [] cs) s" and a: "ow_activeFilePath s = active_file f cs"
    and v: "bs = ingest_answers f cs" using assms by (simp_all add: createKeeperLineOwnershipAccumulator_def)
  show "bs = ingest_answers f cs" "ow_activeFilePath s = active_file f cs" by (fact v a)+
  show "map_get (ow_ownershipByLine s) l =
      map_option (\<lambda>e. owner_of_event e (time_of e)) (latest_edit (line_edits (active_file f cs) (pending_edits [] cs) l))"
    using ok by (simp add: own_ok_def a)
  show "eventsForLine x s = (case safe_integer x of None \<Rightarrow> [] | Some n \<Rightarrow> line_edits (active_file f cs) (pending_edits [] cs) n)"
    using ok by (auto simp: own_ok_def a eventsForLine_def split: option.split)
  show "set (knownKeepers s) = ke_keeper_id ` set (filter (accepted (active_file f cs)) (pending_edits [] cs))"
    "sorted_wrt (\<lambda>a b. str_cmp a b \<le> 0) (knownKeepers s)" "distinct (knownKeepers s)"
    using ok knownKeepers_spec[of s] by (simp_all add: own_ok_def a)
qed

definition sample_edit :: "string \<Rightarrow> int \<Rightarrow> int \<Rightarrow> rat \<Rightarrow> keeper_edit" where
  "sample_edit k a b t =
     \<lparr>ke_file_path = ''f'', ke_line_start = Num (of_int a), ke_line_end = Num (of_int b), ke_keeper_id = k,
      ke_timestamp_ms = Num t, ke_kind = Edit\<rparr>"

lemma sample_edit_simps:
  "validLineRange (sample_edit k a b t) =
     (if \<bar>a\<bar> \<le> 2 ^ 53 - 1 \<and> \<bar>b\<bar> \<le> 2 ^ 53 - 1 \<and> 1 \<le> a \<and> 1 \<le> b \<and> a \<le> b then Some (a, b) else None)"
  "accepted ''f'' (sample_edit k a b t) \<longleftrightarrow> validLineRange (sample_edit k a b t) \<noteq> None"
  "time_of (sample_edit k a b t) = t" "ke_keeper_id (sample_edit k a b t) = k"
  by (auto simp: sample_edit_def validLineRange_def accepted_def time_of_def finite_num_def)

definition sample_ops :: "ownership_op list" where
  "sample_ops =
     [Own_ingest (sample_edit ''a'' 9 9 9), Own_reset None, Own_ingest (sample_edit ''a'' 1 3 5),
      Own_ingest (sample_edit ''b'' 2 4 5), Own_ingest (sample_edit ''c'' 3 3 4), Own_ingest (sample_edit ''d'' 3 2 7)]"

lemma ownership_latest_edit_witness:
  "map_option lo_keeper_id
     (map_get (ow_ownershipByLine (fst (run own_step sample_ops (createKeeperLineOwnershipAccumulator ''f'')))) 3) = Some ''b''"
  using ownership_latest_edit[OF surjective_pairing, of sample_ops "''f''" 3]
  by (simp add: sample_ops_def line_edits_def touches_def sample_edit_simps latest_edit_def owner_of_event_def
      del: run.simps own_step.simps)

end
