(* ===== verification/Thread_Rail.thy ===== *)
theory Thread_Rail
  imports Js_Text Contracts
begin

text \<open>
  \<open>headless-core/anchored-thread-rail.ts\<close>: the review threads of the active file. The options are two
  callbacks the controller calls afresh every time; what they answer at a call is an argument (\<open>rail_env\<close>)
  of the operation, and a change of it between two calls is a step of its own. \<open>localeCompare\<close> is an
  argument.
\<close>

section \<open>Threads\<close>

datatype thread_kind = Flag | Question | Approve | Note | Suggest

record thread_anchor =
  an_file_path :: string
  an_line_start :: "jsnum option"
  an_line_end :: "jsnum option"
  an_symbol_hint :: "string option"

record anchored_thread =
  th_id :: string
  th_kind :: thread_kind
  th_author_keeper_id :: string
  th_anchor :: thread_anchor
  th_body :: string
  th_created_ms :: jsnum
  th_resolved :: bool
  th_reply_count :: jsnum

record rail_env =
  re_filePath :: string
  re_threads :: "anchored_thread list"

record thread_rail =
  tr_focusedId :: "string option"
  tr_listeners :: "listener jsset"

text \<open>Comparison of numbers, the sign of \<open>x - y\<close> (\<open>NaN\<close> counts as 0 in a sort), and \<open>x !== y\<close>.\<close>

definition num_le :: "jsnum \<Rightarrow> jsnum \<Rightarrow> bool" where
  "num_le x y =
     (case (x, y) of
        (NaN, _) \<Rightarrow> False | (_, NaN) \<Rightarrow> False | (Num a, Num b) \<Rightarrow> a \<le> b
      | (NegInf, _) \<Rightarrow> True | (_, PosInf) \<Rightarrow> True | _ \<Rightarrow> False)"

definition sub_sign :: "jsnum \<Rightarrow> jsnum \<Rightarrow> int" where
  "sub_sign x y =
     (case (x, y) of
        (NaN, _) \<Rightarrow> 0 | (_, NaN) \<Rightarrow> 0 | (Num a, Num b) \<Rightarrow> num_cmp a b
      | (PosInf, PosInf) \<Rightarrow> 0 | (NegInf, NegInf) \<Rightarrow> 0 | (PosInf, _) \<Rightarrow> 1 | (_, PosInf) \<Rightarrow> - 1
      | (NegInf, _) \<Rightarrow> - 1 | (_, NegInf) \<Rightarrow> 1)"

definition num_differs :: "jsnum \<Rightarrow> jsnum \<Rightarrow> bool" where
  "num_differs x y \<longleftrightarrow> x \<noteq> y \<or> x = NaN"

definition compareThreads :: "(string \<Rightarrow> string \<Rightarrow> int) \<Rightarrow> anchored_thread \<Rightarrow> anchored_thread \<Rightarrow> int" where
  "compareThreads localeCompare a b =
     (if num_differs (th_created_ms a) (th_created_ms b) then sub_sign (th_created_ms b) (th_created_ms a)
      else localeCompare (th_id a) (th_id b))"

definition validAnchorForFile :: "thread_anchor \<Rightarrow> string \<Rightarrow> bool" where
  "validAnchorForFile anchor filePath =
     (if an_file_path anchor \<noteq> filePath then False
      else case (an_line_start anchor, an_line_end anchor) of
          (None, None) \<Rightarrow> True
        | (Some s, Some e) \<Rightarrow> safe_integer s \<noteq> None \<and> safe_integer e \<noteq> None \<and> num_le (Num 1) s \<and> num_le s e
        | _ \<Rightarrow> False)"

definition validThreadForFile :: "anchored_thread \<Rightarrow> string \<Rightarrow> bool" where
  "validThreadForFile t filePath =
     (if trim (th_id t) = [] then False
      else if trim (th_author_keeper_id t) = [] then False
      else if finite_num (th_created_ms t) = None then False
      else if safe_integer (th_reply_count t) = None \<or> \<not> num_le (Num 0) (th_reply_count t) then False
      else validAnchorForFile (th_anchor t) filePath)"

definition anchorContainsLine :: "thread_anchor \<Rightarrow> jsnum \<Rightarrow> bool" where
  "anchorContainsLine anchor line =
     (case (an_line_start anchor, an_line_end anchor) of
        (Some s, Some e) \<Rightarrow> num_le s line \<and> num_le line e
      | _ \<Rightarrow> False)"

section \<open>The controller\<close>

definition createAnchoredThreadRail :: thread_rail where
  "createAnchoredThreadRail = \<lparr>tr_focusedId = None, tr_listeners = []\<rparr>"

definition visibleThreads :: "(string \<Rightarrow> string \<Rightarrow> int) \<Rightarrow> rail_env \<Rightarrow> anchored_thread list" where
  "visibleThreads lc env =
     js_sort (compareThreads lc) (filter (\<lambda>t. validThreadForFile t (re_filePath env)) (re_threads env))"

definition focusedThread :: "(string \<Rightarrow> string \<Rightarrow> int) \<Rightarrow> rail_env \<Rightarrow> thread_rail \<Rightarrow> anchored_thread option" where
  "focusedThread lc env s =
     (case tr_focusedId s of
        None \<Rightarrow> None
      | Some k \<Rightarrow> List.find (\<lambda>t. th_id t = k) (visibleThreads lc env))"

definition focusedThreadId :: "(string \<Rightarrow> string \<Rightarrow> int) \<Rightarrow> rail_env \<Rightarrow> thread_rail \<Rightarrow> string option" where
  "focusedThreadId lc env s = map_option th_id (focusedThread lc env s)"

text \<open>
  A listener gets no argument; what it reads with \<open>focusedThreadId()\<close> when it is called is recorded with
  the call.
\<close>

type_synonym rail_event = "(string option, bool) event"

definition rail_emit :: "(string \<Rightarrow> string \<Rightarrow> int) \<Rightarrow> rail_env \<Rightarrow> thread_rail \<Rightarrow> rail_event list" where
  "rail_emit lc env s = emit_to (tr_listeners s) (focusedThreadId lc env s)"

definition focusThread ::
  "(string \<Rightarrow> string \<Rightarrow> int) \<Rightarrow> rail_env \<Rightarrow> string \<Rightarrow> thread_rail \<Rightarrow> bool \<times> thread_rail \<times> rail_event list" where
  "focusThread lc env k s =
     (case List.find (\<lambda>t. th_id t = k) (visibleThreads lc env) of
        None \<Rightarrow> (False, s, [])
      | Some next \<Rightarrow>
          if tr_focusedId s = Some (th_id next) then (True, s, [])
          else (let s' = s\<lparr>tr_focusedId := Some (th_id next)\<rparr> in (True, s', rail_emit lc env s')))"

definition clearFocus :: "(string \<Rightarrow> string \<Rightarrow> int) \<Rightarrow> rail_env \<Rightarrow> thread_rail \<Rightarrow> thread_rail \<times> rail_event list" where
  "clearFocus lc env s =
     (if tr_focusedId s = None then (s, [])
      else (let s' = s\<lparr>tr_focusedId := None\<rparr> in (s', rail_emit lc env s')))"

definition threadsForLine :: "(string \<Rightarrow> string \<Rightarrow> int) \<Rightarrow> rail_env \<Rightarrow> jsnum \<Rightarrow> anchored_thread list" where
  "threadsForLine lc env line =
     (if safe_integer line = None \<or> \<not> num_le (Num 1) line then []
      else filter (\<lambda>t. anchorContainsLine (th_anchor t) line) (visibleThreads lc env))"

datatype rail_op =
    Rail_focus string | Rail_clear | Rail_subscribe listener | Rail_unsubscribe listener | Rail_feed rail_env

fun rail_step ::
  "(string \<Rightarrow> string \<Rightarrow> int) \<Rightarrow> rail_op \<Rightarrow> rail_env \<times> thread_rail \<Rightarrow> (rail_env \<times> thread_rail) \<times> rail_event list" where
  "rail_step lc (Rail_focus k) (env, s) = (let (b, s', es) = focusThread lc env k s in ((env, s'), es @ [Did b]))"
| "rail_step lc Rail_clear (env, s) = (let (s', es) = clearFocus lc env s in ((env, s'), es))"
| "rail_step lc (Rail_subscribe l) (env, s) = ((env, s\<lparr>tr_listeners := subscribe l (tr_listeners s)\<rparr>), [])"
| "rail_step lc (Rail_unsubscribe l) (env, s) = ((env, s\<lparr>tr_listeners := unsubscribe l (tr_listeners s)\<rparr>), [])"
| "rail_step lc (Rail_feed env') (env, s) = ((env', s), [])"

section \<open>The order of the rail\<close>

definition created_at :: "anchored_thread \<Rightarrow> rat" where
  "created_at t = the (finite_num (th_created_ms t))"

text \<open>The comparator the code's function is on valid threads: newest first, then by id.\<close>

definition rail_order :: "(string \<Rightarrow> string \<Rightarrow> int) \<Rightarrow> anchored_thread \<Rightarrow> anchored_thread \<Rightarrow> int" where
  "rail_order lc = then_cmp (\<lambda>a b. num_cmp (created_at b) (created_at a)) (\<lambda>a b. lc (th_id a) (th_id b))"

lemma rail_comparator: "comparator lc \<Longrightarrow> comparator (rail_order lc)"
  unfolding rail_order_def
  using comparator_flip[OF comparator_key[OF comparator_num, of created_at]]
  by (rule comparator_then) (erule comparator_key)

lemma valid_created:
  assumes "validThreadForFile t f"
  shows "th_created_ms t = Num (created_at t)"
proof -
  have "finite_num (th_created_ms t) \<noteq> None" using assms by (simp add: validThreadForFile_def split: if_splits)
  then show ?thesis by (cases "th_created_ms t") (simp_all add: created_at_def finite_num_def)
qed

lemma compareThreads_valid:
  assumes "validThreadForFile a f" and "validThreadForFile b f"
  shows "compareThreads lc a b = rail_order lc a b"
  unfolding compareThreads_def rail_order_def then_cmp_def valid_created[OF assms(1)] valid_created[OF assms(2)]
  by (simp add: num_differs_def sub_sign_def num_cmp_def)

lemma visible_sort:
  "visibleThreads lc env = js_sort (rail_order lc) (filter (\<lambda>t. validThreadForFile t (re_filePath env)) (re_threads env))"
  unfolding visibleThreads_def by (rule js_sort_cong) (auto simp: compareThreads_valid)

lemma set_visible:
  "set (visibleThreads lc env) = {t \<in> set (re_threads env). validThreadForFile t (re_filePath env)}"
  by (auto simp: visibleThreads_def)

lemma safe_integer_Some: "safe_integer v = Some i \<longleftrightarrow> v = Num (rat_of_int i) \<and> \<bar>i\<bar> \<le> 2 ^ 53 - 1"
  by (cases v) (auto simp: safe_integer_def)

text \<open>What a valid anchor is, and the lines it covers.\<close>

lemma validAnchor_iff:
  "validAnchorForFile a f \<longleftrightarrow> an_file_path a = f \<and>
     (an_line_start a = None \<and> an_line_end a = None \<or>
      (\<exists>i j. an_line_start a = Some (Num (rat_of_int i)) \<and> an_line_end a = Some (Num (rat_of_int j)) \<and>
         1 \<le> i \<and> i \<le> j \<and> j \<le> 2 ^ 53 - 1))"
proof -
  have "safe_integer s \<noteq> None \<and> safe_integer e \<noteq> None \<and> num_le (Num 1) s \<and> num_le s e \<longleftrightarrow>
      (\<exists>i j. s = Num (rat_of_int i) \<and> e = Num (rat_of_int j) \<and> 1 \<le> i \<and> i \<le> j \<and> j \<le> 2 ^ 53 - 1)" for s e
    by (fastforce simp: safe_integer_Some num_le_def)
  then show ?thesis
    by (auto simp: validAnchorForFile_def split: option.split)
qed

lemma contains_valid:
  assumes "validAnchorForFile a f"
  shows "anchorContainsLine a (Num (rat_of_int l)) \<longleftrightarrow>
    (\<exists>i j. an_line_start a = Some (Num (rat_of_int i)) \<and> an_line_end a = Some (Num (rat_of_int j)) \<and> i \<le> l \<and> l \<le> j)"
  using assms by (auto simp: validAnchor_iff anchorContainsLine_def num_le_def)

lemma threadsForLine_eq:
  "threadsForLine lc env x =
     (case safe_integer x of
        None \<Rightarrow> []
      | Some l \<Rightarrow> if l < 1 then [] else filter (\<lambda>t. anchorContainsLine (th_anchor t) (Num (rat_of_int l))) (visibleThreads lc env))"
  by (auto simp: threadsForLine_def num_le_def safe_integer_Some split: option.split)

text \<open>The rail shows exactly the valid threads of the active file, each as often as the caller supplied it
  (resolved or not), newest first, by \<open>localeCompare\<close> of the ids on equal times and in the caller's order when
  that ties too; \<open>threadsForLine\<close> is the part of it, in that order, whose line range covers the line: never a
  file-level thread, and nothing for a number that is not a positive safe integer.\<close>
theorem rail_visible_order:
  assumes "comparator lc"
  shows "mset (visibleThreads lc env) = filter_mset (\<lambda>t. validThreadForFile t (re_filePath env)) (mset (re_threads env)) \<and>
    sorted_wrt (\<lambda>a b. created_at b < created_at a \<or> created_at a = created_at b \<and> lc (th_id a) (th_id b) \<le> 0)
      (visibleThreads lc env) \<and>
    filter (\<lambda>t. rail_order lc a t = 0) (visibleThreads lc env) =
      filter (\<lambda>t. rail_order lc a t = 0 \<and> validThreadForFile t (re_filePath env)) (re_threads env) \<and>
    (\<exists>p. threadsForLine lc env x = filter p (visibleThreads lc env)) \<and>
    (t \<in> set (threadsForLine lc env x) \<longleftrightarrow>
      t \<in> set (re_threads env) \<and> validThreadForFile t (re_filePath env) \<and>
      (\<exists>l i j. safe_integer x = Some l \<and> 1 \<le> l \<and> an_line_start (th_anchor t) = Some (Num (rat_of_int i)) \<and>
         an_line_end (th_anchor t) = Some (Num (rat_of_int j)) \<and> i \<le> l \<and> l \<le> j))"
proof (intro conjI)
  note c = rail_comparator[OF assms]
  show "mset (visibleThreads lc env) = filter_mset (\<lambda>t. validThreadForFile t (re_filePath env)) (mset (re_threads env))"
    by (simp add: visibleThreads_def)
  show "sorted_wrt (\<lambda>a b. created_at b < created_at a \<or> created_at a = created_at b \<and> lc (th_id a) (th_id b) \<le> 0)
      (visibleThreads lc env)"
    using comparator.js_sort_sorted[OF c] unfolding visible_sort
    by (rule sorted_wrt_mono_rel[rotated]) (auto simp: rail_order_def then_cmp_def num_cmp_def split: if_splits)
  show "filter (\<lambda>t. rail_order lc a t = 0) (visibleThreads lc env) =
      filter (\<lambda>t. rail_order lc a t = 0 \<and> validThreadForFile t (re_filePath env)) (re_threads env)"
    by (simp add: visible_sort comparator.js_sort_stable[OF c] conj_commute)
  show "\<exists>p. threadsForLine lc env x = filter p (visibleThreads lc env)"
    by (cases "safe_integer x") (auto simp: threadsForLine_eq intro: exI[of _ "\<lambda>_. False"])
  show "t \<in> set (threadsForLine lc env x) \<longleftrightarrow>
      t \<in> set (re_threads env) \<and> validThreadForFile t (re_filePath env) \<and>
      (\<exists>l i j. safe_integer x = Some l \<and> 1 \<le> l \<and> an_line_start (th_anchor t) = Some (Num (rat_of_int i)) \<and>
         an_line_end (th_anchor t) = Some (Num (rat_of_int j)) \<and> i \<le> l \<and> l \<le> j)"
  proof (cases "validThreadForFile t (re_filePath env)")
    case True
    then have "validAnchorForFile (th_anchor t) (re_filePath env)"
      by (simp add: validThreadForFile_def split: if_splits)
    then show ?thesis using True
      by (cases "safe_integer x") (auto simp: threadsForLine_eq set_visible contains_valid)
  next
    case False
    then show ?thesis by (cases "safe_integer x") (auto simp: threadsForLine_eq set_visible)
  qed
qed

section \<open>Focus\<close>

lemma find_id_None: "List.find (\<lambda>t. th_id t = k) ts = None \<Longrightarrow> k \<notin> th_id ` set ts"
  by (auto simp: find_None_iff)

lemma find_id_Some: "List.find (\<lambda>t. th_id t = k) ts = Some t \<Longrightarrow> th_id t = k \<and> t \<in> set ts \<and> k \<in> th_id ` set ts"
  by (auto simp: find_Some_iff)

lemma focusThread_eq:
  "focusThread lc env k s =
     (if k \<notin> th_id ` set (visibleThreads lc env) then (False, s, [])
      else if tr_focusedId s = Some k then (True, s, [])
      else (True, s\<lparr>tr_focusedId := Some k\<rparr>, emit_to (tr_listeners s) (Some k)))"
proof (cases "List.find (\<lambda>t. th_id t = k) (visibleThreads lc env)")
  case None
  then show ?thesis using find_id_None[OF None] by (simp add: focusThread_def)
next
  case (Some t)
  then show ?thesis using find_id_Some[OF Some]
    by (auto simp: focusThread_def rail_emit_def focusedThreadId_def focusedThread_def)
qed

lemma focusedThreadId_eq:
  "focusedThreadId lc env s =
     (case tr_focusedId s of None \<Rightarrow> None | Some k \<Rightarrow> if k \<in> th_id ` set (visibleThreads lc env) then Some k else None)"
proof (cases "tr_focusedId s")
  case (Some k)
  show ?thesis
  proof (cases "List.find (\<lambda>t. th_id t = k) (visibleThreads lc env)")
    case None
    then show ?thesis using Some find_id_None[OF None] by (simp add: focusedThreadId_def focusedThread_def)
  next
    case (Some t)
    then show ?thesis using \<open>tr_focusedId s = Some k\<close> find_id_Some[OF Some]
      by (simp add: focusedThreadId_def focusedThread_def)
  qed
qed (simp add: focusedThreadId_def focusedThread_def)

text \<open>
  While the files and threads stay, a subscriber that keeps the last id it read is up to date, provided the
  focused thread is visible now or nothing is focused.
\<close>

definition rail_ok :: "(string \<Rightarrow> string \<Rightarrow> int) \<Rightarrow> rail_env \<times> thread_rail \<Rightarrow> bool" where
  "rail_ok lc p \<longleftrightarrow> focusedThreadId lc (fst p) (snd p) = tr_focusedId (snd p)"

fun rail_steady :: "rail_op \<Rightarrow> bool" where
  "rail_steady (Rail_feed e) = False"
| "rail_steady _ = True"

fun rail_drops :: "listener \<Rightarrow> rail_op \<Rightarrow> bool" where
  "rail_drops l (Rail_unsubscribe m) = (l = m)"
| "rail_drops l _ = False"

interpretation rail: observable "rail_step lc" "rail_ok lc" rail_steady "\<lambda>p. tr_listeners (snd p)"
  "\<lambda>p. focusedThreadId lc (fst p) (snd p)" rail_drops for lc
proof unfold_locales
  fix p :: "rail_env \<times> thread_rail" and x :: rail_op and l :: listener
  obtain env s where p: "p = (env, s)" by (cases p)
  show "rail_ok lc (fst (rail_step lc x p))" if "rail_ok lc p" "rail_steady x"
    using that by (cases x) (auto simp: p rail_ok_def focusThread_eq clearFocus_def focusedThreadId_eq Let_def
        split: if_splits option.splits)
  show "l \<in> set (tr_listeners (snd (fst (rail_step lc x p))))" if "l \<in> set (tr_listeners (snd p))" "\<not> rail_drops l x"
    using that by (cases x) (auto simp: p focusThread_eq clearFocus_def Let_def)
  show "mirror l (focusedThreadId lc (fst p) (snd p)) (sent (snd (rail_step lc x p))) =
      focusedThreadId lc (fst (fst (rail_step lc x p))) (snd (fst (rail_step lc x p)))"
    if "rail_ok lc p" "rail_steady x" "l \<in> set (tr_listeners (snd p))" "\<not> rail_drops l x"
    using that by (cases x) (auto simp: p rail_ok_def focusThread_eq clearFocus_def rail_emit_def focusedThreadId_eq
        Let_def split: option.splits)
qed

text \<open>\<open>focusThread\<close> answers true exactly for the ids of visible threads and then the focused id is that id; the
  focused thread is always one of the visible threads, whatever the file and the threads have become since; and
  while they stay the same, a subscriber that keeps the id it read at its last call always has the focused id.
\<close>
theorem rail_focus_scoped:
  fixes s :: thread_rail
  shows "(fst (focusThread lc env k s) \<longleftrightarrow> k \<in> th_id ` set (visibleThreads lc env)) \<and>
    (fst (focusThread lc env k s) \<longrightarrow> focusedThreadId lc env (fst (snd (focusThread lc env k s))) = Some k) \<and>
    (focusedThread lc env s = Some t \<longrightarrow> t \<in> set (visibleThreads lc env) \<and> tr_focusedId s = Some (th_id t)) \<and>
    (tr_focusedId s = None \<and> l \<in> set (tr_listeners s) \<and> (\<forall>x\<in>set xs. rail_steady x \<and> \<not> rail_drops l x) \<longrightarrow>
      mirror l None (sent (snd (run (rail_step lc) xs (env, s)))) =
      (let (env', s') = fst (run (rail_step lc) xs (env, s)) in focusedThreadId lc env' s'))"
proof -
  have answer: "fst (focusThread lc env k s) \<longleftrightarrow> k \<in> th_id ` set (visibleThreads lc env)"
    by (simp add: focusThread_eq)
  have focused: "focusedThreadId lc env (fst (snd (focusThread lc env k s))) = Some k" if "fst (focusThread lc env k s)"
    using that by (auto simp: focusThread_eq focusedThreadId_eq split: if_splits)
  have visible: "t \<in> set (visibleThreads lc env) \<and> tr_focusedId s = Some (th_id t)" if "focusedThread lc env s = Some t"
    using that by (auto simp: focusedThread_def find_Some_iff split: option.splits)
  have current: "mirror l None (sent (snd (run (rail_step lc) xs (env, s)))) =
      (let (env', s') = fst (run (rail_step lc) xs (env, s)) in focusedThreadId lc env' s')"
    if "tr_focusedId s = None" "l \<in> set (tr_listeners s)" "\<forall>x\<in>set xs. rail_steady x \<and> \<not> rail_drops l x"
  proof -
    have v: "focusedThreadId lc env s = None" "rail_ok lc (env, s)" using that(1) by (simp_all add: rail_ok_def focusedThreadId_eq)
    then show ?thesis using rail.run_mirror[of lc "(env, s)" xs l] that(2,3) by (simp add: split_def Let_def)
  qed
  show ?thesis using answer focused visible current by blast
qed

definition sample_thread :: "string \<Rightarrow> rat \<Rightarrow> anchored_thread" where
  "sample_thread k t =
     \<lparr>th_id = k, th_kind = Flag, th_author_keeper_id = ''a'',
      th_anchor = \<lparr>an_file_path = ''f'', an_line_start = Some (Num 2), an_line_end = Some (Num 3), an_symbol_hint = None\<rparr>,
      th_body = [], th_created_ms = Num t, th_resolved = False, th_reply_count = Num 0\<rparr>"

definition sample_rail :: rail_env where
  "sample_rail = \<lparr>re_filePath = ''f'', re_threads = [sample_thread ''x'' 1, sample_thread ''y'' 2, sample_thread '' '' 3]\<rparr>"

lemma sample_rail_valid:
  "validThreadForFile (sample_thread k t) ''f'' \<longleftrightarrow> trim k \<noteq> []"
  by (simp add: validThreadForFile_def sample_thread_def validAnchorForFile_def finite_num_def safe_integer_def
      num_le_def trim_eq_Nil is_space_def)

lemma rail_visible_order_witness:
  "sample_thread ''x'' 1 \<in> set (threadsForLine str_cmp sample_rail (Num 3))"
proof -
  have "sample_thread ''x'' 1 \<in> set (re_threads sample_rail)" "validThreadForFile (sample_thread ''x'' 1) (re_filePath sample_rail)"
    by (simp_all add: sample_rail_def sample_rail_valid trim_eq_Nil is_space_def)
  moreover have "safe_integer (Num 3) = Some 3" by (simp add: safe_integer_def)
  moreover have "an_line_start (th_anchor (sample_thread ''x'' 1)) = Some (Num (rat_of_int 2))"
    "an_line_end (th_anchor (sample_thread ''x'' 1)) = Some (Num (rat_of_int 3))" by (simp_all add: sample_thread_def)
  ultimately show ?thesis
    using rail_visible_order[OF str_order.comparator_axioms, where env = sample_rail and x = "Num 3" and t = "sample_thread ''x'' 1"]
    by force
qed

lemma sample_rail_ids: "th_id ` set (visibleThreads lc sample_rail) = {''x'', ''y''}"
proof -
  have "set (visibleThreads lc sample_rail) = {sample_thread ''x'' 1, sample_thread ''y'' 2}"
    unfolding set_visible by (auto simp: sample_rail_def sample_rail_valid trim_eq_Nil is_space_def)
  then show ?thesis by (simp add: sample_thread_def)
qed

lemma rail_focus_scoped_witness:
  "mirror 0 None (sent (snd (run (rail_step str_cmp) [Rail_focus ''x'', Rail_focus ''z'']
      (sample_rail, createAnchoredThreadRail\<lparr>tr_listeners := [0]\<rparr>)))) = Some ''x''"
proof -
  let ?p = "(sample_rail, createAnchoredThreadRail\<lparr>tr_listeners := [0]\<rparr>)"
  have "(let (env', s') = fst (run (rail_step str_cmp) [Rail_focus ''x'', Rail_focus ''z''] ?p) in focusedThreadId str_cmp env' s') = Some ''x''"
    by (simp add: createAnchoredThreadRail_def focusThread_eq focusedThreadId_eq sample_rail_ids)
  moreover have "tr_focusedId (snd ?p) = None" "0 \<in> set (tr_listeners (snd ?p))"
    "\<forall>x\<in>set [Rail_focus ''x'', Rail_focus ''z'']. rail_steady x \<and> \<not> rail_drops 0 x"
    by (simp_all add: createAnchoredThreadRail_def)
  ultimately show ?thesis
    using rail_focus_scoped[where lc = str_cmp and env = sample_rail and s = "snd ?p" and l = 0
        and xs = "[Rail_focus ''x'', Rail_focus ''z'']"]
    by (simp only: snd_conv)
qed

end
