(* ===== verification/Focus_Scope.thy ===== *)
theory Focus_Scope
  imports Js_Text Contracts
begin

text \<open>
  \<open>headless-core/focus-scope.ts\<close>: the focus trap of drawers and dialogs. The document is an argument: the
  container the options' callback answers, its descendants with their tags and attributes in document order,
  which nodes accept focus and which lie inside the container. The element that has the focus is state, and
  the default action of the Tab key is an argument where a claim follows the focus.
\<close>

section \<open>The document\<close>

type_synonym node = nat

record element =
  el_node :: node
  el_tag :: string
  el_attrs :: "(string \<times> string) list"

record focus_env =
  fe_container :: "node option"
  fe_descendants :: "element list"
  fe_focusable :: "node \<Rightarrow> bool"
  fe_inside :: "node \<Rightarrow> bool"

definition attr :: "string \<Rightarrow> element \<Rightarrow> string option" where
  "attr a e = map_of (el_attrs e) a"

definition has_attr :: "string \<Rightarrow> element \<Rightarrow> bool" where
  "has_attr a e \<longleftrightarrow> attr a e \<noteq> None"

text \<open>The terms of the selector list; HTML compares the value of \<open>type\<close> without regard to case.\<close>

definition TABBABLE_SELECTOR :: "(element \<Rightarrow> bool) list" where
  "TABBABLE_SELECTOR =
     [\<lambda>e. el_tag e = ''a'' \<and> has_attr ''href'' e,
      \<lambda>e. el_tag e = ''button'' \<and> \<not> has_attr ''disabled'' e,
      \<lambda>e. el_tag e = ''input'' \<and> \<not> has_attr ''disabled'' e \<and> map_option to_lower (attr ''type'' e) \<noteq> Some ''hidden'',
      \<lambda>e. el_tag e = ''select'' \<and> \<not> has_attr ''disabled'' e,
      \<lambda>e. el_tag e = ''textarea'' \<and> \<not> has_attr ''disabled'' e,
      \<lambda>e. has_attr ''tabindex'' e \<and> attr ''tabindex'' e \<noteq> Some ''-1'',
      \<lambda>e. attr ''contenteditable'' e = Some '''',
      \<lambda>e. attr ''contenteditable'' e = Some ''true'']"

definition collectTabbables :: "focus_env \<Rightarrow> node list" where
  "collectTabbables env =
     map el_node (filter (\<lambda>e. attr ''tabindex'' e \<noteq> Some ''-1'')
       (filter (\<lambda>e. list_ex (\<lambda>p. p e) TABBABLE_SELECTOR) (fe_descendants env)))"

text \<open>\<open>el.focus()\<close> moves the focus to a node that accepts it and does nothing otherwise.\<close>

definition focusElement :: "focus_env \<Rightarrow> node option \<Rightarrow> node option \<Rightarrow> node option" where
  "focusElement env el doc = (case el of None \<Rightarrow> doc | Some n \<Rightarrow> if fe_focusable env n then Some n else doc)"

section \<open>The scope\<close>

datatype initial_focus = Focus_first | Focus_container | Focus_fn "focus_env \<Rightarrow> node option"

record focus_options =
  fo_loop :: "bool option"
  fo_restoreFocus :: "bool option"
  fo_initialFocus :: "initial_focus option"

record focus_scope =
  fs_active :: bool
  fs_priorFocus :: "node option"
  fs_keydownHandler :: bool
  fs_attachedTo :: "node option"

definition createFocusScope :: focus_scope where
  "createFocusScope = \<lparr>fs_active = False, fs_priorFocus = None, fs_keydownHandler = False, fs_attachedTo = None\<rparr>"

definition loops :: "focus_options \<Rightarrow> bool" where
  "loops opts = (case fo_loop opts of None \<Rightarrow> True | Some b \<Rightarrow> b)"

definition restores :: "focus_options \<Rightarrow> bool" where
  "restores opts = (case fo_restoreFocus opts of None \<Rightarrow> True | Some b \<Rightarrow> b)"

definition first_of :: "node list \<Rightarrow> node option" where
  "first_of ts = (case ts of [] \<Rightarrow> None | t # _ \<Rightarrow> Some t)"

definition last_of :: "node list \<Rightarrow> node option" where
  "last_of ts = (if ts = [] then None else Some (last ts))"

definition applyInitialFocus :: "focus_options \<Rightarrow> focus_env \<Rightarrow> node \<Rightarrow> node option \<Rightarrow> node option" where
  "applyInitialFocus opts env container doc =
     (case (case fo_initialFocus opts of None \<Rightarrow> Focus_first | Some i \<Rightarrow> i) of
        Focus_fn f \<Rightarrow> focusElement env (f env) doc
      | Focus_container \<Rightarrow> focusElement env (Some container) doc
      | Focus_first \<Rightarrow>
          focusElement env (case first_of (collectTabbables env) of None \<Rightarrow> Some container | Some t \<Rightarrow> Some t) doc)"

text \<open>Whether the handler prevents the default action of the key, and the focus it leaves.\<close>

definition focus_handleKeydown ::
  "focus_options \<Rightarrow> focus_env \<Rightarrow> string \<Rightarrow> bool \<Rightarrow> node option \<Rightarrow> bool \<times> node option" where
  "focus_handleKeydown opts env key shiftKey doc =
     (if key \<noteq> ''Tab'' then (False, doc)
      else case fe_container env of
          None \<Rightarrow> (False, doc)
        | Some container \<Rightarrow>
            (let tabbables = collectTabbables env in
             if tabbables = [] then (True, focusElement env (Some container) doc)
             else if \<not> loops opts then (False, doc)
             else if shiftKey \<and> doc = Some (hd tabbables) then (True, focusElement env (Some (last tabbables)) doc)
             else if \<not> shiftKey \<and> doc = Some (last tabbables) then (True, focusElement env (Some (hd tabbables)) doc)
             else (False, doc)))"

definition focus_activate :: "focus_options \<Rightarrow> focus_env \<Rightarrow> node option \<Rightarrow> focus_scope \<Rightarrow> focus_scope \<times> node option" where
  "focus_activate opts env doc s =
     (if fs_active s then (s, doc)
      else case fe_container env of
          None \<Rightarrow> (s, doc)
        | Some container \<Rightarrow>
            (s\<lparr>fs_priorFocus := doc, fs_keydownHandler := True, fs_attachedTo := Some container, fs_active := True\<rparr>,
             applyInitialFocus opts env container doc))"

definition focus_deactivate :: "focus_options \<Rightarrow> focus_env \<Rightarrow> node option \<Rightarrow> focus_scope \<Rightarrow> focus_scope \<times> node option" where
  "focus_deactivate opts env doc s =
     (if \<not> fs_active s then (s, doc)
      else (s\<lparr>fs_keydownHandler := False, fs_attachedTo := None, fs_priorFocus := None, fs_active := False\<rparr>,
            if restores opts then focusElement env (fs_priorFocus s) doc else doc))"

definition focusFirst :: "focus_env \<Rightarrow> node option \<Rightarrow> node option" where
  "focusFirst env doc =
     (if fe_container env = None then doc else focusElement env (first_of (collectTabbables env)) doc)"

definition focusLast :: "focus_env \<Rightarrow> node option \<Rightarrow> node option" where
  "focusLast env doc =
     (if fe_container env = None then doc else focusElement env (last_of (collectTabbables env)) doc)"

definition focus_contains :: "focus_env \<Rightarrow> node \<Rightarrow> bool" where
  "focus_contains env el = (if fe_container env = None then False else fe_inside env el)"

definition focus_tabbables :: "focus_env \<Rightarrow> node list" where
  "focus_tabbables env = (if fe_container env = None then [] else collectTabbables env)"

text \<open>
  The calls, the changes of the document between them, and the keys: a key event reaches the handler when the
  container the handler was attached to receives it; otherwise, or when the handler does not prevent it, the
  browser's default action \<open>dflt\<close> moves the focus.
\<close>

datatype focus_op =
    Fs_activate | Fs_deactivate | Fs_focusFirst | Fs_focusLast
  | Fs_key node string bool | Fs_dom focus_env | Fs_moved "node option"

type_synonym focus_world = "focus_env \<times> node option \<times> focus_scope"

fun focus_step ::
  "focus_options \<Rightarrow> (string \<Rightarrow> bool \<Rightarrow> node option \<Rightarrow> node option) \<Rightarrow> focus_op \<Rightarrow> focus_world \<Rightarrow> focus_world \<times> bool list" where
  "focus_step opts dflt Fs_activate (env, doc, s) = (let (s', doc') = focus_activate opts env doc s in ((env, doc', s'), []))"
| "focus_step opts dflt Fs_deactivate (env, doc, s) = (let (s', doc') = focus_deactivate opts env doc s in ((env, doc', s'), []))"
| "focus_step opts dflt Fs_focusFirst (env, doc, s) = ((env, focusFirst env doc, s), [])"
| "focus_step opts dflt Fs_focusLast (env, doc, s) = ((env, focusLast env doc, s), [])"
| "focus_step opts dflt (Fs_key el key shift) (env, doc, s) =
     (let (prevented, doc') =
        (if fs_keydownHandler s \<and> fs_attachedTo s = Some el then focus_handleKeydown opts env key shift doc else (False, doc))
      in ((env, if prevented then doc' else dflt key shift doc', s), [prevented]))"
| "focus_step opts dflt (Fs_dom env') (env, doc, s) = ((env', doc, s), [])"
| "focus_step opts dflt (Fs_moved doc') (env, doc, s) = ((env, doc', s), [])"

section \<open>The life of a scope\<close>

definition focus_ok :: "focus_world \<Rightarrow> bool" where
  "focus_ok p = (let s = snd (snd p) in
     if fs_active s then fs_keydownHandler s \<and> fs_attachedTo s \<noteq> None else s = createFocusScope)"

interpretation focus_component: component "focus_step opts dflt" focus_ok "\<lambda>_. True" for opts dflt
proof unfold_locales
  fix p :: focus_world and x :: focus_op
  assume "focus_ok p"
  then show "focus_ok (fst (focus_step opts dflt x p))"
    by (cases p; cases x)
      (auto simp: focus_ok_def focus_activate_def focus_deactivate_def createFocusScope_def Let_def
        split: if_splits option.splits prod.splits)
qed

text \<open>Activating and deactivating apart, a call leaves an active scope and what it remembers alone.\<close>

lemma focus_step_keeps:
  assumes "fs_active (snd (snd p))" and "x \<noteq> Fs_deactivate"
  shows "snd (snd (fst (focus_step opts dflt x p))) = snd (snd p)"
  using assms by (cases p; cases x) (auto simp: focus_activate_def Let_def split: prod.split)

lemma focus_run_keeps:
  assumes "fs_active (snd (snd p))" and "Fs_deactivate \<notin> set xs"
  shows "snd (snd (fst (run (focus_step opts dflt) xs p))) = snd (snd p)"
  using assms
proof (induction xs arbitrary: p)
  case (Cons x xs)
  have "snd (snd (fst (focus_step opts dflt x p))) = snd (snd p)"
    using Cons.prems by (intro focus_step_keeps) auto
  then show ?case
    using Cons.IH[of "fst (focus_step opts dflt x p)"] Cons.prems
    by (simp add: run_Cons del: run.simps(2) focus_step.simps)
qed simp

text \<open>Whatever happens while a scope is active (keys, focus moves, changes of the document, repeated activation),
  deactivating it gives the focus back to the element that had it when it was activated, if that element still
  accepts it, and leaves the scope as it was created.\<close>
theorem focus_restored:
  assumes "focus_ok (env, Some p, s)" and "\<not> fs_active s" and "fe_container env \<noteq> None" and "restores opts"
    and "Fs_deactivate \<notin> set xs"
    and "fst (run (focus_step opts dflt) (Fs_activate # xs @ [Fs_deactivate]) (env, Some p, s)) = (env', doc', s')"
    and "fe_focusable env' p"
  shows "doc' = Some p \<and> s' = createFocusScope"
proof -
  let ?w = "fst (focus_step opts dflt Fs_activate (env, Some p, s))"
  have a: "fs_active (snd (snd ?w))" "fs_priorFocus (snd (snd ?w)) = Some p"
    using assms(2,3) by (auto simp: focus_activate_def)
  obtain env1 doc1 s1 where r: "fst (run (focus_step opts dflt) xs ?w) = (env1, doc1, s1)" by (rule prod_cases3)
  then have s1: "fs_active s1" "fs_priorFocus s1 = Some p"
    using focus_run_keeps[OF a(1) assms(5), of opts dflt] a by simp_all
  have "fst (focus_step opts dflt Fs_deactivate (env1, doc1, s1)) = (env', doc', s')"
    using assms(6) r by (simp add: run_Cons run_append del: run.simps(2))
  then show ?thesis
    using s1 assms(4,7) by (auto simp: focus_deactivate_def focusElement_def createFocusScope_def)
qed

section \<open>The trap\<close>

text \<open>
  What the trap relies on: between two neighbours of the collected list the browser's default action moves the
  focus from one to the other. With a positive tabindex the browser's order is another than that of the document.
\<close>

definition tab_order :: "(string \<Rightarrow> bool \<Rightarrow> node option \<Rightarrow> node option) \<Rightarrow> node list \<Rightarrow> bool" where
  "tab_order dflt ts \<longleftrightarrow>
     (\<forall>i. Suc i < length ts \<longrightarrow> dflt ''Tab'' False (Some (ts ! i)) = Some (ts ! Suc i) \<and>
        dflt ''Tab'' True (Some (ts ! Suc i)) = Some (ts ! i))"

definition tab_move :: "bool \<Rightarrow> int" where
  "tab_move shift = (if shift then - 1 else 1)"

definition cyclic :: "node list \<Rightarrow> int \<Rightarrow> node" where
  "cyclic ts k = ts ! nat (k mod int (length ts))"

lemma ring_index: "0 < n \<Longrightarrow> nat (k mod int n) < n"
  using pos_mod_bound[of "int n" k] pos_mod_sign[of "int n" k] by linarith

lemma ring_index_int: "0 < n \<Longrightarrow> int (nat (k mod int n)) = k mod int n"
  using pos_mod_sign[of "int n" k] by linarith

lemma cyclic_mem: "ts \<noteq> [] \<Longrightarrow> cyclic ts k \<in> set ts"
  by (simp add: cyclic_def ring_index)

lemma cyclic_mod: "cyclic ts (k mod int (length ts) + d) = cyclic ts (k + d)"
  by (simp add: cyclic_def mod_add_left_eq)

lemma trap_key:
  assumes "loops opts" and "fe_container env = Some c" and "fs_keydownHandler s" and "fs_attachedTo s = Some c"
    and ts: "collectTabbables env = ts" and "distinct ts" and "\<forall>t\<in>set ts. fe_focusable env t" and "tab_order dflt ts"
    and i: "i < length ts"
  shows "fst (focus_step opts dflt (Fs_key c ''Tab'' shift) (env, Some (ts ! i), s)) =
         (env, Some (cyclic ts (int i + tab_move shift)), s)"
proof -
  have ne: "ts \<noteq> []" using i by auto
  have first: "Some (ts ! i) = Some (hd ts) \<longleftrightarrow> i = 0"
    using assms(6) i ne by (simp add: hd_conv_nth nth_eq_iff_index_eq)
  have final: "Some (ts ! i) = Some (last ts) \<longleftrightarrow> Suc i = length ts"
    using assms(6) i ne by (auto simp: last_conv_nth nth_eq_iff_index_eq)
  have ends: "fe_focusable env (hd ts)" "fe_focusable env (last ts)" using assms(7) ne by simp_all
  show ?thesis
  proof (cases shift)
    case True
    then show ?thesis
    proof (cases "i = 0")
      case True
      have "(- 1) mod int (length ts) = int (length ts) - 1" using ne by (cases ts) (auto simp: zmod_minus1)
      moreover have "nat (int (length ts) - 1) = length ts - 1" by linarith
      ultimately have "cyclic ts (int i + tab_move shift) = last ts"
        using \<open>shift\<close> True ne by (simp add: cyclic_def tab_move_def last_conv_nth nat_diff_distrib)
      then show ?thesis using True \<open>shift\<close> assms ne ends
        by (simp add: focus_handleKeydown_def ts first focusElement_def hd_conv_nth)
    next
      case False
      then have "cyclic ts (int i + tab_move shift) = ts ! (i - 1)"
        using \<open>shift\<close> i by (simp add: cyclic_def tab_move_def nat_diff_distrib)
      moreover have "dflt ''Tab'' True (Some (ts ! i)) = Some (ts ! (i - 1))"
        using assms(8) i False by (cases i) (simp_all add: tab_order_def)
      ultimately show ?thesis using False \<open>shift\<close> assms ne first
        by (simp add: focus_handleKeydown_def ts)
    qed
  next
    case False
    then show ?thesis
    proof (cases "Suc i = length ts")
      case True
      have "int i + 1 = int (length ts)" using True by simp
      then have "cyclic ts (int i + tab_move shift) = hd ts"
        using False ne by (simp add: cyclic_def tab_move_def hd_conv_nth)
      then show ?thesis using True \<open>\<not> shift\<close> assms ne ends final
        by (simp add: focus_handleKeydown_def ts focusElement_def)
    next
      case last: False
      then have "cyclic ts (int i + tab_move shift) = ts ! Suc i"
        using \<open>\<not> shift\<close> i by (simp add: cyclic_def tab_move_def nat_add_distrib)
      moreover have "dflt ''Tab'' False (Some (ts ! i)) = Some (ts ! Suc i)"
        using assms(8) Suc_lessI[OF i last] by (simp add: tab_order_def)
      ultimately show ?thesis using last \<open>\<not> shift\<close> assms ne final
        by (simp add: focus_handleKeydown_def ts)
    qed
  qed
qed

text \<open>C22: While a looping scope is active and the focus starts on one of the collected elements, any sequence of Tab
  and Shift+Tab moves it around them as on a ring: it is on the element that many places further,
  modulo their number, and so always on a collected element. This is for a document in which the collected elements
  are distinct, every one accepts focus (none is disabled), and the browser's own Tab moves between neighbours of the
  collected list (\<open>tab_order\<close>: no positive tabindex among them and nothing else of the tab sequence in between); a
  disabled last element and a positive tabindex do let the focus out (\<open>disabled_last_escapes\<close>, \<open>positive_tabindex_escapes\<close>).\<close>
theorem focus_trap_ring:
  assumes "loops opts" and "fe_container env = Some c" and "fs_keydownHandler s" and "fs_attachedTo s = Some c"
    and "collectTabbables env = ts" and "distinct ts" and "\<forall>t\<in>set ts. fe_focusable env t" and "tab_order dflt ts"
    and "i < length ts"
  shows "fst (run (focus_step opts dflt) (map (Fs_key c ''Tab'') shifts) (env, Some (ts ! i), s)) =
         (env, Some (cyclic ts (int i + sum_list (map tab_move shifts))), s) \<and>
         cyclic ts (int i + sum_list (map tab_move shifts)) \<in> set ts"
proof (intro conjI)
  show "fst (run (focus_step opts dflt) (map (Fs_key c ''Tab'') shifts) (env, Some (ts ! i), s)) =
         (env, Some (cyclic ts (int i + sum_list (map tab_move shifts))), s)"
    using assms(9)
  proof (induction shifts arbitrary: i)
    case Nil
    then show ?case by (simp add: cyclic_def)
  next
    case (Cons b bs)
    let ?j = "nat ((int i + tab_move b) mod int (length ts))"
    have "?j < length ts" using Cons.prems by (intro ring_index) auto
    moreover have "int ?j = (int i + tab_move b) mod int (length ts)"
      using Cons.prems by (intro ring_index_int) auto
    moreover have "fst (focus_step opts dflt (Fs_key c ''Tab'' b) (env, Some (ts ! i), s)) = (env, Some (ts ! ?j), s)"
      using trap_key[OF assms(1-8) Cons.prems] by (simp add: cyclic_def)
    ultimately show ?case using Cons.IH[of ?j]
      by (simp add: run_Cons cyclic_mod add.assoc del: run.simps(2) focus_step.simps)
  qed
  show "cyclic ts (int i + sum_list (map tab_move shifts)) \<in> set ts" using assms(9) by (intro cyclic_mem) auto
qed

definition sample_focus_env :: focus_env where
  "sample_focus_env =
     \<lparr>fe_container = Some 1,
      fe_descendants = [\<lparr>el_node = 2, el_tag = ''a'', el_attrs = [(''href'', ''x'')]\<rparr>,
                        \<lparr>el_node = 3, el_tag = ''button'', el_attrs = [(''disabled'', '''')]\<rparr>,
                        \<lparr>el_node = 4, el_tag = ''div'', el_attrs = [(''tabindex'', ''0'')]\<rparr>,
                        \<lparr>el_node = 5, el_tag = ''button'', el_attrs = [(''tabindex'', ''-1'')]\<rparr>],
      fe_focusable = (\<lambda>n. True), fe_inside = (\<lambda>n. n \<in> {1..5})\<rparr>"

definition sample_dflt :: "string \<Rightarrow> bool \<Rightarrow> node option \<Rightarrow> node option" where
  "sample_dflt key shift doc = (if shift then (if doc = Some 4 then Some 2 else None) else if doc = Some 2 then Some 4 else None)"

definition default_focus_options :: focus_options where
  "default_focus_options = \<lparr>fo_loop = None, fo_restoreFocus = None, fo_initialFocus = None\<rparr>"

lemma sample_tabbables: "collectTabbables sample_focus_env = [2, 4]"
  by (simp add: collectTabbables_def sample_focus_env_def TABBABLE_SELECTOR_def attr_def has_attr_def)

lemma focus_restored_witness:
  "snd (fst (run (focus_step default_focus_options sample_dflt) [Fs_activate, Fs_key 1 ''Tab'' True, Fs_deactivate]
      (sample_focus_env, Some 9, createFocusScope))) = (Some 9, createFocusScope)"
proof -
  let ?r = "run (focus_step default_focus_options sample_dflt) (Fs_activate # [Fs_key 1 ''Tab'' True] @ [Fs_deactivate])
      (sample_focus_env, Some 9, createFocusScope)"
  obtain env' doc' s' where r: "fst ?r = (env', doc', s')" by (rule prod_cases3)
  have "fst (fst ?r) = sample_focus_env"
    by (simp add: run_Cons split_def Let_def del: run.simps(2))
  then have "fe_focusable env' 9" using r by (simp add: sample_focus_env_def)
  then have "doc' = Some 9 \<and> s' = createFocusScope"
    by (intro focus_restored[OF _ _ _ _ _ r])
      (simp_all add: focus_ok_def createFocusScope_def sample_focus_env_def restores_def default_focus_options_def)
  then show ?thesis using r by simp
qed

lemma focus_trap_ring_witness:
  "fst (run (focus_step default_focus_options sample_dflt) (map (Fs_key 1 ''Tab'') [False, False, True])
      (sample_focus_env, Some ([2, 4] ! 0), fst (focus_activate default_focus_options sample_focus_env None createFocusScope))) =
   (sample_focus_env, Some 4, fst (focus_activate default_focus_options sample_focus_env None createFocusScope))"
proof -
  let ?s = "fst (focus_activate default_focus_options sample_focus_env None createFocusScope)"
  have "fst (run (focus_step default_focus_options sample_dflt) (map (Fs_key 1 ''Tab'') [False, False, True])
      (sample_focus_env, Some ([2, 4] ! 0), ?s)) =
      (sample_focus_env, Some (cyclic [2, 4] (int 0 + sum_list (map tab_move [False, False, True]))), ?s)"
    by (rule conjunct1[OF focus_trap_ring[OF _ _ _ _ sample_tabbables]])
      (simp_all add: loops_def default_focus_options_def tab_order_def sample_dflt_def
        focus_activate_def sample_focus_env_def createFocusScope_def)
  moreover have "cyclic [2, 4] (int 0 + sum_list (map tab_move [False, False, True])) = 4"
    by (simp add: cyclic_def tab_move_def)
  ultimately show ?thesis by (simp only:)
qed

text \<open>
  The filter looks at \<open>disabled\<close> in the terms of the named elements only: a disabled control with a \<open>tabindex\<close>
  is collected by the \<open>tabindex\<close> term. And the trap catches the key only on its first and last element: on the
  container itself, where the scope puts the focus when nothing is tabbable yet or by option, Shift+Tab is left
  to the browser.
\<close>

lemma disabled_is_collected:
  "collectTabbables (sample_focus_env\<lparr>fe_descendants :=
     [\<lparr>el_node = 3, el_tag = ''button'', el_attrs = [(''disabled'', ''''), (''tabindex'', ''0'')]\<rparr>]\<rparr>) = [3]"
  by (simp add: collectTabbables_def TABBABLE_SELECTOR_def attr_def has_attr_def)

lemma disabled_last_escapes:
  "let env = sample_focus_env\<lparr>fe_descendants :=
       [\<lparr>el_node = 2, el_tag = ''a'', el_attrs = [(''href'', ''x'')]\<rparr>,
        \<lparr>el_node = 3, el_tag = ''button'', el_attrs = [(''disabled'', ''''), (''tabindex'', ''0'')]\<rparr>]\<rparr>
   in collectTabbables env = [2, 3] \<and> focus_handleKeydown default_focus_options env ''Tab'' False (Some 2) = (False, Some 2)"
  by (simp add: focus_handleKeydown_def collectTabbables_def TABBABLE_SELECTOR_def attr_def has_attr_def loops_def
      default_focus_options_def sample_focus_env_def)

text \<open>The browser visits the element with the positive tabindex first, so its last one is the first of the document.\<close>

lemma positive_tabindex_escapes:
  "let env = sample_focus_env\<lparr>fe_descendants :=
       [\<lparr>el_node = 2, el_tag = ''a'', el_attrs = [(''href'', ''x'')]\<rparr>,
        \<lparr>el_node = 3, el_tag = ''button'', el_attrs = [(''tabindex'', ''1'')]\<rparr>]\<rparr>
   in collectTabbables env = [2, 3] \<and> focus_handleKeydown default_focus_options env ''Tab'' False (Some 2) = (False, Some 2)"
  by (simp add: focus_handleKeydown_def collectTabbables_def TABBABLE_SELECTOR_def attr_def has_attr_def loops_def
      default_focus_options_def sample_focus_env_def)

lemma container_escapes:
  "focus_handleKeydown default_focus_options sample_focus_env ''Tab'' True (Some 1) = (False, Some 1)"
  using sample_tabbables
  by (simp add: focus_handleKeydown_def loops_def default_focus_options_def split: option.split)

end
