(* ===== verification/Ring_Buffer.thy ===== *)
theory Ring_Buffer
  imports Contracts
begin

text \<open>
  \<open>src/lib/ring-buffer.ts\<close>: a buffer of fixed capacity whose head moves down, so that the newest item comes
  first, and \<open>src/lib/heartbeat-history.ts\<close>: the up/down samples of each connector and what the page derives
  from them. A slot of the array that was never written is \<open>None\<close>.
\<close>

section \<open>The ring\<close>

record 'a ring =
  rb_capacity :: int
  rb_slots :: "'a option list"
  rb_head :: int
  rb_count :: int

text \<open>
  The capacity is a number that may not be an integer. The constructor throws its own error, whose message renders the
  number (here the error carries it), and \<open>new Array\<close> throws a \<open>RangeError\<close> for a length of \<open>2 ^ 32\<close> or more.
\<close>

datatype ring_error = Bad_capacity jsnum | Invalid_array_length

definition ARRAY_LENGTHS :: rat where
  "ARRAY_LENGTHS = 2 ^ 32"

definition new_slots :: "rat \<Rightarrow> ring_error + 'a option list" where
  "new_slots n = (if n \<ge> ARRAY_LENGTHS then Inl Invalid_array_length else Inr (replicate (nat \<lfloor>n\<rfloor>) None))"

definition new_RingBuffer :: "jsnum \<Rightarrow> ring_error + 'a ring" where
  "new_RingBuffer capacity =
     (case capacity of
        Num c \<Rightarrow>
          if c \<noteq> rat_of_int \<lfloor>c\<rfloor> \<or> c \<le> 0 then Inl (Bad_capacity capacity)
          else (case new_slots c of
                  Inl err \<Rightarrow> Inl err
                | Inr slots \<Rightarrow> Inr \<lparr>rb_capacity = \<lfloor>c\<rfloor>, rb_slots = slots, rb_head = 0, rb_count = 0\<rparr>)
      | _ \<Rightarrow> Inl (Bad_capacity capacity))"

definition ring_size :: "'a ring \<Rightarrow> int" where
  "ring_size r = rb_count r"

definition ring_push :: "'a \<Rightarrow> 'a ring \<Rightarrow> 'a ring" where
  "ring_push item r =
     (let h = (rb_head r - 1 + rb_capacity r) mod rb_capacity r;
          r1 = r\<lparr>rb_head := h, rb_slots := (rb_slots r)[nat h := Some item]\<rparr>
      in if rb_count r1 < rb_capacity r1 then r1\<lparr>rb_count := rb_count r1 + 1\<rparr> else r1)"

definition ring_clear :: "'a ring \<Rightarrow> 'a ring" where
  "ring_clear r =
     fold (\<lambda>i r. r\<lparr>rb_slots := (rb_slots r)[nat i := None]\<rparr>) [0..rb_capacity r - 1] (r\<lparr>rb_head := 0, rb_count := 0\<rparr>)"

definition ring_peek :: "'a ring \<Rightarrow> 'a option" where
  "ring_peek r = (if rb_count r = 0 then None else rb_slots r ! nat (rb_head r))"

definition ring_toArray :: "'a ring \<Rightarrow> 'a option list" where
  "ring_toArray r = map (\<lambda>i. rb_slots r ! nat ((rb_head r + i) mod rb_capacity r)) [0..rb_count r - 1]"

datatype 'a ring_op = Ring_push 'a | Ring_clear

fun ring_step :: "'a ring_op \<Rightarrow> 'a ring \<Rightarrow> 'a ring \<times> unit list" where
  "ring_step (Ring_push x) r = (ring_push x r, [])"
| "ring_step Ring_clear r = (ring_clear r, [])"

section \<open>Refinement of the newest-first list\<close>

definition ring_ok :: "'a ring \<Rightarrow> bool" where
  "ring_ok r \<longleftrightarrow> 0 < rb_capacity r \<and> int (length (rb_slots r)) = rb_capacity r \<and>
     0 \<le> rb_head r \<and> rb_head r < rb_capacity r \<and> 0 \<le> rb_count r \<and> rb_count r \<le> rb_capacity r"

definition ring_abs :: "'a ring \<Rightarrow> 'a list \<Rightarrow> bool" where
  "ring_abs r xs \<longleftrightarrow> ring_ok r \<and> ring_toArray r = map Some xs"

text \<open>What the code replaces: \<open>[entry, ...signal.value].slice(0, N)\<close>.\<close>

fun ring_spec :: "nat \<Rightarrow> 'a ring_op \<Rightarrow> 'a list \<Rightarrow> 'a list" where
  "ring_spec n (Ring_push x) xs = take n (x # xs)"
| "ring_spec n Ring_clear xs = []"

lemma ring_new_abs: "new_RingBuffer (Num (rat_of_int c)) = Inr r \<Longrightarrow> ring_abs r [] \<and> rb_capacity r = c"
  by (auto simp: new_RingBuffer_def new_slots_def ring_abs_def ring_ok_def ring_toArray_def split: if_splits)

lemma fold_slots:
  "rb_slots (fold (\<lambda>i r. r\<lparr>rb_slots := (rb_slots r)[nat i := None]\<rparr>) is r) = fold (\<lambda>i ss. ss[nat i := None]) is (rb_slots r) \<and>
   rb_head (fold (\<lambda>i r. r\<lparr>rb_slots := (rb_slots r)[nat i := None]\<rparr>) is r) = rb_head r \<and>
   rb_count (fold (\<lambda>i r. r\<lparr>rb_slots := (rb_slots r)[nat i := None]\<rparr>) is r) = rb_count r \<and>
   rb_capacity (fold (\<lambda>i r. r\<lparr>rb_slots := (rb_slots r)[nat i := None]\<rparr>) is r) = rb_capacity r"
  by (induction "is" arbitrary: r) auto

lemma length_fold_slots: "length (fold (\<lambda>i ss. ss[nat i := None]) is ss) = length ss"
  by (induction "is" arbitrary: ss) auto

lemma ring_clear_abs: "ring_ok r \<Longrightarrow> ring_abs (ring_clear r) [] \<and> rb_capacity (ring_clear r) = rb_capacity r"
  by (simp add: ring_clear_def ring_abs_def ring_ok_def ring_toArray_def fold_slots length_fold_slots)

lemma ring_push_ok: "ring_ok r \<Longrightarrow> ring_ok (ring_push x r)"
  by (auto simp: ring_push_def ring_ok_def Let_def)

interpretation ring_component: component ring_step ring_ok "\<lambda>_. True"
proof unfold_locales
  fix r :: "'a ring" and x :: "'a ring_op"
  assume "ring_ok r"
  then show "ring_ok (fst (ring_step x r))"
    using ring_clear_abs[of r] by (cases x) (simp_all add: ring_push_ok ring_abs_def)
qed

text \<open>Reading after a push: place 0 is the new item, place \<open>i + 1\<close> what was at place \<open>i\<close>.\<close>

lemma ring_slot:
  assumes "0 < (c::int)" and "0 \<le> h" and "h < c" and "0 \<le> i" and "i < c"
  shows "((h - 1 + c) mod c + i) mod c = (h + (i - 1)) mod c"
    and "0 < i \<Longrightarrow> (h + (i - 1)) mod c \<noteq> (h - 1 + c) mod c"
proof -
  show "((h - 1 + c) mod c + i) mod c = (h + (i - 1)) mod c"
    by (simp add: mod_add_left_eq) (metis add.commute add_diff_eq diff_add_eq mod_add_self1)
  have "(h + (i - 1)) mod c = (h - 1 + c) mod c \<Longrightarrow> i mod c = 0"
    by (metis add.commute add_diff_eq diff_add_cancel eq_diff_eq mod_add_self2 mod_eq_dvd_iff dvd_eq_mod_eq_0 add_diff_cancel_left')
  then show "0 < i \<Longrightarrow> (h + (i - 1)) mod c \<noteq> (h - 1 + c) mod c"
    using assms by auto
qed

lemma ring_push_abs:
  assumes "ring_abs r xs"
  shows "ring_abs (ring_push x r) (take (nat (rb_capacity r)) (x # xs)) \<and> rb_capacity (ring_push x r) = rb_capacity r"
proof -
  have ok: "ring_ok r" and xs: "ring_toArray r = map Some xs" using assms by (auto simp: ring_abs_def)
  let ?c = "rb_capacity r" and ?r = "ring_push x r"
  have len: "length xs = nat (rb_count r)"
    using arg_cong[OF xs, of length] by (simp add: ring_toArray_def)
  have cap: "rb_capacity ?r = ?c" by (simp add: ring_push_def Let_def)
  have cnt: "rb_count ?r = min ?c (rb_count r + 1)" using ok by (auto simp: ring_push_def Let_def ring_ok_def)
  have "ring_toArray ?r = map Some (take (nat ?c) (x # xs))"
  proof (rule nth_equalityI)
    show "length (ring_toArray ?r) = length (map Some (take (nat ?c) (x # xs)))"
      using ok len by (auto simp: ring_toArray_def cnt ring_ok_def min_def)
    fix k
    assume "k < length (ring_toArray ?r)"
    then have k: "int k < ?c" "int k < rb_count r + 1" by (auto simp: ring_toArray_def cnt)
    let ?h = "(rb_head r - 1 + ?c) mod ?c"
    have pos: "0 < ?c" "0 \<le> rb_head r" "rb_head r < ?c" "int (length (rb_slots r)) = ?c" using ok by (auto simp: ring_ok_def)
    have h: "0 \<le> ?h" "?h < ?c" using pos(1) by simp_all
    have read: "ring_toArray ?r ! k = (rb_slots r)[nat ?h := Some x] ! nat ((?h + int k) mod ?c)"
      using k by (simp add: ring_toArray_def cnt nth_upto cap) (simp add: ring_push_def Let_def)
    show "ring_toArray ?r ! k = map Some (take (nat ?c) (x # xs)) ! k"
    proof (cases k)
      case 0
      have "nat ?h < length (rb_slots r)" using h pos(4) by linarith
      then have "(rb_slots r)[nat ?h := Some x] ! nat ((?h + int k) mod ?c) = Some x" using 0 by simp
      then show ?thesis using read 0 pos(1) by simp
    next
      case (Suc j)
      have "ring_toArray ?r ! k = (rb_slots r)[nat ?h := Some x] ! nat ((rb_head r + int j) mod ?c)"
        using read ring_slot(1)[of ?c "rb_head r" "int k"] pos k Suc by simp
      also have "\<dots> = rb_slots r ! nat ((rb_head r + int j) mod ?c)"
        using ring_slot(2)[of ?c "rb_head r" "int k"] pos k Suc h by (simp add: nat_eq_iff)
      also have "\<dots> = ring_toArray r ! j"
        using k Suc nth_upto[of 0 j "rb_count r - 1"] by (simp add: ring_toArray_def)
      finally have "ring_toArray ?r ! k = ring_toArray r ! j" .
      moreover have "j < length xs" "Suc j < nat ?c" using k Suc len by auto
      ultimately show ?thesis using xs Suc by simp
    qed
  qed
  then show ?thesis using ring_push_ok[OF ok] cap by (simp add: ring_abs_def)
qed

lemma ring_run_abs:
  assumes "ring_abs r xs" and "rb_capacity r = int n"
  shows "ring_abs (fst (run ring_step cs r)) (fold (ring_spec n) cs xs)"
  using assms
proof (induction cs arbitrary: r xs)
  case (Cons c cs)
  have "ring_abs (fst (ring_step c r)) (ring_spec n c xs) \<and> rb_capacity (fst (ring_step c r)) = int n"
    using Cons.prems ring_push_abs[OF Cons.prems(1)] ring_clear_abs[of r]
    by (cases c) (auto simp: ring_abs_def)
  then show ?case using Cons.IH by (simp add: run_Cons del: run.simps(2))
qed simp

lemma ring_abs_reads:
  assumes "ring_abs r xs"
  shows "ring_size r = int (length xs)" and "ring_peek r = (case xs of [] \<Rightarrow> None | x # _ \<Rightarrow> Some x)"
proof -
  have ok: "ring_ok r" and xs: "ring_toArray r = map Some xs" using assms by (auto simp: ring_abs_def)
  show size: "ring_size r = int (length xs)"
    using arg_cong[OF xs, of length] ok by (auto simp: ring_toArray_def ring_size_def ring_ok_def)
  show "ring_peek r = (case xs of [] \<Rightarrow> None | x # _ \<Rightarrow> Some x)"
  proof (cases xs)
    case (Cons y ys)
    have "ring_toArray r ! 0 = rb_slots r ! nat (rb_head r)"
      using ok size Cons by (auto simp: ring_toArray_def ring_size_def ring_ok_def nth_upto)
    then show ?thesis using size xs Cons by (auto simp: ring_peek_def ring_size_def)
  qed (use size in \<open>simp add: ring_peek_def ring_size_def\<close>)
qed

text \<open>C31: The constructor throws its error exactly for a capacity that is not a positive integer, and a \<open>RangeError\<close>
  exactly for an integer of \<open>2 ^ 32\<close> or more; otherwise, after any pushes and clears, the buffer is the newest-first list that
  prepending and cutting to the capacity gives: \<open>toArray\<close> returns it, \<open>size\<close> its length and \<open>peek\<close> its first item.\<close>
theorem ring_refines_newest_first:
  fixes cs :: "'a ring_op list"
  shows "case new_RingBuffer v of
     Inl (Bad_capacity m) \<Rightarrow> m = v \<and> \<not> (\<exists>c>0. v = Num (rat_of_int c))
   | Inl Invalid_array_length \<Rightarrow> \<exists>c\<ge>2 ^ 32. v = Num (rat_of_int c)
   | Inr r0 \<Rightarrow> (\<exists>c>0. c < 2 ^ 32 \<and> v = Num (rat_of_int c) \<and>
       (let r = fst (run ring_step cs r0); xs = fold (ring_spec (nat c)) cs [] in
        ring_toArray r = map Some xs \<and> ring_size r = int (length xs) \<and>
        ring_peek r = (case xs of [] \<Rightarrow> None | x # _ \<Rightarrow> Some x)))"
proof (cases "\<exists>c>0. v = Num (rat_of_int c)")
  case True
  then obtain c where c: "c > 0" "v = Num (rat_of_int c)" by blast
  have big: "rat_of_int c \<ge> ARRAY_LENGTHS \<longleftrightarrow> c \<ge> 2 ^ 32"
    unfolding ARRAY_LENGTHS_def by (metis of_int_le_iff of_int_numeral of_int_power)
  show ?thesis
  proof (cases "c \<ge> 2 ^ 32")
    case True
    then have "new_RingBuffer v = (Inl Invalid_array_length :: ring_error + 'a ring)"
      using c big by (simp add: new_RingBuffer_def new_slots_def)
    then show ?thesis using True c(2) by auto
  next
    case False
    then obtain r0 :: "'a ring" where r0: "new_RingBuffer v = Inr r0" using c big by (simp add: new_RingBuffer_def new_slots_def)
    then have a: "ring_abs r0 []" "rb_capacity r0 = int (nat c)" using ring_new_abs[of c r0] c by auto
    show ?thesis
      unfolding r0 sum.case Let_def
      using ring_run_abs[OF a, of cs] ring_abs_reads[OF ring_run_abs[OF a, of cs]] c False
      by (intro exI[of _ c]) (simp add: ring_abs_def)
  qed
next
  case False
  have "new_RingBuffer v = (Inl (Bad_capacity v) :: ring_error + 'a ring)"
  proof (cases v)
    case (Num q)
    have "\<not> (q = rat_of_int \<lfloor>q\<rfloor> \<and> 0 < q)"
    proof
      assume q: "q = rat_of_int \<lfloor>q\<rfloor> \<and> 0 < q"
      then have "0 < \<lfloor>q\<rfloor>" by (metis of_int_0_less_iff)
      then show False using False Num q by blast
    qed
    then show ?thesis using Num by (auto simp: new_RingBuffer_def not_less)
  qed (simp_all add: new_RingBuffer_def)
  then show ?thesis using False by simp
qed

section \<open>Heartbeats\<close>

datatype heartbeat = Up | Down | Unknown

record heartbeats =
  hb_history :: "(string, heartbeat list) jsmap"
  hb_lastTickMs :: "int option"

definition HEARTBEAT_MAX_SAMPLES :: nat where
  "HEARTBEAT_MAX_SAMPLES = 45"

definition no_heartbeats :: heartbeats where
  "no_heartbeats = \<lparr>hb_history = [], hb_lastTickMs = None\<rparr>"

definition getHeartbeatHistory :: "string \<Rightarrow> heartbeats \<Rightarrow> heartbeat list" where
  "getHeartbeatHistory k s = (case map_get (hb_history s) k of None \<Rightarrow> [] | Some h \<Rightarrow> h)"

definition recordHeartbeat :: "string \<Rightarrow> heartbeat \<Rightarrow> int \<Rightarrow> heartbeats \<Rightarrow> heartbeats" where
  "recordHeartbeat k st now s =
     (let current = getHeartbeatHistory k s;
          next = (if length current \<ge> HEARTBEAT_MAX_SAMPLES
                  then drop (length current - HEARTBEAT_MAX_SAMPLES + 1) current @ [st] else current @ [st])
      in s\<lparr>hb_history := map_set k next (hb_history s), hb_lastTickMs := Some now\<rparr>)"

definition resetHeartbeatHistory :: "heartbeats \<Rightarrow> heartbeats" where
  "resetHeartbeatHistory s = no_heartbeats"

text \<open>The scan from the last sample down, and the chunked series.\<close>

fun streak_scan :: "heartbeat list \<Rightarrow> heartbeat \<Rightarrow> nat \<Rightarrow> nat \<Rightarrow> nat" where
  "streak_scan h st 0 samples = samples"
| "streak_scan h st (Suc i) samples = (if h ! i = st then streak_scan h st i (samples + 1) else samples)"

definition currentHeartbeatStreak :: "heartbeat list \<Rightarrow> (heartbeat \<times> nat) option" where
  "currentHeartbeatStreak h =
     (if h = [] then None else Some (last h, streak_scan h (last h) (length h - 1) 1))"

definition window_counts :: "heartbeat list \<Rightarrow> nat \<times> nat" where
  "window_counts w =
     foldl (\<lambda>(up, observed) s. if s = Up then (up + 1, observed + 1) else if s = Down then (up, observed + 1) else (up, observed))
       (0, 0) w"

function rolling :: "heartbeat list \<Rightarrow> nat \<Rightarrow> nat \<Rightarrow> rat \<Rightarrow> rat list" where
  "rolling h w i prev =
     (if i + w \<le> length h then
        (let (up, observed) = window_counts (map (\<lambda>j. h ! (i + j)) [0..<w]);
             pct = (if observed = 0 then prev else of_nat up / of_nat observed * 100)
         in pct # rolling h w (i + 1) pct)
      else [])"
  by pat_completeness auto
termination rolling
  by (relation "measure (\<lambda>(h, w, i, prev). Suc (length h) - i)") auto

declare rolling.simps [simp del]

definition rollingUptimeSeries :: "heartbeat list \<Rightarrow> int \<Rightarrow> rat list" where
  "rollingUptimeSeries h windowSize =
     (if windowSize \<le> 0 \<or> int (length h) < windowSize then [] else rolling h (nat windowSize) 0 100)"

datatype heartbeat_op = Hb_record string heartbeat int | Hb_reset

fun heartbeat_step :: "heartbeat_op \<Rightarrow> heartbeats \<Rightarrow> heartbeats \<times> unit list" where
  "heartbeat_step (Hb_record k st now) s = (recordHeartbeat k st now s, [])"
| "heartbeat_step Hb_reset s = (resetHeartbeatHistory s, [])"

text \<open>The samples of a connector since the last reset.\<close>

fun samples_of :: "string \<Rightarrow> heartbeat list \<Rightarrow> heartbeat_op list \<Rightarrow> heartbeat list" where
  "samples_of k acc [] = acc"
| "samples_of k acc (Hb_record k' st now # cs) = samples_of k (if k' = k then acc @ [st] else acc) cs"
| "samples_of k acc (Hb_reset # cs) = samples_of k [] cs"

definition last_samples :: "heartbeat list \<Rightarrow> heartbeat list" where
  "last_samples xs = drop (length xs - HEARTBEAT_MAX_SAMPLES) xs"

lemma heartbeat_run:
  assumes "getHeartbeatHistory k s = last_samples acc"
  shows "getHeartbeatHistory k (fst (run heartbeat_step cs s)) = last_samples (samples_of k acc cs)"
  using assms
proof (induction cs arbitrary: s acc)
  case (Cons c cs)
  show ?case
  proof (cases c)
    case (Hb_record k' st now)
    have less: "45 \<le> n - (n - 45) \<Longrightarrow> Suc (n - 45) = n - 44" for n :: nat by arith
    have "getHeartbeatHistory k (recordHeartbeat k' st now s) = last_samples (if k' = k then acc @ [st] else acc)"
      using Cons.prems less by (auto simp: getHeartbeatHistory_def recordHeartbeat_def last_samples_def HEARTBEAT_MAX_SAMPLES_def
          Let_def split: option.splits)
    then show ?thesis using Cons.IH Hb_record by (simp add: run_Cons del: run.simps(2))
  next
    case Hb_reset
    have "getHeartbeatHistory k (resetHeartbeatHistory s) = last_samples []"
      by (simp add: getHeartbeatHistory_def resetHeartbeatHistory_def no_heartbeats_def last_samples_def)
    then show ?thesis using Cons.IH Hb_reset by (simp add: run_Cons del: run.simps(2))
  qed
qed simp

lemma streak_scan_eq:
  "i \<le> length h \<Longrightarrow> streak_scan h st i n = n + length (takeWhile (\<lambda>x. x = st) (rev (take i h)))"
proof (induction i arbitrary: n)
  case (Suc i)
  then show ?case by (simp add: take_Suc_conv_app_nth)
qed simp

lemma streak_decomposes:
  assumes "h \<noteq> []"
  obtains pre n where "currentHeartbeatStreak h = Some (last h, n)" and "1 \<le> n" and "h = pre @ replicate n (last h)"
    and "pre = [] \<or> last pre \<noteq> last h"
proof
  let ?p = "\<lambda>x. x = last h" and ?b = "butlast h"
  let ?tw = "takeWhile ?p (rev ?b)" and ?pre = "rev (dropWhile ?p (rev ?b))"
  have h: "h = ?b @ [last h]" using assms by simp
  have tb: "take (length h - Suc 0) h = ?b" by (simp add: butlast_conv_take)
  have tw: "?tw = replicate (length ?tw) (last h)" by (metis (mono_tags) replicate_eqI set_takeWhileD)
  have "?b = ?pre @ rev ?tw" by (metis rev_append rev_rev_ident takeWhile_dropWhile_id)
  then show "h = ?pre @ replicate (1 + length ?tw) (last h)"
    using h tw by (metis append_assoc replicate_Suc replicate_append_same rev_replicate plus_1_eq_Suc)
  show "currentHeartbeatStreak h = Some (last h, 1 + length ?tw)"
    using assms by (simp add: currentHeartbeatStreak_def streak_scan_eq tb)
  show "?pre = [] \<or> last ?pre \<noteq> last h"
    by (metis (full_types) hd_dropWhile last_rev rev_is_Nil_conv)
qed simp

text \<open>The history of a connector is always its last 45 samples since the last reset, in order; its streak is the
  longest run of equal samples at the end of the history, and there is none exactly for the empty history.\<close>
theorem heartbeat_streak_exact:
  "getHeartbeatHistory k (fst (run heartbeat_step cs no_heartbeats)) = last_samples (samples_of k [] cs) \<and>
   length (last_samples xs) = min 45 (length xs) \<and>
   (case currentHeartbeatStreak h of
      None \<Rightarrow> h = []
    | Some (st, n) \<Rightarrow> \<exists>pre. h = pre @ replicate n st \<and> 1 \<le> n \<and> \<not> (pre \<noteq> [] \<and> last pre = st))"
proof (intro conjI)
  show "getHeartbeatHistory k (fst (run heartbeat_step cs no_heartbeats)) = last_samples (samples_of k [] cs)"
    by (rule heartbeat_run) (simp add: getHeartbeatHistory_def no_heartbeats_def last_samples_def)
  show "length (last_samples xs) = min 45 (length xs)" by (simp add: last_samples_def HEARTBEAT_MAX_SAMPLES_def)
  show "case currentHeartbeatStreak h of
      None \<Rightarrow> h = []
    | Some (st, n) \<Rightarrow> \<exists>pre. h = pre @ replicate n st \<and> 1 \<le> n \<and> \<not> (pre \<noteq> [] \<and> last pre = st)"
  proof (cases "h = []")
    case False
    then show ?thesis by (rule streak_decomposes) auto
  qed (simp add: currentHeartbeatStreak_def)
qed

text \<open>A window counts the samples that are up and those that are known.\<close>

lemma window_counts_eq:
  "window_counts w = (length (filter (\<lambda>s. s = Up) w), length (filter (\<lambda>s. s \<noteq> Unknown) w))"
proof -
  have "foldl (\<lambda>(up, observed) s. if s = Up then (up + 1, observed + 1) else if s = Down then (up, observed + 1) else (up, observed))
      (a, b) w = (a + length (filter (\<lambda>s. s = Up) w), b + length (filter (\<lambda>s. s \<noteq> Unknown) w))" for a b :: nat
    by (induction w arbitrary: a b) (auto, (metis heartbeat.exhaust)+)
  then show ?thesis by (simp add: window_counts_def)
qed

lemma rolling_spec:
  "0 \<le> prev \<Longrightarrow> prev \<le> 100 \<Longrightarrow>
   length (rolling h w i prev) = Suc (length h) - (i + w) \<and> (\<forall>p\<in>set (rolling h w i prev). 0 \<le> p \<and> p \<le> 100)"
proof (induction "Suc (length h) - i" arbitrary: i prev rule: less_induct)
  case less
  show ?case
  proof (cases "i + w \<le> length h")
    case True
    obtain up obs where c: "window_counts (map (\<lambda>j. h ! (i + j)) [0..<w]) = (up, obs)"
      by (cases "window_counts (map (\<lambda>j. h ! (i + j)) [0..<w])")
    let ?pct = "if obs = 0 then prev else of_nat up / of_nat obs * 100"
    have eq: "rolling h w i prev = ?pct # rolling h w (i + 1) ?pct"
      using True by (subst rolling.simps) (simp add: Let_def c)
    have "length (filter (\<lambda>s. s = Up) w) \<le> length (filter (\<lambda>s. s \<noteq> Unknown) w)" for w by (induction w) auto
    then have "fst (window_counts w) \<le> snd (window_counts w)" for w by (simp add: window_counts_eq)
    from this[of "map (\<lambda>j. h ! (i + j)) [0..<w]"] have "up \<le> obs" by (simp only: c fst_conv snd_conv)
    then have "(of_nat up / of_nat obs :: rat) \<le> 1" "0 \<le> (of_nat up / of_nat obs :: rat)"
      by (auto simp: divide_le_eq_1)
    moreover have "0 \<le> q * 100 \<and> q * 100 \<le> 100" if "q \<le> 1" "0 \<le> q" for q :: rat using that by linarith
    ultimately have b: "0 \<le> ?pct \<and> ?pct \<le> 100" using less.prems by presburger
    have "Suc (length h) - (i + 1) < Suc (length h) - i" using True by simp
    from less.hyps[OF this conjunct1[OF b] conjunct2[OF b]] show ?thesis
      unfolding eq using True b by (simp del: of_nat_0_le_iff add: Suc_diff_le)
  qed (simp add: rolling.simps)
qed

end
