(* ===== verification/Fetch_Scheduler.thy ===== *)
theory Fetch_Scheduler
  imports Contracts
begin

text \<open>
  \<open>src/lib/fetch-scheduler.ts\<close>: the scheduler that coalesces refresh requests. A timer is the time it is due,
  the clock is an argument, and the promise of a fetch settles in a step of its own (\<open>Sc_settled\<close>; fulfilled
  or rejected makes no difference, the code catches). The numbers in \<open>sch_running\<close> are the calls of \<open>doFetch\<close>
  that wait for their promise. The fetch function is the caller's: all the scheduler sees of it while it runs
  is whether it calls \<open>request()\<close> itself before it returns (\<open>reentrant\<close>). A fetch function that throws before
  it returns a promise is left out; the code would let the exception through to the caller or the timer.
\<close>

section \<open>The scheduler\<close>

datatype priority = No_priority | Normal | Urgent

record sched_config =
  sc_cooldownMs :: int
  sc_debounceMs :: int

record sched =
  sch_inflight :: "nat option"
  sch_lastFetchAt :: int
  sch_pendingPriority :: priority
  sch_debounceTimer :: "int option"
  sch_cooldownTimer :: "int option"
  sch_running :: "nat list"
  sch_calls :: nat

definition DEFAULT_CONFIG :: sched_config where
  "DEFAULT_CONFIG = \<lparr>sc_cooldownMs = 2000, sc_debounceMs = 300\<rparr>"

definition sched_config_of :: "int option \<Rightarrow> int option \<Rightarrow> sched_config" where
  "sched_config_of cooldown debounce =
     \<lparr>sc_cooldownMs = (case cooldown of None \<Rightarrow> sc_cooldownMs DEFAULT_CONFIG | Some c \<Rightarrow> c),
      sc_debounceMs = (case debounce of None \<Rightarrow> sc_debounceMs DEFAULT_CONFIG | Some d \<Rightarrow> d)\<rparr>"

definition new_FetchScheduler :: sched where
  "new_FetchScheduler =
     \<lparr>sch_inflight = None, sch_lastFetchAt = 0, sch_pendingPriority = No_priority, sch_debounceTimer = None,
      sch_cooldownTimer = None, sch_running = [], sch_calls = 0\<rparr>"

fun rank :: "priority \<Rightarrow> nat" where
  "rank No_priority = 0"
| "rank Normal = 1"
| "rank Urgent = 2"

definition raisePriority :: "priority \<Rightarrow> sched \<Rightarrow> sched" where
  "raisePriority p s = (if rank p > rank (sch_pendingPriority s) then s\<lparr>sch_pendingPriority := p\<rparr> else s)"

definition scheduleFlush :: "sched_config \<Rightarrow> int \<Rightarrow> sched \<Rightarrow> sched" where
  "scheduleFlush cfg now s =
     (if sch_debounceTimer s \<noteq> None \<or> sch_cooldownTimer s \<noteq> None then s
      else (let elapsed = now - sch_lastFetchAt s;
                cooldownRemaining = sc_cooldownMs cfg - elapsed
            in if cooldownRemaining \<le> 0 then s\<lparr>sch_debounceTimer := Some (now + sc_debounceMs cfg)\<rparr>
               else s\<lparr>sch_cooldownTimer := Some (now + cooldownRemaining)\<rparr>))"

definition sched_clearTimers :: "sched \<Rightarrow> sched" where
  "sched_clearTimers s = s\<lparr>sch_debounceTimer := None, sch_cooldownTimer := None\<rparr>"

definition sched_request :: "sched_config \<Rightarrow> int \<Rightarrow> sched \<Rightarrow> sched" where
  "sched_request cfg now s =
     (if sch_inflight s \<noteq> None then raisePriority Normal s
      else scheduleFlush cfg now (raisePriority Normal s))"

definition doFetch :: "sched_config \<Rightarrow> bool \<Rightarrow> int \<Rightarrow> sched \<Rightarrow> sched \<times> nat list" where
  "doFetch cfg reentrant now s =
     (let n = sch_calls s;
          s1 = s\<lparr>sch_calls := n + 1\<rparr>;
          s2 = (if reentrant then sched_request cfg now s1 else s1)
      in (s2\<lparr>sch_inflight := Some n, sch_running := sch_running s2 @ [n]\<rparr>, [n]))"

definition sched_requestNow :: "sched_config \<Rightarrow> bool \<Rightarrow> int \<Rightarrow> sched \<Rightarrow> sched \<times> nat list" where
  "sched_requestNow cfg reentrant now s =
     (if sch_inflight s \<noteq> None then (raisePriority Urgent s, [])
      else doFetch cfg reentrant now ((sched_clearTimers s)\<lparr>sch_pendingPriority := No_priority\<rparr>))"

definition sched_dispose :: "sched \<Rightarrow> sched" where
  "sched_dispose s = (sched_clearTimers s)\<lparr>sch_pendingPriority := No_priority\<rparr>"

definition sched_fetching :: "sched \<Rightarrow> bool" where
  "sched_fetching s \<longleftrightarrow> sch_inflight s \<noteq> None"

definition debounce_fires :: "sched_config \<Rightarrow> bool \<Rightarrow> int \<Rightarrow> sched \<Rightarrow> sched \<times> nat list" where
  "debounce_fires cfg reentrant now s =
     (case sch_debounceTimer s of
        None \<Rightarrow> (s, [])
      | Some due \<Rightarrow> if now < due then (s, [])
          else doFetch cfg reentrant now (s\<lparr>sch_debounceTimer := None, sch_pendingPriority := No_priority\<rparr>))"

definition cooldown_fires :: "sched_config \<Rightarrow> bool \<Rightarrow> int \<Rightarrow> sched \<Rightarrow> sched \<times> nat list" where
  "cooldown_fires cfg reentrant now s =
     (case sch_cooldownTimer s of
        None \<Rightarrow> (s, [])
      | Some due \<Rightarrow> if now < due then (s, [])
          else doFetch cfg reentrant now (s\<lparr>sch_cooldownTimer := None, sch_pendingPriority := No_priority\<rparr>))"

definition drainPending :: "sched_config \<Rightarrow> bool \<Rightarrow> int \<Rightarrow> sched \<Rightarrow> sched \<times> nat list" where
  "drainPending cfg reentrant now s =
     (let s1 = s\<lparr>sch_pendingPriority := No_priority\<rparr>
      in case sch_pendingPriority s of
           Urgent \<Rightarrow> doFetch cfg reentrant now s1
         | Normal \<Rightarrow> (scheduleFlush cfg now s1, [])
         | No_priority \<Rightarrow> (s1, []))"

definition fetch_settled :: "sched_config \<Rightarrow> bool \<Rightarrow> int \<Rightarrow> nat \<Rightarrow> sched \<Rightarrow> sched \<times> nat list" where
  "fetch_settled cfg reentrant now n s =
     (if n \<notin> set (sch_running s) then (s, [])
      else drainPending cfg reentrant now
             (s\<lparr>sch_running := removeAll n (sch_running s), sch_lastFetchAt := now, sch_inflight := None\<rparr>))"

datatype sched_op =
    Sc_request | Sc_requestNow | Sc_dispose | Sc_debounceFires | Sc_cooldownFires | Sc_settled nat

fun sched_step :: "sched_config \<Rightarrow> bool \<Rightarrow> int \<times> sched_op \<Rightarrow> sched \<Rightarrow> sched \<times> nat list" where
  "sched_step cfg b (now, Sc_request) s = (sched_request cfg now s, [])"
| "sched_step cfg b (now, Sc_requestNow) s = sched_requestNow cfg b now s"
| "sched_step cfg b (now, Sc_dispose) s = (sched_dispose s, [])"
| "sched_step cfg b (now, Sc_debounceFires) s = debounce_fires cfg b now s"
| "sched_step cfg b (now, Sc_cooldownFires) s = cooldown_fires cfg b now s"
| "sched_step cfg b (now, Sc_settled n) s = fetch_settled cfg b now n s"

lemmas sched_defs = sched_request_def sched_requestNow_def sched_dispose_def debounce_fires_def cooldown_fires_def
  fetch_settled_def drainPending_def doFetch_def scheduleFlush_def raisePriority_def sched_clearTimers_def

section \<open>One fetch at a time\<close>

definition sched_ok :: "sched_config \<Rightarrow> sched \<Rightarrow> bool" where
  "sched_ok cfg s \<longleftrightarrow>
     sch_running s = (case sch_inflight s of None \<Rightarrow> [] | Some n \<Rightarrow> [n]) \<and>
     (sch_inflight s \<noteq> None \<longrightarrow> sch_debounceTimer s = None \<and> sch_cooldownTimer s = None) \<and>
     \<not> (sch_debounceTimer s \<noteq> None \<and> sch_cooldownTimer s \<noteq> None) \<and>
     (\<forall>due. sch_debounceTimer s = Some due \<or> sch_cooldownTimer s = Some due \<longrightarrow>
        sch_lastFetchAt s + sc_cooldownMs cfg \<le> due)"

lemma sched_step_ok:
  assumes "sched_ok cfg s" and "0 \<le> sc_debounceMs cfg"
  shows "sched_ok cfg (fst (sched_step cfg False x s))"
proof -
  obtain now c where x: "x = (now, c)" by (cases x)
  show ?thesis
    using assms unfolding x
    by (cases c; cases "sch_inflight s"; cases "sch_debounceTimer s"; cases "sch_cooldownTimer s")
      (auto simp: sched_ok_def sched_defs Let_def split: priority.split)
qed

interpretation sched_component: component "sched_step cfg False" "\<lambda>s. sched_ok cfg s \<and> 0 \<le> sc_debounceMs cfg" "\<lambda>_. True" for cfg
  by unfold_locales (simp add: sched_step_ok)

lemma sched_ok_new: "sched_ok cfg new_FetchScheduler"
  by (simp add: sched_ok_def new_FetchScheduler_def)

text \<open>As long as the fetch function does not call back into the scheduler before it returns, at most one fetch is in
  flight after any sequence of requests, timers, disposals and settlements; \<open>fetching\<close> tells whether there is one;
  and a fetch that a timer starts never begins within the cooldown after the previous one ended.\<close>
theorem sched_single_flight:
  assumes "0 \<le> sc_debounceMs cfg" and "s = fst (run (sched_step cfg False) xs new_FetchScheduler)"
  shows "length (sch_running s) \<le> 1 \<and> (sched_fetching s \<longleftrightarrow> sch_running s \<noteq> []) \<and>
    (snd (sched_step cfg False (t, Sc_debounceFires) s) @ snd (sched_step cfg False (t, Sc_cooldownFires) s) \<noteq> [] \<longrightarrow>
       sch_lastFetchAt s + sc_cooldownMs cfg \<le> t)"
proof -
  have ok: "sched_ok cfg s"
    unfolding assms(2) using sched_component.run_inv[of cfg new_FetchScheduler xs] sched_ok_new assms(1) by simp
  then show ?thesis
    by (auto simp: sched_ok_def sched_fetching_def debounce_fires_def cooldown_fires_def split: option.splits if_splits)
qed

definition sample_sched :: sched where
  "sample_sched = fst (run (sched_step DEFAULT_CONFIG False)
     [(5000, Sc_request), (5100, Sc_request), (5300, Sc_debounceFires), (5400, Sc_request), (5500, Sc_settled 0)]
     new_FetchScheduler)"

lemma sched_single_flight_witness:
  "sch_cooldownTimer sample_sched = Some 7500 \<and> length (sch_running sample_sched) \<le> 1"
proof
  show "sch_cooldownTimer sample_sched = Some 7500" unfolding sample_sched_def by code_simp
  show "length (sch_running sample_sched) \<le> 1"
    using sched_single_flight[OF _ sample_sched_def] by (simp add: DEFAULT_CONFIG_def)
qed

section \<open>No request is lost\<close>

text \<open>
  Whether a refresh is owed: one was requested and neither has a fetch started since then nor has the
  scheduler been disposed of.
\<close>

definition owed_after :: "sched_config \<Rightarrow> int \<times> sched_op \<Rightarrow> sched \<Rightarrow> bool \<Rightarrow> bool" where
  "owed_after cfg x s owed =
     (if snd x = Sc_dispose \<or> snd (sched_step cfg False x s) \<noteq> [] then False
      else owed \<or> snd x = Sc_request \<or> snd x = Sc_requestNow)"

fun owed :: "sched_config \<Rightarrow> (int \<times> sched_op) list \<Rightarrow> sched \<Rightarrow> bool \<Rightarrow> bool" where
  "owed cfg [] s b = b"
| "owed cfg (x # xs) s b = owed cfg xs (fst (sched_step cfg False x s)) (owed_after cfg x s b)"

definition armed :: "sched \<Rightarrow> bool" where
  "armed s \<longleftrightarrow> sch_debounceTimer s \<noteq> None \<or> sch_cooldownTimer s \<noteq> None \<or>
     sch_inflight s \<noteq> None \<and> sch_pendingPriority s \<noteq> No_priority"

lemma owed_step_armed:
  assumes "sched_ok cfg s" and "b \<longrightarrow> armed s"
  shows "owed_after cfg x s b \<longrightarrow> armed (fst (sched_step cfg False x s))"
proof -
  obtain now c where x: "x = (now, c)" by (cases x)
  show ?thesis
    using assms unfolding x
    by (cases c; cases "sch_inflight s"; cases "sch_debounceTimer s"; cases "sch_cooldownTimer s"; cases "sch_pendingPriority s")
      (simp_all add: sched_ok_def owed_after_def armed_def sched_defs Let_def)
qed

lemma owed_run_armed:
  assumes "sched_ok cfg s" and "0 \<le> sc_debounceMs cfg" and "b \<longrightarrow> armed s"
  shows "owed cfg xs s b \<longrightarrow> armed (fst (run (sched_step cfg False) xs s))"
  using assms
proof (induction xs arbitrary: s b)
  case (Cons x xs)
  show ?case
    using Cons.IH[of "fst (sched_step cfg False x s)" "owed_after cfg x s b"] Cons.prems
      sched_step_ok[of cfg s x] owed_step_armed[of cfg s b x]
    by (simp add: run_Cons del: run.simps(2) sched_step.simps)
qed simp

text \<open>The fetch in flight settles, and the clock reaches the timers.\<close>

definition catch_up :: "int \<Rightarrow> int \<Rightarrow> sched \<Rightarrow> (int \<times> sched_op) list" where
  "catch_up t1 t2 s =
     (case sch_inflight s of None \<Rightarrow> [] | Some n \<Rightarrow> [(t1, Sc_settled n)]) @ [(t2, Sc_debounceFires), (t2, Sc_cooldownFires)]"

lemma armed_catches_up:
  assumes "sched_ok cfg s" and "armed s" and "t1 + max (sc_cooldownMs cfg) (sc_debounceMs cfg) \<le> t2"
    and "\<forall>due. sch_debounceTimer s = Some due \<or> sch_cooldownTimer s = Some due \<longrightarrow> due \<le> t2"
  shows "snd (run (sched_step cfg False) (catch_up t1 t2 s) s) \<noteq> []"
  using assms
  by (cases "sch_inflight s"; cases "sch_debounceTimer s"; cases "sch_cooldownTimer s"; cases "sch_pendingPriority s")
    (auto simp: sched_ok_def armed_def catch_up_def sched_defs Let_def)

text \<open>C8: No request is lost: whenever a refresh was requested and no fetch has started since, letting the fetch in
  flight settle and the clock run to the armed timers (at most the larger of cooldown and debounce later) starts
  a fetch, unless the scheduler was disposed of in between. This is for fetch functions that return their promise without
  having called \<open>request()\<close> themselves; with one that does not, see \<open>sched_reentrant_overlaps\<close>.\<close>
theorem sched_no_lost_request:
  assumes "0 \<le> sc_debounceMs cfg" and "owed cfg xs new_FetchScheduler False"
    and "s = fst (run (sched_step cfg False) xs new_FetchScheduler)"
    and "t1 + max (sc_cooldownMs cfg) (sc_debounceMs cfg) \<le> t2"
    and "\<forall>due. sch_debounceTimer s = Some due \<or> sch_cooldownTimer s = Some due \<longrightarrow> due \<le> t2"
  shows "snd (run (sched_step cfg False) (catch_up t1 t2 s) s) \<noteq> []"
proof (rule armed_catches_up[OF _ _ assms(4,5)])
  show "sched_ok cfg s"
    unfolding assms(3) using sched_component.run_inv[of cfg new_FetchScheduler xs] sched_ok_new assms(1) by simp
  show "armed s"
    using owed_run_armed[OF sched_ok_new assms(1), of False xs] assms(2,3) by simp
qed

lemma sched_no_lost_request_witness:
  "snd (run (sched_step DEFAULT_CONFIG False) (catch_up 0 7500 sample_sched) sample_sched) \<noteq> []"
proof (rule sched_no_lost_request[OF _ _ sample_sched_def])
  show "owed DEFAULT_CONFIG [(5000, Sc_request), (5100, Sc_request), (5300, Sc_debounceFires), (5400, Sc_request), (5500, Sc_settled 0)]
      new_FetchScheduler False" by code_simp
  have "sch_debounceTimer sample_sched = None \<and> sch_cooldownTimer sample_sched = Some 7500"
    unfolding sample_sched_def by code_simp
  then show "\<forall>due. sch_debounceTimer sample_sched = Some due \<or> sch_cooldownTimer sample_sched = Some due \<longrightarrow> due \<le> 7500"
    by simp
qed (simp_all add: DEFAULT_CONFIG_def)

text \<open>
  The promise of one fetch at a time rests on the fetch function: if it requests a refresh itself before it
  returns, \<open>inflight\<close> is still empty, a timer is armed during the fetch, and it starts a second one.
\<close>

lemma sched_reentrant_overlaps:
  "sch_running (fst (run (sched_step DEFAULT_CONFIG True) [(5000, Sc_requestNow), (5300, Sc_debounceFires)] new_FetchScheduler)) = [0, 1]"
  by code_simp

end
