(* ===== verification/Highlight.thy ===== *)
theory Highlight
  imports Js_Text Contracts
begin

text \<open>
  \<open>src/lib/highlight-match.ts\<close>: the parts of a text between which the matches of a search term are marked. A
  part is a raw string or a \<open>mark\<close> element around one. Case folding keeps the length of a string on the range
  of characters modelled.
\<close>

section \<open>The three passes\<close>

datatype part = Raw string | Mark string

text \<open>\<open>s.indexOf(p, from)\<close>, \<open>None\<close> for \<open>-1\<close>.\<close>

definition occurs_at :: "string \<Rightarrow> string \<Rightarrow> nat \<Rightarrow> bool" where
  "occurs_at p s i \<longleftrightarrow> take (length p) (drop i s) = p"

definition indexOf_from :: "string \<Rightarrow> string \<Rightarrow> nat \<Rightarrow> nat option" where
  "indexOf_from s p i = List.find (occurs_at p s) [i..<length s + 1]"

lemma indexOf_from_ge: "indexOf_from s p i = Some k \<Longrightarrow> i \<le> k \<and> k \<le> length s \<and> occurs_at p s k"
  by (auto simp: indexOf_from_def find_Some_iff simp del: upt_Suc)

function collect_matches :: "string \<Rightarrow> string \<Rightarrow> nat \<Rightarrow> (nat \<times> nat) list" where
  "collect_matches s p i =
     (if int i \<le> int (length s) - int (length p) then
        (case indexOf_from s p i of
           None \<Rightarrow> []
         | Some k \<Rightarrow> (k, k + length p) # collect_matches s p (k + 1))
      else [])"
  by pat_completeness auto
termination collect_matches
  by (relation "measure (\<lambda>(s, p, i). Suc (length s) - i)") (auto dest: indexOf_from_ge)

declare collect_matches.simps [simp del]

definition merge_range :: "(nat \<times> nat) list \<Rightarrow> nat \<times> nat \<Rightarrow> (nat \<times> nat) list" where
  "merge_range merged r =
     (if merged \<noteq> [] \<and> fst r \<le> snd (last merged)
      then (if snd r > snd (last merged) then butlast merged @ [(fst (last merged), snd r)] else merged)
      else merged @ [r])"

definition merge_ranges :: "(nat \<times> nat) list \<Rightarrow> (nat \<times> nat) list" where
  "merge_ranges raw = foldl merge_range [] raw"

definition slice :: "nat \<Rightarrow> nat \<Rightarrow> string \<Rightarrow> string" where
  "slice a b s = take (b - a) (drop a s)"

fun emit_parts :: "string \<Rightarrow> nat \<Rightarrow> (nat \<times> nat) list \<Rightarrow> part list" where
  "emit_parts text cursor [] = (if cursor < length text then [Raw (drop cursor text)] else [])"
| "emit_parts text cursor ((a, b) # rs) =
     (if a > cursor then [Raw (slice cursor a text)] else []) @ Mark (slice a b text) # emit_parts text b rs"

definition highlightMatch :: "string \<Rightarrow> string \<Rightarrow> part list" where
  "highlightMatch text needle =
     (let trimmed = trim needle in
      if trimmed = [] then [Raw text]
      else if text = [] then [Raw []]
      else (let raw = collect_matches (to_lower text) (to_lower trimmed) 0 in
            if raw = [] then [Raw text] else emit_parts text 0 (merge_ranges raw)))"

definition highlightSafe :: "string option \<Rightarrow> string \<Rightarrow> part list" where
  "highlightSafe text needle =
     (case text of None \<Rightarrow> [Raw []] | Some t \<Rightarrow> if t = [] then [Raw []] else highlightMatch t needle)"

section \<open>What is marked\<close>

text \<open>Each character of the rendered parts with whether it is marked.\<close>

fun marked_chars :: "part \<Rightarrow> (char \<times> bool) list" where
  "marked_chars (Raw s) = map (\<lambda>c. (c, False)) s"
| "marked_chars (Mark s) = map (\<lambda>c. (c, True)) s"

definition covered :: "(nat \<times> nat) list \<Rightarrow> nat \<Rightarrow> bool" where
  "covered rs k \<longleftrightarrow> (\<exists>(a, b)\<in>set rs. a \<le> k \<and> k < b)"

text \<open>Ranges that start at or after a position, do not touch and stay within a length.\<close>

fun separated :: "nat \<Rightarrow> nat \<Rightarrow> (nat \<times> nat) list \<Rightarrow> bool" where
  "separated i n [] \<longleftrightarrow> True"
| "separated i n ((a, b) # rs) \<longleftrightarrow> i \<le> a \<and> a < b \<and> b \<le> n \<and> separated (b + 1) n rs"

lemma separated_mono: "separated i n rs \<Longrightarrow> j \<le> i \<Longrightarrow> separated j n rs"
  by (cases rs) auto

lemma separated_covered: "separated i n rs \<Longrightarrow> covered rs k \<Longrightarrow> i \<le> k \<and> k < n"
proof (induction rs arbitrary: i)
  case (Cons r rs)
  then show ?case by (cases r) (fastforce simp: covered_def)
qed (simp add: covered_def)

lemma covered_Cons: "covered ((a, b) # rs) k \<longleftrightarrow> a \<le> k \<and> k < b \<or> covered rs k"
  by (auto simp: covered_def)

lemma map_slice: "a \<le> b \<Longrightarrow> b \<le> length s \<Longrightarrow> map f (slice a b s) = map (\<lambda>k. f (s ! k)) [a..<b]"
  by (rule nth_equalityI) (auto simp: slice_def)

lemma upt_split: "i \<le> j \<Longrightarrow> j \<le> k \<Longrightarrow> [i..<k] = [i..<j] @ [j..<k]"
  by (metis le_add_diff_inverse upt_add_eq_append)

lemma emit_parts_marks:
  assumes "separated i (length s) rs" and "i \<le> length s"
  shows "concat (map marked_chars (emit_parts s i rs)) = map (\<lambda>k. (s ! k, covered rs k)) [i..<length s]"
  using assms
proof (induction s i rs rule: emit_parts.induct)
  case (1 s i)
  have "drop i s = slice i (length s) s" by (simp add: slice_def)
  then show ?case using 1 by (simp add: map_slice covered_def)
next
  case (2 s i a b rs)
  then have ab: "i \<le> a" "a < b" "b \<le> length s" "separated (b + 1) (length s) rs" by simp_all
  have later: "covered rs k \<Longrightarrow> b < k" for k using separated_covered[OF ab(4)] by fastforce
  have "concat (map marked_chars (emit_parts s b rs)) = map (\<lambda>k. (s ! k, covered rs k)) [b..<length s]"
    using 2 separated_mono[OF ab(4)] by simp
  moreover have "[i..<length s] = [i..<a] @ [a..<b] @ [b..<length s]"
    using ab upt_split[of i a "length s"] upt_split[of a b "length s"] by simp
  moreover have "map (\<lambda>k. (s ! k, covered ((a, b) # rs) k)) [i..<a] = map (\<lambda>c. (c, False)) (slice i a s)"
    using ab later by (simp add: map_slice) (force simp: covered_Cons)
  moreover have "map (\<lambda>k. (s ! k, covered ((a, b) # rs) k)) [a..<b] = map (\<lambda>c. (c, True)) (slice a b s)"
    using ab by (simp add: map_slice covered_Cons)
  moreover have "map (\<lambda>k. (s ! k, covered ((a, b) # rs) k)) [b..<length s] = map (\<lambda>k. (s ! k, covered rs k)) [b..<length s]"
    by (simp add: covered_Cons)
  ultimately show ?case using ab by (auto simp: slice_def)
qed

text \<open>Merging keeps what is covered and separates the ranges.\<close>

lemma separated_snoc:
  "separated i n (rs @ [(a, b)]) \<longleftrightarrow>
     separated i n rs \<and> a < b \<and> b \<le> n \<and> (if rs = [] then i \<le> a else snd (last rs) < a)"
  by (induction i n rs rule: separated.induct) (auto simp: Suc_le_eq)

lemma merge_ranges_ok:
  assumes "sorted (map fst raw)" and "\<forall>(a, b)\<in>set raw. b = a + m \<and> b \<le> n" and "0 < m"
  shows "separated 0 n (merge_ranges raw) \<and> covered (merge_ranges raw) k = covered raw k \<and>
         (raw \<noteq> [] \<longrightarrow> merge_ranges raw \<noteq> [] \<and> snd (last (merge_ranges raw)) = snd (last raw) \<and>
            fst (last (merge_ranges raw)) \<le> fst (last raw))"
  using assms
proof (induction raw rule: rev_induct)
  case Nil
  then show ?case by (simp add: merge_ranges_def)
next
  case (snoc r raw)
  obtain a b where r: "r = (a, b)" by (cases r)
  have b: "b = a + m" "b \<le> n" using snoc.prems(2) r by auto
  let ?m = "merge_ranges raw"
  have IH: "separated 0 n ?m" "covered ?m k = covered raw k"
    "raw \<noteq> [] \<longrightarrow> ?m \<noteq> [] \<and> snd (last ?m) = snd (last raw) \<and> fst (last ?m) \<le> fst (last raw)"
    using snoc by (auto simp: sorted_append)
  have step: "merge_ranges (raw @ [r]) = merge_range ?m r" by (simp add: merge_ranges_def)
  have cov: "covered (raw @ [r]) k \<longleftrightarrow> covered ?m k \<or> a \<le> k \<and> k < b" using IH(2) r by (auto simp: covered_def)
  show ?case
  proof (cases "raw = []")
    case True
    then have "merge_ranges (raw @ [r]) = [r]" by (simp add: merge_ranges_def merge_range_def)
    then show ?thesis using True b r assms(3) by (simp add: covered_def)
  next
    case False
    obtain ms c d where m: "?m = ms @ [(c, d)]" using IH(3) False by (metis prod.exhaust rev_exhaust)
    have prev: "snd (last raw) = fst (last raw) + m" "fst (last raw) \<le> a"
      using snoc.prems(1,2) False r by (auto simp: sorted_append split_beta)
    have cd: "d = fst (last raw) + m" "c \<le> fst (last raw)" using IH(3) False m prev by auto
    then have le: "c \<le> a" "d \<le> b" using prev b by auto
    show ?thesis
    proof (cases "a \<le> d")
      case True
      then have e: "merge_range ?m r = ms @ [(c, b)]" using le m r by (auto simp: merge_range_def)
      have "separated 0 n (ms @ [(c, b)])" using IH(1) m le b by (auto simp: separated_snoc)
      moreover have "covered (ms @ [(c, b)]) k \<longleftrightarrow> covered ?m k \<or> a \<le> k \<and> k < b"
        using m le True by (auto simp: covered_def)
      ultimately show ?thesis using e step cov r le by simp
    next
      case gap: False
      then have e: "merge_range ?m r = ?m @ [(a, b)]" using m r by (simp add: merge_range_def)
      have "separated 0 n (?m @ [(a, b)])" unfolding separated_snoc using IH(1) m gap b assms(3) by simp
      moreover have "covered (?m @ [(a, b)]) k \<longleftrightarrow> covered ?m k \<or> a \<le> k \<and> k < b" by (auto simp: covered_def)
      ultimately show ?thesis using e step cov r by simp
    qed
  qed
qed

text \<open>The first pass finds the occurrences, in order.\<close>

lemma collect_matches_eq:
  "collect_matches s p i = map (\<lambda>k. (k, k + length p)) (filter (occurs_at p s) [i..<length s + 1])"
proof (induction s p i rule: collect_matches.induct)
  case (1 s p i)
  show ?case
  proof (cases "indexOf_from s p i")
    case None
    then have "filter (occurs_at p s) [i..<length s + 1] = []"
      by (auto simp: indexOf_from_def find_None_iff filter_empty_conv simp del: upt_Suc)
    then show ?thesis using None by (subst collect_matches.simps) simp
  next
    case (Some k)
    note k = indexOf_from_ge[OF Some]
    have none: "\<forall>j\<in>set [i..<k]. \<not> occurs_at p s j"
    proof
      fix j
      assume j: "j \<in> set [i..<k]"
      from Some obtain x where x: "x < length [i..<length s + 1]" "k = [i..<length s + 1] ! x"
        "\<forall>y<x. \<not> occurs_at p s ([i..<length s + 1] ! y)"
        by (auto simp: indexOf_from_def find_Some_iff simp del: upt_Suc)
      then have "k = i + x" by (simp del: upt_Suc)
      then have "[i..<length s + 1] ! (j - i) = j" "j - i < x" using j x(1) by (auto simp del: upt_Suc)
      then show "\<not> occurs_at p s j" using x(3) by metis
    qed
    have "length (take (length p) (drop k s)) = length p" using k by (simp add: occurs_at_def)
    then have "length p \<le> length s - k" by simp
    then have guard: "int i \<le> int (length s) - int (length p)" using k by linarith
    have "[i..<length s + 1] = [i..<k] @ k # [k + 1..<length s + 1]"
      using k upt_split[of i k "length s + 1"] upt_conv_Cons[of k "length s + 1"] by simp
    then have "filter (occurs_at p s) [i..<length s + 1] = k # filter (occurs_at p s) [k + 1..<length s + 1]"
      using none k by (simp add: filter_empty_conv)
    then show ?thesis using 1(1)[OF guard Some] guard Some by (subst collect_matches.simps) simp
  qed
qed

lemma occurs_bound: "occurs_at p s k \<Longrightarrow> p \<noteq> [] \<Longrightarrow> k + length p \<le> length s"
proof -
  assume o: "occurs_at p s k" "p \<noteq> []"
  then have "length (take (length p) (drop k s)) = length p" by (simp add: occurs_at_def)
  then show ?thesis using o(2) by (cases "k \<le> length s") auto
qed

text \<open>C21: The parts put back together are the text, in its own casing, and exactly those characters are marked that lie
  in an occurrence of the trimmed term, letter case ignored: overlapping and adjacent occurrences included, and
  nothing when the term is blank.\<close>
theorem highlight_marks_occurrences:
  "concat (map marked_chars (highlightMatch s needle)) =
   map (\<lambda>k. (s ! k, trim needle \<noteq> [] \<and>
         (\<exists>i. occurs_at (to_lower (trim needle)) (to_lower s) i \<and> i \<le> k \<and> k < i + length (trim needle)))) [0..<length s]"
proof -
  let ?p = "to_lower (trim needle)" and ?s = "to_lower s" and ?raw = "collect_matches (to_lower s) (to_lower (trim needle)) 0"
  have len: "length ?s = length s" "length ?p = length (trim needle)" by (simp_all add: to_lower_def)
  have plain: "map (\<lambda>c. (c, False)) s = map (\<lambda>k. (s ! k, False)) [0..<length s]"
    using map_slice[of 0 "length s" s "\<lambda>c. (c, False)"] by (simp add: slice_def)
  have cov: "covered ?raw k \<longleftrightarrow> (\<exists>i. occurs_at ?p ?s i \<and> i \<le> k \<and> k < i + length (trim needle))" if "trim needle \<noteq> []" for k
  proof -
    have "i < length ?s + 1" if "occurs_at ?p ?s i" for i
      using occurs_bound[OF that] \<open>trim needle \<noteq> []\<close> len by fastforce
    then have "set ?raw = (\<lambda>i. (i, i + length ?p)) ` {i. occurs_at ?p ?s i}"
      by (auto simp: collect_matches_eq simp del: upt_Suc)
    then show ?thesis by (simp add: covered_def len)
  qed
  consider "trim needle = []" | "trim needle \<noteq> []" "s = [] \<or> ?raw = []" | "trim needle \<noteq> []" "s \<noteq> []" "?raw \<noteq> []" by blast
  then show ?thesis
  proof cases
    case 1
    then show ?thesis by (simp add: highlightMatch_def plain)
  next
    case 2
    then show ?thesis using cov[OF 2(1)] by (auto simp: highlightMatch_def plain covered_def)
  next
    case 3
    have so: "sorted (map fst ?raw)" by (simp add: collect_matches_eq comp_def sorted_wrt_filter del: upt_Suc)
    have "?p \<noteq> []" using 3(1) len by auto
    then have b: "\<forall>(a, b)\<in>set ?raw. b = a + length ?p \<and> b \<le> length s"
      using occurs_bound[of ?p ?s] len by (auto simp: collect_matches_eq simp del: upt_Suc)
    have "0 < length ?p" using \<open>?p \<noteq> []\<close> by simp
    note m = merge_ranges_ok[OF so b this]
    have "highlightMatch s needle = emit_parts s 0 (merge_ranges ?raw)" using 3 by (simp add: highlightMatch_def Let_def)
    then show ?thesis
      using emit_parts_marks[of 0 s "merge_ranges ?raw"] m cov[OF 3(1)] 3(1) by simp
  qed
qed

end
