(* ===== verification/Diff_View.thy ===== *)
theory Diff_View
  imports Js_Text Contracts
begin

text \<open>
  The diff helpers of \<open>src/components/ide/ide-diff-view.ts\<close>: the summary of a unified diff and its split into
  a before and an after column. The rendering of the rows is left out.
\<close>

section \<open>Rows and their summary\<close>

datatype diff_tone = Context | Add | Delete

record diff_row =
  dr_kind :: diff_tone
  dr_oldLine :: "int option"
  dr_newLine :: "int option"
  dr_text :: string

record diff_cell =
  dc_line :: "int option"
  dc_text :: string
  dc_kind :: diff_tone

record split_row =
  sr_before :: "diff_cell option"
  sr_after :: "diff_cell option"

record line_range =
  ra_start :: "int option"
  ra_end :: "int option"

record diff_summary =
  ds_total :: nat
  ds_additions :: nat
  ds_deletions :: nat
  ds_context :: nat
  ds_changed :: nat
  ds_oldRange :: line_range
  ds_newRange :: line_range

definition diffMarker :: "diff_tone \<Rightarrow> string" where
  "diffMarker k = (if k = Add then ''+'' else if k = Delete then ''-'' else '' '')"

definition min_opt :: "int option \<Rightarrow> int \<Rightarrow> int" where
  "min_opt m x = (case m of None \<Rightarrow> x | Some y \<Rightarrow> min y x)"

definition max_opt :: "int option \<Rightarrow> int \<Rightarrow> int" where
  "max_opt m x = (case m of None \<Rightarrow> x | Some y \<Rightarrow> max y x)"

definition widen :: "int option \<Rightarrow> line_range \<Rightarrow> line_range" where
  "widen line r =
     (case line of
        None \<Rightarrow> r
      | Some l \<Rightarrow> \<lparr>ra_start = Some (min_opt (ra_start r) l), ra_end = Some (max_opt (ra_end r) l)\<rparr>)"

definition summarize_row :: "diff_summary \<Rightarrow> diff_row \<Rightarrow> diff_summary" where
  "summarize_row s row =
     (let s1 = (if dr_kind row = Add then s\<lparr>ds_additions := ds_additions s + 1\<rparr>
                else if dr_kind row = Delete then s\<lparr>ds_deletions := ds_deletions s + 1\<rparr>
                else s\<lparr>ds_context := ds_context s + 1\<rparr>)
      in s1\<lparr>ds_oldRange := widen (dr_oldLine row) (ds_oldRange s1), ds_newRange := widen (dr_newLine row) (ds_newRange s1)\<rparr>)"

definition no_range :: line_range where
  "no_range = \<lparr>ra_start = None, ra_end = None\<rparr>"

definition summarizeDiffRows :: "diff_row list \<Rightarrow> diff_summary" where
  "summarizeDiffRows rows =
     (let s = foldl summarize_row
          \<lparr>ds_total = 0, ds_additions = 0, ds_deletions = 0, ds_context = 0, ds_changed = 0,
           ds_oldRange = no_range, ds_newRange = no_range\<rparr> rows
      in s\<lparr>ds_total := length rows, ds_changed := ds_additions s + ds_deletions s\<rparr>)"

definition formatDiffLineRange :: "line_range \<Rightarrow> string" where
  "formatDiffLineRange r =
     (case (ra_start r, ra_end r) of
        (Some a, Some b) \<Rightarrow> if a = b then show_int a else show_int a @ ''-'' @ show_int b
      | _ \<Rightarrow> ''n/a'')"

definition pluralize :: "string \<Rightarrow> nat \<Rightarrow> string" where
  "pluralize noun n = (if n = 1 then noun else noun @ ''s'')"

datatype diff_mode = Unified | Split

definition mode_text :: "diff_mode \<Rightarrow> string" where
  "mode_text m = (case m of Unified \<Rightarrow> ''Unified'' | Split \<Rightarrow> ''Split'')"

definition formatDiffSummaryAria :: "diff_summary \<Rightarrow> diff_mode \<Rightarrow> string" where
  "formatDiffSummaryAria s m =
     mode_text m @ '' diff summary: '' @ show_nat (ds_additions s) @ '' '' @ pluralize ''addition'' (ds_additions s) @ '', '' @
     show_nat (ds_deletions s) @ '' '' @ pluralize ''deletion'' (ds_deletions s) @ '', '' @
     show_nat (ds_context s) @ '' context '' @ pluralize ''row'' (ds_context s) @ '', old lines '' @
     formatDiffLineRange (ds_oldRange s) @ '', new lines '' @ formatDiffLineRange (ds_newRange s)"

text \<open>The count the strip shows.\<close>

definition changedRows :: "diff_mode \<Rightarrow> diff_summary \<Rightarrow> nat" where
  "changedRows m s = (if m = Split then max (ds_additions s) (ds_deletions s) else ds_changed s)"

section \<open>The split\<close>

definition before_cell :: "diff_row \<Rightarrow> diff_cell" where
  "before_cell row = \<lparr>dc_line = dr_oldLine row, dc_text = dr_text row, dc_kind = dr_kind row\<rparr>"

definition after_cell :: "diff_row \<Rightarrow> diff_cell" where
  "after_cell row = \<lparr>dc_line = dr_newLine row, dc_text = dr_text row, dc_kind = dr_kind row\<rparr>"

text \<open>The rows pushed so far, the adds and the deletes that wait.\<close>

type_synonym split_state = "split_row list \<times> diff_row list \<times> diff_row list"

definition at_index :: "'a list \<Rightarrow> nat \<Rightarrow> 'a option" where
  "at_index xs i = (if i < length xs then Some (xs ! i) else None)"

definition flushPending :: "split_state \<Rightarrow> split_state" where
  "flushPending st =
     (case st of (result, adds, deletes) \<Rightarrow>
        (result @ map (\<lambda>i. \<lparr>sr_before = map_option (\<lambda>del. \<lparr>dc_line = dr_oldLine del, dc_text = dr_text del, dc_kind = Delete\<rparr>) (at_index deletes i),
                            sr_after = map_option (\<lambda>add. \<lparr>dc_line = dr_newLine add, dc_text = dr_text add, dc_kind = Add\<rparr>) (at_index adds i)\<rparr>)
                 [0..<max (length deletes) (length adds)], [], []))"

definition diff_split_step :: "split_state \<Rightarrow> diff_row \<Rightarrow> split_state" where
  "diff_split_step st row =
     (case dr_kind row of
        Context \<Rightarrow>
          (case flushPending st of (result, adds, deletes) \<Rightarrow>
             (result @ [\<lparr>sr_before = Some \<lparr>dc_line = dr_oldLine row, dc_text = dr_text row, dc_kind = Context\<rparr>,
                         sr_after = Some \<lparr>dc_line = dr_newLine row, dc_text = dr_text row, dc_kind = Context\<rparr>\<rparr>], adds, deletes))
      | Delete \<Rightarrow> (case st of (result, adds, deletes) \<Rightarrow> (result, adds, deletes @ [row]))
      | Add \<Rightarrow> (case st of (result, adds, deletes) \<Rightarrow> (result, adds @ [row], deletes)))"

definition buildSplitDiff :: "diff_row list \<Rightarrow> split_row list" where
  "buildSplitDiff rows = fst (flushPending (foldl diff_split_step ([], [], []) rows))"

section \<open>The columns are the two files\<close>

definition column :: "(split_row \<Rightarrow> diff_cell option) \<Rightarrow> split_row list \<Rightarrow> diff_cell list" where
  "column side rows = List.map_filter side rows"

definition row_ok :: "split_row \<Rightarrow> bool" where
  "row_ok r \<longleftrightarrow>
     (case (map_option dc_kind (sr_before r), map_option dc_kind (sr_after r)) of
        (Some Context, Some Context) \<Rightarrow> True | (Some Delete, Some Add) \<Rightarrow> True
      | (Some Delete, None) \<Rightarrow> True | (None, Some Add) \<Rightarrow> True | _ \<Rightarrow> False)"

definition changed_row :: "split_row \<Rightarrow> bool" where
  "changed_row r \<longleftrightarrow> \<not> (\<exists>b. sr_before r = Some b \<and> dc_kind b = Context)"

lemma column_append [simp]: "column side (xs @ ys) = column side xs @ column side ys"
  by (simp add: column_def List.map_filter_def)

lemma column_Nil [simp]: "column side [] = []"
  by (simp add: column_def)

lemma column_single [simp]: "column side [r] = (case side r of None \<Rightarrow> [] | Some c \<Rightarrow> [c])"
  by (simp add: column_def List.map_filter_def split: option.split)

lemma map_filter_index: "List.map_filter (\<lambda>i. map_option f (at_index xs i)) [0..<length xs + k] = map f xs"
proof (induction k)
  case 0
  have "List.map_filter (\<lambda>i. map_option f (at_index xs i)) [0..<length xs] = map (\<lambda>i. f (xs ! i)) [0..<length xs]"
    unfolding List.map_filter_def by (auto simp: at_index_def intro!: map_cong filter_True)
  moreover have "map (\<lambda>i. f (xs ! i)) [0..<length xs] = map f xs" by (rule nth_equalityI) auto
  ultimately show ?case by simp
next
  case (Suc k)
  then show ?case by (simp add: at_index_def List.map_filter_def)
qed

lemma map_filter_indices:
  "length xs \<le> n \<Longrightarrow> List.map_filter (\<lambda>i. map_option f (at_index xs i)) [0..<n] = map f xs"
  using map_filter_index[of f xs "n - length xs"] by simp

lemma map_filter_map: "List.map_filter f (map g xs) = List.map_filter (\<lambda>x. f (g x)) xs"
  by (simp add: List.map_filter_def filter_map comp_def)

text \<open>What a flush appends.\<close>

definition hunk :: "diff_row list \<Rightarrow> diff_row list \<Rightarrow> split_row list" where
  "hunk adds deletes = fst (flushPending ([], adds, deletes))"

lemma flushPending_hunk: "flushPending (result, adds, deletes) = (result @ hunk adds deletes, [], [])"
  by (simp add: flushPending_def hunk_def)

lemma hunk_facts:
  assumes "\<forall>a\<in>set adds. dr_kind a = Add" and "\<forall>d\<in>set deletes. dr_kind d = Delete"
  shows "column sr_before (hunk adds deletes) = map before_cell deletes"
    and "column sr_after (hunk adds deletes) = map after_cell adds"
    and "list_all row_ok (hunk adds deletes)" and "list_all changed_row (hunk adds deletes)"
    and "length (hunk adds deletes) = max (length deletes) (length adds)"
proof -
  show "column sr_before (hunk adds deletes) = map before_cell deletes"
    using assms by (auto simp: column_def hunk_def flushPending_def map_filter_map map_filter_indices before_cell_def)
  show "column sr_after (hunk adds deletes) = map after_cell adds"
    using assms by (auto simp: column_def hunk_def flushPending_def map_filter_map map_filter_indices after_cell_def)
  show "list_all row_ok (hunk adds deletes)" "list_all changed_row (hunk adds deletes)"
    by (auto simp: list_all_iff hunk_def flushPending_def row_ok_def changed_row_def at_index_def)
  show "length (hunk adds deletes) = max (length deletes) (length adds)" by (simp add: hunk_def flushPending_def)
qed

definition kept :: "diff_tone \<Rightarrow> diff_row list \<Rightarrow> diff_row list" where
  "kept k rows = filter (\<lambda>r. dr_kind r \<noteq> k) rows"

definition only :: "diff_tone \<Rightarrow> diff_row list \<Rightarrow> diff_row list" where
  "only k rows = filter (\<lambda>r. dr_kind r = k) rows"

text \<open>The state of the split after some rows.\<close>

definition diff_split_ok :: "diff_row list \<Rightarrow> split_state \<Rightarrow> bool" where
  "diff_split_ok rows st \<longleftrightarrow>
     (case st of (result, adds, deletes) \<Rightarrow>
        (\<forall>a\<in>set adds. dr_kind a = Add) \<and> (\<forall>d\<in>set deletes. dr_kind d = Delete) \<and>
        column sr_before result @ map before_cell deletes = map before_cell (kept Add rows) \<and>
        column sr_after result @ map after_cell adds = map after_cell (kept Delete rows) \<and>
        list_all row_ok result \<and>
        (let changed = length (filter changed_row result) in
         length (only Add rows) \<le> changed + length adds \<and> length (only Delete rows) \<le> changed + length deletes \<and>
         changed + length adds + length deletes \<le> length (only Add rows) + length (only Delete rows)))"

lemma diff_split_ok_flush:
  assumes "diff_split_ok rows st"
  shows "diff_split_ok rows (flushPending st)" and "snd (flushPending st) = ([], [])"
proof -
  obtain result adds deletes where st: "st = (result, adds, deletes)" by (cases st)
  have k: "\<forall>a\<in>set adds. dr_kind a = Add" "\<forall>d\<in>set deletes. dr_kind d = Delete" using assms st by (auto simp: diff_split_ok_def)
  have "filter changed_row (hunk adds deletes) = hunk adds deletes"
    using hunk_facts(4)[OF k] by (simp add: list_all_iff)
  then show "diff_split_ok rows (flushPending st)"
    using assms hunk_facts[OF k] by (auto simp: st flushPending_hunk diff_split_ok_def Let_def)
  show "snd (flushPending st) = ([], [])" by (simp add: st flushPending_hunk)
qed

lemma diff_split_ok_step:
  assumes "diff_split_ok rows st"
  shows "diff_split_ok (rows @ [row]) (diff_split_step st row)"
proof (cases "dr_kind row")
  case Context
  obtain result where f: "flushPending st = (result, [], [])" using diff_split_ok_flush(2)[OF assms] by (metis surjective_pairing)
  then have "diff_split_ok rows (result, [], [])" using diff_split_ok_flush(1)[OF assms] by simp
  then show ?thesis
    using Context f
    by (auto simp: diff_split_ok_def diff_split_step_def kept_def only_def before_cell_def after_cell_def row_ok_def changed_row_def Let_def)
next
  case Add
  then show ?thesis using assms
    by (cases st) (auto simp: diff_split_ok_def diff_split_step_def kept_def only_def Let_def)
next
  case Delete
  then show ?thesis using assms
    by (cases st) (auto simp: diff_split_ok_def diff_split_step_def kept_def only_def Let_def)
qed

lemma diff_split_ok_rows: "diff_split_ok rows (foldl diff_split_step ([], [], []) rows)"
proof (induction rows rule: rev_induct)
  case Nil
  show ?case by (simp add: diff_split_ok_def kept_def only_def)
qed (simp add: diff_split_ok_step)

text \<open>C14: The split loses nothing and invents nothing: read downwards without its gaps, the before column is the rows that
  are not additions and the after column the rows that are not deletions, each with its line number and text; a
  row pairs context with itself or a deletion with an addition, or has one side only; and the number of changed rows
  lies between the larger of additions and deletions and their sum.\<close>
theorem split_diff_columns:
  "column sr_before (buildSplitDiff rows) = map before_cell (kept Add rows) \<and>
   column sr_after (buildSplitDiff rows) = map after_cell (kept Delete rows) \<and>
   list_all row_ok (buildSplitDiff rows) \<and>
   max (length (only Add rows)) (length (only Delete rows)) \<le> length (filter changed_row (buildSplitDiff rows)) \<and>
   length (filter changed_row (buildSplitDiff rows)) \<le> length (only Add rows) + length (only Delete rows)"
proof -
  let ?st = "foldl diff_split_step ([], [], []) rows"
  obtain result where f: "flushPending ?st = (result, [], [])"
    using diff_split_ok_flush(2)[OF diff_split_ok_rows] by (metis surjective_pairing)
  then have "diff_split_ok rows (result, [], [])" using diff_split_ok_flush(1)[OF diff_split_ok_rows, of rows] by simp
  then show ?thesis by (simp add: buildSplitDiff_def f diff_split_ok_def Let_def)
qed

section \<open>The summary\<close>

definition lines_of :: "(diff_row \<Rightarrow> int option) \<Rightarrow> diff_row list \<Rightarrow> int set" where
  "lines_of f rows = {l. \<exists>r\<in>set rows. f r = Some l}"

definition range_of :: "int set \<Rightarrow> line_range" where
  "range_of ls = (if ls = {} then no_range else \<lparr>ra_start = Some (Min ls), ra_end = Some (Max ls)\<rparr>)"

lemma finite_lines_of: "finite (lines_of f rows)"
proof -
  have "lines_of f rows \<subseteq> the ` f ` set rows" by (force simp: lines_of_def)
  then show ?thesis by (rule finite_subset) simp
qed

lemma range_widen: "widen (f row) (range_of (lines_of f rows)) = range_of (lines_of f (rows @ [row]))"
proof (cases "f row")
  case None
  then have "lines_of f (rows @ [row]) = lines_of f rows" by (auto simp: lines_of_def)
  then show ?thesis using None by (simp add: widen_def)
next
  case (Some l)
  then have "lines_of f (rows @ [row]) = insert l (lines_of f rows)" by (auto simp: lines_of_def)
  then show ?thesis
    using Some finite_lines_of[of f rows]
    by (auto simp: widen_def range_of_def no_range_def min_opt_def max_opt_def min.commute max.commute)
qed

text \<open>The summary counts each kind of row, its total is their sum, the changed rows are the additions and deletions,
  and its ranges are the least and greatest line numbers that occur on each side, absent when none does.\<close>
theorem diff_summary_exact:
  "let s = summarizeDiffRows rows in
   ds_additions s = length (only Add rows) \<and> ds_deletions s = length (only Delete rows) \<and>
   ds_total s = ds_additions s + ds_deletions s + ds_context s \<and> ds_changed s = ds_additions s + ds_deletions s \<and>
   ds_oldRange s = range_of (lines_of dr_oldLine rows) \<and> ds_newRange s = range_of (lines_of dr_newLine rows)"
proof -
  let ?z = "\<lparr>ds_total = 0, ds_additions = 0, ds_deletions = 0, ds_context = 0, ds_changed = 0,
           ds_oldRange = no_range, ds_newRange = no_range\<rparr>"
  have "ds_additions (foldl summarize_row ?z rows) = length (only Add rows) \<and>
        ds_deletions (foldl summarize_row ?z rows) = length (only Delete rows) \<and>
        ds_context (foldl summarize_row ?z rows) = length (only Context rows) \<and>
        ds_oldRange (foldl summarize_row ?z rows) = range_of (lines_of dr_oldLine rows) \<and>
        ds_newRange (foldl summarize_row ?z rows) = range_of (lines_of dr_newLine rows)"
  proof (induction rows rule: rev_induct)
    case Nil
    show ?case by (simp add: only_def range_of_def lines_of_def)
  next
    case (snoc row rows)
    then show ?case by (cases "dr_kind row") (auto simp: summarize_row_def only_def Let_def range_widen)
  qed
  moreover have "length rows = length (only Add rows) + length (only Delete rows) + length (only Context rows)"
    unfolding only_def by (induction rows) (auto, (metis diff_tone.exhaust)+)
  ultimately show ?thesis by (simp add: summarizeDiffRows_def Let_def)
qed

text \<open>
  The strip shows the larger of additions and deletions as the number of changed rows of the split. With two
  hunks that is too few.
\<close>

definition two_hunks :: "diff_row list" where
  "two_hunks =
     [\<lparr>dr_kind = Delete, dr_oldLine = Some 1, dr_newLine = None, dr_text = ''a''\<rparr>,
      \<lparr>dr_kind = Context, dr_oldLine = Some 2, dr_newLine = Some 1, dr_text = ''b''\<rparr>,
      \<lparr>dr_kind = Add, dr_oldLine = None, dr_newLine = Some 2, dr_text = ''c''\<rparr>]"

lemma split_count_short:
  "changedRows Split (summarizeDiffRows two_hunks) = 1 \<and> length (filter changed_row (buildSplitDiff two_hunks)) = 2"
  unfolding two_hunks_def
  by (simp add: changedRows_def summarizeDiffRows_def summarize_row_def Let_def buildSplitDiff_def diff_split_step_def flushPending_def
      changed_row_def at_index_def widen_def no_range_def)

end
