(* ===== verification/Dashboard_Routes.thy ===== *)
theory Dashboard_Routes
  imports Js_Text Contracts
begin

text \<open>
  What a route of the dashboard asks of the data layer, decided in three places: the slices its websocket
  subscribes to (\<open>dashboardSlicesForRoute\<close> and \<open>routeKey\<close> of \<open>src/dashboard-ws.ts\<close>), the refreshes an event of
  the server may trigger (\<open>src/refresh-scope.ts\<close>) and the fetches of a visit (\<open>refreshPlanForRoute\<close> of
  \<open>src/tab-refresh.ts\<close>), with the counter of visits that the latter keeps in local storage.
\<close>

section \<open>Routes\<close>

datatype tab_id = Cockpit | Overview | Monitoring | Command | Connectors | Workspace | Lab | Code | Logs

record route_state =
  rs_tab :: tab_id
  rs_params :: "(string, string) jsmap"

fun tab_text :: "tab_id \<Rightarrow> string" where
  "tab_text Cockpit = ''cockpit''"
| "tab_text Overview = ''overview''"
| "tab_text Monitoring = ''monitoring''"
| "tab_text Command = ''command''"
| "tab_text Connectors = ''connectors''"
| "tab_text Workspace = ''workspace''"
| "tab_text Lab = ''lab''"
| "tab_text Code = ''code''"
| "tab_text Logs = ''logs''"

definition param :: "string \<Rightarrow> route_state \<Rightarrow> string option" where
  "param k r = map_get (rs_params r) k"

definition section_is :: "string \<Rightarrow> route_state \<Rightarrow> bool" where
  "section_is v r \<longleftrightarrow> param ''section'' r = Some v"

definition view_is :: "string \<Rightarrow> route_state \<Rightarrow> bool" where
  "view_is v r \<longleftrightarrow> param ''view'' r = Some v"

definition or_empty :: "string option \<Rightarrow> string" where
  "or_empty p = (case p of None \<Rightarrow> '''' | Some v \<Rightarrow> v)"

definition routeKey :: "route_state \<Rightarrow> string" where
  "routeKey r = join '':'' [tab_text (rs_tab r), or_empty (param ''section'' r), or_empty (param ''view'' r), or_empty (param ''q'' r)]"

section \<open>The slices of a subscription\<close>

definition add_if :: "bool \<Rightarrow> string list \<Rightarrow> string jsset \<Rightarrow> string jsset" where
  "add_if b new slices = (if b then fold set_add new slices else slices)"

definition dashboardSlicesForRoute :: "route_state \<Rightarrow> string list" where
  "dashboardSlicesForRoute r =
     (let s0 = set_from [''shell'', ''namespace'', ''transport''];
          s1 = add_if (rs_tab r = Overview) [''execution''] s0;
          s2 = add_if (rs_tab r = Workspace \<and> section_is ''planning'' r) [''execution'', ''goals''] s1;
          s3 = add_if (rs_tab r = Workspace \<and> section_is ''board'' r) [''board''] s2;
          s4 = (if rs_tab r = Monitoring then
                  (let m1 = add_if (section_is ''observatory'' r \<or> section_is ''journey'' r \<or>
                                    section_is ''agents'' r \<or> section_is ''cognition'' r) [''execution''] s3;
                       m2 = add_if (section_is ''agents'' r \<or> section_is ''cognition'' r) [''composite''] m1
                   in add_if (section_is ''fleet-health'' r \<and> view_is ''comparison'' r) [''execution'', ''transport''] m2)
                else s3);
          s5 = add_if (rs_tab r = Command \<and> \<not> view_is ''inspector'' r) [''operator''] s4
      in js_sort str_cmp s5)"

section \<open>The refreshes an event may trigger\<close>

datatype refresh_target = To_execution | To_board | To_operator | To_activity

definition routeWantsExecution :: "route_state \<Rightarrow> bool" where
  "routeWantsExecution r =
     (if rs_tab r = Workspace then section_is ''planning'' r
      else if rs_tab r \<noteq> Monitoring then False
      else if section_is ''observatory'' r \<or> section_is ''journey'' r \<or> section_is ''agents'' r \<or> section_is ''cognition'' r then True
      else section_is ''fleet-health'' r \<and> view_is ''comparison'' r)"

fun routeWantsRefreshTarget :: "route_state \<Rightarrow> refresh_target \<Rightarrow> bool" where
  "routeWantsRefreshTarget r To_execution = routeWantsExecution r"
| "routeWantsRefreshTarget r To_board = (rs_tab r = Workspace \<and> section_is ''board'' r)"
| "routeWantsRefreshTarget r To_operator = (rs_tab r = Command \<and> \<not> view_is ''inspector'' r)"
| "routeWantsRefreshTarget r To_activity = (rs_tab r = Monitoring \<and> section_is ''observatory'' r)"

section \<open>The fetches of a visit\<close>

datatype refresh_task =
    Rt_shell | Rt_namespaceTruth | Rt_missionSnapshot | Rt_execution | Rt_observatory | Rt_activityGraph | Rt_gitGraph
  | Rt_board | Rt_goals | Rt_autoresearch | Rt_harness | Rt_toolQuality | Rt_inspector | Rt_cascadeInspector
  | Rt_operatorSnapshot | Rt_operatorRoomDigest

definition refreshPlanForRoute :: "route_state \<Rightarrow> refresh_task list" where
  "refreshPlanForRoute r =
     (case rs_tab r of
        Overview \<Rightarrow> [Rt_shell, Rt_namespaceTruth, Rt_missionSnapshot, Rt_execution]
      | Monitoring \<Rightarrow>
          (if section_is ''observatory'' r then [Rt_namespaceTruth, Rt_execution, Rt_missionSnapshot, Rt_observatory, Rt_activityGraph]
           else if section_is ''journey'' r then [Rt_execution, Rt_missionSnapshot]
           else if section_is ''agents'' r then [Rt_namespaceTruth, Rt_execution, Rt_missionSnapshot]
           else if section_is ''cognition'' r then [Rt_namespaceTruth, Rt_execution, Rt_missionSnapshot, Rt_autoresearch]
           else if section_is ''runtime'' r \<and> view_is ''inspector'' r then [Rt_cascadeInspector]
           else if section_is ''fleet-health'' r then
             (if view_is ''tool-quality'' r then [Rt_toolQuality]
              else if view_is ''comparison'' r then [Rt_execution, Rt_toolQuality]
              else [Rt_namespaceTruth])
           else [Rt_namespaceTruth, Rt_missionSnapshot])
      | Command \<Rightarrow>
          (if view_is ''inspector'' r then [Rt_inspector]
           else [Rt_namespaceTruth, Rt_operatorSnapshot, Rt_operatorRoomDigest])
      | Workspace \<Rightarrow>
          (if section_is ''planning'' r then [Rt_goals, Rt_execution]
           else if section_is ''board'' r then [Rt_board]
           else if section_is ''repositories'' r \<and> view_is ''graph'' r then [Rt_gitGraph]
           else [])
      | Lab \<Rightarrow>
          (if section_is ''autoresearch'' r then [Rt_autoresearch]
           else if section_is ''harness'' r then [Rt_harness]
           else [])
      | Code \<Rightarrow> [Rt_namespaceTruth, Rt_execution, Rt_missionSnapshot]
      | _ \<Rightarrow> [])"

text \<open>
  The counter of visits: what local storage holds, and the counter in memory that takes over when an access to the
  storage throws, on reading, parsing or writing (\<open>ok\<close> tells whether none does).
\<close>

record visits =
  vi_stored :: "(string, int) jsmap"
  vi_memory :: "(string, int) jsmap option"

definition bump :: "string \<Rightarrow> (string, int) jsmap \<Rightarrow> (string, int) jsmap" where
  "bump k counts = map_set k ((case map_get counts k of None \<Rightarrow> 0 | Some n \<Rightarrow> n) + 1) counts"

definition visit_key :: "string \<Rightarrow> string option \<Rightarrow> string" where
  "visit_key tab section = (case section of None \<Rightarrow> tab | Some x \<Rightarrow> if x = '''' then tab else tab @ ''/'' @ x)"

definition recordTabVisit :: "bool \<Rightarrow> string \<Rightarrow> string option \<Rightarrow> visits \<Rightarrow> visits" where
  "recordTabVisit ok tab section v =
     (let k = visit_key tab section
      in if ok then \<lparr>vi_stored = bump k (vi_stored v), vi_memory = None\<rparr>
         else v\<lparr>vi_memory := Some (bump k (case vi_memory v of None \<Rightarrow> [] | Some m \<Rightarrow> m))\<rparr>)"

definition refreshForRoute :: "bool \<Rightarrow> route_state \<Rightarrow> bool option \<Rightarrow> visits \<Rightarrow> visits \<times> refresh_task list" where
  "refreshForRoute ok r recordVisit v =
     (if recordVisit = Some True then recordTabVisit ok (tab_text (rs_tab r)) (param ''section'' r) v else v,
      refreshPlanForRoute r)"

section \<open>The three decisions together\<close>

lemmas route_defs = section_is_def view_is_def add_if_def

lemma add_if_set [simp]: "set (add_if b new slices) = (if b then set new \<union> set slices else set slices)"
  by (auto simp: add_if_def fold_set_add_set)

lemma add_if_distinct [simp]: "distinct slices \<Longrightarrow> distinct (add_if b new slices)"
  by (simp add: add_if_def fold_set_add_distinct)

lemma slices_set:
  "set (dashboardSlicesForRoute r) =
     {''shell'', ''namespace'', ''transport''} \<union>
     (if rs_tab r = Overview \<or> routeWantsRefreshTarget r To_execution then {''execution''} else {}) \<union>
     (if rs_tab r = Workspace \<and> section_is ''planning'' r then {''goals''} else {}) \<union>
     (if routeWantsRefreshTarget r To_board then {''board''} else {}) \<union>
     (if rs_tab r = Monitoring \<and> (section_is ''agents'' r \<or> section_is ''cognition'' r) then {''composite''} else {}) \<union>
     (if routeWantsRefreshTarget r To_operator then {''operator''} else {})"
  by (cases "rs_tab r") (auto simp: dashboardSlicesForRoute_def routeWantsExecution_def Let_def)

lemma slices_distinct [simp]: "distinct (dashboardSlicesForRoute r)"
  by (simp add: dashboardSlicesForRoute_def Let_def)

lemma slices_sorted: "sorted_wrt (\<lambda>a b. str_cmp a b \<le> 0) (dashboardSlicesForRoute r)"
  unfolding dashboardSlicesForRoute_def Let_def by (rule str_order.js_sort_sorted)

text \<open>The websocket subscription of a route is a sorted list without repetition that always holds the shell,
  namespace and transport slices; whatever an event of the server may refresh on the route is subscribed to, and what
  a visit of the route fetches of execution, board and goals is kept up to date by a slice of the same name, on every
  tab but one: the code tab fetches the execution state and never subscribes to it.\<close>

theorem route_slices_agree:
  "sorted_wrt (\<lambda>a b. str_cmp a b < 0) (dashboardSlicesForRoute r) \<and>
   {''shell'', ''namespace'', ''transport''} \<subseteq> set (dashboardSlicesForRoute r) \<and>
   (''execution'' \<in> set (dashboardSlicesForRoute r)) = (routeWantsRefreshTarget r To_execution \<or> rs_tab r = Overview) \<and>
   (''execution'' \<in> set (dashboardSlicesForRoute r)) = (Rt_execution \<in> set (refreshPlanForRoute r) \<and> rs_tab r \<noteq> Code) \<and>
   (''board'' \<in> set (dashboardSlicesForRoute r)) = routeWantsRefreshTarget r To_board \<and>
   (''board'' \<in> set (dashboardSlicesForRoute r)) = (Rt_board \<in> set (refreshPlanForRoute r)) \<and>
   (''goals'' \<in> set (dashboardSlicesForRoute r)) = (Rt_goals \<in> set (refreshPlanForRoute r)) \<and>
   (''operator'' \<in> set (dashboardSlicesForRoute r)) = routeWantsRefreshTarget r To_operator \<and>
   (''operator'' \<in> set (dashboardSlicesForRoute r)) = (Rt_operatorSnapshot \<in> set (refreshPlanForRoute r)) \<and>
   routeWantsRefreshTarget r To_activity = (Rt_activityGraph \<in> set (refreshPlanForRoute r))"
proof -
  have strict: "sorted_wrt (\<lambda>a b. str_cmp a b < 0) xs"
    if "sorted_wrt (\<lambda>a b. str_cmp a b \<le> 0) xs" and "distinct xs" for xs
    using that by (induction xs) (auto simp: order_less_le str_cmp_eq_0)
  have wants: "(''execution'' \<in> set (dashboardSlicesForRoute r)) = (routeWantsRefreshTarget r To_execution \<or> rs_tab r = Overview)"
    "(''board'' \<in> set (dashboardSlicesForRoute r)) = routeWantsRefreshTarget r To_board"
    "(''goals'' \<in> set (dashboardSlicesForRoute r)) = (rs_tab r = Workspace \<and> section_is ''planning'' r)"
    "(''operator'' \<in> set (dashboardSlicesForRoute r)) = routeWantsRefreshTarget r To_operator"
    by (auto simp: slices_set)
  have base: "{''shell'', ''namespace'', ''transport''} \<subseteq> set (dashboardSlicesForRoute r)"
    unfolding slices_set by blast
  have plan: "(Rt_execution \<in> set (refreshPlanForRoute r)) = (routeWantsRefreshTarget r To_execution \<or> rs_tab r = Overview \<or> rs_tab r = Code)"
    "(Rt_board \<in> set (refreshPlanForRoute r)) = routeWantsRefreshTarget r To_board"
    "(Rt_goals \<in> set (refreshPlanForRoute r)) = (rs_tab r = Workspace \<and> section_is ''planning'' r)"
    "(Rt_operatorSnapshot \<in> set (refreshPlanForRoute r)) = routeWantsRefreshTarget r To_operator"
    "(Rt_activityGraph \<in> set (refreshPlanForRoute r)) = routeWantsRefreshTarget r To_activity"
    by (cases "rs_tab r"; auto simp: refreshPlanForRoute_def routeWantsExecution_def section_is_def view_is_def)+
  have "\<not> routeWantsRefreshTarget r To_execution" if "rs_tab r = Code"
    using that by (simp add: routeWantsExecution_def)
  then show ?thesis
    using strict[OF slices_sorted slices_distinct] base by (auto simp: wants plan)
qed

text \<open>Two different routes can have the same key, since a colon inside a parameter is not escaped.\<close>

lemma routeKey_collides:
  "routeKey \<lparr>rs_tab = Logs, rs_params = [(''view'', ''a:b''), (''q'', ''c'')]\<rparr> =
   routeKey \<lparr>rs_tab = Logs, rs_params = [(''view'', ''a''), (''q'', ''b:c'')]\<rparr>"
  by (simp add: routeKey_def param_def or_empty_def)

text \<open>Without a colon in them the tab and the parameters can be read back from the key.\<close>

lemma tab_text_inject [simp]: "tab_text a = tab_text b \<longleftrightarrow> a = b"
  by (cases a; cases b) simp_all

lemma routeKey_inject:
  assumes "\<forall>p\<in>{r, r'}. \<forall>k\<in>{''section'', ''view'', ''q''}. CHR '':'' \<notin> set (or_empty (param k p))"
    and "routeKey r = routeKey r'"
  shows "rs_tab r = rs_tab r' \<and> (\<forall>k\<in>{''section'', ''view'', ''q''}. or_empty (param k r) = or_empty (param k r'))"
proof -
  let ?parts = "\<lambda>p. [tab_text (rs_tab p), or_empty (param ''section'' p), or_empty (param ''view'' p), or_empty (param ''q'' p)]"
  have tab: "CHR '':'' \<notin> set (tab_text t)" for t by (cases t) simp_all
  have "split_on (CHR '':'') (routeKey p) = ?parts p" if "p \<in> {r, r'}" for p
    unfolding routeKey_def using assms(1) that tab by (intro split_on_join) auto
  then have "?parts r = ?parts r'" using assms(2) by (metis insertI1 insertI2)
  then show ?thesis by simp
qed

end
