(* ===== verification/Url_Text.thy ===== *)
theory Url_Text
  imports Js_Text
begin

text \<open>
  The standard functions on URLs that the router uses: \<open>decodeURIComponent\<close>, \<open>encodeURIComponent\<close> and the parser and
  serializer of \<open>URLSearchParams\<close>. Here, and in \<open>Router\<close>, a string is the list of its UTF-8 bytes, so that
  percent-encoding is on characters; \<open>utf8_ok\<close> tells which lists are strings. What the parser makes of bytes
  that are no UTF-8 (it substitutes replacement characters) is the argument \<open>repair\<close>.
\<close>

section \<open>Percent-encoded bytes\<close>

definition hex_digit :: "nat \<Rightarrow> char" where
  "hex_digit d = char_of (if d < 10 then 48 + d else 55 + d)"

definition hex_val :: "char \<Rightarrow> nat option" where
  "hex_val c = (let n = char_code c in
     if 48 \<le> n \<and> n \<le> 57 then Some (n - 48)
     else if 65 \<le> n \<and> n \<le> 70 then Some (n - 55)
     else if 97 \<le> n \<and> n \<le> 102 then Some (n - 87)
     else None)"

definition pct :: "char \<Rightarrow> string" where
  "pct c = [CHR ''%'', hex_digit (char_code c div 16), hex_digit (char_code c mod 16)]"

definition byte_of :: "nat \<Rightarrow> nat \<Rightarrow> char" where
  "byte_of h l = char_of (16 * h + l)"

text \<open>Strictly, \<open>None\<close> at a percent sign without two hexadecimal digits; leniently, such a sign stands for itself.\<close>

fun pct_strict :: "string \<Rightarrow> string option" where
  "pct_strict [] = Some []"
| "pct_strict (c # s) =
     (if c \<noteq> CHR ''%'' then map_option ((#) c) (pct_strict s)
      else case s of
             h # l # t \<Rightarrow>
               (case (hex_val h, hex_val l) of
                  (Some x, Some y) \<Rightarrow> map_option ((#) (byte_of x y)) (pct_strict t)
                | _ \<Rightarrow> None)
           | _ \<Rightarrow> None)"

fun pct_lenient :: "string \<Rightarrow> string" where
  "pct_lenient [] = []"
| "pct_lenient (c # s) =
     (if c \<noteq> CHR ''%'' then c # pct_lenient s
      else case s of
             h # l # t \<Rightarrow>
               (case (hex_val h, hex_val l) of
                  (Some x, Some y) \<Rightarrow> byte_of x y # pct_lenient t
                | _ \<Rightarrow> c # pct_lenient s)
           | _ \<Rightarrow> c # pct_lenient s)"

section \<open>UTF-8\<close>

definition in_range :: "nat \<Rightarrow> nat \<Rightarrow> char \<Rightarrow> bool" where
  "in_range a b c \<longleftrightarrow> a \<le> char_code c \<and> char_code c \<le> b"

abbreviation tail_byte :: "char \<Rightarrow> bool" where
  "tail_byte \<equiv> in_range 128 191"

fun utf8_ok :: "string \<Rightarrow> bool" where
  "utf8_ok [] = True"
| "utf8_ok (a # s) =
     (if in_range 0 127 a then utf8_ok s
      else if in_range 194 223 a then (case s of b # t \<Rightarrow> tail_byte b \<and> utf8_ok t | _ \<Rightarrow> False)
      else if in_range 224 239 a then
        (case s of b # c # t \<Rightarrow>
           in_range (if char_code a = 224 then 160 else 128) (if char_code a = 237 then 159 else 191) b \<and> tail_byte c \<and> utf8_ok t
         | _ \<Rightarrow> False)
      else if in_range 240 244 a then
        (case s of b # c # d # t \<Rightarrow>
           in_range (if char_code a = 240 then 144 else 128) (if char_code a = 244 then 143 else 191) b \<and>
           tail_byte c \<and> tail_byte d \<and> utf8_ok t
         | _ \<Rightarrow> False)
      else False)"

section \<open>The functions\<close>

definition decodeURIComponent :: "string \<Rightarrow> string option" where
  "decodeURIComponent s = (case pct_strict s of None \<Rightarrow> None | Some t \<Rightarrow> if utf8_ok t then Some t else None)"

definition alnum :: "char \<Rightarrow> bool" where
  "alnum c \<longleftrightarrow> in_range 48 57 c \<or> in_range 65 90 c \<or> in_range 97 122 c"

definition encodeURIComponent :: "string \<Rightarrow> string" where
  "encodeURIComponent s = concat (map (\<lambda>c. if alnum c \<or> c \<in> set ''-_.!~*'' \<or> c \<in> {CHR 0x27, CHR ''('', CHR '')''} then [c] else pct c) s)"

definition form_char :: "char \<Rightarrow> string" where
  "form_char c = (if alnum c \<or> c \<in> set ''*-._'' then [c] else if c = CHR '' '' then ''+'' else pct c)"

definition form_text :: "string \<Rightarrow> string" where
  "form_text s = concat (map form_char s)"

definition search_text :: "(string, string) jsmap \<Rightarrow> string" where
  "search_text kvs = join ''&'' (map (\<lambda>(k, v). form_text k @ ''='' @ form_text v) kvs)"

definition form_value :: "(string \<Rightarrow> string) \<Rightarrow> string \<Rightarrow> string" where
  "form_value repair s =
     (let t = pct_lenient (map (\<lambda>c. if c = CHR ''+'' then CHR '' '' else c) s) in if utf8_ok t then t else repair t)"

text \<open>The name and the value of a part are split at its first equals sign; a part without one has an empty value.\<close>

definition split_part :: "string \<Rightarrow> string \<times> string" where
  "split_part p = (takeWhile (\<lambda>c. c \<noteq> CHR ''='') p, drop 1 (dropWhile (\<lambda>c. c \<noteq> CHR ''='') p))"

definition search_entries :: "(string \<Rightarrow> string) \<Rightarrow> string \<Rightarrow> (string \<times> string) list" where
  "search_entries repair raw =
     (let query = (if starts_with raw ''?'' then drop 1 raw else raw)
      in map (\<lambda>p. (form_value repair (fst (split_part p)), form_value repair (snd (split_part p))))
           (filter (\<lambda>p. p \<noteq> []) (split_on (CHR ''&'') query)))"

section \<open>Decoding what was encoded\<close>

lemma char_code_less: "char_code c < 256"
  by (metis of_char_of char_of_char mod_less_divisor zero_less_numeral)

lemma hex_roundtrip: "d < 16 \<Longrightarrow> hex_val (hex_digit d) = Some d"
  by (auto simp: hex_val_def hex_digit_def Let_def)

lemma byte_roundtrip: "byte_of (char_code c div 16) (char_code c mod 16) = c"
  by (simp add: byte_of_def)

lemma pct_strict_pct: "pct_strict (pct c @ s) = map_option ((#) c) (pct_strict s)"
proof -
  have "char_code c div 16 < 16" using char_code_less[of c] by (simp only: less_mult_imp_div_less)
  moreover have "char_code c mod 16 < 16" by simp
  ultimately
  show ?thesis by (simp add: pct_def hex_roundtrip byte_roundtrip)
qed

lemma hex_digit_plain: "d < 16 \<Longrightarrow> hex_digit d \<notin> {CHR ''%'', CHR ''&'', CHR ''='', CHR ''+'', CHR ''#'', CHR ''?''}"
  by (auto simp: hex_digit_def dest!: arg_cong[where f = char_code])

text \<open>What the router sees of a serialized text after \<open>decodeURIComponent\<close>: the text, a plus sign for a space.\<close>

definition plus_for_space :: "string \<Rightarrow> string" where
  "plus_for_space s = map (\<lambda>c. if c = CHR '' '' then CHR ''+'' else c) s"

lemma pct_strict_form: "pct_strict (form_text s @ t) = map_option ((@) (plus_for_space s)) (pct_strict t)"
proof (induction s)
  case Nil
  show ?case by (simp add: form_text_def plus_for_space_def option.map_ident)
next
  case (Cons c s)
  have "pct_strict (form_char c @ u) = map_option ((#) (if c = CHR '' '' then CHR ''+'' else c)) (pct_strict u)" for u
    by (auto simp: form_char_def alnum_def in_range_def pct_strict_pct)
  with Cons show ?case by (simp add: form_text_def plus_for_space_def option.map_comp comp_def)
qed

lemma pct_strict_plain: "CHR ''%'' \<notin> set s \<Longrightarrow> pct_strict (s @ t) = map_option ((@) s) (pct_strict t)"
  by (induction s) (cases "pct_strict t"; auto)+

lemma utf8_ok_append: "utf8_ok s \<Longrightarrow> utf8_ok t \<Longrightarrow> utf8_ok (s @ t)"
  by (induction s rule: utf8_ok.induct) (auto split: if_splits list.splits)

lemma utf8_ok_ascii: "\<forall>c\<in>set s. in_range 0 127 c \<Longrightarrow> utf8_ok s"
  by (induction s) auto

lemma utf8_ok_plus: "utf8_ok s \<Longrightarrow> utf8_ok (plus_for_space s)"
proof -
  have r: "in_range a b (if c = CHR '' '' then CHR ''+'' else c) = in_range a b c" if "128 \<le> a \<or> a = 0 \<and> b = 127" for a b c
    using that by (auto simp: in_range_def)
  have sp: "in_range a b (CHR '' '') = False" if "128 \<le> a" for a b using that by (simp add: in_range_def)
  have e: "(char_code (if c = CHR '' '' then CHR ''+'' else c) = n) = (char_code c = n)" if "128 \<le> n" for c n
    using that by auto
  show "utf8_ok s \<Longrightarrow> utf8_ok (plus_for_space s)"
    unfolding plus_for_space_def
    by (induction s rule: utf8_ok.induct) (auto simp: r e sp split: if_splits list.splits)
qed

lemma pct_lenient_plain: "CHR ''%'' \<notin> set s \<Longrightarrow> pct_lenient s = s"
  by (induction s) auto

text \<open>Text that survives a second decoding.\<close>

definition clean :: "string \<Rightarrow> bool" where
  "clean s \<longleftrightarrow> utf8_ok s \<and> CHR ''%'' \<notin> set s \<and> CHR ''&'' \<notin> set s \<and> CHR ''+'' \<notin> set s"

definition clean_query :: "(string, string) jsmap \<Rightarrow> bool" where
  "clean_query kvs \<longleftrightarrow> (\<forall>(k, v)\<in>set kvs. clean k \<and> CHR ''='' \<notin> set k \<and> clean v) \<and>
     (case kvs of [] \<Rightarrow> True | (k, v) # _ \<Rightarrow> \<not> starts_with k ''?'')"

definition query_part :: "string \<times> string \<Rightarrow> string" where
  "query_part kv = plus_for_space (fst kv) @ ''='' @ plus_for_space (snd kv)"

definition seen_query :: "(string, string) jsmap \<Rightarrow> string" where
  "seen_query kvs = join ''&'' (map query_part kvs)"

lemma form_value_plus: "clean s \<Longrightarrow> form_value repair (plus_for_space s) = s"
proof -
  assume c: "clean s"
  have "CHR ''+'' \<notin> set s" using c by (simp add: clean_def)
  then have "map (\<lambda>c. if c = CHR ''+'' then CHR '' '' else c) (plus_for_space s) = s"
    by (induction s) (auto simp: plus_for_space_def)
  then show ?thesis using c by (simp add: form_value_def clean_def pct_lenient_plain)
qed

lemma plus_keeps: "c \<noteq> CHR ''+'' \<Longrightarrow> c \<notin> set s \<Longrightarrow> c \<notin> set (plus_for_space s)"
  by (auto simp: plus_for_space_def)

lemma split_query_part:
  assumes "CHR ''='' \<notin> set k"
  shows "split_part (query_part (k, v)) = (plus_for_space k, plus_for_space v)"
proof -
  have "CHR ''='' \<notin> set (plus_for_space k)" using assms by (simp add: plus_keeps)
  then have "takeWhile (\<lambda>c. c \<noteq> CHR ''='') (plus_for_space k @ t) = plus_for_space k @ takeWhile (\<lambda>c. c \<noteq> CHR ''='') t"
    "dropWhile (\<lambda>c. c \<noteq> CHR ''='') (plus_for_space k @ t) = dropWhile (\<lambda>c. c \<noteq> CHR ''='') t" for t
    by (auto intro!: takeWhile_append2 dropWhile_append2)
  then show ?thesis by (simp add: split_part_def query_part_def)
qed

lemma search_entries_seen:
  assumes "clean_query kvs"
  shows "search_entries repair (seen_query kvs) = kvs"
proof (cases kvs)
  case Nil
  then show ?thesis by (simp add: seen_query_def search_entries_def starts_with_def)
next
  case (Cons kv rest)
  have ok: "clean k" "CHR ''='' \<notin> set k" "clean v" if "(k, v) \<in> set kvs" for k v
    using assms that by (auto simp: clean_query_def)
  have amp: "CHR ''&'' \<notin> set (query_part q)" if "q \<in> set kvs" for q
    using ok[of "fst q" "snd q"] that by (auto simp: query_part_def clean_def plus_for_space_def)
  obtain k v where kv: "kv = (k, v)" by fastforce
  have "\<not> starts_with (query_part kv) ''?''"
    using assms Cons kv by (cases k) (auto simp: clean_query_def query_part_def plus_for_space_def starts_with_def)
  moreover have "starts_with (seen_query kvs) ''?'' = starts_with (query_part kv) ''?''"
    using Cons by (cases rest) (auto simp: seen_query_def starts_with_def query_part_def take_Cons' split: if_splits)
  ultimately have q: "\<not> starts_with (seen_query kvs) ''?''" by simp
  have "split_on (CHR ''&'') (seen_query kvs) = map query_part kvs"
    unfolding seen_query_def using Cons amp by (intro split_on_join) auto
  moreover have "filter (\<lambda>p. p \<noteq> []) (map query_part kvs) = map query_part kvs"
    by (simp add: filter_id_conv query_part_def)
  moreover have "map (\<lambda>p. (form_value repair (fst (split_part p)), form_value repair (snd (split_part p)))) (map query_part kvs) = kvs"
    using ok by (intro map_idI[of kvs, unfolded id_def] trans[OF map_map]) (auto simp: split_query_part form_value_plus)
  ultimately show ?thesis using q by (simp add: search_entries_def Let_def)
qed

lemma pct_strict_search:
  assumes "clean_query kvs"
  shows "pct_strict (search_text kvs) = Some (seen_query kvs)"
proof -
  have part: "pct_strict (form_text k @ ''='' @ form_text v @ t) = map_option ((@) (query_part (k, v))) (pct_strict t)" for k v t
    by (cases "pct_strict t") (simp_all add: pct_strict_form query_part_def)
  show ?thesis
    unfolding search_text_def seen_query_def
  proof (induction kvs)
    case (Cons kv kvs)
    obtain k v where kv: "kv = (k, v)" by fastforce
    show ?case
    proof (cases kvs)
      case Nil
      then show ?thesis using part[of k v "[]"] by (simp add: kv)
    next
      case (Cons kv' kvs')
      then show ?thesis using Cons.IH part[of k v] by (simp add: kv)
    qed
  qed simp
qed

lemma utf8_ok_seen:
  assumes "clean_query kvs"
  shows "utf8_ok (seen_query kvs)"
proof -
  have part: "utf8_ok (query_part kv)" if "kv \<in> set kvs" for kv
    using assms that unfolding query_part_def
    by (intro utf8_ok_append utf8_ok_plus) (auto simp: clean_query_def clean_def in_range_def)
  have "utf8_ok (join ''&'' xs)" if "\<forall>x\<in>set xs. utf8_ok x" for xs
    using that by (induction "''&''" xs rule: join.induct) (auto intro!: utf8_ok_append simp: in_range_def)
  with part show ?thesis by (simp add: seen_query_def)
qed

end
