(* ===== verification/Dashboard_Navigation.thy ===== *)
theory Dashboard_Navigation
  imports Dashboard_Routes Url_Text
begin

text \<open>
  The navigation tables of the dashboard and the functions on them: \<open>config/navigation.ts\<close> (surfaces, their
  sections, the redirects of retired sections, \<open>normalizeRouteParams\<close>) and \<open>cockpit-entrypoints.ts\<close> (the cockpit's
  modes and the deep links into the surfaces). Display texts (labels, descriptions, icons) are left out of the
  tables. A parameter object is a map of strings; strings are UTF-8 byte lists as in \<open>Url_Text\<close>.
\<close>

section \<open>Surfaces and sections\<close>

type_synonym params = "(string, string) jsmap"

text \<open>The value is there and is not the empty string.\<close>

definition set_text :: "string option \<Rightarrow> bool" where
  "set_text p \<longleftrightarrow> p \<noteq> None \<and> p \<noteq> Some ''''"

text \<open>\<open>{ ...a, ...b }\<close>.\<close>

definition spread :: "params \<Rightarrow> params \<Rightarrow> params" where
  "spread a b = fold (\<lambda>(k, v). map_set k v) b a"

definition VALID_TABS :: "tab_id list" where
  "VALID_TABS = [Cockpit, Overview, Monitoring, Command, Connectors, Workspace, Lab, Code, Logs]"

definition isTabId :: "string option \<Rightarrow> tab_id option" where
  "isTabId v = (case v of None \<Rightarrow> None | Some s \<Rightarrow> if s = '''' then None else List.find (\<lambda>t. tab_text t = s) VALID_TABS)"

record nav_surface =
  ns_id :: tab_id
  ns_defaultTab :: tab_id
  ns_tabs :: "tab_id list"
  ns_defaultParams :: "params option"

definition surface :: "tab_id \<Rightarrow> params option \<Rightarrow> nav_surface" where
  "surface t ps = \<lparr>ns_id = t, ns_defaultTab = t, ns_tabs = [t], ns_defaultParams = ps\<rparr>"

definition DASHBOARD_SURFACES :: "nav_surface list" where
  "DASHBOARD_SURFACES =
    [surface Cockpit None,
     surface Overview None,
     surface Monitoring (Some [(''section'', ''journey'')]),
     surface Command (Some [(''section'', ''operations'')]),
     surface Connectors (Some [(''section'', ''connector-status'')]),
     surface Workspace (Some [(''section'', ''board'')]),
     surface Lab (Some [(''section'', ''tools'')]),
     surface Code (Some [(''section'', ''ide-shell'')]),
     surface Logs None]"

record section_item =
  si_id :: string
  si_params :: params
  si_hidden :: bool

definition shown :: "string \<Rightarrow> section_item" where
  "shown s = \<lparr>si_id = s, si_params = [(''section'', s)], si_hidden = False\<rparr>"

definition hidden_item :: "string \<Rightarrow> section_item" where
  "hidden_item s = (shown s)\<lparr>si_hidden := True\<rparr>"

text \<open>The table has no row for the overview and the logs, which have no sections.\<close>

definition DASHBOARD_SECTION_ITEMS :: "(tab_id, section_item list) jsmap" where
  "DASHBOARD_SECTION_ITEMS =
    [(Cockpit, []),
     (Monitoring,
       [shown ''journey'', hidden_item ''observatory'', shown ''agents'', shown ''cognition'', shown ''runtime'',
        shown ''goal-loop'', shown ''fleet-health'', hidden_item ''memory-subsystems'']),
     (Command, [shown ''operations'']),
     (Connectors, [shown ''connector-status'']),
     (Workspace, [shown ''board'', shown ''sub-boards'', shown ''planning'', shown ''repositories'', shown ''verification'']),
     (Lab, [shown ''tools'', shown ''autoresearch'', shown ''harness'']),
     (Code, [shown ''ide-shell''])]"

definition items_of :: "tab_id \<Rightarrow> section_item list" where
  "items_of t = (case map_get DASHBOARD_SECTION_ITEMS t of None \<Rightarrow> [] | Some xs \<Rightarrow> xs)"

definition validSectionIds :: "tab_id \<Rightarrow> string list" where
  "validSectionIds t = map si_id (items_of t)"

definition defaultParamsForTab :: "tab_id \<Rightarrow> params" where
  "defaultParamsForTab t =
     (case List.find (\<lambda>s. ns_id s = t) DASHBOARD_SURFACES of
        None \<Rightarrow> []
      | Some s \<Rightarrow> (case ns_defaultParams s of None \<Rightarrow> [] | Some ps \<Rightarrow> ps))"

definition sectionItemsForTab :: "tab_id \<Rightarrow> section_item list" where
  "sectionItemsForTab t = (if t = Overview \<or> t = Logs then [] else items_of t)"

definition visibleSectionItemsForTab :: "tab_id \<Rightarrow> section_item list" where
  "visibleSectionItemsForTab t = filter (\<lambda>i. \<not> si_hidden i) (sectionItemsForTab t)"

section \<open>Redirects of retired sections\<close>

record section_redirect =
  sr_section :: string
  sr_view :: "string option"
  sr_params :: params

definition redirect_to :: "string \<Rightarrow> string option \<Rightarrow> params \<Rightarrow> section_redirect" where
  "redirect_to s v ps = \<lparr>sr_section = s, sr_view = v, sr_params = ps\<rparr>"

text \<open>The key \<open>tab:section\<close> of the object is the pair; no tab has a colon in its name.\<close>

definition SECTION_REDIRECTS :: "(tab_id \<times> string, section_redirect) jsmap" where
  "SECTION_REDIRECTS =
    [((Monitoring, ''sessions''), redirect_to ''agents'' None []),
     ((Monitoring, ''activity''), redirect_to ''observatory'' None []),
     ((Monitoring, ''live''), redirect_to ''observatory'' (Some ''live'') []),
     ((Monitoring, ''telemetry''), redirect_to ''fleet-health'' (Some ''event-log'') []),
     ((Monitoring, ''fleet''), redirect_to ''fleet-health'' (Some ''comparison'') []),
     ((Monitoring, ''tool-quality''), redirect_to ''fleet-health'' (Some ''tool-quality'') []),
     ((Monitoring, ''governance''), redirect_to ''fleet-health'' (Some ''governance'') []),
     ((Monitoring, ''attribution''), redirect_to ''fleet-health'' (Some ''attribution'') []),
     ((Monitoring, ''fsm-hub''), redirect_to ''agents'' (Some ''fsm'') []),
     ((Monitoring, ''metrics''), redirect_to ''runtime'' None []),
     ((Monitoring, ''cascade-inspector''), redirect_to ''runtime'' (Some ''inspector'') []),
     ((Monitoring, ''cost''), redirect_to ''runtime'' (Some ''cost'') []),
     ((Command, ''intervene''), redirect_to ''operations'' None []),
     ((Command, ''governance''), redirect_to ''operations'' None []),
     ((Command, ''connectors''), redirect_to ''operations'' (Some ''connectors'') []),
     ((Command, ''inspector''), redirect_to ''operations'' (Some ''inspector'') []),
     ((Workspace, ''goals''), redirect_to ''planning'' None []),
     ((Connectors, ''connector-discord''), redirect_to ''connector-status'' None [(''connector'', ''discord'')]),
     ((Connectors, ''connector-imessage''), redirect_to ''connector-status'' None [(''connector'', ''imessage'')]),
     ((Connectors, ''connector-slack''), redirect_to ''connector-status'' None [(''connector'', ''slack'')]),
     ((Connectors, ''connector-telegram''), redirect_to ''connector-status'' None [(''connector'', ''telegram'')])]"

text \<open>The steps of \<open>normalizeRouteParams\<close>: the old range parameter, the redirect, the section's check.\<close>

definition set_if_unset :: "string \<Rightarrow> string \<Rightarrow> params \<Rightarrow> params" where
  "set_if_unset k v ps = (if set_text (map_get ps k) then ps else map_set k v ps)"

definition legacy_range :: "tab_id \<Rightarrow> params \<Rightarrow> params" where
  "legacy_range t next1 =
     (if t = Monitoring \<and> map_get next1 ''section'' = Some ''activity'' then
        (let kept = (case map_get next1 ''ag_range'' of
                       Some r \<Rightarrow>
                         if r \<noteq> '''' \<and> \<not> set_text (map_get next1 ''range'') \<and> r \<in> set [''1h'', ''6h'', ''24h'', ''7d'']
                         then map_set ''range'' r next1 else next1
                     | None \<Rightarrow> next1)
         in map_del ''ag_range'' kept)
      else next1)"

definition apply_redirect :: "section_redirect \<Rightarrow> params \<Rightarrow> params" where
  "apply_redirect rd next1 =
     (let next2 = fold (\<lambda>(k, v). set_if_unset k v) (sr_params rd) next1;
          next3 = (case sr_view rd of
                     Some v \<Rightarrow> if v \<noteq> '''' then set_if_unset ''view'' v next2 else next2
                   | None \<Rightarrow> next2)
      in map_set ''section'' (sr_section rd) next3)"

definition redirect_section :: "tab_id \<Rightarrow> params \<Rightarrow> params" where
  "redirect_section t next1 =
     (case map_get next1 ''section'' of
        None \<Rightarrow> next1
      | Some s \<Rightarrow>
          if s = '''' then next1
          else (let next2 = legacy_range t next1
                in case map_get SECTION_REDIRECTS (t, s) of None \<Rightarrow> next2 | Some rd \<Rightarrow> apply_redirect rd next2))"

definition check_section :: "tab_id \<Rightarrow> params \<Rightarrow> params" where
  "check_section t next1 =
     (if (\<exists>s\<in>set (validSectionIds t). map_get next1 ''section'' = Some s) then next1
      else map_set ''section'' (or_empty (map_get (defaultParamsForTab t) ''section'')) next1)"

definition normalizeRouteParams :: "tab_id \<Rightarrow> params \<Rightarrow> params" where
  "normalizeRouteParams t ps =
     (if t = Overview \<or> t = Logs then map_del ''surface'' (map_del ''section'' ps)
      else map_del ''run_id'' (map_del ''operation'' (map_del ''surface''
             (check_section t (redirect_section t ps)))))"

definition currentSectionForRoute :: "route_state \<Rightarrow> section_item option" where
  "currentSectionForRoute r =
     (if rs_tab r = Overview \<or> rs_tab r = Logs then None
      else (let normalized = normalizeRouteParams (rs_tab r) (rs_params r)
            in List.find (\<lambda>i. map_get (si_params i) ''section'' = map_get normalized ''section'')
                 (sectionItemsForTab (rs_tab r))))"

section \<open>White space and case\<close>

text \<open>
  \<open>trim\<close> on UTF-8: the length in bytes of the white-space character at the front, 0 if there is none
  (U+00A0, U+1680, U+2000 to U+200A, U+2028, U+2029, U+202F, U+205F, U+3000 and U+FEFF besides the ASCII ones).
\<close>

definition space_len :: "string \<Rightarrow> nat" where
  "space_len s =
     (case map char_code (take 3 s) of
        [] \<Rightarrow> 0
      | a # rest \<Rightarrow>
          if a = 32 \<or> (9 \<le> a \<and> a \<le> 13) then 1
          else (case rest of
                  [] \<Rightarrow> 0
                | b # rest2 \<Rightarrow>
                    if a = 194 \<and> b = 160 then 2
                    else (case rest2 of
                            [] \<Rightarrow> 0
                          | c # _ \<Rightarrow>
                              if (a = 225 \<and> b = 154 \<and> c = 128) \<or> (a = 227 \<and> b = 128 \<and> c = 128) \<or>
                                 (a = 239 \<and> b = 187 \<and> c = 191) \<or> (a = 226 \<and> b = 129 \<and> c = 159) \<or>
                                 (a = 226 \<and> b = 128 \<and> ((128 \<le> c \<and> c \<le> 138) \<or> c \<in> {168, 169, 175}))
                              then 3 else 0)))"

function drop_spaces :: "string \<Rightarrow> string" where
  "drop_spaces s = (if space_len s = 0 then s else drop_spaces (drop (space_len s) s))"
  by pat_completeness auto

lemma space_len_Nil [simp]: "space_len [] = 0"
  by (simp add: space_len_def)

termination drop_spaces
proof (relation "measure length")
  fix s :: string assume "space_len s \<noteq> 0"
  then show "(drop (space_len s) s, s) \<in> measure length" by (cases s) auto
qed simp

declare drop_spaces.simps [simp del]

fun trim_end :: "string \<Rightarrow> string" where
  "trim_end [] = []"
| "trim_end (c # s) = (if drop_spaces (c # s) = [] then [] else c # trim_end s)"

definition trim_text :: "string \<Rightarrow> string" where
  "trim_text s = trim_end (drop_spaces s)"

text \<open>
  \<open>toLowerCase\<close>, as far as a comparison with ASCII text can tell: beside the ASCII letters the Kelvin sign
  becomes k and the dotted capital I becomes i and a combining dot; other characters have no ASCII in their
  lower case and are left as they are.
\<close>

definition lower_ascii :: "char \<Rightarrow> char" where
  "lower_ascii c = (if in_range 65 90 c then char_of (char_code c + 32) else c)"

fun lower_text :: "string \<Rightarrow> string" where
  "lower_text (a # b # s) =
     (if char_code a = 196 \<and> char_code b = 176 then CHR ''i'' # CHR 0xCC # CHR 0x87 # lower_text s
      else if char_code a = 226 \<and> char_code b = 132 \<and> s \<noteq> [] \<and> char_code (hd s) = 170
      then CHR ''k'' # lower_text (tl s)
      else lower_ascii a # lower_text (b # s))"
| "lower_text s = map lower_ascii s"

section \<open>The cockpit's modes\<close>

datatype cockpit_mode =
    M_dashboard | M_cockpit | M_work | M_comms | M_observe | M_cognition | M_ide | M_code | M_split | M_terminal | M_explode

datatype cognitive_mode = Cm_cockpit | Cm_code | Cm_split | Cm_explode

datatype coverage = Covered | Partial | Backend_blocked

record route_target =
  rt_tab :: tab_id
  rt_params :: params

record cockpit_entrypoint =
  ce_mode :: cockpit_mode
  ce_aliases :: "string list"
  ce_target :: route_target
  ce_coverage :: coverage

fun cockpit_mode_text :: "cockpit_mode \<Rightarrow> string" where
  "cockpit_mode_text M_dashboard = ''dashboard''"
| "cockpit_mode_text M_cockpit = ''cockpit''"
| "cockpit_mode_text M_work = ''work''"
| "cockpit_mode_text M_comms = ''comms''"
| "cockpit_mode_text M_observe = ''observe''"
| "cockpit_mode_text M_cognition = ''cognition''"
| "cockpit_mode_text M_ide = ''ide''"
| "cockpit_mode_text M_code = ''code''"
| "cockpit_mode_text M_split = ''split''"
| "cockpit_mode_text M_terminal = ''terminal''"
| "cockpit_mode_text M_explode = ''explode''"

fun cognitive_text :: "cognitive_mode \<Rightarrow> string" where
  "cognitive_text Cm_cockpit = ''cockpit''"
| "cognitive_text Cm_code = ''code''"
| "cognitive_text Cm_split = ''split''"
| "cognitive_text Cm_explode = ''explode''"

definition to :: "tab_id \<Rightarrow> params \<Rightarrow> route_target" where
  "to t ps = \<lparr>rt_tab = t, rt_params = ps\<rparr>"

definition COGNITIVE_MODE_ORDER :: "cognitive_mode list" where
  "COGNITIVE_MODE_ORDER = [Cm_cockpit, Cm_code, Cm_split, Cm_explode]"

fun COGNITIVE_MODE_TARGETS :: "cognitive_mode \<Rightarrow> route_target" where
  "COGNITIVE_MODE_TARGETS Cm_cockpit = to Overview []"
| "COGNITIVE_MODE_TARGETS Cm_code = to Code [(''section'', ''ide-shell''), (''view'', ''source'')]"
| "COGNITIVE_MODE_TARGETS Cm_split = to Code [(''section'', ''ide-shell''), (''view'', ''split-diff'')]"
| "COGNITIVE_MODE_TARGETS Cm_explode = to Workspace [(''section'', ''repositories''), (''view'', ''graph'')]"

datatype mode_load = Situational | Focused | Comparative | Exploratory

datatype mode_layout = All_panels | Editor_first | Side_by_side | Graph_map

record cognitive_mode_state =
  cs_mode :: cognitive_mode
  cs_load :: mode_load
  cs_layout :: mode_layout
  cs_target :: route_target
  cs_cockpitModes :: "cockpit_mode list"

fun COGNITIVE_MODE_STATES :: "cognitive_mode \<Rightarrow> cognitive_mode_state" where
  "COGNITIVE_MODE_STATES Cm_cockpit =
     \<lparr>cs_mode = Cm_cockpit, cs_load = Situational, cs_layout = All_panels, cs_target = COGNITIVE_MODE_TARGETS Cm_cockpit,
      cs_cockpitModes = [M_dashboard, M_cockpit, M_work, M_comms, M_observe, M_cognition]\<rparr>"
| "COGNITIVE_MODE_STATES Cm_code =
     \<lparr>cs_mode = Cm_code, cs_load = Focused, cs_layout = Editor_first, cs_target = COGNITIVE_MODE_TARGETS Cm_code,
      cs_cockpitModes = [M_ide, M_code, M_terminal]\<rparr>"
| "COGNITIVE_MODE_STATES Cm_split =
     \<lparr>cs_mode = Cm_split, cs_load = Comparative, cs_layout = Side_by_side, cs_target = COGNITIVE_MODE_TARGETS Cm_split,
      cs_cockpitModes = [M_split]\<rparr>"
| "COGNITIVE_MODE_STATES Cm_explode =
     \<lparr>cs_mode = Cm_explode, cs_load = Exploratory, cs_layout = Graph_map, cs_target = COGNITIVE_MODE_TARGETS Cm_explode,
      cs_cockpitModes = [M_explode]\<rparr>"

definition COCKPIT_MODE_TO_COGNITIVE_MODE :: "(cockpit_mode, cognitive_mode) jsmap" where
  "COCKPIT_MODE_TO_COGNITIVE_MODE =
     map_from (concat (map (\<lambda>m. map (\<lambda>c. (c, m)) (cs_cockpitModes (COGNITIVE_MODE_STATES m))) COGNITIVE_MODE_ORDER))"

fun COCKPIT_MODE_TARGETS :: "cockpit_mode \<Rightarrow> route_target" where
  "COCKPIT_MODE_TARGETS M_dashboard = COGNITIVE_MODE_TARGETS Cm_cockpit"
| "COCKPIT_MODE_TARGETS M_cockpit = COGNITIVE_MODE_TARGETS Cm_cockpit"
| "COCKPIT_MODE_TARGETS M_work = to Workspace [(''section'', ''planning'')]"
| "COCKPIT_MODE_TARGETS M_comms = to Workspace [(''section'', ''board'')]"
| "COCKPIT_MODE_TARGETS M_observe = to Monitoring [(''section'', ''runtime'')]"
| "COCKPIT_MODE_TARGETS M_cognition = to Monitoring [(''section'', ''cognition'')]"
| "COCKPIT_MODE_TARGETS M_ide = COGNITIVE_MODE_TARGETS Cm_code"
| "COCKPIT_MODE_TARGETS M_code = COGNITIVE_MODE_TARGETS Cm_code"
| "COCKPIT_MODE_TARGETS M_split = COGNITIVE_MODE_TARGETS Cm_split"
| "COCKPIT_MODE_TARGETS M_terminal = to Code [(''section'', ''ide-shell''), (''view'', ''source''), (''terminal'', ''open'')]"
| "COCKPIT_MODE_TARGETS M_explode = COGNITIVE_MODE_TARGETS Cm_explode"

definition all_modes :: "cockpit_mode list" where
  "all_modes = [M_dashboard, M_cockpit, M_work, M_comms, M_observe, M_cognition, M_ide, M_code, M_split, M_terminal, M_explode]"

definition normalizeCockpitMode :: "string option \<Rightarrow> cockpit_mode option" where
  "normalizeCockpitMode input =
     (case input of
        None \<Rightarrow> None
      | Some s \<Rightarrow>
          (let normalized = lower_text (trim_text s)
           in if normalized = '''' then None else List.find (\<lambda>m. cockpit_mode_text m = normalized) all_modes))"

definition normalizeCognitiveMode :: "string option \<Rightarrow> cognitive_mode option" where
  "normalizeCognitiveMode input =
     (case input of
        None \<Rightarrow> None
      | Some s \<Rightarrow>
          (let normalized = lower_text (trim_text s)
           in if normalized = '''' then None else List.find (\<lambda>m. cognitive_text m = normalized) COGNITIVE_MODE_ORDER))"

definition cognitiveModeForCockpitMode :: "string option \<Rightarrow> cognitive_mode option" where
  "cognitiveModeForCockpitMode input =
     (case normalizeCockpitMode input of
        Some m \<Rightarrow> map_get COCKPIT_MODE_TO_COGNITIVE_MODE m
      | None \<Rightarrow> normalizeCognitiveMode input)"

text \<open>\<open>params[a] ?? params[b] ?? ...\<close>: the first key that is there.\<close>

fun first_param :: "string list \<Rightarrow> params \<Rightarrow> string option" where
  "first_param [] ps = None"
| "first_param (k # ks) ps = (case map_get ps k of Some v \<Rightarrow> Some v | None \<Rightarrow> first_param ks ps)"

definition cognitiveModeForRoute :: "tab_id \<Rightarrow> params \<Rightarrow> cognitive_mode" where
  "cognitiveModeForRoute t ps =
     (case cognitiveModeForCockpitMode (first_param [''mode'', ''plane''] ps) of
        Some m \<Rightarrow> m
      | None \<Rightarrow>
          if t = Code then (if map_get ps ''view'' = Some ''split-diff'' then Cm_split else Cm_code)
          else if t = Workspace \<and> map_get ps ''section'' = Some ''repositories'' \<and> map_get ps ''view'' = Some ''graph''
          then Cm_explode else Cm_cockpit)"

section \<open>Entry points\<close>

definition entry :: "cockpit_mode \<Rightarrow> string list \<Rightarrow> tab_id \<Rightarrow> params \<Rightarrow> coverage \<Rightarrow> cockpit_entrypoint" where
  "entry m aliases t ps c = \<lparr>ce_mode = m, ce_aliases = aliases, ce_target = to t ps, ce_coverage = c\<rparr>"

definition COCKPIT_ENTRYPOINTS :: "cockpit_entrypoint list" where
  "COCKPIT_ENTRYPOINTS =
    [entry M_work [''goal-h'', ''goal-horizon''] Workspace [(''section'', ''planning''), (''view'', ''goal-tree'')] Covered,
     entry M_work [''goal-t'', ''goal-tree''] Workspace [(''section'', ''planning''), (''view'', ''goal-tree'')] Covered,
     entry M_work [''goal-d'', ''goal-snapshot'', ''goal-snapshot-diff''] Workspace [(''section'', ''planning''), (''view'', ''goal-tree''), (''focus'', ''snapshot'')] Backend_blocked,
     entry M_work [''task-bl'', ''task-backlog''] Workspace [(''section'', ''planning''), (''view'', ''default'')] Covered,
     entry M_work [''task-st'', ''task-stale''] Workspace [(''section'', ''planning''), (''view'', ''default''), (''focus'', ''stale'')] Covered,
     entry M_work [''task-w'', ''task-wall''] Workspace [(''section'', ''planning''), (''view'', ''default'')] Covered,
     entry M_work [''acc-led'', ''accountability-ledger''] Workspace [(''section'', ''planning''), (''focus'', ''accountability-ledger'')] Covered,
     entry M_work [''acc-mtx'', ''accountability-matrix''] Workspace [(''section'', ''planning''), (''focus'', ''accountability-matrix'')] Covered,
     entry M_comms [''bd-feed'', ''board-feed''] Workspace [(''section'', ''board'')] Covered,
     entry M_comms [''bd-thr'', ''board-thread''] Workspace [(''section'', ''board''), (''focus'', ''thread'')] Covered,
     entry M_comms [''bd-tog'', ''board-direct-automation''] Workspace [(''section'', ''board''), (''focus'', ''automation'')] Covered,
     entry M_comms [''ms-rm'', ''messages-room''] Workspace [(''section'', ''board''), (''focus'', ''messages-room'')] Covered,
     entry M_comms [''ms-inb'', ''messages-mention-inbox''] Workspace [(''section'', ''board''), (''focus'', ''mention-inbox'')] Covered,
     entry M_comms [''ms-st'', ''messages-state-block''] Workspace [(''section'', ''board''), (''focus'', ''state-block'')] Covered,
     entry M_comms [''cm-bc'', ''composer-broadcast''] Command [(''section'', ''operations''), (''view'', ''ops''), (''focus'', ''broadcast'')] Covered,
     entry M_comms [''cm-mn'', ''composer-mention''] Command [(''section'', ''operations''), (''view'', ''ops''), (''focus'', ''mention'')] Covered,
     entry M_comms [''cm-st'', ''composer-state''] Command [(''section'', ''operations''), (''view'', ''ops''), (''focus'', ''state'')] Covered,
     entry M_observe [''cs-list'', ''cascade-list''] Monitoring [(''section'', ''runtime''), (''view'', ''cascade'')] Covered,
     entry M_observe [''cs-deep'', ''cascade-deep-dive''] Monitoring [(''section'', ''runtime''), (''view'', ''inspector''), (''focus'', ''deep-dive'')] Covered,
     entry M_observe [''cs-cmp'', ''cascade-compare''] Monitoring [(''section'', ''runtime''), (''view'', ''inspector''), (''focus'', ''compare'')] Covered,
     entry M_observe [''au-led'', ''audit-ledger''] Monitoring [(''section'', ''runtime''), (''view'', ''audit'')] Covered,
     entry M_observe [''au-act'', ''audit-by-actor''] Monitoring [(''section'', ''runtime''), (''view'', ''audit''), (''focus'', ''actor'')] Covered,
     entry M_observe [''au-sum'', ''audit-summary''] Monitoring [(''section'', ''runtime''), (''view'', ''audit''), (''focus'', ''summary'')] Covered,
     entry M_observe [''sa-dash'', ''safe-auto-dashboard''] Command [(''section'', ''operations''), (''view'', ''safety'')] Covered,
     entry M_observe [''sa-kpr'', ''safe-auto-by-keeper''] Command [(''section'', ''operations''), (''view'', ''safety''), (''focus'', ''keeper'')] Covered,
     entry M_observe [''sa-trd'', ''safe-auto-trend''] Command [(''section'', ''operations''), (''view'', ''safety''), (''focus'', ''trend'')] Covered,
     entry M_observe [''ct-agt'', ''cost-per-agent''] Monitoring [(''section'', ''runtime''), (''view'', ''cost''), (''focus'', ''agent'')] Covered,
     entry M_observe [''ct-mtx'', ''cost-matrix''] Monitoring [(''section'', ''runtime''), (''view'', ''cost''), (''focus'', ''matrix'')] Covered,
     entry M_observe [''ct-lat'', ''cost-latency''] Monitoring [(''section'', ''runtime''), (''view'', ''cost''), (''focus'', ''latency'')] Covered,
     entry M_observe [''hr-log'', ''heuristic-log''] Monitoring [(''section'', ''runtime''), (''view'', ''heuristics''), (''focus'', ''log'')] Covered,
     entry M_observe [''hr-st'', ''stress-board''] Monitoring [(''section'', ''runtime''), (''view'', ''stress'')] Covered,
     entry M_observe [''hr-mod'', ''heuristic-by-module''] Monitoring [(''section'', ''runtime''), (''view'', ''heuristics''), (''focus'', ''module'')] Covered,
     entry M_cognition [''ki-bdi'', ''keeper-bdi''] Monitoring [(''section'', ''cognition''), (''view'', ''keeper''), (''focus'', ''bdi'')] Covered,
     entry M_cognition [''ki-acc'', ''keeper-tool-access''] Monitoring [(''section'', ''cognition''), (''view'', ''keeper''), (''focus'', ''tool-access'')] Covered,
     entry M_cognition [''ki-stat'', ''keeper-token-stats''] Monitoring [(''section'', ''cognition''), (''view'', ''token-stats'')] Covered,
     entry M_cognition [''dc-str'', ''decisions-stream''] Monitoring [(''section'', ''cognition''), (''view'', ''decisions'')] Covered,
     entry M_cognition [''dc-mem'', ''memory-entries''] Monitoring [(''section'', ''cognition''), (''view'', ''memory''), (''focus'', ''entries'')] Covered,
     entry M_cognition [''ep-card'', ''episodes-cards''] Monitoring [(''section'', ''cognition''), (''view'', ''episodes'')] Covered,
     entry M_cognition [''ep-lrn'', ''episodes-learnings''] Monitoring [(''section'', ''cognition''), (''view'', ''episodes'')] Covered,
     entry M_cognition [''ar-lst'', ''ar-loops''] Monitoring [(''section'', ''cognition''), (''view'', ''autoresearch'')] Covered,
     entry M_cognition [''ar-fnd'', ''ar-finding-card''] Monitoring [(''section'', ''cognition''), (''view'', ''autoresearch''), (''focus'', ''finding'')] Covered,
     entry M_cognition [''ar-flw'', ''ar-flow''] Monitoring [(''section'', ''cognition''), (''view'', ''autoresearch''), (''focus'', ''flow'')] Covered,
     entry M_ide [''edit'', ''source''] Code [(''section'', ''ide-shell''), (''view'', ''source'')] Covered,
     entry M_ide [''review'', ''pr-thread''] Code [(''section'', ''ide-shell''), (''view'', ''unified''), (''focus'', ''review'')] Covered,
     entry M_ide [''merge'', ''split'', ''split-diff''] Code [(''section'', ''ide-shell''), (''view'', ''split-diff'')] Covered,
     entry M_ide [''graph'', ''git-graph''] Workspace [(''section'', ''repositories''), (''view'', ''graph'')] Covered,
     entry M_ide [''search'', ''find''] Code [(''section'', ''ide-shell''), (''view'', ''source''), (''find'', ''open'')] Covered]"

text \<open>\<open>replace(/[...]+/g, c)\<close>: every maximal run of characters with \<open>P\<close> becomes one \<open>c\<close>.\<close>

fun squeeze :: "(char \<Rightarrow> bool) \<Rightarrow> char \<Rightarrow> string \<Rightarrow> string" where
  "squeeze P c [] = []"
| "squeeze P c [a] = (if P a then [c] else [a])"
| "squeeze P c (a # b # s) =
     (if P a then if P b then squeeze P c (b # s) else c # squeeze P c (b # s) else a # squeeze P c (b # s))"

text \<open>The middle dot U+00B7 is two bytes; it is treated like the slash.\<close>

fun dot_slash :: "string \<Rightarrow> string" where
  "dot_slash (a # b # s) =
     (if char_code a = 194 \<and> char_code b = 183 then CHR ''/'' # dot_slash s else a # dot_slash (b # s))"
| "dot_slash s = s"

definition strip_dashes :: "string \<Rightarrow> string" where
  "strip_dashes s = rev (dropWhile (\<lambda>c. c = CHR ''-'') (rev (dropWhile (\<lambda>c. c = CHR ''-'') s)))"

definition normalizeCockpitEntrypoint :: "string \<Rightarrow> string" where
  "normalizeCockpitEntrypoint input =
     strip_dashes (squeeze (\<lambda>c. \<not> (in_range 97 122 c \<or> in_range 48 57 c)) CHR ''-''
       (squeeze (\<lambda>c. c = CHR ''/'') CHR '' '' (dot_slash (lower_text (trim_text input)))))"

text \<open>The key \<open>mode:alias\<close> of the map is the pair; no mode has a colon in its name.\<close>

definition ENTRYPOINT_TARGETS :: "(cockpit_mode \<times> string, route_target) jsmap" where
  "ENTRYPOINT_TARGETS =
     map_from (concat (map (\<lambda>e. map (\<lambda>a. ((ce_mode e, normalizeCockpitEntrypoint a), ce_target e)) (ce_aliases e))
       COCKPIT_ENTRYPOINTS))"

definition cockpitEntryParam :: "params \<Rightarrow> string option" where
  "cockpitEntryParam ps = first_param [''entry'', ''panel'', ''subtab'', ''cockpit_tab'', ''cockpitTab'', ''tab''] ps"

definition cockpitTargetForParams :: "params \<Rightarrow> route_target option" where
  "cockpitTargetForParams ps =
     (case normalizeCockpitMode (first_param [''mode'', ''plane''] ps) of
        None \<Rightarrow> None
      | Some m \<Rightarrow>
          (case cockpitEntryParam ps of
             None \<Rightarrow> Some (COCKPIT_MODE_TARGETS m)
           | Some e \<Rightarrow>
               if e = '''' then Some (COCKPIT_MODE_TARGETS m)
               else (let entryMode = (if m = M_code \<or> m = M_split \<or> m = M_terminal then M_ide else m)
                     in case map_get ENTRYPOINT_TARGETS (entryMode, normalizeCockpitEntrypoint e) of
                          Some t \<Rightarrow> Some t
                        | None \<Rightarrow> Some (COCKPIT_MODE_TARGETS m))))"

section \<open>The aliases are in normal form and distinct\<close>

lemma plain_head: "in_range 33 126 c \<Longrightarrow> drop_spaces (c # s) = c # s"
  by (subst drop_spaces.simps) (auto simp: space_len_def in_range_def split: list.split)

lemma trim_plain: "\<forall>c\<in>set s. in_range 33 126 c \<Longrightarrow> trim_text s = s"
proof -
  assume plain: "\<forall>c\<in>set s. in_range 33 126 c"
  have "trim_end s = s" using plain by (induction s) (simp_all add: plain_head)
  moreover have "drop_spaces s = s"
    using plain by (cases s) (simp_all add: plain_head drop_spaces.simps[of "[]"])
  ultimately show ?thesis by (simp add: trim_text_def)
qed

definition low_digit :: "char \<Rightarrow> bool" where
  "low_digit c \<longleftrightarrow> in_range 97 122 c \<or> in_range 48 57 c"

fun slug :: "bool \<Rightarrow> string \<Rightarrow> bool" where
  "slug dash [] = (\<not> dash)"
| "slug dash (c # s) = (if c = CHR ''-'' then \<not> dash \<and> slug True s else low_digit c \<and> slug False s)"

lemma slug_chars: "slug dash s \<Longrightarrow> c \<in> set s \<Longrightarrow> c = CHR ''-'' \<or> low_digit c"
  by (induction s arbitrary: dash) (auto split: if_splits)

lemma low_digit_dash [simp]: "\<not> low_digit CHR ''-''"
  by (simp add: low_digit_def in_range_def)

lemma slug_squeeze: "slug dash s \<Longrightarrow> squeeze (\<lambda>c. \<not> low_digit c) CHR ''-'' s = s"
proof (induction s arbitrary: dash)
  case (Cons a s)
  then have "slug (a = CHR ''-'') s" by (auto split: if_splits)
  then have "squeeze (\<lambda>c. \<not> low_digit c) CHR ''-'' s = s" by (rule Cons.IH)
  with Cons.prems show ?case by (cases s) (auto split: if_splits)
qed simp

lemma squeeze_none: "\<forall>c\<in>set s. \<not> P c \<Longrightarrow> squeeze P d s = s"
  by (induction P d s rule: squeeze.induct) auto

lemma lower_same: "\<forall>c\<in>set s. in_range 33 126 c \<and> \<not> in_range 65 90 c \<Longrightarrow> lower_text s = s"
  by (induction s rule: lower_text.induct) (auto simp: lower_ascii_def in_range_def)

lemma dot_same: "\<forall>c\<in>set s. in_range 33 126 c \<Longrightarrow> dot_slash s = s"
  by (induction s rule: dot_slash.induct) (auto simp: in_range_def)

lemma slug_last: "slug dash s \<Longrightarrow> s \<noteq> [] \<Longrightarrow> last s \<noteq> CHR ''-''"
  by (induction s arbitrary: dash) (auto split: if_splits)

lemma slug_normal:
  assumes "slug True s"
  shows "normalizeCockpitEntrypoint s = s"
proof -
  have char: "in_range 33 126 c \<and> \<not> in_range 65 90 c \<and> c \<noteq> CHR ''/''" if "c \<in> set s" for c
    using slug_chars[OF assms that] by (auto simp: low_digit_def in_range_def)
  have ne: "s \<noteq> []" using assms by auto
  have "hd s \<noteq> CHR ''-''" using assms by (cases s) auto
  then have "dropWhile (\<lambda>c. c = CHR ''-'') s = s" using ne by (simp add: dropWhile_eq_self_iff)
  moreover have "dropWhile (\<lambda>c. c = CHR ''-'') (rev s) = rev s"
    using slug_last[OF assms ne] ne by (simp add: dropWhile_eq_self_iff hd_rev)
  ultimately have "strip_dashes s = s" by (simp add: strip_dashes_def)
  moreover have "trim_text s = s" "lower_text s = s" "dot_slash s = s" "squeeze (\<lambda>c. c = CHR ''/'') CHR '' '' s = s"
    using char by (simp_all add: trim_plain lower_same dot_same squeeze_none)
  moreover have "squeeze (\<lambda>c. \<not> (in_range 97 122 c \<or> in_range 48 57 c)) CHR ''-'' s = s"
    using slug_squeeze[OF assms] by (simp only: low_digit_def)
  ultimately show ?thesis by (simp only: normalizeCockpitEntrypoint_def)
qed

lemma slugs: "list_all (\<lambda>e. list_all (slug True) (ce_aliases e)) COCKPIT_ENTRYPOINTS"
  by code_simp

lemma aliases_distinct: "distinct (concat (map (\<lambda>e. map (\<lambda>a. (ce_mode e, a)) (ce_aliases e)) COCKPIT_ENTRYPOINTS))"
  unfolding COCKPIT_ENTRYPOINTS_def entry_def by simp

lemma map_normal: "list_all (slug True) as \<Longrightarrow> map (\<lambda>a. f (normalizeCockpitEntrypoint a)) as = map f as"
  by (induction as) (simp_all add: slug_normal)

lemma entrypoint_keys:
  "distinct (map fst (concat (map (\<lambda>e. map (\<lambda>a. ((ce_mode e, normalizeCockpitEntrypoint a), ce_target e)) (ce_aliases e))
     COCKPIT_ENTRYPOINTS)))"
proof -
  have "map (\<lambda>e. map (\<lambda>a. (ce_mode e, normalizeCockpitEntrypoint a)) (ce_aliases e)) es =
      map (\<lambda>e. map (\<lambda>a. (ce_mode e, a)) (ce_aliases e)) es"
    if "list_all (\<lambda>e. list_all (slug True) (ce_aliases e)) es" for es
    using that by (induction es) (simp_all add: map_normal)
  from this[OF slugs] show ?thesis
    using aliases_distinct by (simp only: map_concat map_map comp_def fst_conv)
qed

end
