(* ===== verification/Router.thy ===== *)
theory Router
  imports Dashboard_Navigation Contracts
begin

text \<open>
  The hash router of the dashboard (\<open>router.ts\<close>): the canonical form of a route, the parser and the serializer of
  \<open>location.hash\<close>, and the navigation functions as steps on the route signal and the address bar. Strings are UTF-8
  byte lists (see \<open>Url_Text\<close>). The post id of a route is always null and is left out; keys that look like array
  indices (which a JavaScript object would list first) and \<open>__proto__\<close> are not modelled; neither is the warning
  on the console. \<open>repair\<close> is what the URL parser makes of text that is no UTF-8.
\<close>

section \<open>Canonical routes\<close>

definition route :: "tab_id \<Rightarrow> params \<Rightarrow> route_state" where
  "route t ps = \<lparr>rs_tab = t, rs_params = ps\<rparr>"

definition DEFAULT_ROUTE :: route_state where
  "DEFAULT_ROUTE = route Overview []"

definition VALID_COMMAND_SECTIONS :: "string jsset" where
  "VALID_COMMAND_SECTIONS =
     set_from (List.map_filter (\<lambda>i. map_get (si_params i) ''section'') (sectionItemsForTab Command))"

record cross_redirect =
  cr_tab :: tab_id
  cr_section :: string
  cr_view :: "string option"
  cr_params :: params

definition CROSS_SURFACE_SECTION_REDIRECTS :: "(tab_id \<times> string, cross_redirect) jsmap" where
  "CROSS_SURFACE_SECTION_REDIRECTS =
    [((Monitoring, ''git-graph''),
      \<lparr>cr_tab = Workspace, cr_section = ''repositories'', cr_view = Some ''graph'', cr_params = []\<rparr>),
     ((Monitoring, ''safe-autonomy''),
      \<lparr>cr_tab = Command, cr_section = ''operations'', cr_view = Some ''safety'', cr_params = []\<rparr>)]"

definition applyCrossSurfaceRedirect :: "tab_id \<Rightarrow> params \<Rightarrow> (tab_id \<times> params) option" where
  "applyCrossSurfaceRedirect t ps =
     (case map_get ps ''section'' of
        None \<Rightarrow> None
      | Some s \<Rightarrow>
          if s = '''' then None
          else (case map_get CROSS_SURFACE_SECTION_REDIRECTS (t, s) of
                  None \<Rightarrow> None
                | Some rd \<Rightarrow>
                    (let next1 = map_set ''section'' (cr_section rd) (spread ps (cr_params rd));
                         next2 = (case cr_view rd of
                                    Some v \<Rightarrow> if v \<noteq> '''' then set_if_unset ''view'' v next1 else next1
                                  | None \<Rightarrow> next1)
                     in Some (cr_tab rd, next2))))"

definition canonicalRoute :: "tab_id \<Rightarrow> params \<Rightarrow> route_state" where
  "canonicalRoute t ps =
     (case applyCrossSurfaceRedirect t ps of
        Some (t', ps') \<Rightarrow> route t' (normalizeRouteParams t' ps')
      | None \<Rightarrow>
          (let normalizedParams = normalizeRouteParams t ps
           in case applyCrossSurfaceRedirect t normalizedParams of
                Some (t', ps') \<Rightarrow> route t' (normalizeRouteParams t' ps')
              | None \<Rightarrow> route t normalizedParams))"

definition routeForCockpitMode :: "params \<Rightarrow> route_state option" where
  "routeForCockpitMode ps =
     (case cockpitTargetForParams ps of
        None \<Rightarrow> None
      | Some target \<Rightarrow> Some (canonicalRoute (rt_tab target) (spread ps (rt_params target))))"

section \<open>Parsing\<close>

definition decodeSafe :: "string \<Rightarrow> string" where
  "decodeSafe input = (case decodeURIComponent input of Some t \<Rightarrow> t | None \<Rightarrow> input)"

definition parseParams :: "(string \<Rightarrow> string) \<Rightarrow> string option \<Rightarrow> params" where
  "parseParams repair raw =
     (case raw of
        None \<Rightarrow> []
      | Some q \<Rightarrow> if q = '''' then [] else fold (\<lambda>(k, v). map_set k v) (search_entries repair q) [])"

definition nth_of :: "nat \<Rightarrow> 'a list \<Rightarrow> 'a option" where
  "nth_of n xs = (if n < length xs then Some (xs ! n) else None)"

definition shouldApplyCockpitModeRoute :: "string list \<Rightarrow> params \<Rightarrow> bool" where
  "shouldApplyCockpitModeRoute segments ps =
     (if normalizeCockpitMode (first_param [''mode'', ''plane''] ps) = None then False
      else if segments = [] then True
      else length segments = 1 \<and> isTabId (nth_of 0 segments) \<noteq> None \<and> \<not> set_text (map_get ps ''section''))"

definition path_segments :: "string \<Rightarrow> string list" where
  "path_segments p = filter (\<lambda>s. s \<noteq> []) (split_on (CHR ''/'') (dropWhile (\<lambda>c. c = CHR ''/'') p))"

definition normalizeSegments :: "string \<Rightarrow> string list" where
  "normalizeSegments pathPart =
     (let segments = path_segments pathPart
      in if nth_of 0 segments = Some ''dashboard'' then drop 1 segments else segments)"

definition parseSegments :: "string list \<Rightarrow> params \<Rightarrow> route_state" where
  "parseSegments segments ps =
     (let fallback =
        (let tabFromPath = isTabId (nth_of 0 segments);
             tabFromQuery = isTabId (map_get ps ''tab'')
         in canonicalRoute
              (case tabFromPath of Some t \<Rightarrow> t | None \<Rightarrow> (case tabFromQuery of Some t \<Rightarrow> t | None \<Rightarrow> Overview)) ps);
          sectioned =
        (case nth_of 1 segments of
           None \<Rightarrow> fallback
         | Some second \<Rightarrow>
             if second = '''' then fallback
             else if nth_of 0 segments = Some ''command'' then
               canonicalRoute Command
                 (map_set ''section'' (if decodeSafe second \<in> set VALID_COMMAND_SECTIONS then decodeSafe second else ''operations'') ps)
             else (case isTabId (nth_of 0 segments) of
                     Some t \<Rightarrow>
                       if t \<in> {Monitoring, Workspace, Lab, Code}
                       then canonicalRoute t (map_set ''section'' (decodeSafe second) ps) else fallback
                   | None \<Rightarrow> fallback))
      in if shouldApplyCockpitModeRoute segments ps
         then (case routeForCockpitMode ps of Some r \<Rightarrow> r | None \<Rightarrow> sectioned) else sectioned)"

definition hashLooksLikeQuery :: "string \<Rightarrow> bool" where
  "hashLooksLikeQuery body =
     (let eqIndex = find_index (\<lambda>c. c = CHR ''='') body; slashIndex = find_index (\<lambda>c. c = CHR ''/'') body
      in if eqIndex < 0 then False else slashIndex < 0 \<or> eqIndex < slashIndex)"

definition before_mark :: "string \<Rightarrow> string" where
  "before_mark s = takeWhile (\<lambda>c. c \<noteq> CHR ''?'') s"

definition after_mark :: "string \<Rightarrow> string" where
  "after_mark s = drop 1 (dropWhile (\<lambda>c. c \<noteq> CHR ''?'') s)"

definition parseHash :: "(string \<Rightarrow> string) \<Rightarrow> string \<Rightarrow> route_state" where
  "parseHash repair hash =
     (let raw = trim_text (if starts_with hash ''#'' then drop 1 hash else hash)
      in if raw = '''' then DEFAULT_ROUTE
         else (let decoded = decodeSafe raw;
                   (pathPart, queryPart) =
                     (if CHR ''?'' \<in> set decoded then (before_mark decoded, Some (after_mark decoded)) else (decoded, None));
                   (pathPart, queryPart) =
                     (if \<not> set_text queryPart \<and> hashLooksLikeQuery raw then ('''', Some raw) else (pathPart, queryPart))
               in parseSegments (normalizeSegments pathPart) (parseParams repair queryPart)))"

definition strip_mark :: "string \<Rightarrow> string" where
  "strip_mark s = (if starts_with s ''?'' then drop 1 s else s)"

definition parsePathname :: "(string \<Rightarrow> string) \<Rightarrow> string \<Rightarrow> string \<Rightarrow> route_state option" where
  "parsePathname repair pathname search =
     (let segments = path_segments pathname
      in if nth_of 0 segments \<noteq> Some ''dashboard'' then None
         else (let sub = drop 1 segments; ps = parseParams repair (Some (strip_mark search))
               in if sub = [] then Some (DEFAULT_ROUTE\<lparr>rs_params := ps\<rparr>)
                  else if nth_of 0 sub = Some ''assets'' \<or> nth_of 0 sub = Some ''credits'' then None
                  else Some (parseSegments sub ps)))"

section \<open>Serializing\<close>

definition own_tab :: "route_state \<Rightarrow> string \<times> string \<Rightarrow> bool" where
  "own_tab r kv \<longleftrightarrow> fst kv = ''tab'' \<and> snd kv = tab_text (rs_tab r)"

definition toHash :: "route_state \<Rightarrow> string" where
  "toHash r =
     (let paramEntries = filter (\<lambda>kv. \<not> own_tab r kv) (rs_params r)
      in if paramEntries = [] then ''#'' @ tab_text (rs_tab r)
         else ''#'' @ tab_text (rs_tab r) @ ''?'' @ search_text paramEntries)"

definition hashForRoute :: "tab_id \<Rightarrow> params option \<Rightarrow> string" where
  "hashForRoute t ps = toHash (canonicalRoute t (case ps of None \<Rightarrow> [] | Some q \<Rightarrow> q))"

section \<open>The route signal and the address bar\<close>

text \<open>
  \<open>ro_pending\<close> counts the \<open>hashchange\<close> events the browser has queued: one for each assignment that changed the
  hash. \<open>history.replaceState\<close> queues none.
\<close>

record router_state =
  ro_route :: route_state
  ro_hash :: string
  ro_pending :: nat

datatype router_op =
    Ro_navigate tab_id "params option"
  | Ro_replaceRoute tab_id "params option"
  | Ro_navigateToPost string
  | Ro_address string
  | Ro_hashchange

definition set_hash :: "string \<Rightarrow> router_state \<Rightarrow> router_state" where
  "set_hash h s = (if ro_hash s = h then s else s\<lparr>ro_hash := h, ro_pending := Suc (ro_pending s)\<rparr>)"

definition on_hashchange :: "(string \<Rightarrow> string) \<Rightarrow> router_state \<Rightarrow> router_state" where
  "on_hashchange repair s =
     (let parsed = parseHash repair (ro_hash s); canonical = toHash parsed
      in s\<lparr>ro_route := parsed, ro_hash := (if ro_hash s \<noteq> canonical then canonical else ro_hash s)\<rparr>)"

definition navigate :: "tab_id \<Rightarrow> params option \<Rightarrow> router_state \<Rightarrow> router_state" where
  "navigate t ps s =
     (let nextRoute = canonicalRoute t (case ps of None \<Rightarrow> [] | Some q \<Rightarrow> q); nextHash = hashForRoute t ps
      in set_hash nextHash (s\<lparr>ro_route := nextRoute\<rparr>))"

definition replaceRoute :: "(string \<Rightarrow> string) \<Rightarrow> tab_id \<Rightarrow> params option \<Rightarrow> router_state \<Rightarrow> router_state" where
  "replaceRoute repair t ps s =
     (let nextRoute = canonicalRoute t (case ps of None \<Rightarrow> [] | Some q \<Rightarrow> q)
      in on_hashchange repair (s\<lparr>ro_route := nextRoute, ro_hash := toHash nextRoute\<rparr>))"

definition navigateToPost :: "string \<Rightarrow> router_state \<Rightarrow> router_state" where
  "navigateToPost postId s = set_hash (''#workspace?section=board&post='' @ encodeURIComponent postId) s"

fun router_step :: "(string \<Rightarrow> string) \<Rightarrow> router_op \<Rightarrow> router_state \<Rightarrow> router_state \<times> unit list" where
  "router_step repair (Ro_navigate t ps) s = (navigate t ps s, [])"
| "router_step repair (Ro_replaceRoute t ps) s = (replaceRoute repair t ps s, [])"
| "router_step repair (Ro_navigateToPost p) s = (navigateToPost p s, [])"
| "router_step repair (Ro_address h) s = (set_hash h s, [])"
| "router_step repair Ro_hashchange s =
     (case ro_pending s of 0 \<Rightarrow> (s, []) | Suc n \<Rightarrow> (on_hashchange repair (s\<lparr>ro_pending := n\<rparr>), []))"

text \<open>The module's own start, then \<open>initRouter\<close>, on a page with the given path, search and hash.\<close>

definition load_router :: "(string \<Rightarrow> string) \<Rightarrow> string \<Rightarrow> router_state" where
  "load_router repair hash = \<lparr>ro_route = parseHash repair hash, ro_hash = hash, ro_pending = 0\<rparr>"

definition initRouter :: "(string \<Rightarrow> string) \<Rightarrow> string \<Rightarrow> string \<Rightarrow> router_state \<Rightarrow> router_state" where
  "initRouter repair path search s =
     (if ro_hash s \<noteq> '''' \<and> ro_hash s \<noteq> ''#'' then on_hashchange repair s
      else (case parsePathname repair path search of
              Some fromPath \<Rightarrow> s\<lparr>ro_route := fromPath, ro_hash := toHash fromPath\<rparr>
            | None \<Rightarrow> (let s1 = set_hash ''#overview'' s in s1\<lparr>ro_route := parseHash repair (ro_hash s1)\<rparr>)))"

section \<open>The canonical form\<close>

text \<open>What \<open>normalizeRouteParams\<close> establishes, as a property of the result alone.\<close>

definition route_sections :: "tab_id \<Rightarrow> string list" where
  "route_sections t = (if t = Cockpit then [''''] else validSectionIds t)"

definition canonical_params :: "tab_id \<Rightarrow> params \<Rightarrow> bool" where
  "canonical_params t ps \<longleftrightarrow>
     (if t = Overview \<or> t = Logs then map_get ps ''section'' = None \<and> map_get ps ''surface'' = None
      else (\<exists>s\<in>set (route_sections t). map_get ps ''section'' = Some s) \<and>
           (\<forall>k\<in>{''surface'', ''operation'', ''run_id''}. map_get ps k = None))"

lemmas nav_tables = validSectionIds_def items_of_def DASHBOARD_SECTION_ITEMS_def shown_def hidden_item_def

lemma default_section:
  "t \<noteq> Overview \<Longrightarrow> t \<noteq> Logs \<Longrightarrow> or_empty (map_get (defaultParamsForTab t) ''section'') \<in> set (route_sections t)"
  by (cases t) (simp_all add: route_sections_def nav_tables defaultParamsForTab_def DASHBOARD_SURFACES_def surface_def or_empty_def)

definition redirect_free :: "tab_id \<Rightarrow> string \<Rightarrow> bool" where
  "redirect_free t s \<longleftrightarrow>
     map_get SECTION_REDIRECTS (t, s) = None \<and> map_get CROSS_SURFACE_SECTION_REDIRECTS (t, s) = None \<and> s \<noteq> ''activity''"

lemma sections_redirect_free: "list_all (redirect_free t) (route_sections t)"
  by (induction t; code_simp)

lemma section_not_redirected:
  assumes "s \<in> set (route_sections t)"
  shows "map_get SECTION_REDIRECTS (t, s) = None" "map_get CROSS_SURFACE_SECTION_REDIRECTS (t, s) = None" "s \<noteq> ''activity''"
  using assms sections_redirect_free[of t] by (auto simp: list_all_iff redirect_free_def)

lemma valid_is_section: "s \<in> set (validSectionIds t) \<Longrightarrow> s \<in> set (route_sections t)"
  by (cases t) (simp_all add: route_sections_def nav_tables)

lemma check_section_valid:
  assumes "t \<noteq> Overview" "t \<noteq> Logs"
  shows "\<exists>s\<in>set (route_sections t). map_get (check_section t ps) ''section'' = Some s"
  using default_section[OF assms] valid_is_section by (auto simp: check_section_def)

lemma normalize_canonical: "canonical_params t (normalizeRouteParams t ps)"
  using check_section_valid[of t] by (auto simp: canonical_params_def normalizeRouteParams_def)

lemma del_absent: "map_get m k = None \<Longrightarrow> map_del k m = m"
  by (simp add: delete_absent map_of_eq_None_iff)

lemma canonical_fixed:
  assumes "canonical_params t ps"
  shows "normalizeRouteParams t ps = ps" and "applyCrossSurfaceRedirect t ps = None"
proof -
  show "applyCrossSurfaceRedirect t ps = None"
    using assms section_not_redirected[of _ t]
    by (auto simp: canonical_params_def applyCrossSurfaceRedirect_def split: if_splits)
  show "normalizeRouteParams t ps = ps"
  proof (cases "t = Overview \<or> t = Logs")
    case True
    then show ?thesis using assms by (auto simp: canonical_params_def normalizeRouteParams_def del_absent)
  next
    case False
    then obtain s where s: "s \<in> set (route_sections t)" "map_get ps ''section'' = Some s"
      and dels: "map_get ps ''surface'' = None" "map_get ps ''operation'' = None" "map_get ps ''run_id'' = None"
      using assms by (auto simp: canonical_params_def)
    have "redirect_section t ps = ps"
      using section_not_redirected[OF s(1)] s(2) by (simp add: redirect_section_def legacy_range_def)
    moreover have "check_section t ps = ps"
    proof (cases "t = Cockpit")
      case True
      with s show ?thesis
        by (simp add: check_section_def route_sections_def nav_tables defaultParamsForTab_def DASHBOARD_SURFACES_def
            surface_def or_empty_def update_triv)
    next
      case False
      with s show ?thesis by (simp add: check_section_def route_sections_def)
    qed
    ultimately show ?thesis using False dels by (simp add: normalizeRouteParams_def del_absent)
  qed
qed

definition canonical :: "route_state \<Rightarrow> bool" where
  "canonical r \<longleftrightarrow> canonical_params (rs_tab r) (rs_params r)"

lemma route_simps [simp]: "rs_tab (route t ps) = t" "rs_params (route t ps) = ps"
  by (simp_all add: route_def)

lemma canonicalRoute_canonical: "canonical (canonicalRoute t ps)"
  by (auto simp: canonicalRoute_def canonical_def normalize_canonical Let_def split: option.split)

lemma canonicalRoute_fixed: "canonical r \<Longrightarrow> canonicalRoute (rs_tab r) (rs_params r) = r"
  by (simp add: canonicalRoute_def canonical_def canonical_fixed route_def)

text \<open>The second redirect of \<open>canonicalRoute\<close> never applies.\<close>

lemma second_redirect_dead: "applyCrossSurfaceRedirect t (normalizeRouteParams t ps) = None"
  by (rule canonical_fixed(2) [OF normalize_canonical])

lemma canonical_set_text:
  "canonical r \<Longrightarrow> rs_tab r \<notin> {Overview, Logs, Cockpit} \<Longrightarrow> set_text (map_get (rs_params r) ''section'')"
  by (cases "rs_tab r")
    (auto simp: canonical_def canonical_params_def route_sections_def nav_tables set_text_def)

section \<open>A route read back from its hash\<close>

lemma hex_digit_visible: "d < 16 \<Longrightarrow> in_range 33 126 (hex_digit d)"
  by (auto simp: hex_digit_def in_range_def)

lemma form_char_visible: "d \<in> set (form_char c) \<Longrightarrow> in_range 33 126 d"
proof -
  have "char_code c div 16 < 16" using char_code_less[of c] by (simp only: less_mult_imp_div_less)
  then have hex: "d \<in> set (pct c) \<Longrightarrow> in_range 33 126 d"
    using hex_digit_visible[of "char_code c div 16"] hex_digit_visible[of "char_code c mod 16"]
    by (auto simp: pct_def) (simp add: in_range_def)
  have "alnum c \<Longrightarrow> in_range 33 126 c" by (auto simp: alnum_def in_range_def)
  moreover have "c \<in> set ''*-._'' \<Longrightarrow> in_range 33 126 c" "in_range 33 126 CHR ''+''" by (auto simp: in_range_def)
  moreover assume "d \<in> set (form_char c)"
  ultimately show ?thesis using hex by (auto simp: form_char_def split: if_splits)
qed

lemma search_visible: "d \<in> set (search_text kvs) \<Longrightarrow> in_range 33 126 d"
proof -
  have "\<forall>p\<in>set ps. \<forall>d\<in>set p. in_range 33 126 d \<Longrightarrow> d \<in> set (join ''&'' ps) \<Longrightarrow> in_range 33 126 d" for ps
    by (induction "''&''" ps rule: join.induct) (auto simp: in_range_def)
  moreover have "\<forall>p\<in>set (map (\<lambda>(k, v). form_text k @ ''='' @ form_text v) kvs). \<forall>d\<in>set p. in_range 33 126 d"
    by (auto simp: form_text_def form_char_visible) (simp add: in_range_def)
  moreover assume "d \<in> set (search_text kvs)"
  ultimately show ?thesis by (simp only: search_text_def)
qed

lemma tab_visible: "c \<in> set (tab_text t) \<Longrightarrow> in_range 97 122 c"
proof -
  have "list_all (in_range 97 122) (tab_text t)" by (induction t; code_simp)
  then show "c \<in> set (tab_text t) \<Longrightarrow> in_range 97 122 c" by (simp add: list_all_iff)
qed

lemma tab_no: "\<not> in_range 97 122 c \<Longrightarrow> c \<notin> set (tab_text t)"
  using tab_visible by blast

lemma tab_segments: "normalizeSegments (tab_text t) = [tab_text t]"
  by (induction t; code_simp)

lemma isTabId_text: "isTabId (Some (tab_text t)) = Some t"
  by (induction t; code_simp)

lemma tab_text_ne: "tab_text t \<noteq> []"
  by (cases t) simp_all

lemma decode_hash:
  assumes "clean_query kvs"
  shows "decodeSafe (tab_text t @ ''?'' @ search_text kvs) = tab_text t @ ''?'' @ seen_query kvs"
proof -
  have "pct_strict (tab_text t @ ''?'' @ search_text kvs) = Some (tab_text t @ ''?'' @ seen_query kvs)"
    using pct_strict_search[OF assms] tab_no[of "CHR ''%''" t] by (simp add: pct_strict_plain in_range_def)
  moreover have "utf8_ok (tab_text t @ ''?'' @ seen_query kvs)"
  proof -
    have "utf8_ok (tab_text t)" by (induction t; code_simp)
    moreover have "utf8_ok ''?''" by code_simp
    ultimately show ?thesis using utf8_ok_seen[OF assms] by (intro utf8_ok_append)
  qed
  ultimately show ?thesis by (simp add: decodeSafe_def decodeURIComponent_def)
qed

lemma decode_tab: "decodeSafe (tab_text t) = tab_text t"
  by (induction t; code_simp)

lemma mark_split:
  assumes "CHR ''?'' \<notin> set s"
  shows "before_mark (s @ ''?'' @ t) = s" "after_mark (s @ ''?'' @ t) = t"
proof -
  show "before_mark (s @ ''?'' @ t) = s" unfolding before_mark_def using assms by (induction s) auto
  have "dropWhile (\<lambda>c. c \<noteq> CHR ''?'') (s @ ''?'' @ t) = ''?'' @ t" using assms by (induction s) auto
  then show "after_mark (s @ ''?'' @ t) = t" by (simp add: after_mark_def)
qed

lemma seen_query_ne: "kvs \<noteq> [] \<Longrightarrow> seen_query kvs \<noteq> []"
  by (cases kvs; cases "tl kvs") (auto simp: seen_query_def query_part_def)

text \<open>The parameters the second decoding leaves alone.\<close>

definition hash_safe :: "params \<Rightarrow> bool" where
  "hash_safe ps \<longleftrightarrow> distinct (map_keys ps) \<and>
     (\<forall>(k, v)\<in>set ps. clean k \<and> CHR ''='' \<notin> set k \<and> \<not> starts_with k ''?'' \<and> k \<noteq> ''tab'' \<and> clean v)"

lemma hash_safe_query: "hash_safe ps \<Longrightarrow> clean_query ps"
  by (cases ps) (auto simp: hash_safe_def clean_query_def)

lemma parseParams_seen:
  assumes "hash_safe ps" "ps \<noteq> []"
  shows "parseParams repair (Some (seen_query ps)) = ps"
proof -
  have "search_entries repair (seen_query ps) = ps" using assms by (intro search_entries_seen hash_safe_query)
  moreover have "map_from ps = ps" using assms by (simp add: map_from_distinct hash_safe_def)
  ultimately show ?thesis using assms(2) by (simp add: parseParams_def seen_query_ne map_from_def)
qed

lemma parse_tab:
  assumes "set_text (map_get ps ''section'') \<or> normalizeCockpitMode (first_param [''mode'', ''plane''] ps) = None"
  shows "parseSegments [tab_text t] ps = canonicalRoute t ps"
  using assms
  by (auto simp: parseSegments_def shouldApplyCockpitModeRoute_def nth_of_def isTabId_text Let_def)

lemma parseHash_toHash:
  assumes "hash_safe (rs_params r)"
    and "set_text (map_get (rs_params r) ''section'') \<or> normalizeCockpitMode (first_param [''mode'', ''plane''] (rs_params r)) = None"
  shows "parseHash repair (toHash r) = canonicalRoute (rs_tab r) (rs_params r)"
proof -
  let ?t = "tab_text (rs_tab r)" and ?ps = "rs_params r"
  have own: "filter (\<lambda>kv. \<not> own_tab r kv) ?ps = ?ps"
    using assms(1) by (auto simp: hash_safe_def own_tab_def filter_id_conv)
  have visible: "in_range 33 126 c" if "c \<in> set ?t" for c using tab_visible[OF that] by (simp add: in_range_def)
  have mark: "CHR ''?'' \<notin> set ?t" "CHR ''='' \<notin> set ?t" by (simp_all add: tab_no in_range_def)
  show ?thesis
  proof (cases "?ps = []")
    case True
    have "trim_text ?t = ?t" using visible by (simp add: trim_plain)
    moreover have "\<not> hashLooksLikeQuery ?t"
      using mark(2) find_index_nonneg[of "\<lambda>c. c = CHR ''=''" ?t] by (auto simp: hashLooksLikeQuery_def Let_def)
    ultimately show ?thesis
      using True mark(1) tab_text_ne parse_tab[OF assms(2)] own
      by (simp add: parseHash_def toHash_def starts_with_def decode_tab tab_segments parseParams_def set_text_def)
  next
    case False
    have "trim_text (?t @ ''?'' @ search_text ?ps) = ?t @ ''?'' @ search_text ?ps"
      using visible search_visible by (intro trim_plain) (auto simp: in_range_def)
    moreover have "before_mark (?t @ ''?'' @ seen_query ?ps) = ?t" "after_mark (?t @ ''?'' @ seen_query ?ps) = seen_query ?ps"
      using mark_split[OF mark(1)] by simp_all
    moreover have "decodeSafe (?t @ ''?'' @ search_text ?ps) = ?t @ ''?'' @ seen_query ?ps"
      by (rule decode_hash [OF hash_safe_query [OF assms(1)]])
    ultimately show ?thesis
      using False parse_tab[OF assms(2)] own seen_query_ne[OF False] parseParams_seen[OF assms(1) False]
      by (simp add: parseHash_def toHash_def starts_with_def tab_segments set_text_def)
  qed
qed

text \<open>The canonical form of safe parameters is safe: what the tables add is.\<close>

definition safe_pair :: "string \<times> string \<Rightarrow> bool" where
  "safe_pair kv \<longleftrightarrow> clean (fst kv) \<and> CHR ''='' \<notin> set (fst kv) \<and> \<not> starts_with (fst kv) ''?'' \<and> fst kv \<noteq> ''tab'' \<and> clean (snd kv)"

lemma hash_safe_alt: "hash_safe ps \<longleftrightarrow> distinct (map_keys ps) \<and> (\<forall>kv\<in>set ps. safe_pair kv)"
  by (auto simp: hash_safe_def safe_pair_def)

lemma hash_safe_set: "hash_safe ps \<Longrightarrow> safe_pair (k, v) \<Longrightarrow> hash_safe (map_set k v ps)"
  unfolding hash_safe_alt by (auto dest: in_update_cases)

lemma hash_safe_del: "hash_safe ps \<Longrightarrow> hash_safe (map_del k ps)"
  unfolding hash_safe_alt by (auto simp: in_delete)

lemma hash_safe_unset: "hash_safe ps \<Longrightarrow> safe_pair (k, v) \<Longrightarrow> hash_safe (set_if_unset k v ps)"
  by (simp add: set_if_unset_def hash_safe_set)

lemma hash_safe_spread: "hash_safe ps \<Longrightarrow> \<forall>kv\<in>set qs. safe_pair kv \<Longrightarrow> hash_safe (spread ps qs)"
  unfolding spread_def by (induction qs arbitrary: ps) (auto simp: hash_safe_set)

lemma hash_safe_unsets:
  "hash_safe ps \<Longrightarrow> \<forall>kv\<in>set qs. safe_pair kv \<Longrightarrow> hash_safe (fold (\<lambda>(k, v). set_if_unset k v) qs ps)"
  by (induction qs arbitrary: ps) (auto simp: hash_safe_unset)

definition view_safe :: "string option \<Rightarrow> bool" where
  "view_safe v = (case v of None \<Rightarrow> True | Some w \<Rightarrow> safe_pair (''view'', w))"

definition redirect_safe :: "section_redirect \<Rightarrow> bool" where
  "redirect_safe rd \<longleftrightarrow> safe_pair (''section'', sr_section rd) \<and> view_safe (sr_view rd) \<and> list_all safe_pair (sr_params rd)"

definition cross_safe :: "cross_redirect \<Rightarrow> bool" where
  "cross_safe rd \<longleftrightarrow> safe_pair (''section'', cr_section rd) \<and> view_safe (cr_view rd) \<and> list_all safe_pair (cr_params rd)"

lemma redirects_safe: "map_get SECTION_REDIRECTS k = Some rd \<Longrightarrow> redirect_safe rd"
proof -
  have "list_all redirect_safe (map_values SECTION_REDIRECTS)" by code_simp
  then show "map_get SECTION_REDIRECTS k = Some rd \<Longrightarrow> redirect_safe rd"
    by (force simp: list_all_iff dest: map_of_SomeD)
qed

lemma crosses_safe: "map_get CROSS_SURFACE_SECTION_REDIRECTS k = Some rd \<Longrightarrow> cross_safe rd"
proof -
  have "list_all cross_safe (map_values CROSS_SURFACE_SECTION_REDIRECTS)" by code_simp
  then show "map_get CROSS_SURFACE_SECTION_REDIRECTS k = Some rd \<Longrightarrow> cross_safe rd"
    by (force simp: list_all_iff dest: map_of_SomeD)
qed

lemma hash_safe_legacy: "hash_safe ps \<Longrightarrow> hash_safe (legacy_range t ps)"
proof -
  have "list_all (\<lambda>r. safe_pair (''range'', r)) [''1h'', ''6h'', ''24h'', ''7d'']" by code_simp
  then show "hash_safe ps \<Longrightarrow> hash_safe (legacy_range t ps)"
    by (auto simp: legacy_range_def Let_def intro!: hash_safe_del hash_safe_set split: option.split)
qed

lemma hash_safe_apply: "hash_safe ps \<Longrightarrow> redirect_safe rd \<Longrightarrow> hash_safe (apply_redirect rd ps)"
  unfolding redirect_safe_def apply_redirect_def Let_def view_safe_def
  by (auto simp: list_all_iff intro!: hash_safe_set hash_safe_unset hash_safe_unsets split: option.split)

lemma hash_safe_default: "safe_pair (''section'', or_empty (map_get (defaultParamsForTab t) ''section''))"
  by (induction t; code_simp)

lemma hash_safe_normalize: "hash_safe ps \<Longrightarrow> hash_safe (normalizeRouteParams t ps)"
proof -
  assume "hash_safe ps"
  then have "hash_safe (redirect_section t ps)"
    by (auto simp: redirect_section_def Let_def hash_safe_legacy dest: redirects_safe intro: hash_safe_apply split: option.split)
  then have "hash_safe (check_section t (redirect_section t ps))"
    by (simp add: check_section_def hash_safe_set hash_safe_default)
  with \<open>hash_safe ps\<close> show ?thesis by (simp add: normalizeRouteParams_def hash_safe_del)
qed

lemma hash_safe_cross: "hash_safe ps \<Longrightarrow> applyCrossSurfaceRedirect t ps = Some (t', ps') \<Longrightarrow> hash_safe ps'"
  by (auto simp: applyCrossSurfaceRedirect_def Let_def cross_safe_def view_safe_def list_all_iff
      dest!: crosses_safe intro!: hash_safe_set hash_safe_unset hash_safe_spread split: option.splits if_splits)

lemma hash_safe_canonical: "hash_safe ps \<Longrightarrow> hash_safe (rs_params (canonicalRoute t ps))"
  using hash_safe_cross[of ps t] hash_safe_normalize
  by (auto simp: canonicalRoute_def second_redirect_dead Let_def split: option.split prod.split)

text \<open>Whether the parser takes a hash for a cockpit link.\<close>

definition cockpit_link :: "tab_id \<Rightarrow> params \<Rightarrow> bool" where
  "cockpit_link t ps \<longleftrightarrow> t \<in> {Overview, Logs, Cockpit} \<and> normalizeCockpitMode (first_param [''mode'', ''plane''] ps) \<noteq> None"

lemma redirect_section_Cockpit [simp]: "redirect_section Cockpit ps = ps"
  by (simp add: redirect_section_def legacy_range_def SECTION_REDIRECTS_def split: option.split)

lemma canonicalRoute_top:
  assumes "t \<in> {Overview, Logs, Cockpit}"
  shows "canonicalRoute t ps = route t (normalizeRouteParams t ps)"
proof -
  have "map_get CROSS_SURFACE_SECTION_REDIRECTS (t, s) = None" for s
    using assms by (auto simp: CROSS_SURFACE_SECTION_REDIRECTS_def)
  then have "applyCrossSurfaceRedirect t qs = None" for qs
    by (simp add: applyCrossSurfaceRedirect_def split: option.split)
  then show ?thesis by (simp add: canonicalRoute_def)
qed

lemma canonical_tab_top: "rs_tab (canonicalRoute t ps) \<in> {Overview, Logs, Cockpit} \<Longrightarrow> t \<in> {Overview, Logs, Cockpit}"
  by (auto simp: canonicalRoute_def second_redirect_dead applyCrossSurfaceRedirect_def CROSS_SURFACE_SECTION_REDIRECTS_def Let_def
      split: option.splits if_splits)

lemma normalize_keeps:
  assumes "t \<in> {Overview, Logs, Cockpit}" and "k \<notin> {''section'', ''surface'', ''operation'', ''run_id''}"
  shows "map_get (normalizeRouteParams t ps) k = map_get ps k"
proof -
  have "redirect_section t ps = ps \<or> t = Overview \<or> t = Logs" using assms(1) by auto
  moreover have "map_get (check_section t ps) k = map_get ps k" using assms(2) by (simp add: check_section_def)
  ultimately show ?thesis using assms(2) by (auto simp: normalizeRouteParams_def)
qed

lemma no_cockpit_link:
  assumes "\<not> cockpit_link t ps"
  shows "set_text (map_get (rs_params (canonicalRoute t ps)) ''section'') \<or>
    normalizeCockpitMode (first_param [''mode'', ''plane''] (rs_params (canonicalRoute t ps))) = None"
proof (cases "rs_tab (canonicalRoute t ps) \<in> {Overview, Logs, Cockpit}")
  case True
  then have top: "t \<in> {Overview, Logs, Cockpit}" by (rule canonical_tab_top)
  have "map_get (normalizeRouteParams t ps) ''mode'' = map_get ps ''mode''"
    "map_get (normalizeRouteParams t ps) ''plane'' = map_get ps ''plane''"
    by (rule normalize_keeps [OF top]; simp)+
  then have "first_param [''mode'', ''plane''] (rs_params (canonicalRoute t ps)) = first_param [''mode'', ''plane''] ps"
    by (simp only: canonicalRoute_top[OF top] route_simps first_param.simps)
  then show ?thesis using assms top unfolding cockpit_link_def by metis
next
  case False
  then show ?thesis using canonical_set_text[OF canonicalRoute_canonical] by blast
qed

lemma hash_of_route:
  assumes "hash_safe ps" and "\<not> cockpit_link t ps"
  shows "parseHash repair (toHash (canonicalRoute t ps)) = canonicalRoute t ps"
  using parseHash_toHash[OF hash_safe_canonical[OF assms(1)] no_cockpit_link[OF assms(2)]]
  by (simp add: canonicalRoute_fixed canonicalRoute_canonical)

section \<open>The steps\<close>

lemma parseSegments_canonical: "canonical (parseSegments segments ps)"
proof -
  have "routeForCockpitMode ps = Some r \<Longrightarrow> canonical r" for r
    by (auto simp: routeForCockpitMode_def canonicalRoute_canonical split: option.splits)
  then show ?thesis
    by (auto simp: parseSegments_def Let_def canonicalRoute_canonical split: option.split)
qed

lemma DEFAULT_ROUTE_canonical: "canonical DEFAULT_ROUTE"
  by (simp add: DEFAULT_ROUTE_def canonical_def canonical_params_def)

lemma parseHash_canonical: "canonical (parseHash repair hash)"
  unfolding parseHash_def Let_def
  by (simp add: DEFAULT_ROUTE_canonical parseSegments_canonical split: prod.split)

definition router_ok :: "router_state \<Rightarrow> bool" where
  "router_ok s \<longleftrightarrow> canonical (ro_route s) \<and> (if ro_pending s = 0 then ro_hash s = toHash (ro_route s) else True)"

lemma on_hashchange_simps [simp]:
  "ro_route (on_hashchange repair s) = parseHash repair (ro_hash s)"
  "ro_hash (on_hashchange repair s) = toHash (parseHash repair (ro_hash s))"
  "ro_pending (on_hashchange repair s) = ro_pending s"
  by (simp_all add: on_hashchange_def Let_def)

lemma set_hash_simps [simp]:
  "ro_hash (set_hash h s) = h" "ro_route (set_hash h s) = ro_route s"
  "ro_pending (set_hash h s) = (if ro_hash s = h then ro_pending s else Suc (ro_pending s))"
  by (simp_all add: set_hash_def)

lemma router_ok_step: "router_ok s \<Longrightarrow> router_ok (fst (router_step repair x s))"
  by (cases x)
    (auto simp: router_ok_def navigate_def replaceRoute_def navigateToPost_def hashForRoute_def Let_def
      canonicalRoute_canonical parseHash_canonical split: nat.splits)

interpretation router_component: component "router_step repair" router_ok "\<lambda>x. True"
  by unfold_locales (simp add: router_ok_step)

lemma parsePathname_canonical:
  "parsePathname repair path search = Some r \<Longrightarrow> path_segments path \<noteq> [''dashboard''] \<Longrightarrow> canonical r"
  by (cases "path_segments path")
    (auto simp: parsePathname_def nth_of_def Let_def parseSegments_canonical split: if_splits)

lemma initRouter_ok:
  assumes "hash \<notin> {'''', ''#''} \<or> path_segments path \<noteq> [''dashboard'']"
  shows "router_ok (initRouter repair path search (load_router repair hash))"
proof -
  have "toHash (parseHash repair ''#overview'') = ''#overview''" by code_simp
  then show ?thesis
    using assms parsePathname_canonical[of repair path search]
    by (auto simp: initRouter_def load_router_def router_ok_def Let_def parseHash_canonical split: option.split)
qed

text \<open>Delivering the queued events settles the address bar.\<close>

lemma router_drain:
  "router_ok s \<Longrightarrow> ro_pending s = n \<Longrightarrow>
   router_ok (fst (run (router_step repair) (replicate n Ro_hashchange) s)) \<and>
   ro_pending (fst (run (router_step repair) (replicate n Ro_hashchange) s)) = 0"
proof (induction n arbitrary: s)
  case (Suc n)
  let ?s = "fst (router_step repair Ro_hashchange s)"
  have "router_ok ?s" "ro_pending ?s = n" using Suc.prems router_ok_step[of s repair Ro_hashchange] by simp_all
  from Suc.IH[OF this] show ?case by (simp add: run_Cons del: run.simps(2))
qed simp

section \<open>Deep links of the cockpit\<close>

lemma entrypoint_found:
  assumes "e \<in> set COCKPIT_ENTRYPOINTS" and "a \<in> set (ce_aliases e)"
  shows "map_get ENTRYPOINT_TARGETS (ce_mode e, normalizeCockpitEntrypoint a) = Some (ce_target e)"
  unfolding ENTRYPOINT_TARGETS_def map_from_distinct[OF entrypoint_keys]
  using assms by (intro map_of_is_SomeI entrypoint_keys) auto

text \<open>A target names a section of its tab and no key the normalization drops.\<close>

definition target_ok :: "route_target \<Rightarrow> bool" where
  "target_ok g \<longleftrightarrow> distinct (map_keys (rt_params g)) \<and>
     list_all (\<lambda>kv. fst kv \<notin> set [''surface'', ''operation'', ''run_id'']) (rt_params g) \<and>
     (case map_get (rt_params g) ''section'' of
        None \<Rightarrow> rt_tab g = Overview
      | Some s \<Rightarrow> rt_tab g \<notin> set [Overview, Logs] \<and> s \<in> set (validSectionIds (rt_tab g)))"

definition entry_ok :: "cockpit_entrypoint \<Rightarrow> bool" where
  "entry_ok e \<longleftrightarrow> target_ok (ce_target e) \<and> ce_mode e \<notin> set [M_code, M_split, M_terminal]"

lemma entrypoints_ok: "list_all entry_ok COCKPIT_ENTRYPOINTS"
  by code_simp

lemma mode_targets_ok: "target_ok (COCKPIT_MODE_TARGETS m)"
  by (induction m; code_simp)

lemma map_get_spread:
  "distinct (map_keys qs) \<Longrightarrow> map_get (spread ps qs) k = (case map_get qs k of Some v \<Rightarrow> Some v | None \<Rightarrow> map_get ps k)"
  unfolding spread_def
proof (induction qs arbitrary: ps)
  case (Cons q qs)
  obtain k' v where q: "q = (k', v)" by fastforce
  have "map_get qs k' = None" using Cons.prems by (simp add: q map_of_eq_None_iff)
  with Cons show ?case by (auto simp: q split: option.split)
qed simp

lemma canonicalRoute_section:
  assumes "map_get ps ''section'' = Some s" and "s \<in> set (validSectionIds t)" and "t \<noteq> Overview" and "t \<noteq> Logs"
  shows "canonicalRoute t ps = route t (map_del ''run_id'' (map_del ''operation'' (map_del ''surface'' ps)))"
proof -
  note free = section_not_redirected[OF valid_is_section[OF assms(2)]]
  have "redirect_section t ps = ps" using free assms(1) by (simp add: redirect_section_def legacy_range_def)
  moreover have "check_section t ps = ps" using assms(1,2) by (auto simp: check_section_def)
  moreover have "applyCrossSurfaceRedirect t ps = None" using free assms(1) by (simp add: applyCrossSurfaceRedirect_def)
  ultimately show ?thesis
    using assms(3,4) second_redirect_dead[of t ps] by (simp add: canonicalRoute_def normalizeRouteParams_def Let_def)
qed

definition shows_target :: "route_target \<Rightarrow> route_state \<Rightarrow> bool" where
  "shows_target g r \<longleftrightarrow>
     rs_tab r = rt_tab g \<and> list_all (\<lambda>kv. map_get (rs_params r) (fst kv) = Some (snd kv)) (rt_params g)"

lemma target_shown:
  assumes "target_ok g"
  shows "shows_target g (canonicalRoute (rt_tab g) (spread ps (rt_params g)))"
proof -
  have d: "distinct (map_keys (rt_params g))"
    and keys: "k \<notin> {''surface'', ''operation'', ''run_id''}" if "(k, v) \<in> set (rt_params g)" for k v
    using assms that by (force simp: target_ok_def list_all_iff)+
  have got: "map_get (spread ps (rt_params g)) k = Some v" if "(k, v) \<in> set (rt_params g)" for k v
    using d[OF that] that by (simp add: map_get_spread)
  show ?thesis
  proof (cases "map_get (rt_params g) ''section''")
    case None
    then have t: "rt_tab g = Overview" using assms by (simp add: target_ok_def)
    have "k \<noteq> ''section''" if "(k, v) \<in> set (rt_params g)" for k v
      using None that by (auto simp: map_of_eq_None_iff rev_image_eqI)
    with t show ?thesis
      using canonicalRoute_top[of Overview] got keys
      by (fastforce simp: shows_target_def list_all_iff normalizeRouteParams_def)
  next
    case (Some s)
    then have "s \<in> set (validSectionIds (rt_tab g))" "rt_tab g \<noteq> Overview" "rt_tab g \<noteq> Logs"
      using assms by (auto simp: target_ok_def)
    moreover have "map_get (spread ps (rt_params g)) ''section'' = Some s"
      using Some got by (blast dest: map_of_SomeD)
    ultimately show ?thesis
      using canonicalRoute_section[of "spread ps (rt_params g)" s "rt_tab g"] got keys
      by (fastforce simp: shows_target_def list_all_iff)
  qed
qed

lemma entry_target:
  assumes "e \<in> set COCKPIT_ENTRYPOINTS" and "a \<in> set (ce_aliases e)"
    and "normalizeCockpitMode (first_param [''mode'', ''plane''] ps) = Some (ce_mode e)"
    and "cockpitEntryParam ps = Some a'" and "normalizeCockpitEntrypoint a' = normalizeCockpitEntrypoint a"
  shows "cockpitTargetForParams ps = Some (ce_target e)"
proof -
  have "slug True a" using slugs assms(1,2) by (simp add: list_all_iff)
  then have "normalizeCockpitEntrypoint a' \<noteq> ''''" using assms(5) slug_normal by force
  moreover have "normalizeCockpitEntrypoint '''' = ''''" by code_simp
  ultimately have "a' \<noteq> ''''" by metis
  moreover have "ce_mode e \<notin> {M_code, M_split, M_terminal}"
    using entrypoints_ok assms(1) by (simp add: list_all_iff entry_ok_def)
  ultimately show ?thesis
    using assms(3,4,5) entrypoint_found[OF assms(1,2)] by (simp add: cockpitTargetForParams_def)
qed

lemma mode_names: "normalizeCockpitMode (Some (cockpit_mode_text m)) = Some m \<and>
  cognitiveModeForCockpitMode (Some (cockpit_mode_text m)) = Some (cognitiveModeForRoute (rt_tab (COCKPIT_MODE_TARGETS m)) (rt_params (COCKPIT_MODE_TARGETS m)))"
  by (induction m; intro conjI; code_simp)

lemma cognitive_targets: "cognitiveModeForRoute (rt_tab (COGNITIVE_MODE_TARGETS c)) (rt_params (COGNITIVE_MODE_TARGETS c)) = c"
  by (induction c; code_simp)

text \<open>The item the navigation bar marks for a canonical route is the one of its section.\<close>

lemma current_section:
  assumes "canonical r" and "rs_tab r \<notin> {Overview, Logs, Cockpit}"
  shows "\<exists>i. currentSectionForRoute r = Some i \<and> map_get (rs_params r) ''section'' = Some (si_id i)"
proof -
  obtain s where s: "s \<in> set (validSectionIds (rs_tab r))" "map_get (rs_params r) ''section'' = Some s"
    using assms by (auto simp: canonical_def canonical_params_def route_sections_def)
  have items: "list_all (\<lambda>i. map_get (si_params i) ''section'' = Some (si_id i)) (sectionItemsForTab t)" for t
    by (induction t; code_simp)
  have at: "sectionItemsForTab (rs_tab r) = items_of (rs_tab r)" using assms(2) by (simp add: sectionItemsForTab_def)
  obtain i where "i \<in> set (items_of (rs_tab r))" "si_id i = s" using s(1) by (auto simp: validSectionIds_def)
  then have "\<exists>i\<in>set (sectionItemsForTab (rs_tab r)). map_get (si_params i) ''section'' = Some s"
    using items[of "rs_tab r"] by (auto simp: list_all_iff at)
  then obtain j where j: "List.find (\<lambda>i. map_get (si_params i) ''section'' = Some s) (sectionItemsForTab (rs_tab r)) = Some j"
    using find_Some_iff_ex[of "\<lambda>i. map_get (si_params i) ''section'' = Some s"] by blast
  then have "si_id j = s" using find_Some_in[OF j] items[of "rs_tab r"] by (auto simp: list_all_iff)
  moreover have "normalizeRouteParams (rs_tab r) (rs_params r) = rs_params r"
    using canonical_fixed(1) assms(1) by (simp add: canonical_def)
  ultimately show ?thesis using j s(2) assms(2) by (auto simp: currentSectionForRoute_def)
qed

section \<open>Where the code departs from its intent\<close>

text \<open>The hash is decoded as a whole before the query is parsed, so an escaped separator splits a value.\<close>

lemma double_decoding:
  "map_get (rs_params (parseHash (\<lambda>s. s) (hashForRoute Workspace (Some [(''section'', ''board''), (''q'', ''a&b'')])))) ''q'' = Some ''a''"
  by code_simp

lemma question_mark_lost:
  "rs_params (parseHash (\<lambda>s. s) (hashForRoute Workspace (Some [(''?q'', ''1''), (''section'', ''board'')]))) =
     [(''q'', ''1''), (''section'', ''board'')]"
  by code_simp

lemma post_id_changed:
  "map_get (rs_params (parseHash (\<lambda>s. s) (''#workspace?section=board&post='' @ encodeURIComponent ''a+b''))) ''post'' = Some ''a b''"
  by code_simp

text \<open>A retired section in the path of the command surface loses the view its redirect sets in the query.\<close>

lemma command_path_skips_redirect:
  "map_get (rs_params (parseHash (\<lambda>s. s) ''#command/inspector'')) ''view'' = None \<and>
   map_get (rs_params (parseHash (\<lambda>s. s) ''#command?section=inspector'')) ''view'' = Some ''inspector''"
  by (intro conjI; code_simp)

text \<open>The bare dashboard address takes the search parameters as they are.\<close>

lemma bare_dashboard_not_canonical:
  "\<not> (case parsePathname (\<lambda>s. s) ''/dashboard'' ''?section=board'' of
        None \<Rightarrow> True | Some r \<Rightarrow> map_get (rs_params r) ''section'' = None)"
  by code_simp

text \<open>A route of the overview with a mode parameter is another route after the \<open>hashchange\<close> it causes.\<close>

lemma mode_parameter_moves:
  "rs_tab (canonicalRoute Overview [(''mode'', ''work'')]) = Overview \<and>
   rs_tab (parseHash (\<lambda>s. s) (hashForRoute Overview (Some [(''mode'', ''work'')]))) = Workspace"
  by (intro conjI; code_simp)

section \<open>Properties\<close>

text \<open>C27: A route survives the address bar. For parameters with distinct keys that contain no percent sign, ampersand or
  plus sign in a key or a value, no equals sign in a key, no question mark at the start of a key, and no key tab, the
  hash that navigate writes parses back to the route it showed, and the \<open>hashchange\<close> event it causes changes neither the
  route nor the hash, except for a link that the parser takes for a cockpit mode. (That a parameter of another form may be
  changed or cut is \<open>double_decoding\<close> and \<open>question_mark_lost\<close>.)\<close>

theorem route_hash_roundtrip:
  assumes "hash_safe ps" and "\<not> cockpit_link t ps"
  shows "parseHash repair (hashForRoute t (Some ps)) = canonicalRoute t ps \<and>
    on_hashchange repair (navigate t (Some ps) s) = navigate t (Some ps) s"
proof -
  note same = hash_of_route[OF assms, of repair]
  have "ro_route (navigate t (Some ps) s) = canonicalRoute t ps" "ro_hash (navigate t (Some ps) s) = toHash (canonicalRoute t ps)"
    by (simp_all add: navigate_def hashForRoute_def)
  then show ?thesis using same by (simp add: hashForRoute_def on_hashchange_def Let_def)
qed

lemma route_hash_roundtrip_witness:
  "parseHash (\<lambda>s. s) (hashForRoute Monitoring (Some [(''section'', ''live''), (''q'', ''a b'')])) =
     canonicalRoute Monitoring [(''section'', ''live''), (''q'', ''a b'')]"
proof -
  have "hash_safe [(''section'', ''live''), (''q'', ''a b'')]" by code_simp
  moreover have "\<not> cockpit_link Monitoring [(''section'', ''live''), (''q'', ''a b'')]" by code_simp
  ultimately show ?thesis using route_hash_roundtrip[of "[(''section'', ''live''), (''q'', ''a b'')]" Monitoring "\<lambda>s. s"] by blast
qed

text \<open>C28: The address bar follows the route. From the page's start on (the bare dashboard address aside), after any
  sequence of navigations, edits of the address and \<open>hashchange\<close> events, the route is in canonical form: its section
  is one of its tab's and no retired parameter is left; when no event is queued the hash is the route's; and
  delivering the queued events gets there.\<close>

theorem router_address_current:
  assumes "hash \<notin> {'''', ''#''} \<or> path_segments path \<noteq> [''dashboard'']"
  shows "let s = fst (run (router_step repair) ops (initRouter repair path search (load_router repair hash)));
             s' = fst (run (router_step repair) (replicate (ro_pending s) Ro_hashchange) s)
         in canonical (ro_route s) \<and> (ro_pending s = 0 \<longrightarrow> ro_hash s = toHash (ro_route s)) \<and>
            canonical (ro_route s') \<and> ro_pending s' = 0 \<and> ro_hash s' = toHash (ro_route s')"
proof -
  have "router_ok (fst (run (router_step repair) ops (initRouter repair path search (load_router repair hash))))"
    by (rule router_component.run_inv) (simp_all add: initRouter_ok[OF assms])
  from router_drain[OF this refl] this show ?thesis by (auto simp: router_ok_def Let_def)
qed

lemma router_address_current_witness:
  "let s = fst (run (router_step (\<lambda>s. s)) [Ro_navigate Lab None] (initRouter (\<lambda>s. s) ''/dashboard/lab'' '''' (load_router (\<lambda>s. s) '''')));
       s' = fst (run (router_step (\<lambda>s. s)) (replicate (ro_pending s) Ro_hashchange) s)
   in canonical (ro_route s) \<and> canonical (ro_route s') \<and> ro_pending s' = 0 \<and> ro_hash s' = toHash (ro_route s')"
proof -
  have "path_segments ''/dashboard/lab'' \<noteq> [''dashboard'']" by code_simp
  then have "'''' \<notin> {'''', ''#''} \<or> path_segments ''/dashboard/lab'' \<noteq> [''dashboard'']" by blast
  from router_address_current[OF this, of "\<lambda>s. s" "[Ro_navigate Lab None]" "''''"] show ?thesis by (simp only: Let_def)
qed

text \<open>C29: A deep link of the cockpit lands. When the first of the keys entry, panel, subtab, \<open>cockpit_tab\<close>, cockpitTab and tab
  that the query has holds, in any spelling with the same normal form, an alias of one of the entry points of the mode that
  its first of the keys mode and plane names, the query shows that entry point's surface with all its parameters, in canonical
  form, whatever its other parameters are. (A value under an earlier key that is no alias hides a later one:
  \<open>entry_key_shadowed\<close>.)\<close>

theorem cockpit_entry_lands:
  assumes "e \<in> set COCKPIT_ENTRYPOINTS" and "a \<in> set (ce_aliases e)"
    and "normalizeCockpitMode (first_param [''mode'', ''plane''] ps) = Some (ce_mode e)"
    and "cockpitEntryParam ps = Some a'" and "normalizeCockpitEntrypoint a' = normalizeCockpitEntrypoint a"
  shows "shows_target (ce_target e) (parseSegments [] ps) \<and> canonical (parseSegments [] ps)"
proof -
  have "parseSegments [] ps = canonicalRoute (rt_tab (ce_target e)) (spread ps (rt_params (ce_target e)))"
    using assms(3) entry_target[OF assms]
    by (simp add: parseSegments_def shouldApplyCockpitModeRoute_def routeForCockpitMode_def Let_def)
  moreover have "target_ok (ce_target e)"
    using entrypoints_ok assms(1) by (simp add: list_all_iff entry_ok_def)
  ultimately show ?thesis by (simp add: target_shown canonicalRoute_canonical)
qed

lemma entry_key_shadowed:
  "cockpitEntryParam [(''mode'', ''cognition''), (''panel'', ''keeper-bdi''), (''entry'', ''x'')] = Some ''x''"
  by code_simp

lemma cockpit_entry_lands_witness:
  "shows_target (to Monitoring [(''section'', ''cognition''), (''view'', ''keeper''), (''focus'', ''bdi'')])
     (parseSegments [] [(''mode'', '' Cognition''), (''panel'', ''Keeper/BDI''), (''view'', ''other'')])"
proof -
  let ?e = "entry M_cognition [''ki-bdi'', ''keeper-bdi''] Monitoring [(''section'', ''cognition''), (''view'', ''keeper''), (''focus'', ''bdi'')] Covered"
    and ?ps = "[(''mode'', '' Cognition''), (''panel'', ''Keeper/BDI''), (''view'', ''other'')]"
  have e: "?e \<in> set COCKPIT_ENTRYPOINTS" by (simp add: COCKPIT_ENTRYPOINTS_def)
  have a: "''keeper-bdi'' \<in> set (ce_aliases ?e)" by (simp add: entry_def)
  have m: "normalizeCockpitMode (first_param [''mode'', ''plane''] ?ps) = Some (ce_mode ?e)" by code_simp
  have p: "cockpitEntryParam ?ps = Some ''Keeper/BDI''" by code_simp
  have n: "normalizeCockpitEntrypoint ''Keeper/BDI'' = normalizeCockpitEntrypoint ''keeper-bdi''" by code_simp
  show ?thesis using cockpit_entry_lands[OF e a m p n] by (simp add: entry_def)
qed

end
