(* ===== verification/Dashboard_Parse.thy ===== *)
theory Dashboard_Parse
  imports Js_Text
begin

text \<open>
  \<open>src/dashboard-ws-parse.ts\<close>: the payloads of a websocket message, which is a JSON text or a text of server-sent
  events. \<open>JSON.parse\<close> is the argument \<open>parse\<close>, \<open>None\<close> when it throws; nothing is assumed about it.
\<close>

section \<open>JSON values and the reads the code makes of them\<close>

datatype json = J_null | J_bool bool | J_num rat | J_str string | J_arr "json list" | J_obj "(string \<times> json) list"

text \<open>\<open>undefined\<close> is \<open>None\<close>. A property of \<open>undefined\<close> and of \<open>null\<close> cannot be read: a \<open>TypeError\<close>, \<open>Inl\<close>.\<close>

fun js_get :: "string \<Rightarrow> json option \<Rightarrow> unit + json option" where
  "js_get k None = Inl ()"
| "js_get k (Some J_null) = Inl ()"
| "js_get k (Some (J_obj kvs)) = Inr (map_of kvs k)"
| "js_get k (Some _) = Inr None"

fun truthy :: "json option \<Rightarrow> bool" where
  "truthy None = False"
| "truthy (Some J_null) = False"
| "truthy (Some (J_bool b)) = b"
| "truthy (Some (J_num n)) = (n \<noteq> 0)"
| "truthy (Some (J_str s)) = (s \<noteq> '''')"
| "truthy (Some _) = True"

fun is_object :: "json option \<Rightarrow> bool" where
  "is_object (Some (J_obj _)) = True"
| "is_object (Some (J_arr _)) = True"
| "is_object (Some J_null) = True"
| "is_object _ = False"

text \<open>\<open>Object.entries\<close> of an object or an array; an object is the list of its entries in the order of enumeration.\<close>

fun js_entries :: "json \<Rightarrow> (string \<times> json) list" where
  "js_entries (J_obj kvs) = kvs"
| "js_entries (J_arr vs) = zip (map show_nat [0..<length vs]) vs"
| "js_entries _ = []"

section \<open>Server-sent events\<close>

abbreviation LF :: char where "LF \<equiv> CHR 0x0A"
abbreviation CR :: char where "CR \<equiv> CHR 0x0D"

text \<open>How much of the text a match of \<open>/\r?\n/\<close>, and of \<open>/\r?\n\r?\n/\<close>, at its start takes; 0 when there is none.\<close>

fun line_break :: "string \<Rightarrow> nat" where
  "line_break (c # d # s) = (if c = LF then 1 else if c = CR \<and> d = LF then 2 else 0)"
| "line_break [c] = (if c = LF then 1 else 0)"
| "line_break [] = 0"

definition blank_break :: "string \<Rightarrow> nat" where
  "blank_break s =
     (let a = line_break s; b = line_break (drop a s) in if a = 0 \<or> b = 0 then 0 else a + b)"

text \<open>\<open>data.split(regex)\<close> for an expression that matches no empty text.\<close>

fun split_by :: "(string \<Rightarrow> nat) \<Rightarrow> string \<Rightarrow> string list" where
  "split_by m [] = [[]]"
| "split_by m (c # cs) =
     (if 0 < m (c # cs) then [] # split_by m (drop (m (c # cs) - 1) cs)
      else case split_by m cs of [] \<Rightarrow> [[c]] | y # ys \<Rightarrow> (c # y) # ys)"

definition data_line :: "string \<Rightarrow> string option" where
  "data_line line =
     (if \<not> starts_with line ''data:'' then None
      else let value = drop (length ''data:'') line
           in Some (if starts_with value '' '' then drop 1 value else value))"

definition frame_body :: "string \<Rightarrow> string option" where
  "frame_body frame =
     (let dataLines = List.map_filter data_line (split_by line_break frame);
          body = trim (join [LF] dataLines)
      in if dataLines = [] \<or> body = '''' \<or> body = ''[DONE]'' then None else Some body)"

definition parse_frame :: "(string \<Rightarrow> 'v option) \<Rightarrow> string \<Rightarrow> 'v option" where
  "parse_frame parse frame = (case frame_body frame of None \<Rightarrow> None | Some body \<Rightarrow> parse body)"

definition parseWebSocketSseFrames :: "(string \<Rightarrow> 'v option) \<Rightarrow> string \<Rightarrow> 'v list" where
  "parseWebSocketSseFrames parse data = List.map_filter (parse_frame parse) (split_by blank_break data)"

definition parseIncomingPayloads :: "(string \<Rightarrow> 'v option) \<Rightarrow> string \<Rightarrow> 'v list" where
  "parseIncomingPayloads parse data =
     (case parse data of Some v \<Rightarrow> [v] | None \<Rightarrow> parseWebSocketSseFrames parse data)"

section \<open>Reading back what a server writes\<close>

text \<open>An event stream: each body in a frame of its own, a \<open>data\<close> line per line of it, with one kind of line end.\<close>

definition as_data :: "string \<Rightarrow> string" where
  "as_data l = ''data: '' @ l"

definition sse_frame :: "string \<Rightarrow> string \<Rightarrow> string" where
  "sse_frame eol body = join eol (map as_data (split_on LF body)) @ eol @ eol"

definition eols :: "string set" where
  "eols = {[LF], [CR, LF]}"

definition plain :: "string \<Rightarrow> bool" where
  "plain l \<longleftrightarrow> l \<noteq> [] \<and> LF \<notin> set l \<and> CR \<notin> set l"

definition attach :: "string \<Rightarrow> string list \<Rightarrow> string list" where
  "attach l ys = (case ys of [] \<Rightarrow> [l] | z # zs \<Rightarrow> (l @ z) # zs)"

lemma attach_simps [simp]: "attach l (z # zs) = (l @ z) # zs" "attach a (attach b ys) = attach (a @ b) ys"
  by (auto simp: attach_def split: list.splits)

lemma split_by_miss: "m (c # cs) = 0 \<Longrightarrow> split_by m (c # cs) = attach [c] (split_by m cs)"
  by (auto simp: attach_def split: list.splits)

lemma split_by_hit: "0 < m s \<Longrightarrow> m s = length sep \<Longrightarrow> s = sep @ rest \<Longrightarrow> split_by m s = [] # split_by m rest"
  by (cases sep) auto

lemma no_break [simp]: "c \<noteq> LF \<Longrightarrow> c \<noteq> CR \<Longrightarrow> line_break (c # s) = 0"
  by (cases s) auto

lemma no_blank [simp]: "line_break s = 0 \<Longrightarrow> blank_break s = 0"
  by (simp add: blank_break_def Let_def)

lemma break_at_eol: "e \<in> eols \<Longrightarrow> line_break (e @ s) = length e"
  by (cases s) (auto simp: eols_def)

lemma blank_at_eol: "e \<in> eols \<Longrightarrow> blank_break (e @ e @ s) = 2 * length e"
  by (simp add: blank_break_def break_at_eol) (auto simp: eols_def)

lemma split_by_plain:
  assumes "LF \<notin> set l" "CR \<notin> set l" "\<And>c s. c \<noteq> LF \<Longrightarrow> c \<noteq> CR \<Longrightarrow> m (c # s) = 0"
  shows "l \<noteq> [] \<Longrightarrow> split_by m (l @ rest) = attach l (split_by m rest)"
  using assms(1,2)
proof (induction l)
  case (Cons c l)
  then have "split_by m (c # l @ rest) = attach [c] (split_by m (l @ rest))"
    by (intro split_by_miss assms(3)) auto
  with Cons show ?case by (cases l) simp_all
qed simp

lemma split_by_eol:
  assumes "e \<in> eols" and "plain l"
  shows "split_by blank_break (e @ l @ rest) = attach e (split_by blank_break (l @ rest))"
proof -
  obtain c s where l: "l = c # s" and c: "c \<noteq> LF" "c \<noteq> CR" using assms(2) by (cases l) (auto simp: plain_def)
  have b: "blank_break (LF # c # x) = 0" "blank_break (CR # LF # c # x) = 0" for x
    using c by (simp_all add: blank_break_def Let_def)
  show ?thesis using assms(1) b unfolding eols_def l by (auto simp: split_by_miss simp del: split_by.simps(2))
qed

lemma split_frames:
  assumes "e \<in> eols"
  shows "ls \<noteq> [] \<Longrightarrow> \<forall>l\<in>set ls. plain l \<Longrightarrow>
     split_by blank_break (join e ls @ e @ e @ rest) = join e ls # split_by blank_break rest"
proof (induction ls)
  case (Cons l ls)
  have l: "split_by blank_break (l @ x) = attach l (split_by blank_break x)" for x
    using Cons.prems by (intro split_by_plain) (auto simp: plain_def)
  show ?case
  proof (cases ls)
    case Nil
    have "split_by blank_break (e @ e @ rest) = [] # split_by blank_break rest"
      using assms by (intro split_by_hit[of _ _ "e @ e"]) (auto simp: blank_at_eol eols_def)
    then show ?thesis using l[of "e @ e @ rest"] Nil by simp
  next
    case (Cons k ks)
    have k: "plain k" using Cons.prems Cons by simp
    obtain t where t: "join e (k # ks) = k @ t" by (cases ks) auto
    have "split_by blank_break (e @ k @ t @ e @ e @ rest) = attach e (split_by blank_break (k @ t @ e @ e @ rest))"
      by (rule split_by_eol[OF assms k])
    with l[of "e @ k @ t @ e @ e @ rest"] Cons.IH Cons Cons.prems t show ?thesis by simp
  qed
qed simp

lemma split_lines:
  assumes "e \<in> eols"
  shows "ls \<noteq> [] \<Longrightarrow> \<forall>l\<in>set ls. plain l \<Longrightarrow> split_by line_break (join e ls) = ls"
proof (induction ls)
  case (Cons l ls)
  have l: "split_by line_break (l @ x) = attach l (split_by line_break x)" for x
    using Cons.prems by (intro split_by_plain) (auto simp: plain_def)
  show ?case
  proof (cases ls)
    case Nil
    then show ?thesis using l[of "[]"] by simp
  next
    case (Cons k ks)
    have "split_by line_break (e @ join e ls) = [] # split_by line_break (join e ls)"
      using assms by (intro split_by_hit[of _ _ e]) (auto simp: break_at_eol eols_def)
    with l[of "e @ join e ls"] Cons.IH Cons Cons.prems show ?thesis by simp
  qed
qed simp

lemma map_filter_data: "List.map_filter data_line (map as_data ls) = ls"
  by (simp add: List.map_filter_def comp_def data_line_def starts_with_def as_data_def)

definition sse_body :: "string \<Rightarrow> bool" where
  "sse_body b \<longleftrightarrow> trim b = b \<and> b \<noteq> [] \<and> b \<noteq> ''[DONE]'' \<and> CR \<notin> set b"

lemma set_split_on: "x \<in> set (split_on c s) \<Longrightarrow> c \<notin> set x \<and> set x \<subseteq> set s"
proof (induction s arbitrary: x)
  case (Cons a s)
  then show ?case by (cases "split_on c s") (force split: if_splits)+
qed simp

lemma frame_lines_plain: "CR \<notin> set b \<Longrightarrow> l \<in> set (map as_data (split_on LF b)) \<Longrightarrow> plain l"
  using set_split_on[of _ LF b] by (fastforce simp: plain_def as_data_def)

lemma frame_body_frame:
  assumes "e \<in> eols" and "sse_body b"
  shows "frame_body (join e (map as_data (split_on LF b))) = Some b"
proof -
  have "split_by line_break (join e (map as_data (split_on LF b))) = map as_data (split_on LF b)"
    using assms frame_lines_plain[of b] by (intro split_lines) (auto simp: sse_body_def)
  then show ?thesis
    using assms(2) unfolding frame_body_def by (simp add: map_filter_data join_split_on sse_body_def Let_def)
qed

lemma frame_body_done: "frame_body (as_data ''[DONE]'') = None"
proof -
  have "split_by line_break (join [LF] [as_data ''[DONE]'']) = [as_data ''[DONE]'']"
    by (rule split_lines) (auto simp: eols_def plain_def as_data_def)
  moreover have "List.map_filter data_line [as_data ''[DONE]''] = [''[DONE]'']"
    using map_filter_data[of "[''[DONE]'']"] by simp
  ultimately show ?thesis
    by (simp add: frame_body_def trim_no_space is_space_def del: map_filter_simps)
qed

text \<open>C37: Event by event what a server writes is read back: for bodies that are not empty, have no white space at either end
  and no carriage return, as serialised JSON is, in a text that holds each body as a frame of \<open>data\<close>
  lines, one per line of the body and ended by line feeds or by carriage returns and line feeds, with any number of
  \<open>[DONE]\<close> frames among them, the payloads found are the JSON values of the bodies in their order, and a body that is
  no JSON is skipped without a trace on its neighbours.\<close>

theorem sse_frames_roundtrip:
  assumes "\<forall>f\<in>set frames. fst f \<in> eols \<and> (sse_body (snd f) \<or> snd f = ''[DONE]'')"
  shows "parseWebSocketSseFrames parse (concat (map (\<lambda>f. sse_frame (fst f) (snd f)) frames)) =
         List.map_filter parse (filter (\<lambda>b. b \<noteq> ''[DONE]'') (map snd frames))"
  using assms
proof (induction frames)
  case Nil
  show ?case by (simp add: parseWebSocketSseFrames_def map_filter_simps parse_frame_def frame_body_def data_line_def starts_with_def)
next
  case (Cons f frames)
  obtain e b where f: "f = (e, b)" by fastforce
  let ?ls = "map as_data (split_on LF b)"
  let ?rest = "concat (map (\<lambda>f. sse_frame (fst f) (snd f)) frames)"
  have e: "e \<in> eols" and b: "sse_body b \<or> b = ''[DONE]''" using Cons.prems f by auto
  have plain: "\<forall>l\<in>set ?ls. plain l" using b frame_lines_plain[of b] by (auto simp: sse_body_def)
  have "split_by blank_break (join e ?ls @ e @ e @ ?rest) = join e ?ls # split_by blank_break ?rest"
    using e plain by (intro split_frames) auto
  then have split: "split_by blank_break (sse_frame e b @ ?rest) = join e ?ls # split_by blank_break ?rest"
    by (simp add: sse_frame_def)
  have body: "parse_frame parse (join e ?ls) = (if b = ''[DONE]'' then None else parse b)"
  proof (cases "b = ''[DONE]''")
    case True
    then show ?thesis by (simp add: parse_frame_def frame_body_done)
  next
    case False
    with b show ?thesis using frame_body_frame[OF e, of b] by (simp add: parse_frame_def)
  qed
  show ?case
    using Cons split body f
    by (simp add: parseWebSocketSseFrames_def map_filter_simps split: option.splits)
qed

lemma sse_frames_roundtrip_witness:
  "parseWebSocketSseFrames (\<lambda>s. if s = ''no'' then None else Some s)
     (sse_frame [LF] ''1'' @ sse_frame [CR, LF] ''[DONE]'' @ sse_frame [LF] ''no'' @ sse_frame [CR, LF] [CHR ''a'', LF, CHR ''b'']) =
   [''1'', [CHR ''a'', LF, CHR ''b'']]"
proof -
  let ?frames = "[([LF], ''1''), ([CR, LF], ''[DONE]''), ([LF], ''no''), ([CR, LF], [CHR ''a'', LF, CHR ''b''])]"
  have "\<forall>f\<in>set ?frames. fst f \<in> eols \<and> (sse_body (snd f) \<or> snd f = ''[DONE]'')"
    by (simp add: eols_def sse_body_def trim_def is_space_def)
  from sse_frames_roundtrip[OF this, of "\<lambda>s. if s = ''no'' then None else Some s"]
  show ?thesis by (simp add: List.map_filter_def)
qed

end
