(* ===== verification/Dashboard_Ws.thy ===== *)
theory Dashboard_Ws
  imports Dashboard_Routes Dashboard_Parse Contracts "HOL-Library.Log_Nat"
begin

text \<open>
  The websocket client of the dashboard, \<open>src/dashboard-ws.ts\<close>, with the signals of \<open>dashboard-ws-state.ts\<close>.
  The module variables are one record. Sockets and workers, which event handlers hold by reference, live in lists and
  are named by their position. What happens outside the calls of the module is an operation of its own, possible at any time:
  a discovery is answered, a socket opens, delivers, fails, starts closing or closes, a timer fires, the worker answers,
  a frame is drawn. The callbacks of settled promises wait in \<open>ws_micro\<close> and run one at a time, oldest first; the
  engine drains them before the next event, but no property here needs that.
\<close>

section \<open>Constants and data\<close>

definition RECONNECT_MAX_MS :: nat where "RECONNECT_MAX_MS = 60000"
definition RECONNECT_JITTER_MS :: nat where "RECONNECT_JITTER_MS = 1000"
definition WS_RECONNECT_BASE_MS :: nat where "WS_RECONNECT_BASE_MS = 500"

text \<open>The quotient of the two constants is exact.\<close>

definition WS_RECONNECT_MAX_EXP :: nat where
  "WS_RECONNECT_MAX_EXP = max 1 (ceillog2 (RECONNECT_MAX_MS div WS_RECONNECT_BASE_MS))"

lemma max_exp: "WS_RECONNECT_MAX_EXP = 7"
proof -
  have "ceillog2 120 \<le> 7" "7 \<le> ceillog2 120" by (simp_all add: ceillog2_le_iff ceillog2_ge_iff)
  then show ?thesis by (simp add: WS_RECONNECT_MAX_EXP_def RECONNECT_MAX_MS_def WS_RECONNECT_BASE_MS_def)
qed

definition WINDOW_MS :: int where "WINDOW_MS = 60000"

datatype ready_state = CONNECTING | OPEN | CLOSING | CLOSED

record wsocket =
  wk_ready :: ready_state
  wk_attached :: bool

text \<open>Who awaits an RPC: the greeting of a socket, or a subscription, itself awaited by the application or by a greeting.\<close>

datatype caller = From_app | From_hello nat
datatype rpc = Rpc_hello nat | Rpc_subscribe string caller
datatype micro = Hello_ok nat | Failed nat string | Subscribed string caller "json option" | Subscribe_failed string caller string

record worker =
  wo_alive :: bool
  wo_inbox :: "(nat \<times> string) list"

record dws =
  ws_socket :: "nat option"
  ws_sockets :: "wsocket list"
  ws_rpcId :: nat
  ws_reconnectTimer :: "rat option"
  ws_reconnectAttempts :: nat
  ws_lastSubscribeKey :: string
  ws_desired :: "route_state option"
  ws_shouldReconnect :: bool
  ws_generation :: nat
  ws_pending :: "(nat, rpc) jsmap"
  ws_inbound :: "json list"
  ws_flushing :: bool
  ws_worker :: "nat option"
  ws_workers :: "worker list"
  ws_jobId :: nat
  ws_jobs :: "(nat, string) jsmap"
  ws_connected :: bool
  ws_ready :: bool
  ws_lastError :: "string option"
  ws_lastSeq :: rat
  ws_eventTimes :: "int list"
  ws_lastEventAt :: int
  ws_discovering :: "nat list"
  ws_micro :: "micro list"

definition dws_init :: dws where
  "dws_init = \<lparr>ws_socket = None, ws_sockets = [], ws_rpcId = 0, ws_reconnectTimer = None, ws_reconnectAttempts = 0,
     ws_lastSubscribeKey = '''', ws_desired = None, ws_shouldReconnect = True, ws_generation = 0, ws_pending = [],
     ws_inbound = [], ws_flushing = False, ws_worker = None, ws_workers = [], ws_jobId = 0, ws_jobs = [],
     ws_connected = False, ws_ready = False, ws_lastError = None, ws_lastSeq = 0, ws_eventTimes = [], ws_lastEventAt = 0,
     ws_discovering = [], ws_micro = []\<rparr>"

text \<open>What the module does to the outside, in order.\<close>

datatype ws_event =
    Discover nat | Opened nat string | Socket_sent nat json | Rpc_settled nat
  | Hydrate string "json option" "string option" | Push json | App_rejected string | Uncaught

text \<open>
  What the outside is at the moment of an operation: whether the engine has websockets and workers, which addresses
  \<open>new WebSocket\<close> takes, whether \<open>send\<close> and \<open>postMessage\<close> throw, the clock, \<open>Math.random\<close>, the stored token, the
  socket's buffer, \<open>JSON.parse\<close>, the schema check of a pushed event, and on which calls the stores throw.
\<close>

record ws_env =
  en_webSocket :: bool
  en_workers :: bool
  en_url_ok :: "string \<Rightarrow> bool"
  en_send :: "string option"
  en_post_ok :: bool
  en_now :: int
  en_random :: rat
  en_token :: "string option"
  en_buffered :: rat
  en_parse :: "string \<Rightarrow> json option"
  en_schema :: "json \<Rightarrow> json option"
  en_throws :: "ws_event \<Rightarrow> bool"

section \<open>Remote calls\<close>

fun resolve_rpc :: "rpc \<Rightarrow> json option \<Rightarrow> micro" where
  "resolve_rpc (Rpc_hello n) r = Hello_ok n"
| "resolve_rpc (Rpc_subscribe key c) r = Subscribed key c r"

fun reject_rpc :: "rpc \<Rightarrow> string \<Rightarrow> micro" where
  "reject_rpc (Rpc_hello n) err = Failed n err"
| "reject_rpc (Rpc_subscribe key c) err = Subscribe_failed key c err"

fun rpc_method :: "rpc \<Rightarrow> string" where
  "rpc_method (Rpc_hello n) = ''dashboard/hello''"
| "rpc_method (Rpc_subscribe key c) = ''dashboard/subscribe''"

definition enqueue :: "micro list \<Rightarrow> dws \<Rightarrow> dws" where
  "enqueue ms s = s\<lparr>ws_micro := ws_micro s @ ms\<rparr>"

definition open_socket :: "dws \<Rightarrow> nat option" where
  "open_socket s = (case ws_socket s of None \<Rightarrow> None | Some n \<Rightarrow> if wk_ready (ws_sockets s ! n) = OPEN then Some n else None)"

definition rejectPendingRpcs :: "string \<Rightarrow> dws \<Rightarrow> dws \<times> ws_event list" where
  "rejectPendingRpcs err s =
     (enqueue (map (\<lambda>p. reject_rpc (snd p) err) (ws_pending s)) (s\<lparr>ws_pending := []\<rparr>), map Rpc_settled (map_keys (ws_pending s)))"

definition rpc_payload :: "nat \<Rightarrow> string \<Rightarrow> json \<Rightarrow> json" where
  "rpc_payload k meth params =
     J_obj [(''jsonrpc'', J_str ''2.0''), (''id'', J_num (of_nat k)), (''method'', J_str meth), (''params'', params)]"

definition sendRpc :: "ws_env \<Rightarrow> rpc \<Rightarrow> json \<Rightarrow> dws \<Rightarrow> dws \<times> ws_event list" where
  "sendRpc env r params s =
     (case open_socket s of
        None \<Rightarrow> (enqueue [reject_rpc r ''dashboard websocket is not open''] s, [])
      | Some n \<Rightarrow>
          (let k = ws_rpcId s + 1; s1 = s\<lparr>ws_rpcId := k, ws_pending := map_set k r (ws_pending s)\<rparr>
           in case en_send env of
                None \<Rightarrow> (s1, [Socket_sent n (rpc_payload k (rpc_method r) params)])
              | Some err \<Rightarrow> (enqueue [reject_rpc r err] (s1\<lparr>ws_pending := map_del k (ws_pending s1)\<rparr>), [Rpc_settled k])))"

definition rpc_timeout :: "nat \<Rightarrow> dws \<Rightarrow> dws \<times> ws_event list" where
  "rpc_timeout k s =
     (case map_get (ws_pending s) k of
        None \<Rightarrow> (s, [])
      | Some r \<Rightarrow> (enqueue [reject_rpc r (''dashboard websocket rpc timed out: '' @ rpc_method r)] (s\<lparr>ws_pending := map_del k (ws_pending s)\<rparr>),
                   [Rpc_settled k]))"

definition sendNotification :: "ws_env \<Rightarrow> string \<Rightarrow> json \<Rightarrow> dws \<Rightarrow> ws_event list" where
  "sendNotification env meth params s =
     (case open_socket s of
        None \<Rightarrow> []
      | Some n \<Rightarrow>
          (case en_send env of
             None \<Rightarrow> [Socket_sent n (J_obj [(''jsonrpc'', J_str ''2.0''), (''method'', J_str meth), (''params'', params)])]
           | Some err \<Rightarrow> []))"

text \<open>\<open>None\<close> when the message is not a response; a response to a call that is settled already is dropped.\<close>

definition pending_id :: "dws \<Rightarrow> rat \<Rightarrow> nat option" where
  "pending_id s n = List.find (\<lambda>k. of_nat k = n) (map_keys (ws_pending s))"

definition error_text :: "json option \<Rightarrow> string" where
  "error_text error =
     (case js_get ''message'' error of Inr (Some (J_str m)) \<Rightarrow> m | _ \<Rightarrow> ''dashboard websocket rpc failed'')"

definition field :: "string \<Rightarrow> json \<Rightarrow> json option" where
  "field k v = (case js_get k (Some v) of Inl _ \<Rightarrow> None | Inr x \<Rightarrow> x)"

definition handleRpcResponse :: "json \<Rightarrow> dws \<Rightarrow> (dws \<times> ws_event list) option" where
  "handleRpcResponse raw s =
     (case field ''id'' raw of
        Some (J_num n) \<Rightarrow>
          (case pending_id s n of
             None \<Rightarrow> Some (s, [])
           | Some k \<Rightarrow>
               (let r = the (map_get (ws_pending s) k); error = field ''error'' raw
                in Some (enqueue [if truthy error then reject_rpc r (error_text error) else resolve_rpc r (field ''result'' raw)]
                           (s\<lparr>ws_pending := map_del k (ws_pending s)\<rparr>), [Rpc_settled k])))
      | _ \<Rightarrow> None)"

section \<open>Inbound messages\<close>

text \<open>A handler that may throw: the next state, the effects, and whether it threw.\<close>

type_synonym attempt = "dws \<times> ws_event list \<times> bool"

definition store_call :: "ws_env \<Rightarrow> ws_event \<Rightarrow> ws_event list \<times> bool" where
  "store_call env e = ([e], en_throws env e)"

definition activeRouteWantsDashboardSlice :: "dws \<Rightarrow> string \<Rightarrow> bool" where
  "activeRouteWantsDashboardSlice s sl =
     (case ws_desired s of None \<Rightarrow> True | Some r \<Rightarrow> sl \<in> set (dashboardSlicesForRoute r))"

definition hydrateRouteDashboardSlice :: "ws_env \<Rightarrow> string \<Rightarrow> json option \<Rightarrow> string option \<Rightarrow> dws \<Rightarrow> ws_event list \<times> bool" where
  "hydrateRouteDashboardSlice env sl payload eventType s =
     (if \<not> activeRouteWantsDashboardSlice s sl then ([], False) else store_call env (Hydrate sl payload eventType))"

fun hydrate_all :: "ws_env \<Rightarrow> (string \<times> json) list \<Rightarrow> dws \<Rightarrow> ws_event list \<times> bool" where
  "hydrate_all env [] s = ([], False)"
| "hydrate_all env ((sl, payload) # kvs) s =
     (let (e1, threw) = hydrateRouteDashboardSlice env sl (Some payload) None s
      in if threw then (e1, True) else (let (e2, t2) = hydrate_all env kvs s in (e1 @ e2, t2)))"

definition note_seq :: "json option \<Rightarrow> dws \<Rightarrow> dws" where
  "note_seq q s = (case q of Some (J_num n) \<Rightarrow> s\<lparr>ws_lastSeq := n\<rparr> | _ \<Rightarrow> s)"

definition applySnapshot :: "ws_env \<Rightarrow> json option \<Rightarrow> dws \<Rightarrow> attempt" where
  "applySnapshot env raw s =
     (case js_get ''seq'' raw of
        Inl _ \<Rightarrow> (s, [], True)
      | Inr q \<Rightarrow>
          (let s1 = note_seq q s; slices = field ''slices'' (the raw)
           in if \<not> truthy slices \<or> \<not> is_object slices then (s1, [], False)
              else (s1, hydrate_all env (js_entries (the slices)) s1)))"

definition applySubscribeResult :: "ws_env \<Rightarrow> json option \<Rightarrow> dws \<Rightarrow> attempt" where
  "applySubscribeResult env raw s =
     (case js_get ''snapshot'' raw of
        Inl _ \<Rightarrow> (s, [], True)
      | Inr snap \<Rightarrow> if truthy snap then applySnapshot env snap s else (s, [], False))"

definition noteDashboardWsEvent :: "int \<Rightarrow> dws \<Rightarrow> dws" where
  "noteDashboardWsEvent now s =
     s\<lparr>ws_eventTimes := dropWhile (\<lambda>t. t < now - WINDOW_MS) (ws_eventTimes s @ [now]), ws_lastEventAt := now\<rparr>"

definition dashboardWsEventCount60s :: "dws \<Rightarrow> nat" where
  "dashboardWsEventCount60s s = length (ws_eventTimes s)"

definition ack_events :: "ws_env \<Rightarrow> json option \<Rightarrow> dws \<Rightarrow> ws_event list" where
  "ack_events env q s =
     (case q of
        Some (J_num n) \<Rightarrow> sendNotification env ''dashboard/ack'' (J_obj [(''seq'', J_num n), (''bufferedAmount'', J_num (en_buffered env))]) s
      | _ \<Rightarrow> [])"

definition applyDelta :: "ws_env \<Rightarrow> json option \<Rightarrow> dws \<Rightarrow> attempt" where
  "applyDelta env raw s =
     (case js_get ''seq'' raw of
        Inl _ \<Rightarrow> (s, [], True)
      | Inr q \<Rightarrow>
          (let acks = ack_events env q s; s1 = noteDashboardWsEvent (en_now env) (note_seq q s)
           in case field ''slice'' (the raw) of
                Some (J_str sl) \<Rightarrow>
                  (let (es, threw) = hydrateRouteDashboardSlice env sl (field ''payload'' (the raw))
                         (case field ''event_type'' (the raw) of Some (J_str t) \<Rightarrow> Some t | _ \<Rightarrow> None) s1
                   in (s1, acks @ es, threw))
              | _ \<Rightarrow> (s1, acks, False)))"

definition handleNotification :: "ws_env \<Rightarrow> json \<Rightarrow> dws \<Rightarrow> attempt option" where
  "handleNotification env raw s =
     (if field ''method'' raw = Some (J_str ''dashboard/delta'') then Some (applyDelta env (field ''params'' raw) s)
      else if field ''method'' raw = Some (J_str ''dashboard/snapshot'') then Some (applySnapshot env (field ''params'' raw) s)
      else None)"

definition unwrapSseCandidate :: "json \<Rightarrow> json" where
  "unwrapSseCandidate raw =
     (let params = field ''params'' raw
      in case params of
           None \<Rightarrow> raw
         | Some p \<Rightarrow> if truthy (field ''jsonrpc'' raw) \<and> truthy (field ''type'' p) then p else raw)"

definition is_record :: "json \<Rightarrow> bool" where
  "is_record raw \<longleftrightarrow> truthy (Some raw) \<and> is_object (Some raw)"

definition handleRawPush :: "ws_env \<Rightarrow> json \<Rightarrow> ws_event list \<times> bool" where
  "handleRawPush env raw =
     (if \<not> is_record raw then ([], False)
      else case en_schema env (unwrapSseCandidate raw) of
             None \<Rightarrow> ([], False)
           | Some parsed \<Rightarrow> store_call env (Push parsed))"

fun push_all :: "ws_env \<Rightarrow> json list \<Rightarrow> ws_event list \<times> bool" where
  "push_all env [] = ([], False)"
| "push_all env (v # vs) =
     (let (e1, threw) = handleRawPush env v
      in if threw then (e1, True) else (let (e2, t2) = push_all env vs in (e1 @ e2, t2)))"

definition processInboundParsedMessage :: "ws_env \<Rightarrow> json \<Rightarrow> dws \<Rightarrow> attempt" where
  "processInboundParsedMessage env raw s =
     (if \<not> is_record raw then (s, [], False)
      else case handleRpcResponse raw s of
             Some (s1, es) \<Rightarrow> (s1, es, False)
           | None \<Rightarrow>
               (case handleNotification env raw s of
                  Some att \<Rightarrow> att
                | None \<Rightarrow> (s, handleRawPush env raw)))"

definition processInboundMessage :: "ws_env \<Rightarrow> string \<Rightarrow> dws \<Rightarrow> attempt" where
  "processInboundMessage env data s =
     (case en_parse env data of
        None \<Rightarrow> (s, push_all env (parseWebSocketSseFrames (en_parse env) data))
      | Some raw \<Rightarrow> processInboundParsedMessage env raw s)"

text \<open>The buffer holds texts and parsed values; a parsed value that is itself a text is taken for an unparsed one.\<close>

fun process_item :: "ws_env \<Rightarrow> json \<Rightarrow> dws \<Rightarrow> attempt" where
  "process_item env (J_str data) s = processInboundMessage env data s"
| "process_item env v s = processInboundParsedMessage env v s"

fun process_batch :: "ws_env \<Rightarrow> json list \<Rightarrow> dws \<Rightarrow> attempt" where
  "process_batch env [] s = (s, [], False)"
| "process_batch env (v # vs) s =
     (let (s1, e1, threw) = process_item env v s
      in if threw then (s1, e1, True) else (let (s2, e2, t2) = process_batch env vs s1 in (s2, e1 @ e2, t2)))"

definition ws_flushPending :: "ws_env \<Rightarrow> dws \<Rightarrow> dws \<times> ws_event list" where
  "ws_flushPending env s =
     (let (s1, es, threw) = process_batch env (ws_inbound s) (s\<lparr>ws_inbound := []\<rparr>)
      in (s1, es @ (if threw then [Uncaught] else [])))"

definition ws_scheduleFlush :: "dws \<Rightarrow> dws" where
  "ws_scheduleFlush s = s\<lparr>ws_flushing := True\<rparr>"

definition frame_fires :: "ws_env \<Rightarrow> dws \<Rightarrow> dws \<times> ws_event list" where
  "frame_fires env s = (if \<not> ws_flushing s then (s, []) else ws_flushPending env (s\<lparr>ws_flushing := False\<rparr>))"

definition flushPendingInbound :: "ws_env \<Rightarrow> dws \<Rightarrow> dws \<times> ws_event list" where
  "flushPendingInbound env s = ws_flushPending env (s\<lparr>ws_flushing := False\<rparr>)"

definition clearPendingInbound :: "dws \<Rightarrow> dws" where
  "clearPendingInbound s = s\<lparr>ws_inbound := [], ws_flushing := False\<rparr>"

section \<open>The parse worker\<close>

definition deliverParsedPayloads :: "json list \<Rightarrow> dws \<Rightarrow> dws" where
  "deliverParsedPayloads payloads s = ws_scheduleFlush (s\<lparr>ws_inbound := ws_inbound s @ payloads\<rparr>)"

definition fallbackParseWorkerJob :: "nat \<Rightarrow> dws \<Rightarrow> dws" where
  "fallbackParseWorkerJob j s =
     (case map_get (ws_jobs s) j of
        None \<Rightarrow> s
      | Some data \<Rightarrow> ws_scheduleFlush (s\<lparr>ws_jobs := map_del j (ws_jobs s), ws_inbound := ws_inbound s @ [J_str data]\<rparr>))"

definition fallbackAllParseWorkerJobs :: "dws \<Rightarrow> dws" where
  "fallbackAllParseWorkerJobs s =
     (let s1 = foldl (\<lambda>t j. fallbackParseWorkerJob j t) s (map_keys (ws_jobs s))
      in case ws_worker s1 of
           None \<Rightarrow> s1
         | Some w \<Rightarrow> s1\<lparr>ws_workers := (ws_workers s1)[w := (ws_workers s1 ! w)\<lparr>wo_alive := False\<rparr>], ws_worker := None\<rparr>)"

definition initParseWorker :: "ws_env \<Rightarrow> dws \<Rightarrow> dws" where
  "initParseWorker env s =
     (if ws_worker s \<noteq> None \<or> \<not> en_workers env then s
      else s\<lparr>ws_worker := Some (length (ws_workers s)), ws_workers := ws_workers s @ [\<lparr>wo_alive = True, wo_inbox = []\<rparr>]\<rparr>)"

definition post_job :: "nat \<Rightarrow> nat \<times> string \<Rightarrow> dws \<Rightarrow> dws" where
  "post_job w job s =
     s\<lparr>ws_workers := (ws_workers s)[w := (ws_workers s ! w)\<lparr>wo_inbox := wo_inbox (ws_workers s ! w) @ [job]\<rparr>]\<rparr>"

definition handleMessage :: "ws_env \<Rightarrow> string option \<Rightarrow> dws \<Rightarrow> dws" where
  "handleMessage env message s =
     (case message of
        None \<Rightarrow> s
      | Some data \<Rightarrow>
          (let s1 = initParseWorker env s
           in case ws_worker s1 of
                Some w \<Rightarrow>
                  (let j = ws_jobId s1 + 1; s2 = s1\<lparr>ws_jobId := j, ws_jobs := map_set j data (ws_jobs s1)\<rparr>
                   in if en_post_ok env then post_job w (j, data) s2
                      else (fallbackParseWorkerJob j s2)\<lparr>ws_worker := None\<rparr>)
              | None \<Rightarrow> ws_scheduleFlush (s1\<lparr>ws_inbound := ws_inbound s1 @ [J_str data]\<rparr>)))"

text \<open>The worker takes its oldest job and its answer arrives; a job that is settled already is dropped.\<close>

definition worker_replies :: "ws_env \<Rightarrow> nat \<Rightarrow> dws \<Rightarrow> dws" where
  "worker_replies env w s =
     (if w < length (ws_workers s) \<and> wo_alive (ws_workers s ! w) then
        (case wo_inbox (ws_workers s ! w) of
           [] \<Rightarrow> s
         | (j, data) # rest \<Rightarrow>
             (let s1 = s\<lparr>ws_workers := (ws_workers s)[w := (ws_workers s ! w)\<lparr>wo_inbox := rest\<rparr>]\<rparr>
              in case map_get (ws_jobs s1) j of
                   None \<Rightarrow> s1
                 | Some _ \<Rightarrow> deliverParsedPayloads (parseIncomingPayloads (en_parse env) data) (s1\<lparr>ws_jobs := map_del j (ws_jobs s1)\<rparr>)))
      else s)"

definition worker_fails :: "nat \<Rightarrow> dws \<Rightarrow> dws" where
  "worker_fails w s = (if w < length (ws_workers s) \<and> wo_alive (ws_workers s ! w) then fallbackAllParseWorkerJobs s else s)"

section \<open>The connection\<close>

definition rememberRouteState :: "route_state \<Rightarrow> dws \<Rightarrow> dws" where
  "rememberRouteState r s = s\<lparr>ws_desired := Some r\<rparr>"

definition reconnect_delay :: "nat \<Rightarrow> rat \<Rightarrow> rat" where
  "reconnect_delay attempts random =
     of_nat (min RECONNECT_MAX_MS (WS_RECONNECT_BASE_MS * 2 ^ min attempts WS_RECONNECT_MAX_EXP)) + random * of_nat RECONNECT_JITTER_MS"

definition scheduleReconnect :: "ws_env \<Rightarrow> dws \<Rightarrow> dws" where
  "scheduleReconnect env s =
     (if \<not> ws_shouldReconnect s then s
      else if ws_reconnectTimer s \<noteq> None then s
      else (let a = ws_reconnectAttempts s + 1
            in s\<lparr>ws_reconnectAttempts := a, ws_reconnectTimer := Some (reconnect_delay a (en_random env))\<rparr>))"

definition detach_close :: "wsocket \<Rightarrow> wsocket" where
  "detach_close k = \<lparr>wk_ready = (if wk_ready k \<in> {CONNECTING, OPEN} then CLOSING else wk_ready k), wk_attached = False\<rparr>"

definition drop_socket :: "dws \<Rightarrow> dws" where
  "drop_socket s =
     (case ws_socket s of
        None \<Rightarrow> s
      | Some n \<Rightarrow> s\<lparr>ws_sockets := (ws_sockets s)[n := detach_close (ws_sockets s ! n)], ws_socket := None\<rparr>)"

definition closeSocket :: "dws \<Rightarrow> dws \<times> ws_event list" where
  "closeSocket s = rejectPendingRpcs ''dashboard websocket closed'' (clearPendingInbound (drop_socket s))"

text \<open>The answer to the discovery request: it fails, it is no success, or it has a body.\<close>

datatype answer = Fetch_failed string | Not_ok | Body json

definition discoverWsUrl :: "answer \<Rightarrow> string + (string option \<times> bool)" where
  "discoverWsUrl a =
     (case a of
        Fetch_failed err \<Rightarrow> Inl err
      | Not_ok \<Rightarrow> Inr (None, True)
      | Body data \<Rightarrow>
          (case js_get ''enabled'' (Some data) of
             Inl _ \<Rightarrow> Inl ''TypeError''
           | Inr enabled \<Rightarrow>
               if enabled \<noteq> Some (J_bool True) then Inr (None, False)
               else (case field ''ws_url'' data of
                       Some (J_str url) \<Rightarrow> if field ''listening'' data = Some (J_bool True) then Inr (Some url, False) else Inr (None, True)
                     | _ \<Rightarrow> Inr (None, True))))"

definition set_error :: "string \<Rightarrow> dws \<Rightarrow> dws" where
  "set_error err s = s\<lparr>ws_lastError := Some err\<rparr>"

definition set_down :: "dws \<Rightarrow> dws" where
  "set_down s = s\<lparr>ws_connected := False, ws_ready := False\<rparr>"

definition reconnectAfterCurrentSocketFailure :: "ws_env \<Rightarrow> nat \<Rightarrow> string \<Rightarrow> dws \<Rightarrow> dws \<times> ws_event list" where
  "reconnectAfterCurrentSocketFailure env n err s =
     (if ws_socket s \<noteq> Some n then (s, [])
      else and_then (closeSocket ((set_error err (set_down s))\<lparr>ws_lastSubscribeKey := ''''\<rparr>)) (\<lambda>t. (scheduleReconnect env t, [])))"

definition subscribe_key :: "route_state \<Rightarrow> string" where
  "subscribe_key r = routeKey r @ ''|'' @ join '','' (dashboardSlicesForRoute r)"

definition subscribe_params :: "route_state \<Rightarrow> json" where
  "subscribe_params r = J_obj [(''route'', J_str (routeKey r)), (''slices'', J_arr (map J_str (dashboardSlicesForRoute r)))]"

definition subscribeDashboardRoute :: "ws_env \<Rightarrow> route_state \<Rightarrow> caller \<Rightarrow> dws \<Rightarrow> dws \<times> ws_event list" where
  "subscribeDashboardRoute env r c s =
     (let s1 = rememberRouteState r s; key = subscribe_key r
      in if \<not> ws_ready s1 then (s1, [])
         else if key = ws_lastSubscribeKey s1 then (s1, [])
         else sendRpc env (Rpc_subscribe key c) (subscribe_params r) (s1\<lparr>ws_lastSubscribeKey := key\<rparr>))"

text \<open>The \<open>catch\<close> of a subscription, and the rejection of its promise seen by the one who awaits it.\<close>

definition subscribe_failed :: "string \<Rightarrow> caller \<Rightarrow> string \<Rightarrow> dws \<Rightarrow> dws \<times> ws_event list" where
  "subscribe_failed key c err s =
     (let s1 = (if ws_lastSubscribeKey s = key then s\<lparr>ws_lastSubscribeKey := ''''\<rparr> else s)
      in case c of
           From_app \<Rightarrow> (s1, [App_rejected err])
         | From_hello n \<Rightarrow> (enqueue [Failed n err] s1, []))"

definition subscribe_settled :: "ws_env \<Rightarrow> string \<Rightarrow> caller \<Rightarrow> json option \<Rightarrow> dws \<Rightarrow> dws \<times> ws_event list" where
  "subscribe_settled env key c result s =
     (if ws_lastSubscribeKey s \<noteq> key then (s, [])
      else (let (s1, es, threw) = applySubscribeResult env result s
            in after es (if threw then subscribe_failed key c ''TypeError'' s1 else (s1, []))))"

definition hello_accepted :: "ws_env \<Rightarrow> nat \<Rightarrow> dws \<Rightarrow> dws \<times> ws_event list" where
  "hello_accepted env n s =
     (if ws_socket s \<noteq> Some n then (s, [])
      else (let s1 = s\<lparr>ws_ready := True, ws_lastError := None\<rparr>
            in case ws_desired s1 of
                 None \<Rightarrow> (s1, [])
               | Some r \<Rightarrow> subscribeDashboardRoute env r (From_hello n) s1))"

definition connectDashboardWS :: "ws_env \<Rightarrow> route_state option \<Rightarrow> dws \<Rightarrow> dws \<times> ws_event list" where
  "connectDashboardWS env ro s =
     (let s1 = (case ro of None \<Rightarrow> s | Some r \<Rightarrow> rememberRouteState r s)
      in if \<not> en_webSocket env then (s1, [])
         else if (case ws_socket s1 of None \<Rightarrow> False | Some n \<Rightarrow> wk_ready (ws_sockets s1 ! n) \<in> {OPEN, CONNECTING}) then (s1, [])
         else (let g = ws_generation s1 + 1
               in (s1\<lparr>ws_shouldReconnect := True, ws_reconnectTimer := None, ws_generation := g,
                      ws_discovering := ws_discovering s1 @ [g]\<rparr>, [Discover g])))"

definition open_new_socket :: "ws_env \<Rightarrow> string \<Rightarrow> dws \<Rightarrow> dws \<times> ws_event list" where
  "open_new_socket env url s =
     and_then (closeSocket s) (\<lambda>t.
       if \<not> en_url_ok env url then (t, [Uncaught])
       else (t\<lparr>ws_sockets := ws_sockets t @ [\<lparr>wk_ready = CONNECTING, wk_attached = True\<rparr>], ws_socket := Some (length (ws_sockets t))\<rparr>,
             [Opened (length (ws_sockets t)) url]))"

text \<open>The rest of \<open>connectDashboardWS\<close> after the discovery of generation \<open>g\<close> is answered.\<close>

definition discovered :: "ws_env \<Rightarrow> nat \<Rightarrow> answer \<Rightarrow> dws \<Rightarrow> dws \<times> ws_event list" where
  "discovered env g a s0 =
     (if g \<notin> set (ws_discovering s0) then (s0, [])
      else (let s = s0\<lparr>ws_discovering := remove1 g (ws_discovering s0)\<rparr>;
                current = (g = ws_generation s \<and> ws_shouldReconnect s)
            in case discoverWsUrl a of
                 Inl err \<Rightarrow> (if current then scheduleReconnect env (set_error err s) else s, [])
               | Inr (wsUrl, retry) \<Rightarrow>
                   if or_empty wsUrl = '''' then
                     (if current \<and> retry then scheduleReconnect env (set_error ''dashboard websocket unavailable'' s) else s, [])
                   else if \<not> current then (s, [])
                   else open_new_socket env (the wsUrl) s))"

definition hello_params :: "ws_env \<Rightarrow> json" where
  "hello_params env =
     J_obj ([(''protocol'', J_str ''dashboard-ws.v1'')] @ (case en_token env of None \<Rightarrow> [] | Some tk \<Rightarrow> [(''token'', J_str tk)]) @
            [(''features'', J_arr [J_str ''snapshot'', J_str ''delta'', J_str ''mode_snapshot''])])"

definition set_ready_state :: "nat \<Rightarrow> ready_state \<Rightarrow> dws \<Rightarrow> dws" where
  "set_ready_state n q s = s\<lparr>ws_sockets := (ws_sockets s)[n := (ws_sockets s ! n)\<lparr>wk_ready := q\<rparr>]\<rparr>"

definition hears :: "nat \<Rightarrow> dws \<Rightarrow> bool" where
  "hears n s \<longleftrightarrow> wk_attached (ws_sockets s ! n) \<and> ws_socket s = Some n"

text \<open>The browser's side of a socket: it changes the ready state and calls the handler, if one is attached.\<close>

definition socket_opens :: "ws_env \<Rightarrow> nat \<Rightarrow> dws \<Rightarrow> dws \<times> ws_event list" where
  "socket_opens env n s =
     (if n < length (ws_sockets s) \<and> wk_ready (ws_sockets s ! n) = CONNECTING then
        (let s1 = set_ready_state n OPEN s
         in if \<not> hears n s1 then (s1, [])
            else sendRpc env (Rpc_hello n) (hello_params env) (s1\<lparr>ws_connected := True, ws_reconnectAttempts := 0\<rparr>))
      else (s, []))"

definition socket_message :: "ws_env \<Rightarrow> nat \<Rightarrow> string option \<Rightarrow> dws \<Rightarrow> dws" where
  "socket_message env n message s =
     (if n < length (ws_sockets s) \<and> wk_ready (ws_sockets s ! n) = OPEN \<and> hears n s then handleMessage env message s else s)"

definition socket_error :: "nat \<Rightarrow> dws \<Rightarrow> dws" where
  "socket_error n s = (if n < length (ws_sockets s) \<and> hears n s then set_error ''dashboard websocket error'' s else s)"

definition socket_closing :: "nat \<Rightarrow> dws \<Rightarrow> dws" where
  "socket_closing n s =
     (if n < length (ws_sockets s) \<and> wk_ready (ws_sockets s ! n) \<in> {CONNECTING, OPEN} then set_ready_state n CLOSING s else s)"

record close_event =
  ce_code :: int
  ce_wasClean :: bool
  ce_reason :: string

definition formatCloseEventError :: "close_event \<Rightarrow> string" where
  "formatCloseEventError e =
     (let code = ''code='' @ show_int (ce_code e);
          clean = ''wasClean='' @ (if ce_wasClean e then ''true'' else ''false'');
          parts = (if ce_reason e = '''' then [code, clean] else [code, ''reason='' @ ce_reason e, clean])
      in ''dashboard websocket closed ('' @ join '', '' parts @ '')'')"

definition socket_closes :: "ws_env \<Rightarrow> nat \<Rightarrow> close_event \<Rightarrow> dws \<Rightarrow> dws \<times> ws_event list" where
  "socket_closes env n e s =
     (if n < length (ws_sockets s) \<and> wk_ready (ws_sockets s ! n) \<noteq> CLOSED then
        (let s1 = set_ready_state n CLOSED s; err = formatCloseEventError e
         in if \<not> hears n s1 then (s1, [])
            else and_then (rejectPendingRpcs err ((set_error err (set_down s1))\<lparr>ws_lastSubscribeKey := '''', ws_socket := None\<rparr>))
                   (\<lambda>t. (scheduleReconnect env t, [])))
      else (s, []))"

definition disconnectDashboardWS :: "dws \<Rightarrow> dws \<times> ws_event list" where
  "disconnectDashboardWS s =
     closeSocket ((set_down (s\<lparr>ws_shouldReconnect := False, ws_generation := ws_generation s + 1, ws_reconnectTimer := None\<rparr>))
       \<lparr>ws_lastSubscribeKey := '''', ws_desired := None\<rparr>)"

definition reconnect_fires :: "ws_env \<Rightarrow> dws \<Rightarrow> dws \<times> ws_event list" where
  "reconnect_fires env s =
     (if ws_reconnectTimer s = None then (s, []) else connectDashboardWS env None (s\<lparr>ws_reconnectTimer := None\<rparr>))"

fun run_micro :: "ws_env \<Rightarrow> micro \<Rightarrow> dws \<Rightarrow> dws \<times> ws_event list" where
  "run_micro env (Hello_ok n) s = hello_accepted env n s"
| "run_micro env (Failed n err) s = reconnectAfterCurrentSocketFailure env n err s"
| "run_micro env (Subscribed key c result) s = subscribe_settled env key c result s"
| "run_micro env (Subscribe_failed key c err) s = subscribe_failed key c err s"

definition microtask :: "ws_env \<Rightarrow> dws \<Rightarrow> dws \<times> ws_event list" where
  "microtask env s =
     (case ws_micro s of [] \<Rightarrow> (s, []) | m # ms \<Rightarrow> run_micro env m (s\<lparr>ws_micro := ms\<rparr>))"

datatype ws_op =
    Ws_connect "route_state option" | Ws_subscribe route_state | Ws_disconnect | Ws_flush
  | Ws_discovered nat answer | Ws_opens nat | Ws_message nat "string option" | Ws_error nat | Ws_closing nat | Ws_closes nat close_event
  | Ws_reconnect | Ws_rpc_timeout nat | Ws_job_timeout nat | Ws_worker_replies nat | Ws_worker_fails nat | Ws_frame | Ws_microtask

definition quietly :: "dws \<Rightarrow> dws \<times> ws_event list" where
  "quietly s = (s, [])"

fun ws_step :: "ws_env \<times> ws_op \<Rightarrow> dws \<Rightarrow> dws \<times> ws_event list" where
  "ws_step (env, Ws_connect ro) s = connectDashboardWS env ro s"
| "ws_step (env, Ws_subscribe r) s = subscribeDashboardRoute env r From_app s"
| "ws_step (env, Ws_disconnect) s = disconnectDashboardWS s"
| "ws_step (env, Ws_flush) s = flushPendingInbound env s"
| "ws_step (env, Ws_discovered g a) s = discovered env g a s"
| "ws_step (env, Ws_opens n) s = socket_opens env n s"
| "ws_step (env, Ws_message n message) s = quietly (socket_message env n message s)"
| "ws_step (env, Ws_error n) s = quietly (socket_error n s)"
| "ws_step (env, Ws_closing n) s = quietly (socket_closing n s)"
| "ws_step (env, Ws_closes n e) s = socket_closes env n e s"
| "ws_step (env, Ws_reconnect) s = reconnect_fires env s"
| "ws_step (env, Ws_rpc_timeout k) s = rpc_timeout k s"
| "ws_step (env, Ws_job_timeout j) s = quietly (fallbackParseWorkerJob j s)"
| "ws_step (env, Ws_worker_replies w) s = quietly (worker_replies env w s)"
| "ws_step (env, Ws_worker_fails w) s = quietly (worker_fails w s)"
| "ws_step (env, Ws_frame) s = frame_fires env s"
| "ws_step (env, Ws_microtask) s = microtask env s"

end
