(* ===== verification/Dashboard_Ws_Safety.thy ===== *)
theory Dashboard_Ws_Safety
  imports Dashboard_Ws
begin

text \<open>
  What holds of the websocket client along every run: one live socket at most, every remote call settled exactly once,
  silence after a disconnect, and no end to the attempts to reconnect until the server says that there is nothing
  to connect to.
\<close>

section \<open>The invariant\<close>

definition live :: "wsocket \<Rightarrow> bool" where
  "live k \<longleftrightarrow> wk_ready k = CONNECTING \<or> wk_ready k = OPEN"

definition sockets_wf :: "nat option \<Rightarrow> wsocket list \<Rightarrow> bool" where
  "sockets_wf cur socks \<longleftrightarrow>
     (\<forall>n<length socks. live (socks ! n) \<longrightarrow> cur = Some n) \<and>
     (\<forall>n. cur = Some n \<longrightarrow> n < length socks \<and> wk_attached (socks ! n))"

definition pending_ids :: "dws \<Rightarrow> nat list" where
  "pending_ids s = map_keys (ws_pending s)"

definition ids_wf :: "nat option \<Rightarrow> nat list \<Rightarrow> nat \<Rightarrow> bool" where
  "ids_wf cur ids bound \<longleftrightarrow> (cur = None \<longrightarrow> ids = []) \<and> distinct ids \<and> (\<forall>k\<in>set ids. k \<le> bound)"

definition generations_wf :: "nat list \<Rightarrow> nat \<Rightarrow> bool" where
  "generations_wf gs g \<longleftrightarrow> (\<forall>x\<in>set gs. x \<le> g)"

definition parted :: "dws \<Rightarrow> bool" where
  "parted s \<longleftrightarrow> ws_reconnectTimer s = None \<and> \<not> ws_ready s \<and> \<not> ws_connected s \<and> ws_lastSubscribeKey s = '''' \<and>
     ws_generation s \<notin> set (ws_discovering s)"

definition ws_ok :: "dws \<Rightarrow> bool" where
  "ws_ok s \<longleftrightarrow> sockets_wf (ws_socket s) (ws_sockets s) \<and> ids_wf (ws_socket s) (pending_ids s) (ws_rpcId s) \<and>
     generations_wf (ws_discovering s) (ws_generation s) \<and> (ws_shouldReconnect s \<or> ws_socket s = None \<and> parted s)"

fun settled1 :: "ws_event \<Rightarrow> nat list" where
  "settled1 (Rpc_settled k) = [k]"
| "settled1 _ = []"

definition settled :: "ws_event list \<Rightarrow> nat list" where
  "settled es = concat (map settled1 es)"

definition accounted :: "dws \<Rightarrow> dws \<times> ws_event list \<Rightarrow> bool" where
  "accounted s p \<longleftrightarrow> ws_rpcId s \<le> ws_rpcId (fst p) \<and>
     mset (settled (snd p)) + mset (pending_ids (fst p)) =
     mset (pending_ids s) + mset [Suc (ws_rpcId s)..<Suc (ws_rpcId (fst p))]"

text \<open>The call \<open>k\<close> went out on the socket \<open>n\<close>. A pending call stays on the socket that carried it.\<close>

fun call_on :: "nat \<Rightarrow> nat \<Rightarrow> ws_event \<Rightarrow> bool" where
  "call_on n k (Socket_sent m v) \<longleftrightarrow> m = n \<and> field ''id'' v = Some (J_num (of_nat k))"
| "call_on n k _ \<longleftrightarrow> False"

definition homed :: "dws \<Rightarrow> dws \<times> ws_event list \<Rightarrow> bool" where
  "homed s p \<longleftrightarrow> (\<forall>k\<in>set (pending_ids (fst p)).
     k \<in> set (pending_ids s) \<and> ws_socket (fst p) = ws_socket s \<or> (\<exists>n. ws_socket (fst p) = Some n \<and> list_ex (call_on n k) (snd p)))"

definition keeps :: "dws \<Rightarrow> dws \<times> ws_event list \<Rightarrow> bool" where
  "keeps s p \<longleftrightarrow> (ws_ok s \<longrightarrow> ws_ok (fst p) \<and> accounted s p) \<and> homed s p"

lemma settled_simps [simp]:
  "settled [] = []" "settled (es @ fs) = settled es @ settled fs" "settled (e # es) = settled1 e @ settled es"
  "settled (map Rpc_settled ks) = ks"
  by (simp_all add: settled_def) (induction ks, simp_all)

lemma ws_ok_init: "ws_ok dws_init"
  by (simp add: ws_ok_def dws_init_def sockets_wf_def ids_wf_def pending_ids_def generations_wf_def)

lemma accounted_trans:
  assumes "accounted s p" and "accounted (fst p) (f (fst p))"
  shows "accounted s (and_then p f)"
proof -
  let ?ids = "\<lambda>t. mset (pending_ids t)" and ?new = "\<lambda>a b. mset [Suc (ws_rpcId a)..<Suc (ws_rpcId b)]"
  let ?t = "fst p" and ?q = "f (fst p)"
  have le: "ws_rpcId s \<le> ws_rpcId ?t" "ws_rpcId ?t \<le> ws_rpcId (fst ?q)" using assms by (simp_all add: accounted_def)
  then have split: "?new s (fst ?q) = ?new s ?t + ?new ?t (fst ?q)"
    by (metis le_add_diff_inverse Suc_le_mono mset_append upt_add_eq_append)
  have "mset (settled (snd p)) + mset (settled (snd ?q)) + ?ids (fst ?q) = mset (settled (snd p)) + (?ids ?t + ?new ?t (fst ?q))"
    using assms(2) by (simp only: accounted_def add.assoc)
  also have "\<dots> = ?ids s + ?new s ?t + ?new ?t (fst ?q)"
    using assms(1) by (simp only: accounted_def add.assoc[symmetric])
  finally have "mset (settled (snd p)) + mset (settled (snd ?q)) + ?ids (fst ?q) = ?ids s + ?new s (fst ?q)"
    by (simp only: split add.assoc)
  then show ?thesis
    using le unfolding accounted_def by (simp only: fst_and_then snd_and_then settled_simps mset_append) simp
qed

lemma homed_trans:
  assumes "homed s p" and "homed (fst p) (f (fst p))"
  shows "homed s (and_then p f)"
  unfolding homed_def
proof
  fix k assume k: "k \<in> set (pending_ids (fst (and_then p f)))"
  then have "k \<in> set (pending_ids (fst p)) \<and> ws_socket (fst (f (fst p))) = ws_socket (fst p) \<or>
      (\<exists>n. ws_socket (fst (f (fst p))) = Some n \<and> list_ex (call_on n k) (snd (f (fst p))))"
    using assms(2) by (simp add: homed_def)
  then show "k \<in> set (pending_ids s) \<and> ws_socket (fst (and_then p f)) = ws_socket s \<or>
      (\<exists>n. ws_socket (fst (and_then p f)) = Some n \<and> list_ex (call_on n k) (snd (and_then p f)))"
    using assms(1) by (auto simp: homed_def)
qed

lemma homed_same: "set (pending_ids s') \<subseteq> set (pending_ids s) \<Longrightarrow> ws_socket s' = ws_socket s \<Longrightarrow> homed s (s', es)"
  by (auto simp: homed_def)

lemma homed_none: "pending_ids (fst p) = [] \<Longrightarrow> homed s p"
  by (simp add: homed_def)

lemma keeps_and_then: "keeps s p \<Longrightarrow> keeps (fst p) (f (fst p)) \<Longrightarrow> keeps s (and_then p f)"
  by (simp add: keeps_def accounted_trans homed_trans)

text \<open>Changes of the fields that the invariant does not read.\<close>

definition net where
  "net s = (ws_socket s, ws_sockets s, ws_rpcId s, ws_reconnectTimer s, ws_lastSubscribeKey s, ws_shouldReconnect s,
     ws_generation s, ws_pending s, ws_connected s, ws_ready s, ws_discovering s)"

lemma net_ok: "net s' = net s \<Longrightarrow> ws_ok s' = ws_ok s"
  by (simp add: net_def ws_ok_def pending_ids_def parted_def)

lemma net_same: "net s' = net s \<Longrightarrow> ws_rpcId s' = ws_rpcId s \<and> pending_ids s' = pending_ids s \<and> ws_socket s' = ws_socket s"
  by (simp add: net_def pending_ids_def)

lemma keepsI:
  assumes "ws_ok s \<Longrightarrow> ws_ok s'" and "pending_ids s' = pending_ids s" and "ws_rpcId s' = ws_rpcId s" and "settled es = []"
    and "ws_socket s' = ws_socket s \<or> pending_ids s' = []"
  shows "keeps s (s', es)"
  using assms by (auto simp: keeps_def accounted_def intro: homed_same homed_none)

lemma keeps_net: "net s' = net s \<Longrightarrow> settled es = [] \<Longrightarrow> keeps s (s', es)"
  using net_ok[of s' s] net_same[of s' s] by (intro keepsI) simp_all

lemma net_from: "net s1 = net s \<Longrightarrow> keeps s1 p \<Longrightarrow> keeps s p"
  using net_ok[of s1 s] net_same[of s1 s] by (simp only: keeps_def accounted_def homed_def)

lemma net_enqueue [simp]: "net (enqueue ms s) = net s"
  by (simp add: enqueue_def net_def)

section \<open>Messages\<close>

lemma net_simple [simp]:
  "net (ws_scheduleFlush s) = net s" "net (note_seq q s) = net s" "net (noteDashboardWsEvent now s) = net s"
  "net (deliverParsedPayloads ps s) = net s" "net (initParseWorker env s) = net s" "net (post_job w j s) = net s"
  "net (s\<lparr>ws_inbound := x\<rparr>) = net s" "net (s\<lparr>ws_flushing := b\<rparr>) = net s" "net (clearPendingInbound s) = net s"
  "net (set_error err s) = net s" "net (rememberRouteState r s) = net s" "net (s\<lparr>ws_micro := ms\<rparr>) = net s"
  by (simp_all add: net_def ws_scheduleFlush_def note_seq_def noteDashboardWsEvent_def deliverParsedPayloads_def
      initParseWorker_def post_job_def clearPendingInbound_def set_error_def rememberRouteState_def
      split: option.splits json.splits)

lemma net_fallback [simp]: "net (fallbackParseWorkerJob j s) = net s"
  by (simp add: fallbackParseWorkerJob_def net_def ws_scheduleFlush_def split: option.splits)

lemma net_fallback_all [simp]: "net (fallbackAllParseWorkerJobs s) = net s"
proof -
  have "net (foldl (\<lambda>t j. fallbackParseWorkerJob j t) s js) = net s" for js
    by (induction js arbitrary: s) simp_all
  then show ?thesis by (simp add: fallbackAllParseWorkerJobs_def Let_def split: option.splits) (simp add: net_def)
qed

lemma net_worker [simp]: "net (worker_replies env w s) = net s" "net (worker_fails w s) = net s"
  by (auto simp: worker_replies_def worker_fails_def Let_def split: list.splits option.splits)
    (simp_all add: net_def deliverParsedPayloads_def ws_scheduleFlush_def)

lemma net_handleMessage [simp]: "net (handleMessage env message s) = net s"
proof -
  have up: "net (s\<lparr>ws_jobId := j, ws_jobs := js\<rparr>) = net s" "net (s\<lparr>ws_worker := w\<rparr>) = net s" for s j js w by (simp_all add: net_def)
  show ?thesis by (simp add: handleMessage_def Let_def up split: option.splits)
qed

lemma quiet_calls:
  "settled (fst (store_call env (Hydrate a b c))) = []" "settled (fst (store_call env (Push v))) = []"
  "settled (fst (hydrateRouteDashboardSlice env sl payload et s)) = []"
  "settled (sendNotification env meth params s) = []" "settled (ack_events env q s) = []"
  "settled (fst (handleRawPush env v)) = []"
  by (simp_all add: store_call_def hydrateRouteDashboardSlice_def sendNotification_def ack_events_def handleRawPush_def
      split: option.splits json.splits)

lemma quiet_hydrate_all: "settled (fst (hydrate_all env kvs s)) = []"
proof (induction kvs)
  case (Cons kv kvs)
  then show ?case by (cases kv) (simp add: split_beta Let_def quiet_calls)
qed simp

lemma quiet_push_all: "settled (fst (push_all env vs)) = []"
  by (induction vs) (simp_all add: split_beta Let_def quiet_calls)

lemma net_snapshot: "net (fst (applySnapshot env raw s)) = net s \<and> settled (fst (snd (applySnapshot env raw s))) = []"
  by (simp add: applySnapshot_def Let_def quiet_hydrate_all split: sum.splits)

lemma net_subscribe_result:
  "net (fst (applySubscribeResult env raw s)) = net s \<and> settled (fst (snd (applySubscribeResult env raw s))) = []"
  by (simp add: applySubscribeResult_def net_snapshot split: sum.splits)

lemma net_delta: "net (fst (applyDelta env raw s)) = net s \<and> settled (fst (snd (applyDelta env raw s))) = []"
  by (simp add: applyDelta_def Let_def quiet_calls split_beta split: sum.splits option.splits json.splits)

lemma net_notification:
  "handleNotification env raw s = Some att \<Longrightarrow> net (fst att) = net s \<and> settled (fst (snd att)) = []"
  using net_delta[of env "field ''params'' raw" s] net_snapshot[of env "field ''params'' raw" s]
  by (auto simp: handleNotification_def split: if_splits)

text \<open>A call settles by leaving the pending ones.\<close>

lemma keeps_settle:
  assumes "k \<in> set (pending_ids s)"
  shows "keeps s (enqueue ms (s\<lparr>ws_pending := map_del k (ws_pending s)\<rparr>), [Rpc_settled k])"
proof -
  let ?t = "enqueue ms (s\<lparr>ws_pending := map_del k (ws_pending s)\<rparr>)"
  have ids: "pending_ids ?t = removeAll k (pending_ids s)" by (simp add: enqueue_def keys_delete pending_ids_def)
  have "parted ?t = parted s" by (simp add: parted_def enqueue_def)
  moreover have "ids_wf cur (removeAll k js) b" if "ids_wf cur js b" for cur js b
    using that by (auto simp: ids_wf_def distinct_removeAll)
  ultimately have "ws_ok ?t" if "ws_ok s"
    using that unfolding ws_ok_def ids by (simp add: enqueue_def)
  moreover have "mset [k] + mset (removeAll k (pending_ids s)) = mset (pending_ids s)" if "ws_ok s"
    using that assms by (simp add: ws_ok_def ids_wf_def flip: distinct_remove1_removeAll)
  moreover have "ws_rpcId ?t = ws_rpcId s" by (simp add: enqueue_def)
  moreover have "homed s (?t, [Rpc_settled k])" by (rule homed_same) (simp only: ids, auto simp: enqueue_def)
  ultimately show ?thesis by (simp add: keeps_def accounted_def ids)
qed

lemma pending_id_in: "pending_id s n = Some k \<Longrightarrow> k \<in> set (pending_ids s)"
  unfolding pending_id_def pending_ids_def by (blast dest: find_Some_in)

lemma keeps_response: "handleRpcResponse raw s = Some p \<Longrightarrow> keeps s p"
  by (auto simp: handleRpcResponse_def Let_def keeps_net split: option.splits json.splits intro!: keeps_settle dest: pending_id_in)

definition of_attempt :: "attempt \<Rightarrow> dws \<times> ws_event list" where
  "of_attempt a = (fst a, fst (snd a))"

lemma keeps_parsed: "keeps s (of_attempt (processInboundParsedMessage env raw s))"
proof (cases "handleRpcResponse raw s")
  case None
  then show ?thesis
    using net_notification[of env raw s] quiet_calls(6)[of env raw]
    by (cases "handleNotification env raw s")
      (auto simp: processInboundParsedMessage_def of_attempt_def intro!: keeps_net)
next
  case (Some p)
  then show ?thesis
    using keeps_response[OF Some]
    by (cases p) (simp add: processInboundParsedMessage_def of_attempt_def keeps_net)
qed

lemma keeps_text: "keeps s (of_attempt (processInboundMessage env data s))"
proof (cases "en_parse env data")
  case None
  then show ?thesis
    by (simp add: processInboundMessage_def of_attempt_def keeps_net quiet_push_all)
qed (simp add: processInboundMessage_def keeps_parsed)

lemma keeps_item: "keeps s (of_attempt (process_item env v s))"
  by (cases v) (simp_all add: keeps_parsed keeps_text)

lemma of_attempt_batch:
  "of_attempt (process_batch env (v # vs) s) =
     (if snd (snd (process_item env v s)) then of_attempt (process_item env v s)
      else and_then (of_attempt (process_item env v s)) (\<lambda>t. of_attempt (process_batch env vs t)))"
  by (simp add: of_attempt_def and_then_def split_beta Let_def)

lemma keeps_batch: "keeps s (of_attempt (process_batch env vs s))"
proof (induction vs arbitrary: s)
  case Nil
  show ?case by (simp add: of_attempt_def keeps_net)
next
  case (Cons v vs)
  then show ?case
    unfolding of_attempt_batch by (simp add: keeps_item keeps_and_then)
qed

lemma keeps_uncaught: "keeps s (s', es) \<Longrightarrow> keeps s (s', es @ (if b then [Uncaught] else []))"
  by (auto simp: keeps_def accounted_def homed_def)

lemma keeps_flush: "keeps s (ws_flushPending env s)"
proof -
  let ?p = "process_batch env (ws_inbound s) (s\<lparr>ws_inbound := []\<rparr>)"
  have "keeps s (of_attempt ?p)" by (rule net_from[OF _ keeps_batch]) simp
  then show ?thesis
    using keeps_uncaught[of s "fst ?p" "fst (snd ?p)" "snd (snd ?p)"]
    by (simp add: ws_flushPending_def of_attempt_def split_beta)
qed

section \<open>The connection\<close>

lemma drop_socket_simps [simp]:
  "ws_socket (drop_socket s) = None" "length (ws_sockets (drop_socket s)) = length (ws_sockets s)"
  "ws_rpcId (drop_socket s) = ws_rpcId s" "ws_pending (drop_socket s) = ws_pending s"
  "ws_shouldReconnect (drop_socket s) = ws_shouldReconnect s" "ws_reconnectTimer (drop_socket s) = ws_reconnectTimer s"
  "ws_ready (drop_socket s) = ws_ready s" "ws_connected (drop_socket s) = ws_connected s"
  "ws_lastSubscribeKey (drop_socket s) = ws_lastSubscribeKey s" "ws_generation (drop_socket s) = ws_generation s"
  "ws_discovering (drop_socket s) = ws_discovering s" "ws_desired (drop_socket s) = ws_desired s"
  by (simp_all add: drop_socket_def split: option.splits)

lemma sockets_wf_dropped:
  assumes "\<And>n. n < length (ws_sockets s) \<Longrightarrow> live (ws_sockets s ! n) \<Longrightarrow> ws_socket s = Some n"
  shows "sockets_wf None (ws_sockets (drop_socket s))"
proof -
  have "\<not> live (ws_sockets (drop_socket s) ! n)" if n: "n < length (ws_sockets s)" for n
  proof (cases "ws_socket s = Some n")
    case True
    then show ?thesis using n by (simp add: drop_socket_def detach_close_def live_def)
  next
    case False
    then have "\<not> live (ws_sockets s ! n)" using assms[OF n] by blast
    with False show ?thesis by (auto simp: drop_socket_def split: option.splits)
  qed
  then show ?thesis by (simp add: sockets_wf_def)
qed

lemma closeSocket_simps [simp]:
  "ws_socket (fst (closeSocket s)) = None" "ws_pending (fst (closeSocket s)) = []" "pending_ids (fst (closeSocket s)) = []"
  "ws_sockets (fst (closeSocket s)) = ws_sockets (drop_socket s)" "ws_rpcId (fst (closeSocket s)) = ws_rpcId s"
  "ws_shouldReconnect (fst (closeSocket s)) = ws_shouldReconnect s"
  "ws_reconnectTimer (fst (closeSocket s)) = ws_reconnectTimer s" "parted (fst (closeSocket s)) = parted s"
  "ws_ready (fst (closeSocket s)) = ws_ready s" "ws_connected (fst (closeSocket s)) = ws_connected s"
  "ws_lastSubscribeKey (fst (closeSocket s)) = ws_lastSubscribeKey s" "ws_generation (fst (closeSocket s)) = ws_generation s"
  "ws_discovering (fst (closeSocket s)) = ws_discovering s" "ws_desired (fst (closeSocket s)) = ws_desired s"
  "ws_inbound (fst (closeSocket s)) = []"
  "snd (closeSocket s) = map Rpc_settled (pending_ids s)"
  by (simp_all add: closeSocket_def rejectPendingRpcs_def clearPendingInbound_def enqueue_def pending_ids_def parted_def)

text \<open>Closing needs less than the invariant: the flags may say already that the connection is not wanted.\<close>

lemma close_keeps:
  assumes "sockets_wf (ws_socket s) (ws_sockets s)" and "generations_wf (ws_discovering s) (ws_generation s)"
    and "ws_shouldReconnect s \<or> parted s"
  shows "ws_ok (fst (closeSocket s)) \<and> accounted s (closeSocket s)"
proof -
  have "ws_socket s = Some n" if "n < length (ws_sockets s)" "live (ws_sockets s ! n)" for n
    using assms(1) that unfolding sockets_wf_def by blast
  then have "sockets_wf None (ws_sockets (drop_socket s))" by (rule sockets_wf_dropped)
  moreover have "ids_wf None [] b" for b by (simp add: ids_wf_def)
  ultimately have "ws_ok (fst (closeSocket s))" using assms(2,3) unfolding ws_ok_def by simp
  moreover have "accounted s (closeSocket s)" unfolding accounted_def by (simp del: mset_map)
  ultimately show ?thesis by blast
qed

lemma keeps_close: "keeps s (closeSocket s)"
  unfolding keeps_def ws_ok_def[of s] using close_keeps[of s] homed_none[of "closeSocket s" s] closeSocket_simps(3) by blast

lemma scheduleReconnect_simps [simp]:
  "ws_socket (scheduleReconnect env s) = ws_socket s" "ws_sockets (scheduleReconnect env s) = ws_sockets s"
  "ws_rpcId (scheduleReconnect env s) = ws_rpcId s" "ws_pending (scheduleReconnect env s) = ws_pending s"
  "pending_ids (scheduleReconnect env s) = pending_ids s"
  "ws_shouldReconnect (scheduleReconnect env s) = ws_shouldReconnect s" "ws_ready (scheduleReconnect env s) = ws_ready s"
  "ws_connected (scheduleReconnect env s) = ws_connected s" "ws_generation (scheduleReconnect env s) = ws_generation s"
  "ws_lastSubscribeKey (scheduleReconnect env s) = ws_lastSubscribeKey s"
  "ws_discovering (scheduleReconnect env s) = ws_discovering s" "ws_desired (scheduleReconnect env s) = ws_desired s"
  "ws_micro (scheduleReconnect env s) = ws_micro s"
  "\<not> ws_shouldReconnect s \<Longrightarrow> scheduleReconnect env s = s"
  "(ws_reconnectTimer (scheduleReconnect env s) = None) = (ws_reconnectTimer s = None \<and> \<not> ws_shouldReconnect s)"
  by (auto simp: scheduleReconnect_def Let_def pending_ids_def)

lemma keeps_schedule: "keeps s (scheduleReconnect env s, [])"
  by (cases "ws_shouldReconnect s") (auto intro!: keepsI simp: ws_ok_def)

lemma keeps_sendRpc: "keeps s (sendRpc env r params s)"
proof (cases "open_socket s")
  case None
  then show ?thesis by (simp add: sendRpc_def keeps_net)
next
  case (Some n)
  then have sock: "ws_socket s = Some n" by (simp add: open_socket_def split: option.splits if_splits)
  let ?k = "Suc (ws_rpcId s)"
  let ?sent = "s\<lparr>ws_rpcId := ?k, ws_pending := map_set ?k r (ws_pending s)\<rparr>"
  have fresh: "?k \<notin> set (pending_ids s)" if "ws_ok s"
    using that by (auto simp: ws_ok_def ids_wf_def)
  have ids: "pending_ids ?sent = pending_ids s @ [?k]" if "ws_ok s"
    using fresh[OF that] by (simp add: pending_ids_def update_append)
  have "ids_wf (Some n) (js @ [?k]) ?k" if "ids_wf (Some n) js (ws_rpcId s)" for js
    using that by (auto simp: ids_wf_def)
  then have ok: "ws_ok ?sent" if "ws_ok s"
    using that ids[OF that] sock by (simp add: ws_ok_def parted_def)
  have sent: "ws_ok s \<longrightarrow> ws_ok ?sent \<and> accounted s (?sent, [])"
    using ok ids by (simp add: accounted_def)
  show ?thesis
  proof (cases "en_send env")
    case None
    have "homed s (?sent, [Socket_sent n (rpc_payload ?k (rpc_method r) params)])"
      using sock by (auto simp: homed_def pending_ids_def rpc_payload_def field_def)
    with sent Some None show ?thesis by (simp add: sendRpc_def Let_def keeps_def accounted_def)
  next
    case (Some err)
    have eq: "sendRpc env r params s = and_then (?sent, [])
        (\<lambda>t. (enqueue [reject_rpc r err] (t\<lparr>ws_pending := map_del ?k (ws_pending t)\<rparr>), [Rpc_settled ?k]))"
      using Some \<open>open_socket s = Some n\<close> by (simp add: sendRpc_def Let_def and_then_def)
    have "?k \<in> set (pending_ids ?sent)" by (simp add: pending_ids_def)
    note drop = keeps_settle[OF this, of "[reject_rpc r err]"]
    have "homed s (and_then (?sent, []) (\<lambda>t. (enqueue [reject_rpc r err] (t\<lparr>ws_pending := map_del ?k (ws_pending t)\<rparr>), [Rpc_settled ?k])))"
      unfolding and_then_def by (simp, rule homed_same) (auto simp: pending_ids_def enqueue_def keys_delete)
    with eq sent drop show ?thesis
      using accounted_trans[of s "(?sent, [])" "\<lambda>t. (enqueue [reject_rpc r err] (t\<lparr>ws_pending := map_del ?k (ws_pending t)\<rparr>), [Rpc_settled ?k])"]
      by (simp only: keeps_def fst_conv) (simp add: and_then_def)
  qed
qed

lemma keeps_set:
  assumes "ws_socket s' = ws_socket s" "ws_sockets s' = ws_sockets s" "ws_pending s' = ws_pending s" "ws_rpcId s' = ws_rpcId s"
    and "ws_generation s' = ws_generation s" "ws_discovering s' = ws_discovering s" "ws_shouldReconnect s' = ws_shouldReconnect s"
    and "\<not> ws_shouldReconnect s \<Longrightarrow> ws_socket s = None \<Longrightarrow> parted s \<Longrightarrow> parted s'"
  shows "keeps s (s', [])"
  using assms by (intro keepsI) (auto simp: ws_ok_def pending_ids_def)

lemma keeps_subscribe: "keeps s (subscribeDashboardRoute env r c s)"
proof (cases "ws_ready s \<and> subscribe_key r \<noteq> ws_lastSubscribeKey s")
  case True
  let ?s = "(rememberRouteState r s)\<lparr>ws_lastSubscribeKey := subscribe_key r\<rparr>"
  have "keeps s (?s, [])" using True by (intro keeps_set) (simp_all add: rememberRouteState_def parted_def)
  then have "keeps s (and_then (?s, []) (sendRpc env (Rpc_subscribe (subscribe_key r) c) (subscribe_params r)))"
    by (rule keeps_and_then) (rule keeps_sendRpc)
  then show ?thesis using True by (simp add: subscribeDashboardRoute_def Let_def and_then_def rememberRouteState_def)
next
  case False
  then show ?thesis by (auto simp: subscribeDashboardRoute_def Let_def rememberRouteState_def net_def intro!: keeps_net)
qed

lemma keeps_subscribe_failed: "keeps s (subscribe_failed key c err s)"
proof -
  let ?s = "if ws_lastSubscribeKey s = key then s\<lparr>ws_lastSubscribeKey := ''''\<rparr> else s"
  have "keeps s (?s, [])" by (intro keeps_set) (simp_all add: parted_def)
  then have "keeps s (and_then (?s, []) (\<lambda>t. case c of From_app \<Rightarrow> (t, [App_rejected err]) | From_hello n \<Rightarrow> (enqueue [Failed n err] t, [])))"
    by (rule keeps_and_then) (simp add: keeps_net split: caller.splits)
  then show ?thesis unfolding subscribe_failed_def Let_def and_then_def by (cases c) simp_all
qed

lemma keeps_after: "settled es = [] \<Longrightarrow> keeps s p \<Longrightarrow> keeps s (after es p)"
  by (auto simp: keeps_def accounted_def homed_def)

lemma keeps_subscribe_settled: "keeps s (subscribe_settled env key c result s)"
proof -
  obtain s1 es threw where a: "applySubscribeResult env result s = (s1, es, threw)" by (rule prod_cases3)
  have "net s1 = net s" "settled es = []" using net_subscribe_result[of env result s] by (simp_all add: a)
  then show ?thesis
    using net_from[OF _ keeps_subscribe_failed] by (auto simp: subscribe_settled_def a keeps_net intro!: keeps_after)
qed

lemma keeps_hello: "keeps s (hello_accepted env n s)"
proof (cases "ws_socket s = Some n")
  case True
  let ?s = "s\<lparr>ws_ready := True, ws_lastError := None\<rparr>"
  have "keeps s (?s, [])" using True by (intro keeps_set) simp_all
  then have "keeps s (and_then (?s, []) (\<lambda>t. case ws_desired t of None \<Rightarrow> (t, []) | Some r \<Rightarrow> subscribeDashboardRoute env r (From_hello n) t))"
    by (rule keeps_and_then) (simp add: keeps_net keeps_subscribe split: option.splits)
  then show ?thesis using True unfolding hello_accepted_def Let_def and_then_def by (cases "ws_desired s") simp_all
qed (simp add: hello_accepted_def keeps_net)

lemma keeps_failure: "keeps s (reconnectAfterCurrentSocketFailure env n err s)"
proof (cases "ws_socket s = Some n")
  case True
  let ?s = "(set_error err (set_down s))\<lparr>ws_lastSubscribeKey := ''''\<rparr>"
  have "keeps s (?s, [])" using True by (intro keeps_set) (simp_all add: set_error_def set_down_def parted_def)
  then have "keeps s (and_then (and_then (?s, []) closeSocket) (\<lambda>t. (scheduleReconnect env t, [])))"
    by (intro keeps_and_then keeps_schedule keeps_close)
  then show ?thesis using True by (simp add: reconnectAfterCurrentSocketFailure_def and_then_def)
qed (simp add: reconnectAfterCurrentSocketFailure_def keeps_net)

lemma keeps_micro: "keeps s (microtask env s)"
proof (cases "ws_micro s")
  case (Cons m ms)
  have "keeps (s\<lparr>ws_micro := ms\<rparr>) (run_micro env m (s\<lparr>ws_micro := ms\<rparr>))"
    by (cases m) (simp_all add: keeps_hello keeps_failure keeps_subscribe_settled keeps_subscribe_failed)
  with Cons show ?thesis using net_from[of "s\<lparr>ws_micro := ms\<rparr>" s] by (simp add: microtask_def)
qed (simp add: microtask_def keeps_net)

lemma keeps_connect: "keeps s (connectDashboardWS env ro s)"
proof -
  have none: "keeps t (connectDashboardWS env None t)" for t
  proof -
    let ?t = "t\<lparr>ws_shouldReconnect := True, ws_reconnectTimer := None, ws_generation := ws_generation t + 1,
        ws_discovering := ws_discovering t @ [ws_generation t + 1]\<rparr>"
    have "generations_wf (gs @ [g + 1]) (g + 1)" if "generations_wf gs g" for gs g
      using that by (auto simp: generations_wf_def)
    then have "keeps t (?t, [Discover (ws_generation t + 1)])"
      by (intro keepsI) (simp_all add: ws_ok_def pending_ids_def)
    then show ?thesis by (simp add: connectDashboardWS_def Let_def keeps_net)
  qed
  show ?thesis
  proof (cases ro)
    case (Some r)
    have "connectDashboardWS env ro s = connectDashboardWS env None (rememberRouteState r s)"
      by (simp add: connectDashboardWS_def Some)
    moreover have "keeps s (connectDashboardWS env None (rememberRouteState r s))" by (rule net_from[OF _ none]) simp
    ultimately show ?thesis by simp
  qed (simp add: none)
qed

lemma keeps_new_socket:
  assumes "ws_shouldReconnect s"
  shows "keeps s (open_new_socket env url s)"
proof -
  let ?new = "\<lambda>t. t\<lparr>ws_sockets := ws_sockets t @ [\<lparr>wk_ready = CONNECTING, wk_attached = True\<rparr>], ws_socket := Some (length (ws_sockets t))\<rparr>"
  have "sockets_wf (Some (length ks)) (ks @ [\<lparr>wk_ready = CONNECTING, wk_attached = True\<rparr>])" if "sockets_wf None ks" for ks
    using that by (auto simp: sockets_wf_def nth_append less_Suc_eq)
  then have "keeps t (?new t, [Opened (length (ws_sockets t)) url])"
    if "ws_shouldReconnect t" "ws_socket t = None" "pending_ids t = []" for t
    using that by (intro keepsI) (simp_all add: ws_ok_def pending_ids_def ids_wf_def)
  then have "keeps t (if \<not> en_url_ok env url then (t, [Uncaught]) else (?new t, [Opened (length (ws_sockets t)) url]))"
    if "ws_shouldReconnect t" "ws_socket t = None" "pending_ids t = []" for t
    using that by (cases "en_url_ok env url") (simp_all add: keeps_net)
  then show ?thesis
    unfolding open_new_socket_def by (rule keeps_and_then[OF keeps_close]) (simp_all add: assms)
qed

lemma keeps_discovered: "keeps s (discovered env g a s)"
proof (cases "g \<in> set (ws_discovering s)")
  case True
  let ?s = "s\<lparr>ws_discovering := remove1 g (ws_discovering s)\<rparr>"
  have "generations_wf (remove1 g gs) b" if "generations_wf gs b" for gs b
    using that set_remove1_subset[of g gs] by (auto simp: generations_wf_def)
  moreover have "parted ?s" if "parted s"
    using that set_remove1_subset[of g "ws_discovering s"] by (auto simp: parted_def)
  ultimately have drop: "keeps s (?s, [])"
    by (intro keepsI) (auto simp: ws_ok_def pending_ids_def)
  have err: "keeps t (scheduleReconnect env (set_error e t), [])" for t e
    by (rule net_from[OF _ keeps_schedule]) simp
  have rest: "keeps ?s (discovered env g a s)"
    using True by (auto simp: discovered_def Let_def err keeps_net keeps_new_socket split: sum.splits prod.splits)
  have "discovered env g a s = and_then (?s, []) (\<lambda>_. discovered env g a s)" by (simp add: and_then_def)
  then show ?thesis using keeps_and_then[OF drop, of "\<lambda>_. discovered env g a s"] rest by simp
qed (simp add: discovered_def keeps_net)

text \<open>The browser moves a socket forward, never back to life.\<close>

lemma sockets_wf_ready:
  assumes "sockets_wf cur ks" and "q = OPEN \<longrightarrow> cur = Some n" and "n < length ks" and "q \<noteq> CONNECTING"
  shows "sockets_wf cur (ks[n := (ks ! n)\<lparr>wk_ready := q\<rparr>])"
proof -
  let ?ks = "ks[n := (ks ! n)\<lparr>wk_ready := q\<rparr>]"
  have nth: "?ks ! m = (if m = n then (ks ! n)\<lparr>wk_ready := q\<rparr> else ks ! m)" for m
    using assms(3) by simp
  have "cur = Some m" if "m < length ks" "live (?ks ! m)" for m
  proof (cases "m = n")
    case True
    with that(2) assms(2,4) show ?thesis by (simp add: nth live_def)
  next
    case False
    then have "live (ks ! m)" using that(2) by (simp add: nth)
    then show ?thesis using that(1) assms(1) unfolding sockets_wf_def by blast
  qed
  moreover have "m < length ks \<and> wk_attached (?ks ! m)" if "cur = Some m" for m
  proof -
    have "m < length ks \<and> wk_attached (ks ! m)" using assms(1) that unfolding sockets_wf_def by blast
    then show ?thesis by (auto simp: nth)
  qed
  ultimately show ?thesis unfolding sockets_wf_def length_list_update by blast
qed

lemma set_ready_state_simps [simp]:
  "ws_socket (set_ready_state n q s) = ws_socket s" "ws_rpcId (set_ready_state n q s) = ws_rpcId s"
  "pending_ids (set_ready_state n q s) = pending_ids s" "ws_pending (set_ready_state n q s) = ws_pending s"
  "ws_shouldReconnect (set_ready_state n q s) = ws_shouldReconnect s" "parted (set_ready_state n q s) = parted s"
  "ws_generation (set_ready_state n q s) = ws_generation s" "ws_discovering (set_ready_state n q s) = ws_discovering s"
  "ws_reconnectTimer (set_ready_state n q s) = ws_reconnectTimer s" "ws_ready (set_ready_state n q s) = ws_ready s"
  by (simp_all add: set_ready_state_def pending_ids_def parted_def)

lemma keeps_ready_state:
  assumes "q = OPEN \<longrightarrow> ws_ok s \<longrightarrow> ws_socket s = Some n" and "n < length (ws_sockets s)" and "q \<noteq> CONNECTING"
  shows "keeps s (set_ready_state n q s, [])"
proof (intro keepsI)
  assume ok: "ws_ok s"
  then have "sockets_wf (ws_socket s) (ws_sockets (set_ready_state n q s))"
    using assms sockets_wf_ready[of "ws_socket s" "ws_sockets s" q n] by (simp add: ws_ok_def set_ready_state_def)
  with ok show "ws_ok (set_ready_state n q s)" by (simp add: ws_ok_def)
qed simp_all

lemma ok_live: "ws_ok s \<Longrightarrow> n < length (ws_sockets s) \<Longrightarrow> live (ws_sockets s ! n) \<Longrightarrow> ws_socket s = Some n"
  unfolding ws_ok_def sockets_wf_def by blast

lemma keeps_opens: "keeps s (socket_opens env n s)"
proof (cases "n < length (ws_sockets s) \<and> wk_ready (ws_sockets s ! n) = CONNECTING")
  case True
  let ?s = "set_ready_state n OPEN s"
  have open_ok: "keeps s (?s, [])"
    using True ok_live[of s n] by (intro keeps_ready_state) (auto simp: live_def)
  let ?rest = "\<lambda>t. if \<not> hears n t then (t, [])
      else and_then (t\<lparr>ws_connected := True, ws_reconnectAttempts := 0\<rparr>, []) (sendRpc env (Rpc_hello n) (hello_params env))"
  have "keeps t (?rest t)" for t
  proof (cases "hears n t")
    case True
    then have "keeps t (t\<lparr>ws_connected := True, ws_reconnectAttempts := 0\<rparr>, [])"
      by (intro keeps_set) (simp_all add: hears_def)
    then show ?thesis using True by (simp only: if_False not_not simp_thms keeps_and_then keeps_sendRpc)
  qed (simp add: keeps_net)
  then have "keeps s (and_then (?s, []) ?rest)" by (rule keeps_and_then[OF open_ok])
  then show ?thesis using True by (simp add: socket_opens_def Let_def and_then_def split: if_splits)
next
  case False
  then have "socket_opens env n s = (s, [])" unfolding socket_opens_def by (rule if_not_P)
  then show ?thesis by (simp add: keeps_net)
qed

lemma rejectPendingRpcs_simps [simp]:
  "ws_pending (fst (rejectPendingRpcs err s)) = []" "pending_ids (fst (rejectPendingRpcs err s)) = []"
  "ws_socket (fst (rejectPendingRpcs err s)) = ws_socket s" "ws_sockets (fst (rejectPendingRpcs err s)) = ws_sockets s"
  "ws_rpcId (fst (rejectPendingRpcs err s)) = ws_rpcId s" "parted (fst (rejectPendingRpcs err s)) = parted s"
  "ws_generation (fst (rejectPendingRpcs err s)) = ws_generation s"
  "ws_discovering (fst (rejectPendingRpcs err s)) = ws_discovering s"
  "ws_shouldReconnect (fst (rejectPendingRpcs err s)) = ws_shouldReconnect s"
  "ws_reconnectTimer (fst (rejectPendingRpcs err s)) = ws_reconnectTimer s"
  "snd (rejectPendingRpcs err s) = map Rpc_settled (pending_ids s)"
  by (simp_all add: rejectPendingRpcs_def enqueue_def pending_ids_def parted_def)

lemma keeps_closes: "keeps s (socket_closes env n e s)"
proof (cases "n < length (ws_sockets s) \<and> wk_ready (ws_sockets s ! n) \<noteq> CLOSED")
  case True
  let ?s = "set_ready_state n CLOSED s" and ?err = "formatCloseEventError e"
  have closed: "keeps s (?s, [])" using True by (intro keeps_ready_state) auto
  let ?gone = "\<lambda>t. (set_error ?err (set_down t))\<lparr>ws_lastSubscribeKey := '''', ws_socket := None\<rparr>"
  let ?rest = "\<lambda>t. if \<not> hears n t then (t, [])
      else and_then (rejectPendingRpcs ?err (?gone t)) (\<lambda>t. (scheduleReconnect env t, []))"
  have "keeps ?s (?rest ?s)"
  proof (cases "hears n ?s")
    case True
    have "\<not> live (ws_sockets ?s ! n)"
      using \<open>n < length (ws_sockets s) \<and> _\<close> by (simp add: set_ready_state_def live_def)
    then have "sockets_wf None (ws_sockets ?s)" if "sockets_wf (Some n) (ws_sockets ?s)"
      using that unfolding sockets_wf_def by blast
    moreover have "ws_socket ?s = Some n" using True by (simp add: hears_def)
    moreover have same: "pending_ids (?gone ?s) = pending_ids ?s" "ws_rpcId (?gone ?s) = ws_rpcId ?s" "ws_socket (?gone ?s) = None"
      "ws_sockets (?gone ?s) = ws_sockets ?s" "ws_generation (?gone ?s) = ws_generation ?s" "ws_discovering (?gone ?s) = ws_discovering ?s"
      "ws_shouldReconnect (?gone ?s) = ws_shouldReconnect ?s"
      by (simp_all add: set_error_def set_down_def pending_ids_def)
    ultimately have "ws_ok (fst (rejectPendingRpcs ?err (?gone ?s)))" if "ws_ok ?s"
      using that unfolding ws_ok_def by (simp add: ids_wf_def)
    then have "keeps ?s (rejectPendingRpcs ?err (?gone ?s))"
      using same unfolding keeps_def accounted_def by (simp add: homed_none del: mset_map)
    then show ?thesis using True by (simp only: if_False not_not simp_thms keeps_and_then keeps_schedule)
  qed (simp add: keeps_net)
  then have "keeps s (and_then (?s, []) ?rest)" by (intro keeps_and_then[OF closed]) (simp only: fst_conv)
  then show ?thesis using True by (simp add: socket_closes_def Let_def and_then_def split: if_splits)
next
  case False
  then have "socket_closes env n e s = (s, [])" unfolding socket_closes_def by (rule if_not_P)
  then show ?thesis by (simp add: keeps_net)
qed

lemma keeps_disconnect: "keeps s (disconnectDashboardWS s)"
proof -
  let ?s = "(set_down (s\<lparr>ws_shouldReconnect := False, ws_generation := ws_generation s + 1, ws_reconnectTimer := None\<rparr>))
       \<lparr>ws_lastSubscribeKey := '''', ws_desired := None\<rparr>"
  have "sockets_wf (ws_socket ?s) (ws_sockets ?s) \<and> generations_wf (ws_discovering ?s) (ws_generation ?s) \<and> parted ?s" if "ws_ok s"
    using that by (auto simp: ws_ok_def generations_wf_def set_down_def parted_def)
  then have "ws_ok s \<Longrightarrow> ws_ok (fst (closeSocket ?s)) \<and> accounted ?s (closeSocket ?s)" by (intro close_keeps) blast+
  moreover have "homed s (closeSocket ?s)" by (rule homed_none) simp
  ultimately show ?thesis by (simp add: disconnectDashboardWS_def keeps_def accounted_def pending_ids_def set_down_def)
qed

lemma keeps_rpc_timeout: "keeps s (rpc_timeout k s)"
proof (cases "map_get (ws_pending s) k")
  case (Some r)
  then have "k \<in> set (pending_ids s)" by (force simp: pending_ids_def dest: map_of_SomeD)
  with Some show ?thesis by (simp add: rpc_timeout_def keeps_settle)
qed (simp add: rpc_timeout_def keeps_net)

lemma keeps_reconnect: "keeps s (reconnect_fires env s)"
proof (cases "ws_reconnectTimer s")
  case (Some d)
  have "keeps s (s\<lparr>ws_reconnectTimer := None\<rparr>, [])" by (intro keeps_set) (simp_all add: parted_def)
  then have "keeps s (and_then (s\<lparr>ws_reconnectTimer := None\<rparr>, []) (connectDashboardWS env None))"
    by (rule keeps_and_then) (rule keeps_connect)
  with Some show ?thesis by (simp add: reconnect_fires_def and_then_def)
qed (simp add: reconnect_fires_def keeps_net)

lemma keeps_closing: "keeps s (socket_closing n s, [])"
  by (auto simp: socket_closing_def keeps_net intro!: keeps_ready_state)

lemma keeps_step: "keeps s (ws_step x s)"
proof -
  obtain env op where x: "x = (env, op)" by fastforce
  have flush: "keeps s (ws_flushPending env (s\<lparr>ws_flushing := False\<rparr>))" by (rule net_from[OF _ keeps_flush]) simp
  show ?thesis
    by (cases op)
      (simp_all add: x quietly_def keeps_connect keeps_subscribe keeps_disconnect flushPendingInbound_def frame_fires_def flush
        keeps_discovered keeps_opens keeps_closes keeps_closing keeps_reconnect keeps_rpc_timeout keeps_micro keeps_net
        socket_message_def socket_error_def)
qed

interpretation dashboard_ws: component ws_step ws_ok "\<lambda>_. True"
  by unfold_locales (use keeps_step in \<open>simp add: keeps_def\<close>)

section \<open>One live socket, one settlement for every call\<close>

lemma run_accounted:
  "ws_ok s \<Longrightarrow> accounted s (run ws_step xs s)"
proof (induction xs arbitrary: s)
  case Nil
  show ?case by (simp add: accounted_def)
next
  case (Cons x xs)
  have k: "ws_ok (fst (ws_step x s))" "accounted s (ws_step x s)"
    using keeps_step[of s x] Cons.prems by (simp_all add: keeps_def)
  have "run ws_step (x # xs) s = and_then (ws_step x s) (run ws_step xs)"
    by (simp only: run_Cons and_then_def)
  then show ?case using accounted_trans[OF k(2), of "run ws_step xs"] Cons.IH[OF k(1)] by simp
qed

lemma ws_ok_run: "ws_ok (fst (run ws_step xs dws_init))"
  by (rule dashboard_ws.run_inv[OF ws_ok_init]) simp

text \<open>C2: Whatever the server, the timers and the application do, at most one socket is connecting or open, it is the
  one the module holds, and its handlers are attached; a socket that was given up for another is closing or
  closed. Remote calls wait only on that socket: none is pending while there is none.\<close>

theorem ws_one_live_socket:
  "let s = fst (run ws_step xs dws_init)
   in card {n. n < length (ws_sockets s) \<and> live (ws_sockets s ! n)} \<le> 1 \<and>
      {n. n < length (ws_sockets s) \<and> live (ws_sockets s ! n)} \<subseteq>
        {n. ws_socket s = Some n \<and> wk_attached (ws_sockets s ! n)} \<and>
      (ws_pending s = [] \<or> (\<exists>n<length (ws_sockets s). ws_socket s = Some n))"
proof -
  let ?s = "fst (run ws_step xs dws_init)"
  let ?live = "{n. n < length (ws_sockets ?s) \<and> live (ws_sockets ?s ! n)}"
  have wf: "sockets_wf (ws_socket ?s) (ws_sockets ?s)" "ids_wf (ws_socket ?s) (pending_ids ?s) (ws_rpcId ?s)"
    using ws_ok_run[of xs] unfolding ws_ok_def by blast+
  have "?live \<subseteq> {n. ws_socket ?s = Some n \<and> wk_attached (ws_sockets ?s ! n)}"
    using wf(1) unfolding sockets_wf_def by blast
  note sub = this
  then have "?live \<subseteq> set_option (ws_socket ?s)" by auto
  then have "card ?live \<le> card (set_option (ws_socket ?s))" by (intro card_mono) (cases "ws_socket ?s"; simp)+
  moreover have "card (set_option x) \<le> 1" for x :: "nat option" by (cases x) simp_all
  ultimately have "card ?live \<le> 1" by (meson order_trans)
  moreover have "ws_pending ?s = [] \<or> (\<exists>n<length (ws_sockets ?s). ws_socket ?s = Some n)"
    using wf by (cases "ws_socket ?s") (auto simp: ids_wf_def sockets_wf_def pending_ids_def)
  ultimately show ?thesis using sub by (simp only: Let_def)
qed

lemma run_homed: "homed s (run ws_step xs s)"
proof (induction xs arbitrary: s)
  case Nil
  show ?case by (simp add: homed_same)
next
  case (Cons x xs)
  have "run ws_step (x # xs) s = and_then (ws_step x s) (run ws_step xs)"
    by (simp only: run_Cons and_then_def)
  then show ?case using homed_trans[of s "ws_step x s" "run ws_step xs"] Cons.IH keeps_step[of s x] by (simp add: keeps_def)
qed

text \<open>C3: Every remote call is settled exactly once: along any run the calls issued, numbered from one without
  a gap, are those settled so far together with those still pending, none of them twice, so an answer that comes after the
  call has timed out, or that repeats an earlier one, settles nothing. And the calls pending are all calls that were
  sent on the socket now held: those of a socket that is lost or replaced are settled with it, whatever answers
  to them a worker may still deliver.\<close>

theorem ws_calls_settle_once:
  "let (s, es) = run ws_step xs dws_init
   in distinct (settled es @ map_keys (ws_pending s)) \<and>
      set (settled es @ map_keys (ws_pending s)) = {1..ws_rpcId s} \<and>
      list_all (\<lambda>k. \<exists>n. ws_socket s = Some n \<and> list_ex (call_on n k) es) (map_keys (ws_pending s))"
proof -
  obtain s es where r: "run ws_step xs dws_init = (s, es)" by fastforce
  have "mset (settled es @ pending_ids s) = mset [1..<Suc (ws_rpcId s)]"
    using run_accounted[OF ws_ok_init, of xs]
    by (simp add: accounted_def r) (simp add: dws_init_def pending_ids_def)
  then have "distinct (settled es @ pending_ids s) \<and> set (settled es @ pending_ids s) = set [1..<Suc (ws_rpcId s)]"
    by (metis distinct_upt mset_eq_imp_distinct_iff mset_eq_setD)
  moreover have "list_all (\<lambda>k. \<exists>n. ws_socket s = Some n \<and> list_ex (call_on n k) es) (map_keys (ws_pending s))"
  proof -
    have "pending_ids dws_init = []" by (simp add: dws_init_def pending_ids_def)
    with run_homed[of dws_init xs] show ?thesis
      unfolding r homed_def pending_ids_def[of s] list_all_iff fst_conv snd_conv by simp
  qed
  ultimately show ?thesis by (simp add: r pending_ids_def atLeastLessThanSuc_atLeastAtMost del: upt_Suc)
qed

section \<open>What a batch of messages leaves alone\<close>

fun outward :: "ws_event \<Rightarrow> bool" where
  "outward (Discover g) = True"
| "outward (Opened n url) = True"
| "outward (Socket_sent n v) = True"
| "outward _ = False"

abbreviation calls_out :: "ws_event list \<Rightarrow> ws_event list" where
  "calls_out es \<equiv> filter outward es"

definition links where
  "links s = (ws_socket s, ws_sockets s, ws_reconnectTimer s, ws_shouldReconnect s, ws_generation s, ws_discovering s)"

lemma net_links: "net s' = net s \<Longrightarrow> links s' = links s"
  by (simp add: net_def links_def)

lemma links_enqueue [simp]: "links (enqueue ms s) = links s" "links (s\<lparr>ws_pending := ps\<rparr>) = links s"
  by (simp_all add: links_def enqueue_def)

lemma calls_out_settled [simp]: "calls_out (map Rpc_settled ks) = []"
  by (induction ks) simp_all

lemma out_quiet:
  "calls_out (fst (hydrateRouteDashboardSlice env sl payload et s)) = []" "calls_out (fst (handleRawPush env v)) = []"
  by (simp_all add: hydrateRouteDashboardSlice_def store_call_def handleRawPush_def split: option.splits)

lemma out_hydrate_all: "calls_out (fst (hydrate_all env kvs s)) = []"
proof (induction kvs)
  case (Cons kv kvs)
  then show ?case by (cases kv) (simp add: split_beta Let_def out_quiet)
qed simp

lemma out_push_all: "calls_out (fst (push_all env vs)) = []"
  by (induction vs) (simp_all add: split_beta Let_def out_quiet)

lemma out_snapshot: "calls_out (fst (snd (applySnapshot env raw s))) = []"
  by (simp add: applySnapshot_def Let_def out_hydrate_all split: sum.splits)

lemma out_subscribe_result: "calls_out (fst (snd (applySubscribeResult env raw s))) = []"
  by (simp add: applySubscribeResult_def out_snapshot split: sum.splits)

lemma out_ack: "ws_socket s = None \<Longrightarrow> ack_events env q s = []"
  by (simp add: ack_events_def sendNotification_def open_socket_def split: option.splits json.splits)

lemma out_delta: "ws_socket s = None \<Longrightarrow> calls_out (fst (snd (applyDelta env raw s))) = []"
  by (simp add: applyDelta_def Let_def out_quiet out_ack split_beta split: sum.splits option.splits json.splits)

lemma response_links: "handleRpcResponse raw s = Some p \<Longrightarrow> links (fst p) = links s \<and> calls_out (snd p) = []"
  by (auto simp: handleRpcResponse_def Let_def split: option.splits json.splits)

lemma parsed_links:
  "links (fst (processInboundParsedMessage env raw s)) = links s \<and>
   (ws_socket s = None \<longrightarrow> calls_out (fst (snd (processInboundParsedMessage env raw s))) = [])"
proof (cases "handleRpcResponse raw s")
  case None
  have "links (fst att) = links s \<and> (ws_socket s = None \<longrightarrow> calls_out (fst (snd att)) = [])"
    if "handleNotification env raw s = Some att" for att
    using that net_links[OF conjunct1[OF net_notification[OF that]]] out_delta[of s env "field ''params'' raw"]
      out_snapshot[of env "field ''params'' raw" s]
    by (auto simp: handleNotification_def split: if_splits)
  with None show ?thesis
    by (cases "handleNotification env raw s") (simp_all add: processInboundParsedMessage_def out_quiet)
next
  case (Some p)
  then show ?thesis
    using response_links[OF Some] by (cases p) (simp add: processInboundParsedMessage_def)
qed

lemma item_links:
  "links (fst (process_item env v s)) = links s \<and>
   (ws_socket s = None \<longrightarrow> calls_out (fst (snd (process_item env v s))) = [])"
  using parsed_links[of env] by (cases v) (simp_all add: processInboundMessage_def out_push_all split: option.splits)

lemma batch_links:
  "links (fst (process_batch env vs s)) = links s \<and>
   (ws_socket s = None \<longrightarrow> calls_out (fst (snd (process_batch env vs s))) = [])"
proof (induction vs arbitrary: s)
  case (Cons v vs)
  obtain s1 e1 threw where i: "process_item env v s = (s1, e1, threw)" by (rule prod_cases3)
  then have l: "links s1 = links s" "ws_socket s = None \<longrightarrow> calls_out e1 = []" using item_links[of env v s] by simp_all
  then have "ws_socket s1 = ws_socket s" by (simp add: links_def)
  then show ?case using Cons[of s1] l by (simp add: i split_beta Let_def)
qed simp

lemma flush_links:
  "links (fst (ws_flushPending env s)) = links s \<and> (ws_socket s = None \<longrightarrow> calls_out (snd (ws_flushPending env s)) = [])"
  using batch_links[of env "ws_inbound s" "s\<lparr>ws_inbound := []\<rparr>"]
  by (simp add: ws_flushPending_def split_beta) (simp add: links_def)

lemma sendRpc_links [simp]: "links (fst (sendRpc env r params s)) = links s"
  by (simp add: sendRpc_def Let_def split: option.splits) (simp add: links_def)

lemma subscribe_links [simp]: "links (fst (subscribeDashboardRoute env r c s)) = links s"
  by (simp add: subscribeDashboardRoute_def Let_def) (simp add: links_def rememberRouteState_def)

lemma subscribe_failed_links [simp]: "links (fst (subscribe_failed key c err s)) = links s"
  by (simp add: subscribe_failed_def Let_def split: caller.splits) (simp add: links_def)

lemma subscribe_settled_links: "links (fst (subscribe_settled env key c result s)) = links s"
proof -
  obtain s1 es threw where a: "applySubscribeResult env result s = (s1, es, threw)" by (rule prod_cases3)
  then have "links s1 = links s" using net_links[OF conjunct1[OF net_subscribe_result]] by (metis fst_conv)
  then show ?thesis by (simp add: subscribe_settled_def a)
qed

lemma subscribe_settled_out: "calls_out (snd (subscribe_settled env key c result s)) = []"
proof -
  obtain s1 es threw where a: "applySubscribeResult env result s = (s1, es, threw)" by (rule prod_cases3)
  then have "calls_out es = []" using out_subscribe_result[of env result s] by simp
  then show ?thesis by (simp add: subscribe_settled_def a subscribe_failed_def Let_def split: caller.splits)
qed

lemma hello_links [simp]: "links (fst (hello_accepted env n s)) = links s"
  by (simp add: hello_accepted_def Let_def split: option.splits) (simp add: links_def)

section \<open>Silence after a disconnect\<close>

fun connects :: "ws_env \<times> ws_op \<Rightarrow> bool" where
  "connects (env, Ws_connect ro) = True"
| "connects _ = False"

definition gone :: "dws \<Rightarrow> bool" where
  "gone s \<longleftrightarrow> \<not> ws_shouldReconnect s"

lemma gone_links: "links s' = links s \<Longrightarrow> gone s' = gone s"
  by (simp add: links_def gone_def)

lemma gone_facts:
  "ws_ok s \<Longrightarrow> gone s \<Longrightarrow>
     ws_socket s = None \<and> ws_reconnectTimer s = None \<and> \<not> ws_ready s \<and> \<not> ws_connected s \<and> ws_pending s = []"
  by (simp add: ws_ok_def gone_def parted_def ids_wf_def pending_ids_def)

lemma silent_micro:
  assumes "ws_ok s" and "gone s"
  shows "gone (fst (microtask env s)) \<and> calls_out (snd (microtask env s)) = []"
proof (cases "ws_micro s")
  case (Cons m ms)
  let ?s = "s\<lparr>ws_micro := ms\<rparr>"
  have g: "gone ?s" "ws_socket ?s = None" using gone_facts[OF assms] assms(2) by (simp_all add: gone_def)
  have "gone (fst (run_micro env m ?s)) \<and> calls_out (snd (run_micro env m ?s)) = []"
  proof (cases m)
    case (Subscribed key c result)
    then show ?thesis
      using gone_links[OF subscribe_settled_links[of env key c result ?s]] subscribe_settled_out g(1) by simp
  next
    case (Subscribe_failed key c err)
    then show ?thesis using gone_links[OF subscribe_failed_links[of key c err ?s]] g(1)
      by (simp add: subscribe_failed_def Let_def split: caller.splits)
  qed (use g in \<open>simp_all add: hello_accepted_def reconnectAfterCurrentSocketFailure_def\<close>)
  with Cons show ?thesis by (simp add: microtask_def)
qed (simp add: microtask_def assms)

lemma silent_flush:
  assumes "ws_ok s" and "gone s"
  shows "gone (fst (ws_flushPending env (s\<lparr>ws_flushing := False\<rparr>))) \<and> calls_out (snd (ws_flushPending env (s\<lparr>ws_flushing := False\<rparr>))) = []"
  using flush_links[of env "s\<lparr>ws_flushing := False\<rparr>"] gone_facts[OF assms] assms(2) by (simp add: gone_def links_def)

lemma gone_net: "net s' = net s \<Longrightarrow> gone s \<Longrightarrow> gone s'"
  by (simp add: net_def gone_def)

lemma silent_step:
  assumes ok: "ws_ok s" and g: "gone s" and "\<not> connects x"
  shows "gone (fst (ws_step x s)) \<and> calls_out (snd (ws_step x s)) = []"
proof -
  obtain env op where x: "x = (env, op)" by fastforce
  note f = gone_facts[OF ok g]
  have nohears: "\<not> hears n t" if "ws_socket t = None" for n t using that by (simp add: hears_def)
  show ?thesis
  proof (cases op)
    case (Ws_subscribe r)
    then show ?thesis using f g by (simp add: x subscribeDashboardRoute_def Let_def rememberRouteState_def gone_def)
  next
    case Ws_disconnect
    then show ?thesis by (simp add: x disconnectDashboardWS_def gone_def set_down_def)
  next
    case (Ws_discovered n a)
    then show ?thesis using g
      by (auto simp: x discovered_def Let_def gone_def split: sum.splits prod.splits)
  next
    case (Ws_closing n)
    then show ?thesis using g by (simp add: x quietly_def socket_closing_def gone_def)
  next
    case (Ws_opens n)
    then show ?thesis using f g by (simp add: x socket_opens_def Let_def nohears) (simp add: gone_def)
  next
    case (Ws_closes n e)
    then show ?thesis using f g by (simp add: x socket_closes_def Let_def nohears) (simp add: gone_def)
  next
    case (Ws_rpc_timeout k)
    then show ?thesis using f g by (simp add: x rpc_timeout_def)
  next
    case (Ws_connect ro)
    with assms(3) show ?thesis by (simp add: x)
  qed (use f g silent_flush[OF ok g] silent_micro[OF ok g] in \<open>simp_all add: x quietly_def flushPendingInbound_def frame_fires_def
        nohears socket_message_def socket_error_def reconnect_fires_def gone_net\<close>)
qed

lemma silent_run:
  "ws_ok s \<Longrightarrow> gone s \<Longrightarrow> \<forall>x\<in>set ys. \<not> connects x \<Longrightarrow>
     ws_ok (fst (run ws_step ys s)) \<and> gone (fst (run ws_step ys s)) \<and> calls_out (snd (run ws_step ys s)) = []"
proof (induction ys arbitrary: s)
  case (Cons y ys)
  have "ws_ok (fst (ws_step y s))" using keeps_step[of s y] Cons.prems(1) by (simp add: keeps_def)
  with Cons silent_step[of s y] show ?case by (simp add: run_Cons del: run.simps(2))
qed simp

lemma none_live: "ws_ok s \<Longrightarrow> ws_socket s = None \<Longrightarrow> filter live (ws_sockets s) = []"
  using ok_live[of s] by (fastforce simp: filter_empty_conv in_set_conv_nth)

text \<open>C7: After a disconnect, whatever happened before it, nothing goes out until the application connects again: no
  discovery, no socket, no message, whichever late answers, socket events, timeouts and promise callbacks still
  arrive. No socket is left alive, no reconnect timer armed, no remote call pending, and the connection stays down.\<close>

theorem ws_disconnect_silences:
  assumes "\<forall>y\<in>set ys. \<not> connects y"
  shows "let s = fst (run ws_step (xs @ [(env, Ws_disconnect)]) dws_init); (t, es) = run ws_step ys s
         in calls_out es = [] \<and> ws_socket t = None \<and> ws_reconnectTimer t = None \<and> ws_pending t = [] \<and>
            \<not> ws_connected t \<and> \<not> ws_ready t \<and> filter live (ws_sockets t) = []"
proof -
  let ?s = "fst (run ws_step (xs @ [(env, Ws_disconnect)]) dws_init)"
  have "gone ?s" by (simp add: run_append disconnectDashboardWS_def gone_def set_down_def)
  then have t: "ws_ok (fst (run ws_step ys ?s))" "gone (fst (run ws_step ys ?s))" "calls_out (snd (run ws_step ys ?s)) = []"
    using silent_run[OF ws_ok_run _ assms] by blast+
  note f = gone_facts[OF t(1,2)]
  have "filter live (ws_sockets (fst (run ws_step ys ?s))) = []" by (rule none_live[OF t(1) conjunct1[OF f]])
  with f t(3) show ?thesis by (simp add: split_beta Let_def)
qed

section \<open>The attempts do not end by themselves\<close>

definition trying :: "dws \<Rightarrow> bool" where
  "trying s \<longleftrightarrow> ws_socket s \<noteq> None \<or> ws_reconnectTimer s \<noteq> None \<or> ws_generation s \<in> set (ws_discovering s)"

text \<open>
  What may end them: the application disconnects; the answer to the discovery says that websockets are not enabled
  (\<open>retry\<close> is false), or that they are enabled and listening at an address that is empty or that \<open>new WebSocket\<close> refuses;
  the engine has no websockets when the timer fires.
\<close>

fun ends_trying :: "ws_env \<times> ws_op \<Rightarrow> bool" where
  "ends_trying (env, Ws_disconnect) = True"
| "ends_trying (env, Ws_reconnect) = (\<not> en_webSocket env)"
| "ends_trying (env, Ws_discovered g a) =
     (case discoverWsUrl a of
        Inl err \<Rightarrow> False
      | Inr (url, retry) \<Rightarrow> if or_empty url = '''' then \<not> retry else \<not> en_url_ok env (the url))"
| "ends_trying _ = False"

lemma trying_links: "links s' = links s \<Longrightarrow> trying s' = trying s"
  by (simp add: links_def trying_def)

lemma trying_wanted: "ws_ok s \<Longrightarrow> trying s \<Longrightarrow> ws_shouldReconnect s"
  by (auto simp: ws_ok_def trying_def parted_def)

lemma trying_schedule: "ws_shouldReconnect s \<Longrightarrow> trying (scheduleReconnect env s)"
  by (simp add: trying_def)

lemma trying_connect: "en_webSocket env \<Longrightarrow> trying (fst (connectDashboardWS env ro s))"
  by (auto simp: connectDashboardWS_def Let_def trying_def rememberRouteState_def split: option.splits)

lemma trying_discovered:
  assumes "trying s" and should: "ws_shouldReconnect s" and "\<not> ends_trying (env, Ws_discovered g a)"
  shows "trying (fst (discovered env g a s))"
proof (cases "g \<in> set (ws_discovering s)")
  case True
  let ?s = "s\<lparr>ws_discovering := remove1 g (ws_discovering s)\<rparr>"
  have err: "trying (scheduleReconnect env (set_error e ?s))" for e
    using should by (intro trying_schedule) (simp add: set_error_def)
  show ?thesis
  proof (cases "g = ws_generation s")
    case current: True
    have new: "trying (fst (open_new_socket env url ?s))" if "en_url_ok env url" for url
      using that by (simp add: open_new_socket_def trying_def)
    show ?thesis
      using True current assms err new by (auto simp: discovered_def Let_def split: sum.splits prod.splits if_splits)
  next
    case False
    then have "trying ?s" using assms(1) by (auto simp: trying_def in_set_remove1)
    with True False show ?thesis by (auto simp: discovered_def Let_def split: sum.splits prod.splits)
  qed
qed (simp add: discovered_def assms)

lemma trying_closes:
  assumes "trying s" and "ws_shouldReconnect s"
  shows "trying (fst (socket_closes env n e s))"
proof (cases "n < length (ws_sockets s) \<and> wk_ready (ws_sockets s ! n) \<noteq> CLOSED \<and> hears n (set_ready_state n CLOSED s)")
  case True
  then show ?thesis using assms(2) by (simp add: socket_closes_def Let_def trying_def set_error_def set_down_def)
next
  case False
  have "trying (set_ready_state n CLOSED s)" using assms(1) by (simp add: trying_def)
  with False assms(1) show ?thesis by (auto simp: socket_closes_def Let_def)
qed

lemma trying_micro:
  assumes "trying s" and "ws_shouldReconnect s"
  shows "trying (fst (microtask env s))"
proof (cases "ws_micro s")
  case (Cons m ms)
  let ?s = "s\<lparr>ws_micro := ms\<rparr>"
  have t: "trying ?s" using assms(1) by (simp add: trying_def)
  have "trying (fst (run_micro env m ?s))"
  proof (cases m)
    case (Failed n err)
    show ?thesis
      using t assms(2) by (auto simp: Failed reconnectAfterCurrentSocketFailure_def set_error_def set_down_def intro!: trying_schedule)
  qed (use t trying_links[OF subscribe_settled_links] trying_links[OF subscribe_failed_links] trying_links[OF hello_links]
      in \<open>simp_all\<close>)
  with Cons show ?thesis by (simp add: microtask_def)
qed (simp add: microtask_def assms)

lemma trying_flush: "trying s \<Longrightarrow> trying (fst (ws_flushPending env (s\<lparr>ws_flushing := False\<rparr>)))"
  using flush_links[of env "s\<lparr>ws_flushing := False\<rparr>"] by (simp add: trying_def links_def)

lemma trying_net: "net s' = net s \<Longrightarrow> trying s \<Longrightarrow> trying s'"
  using trying_links[OF net_links, of s' s] by blast

lemma trying_opens: "trying s \<Longrightarrow> trying (fst (socket_opens env n s))"
proof -
  assume t: "trying s"
  let ?s = "(set_ready_state n OPEN s)\<lparr>ws_connected := True, ws_reconnectAttempts := 0\<rparr>"
  have "trying (set_ready_state n OPEN s)" "trying ?s" using t by (simp_all add: trying_def)
  then have "trying (fst (sendRpc env r params ?s))" for r params using trying_links[OF sendRpc_links] by blast
  with t \<open>trying (set_ready_state n OPEN s)\<close> show ?thesis by (simp add: socket_opens_def Let_def)
qed

lemma trying_step:
  assumes "ws_ok s" and t: "trying s" and "\<not> ends_trying x"
  shows "trying (fst (ws_step x s))"
proof -
  obtain env op where x: "x = (env, op)" by fastforce
  have should: "ws_shouldReconnect s" by (rule trying_wanted[OF assms(1,2)])
  have same: "trying s'" if "net s' = net s" for s' by (rule trying_net[OF that t])
  show ?thesis
  proof (cases op)
    case (Ws_connect ro)
    then show ?thesis
      using t by (cases "en_webSocket env") (auto simp: x trying_connect, simp add: connectDashboardWS_def trying_def
        rememberRouteState_def split: option.splits)
  next
    case Ws_reconnect
    then show ?thesis using t assms(3) by (simp add: x reconnect_fires_def trying_connect)
  next
    case (Ws_closing n)
    then show ?thesis using t by (simp add: x quietly_def socket_closing_def trying_def)
  next
    case (Ws_subscribe r)
    then show ?thesis using t trying_links[OF subscribe_links, of env r From_app s] by (simp add: x)
  next
    case (Ws_rpc_timeout k)
    have "links (fst (rpc_timeout k s)) = links s" by (simp add: rpc_timeout_def split: option.splits)
    from trying_links[OF this] show ?thesis using t by (simp add: x Ws_rpc_timeout)
  next
    case (Ws_discovered g a)
    then show ?thesis using trying_discovered[OF t should, of env g a] assms(3) unfolding x by (simp only: ws_step.simps simp_thms)
  next
    case Ws_disconnect
    with assms(3) show ?thesis by (simp add: x)
  next
    case (Ws_opens n)
    then show ?thesis by (simp add: x trying_opens[OF t])
  next
    case (Ws_closes n e)
    then show ?thesis by (simp add: x trying_closes[OF t should])
  next
    case Ws_microtask
    then show ?thesis by (simp add: x trying_micro[OF t should])
  next
    case Ws_flush
    then show ?thesis by (simp add: x flushPendingInbound_def trying_flush[OF t])
  next
    case Ws_frame
    then show ?thesis by (simp add: x frame_fires_def trying_flush[OF t] t)
  qed (simp_all add: x quietly_def socket_message_def socket_error_def same)
qed

text \<open>C13: Once asked to connect where \<open>WebSocket\<close> exists, the client never gives up by itself: after every later event it holds a socket, has a
  reconnect timer armed or is waiting for the answer of its newest discovery, unless one of these happens: the application
  disconnects; an answer to a discovery says that websockets are not enabled, or that they are and listening, but at an empty
  address or at one the engine refuses; or \<open>WebSocket\<close> is not there when the reconnect timer fires. (With an empty
  address the client gives up in silence, see \<open>empty_address_gives_up\<close>.)\<close>

theorem ws_keeps_trying:
  assumes "en_webSocket env" and "\<forall>y\<in>set ys. \<not> ends_trying y"
  shows "let s = fst (run ws_step (xs @ (env, Ws_connect ro) # ys) dws_init)
         in ws_socket s \<noteq> None \<or> ws_reconnectTimer s \<noteq> None \<or> ws_generation s \<in> set (ws_discovering s)"
proof -
  have "ws_ok s \<Longrightarrow> trying s \<Longrightarrow> trying (fst (run ws_step ys s))" for s
    using assms(2)
  proof (induction ys arbitrary: s)
    case (Cons y ys)
    have "ws_ok (fst (ws_step y s))" using keeps_step[of s y] Cons.prems(1) by (simp add: keeps_def)
    with Cons trying_step[of s y] show ?case by (simp add: run_Cons del: run.simps(2))
  qed simp
  moreover have "ws_ok (fst (run ws_step (xs @ [(env, Ws_connect ro)]) dws_init))" by (rule ws_ok_run)
  moreover have "trying (fst (run ws_step (xs @ [(env, Ws_connect ro)]) dws_init))"
    using assms(1) by (simp add: run_append trying_connect)
  ultimately have "trying (fst (run ws_step ((xs @ [(env, Ws_connect ro)]) @ ys) dws_init))"
    by (simp only: run_append fst_conv)
  then show ?thesis by (simp add: trying_def Let_def)
qed

section \<open>The delay before the next attempt\<close>

lemma delay_without_jitter:
  "reconnect_delay a random = of_nat (if a < 7 then 500 * 2 ^ a else 60000) + random * 1000"
proof -
  have "min 60000 (500 * 2 ^ min a 7) = (if a < 7 then 500 * 2 ^ a else 60000 :: nat)"
  proof (cases "a < 7")
    case True
    then have "(2::nat) ^ a \<le> 2 ^ 6" by (intro power_increasing) auto
    with True show ?thesis by simp
  qed simp
  then show ?thesis
    by (simp add: reconnect_delay_def max_exp RECONNECT_MAX_MS_def WS_RECONNECT_BASE_MS_def RECONNECT_JITTER_MS_def)
qed

text \<open>The pause before an attempt starts at one second, doubles with every attempt that has not opened a socket and
  stays at a minute from the seventh on, with up to a second of jitter; so it is never under one second nor over 61,
  and a timer that is armed is not armed again.\<close>

theorem ws_backoff_bounds:
  assumes "0 \<le> en_random env" and "en_random env < 1" and "ws_shouldReconnect s"
  shows "let a = ws_reconnectAttempts s + 1; base = (if a < 7 then 500 * 2 ^ a else 60000) :: rat;
             s' = scheduleReconnect env s
         in (if ws_reconnectTimer s \<noteq> None then s' = s
             else \<exists>d. s' = s\<lparr>ws_reconnectAttempts := a, ws_reconnectTimer := Some d\<rparr> \<and>
                  base \<le> d \<and> d < base + 1000 \<and> 1000 \<le> d \<and> d < 61000)"
proof -
  let ?a = "ws_reconnectAttempts s + 1"
  let ?base = "(if ?a < 7 then 500 * 2 ^ ?a else 60000) :: rat"
  have "1000 \<le> ?base \<and> ?base \<le> 60000"
  proof (cases "?a < 7")
    case True
    have "(2::rat) ^ 1 \<le> 2 ^ ?a" "(2::rat) ^ ?a \<le> 2 ^ 6" using True by (intro power_increasing; simp)+
    with True show ?thesis by simp
  qed simp
  moreover have "reconnect_delay ?a (en_random env) = ?base + en_random env * 1000"
    by (simp add: delay_without_jitter)
  ultimately have d: "?base \<le> reconnect_delay ?a (en_random env)" "reconnect_delay ?a (en_random env) < ?base + 1000"
    "1000 \<le> reconnect_delay ?a (en_random env)" "reconnect_delay ?a (en_random env) < 61000"
    using assms(1,2) by linarith+
  have "scheduleReconnect env s =
      (if ws_reconnectTimer s \<noteq> None then s
       else s\<lparr>ws_reconnectAttempts := ?a, ws_reconnectTimer := Some (reconnect_delay ?a (en_random env))\<rparr>)"
    using assms(3) by (simp add: scheduleReconnect_def Let_def)
  note eq = this
  show ?thesis
  proof (cases "ws_reconnectTimer s = None")
    case True
    then have e: "scheduleReconnect env s = s\<lparr>ws_reconnectAttempts := ?a, ws_reconnectTimer := Some (reconnect_delay ?a (en_random env))\<rparr>"
      using eq by simp
    have "\<exists>d. scheduleReconnect env s = s\<lparr>ws_reconnectAttempts := ?a, ws_reconnectTimer := Some d\<rparr> \<and>
        ?base \<le> d \<and> d < ?base + 1000 \<and> 1000 \<le> d \<and> d < 61000"
      unfolding e using d by blast
    then show ?thesis using True unfolding Let_def by (simp only: not_True_eq_False if_False simp_thms)
  next
    case False
    then show ?thesis using eq unfolding Let_def by (simp only: simp_thms not_False_eq_True if_True)
  qed
qed

section \<open>Only slices of the route are hydrated\<close>

definition unwanted :: "dws \<Rightarrow> ws_event \<Rightarrow> bool" where
  "unwanted s e = (case e of Hydrate sl payload t \<Rightarrow> \<not> activeRouteWantsDashboardSlice s sl | _ \<Rightarrow> False)"

lemma unwanted_simps [simp]:
  "unwanted s (Rpc_settled k) = False" "unwanted s (Push v) = False" "unwanted s (Socket_sent n v) = False" "unwanted s Uncaught = False"
  "unwanted s (App_rejected err) = False" "unwanted s (Discover g) = False" "unwanted s (Opened n url) = False"
  "filter (unwanted s) (map Rpc_settled ks) = []"
  by (simp_all add: unwanted_def filter_empty_conv)

lemma unwanted_cong: "ws_desired s' = ws_desired s \<Longrightarrow> unwanted s' = unwanted s"
  by (rule ext) (simp add: unwanted_def activeRouteWantsDashboardSlice_def split: ws_event.splits)

text \<open>A handler that leaves the route alone and hydrates only what it wants.\<close>

definition obedient :: "dws \<Rightarrow> dws \<times> ws_event list \<Rightarrow> bool" where
  "obedient s p \<longleftrightarrow> ws_desired (fst p) = ws_desired s \<and> filter (unwanted s) (snd p) = []"

lemma hydrate_wanted [simp]: "filter (unwanted s) (fst (hydrateRouteDashboardSlice env sl payload et s)) = []"
  by (simp add: hydrateRouteDashboardSlice_def store_call_def unwanted_def)

lemma push_wanted [simp]: "filter (unwanted s) (fst (handleRawPush env v)) = []" "filter (unwanted s) (fst (push_all env vs)) = []"
proof -
  show one: "filter (unwanted s) (fst (handleRawPush env v)) = []" for v
    by (simp add: handleRawPush_def store_call_def split: option.splits)
  show "filter (unwanted s) (fst (push_all env vs)) = []"
    by (induction vs) (simp_all add: split_beta Let_def one)
qed

lemma hydrate_all_wanted [simp]: "filter (unwanted s) (fst (hydrate_all env kvs s)) = []"
proof (induction kvs)
  case (Cons kv kvs)
  then show ?case by (cases kv) (simp add: split_beta Let_def)
qed simp

lemma note_desired [simp]:
  "ws_desired (note_seq q s) = ws_desired s" "ws_desired (noteDashboardWsEvent now s) = ws_desired s"
  "ws_desired (enqueue ms s) = ws_desired s"
  by (simp_all add: note_seq_def noteDashboardWsEvent_def enqueue_def split: option.splits json.splits)

lemma obedient_snapshot: "obedient s (of_attempt (applySnapshot env raw s))"
proof -
  have "filter (unwanted s) (fst (hydrate_all env kvs (note_seq q s))) = []" for kvs q
    using hydrate_all_wanted[of "note_seq q s"] unwanted_cong[of "note_seq q s" s] by simp
  then show ?thesis by (simp add: applySnapshot_def obedient_def of_attempt_def Let_def split: sum.splits)
qed

lemma obedient_delta: "obedient s (of_attempt (applyDelta env raw s))"
proof -
  have h: "filter (unwanted s) (fst (hydrateRouteDashboardSlice env sl pl et t)) = []" if "ws_desired t = ws_desired s" for sl pl et t
    using hydrate_wanted[of t] unwanted_cong[OF that] by simp
  have ack: "filter (unwanted s) (ack_events env q s) = []" for q
    by (simp add: ack_events_def sendNotification_def split: option.splits json.splits)
  show ?thesis
    by (simp add: applyDelta_def obedient_def of_attempt_def Let_def split_beta ack h split: sum.splits option.splits json.splits)
qed

lemma obedient_parsed: "obedient s (of_attempt (processInboundParsedMessage env raw s))"
proof (cases "handleRpcResponse raw s")
  case None
  have "obedient s (of_attempt att)" if "handleNotification env raw s = Some att" for att
    using that obedient_delta obedient_snapshot by (auto simp: handleNotification_def split: if_splits)
  with None show ?thesis
    by (cases "handleNotification env raw s") (simp_all add: processInboundParsedMessage_def of_attempt_def obedient_def)
next
  case (Some p)
  then have "ws_desired (fst p) = ws_desired s \<and> filter (unwanted s) (snd p) = []"
    by (auto simp: handleRpcResponse_def Let_def split: option.splits json.splits)
  with Some show ?thesis by (cases p) (simp add: processInboundParsedMessage_def of_attempt_def obedient_def)
qed

lemma obedient_item: "obedient s (of_attempt (process_item env v s))"
  using obedient_parsed[of s env]
  by (cases v) (auto simp: processInboundMessage_def of_attempt_def obedient_def split: option.splits)

lemma obedient_and_then: "obedient s p \<Longrightarrow> obedient (fst p) (f (fst p)) \<Longrightarrow> obedient s (and_then p f)"
  using unwanted_cong[of "fst p" s] by (simp add: obedient_def)

lemma obedient_batch: "obedient s (of_attempt (process_batch env vs s))"
proof (induction vs arbitrary: s)
  case Nil
  show ?case by (simp add: of_attempt_def obedient_def)
next
  case (Cons v vs)
  then show ?case unfolding of_attempt_batch by (simp add: obedient_item obedient_and_then)
qed

lemma obedient_flush: "obedient s (ws_flushPending env (s\<lparr>ws_flushing := False\<rparr>))"
proof -
  let ?s = "s\<lparr>ws_flushing := False, ws_inbound := []\<rparr>"
  have "unwanted ?s = unwanted s" by (rule unwanted_cong) simp
  then show ?thesis
    using obedient_batch[of ?s env "ws_inbound s"]
    by (simp add: ws_flushPending_def split_beta of_attempt_def obedient_def)
qed

lemma obedient_subscribe_settled: "obedient s (subscribe_settled env key c result s)"
proof -
  obtain s1 es threw where a: "applySubscribeResult env result s = (s1, es, threw)" by (rule prod_cases3)
  have "obedient s (of_attempt (applySubscribeResult env result s))"
    using obedient_snapshot[of s env] by (auto simp: applySubscribeResult_def of_attempt_def obedient_def split: sum.splits)
  then have "obedient s (s1, es)" by (simp add: a of_attempt_def)
  then show ?thesis
    by (simp add: subscribe_settled_def a obedient_def subscribe_failed_def Let_def split: caller.splits)
qed

lemma sends_only:
  "filter (unwanted t) (snd (sendRpc env r params s)) = []"
  "filter (unwanted t) (snd (subscribeDashboardRoute env ro c s)) = []"
proof -
  show a: "filter (unwanted t) (snd (sendRpc env r params s)) = []" for r params s
    by (simp add: sendRpc_def Let_def split: option.splits)
  show "filter (unwanted t) (snd (subscribeDashboardRoute env ro c s)) = []"
    by (simp add: subscribeDashboardRoute_def Let_def a)
qed

lemma wanted_micro: "filter (unwanted s) (snd (microtask env s)) = []"
proof (cases "ws_micro s")
  case (Cons m ms)
  let ?s = "s\<lparr>ws_micro := ms\<rparr>"
  have u: "unwanted ?s = unwanted s" by (rule unwanted_cong) simp
  have "filter (unwanted ?s) (snd (run_micro env m ?s)) = []"
  proof (cases m)
    case (Subscribed key c result)
    then show ?thesis using obedient_subscribe_settled[of ?s env key c result] by (simp add: obedient_def)
  next
    case (Subscribe_failed key c err)
    then show ?thesis by (simp add: subscribe_failed_def Let_def split: caller.splits)
  qed (simp_all add: hello_accepted_def Let_def sends_only reconnectAfterCurrentSocketFailure_def split: option.splits)
  with Cons u show ?thesis by (simp add: microtask_def)
qed (simp add: microtask_def)

text \<open>No event hands a store a slice that the current route does not show: whatever a snapshot, a delta or the answer
  to a subscription made for an earlier route contains, only slices of \<open>dashboardSlicesForRoute\<close> of the route
  in force are hydrated, and while no route is known every slice may be.\<close>

theorem ws_hydrates_route_slices: "filter (unwanted s) (snd (ws_step x s)) = []"
proof -
  obtain env op where x: "x = (env, op)" by fastforce
  show ?thesis
  proof (cases op)
    case (Ws_connect ro)
    then show ?thesis by (simp add: x connectDashboardWS_def Let_def)
  next
    case (Ws_discovered g a)
    then show ?thesis by (auto simp: x discovered_def Let_def open_new_socket_def split: sum.splits prod.splits)
  next
    case (Ws_rpc_timeout k)
    then show ?thesis by (simp add: x rpc_timeout_def split: option.splits)
  next
    case (Ws_closes n e)
    then show ?thesis by (simp add: x socket_closes_def Let_def)
  next
    case (Ws_reconnect)
    then show ?thesis by (simp add: x reconnect_fires_def connectDashboardWS_def Let_def)
  qed (use obedient_flush[of s env] in \<open>simp_all add: x sends_only disconnectDashboardWS_def flushPendingInbound_def frame_fires_def
        obedient_def quietly_def socket_opens_def Let_def wanted_micro\<close>)
qed

section \<open>Connecting\<close>

definition answer_to :: "nat \<Rightarrow> json" where
  "answer_to k = J_obj [(''id'', J_num (of_nat k)), (''result'', J_obj [])]"

definition address :: "string \<Rightarrow> answer" where
  "address url = Body (J_obj [(''enabled'', J_bool True), (''listening'', J_bool True), (''ws_url'', J_str url)])"





lemma discover_address [simp]: "discoverWsUrl (address url) = Inr (Some url, False)"
  by (simp add: discoverWsUrl_def address_def field_def)

lemma subscribe_key_ne [simp]: "subscribe_key r \<noteq> ''''"
  by (simp add: subscribe_key_def)








section \<open>Concrete runs\<close>

text \<open>A server whose texts \<open>JSON.parse\<close> reads as the values below; workers and the clock as given.\<close>

definition delta_of :: "rat \<Rightarrow> json" where
  "delta_of seq = J_obj [(''method'', J_str ''dashboard/delta''), (''params'', J_obj [(''seq'', J_num seq), (''slice'', J_str ''shell'')])]"

definition sample_parse :: "string \<Rightarrow> json option" where
  "sample_parse s = map_of [(''1'', answer_to 1), (''2'', answer_to 2), (''3'', answer_to 3), (''d'', delta_of 7),
     (''x'', J_obj [(''method'', J_str ''dashboard/delta'')])] s"

definition sample_env :: "bool \<Rightarrow> ws_env" where
  "sample_env workers = \<lparr>en_webSocket = True, en_workers = workers, en_url_ok = (\<lambda>url. True), en_send = None, en_post_ok = True,
     en_now = 0, en_random = 0, en_token = None, en_buffered = 0, en_parse = sample_parse, en_schema = Some,
     en_throws = (\<lambda>e. False)\<rparr>"

definition at_url :: answer where
  "at_url = Body (J_obj [(''enabled'', J_bool True), (''listening'', J_bool True), (''ws_url'', J_str ''ws:'')])"

definition home :: route_state where
  "home = \<lparr>rs_tab = Overview, rs_params = []\<rparr>"

definition play :: "bool \<Rightarrow> ws_op list \<Rightarrow> dws \<times> ws_event list" where
  "play workers ops = run ws_step (map (\<lambda>op. (sample_env workers, op)) ops) dws_init"

definition greeted :: "ws_op list" where
  "greeted = [Ws_connect (Some home), Ws_discovered 1 at_url, Ws_opens 0, Ws_message 0 (Some ''1''), Ws_frame, Ws_microtask]"

definition sent_on :: "nat \<Rightarrow> ws_event list \<Rightarrow> json list" where
  "sent_on n es = concat (map (\<lambda>e. case e of Socket_sent m v \<Rightarrow> if m = n then [v] else [] | _ \<Rightarrow> []) es)"

definition method_of :: "json \<Rightarrow> json option" where
  "method_of v = field ''method'' v"

definition closing_run :: "ws_op list" where
  "closing_run = greeted @ [Ws_message 0 (Some ''2''), Ws_frame, Ws_microtask, Ws_closing 0, Ws_connect None,
     Ws_discovered 2 at_url, Ws_opens 1, Ws_message 1 (Some ''3''), Ws_frame, Ws_microtask]"

definition stale_run :: "ws_op list" where
  "stale_run = [Ws_connect (Some home), Ws_discovered 1 at_url, Ws_opens 0, Ws_message 0 (Some ''d''), Ws_disconnect,
     Ws_connect (Some home), Ws_discovered 3 at_url, Ws_opens 1, Ws_worker_replies 0, Ws_frame]"

text \<open>
  A message that a worker was parsing at a disconnect is processed after the next connection: its sequence
  number is acknowledged on the new socket, on which no message has arrived.
\<close>

lemma stale_job_is_acknowledged:
  "map method_of (sent_on 1 (snd (play True stale_run))) = [Some (J_str ''dashboard/hello''), Some (J_str ''dashboard/ack'')]"
  by code_simp

text \<open>
  A connect while the current socket is closing replaces it without clearing \<open>lastSubscribeKey\<close>, so the greeted new
  connection takes its subscription for made.
\<close>

lemma closing_socket_loses_subscription:
  "ws_ready (fst (play False closing_run)) \<and> ws_socket (fst (play False closing_run)) = Some 1 \<and>
   ws_micro (fst (play False closing_run)) = [] \<and>
   map method_of (sent_on 1 (snd (play False closing_run))) = [Some (J_str ''dashboard/hello'')]"
  by (intro conjI; code_simp)

text \<open>Enabled and listening at an empty address: the client gives up, with no error to show and no timer.\<close>

lemma empty_address_gives_up:
  "\<not> trying (fst (play False [Ws_connect (Some home), Ws_discovered 1 (Body (J_obj [(''enabled'', J_bool True),
     (''listening'', J_bool True), (''ws_url'', J_str '''')]))])) \<and>
   ws_lastError (fst (play False [Ws_connect (Some home), Ws_discovered 1 (Body (J_obj [(''enabled'', J_bool True),
     (''listening'', J_bool True), (''ws_url'', J_str '''')]))])) = None"
  by (intro conjI; code_simp)

text \<open>A notification without \<open>params\<close> throws, and the messages buffered after it are lost with it.\<close>

lemma bad_message_drops_batch:
  "map method_of (sent_on 0 (snd (play False (greeted @ [Ws_message 0 (Some ''d''), Ws_frame])))) =
     [Some (J_str ''dashboard/hello''), Some (J_str ''dashboard/subscribe''), Some (J_str ''dashboard/ack'')] \<and>
   map method_of (sent_on 0 (snd (play False (greeted @ [Ws_message 0 (Some ''x''), Ws_message 0 (Some ''d''), Ws_frame])))) =
     [Some (J_str ''dashboard/hello''), Some (J_str ''dashboard/subscribe'')] \<and>
   ws_inbound (fst (play False (greeted @ [Ws_message 0 (Some ''x''), Ws_message 0 (Some ''d''), Ws_frame]))) = []"
  by (intro conjI; code_simp)

lemma ws_disconnect_silences_witness:
  "calls_out (snd (run ws_step [(sample_env True, Ws_worker_replies 0), (sample_env True, Ws_frame), (sample_env True, Ws_opens 0)]
     (fst (run ws_step ([(sample_env True, Ws_connect (Some home)), (sample_env True, Ws_discovered 1 at_url),
        (sample_env True, Ws_opens 0), (sample_env True, Ws_message 0 (Some ''d''))] @ [(sample_env True, Ws_disconnect)]) dws_init)))) = []"
  using ws_disconnect_silences[of "[(sample_env True, Ws_worker_replies 0), (sample_env True, Ws_frame), (sample_env True, Ws_opens 0)]"
      "[(sample_env True, Ws_connect (Some home)), (sample_env True, Ws_discovered 1 at_url),
        (sample_env True, Ws_opens 0), (sample_env True, Ws_message 0 (Some ''d''))]" "sample_env True"]
  by (simp add: split_beta Let_def del: run.simps)

lemma ws_keeps_trying_witness:
  "trying (fst (run ws_step ([] @ (sample_env False, Ws_connect (Some home)) # [(sample_env False, Ws_discovered 1 Not_ok)]) dws_init))"
  unfolding trying_def
  by (rule ws_keeps_trying[unfolded Let_def])
    (simp_all add: sample_env_def discoverWsUrl_def)

lemma ws_backoff_bounds_witness:
  "\<exists>d. scheduleReconnect (sample_env False) dws_init = dws_init\<lparr>ws_reconnectAttempts := 1, ws_reconnectTimer := Some d\<rparr> \<and>
     1000 \<le> d \<and> d < 2000"
  using ws_backoff_bounds[of "sample_env False" dws_init]
  by (auto simp: sample_env_def dws_init_def)


end
