(* ===== verification/Dashboard_Ws_Wire.thy ===== *)
theory Dashboard_Ws_Wire
  imports Dashboard_Ws_Safety
begin

text \<open>
  Two more facts of the websocket client: the promise callbacks it queues run out, and what it sends is well formed and
  numbered without repetition.
\<close>

section \<open>The promise callbacks run out\<close>

fun weight :: "micro \<Rightarrow> nat" where
  "weight (Hello_ok n) = 3"
| "weight (Failed n err) = 1"
| "weight (Subscribed key (From_hello n) result) = 2"
| "weight (Subscribed key From_app result) = 1"
| "weight (Subscribe_failed key (From_hello n) err) = 2"
| "weight (Subscribe_failed key From_app err) = 1"

definition load :: "rpc \<Rightarrow> nat" where
  "load r = weight (reject_rpc r '''')"

definition work :: "dws \<Rightarrow> nat" where
  "work s = sum_list (map weight (ws_micro s)) + sum_list (map (\<lambda>p. load (snd p)) (ws_pending s))"

lemma weight_reject [simp]: "weight (reject_rpc r err) = load r"
proof (cases r)
  case (Rpc_subscribe key c)
  then show ?thesis by (cases c) (simp_all add: load_def)
qed (simp add: load_def)

lemma weight_bounds: "0 < weight m \<and> weight m \<le> 3"
  by (induction m rule: weight.induct) simp_all

lemma load_subscribe: "load (Rpc_subscribe key c) \<le> 2"
  by (cases c) (simp_all add: load_def)

lemma work_enqueue [simp]: "work (enqueue ms s) = work s + sum_list (map weight ms)"
  by (simp add: work_def enqueue_def)

lemma work_net_cong: "ws_micro s' = ws_micro s \<Longrightarrow> ws_pending s' = ws_pending s \<Longrightarrow> work s' = work s"
  by (simp add: work_def)

lemma work_sendRpc:
  assumes "ids_wf (ws_socket s) (pending_ids s) (ws_rpcId s)"
  shows "work (fst (sendRpc env r params s)) = work s + load r"
proof -
  have "Suc (ws_rpcId s) \<notin> set (map_keys (ws_pending s))"
    using assms by (auto simp: ids_wf_def pending_ids_def)
  then have upd: "map_set (Suc (ws_rpcId s)) r (ws_pending s) = ws_pending s @ [(Suc (ws_rpcId s), r)]"
    and del: "map_del (Suc (ws_rpcId s)) (ws_pending s @ [(Suc (ws_rpcId s), r)]) = ws_pending s"
    using delete_absent[of "Suc (ws_rpcId s)" "ws_pending s"] by (simp_all add: update_append AList.delete_eq)
  show ?thesis
    by (simp add: sendRpc_def Let_def upd del split: option.splits) (simp add: work_def)
qed

lemma work_close: "work (fst (closeSocket s)) = work s"
proof -
  have "ws_pending (drop_socket s) = ws_pending s" "ws_micro (drop_socket s) = ws_micro s"
    by (simp_all add: drop_socket_def split: option.splits)
  moreover have "sum_list (map weight (map (\<lambda>p. reject_rpc (snd p) err) ps)) = sum_list (map (\<lambda>p. load (snd p)) ps)" for ps :: "(nat \<times> rpc) list" and err
    by (induction ps) simp_all
  ultimately show ?thesis
    by (simp add: closeSocket_def rejectPendingRpcs_def clearPendingInbound_def work_def enqueue_def)
qed

lemma work_subscribe_failed: "work (fst (subscribe_failed key c err s)) \<le> work s + (weight (Subscribe_failed key c err) - 1)"
  by (cases c) (simp_all add: subscribe_failed_def Let_def work_def enqueue_def)

lemma snapshot_micro: "ws_micro (fst (applySubscribeResult env raw s)) = ws_micro s"
  by (simp add: applySubscribeResult_def applySnapshot_def Let_def note_seq_def split: sum.splits option.splits json.splits)

lemma work_subscribe_settled: "work (fst (subscribe_settled env key c result s)) \<le> work s + (weight (Subscribed key c result) - 1)"
proof -
  obtain s1 es threw where a: "applySubscribeResult env result s = (s1, es, threw)" by (rule prod_cases3)
  have "net s1 = net s" "ws_micro s1 = ws_micro s" using net_subscribe_result[of env result s] snapshot_micro[of env result s] by (simp_all add: a)
  then have "work s1 = work s" by (intro work_net_cong) (simp_all add: net_def)
  then show ?thesis
    using work_subscribe_failed[of key c "''TypeError''" s1] by (cases c) (simp_all add: subscribe_settled_def a)
qed

lemma work_hello:
  assumes "ws_ok s"
  shows "work (fst (hello_accepted env n s)) \<le> work s + 2"
proof (cases "ws_socket s = Some n")
  case True
  let ?s = "\<lambda>r. s\<lparr>ws_ready := True, ws_lastError := None, ws_desired := Some r, ws_lastSubscribeKey := subscribe_key r\<rparr>"
  have same: "work (s\<lparr>ws_ready := True, ws_lastError := None\<rparr>) = work s" "work (?s r) = work s"
    "work (s\<lparr>ws_ready := True, ws_lastError := None, ws_desired := Some r\<rparr>) = work s" for r
    by (simp_all add: work_def)
  have "work (fst (sendRpc env (Rpc_subscribe (subscribe_key r) c) (subscribe_params r) (?s r))) \<le> work s + 2" for r c
    using assms load_subscribe[of "subscribe_key r" c] same(2)[of r]
    by (subst work_sendRpc) (simp_all add: ws_ok_def pending_ids_def)
  then show ?thesis using True same
    by (simp add: hello_accepted_def Let_def subscribeDashboardRoute_def rememberRouteState_def split: option.splits)
qed (simp add: hello_accepted_def)

lemma work_failure: "work (fst (reconnectAfterCurrentSocketFailure env n err s)) \<le> work s"
proof (cases "ws_socket s = Some n")
  case True
  let ?s = "(set_error err (set_down s))\<lparr>ws_lastSubscribeKey := ''''\<rparr>"
  have "work (scheduleReconnect env (fst (closeSocket ?s))) = work (fst (closeSocket ?s))" by (rule work_net_cong) simp_all
  also have "\<dots> = work ?s" by (rule work_close)
  also have "\<dots> = work s" by (rule work_net_cong) (simp_all add: set_error_def set_down_def)
  finally have "work (fst (reconnectAfterCurrentSocketFailure env n err s)) = work s"
    using True by (simp only: reconnectAfterCurrentSocketFailure_def fst_and_then fst_conv simp_thms if_False)
  then show ?thesis by simp
qed (simp add: reconnectAfterCurrentSocketFailure_def)

lemma work_microtask:
  assumes "ws_ok s" and "ws_micro s \<noteq> []"
  shows "work (fst (microtask env s)) < work s"
proof -
  obtain m ms where m: "ws_micro s = m # ms" using assms(2) by (cases "ws_micro s") auto
  let ?s = "s\<lparr>ws_micro := ms\<rparr>"
  have ok: "ws_ok ?s" using assms(1) net_ok[of ?s s] by simp
  have less: "work s = work ?s + weight m" by (simp add: work_def m)
  have "work (fst (run_micro env m ?s)) \<le> work ?s + (weight m - 1)"
  proof (cases m)
    case (Hello_ok n)
    then show ?thesis using work_hello[OF ok, of env n] by simp
  next
    case (Failed n err)
    then show ?thesis using work_failure[of env n err ?s] by simp
  next
    case (Subscribed key c result)
    then show ?thesis using work_subscribe_settled[of env key c result ?s] by (simp only: run_micro.simps)
  next
    case (Subscribe_failed key c err)
    then show ?thesis using work_subscribe_failed[of key c err ?s] by (simp only: run_micro.simps)
  qed
  moreover have "0 < weight m" using weight_bounds[of m] by blast
  ultimately have "work (fst (run_micro env m ?s)) < work s" using less by linarith
  then show ?thesis by (simp add: microtask_def m)
qed

lemma microtasks_done:
  "ws_micro s = [] \<Longrightarrow> fst (run ws_step (replicate n (env, Ws_microtask)) s) = s"
  by (induction n) (simp_all add: run_Cons microtask_def del: run.simps(2))

lemma weights_le: "sum_list (map weight ms) \<le> 3 * length ms \<and> (sum_list (map weight ms) = 0 \<longrightarrow> ms = [])"
proof (induction ms)
  case (Cons m ms)
  then show ?case using weight_bounds[of m] by simp
qed simp

lemma loads_le: "sum_list (map (\<lambda>p. load (snd p)) ps) \<le> 3 * length ps"
proof (induction ps)
  case (Cons p ps)
  then show ?case using weight_bounds[of "reject_rpc (snd p) ''''"] by simp
qed simp

lemma microtasks_drain:
  "ws_ok s \<Longrightarrow> work s \<le> n \<Longrightarrow> ws_micro (fst (run ws_step (replicate n (env, Ws_microtask)) s)) = []"
proof (induction n arbitrary: s)
  case 0
  then show ?case using weights_le[of "ws_micro s"] by (simp add: work_def)
next
  case (Suc n)
  show ?case
  proof (cases "ws_micro s = []")
    case True
    then show ?thesis by (simp only: microtasks_done)
  next
    case False
    have "ws_ok (fst (microtask env s))" using keeps_micro[of s env] Suc.prems(1) by (simp add: keeps_def)
    then show ?thesis
      using work_microtask[OF Suc.prems(1) False, of env] Suc.prems(2) Suc.IH[of "fst (microtask env s)"]
      by (simp add: run_Cons del: run.simps(2))
  qed
qed

text \<open>C25: The queue of promise callbacks runs empty: although a callback may queue others, by sending a call that fails at
  once or by giving a socket up and failing all its calls, at most three for each callback and each pending call run
  before none is left, so the engine always comes back to its next event.\<close>

theorem ws_callbacks_run_out:
  "let s = fst (run ws_step xs dws_init)
   in ws_micro (fst (run ws_step (replicate (3 * (length (ws_micro s) + length (ws_pending s))) (env, Ws_microtask)) s)) = []"
proof -
  let ?s = "fst (run ws_step xs dws_init)"
  have "work ?s \<le> 3 * (length (ws_micro ?s) + length (ws_pending ?s))"
    unfolding work_def distrib_left using weights_le[of "ws_micro ?s"] loads_le[of "ws_pending ?s"] by (intro add_mono) blast+
  then show ?thesis unfolding Let_def by (rule microtasks_drain[OF ws_ok_run])
qed

section \<open>What goes over the wire\<close>

definition wire_ok :: "json \<Rightarrow> bool" where
  "wire_ok v \<longleftrightarrow> field ''jsonrpc'' v = Some (J_str ''2.0'') \<and>
     (case field ''params'' v of Some (J_obj kvs) \<Rightarrow> True | _ \<Rightarrow> False) \<and>
     (case field ''id'' v of
        None \<Rightarrow> field ''method'' v = Some (J_str ''dashboard/ack'')
      | Some (J_num q) \<Rightarrow> field ''method'' v = Some (J_str ''dashboard/hello'') \<or> field ''method'' v = Some (J_str ''dashboard/subscribe'')
      | Some _ \<Rightarrow> False)"

fun malformed :: "ws_event \<Rightarrow> bool" where
  "malformed (Socket_sent n v) = (\<not> wire_ok v)"
| "malformed _ = False"

fun request_id1 :: "ws_event \<Rightarrow> rat list" where
  "request_id1 (Socket_sent n v) = (case field ''id'' v of Some (J_num q) \<Rightarrow> [q] | _ \<Rightarrow> [])"
| "request_id1 _ = []"

definition request_ids :: "ws_event list \<Rightarrow> rat list" where
  "request_ids es = concat (map request_id1 es)"

fun innocuous :: "ws_event \<Rightarrow> bool" where
  "innocuous e = (\<not> malformed e \<and> request_id1 e = [])"

declare innocuous.simps [simp del]

lemma innocuous_simps [simp]:
  "innocuous (Rpc_settled k)" "innocuous (Push v)" "innocuous Uncaught" "innocuous (App_rejected err)" "innocuous (Discover g)"
  "innocuous (Opened n url)" "innocuous (Hydrate sl pl t)" "list_all innocuous (map Rpc_settled ks)"
  by (simp_all add: innocuous.simps list_all_iff)

lemma innocuous_calls [simp]:
  "list_all innocuous (fst (hydrateRouteDashboardSlice env sl payload et s))" "list_all innocuous (fst (handleRawPush env v))"
  by (simp_all add: hydrateRouteDashboardSlice_def store_call_def handleRawPush_def split: option.splits)

lemma innocuous_hydrate_all [simp]: "list_all innocuous (fst (hydrate_all env kvs s))"
proof (induction kvs)
  case (Cons kv kvs)
  then show ?case by (cases kv) (simp add: split_beta Let_def)
qed simp

lemma innocuous_push_all [simp]: "list_all innocuous (fst (push_all env vs))"
  by (induction vs) (simp_all add: split_beta Let_def)

lemma innocuous_ack [simp]: "list_all innocuous (ack_events env q s)"
  by (simp add: ack_events_def sendNotification_def innocuous.simps wire_ok_def field_def split: option.splits json.splits)

lemma innocuous_snapshot [simp]: "list_all innocuous (fst (snd (applySnapshot env raw s)))"
  by (simp add: applySnapshot_def Let_def split: sum.splits)

lemma innocuous_subscribe_result [simp]: "list_all innocuous (fst (snd (applySubscribeResult env raw s)))"
  by (simp add: applySubscribeResult_def split: sum.splits)

lemma innocuous_delta [simp]: "list_all innocuous (fst (snd (applyDelta env raw s)))"
  by (simp add: applyDelta_def Let_def split_beta split: sum.splits option.splits json.splits)

lemma innocuous_parsed [simp]: "list_all innocuous (fst (snd (processInboundParsedMessage env raw s)))"
proof (cases "handleRpcResponse raw s")
  case None
  have "list_all innocuous (fst (snd att))" if "handleNotification env raw s = Some att" for att
    using that by (auto simp: handleNotification_def split: if_splits)
  with None show ?thesis
    by (cases "handleNotification env raw s") (simp_all add: processInboundParsedMessage_def)
next
  case (Some p)
  then have "list_all innocuous (snd p)"
    by (auto simp: handleRpcResponse_def Let_def split: option.splits json.splits)
  with Some show ?thesis by (cases p) (simp add: processInboundParsedMessage_def)
qed

lemma innocuous_item: "list_all innocuous (fst (snd (process_item env v s)))"
  by (cases v) (simp_all add: processInboundMessage_def split: option.splits)

lemma innocuous_batch: "list_all innocuous (fst (snd (process_batch env vs s)))"
proof (induction vs arbitrary: s)
  case (Cons v vs)
  then show ?case using innocuous_item[of env v s] by (simp add: split_beta Let_def)
qed simp

lemma innocuous_flush: "list_all innocuous (snd (ws_flushPending env s))"
  using innocuous_batch[of env "ws_inbound s" "s\<lparr>ws_inbound := []\<rparr>"] by (simp add: ws_flushPending_def split_beta)

text \<open>A step sends no request, or one under the next number.\<close>

definition orderly :: "dws \<Rightarrow> dws \<times> ws_event list \<Rightarrow> bool" where
  "orderly s p \<longleftrightarrow> filter malformed (snd p) = [] \<and>
     (request_ids (snd p) = [] \<or> request_ids (snd p) = [of_nat (Suc (ws_rpcId s))] \<and> ws_rpcId (fst p) = Suc (ws_rpcId s))"

lemma orderly_innocuous: "list_all innocuous (snd p) \<Longrightarrow> orderly s p"
  by (auto simp: orderly_def innocuous.simps list_all_iff filter_empty_conv request_ids_def)

lemma orderly_send:
  assumes "params = J_obj kvs"
  shows "orderly s (sendRpc env r params s)"
proof -
  have "orderly s (s1, [Socket_sent n (rpc_payload (Suc (ws_rpcId s)) (rpc_method r) params)])"
    if "ws_rpcId s1 = Suc (ws_rpcId s)" for s1 n
    using that assms by (cases r) (simp_all add: orderly_def request_ids_def wire_ok_def field_def rpc_payload_def)
  then show ?thesis
    by (simp add: sendRpc_def Let_def orderly_innocuous split: option.splits)
qed

lemma orderly_subscribe: "orderly s (subscribeDashboardRoute env r c s)"
proof -
  let ?s = "(rememberRouteState r s)\<lparr>ws_lastSubscribeKey := subscribe_key r\<rparr>"
  have "orderly ?s (sendRpc env (Rpc_subscribe (subscribe_key r) c) (subscribe_params r) ?s)"
    by (rule orderly_send) (simp add: subscribe_params_def)
  then have "orderly s (sendRpc env (Rpc_subscribe (subscribe_key r) c) (subscribe_params r) ?s)"
    by (simp add: orderly_def rememberRouteState_def)
  then show ?thesis by (simp add: subscribeDashboardRoute_def Let_def orderly_innocuous)
qed

lemma orderly_micro: "orderly s (microtask env s)"
proof (cases "ws_micro s")
  case (Cons m ms)
  let ?s = "s\<lparr>ws_micro := ms\<rparr>"
  have "orderly ?s (run_micro env m ?s)"
  proof (cases m)
    case (Hello_ok n)
    have "orderly ?s (subscribeDashboardRoute env r (From_hello n) (?s\<lparr>ws_ready := True, ws_lastError := None\<rparr>))" for r
      using orderly_subscribe[of "?s\<lparr>ws_ready := True, ws_lastError := None\<rparr>"] by (simp add: orderly_def)
    with Hello_ok show ?thesis by (simp add: hello_accepted_def Let_def orderly_innocuous split: option.splits)
  next
    case (Failed n err)
    then show ?thesis by (simp add: reconnectAfterCurrentSocketFailure_def orderly_innocuous)
  next
    case (Subscribed key c result)
    obtain s1 es threw where a: "applySubscribeResult env result ?s = (s1, es, threw)" by (rule prod_cases3)
    then have "list_all innocuous es" using innocuous_subscribe_result[of env result ?s] by simp
    with Subscribed show ?thesis
      by (intro orderly_innocuous) (simp add: subscribe_settled_def a subscribe_failed_def Let_def split: caller.splits)
  next
    case (Subscribe_failed key c err)
    then show ?thesis by (intro orderly_innocuous) (simp add: subscribe_failed_def Let_def split: caller.splits)
  qed
  with Cons show ?thesis by (simp add: microtask_def orderly_def)
qed (simp add: microtask_def orderly_innocuous)

lemma orderly_opens: "orderly s (socket_opens env n s)"
proof -
  let ?s = "(set_ready_state n OPEN s)\<lparr>ws_connected := True, ws_reconnectAttempts := 0\<rparr>"
  have "orderly ?s (sendRpc env (Rpc_hello n) (hello_params env) ?s)"
    by (rule orderly_send) (simp add: hello_params_def)
  then show ?thesis by (simp add: socket_opens_def Let_def orderly_innocuous) (simp add: orderly_def)
qed

lemma orderly_step: "orderly s (ws_step x s)"
proof -
  obtain env op where x: "x = (env, op)" by fastforce
  show ?thesis
  proof (cases op)
    case (Ws_subscribe r)
    then show ?thesis by (simp add: x orderly_subscribe)
  next
    case (Ws_opens n)
    then show ?thesis by (simp add: x orderly_opens)
  next
    case Ws_microtask
    then show ?thesis by (simp add: x orderly_micro)
  next
    case (Ws_discovered g a)
    then show ?thesis
      by (intro orderly_innocuous) (auto simp: x discovered_def Let_def open_new_socket_def split: sum.splits prod.splits)
  next
    case (Ws_rpc_timeout k)
    then show ?thesis by (intro orderly_innocuous) (simp add: x rpc_timeout_def split: option.splits)
  qed (use innocuous_flush in \<open>(intro orderly_innocuous; simp add: x disconnectDashboardWS_def flushPendingInbound_def frame_fires_def
        quietly_def connectDashboardWS_def reconnect_fires_def socket_closes_def Let_def split: option.splits)+\<close>)
qed

lemma orderly_run:
  "ws_ok s \<Longrightarrow> filter malformed (snd (run ws_step xs s)) = [] \<and>
     sorted_wrt (<) (request_ids (snd (run ws_step xs s))) \<and>
     (\<forall>q\<in>set (request_ids (snd (run ws_step xs s))). of_nat (ws_rpcId s) < q)"
proof (induction xs arbitrary: s)
  case (Cons x xs)
  let ?t = "fst (ws_step x s)"
  have ok: "ws_ok ?t" and mono: "ws_rpcId s \<le> ws_rpcId ?t"
    using keeps_step[of s x] Cons.prems by (simp_all add: keeps_def accounted_def)
  let ?r = "request_ids (snd (run ws_step xs ?t))"
  have ids: "request_ids (snd (run ws_step (x # xs) s)) = request_ids (snd (ws_step x s)) @ ?r"
    by (simp add: run_Cons request_ids_def del: run.simps(2))
  have rest: "sorted_wrt (<) ?r" "\<And>q. q \<in> set ?r \<Longrightarrow> of_nat (ws_rpcId ?t) < q" using Cons.IH[OF ok] by auto
  have above: "of_nat (ws_rpcId s) < q" if "q \<in> set ?r" for q
    using rest(2)[OF that] mono by (meson le_less_trans of_nat_le_iff)
  have wf: "filter malformed (snd (run ws_step (x # xs) s)) = []"
    using Cons.IH[OF ok] orderly_step[of s x] by (simp add: run_Cons orderly_def del: run.simps(2))
  consider "request_ids (snd (ws_step x s)) = []"
    | "request_ids (snd (ws_step x s)) = [of_nat (Suc (ws_rpcId s))]" "ws_rpcId ?t = Suc (ws_rpcId s)"
    using orderly_step[of s x] unfolding orderly_def by blast
  then show ?case
  proof cases
    case 1
    with wf rest(1) above show ?thesis by (simp only: ids append_Nil) blast
  next
    case 2
    with wf rest above show ?thesis by (simp add: ids del: run.simps(2))
  qed
qed (simp add: request_ids_def)

text \<open>C26: Everything the client puts on a socket is a JSON-RPC 2.0 object with an object of parameters: a greeting or a
  subscription with a numeric id, or an acknowledgement, which has none; and along any run, over all its sockets,
  the ids of the requests strictly increase from one, so no id is ever used twice.\<close>

theorem ws_wire_format:
  "filter malformed (snd (run ws_step xs dws_init)) = [] \<and>
   sorted_wrt (<) (0 # request_ids (snd (run ws_step xs dws_init)))"
  using orderly_run[OF ws_ok_init, of xs] by (simp add: dws_init_def)

end
