(* ===== verification/Keeper_Trace.thy ===== *)
theory Keeper_Trace
  imports Js_Text Contracts
begin

text \<open>
  The keeper-trace store of the IDE (\<open>components/ide/keeper-trace-store.ts\<close>): one time-ordered list of the events of
  four sources, with bursts coalesced and old entries pruned. The signal is its value; timestamps are \<open>int\<close>
  milliseconds. The store claims three invariants (order, coalescing, retention); they are the properties here.
\<close>

section \<open>Events\<close>

definition COALESCE_WINDOW_MS :: int where
  "COALESCE_WINDOW_MS = 50"

definition RETENTION_MS :: int where
  "RETENTION_MS = 10 * 60 * 1000"

datatype trace_source = Anchored_thread | Cascade_hop | Bdi_snapshot | Decision_log

text \<open>The fields each source adds; they determine the source.\<close>

datatype trace_detail =
    Td_thread string "int option"
  | Td_hop string string
  | Td_bdi "string option"
  | Td_decision string "string option"

record trace_input =
  te_id :: string
  te_tsMs :: int
  te_keeperName :: string
  te_detail :: trace_detail

record trace_event = trace_input +
  te_count :: nat

fun detail_source :: "trace_detail \<Rightarrow> trace_source" where
  "detail_source (Td_thread t l) = Anchored_thread"
| "detail_source (Td_hop h p) = Cascade_hop"
| "detail_source (Td_bdi i) = Bdi_snapshot"
| "detail_source (Td_decision d q) = Decision_log"

definition te_source :: "'a trace_input_scheme \<Rightarrow> trace_source" where
  "te_source e = detail_source (te_detail e)"

definition same_stream :: "trace_event \<Rightarrow> trace_event \<Rightarrow> bool" where
  "same_stream a b \<longleftrightarrow> te_source a = te_source b \<and> te_keeperName a = te_keeperName b"

section \<open>Ingesting\<close>

definition incoming_of :: "trace_input \<Rightarrow> trace_event" where
  "incoming_of i = trace_input.extend i \<lparr>te_count = 1\<rparr>"

text \<open>The loop from the end for the latest entry of the same stream; \<open>None\<close> is the index -1.\<close>

fun coalesce_index :: "trace_event list \<Rightarrow> trace_event \<Rightarrow> nat \<Rightarrow> nat option" where
  "coalesce_index prev inc 0 = None"
| "coalesce_index prev inc (Suc i) = (if same_stream (prev ! i) inc then Some i else coalesce_index prev inc i)"

text \<open>The loop that walks a moved entry forward, and the binary search.\<close>

function walk_forward :: "trace_event list \<Rightarrow> nat \<Rightarrow> trace_event list" where
  "walk_forward xs i =
     (if i + 1 < length xs \<and> te_tsMs (xs ! (i + 1)) < te_tsMs (xs ! i)
      then walk_forward (xs[i := xs ! (i + 1), i + 1 := xs ! i]) (i + 1) else xs)"
  by pat_completeness auto
termination walk_forward
  by (relation "measure (\<lambda>(xs, i). length xs - i)") auto

declare walk_forward.simps [simp del]

definition replaceAt :: "trace_event list \<Rightarrow> nat \<Rightarrow> trace_event \<Rightarrow> trace_event list" where
  "replaceAt arr idx v = walk_forward (arr[idx := v]) idx"

function search_after :: "trace_event list \<Rightarrow> int \<Rightarrow> nat \<Rightarrow> nat \<Rightarrow> nat" where
  "search_after arr ts lo hi =
     (if lo < hi then
        (let mid = (lo + hi) div 2
         in if te_tsMs (arr ! mid) \<le> ts then search_after arr ts (mid + 1) hi else search_after arr ts lo mid)
      else lo)"
  by pat_completeness auto
termination search_after
  by (relation "measure (\<lambda>(arr, ts, lo, hi). hi - lo)") auto

declare search_after.simps [simp del]

definition insertSorted :: "trace_event list \<Rightarrow> trace_event \<Rightarrow> trace_event list" where
  "insertSorted arr inc =
     (if length arr = 0 then [inc]
      else (let lo = search_after arr (te_tsMs inc) 0 (length arr) in take lo arr @ inc # drop lo arr))"

definition trace_placed :: "trace_event list \<Rightarrow> trace_event \<Rightarrow> trace_event list" where
  "trace_placed prev inc =
     (case coalesce_index prev inc (length prev) of
        Some idx \<Rightarrow>
          (let existing = prev ! idx; dt = te_tsMs inc - te_tsMs existing
           in if 0 \<le> dt \<and> dt \<le> COALESCE_WINDOW_MS
              then replaceAt prev idx (existing\<lparr>te_count := te_count existing + 1, te_tsMs := te_tsMs inc\<rparr>)
              else insertSorted prev inc)
      | None \<Rightarrow> insertSorted prev inc)"

definition prune :: "int \<Rightarrow> trace_event list \<Rightarrow> trace_event list" where
  "prune fallback nextEvents =
     (let latestTs = (if nextEvents = [] then fallback else te_tsMs (last nextEvents));
          cutoff = latestTs - RETENTION_MS
      in filter (\<lambda>e. te_tsMs e \<ge> cutoff) nextEvents)"

definition pushTrace :: "trace_input \<Rightarrow> trace_event list \<Rightarrow> trace_event list" where
  "pushTrace i prev = (let inc = incoming_of i in prune (te_tsMs inc) (trace_placed prev inc))"

definition clearTraces :: "trace_event list \<Rightarrow> trace_event list" where
  "clearTraces prev = (if length prev = 0 then prev else [])"

definition tracesByKeeper :: "string \<Rightarrow> trace_event list \<Rightarrow> trace_event list" where
  "tracesByKeeper keeperName evs =
     (let trimmed = trim keeperName in if trimmed = '''' then [] else filter (\<lambda>e. te_keeperName e = trimmed) evs)"

definition tracesBySource :: "trace_source \<Rightarrow> trace_event list \<Rightarrow> trace_event list" where
  "tracesBySource src evs = filter (\<lambda>e. te_source e = src) evs"

datatype trace_op = Tr_push trace_input | Tr_clear

fun trace_step :: "trace_op \<Rightarrow> trace_event list \<Rightarrow> trace_event list \<times> unit list" where
  "trace_step (Tr_push i) s = (pushTrace i s, [])"
| "trace_step Tr_clear s = (clearTraces s, [])"

section \<open>What the loops compute\<close>

lemma walk_forward_spec:
  "walk_forward (A @ v # B) (length A) =
   A @ takeWhile (\<lambda>e. te_tsMs e < te_tsMs v) B @ v # dropWhile (\<lambda>e. te_tsMs e < te_tsMs v) B"
proof (induction B arbitrary: A)
  case Nil
  show ?case by (subst walk_forward.simps) simp
next
  case (Cons b B)
  show ?case
  proof (cases "te_tsMs b < te_tsMs v")
    case True
    have "(A @ v # b # B)[length A := b, length A + 1 := v] = (A @ [b]) @ v # B" by (simp add: list_update_append)
    then have "walk_forward (A @ v # b # B) (length A) = walk_forward ((A @ [b]) @ v # B) (length (A @ [b]))"
      using True by (subst walk_forward.simps) (simp add: nth_append)
    with True show ?thesis by (simp only: Cons.IH) simp
  next
    case False
    then show ?thesis by (subst walk_forward.simps) (simp add: nth_append)
  qed
qed

lemma replaceAt_spec:
  assumes "i < length xs"
  shows "replaceAt xs i v = take i xs @ takeWhile (\<lambda>e. te_tsMs e < te_tsMs v) (drop (Suc i) xs) @
    v # dropWhile (\<lambda>e. te_tsMs e < te_tsMs v) (drop (Suc i) xs)"
  using walk_forward_spec[of "take i xs" v "drop (Suc i) xs"] assms
  by (simp add: replaceAt_def upd_conv_take_nth_drop)

definition in_order :: "trace_event list \<Rightarrow> bool" where
  "in_order xs \<longleftrightarrow> sorted_wrt (\<lambda>a b. te_tsMs a \<le> te_tsMs b) xs"

lemma in_order_nth: "in_order xs \<Longrightarrow> i \<le> j \<Longrightarrow> j < length xs \<Longrightarrow> te_tsMs (xs ! i) \<le> te_tsMs (xs ! j)"
  by (cases "i = j") (auto simp: in_order_def sorted_wrt_iff_nth_less)

lemma search_after_spec:
  assumes "in_order xs" and "lo \<le> hi" and "hi \<le> length xs"
    and "\<And>k. k < lo \<Longrightarrow> te_tsMs (xs ! k) \<le> ts" and "\<And>k. hi \<le> k \<Longrightarrow> k < length xs \<Longrightarrow> ts < te_tsMs (xs ! k)"
  shows "search_after xs ts lo hi = length (takeWhile (\<lambda>e. te_tsMs e \<le> ts) xs)"
  using assms
proof (induction xs ts lo hi rule: search_after.induct)
  case (1 xs ts lo hi)
  show ?case
  proof (cases "lo < hi")
    case True
    let ?mid = "(lo + hi) div 2"
    have m: "?mid < hi" "lo \<le> ?mid" using True by auto
    show ?thesis
    proof (cases "te_tsMs (xs ! ?mid) \<le> ts")
      case le: True
      have "search_after xs ts (?mid + 1) hi = length (takeWhile (\<lambda>e. te_tsMs e \<le> ts) xs)"
      proof (rule 1(1)[OF True refl le])
        fix k assume "k < ?mid + 1"
        then have "te_tsMs (xs ! k) \<le> te_tsMs (xs ! ?mid)"
          using m 1(5) by (intro in_order_nth[OF 1(3)]) auto
        with le show "te_tsMs (xs ! k) \<le> ts" by simp
      qed (use m 1 in auto)
      with True le show ?thesis by (subst search_after.simps) simp
    next
      case gt: False
      have "search_after xs ts lo ?mid = length (takeWhile (\<lambda>e. te_tsMs e \<le> ts) xs)"
      proof (rule 1(2)[OF True refl gt])
        fix k assume "?mid \<le> k" "k < length xs"
        then have "te_tsMs (xs ! ?mid) \<le> te_tsMs (xs ! k)"
          by (intro in_order_nth[OF 1(3)])
        with gt show "ts < te_tsMs (xs ! k)" by simp
      qed (use m 1 in auto)
      with True gt show ?thesis by (subst search_after.simps) simp
    qed
  next
    case False
    then have e: "lo = hi" using 1(4) by simp
    have "length (takeWhile (\<lambda>e. te_tsMs e \<le> ts) xs) = lo"
    proof (cases "lo < length xs")
      case True
      then have "takeWhile (\<lambda>e. te_tsMs e \<le> ts) xs = take lo xs"
        using 1(6) 1(7)[of lo] e by (intro takeWhile_eq_take_P_nth) (auto simp: not_le)
      with True show ?thesis by simp
    next
      case False
      then have "takeWhile (\<lambda>e. te_tsMs e \<le> ts) xs = xs"
        using 1(5,6) e by (auto simp: takeWhile_eq_all_conv in_set_conv_nth)
      moreover have "length xs = lo" using False 1(5) e by simp
      ultimately show ?thesis by argo
    qed
    with False show ?thesis by (subst search_after.simps) simp
  qed
qed

text \<open>The optimised insertion is insertion after the last entry that is not later.\<close>

lemma insertSorted_spec:
  assumes "in_order xs"
  shows "insertSorted xs e = takeWhile (\<lambda>x. te_tsMs x \<le> te_tsMs e) xs @ e # dropWhile (\<lambda>x. te_tsMs x \<le> te_tsMs e) xs"
proof (cases xs)
  case (Cons x rest)
  have "search_after xs (te_tsMs e) 0 (length xs) = length (takeWhile (\<lambda>x. te_tsMs x \<le> te_tsMs e) xs)"
    using assms by (intro search_after_spec) auto
  then show ?thesis
    using Cons by (simp add: insertSorted_def dropWhile_eq_drop) (metis takeWhile_eq_take)
qed (simp add: insertSorted_def)

text \<open>The walk back finds the last entry of the stream.\<close>

lemma coalesce_index_Some:
  "coalesce_index prev inc n = Some i \<Longrightarrow> i < n \<and> same_stream (prev ! i) inc \<and> (\<forall>j. i < j \<longrightarrow> j < n \<longrightarrow> \<not> same_stream (prev ! j) inc)"
  by (induction n) (auto simp: less_Suc_eq split: if_splits)

lemma coalesce_index_None:
  "coalesce_index prev inc n = None \<Longrightarrow> j < n \<Longrightarrow> \<not> same_stream (prev ! j) inc"
  by (induction n) (auto simp: less_Suc_eq split: if_splits)

section \<open>Order and retention\<close>

lemma incoming_simps [simp]:
  "te_tsMs (incoming_of i) = te_tsMs i" "te_keeperName (incoming_of i) = te_keeperName i"
  "te_detail (incoming_of i) = te_detail i" "te_count (incoming_of i) = 1"
  by (simp_all add: incoming_of_def trace_input.defs)

lemma takeWhile_before: "x \<in> set (takeWhile P xs) \<Longrightarrow> P x \<and> x \<in> set xs"
  by (auto dest: set_takeWhileD)

lemma in_order_append:
  "in_order (xs @ ys) \<longleftrightarrow> in_order xs \<and> in_order ys \<and> (\<forall>x\<in>set xs. \<forall>y\<in>set ys. te_tsMs x \<le> te_tsMs y)"
  by (simp add: in_order_def sorted_wrt_append)

lemma in_order_Cons: "in_order (x # xs) \<longleftrightarrow> in_order xs \<and> (\<forall>y\<in>set xs. te_tsMs x \<le> te_tsMs y)"
  by (auto simp: in_order_def)

lemma in_order_dropWhile:
  assumes "in_order xs" and "\<And>a b. te_tsMs a \<le> te_tsMs b \<Longrightarrow> P b \<Longrightarrow> P a" and "y \<in> set (dropWhile P xs)"
  shows "\<not> P y"
  using assms(1,3)
proof (induction xs)
  case (Cons x xs)
  then show ?case using assms(2)[of x y] by (auto simp: in_order_Cons split: if_splits dest: set_dropWhileD)
qed simp

lemma in_order_split:
  assumes "in_order xs" and "\<And>a b. te_tsMs a \<le> te_tsMs b \<Longrightarrow> P b \<Longrightarrow> P a"
    and "\<And>x. P x \<Longrightarrow> te_tsMs x \<le> te_tsMs e" and "\<And>x. \<not> P x \<Longrightarrow> te_tsMs e \<le> te_tsMs x"
  shows "in_order (takeWhile P xs @ e # dropWhile P xs)"
proof -
  have "in_order (takeWhile P xs @ dropWhile P xs)" using assms(1) by simp
  moreover have "\<not> P y" if "y \<in> set (dropWhile P xs)" for y
    by (rule in_order_dropWhile[OF assms(1) _ that]) (rule assms(2))
  ultimately show ?thesis
    using assms(3,4) unfolding in_order_append in_order_Cons by (auto dest: takeWhile_before)
qed

lemma insertSorted_order: "in_order xs \<Longrightarrow> in_order (insertSorted xs e)"
  by (subst insertSorted_spec) (auto intro!: in_order_split)

lemma replaceAt_order:
  assumes "in_order xs" and "i < length xs" and "te_tsMs (xs ! i) \<le> te_tsMs v"
  shows "in_order (replaceAt xs i v)"
proof -
  let ?A = "take i xs" and ?B = "drop (Suc i) xs"
  have "in_order (?A @ xs ! i # ?B)" using assms(1,2) by (simp add: id_take_nth_drop[symmetric])
  then have o: "in_order ?A" "in_order ?B" "\<forall>x\<in>set ?A. te_tsMs x \<le> te_tsMs (xs ! i)"
    "\<forall>x\<in>set ?A. \<forall>y\<in>set ?B. te_tsMs x \<le> te_tsMs y"
    by (simp_all add: in_order_append in_order_Cons)
  have "in_order (takeWhile (\<lambda>e. te_tsMs e < te_tsMs v) ?B @ v # dropWhile (\<lambda>e. te_tsMs e < te_tsMs v) ?B)"
    using o(2) by (intro in_order_split) auto
  moreover have "te_tsMs x \<le> te_tsMs y"
    if "x \<in> set ?A" "y \<in> set (takeWhile (\<lambda>e. te_tsMs e < te_tsMs v) ?B @ v # dropWhile (\<lambda>e. te_tsMs e < te_tsMs v) ?B)" for x y
  proof (cases "y = v")
    case True
    then show ?thesis using o(3) that(1) assms(3) by force
  next
    case False
    then have "y \<in> set ?B" using that(2) by (auto dest: set_takeWhileD set_dropWhileD)
    with o(4) that(1) show ?thesis by blast
  qed
  ultimately show ?thesis
    unfolding replaceAt_spec[OF assms(2)] in_order_append[of ?A] using o(1) by blast
qed

lemma mset_insertSorted: "in_order xs \<Longrightarrow> mset (insertSorted xs e) = add_mset e (mset xs)"
proof -
  assume "in_order xs"
  have "mset (takeWhile P xs) + mset (dropWhile P xs) = mset xs" for P :: "trace_event \<Rightarrow> bool"
    by (metis mset_append takeWhile_dropWhile_id)
  then show ?thesis using \<open>in_order xs\<close> by (simp add: insertSorted_spec)
qed

lemma mset_replaceAt: "i < length xs \<Longrightarrow> mset (replaceAt xs i v) = add_mset v (mset (take i xs) + mset (drop (Suc i) xs))"
proof -
  have "mset (takeWhile P ys) + mset (dropWhile P ys) = mset ys" for P and ys :: "trace_event list"
    by (metis mset_append takeWhile_dropWhile_id)
  then show "i < length xs \<Longrightarrow> ?thesis" by (simp add: replaceAt_spec add.assoc)
qed

text \<open>The two ways of \<open>trace_placed\<close>: a coalesced entry or a new one.\<close>

definition bumped :: "trace_event \<Rightarrow> trace_event \<Rightarrow> trace_event" where
  "bumped existing inc = existing\<lparr>te_count := te_count existing + 1, te_tsMs := te_tsMs inc\<rparr>"

lemma bumped_simps [simp]:
  "te_tsMs (bumped x inc) = te_tsMs inc" "te_count (bumped x inc) = Suc (te_count x)"
  "te_keeperName (bumped x inc) = te_keeperName x" "te_source (bumped x inc) = te_source x"
  by (simp_all add: bumped_def te_source_def)

lemma placed_cases:
  obtains (coalesced) i where "i < length prev" "same_stream (prev ! i) inc"
      "\<forall>j. i < j \<longrightarrow> j < length prev \<longrightarrow> \<not> same_stream (prev ! j) inc"
      "te_tsMs (prev ! i) \<le> te_tsMs inc" "te_tsMs inc \<le> te_tsMs (prev ! i) + COALESCE_WINDOW_MS"
      "trace_placed prev inc = replaceAt prev i (bumped (prev ! i) inc)"
  | (inserted) "trace_placed prev inc = insertSorted prev inc"
      "\<forall>i<length prev. same_stream (prev ! i) inc \<longrightarrow> (\<forall>j. i < j \<longrightarrow> j < length prev \<longrightarrow> \<not> same_stream (prev ! j) inc) \<longrightarrow>
         te_tsMs inc < te_tsMs (prev ! i) \<or> te_tsMs (prev ! i) + COALESCE_WINDOW_MS < te_tsMs inc"
proof (cases "coalesce_index prev inc (length prev)")
  case None
  then have "trace_placed prev inc = insertSorted prev inc" by (simp add: trace_placed_def)
  with coalesce_index_None[OF None] show ?thesis by (intro inserted) auto
next
  case (Some i)
  note found = coalesce_index_Some[OF Some]
  show ?thesis
  proof (cases "0 \<le> te_tsMs inc - te_tsMs (prev ! i) \<and> te_tsMs inc - te_tsMs (prev ! i) \<le> COALESCE_WINDOW_MS")
    case True
    with Some found show ?thesis by (intro coalesced[of i]) (auto simp: trace_placed_def bumped_def Let_def)
  next
    case False
    have "k = i" if "k < length prev" "same_stream (prev ! k) inc" "\<forall>j. k < j \<longrightarrow> j < length prev \<longrightarrow> \<not> same_stream (prev ! j) inc" for k
      using that found by (metis linorder_neqE_nat)
    with False Some show ?thesis by (intro inserted) (auto simp: trace_placed_def Let_def)
  qed
qed

lemma placed_order: "in_order prev \<Longrightarrow> in_order (trace_placed prev inc)"
  by (rule placed_cases[of prev inc]) (simp_all add: insertSorted_order replaceAt_order)

definition trace_ok :: "trace_event list \<Rightarrow> bool" where
  "trace_ok xs \<longleftrightarrow> in_order xs \<and> (\<forall>e\<in>set xs. 1 \<le> te_count e \<and> te_tsMs (last xs) - RETENTION_MS \<le> te_tsMs e)"

lemma placed_counts:
  assumes "in_order prev" and "\<forall>e\<in>set prev. 1 \<le> te_count e" and "te_count inc = 1" and "e \<in> set (trace_placed prev inc)"
  shows "1 \<le> te_count e"
proof (rule placed_cases[of prev inc])
  fix i assume i: "i < length prev" "trace_placed prev inc = replaceAt prev i (bumped (prev ! i) inc)"
  then have "e \<in># add_mset (bumped (prev ! i) inc) (mset (take i prev) + mset (drop (Suc i) prev))"
    using assms(4) mset_replaceAt[OF i(1)] by (metis set_mset_mset)
  then show ?thesis using assms(2) by (auto dest: in_set_takeD in_set_dropD)
next
  assume "trace_placed prev inc = insertSorted prev inc"
  then have "e \<in># add_mset inc (mset prev)" using assms(1,4) mset_insertSorted by (metis set_mset_mset)
  then show ?thesis using assms(2,3) by auto
qed

lemma prune_last: "xs \<noteq> [] \<Longrightarrow> last (prune t xs) = last xs \<and> prune t xs \<noteq> []"
proof -
  assume "xs \<noteq> []"
  then obtain ys y where "xs = ys @ [y]" by (metis append_butlast_last_id)
  then show ?thesis by (simp add: prune_def RETENTION_MS_def)
qed

lemma placed_ne: "in_order prev \<Longrightarrow> trace_placed prev inc \<noteq> []"
proof (rule placed_cases[of prev inc])
  fix i assume i: "i < length prev" "trace_placed prev inc = replaceAt prev i (bumped (prev ! i) inc)"
  then show ?thesis by (simp add: replaceAt_spec)
qed (simp add: insertSorted_spec)

lemma trace_ok_push:
  assumes "trace_ok prev"
  shows "trace_ok (pushTrace i prev)"
proof -
  let ?p = "trace_placed prev (incoming_of i)"
  have o: "in_order prev" using assms by (simp add: trace_ok_def)
  have "in_order (prune t ?p)" for t
    using placed_order[OF o] by (simp add: prune_def in_order_def sorted_wrt_filter Let_def)
  moreover have "1 \<le> te_count e" if "e \<in> set ?p" for e
    by (rule placed_counts[OF o _ _ that]) (use assms in \<open>auto simp: trace_ok_def\<close>)
  then have "\<forall>e\<in>set (prune t ?p). 1 \<le> te_count e" for t by (auto simp: prune_def Let_def)
  moreover have "\<forall>e\<in>set (prune t ?p). te_tsMs (last (prune t ?p)) - RETENTION_MS \<le> te_tsMs e" for t
    using prune_last[OF placed_ne[OF o]] placed_ne[OF o] by (auto simp: prune_def Let_def)
  ultimately show ?thesis by (simp add: trace_ok_def pushTrace_def Let_def)
qed

interpretation trace_component: component trace_step trace_ok "\<lambda>x. True"
proof
  show "trace_ok (fst (trace_step x s))" if "trace_ok s" for x s
    using that trace_ok_push by (cases x) (auto simp: clearTraces_def trace_ok_def in_order_def)
qed

section \<open>Accounting\<close>

definition of_stream :: "trace_source \<Rightarrow> string \<Rightarrow> 'a trace_input_scheme \<Rightarrow> bool" where
  "of_stream src k e \<longleftrightarrow> te_source e = src \<and> te_keeperName e = k"

definition stream_total :: "trace_source \<Rightarrow> string \<Rightarrow> trace_event list \<Rightarrow> nat" where
  "stream_total src k xs = sum_list (map (\<lambda>e. if of_stream src k e then te_count e else 0) xs)"

lemma of_stream_incoming [simp]:
  "te_source (incoming_of i) = te_source i" "of_stream src k (incoming_of i) \<longleftrightarrow> of_stream src k i"
  by (simp_all add: of_stream_def te_source_def)

lemma stream_total_mset: "stream_total src k xs = (\<Sum>e\<in>#mset xs. if of_stream src k e then te_count e else 0)"
  by (metis stream_total_def mset_map sum_mset_sum_list)

lemma stream_total_placed:
  assumes "in_order prev"
  shows "stream_total src k (trace_placed prev (incoming_of i)) = stream_total src k prev + (if of_stream src k i then 1 else 0)"
proof (rule placed_cases[of prev "incoming_of i"])
  fix j assume j: "j < length prev" "same_stream (prev ! j) (incoming_of i)"
    and p: "trace_placed prev (incoming_of i) = replaceAt prev j (bumped (prev ! j) (incoming_of i))"
  let ?x = "prev ! j"
  have "of_stream src k ?x \<longleftrightarrow> of_stream src k i" "of_stream src k (bumped ?x (incoming_of i)) \<longleftrightarrow> of_stream src k i"
    using j(2) by (auto simp: same_stream_def of_stream_def)
  moreover have "mset prev = add_mset ?x (mset (take j prev) + mset (drop (Suc j) prev))"
    by (subst id_take_nth_drop[OF j(1)]) simp
  ultimately show ?thesis by (simp add: p stream_total_mset mset_replaceAt[OF j(1)])
qed (simp add: stream_total_mset mset_insertSorted[OF assms])

definition in_span :: "int \<Rightarrow> 'a trace_input_scheme list \<Rightarrow> bool" where
  "in_span t xs \<longleftrightarrow> (\<forall>e\<in>set xs. t \<le> te_tsMs e \<and> te_tsMs e \<le> t + RETENTION_MS)"

lemma placed_set:
  assumes "in_order prev" and "e \<in> set (trace_placed prev inc)"
  shows "te_tsMs e = te_tsMs inc \<or> e \<in> set prev"
proof (rule placed_cases[of prev inc])
  fix j assume j: "j < length prev" and p: "trace_placed prev inc = replaceAt prev j (bumped (prev ! j) inc)"
  then have "e \<in># add_mset (bumped (prev ! j) inc) (mset (take j prev) + mset (drop (Suc j) prev))"
    using assms(2) mset_replaceAt[OF j] by (metis set_mset_mset)
  then show ?thesis by (auto dest: in_set_takeD in_set_dropD)
next
  assume "trace_placed prev inc = insertSorted prev inc"
  then have "e \<in># add_mset inc (mset prev)" using assms mset_insertSorted by (metis set_mset_mset)
  then show ?thesis by auto
qed

lemma prune_span: "in_span t xs \<Longrightarrow> xs \<noteq> [] \<Longrightarrow> prune f xs = xs"
proof -
  assume s: "in_span t xs" "xs \<noteq> []"
  then have "te_tsMs (last xs) \<le> t + RETENTION_MS" by (simp add: in_span_def)
  then have "\<forall>e\<in>set xs. te_tsMs (last xs) - RETENTION_MS \<le> te_tsMs e" using s(1) by (force simp: in_span_def)
  with s(2) show "prune f xs = xs" by (simp add: prune_def Let_def filter_id_conv)
qed

lemma push_in_span:
  assumes "in_order prev" and "in_span t prev" and "in_span t [i]"
  shows "pushTrace i prev = trace_placed prev (incoming_of i) \<and> in_span t (trace_placed prev (incoming_of i))"
proof -
  have "in_span t (trace_placed prev (incoming_of i))"
    using assms(2,3) placed_set[OF assms(1)] by (fastforce simp: in_span_def)
  then show ?thesis using prune_span placed_ne[OF assms(1)] by (simp add: pushTrace_def Let_def)
qed

section \<open>Coalescing of a stream in order\<close>

definition spaced :: "trace_event list \<Rightarrow> bool" where
  "spaced xs \<longleftrightarrow> sorted_wrt (\<lambda>a b. same_stream a b \<longrightarrow> te_tsMs a + COALESCE_WINDOW_MS < te_tsMs b) xs"

lemma spaced_append:
  "spaced (xs @ ys) \<longleftrightarrow> spaced xs \<and> spaced ys \<and>
     (\<forall>x\<in>set xs. \<forall>y\<in>set ys. same_stream x y \<longrightarrow> te_tsMs x + COALESCE_WINDOW_MS < te_tsMs y)"
  by (simp add: spaced_def sorted_wrt_append)

lemma spaced_Cons:
  "spaced (x # xs) \<longleftrightarrow> spaced xs \<and> (\<forall>y\<in>set xs. same_stream x y \<longrightarrow> te_tsMs x + COALESCE_WINDOW_MS < te_tsMs y)"
  by (auto simp: spaced_def)

lemma spaced_replaced:
  assumes "spaced prev" and "j < length prev" and "same_stream (prev ! j) inc"
    and last_one: "\<forall>m. j < m \<longrightarrow> m < length prev \<longrightarrow> \<not> same_stream (prev ! m) inc" and "te_tsMs (prev ! j) \<le> te_tsMs inc"
  shows "spaced (replaceAt prev j (bumped (prev ! j) inc))"
proof -
  let ?x = "prev ! j" and ?A = "take j prev" and ?B = "drop (Suc j) prev" and ?v = "bumped (prev ! j) inc"
  let ?P = "\<lambda>e. te_tsMs e < te_tsMs ?v"
  have split: "spaced (?A @ ?x # ?B)" using assms(1,2) by (simp add: id_take_nth_drop[symmetric])
  have others: "\<not> same_stream y ?v" "\<not> same_stream ?v y" if b: "y \<in> set ?B" for y
  proof -
    obtain m where m: "m < length ?B" "y = ?B ! m" using b unfolding in_set_conv_nth by blast
    then have y: "y = prev ! (Suc j + m)" "Suc j + m < length prev" by simp_all
    then have "\<not> same_stream y inc" using last_one[rule_format, of "Suc j + m"] by simp
    then show "\<not> same_stream y ?v" "\<not> same_stream ?v y" using assms(3) by (auto simp: same_stream_def)
  qed
  have before: "te_tsMs a + COALESCE_WINDOW_MS < te_tsMs ?v" if "a \<in> set ?A" "same_stream a ?v" for a
  proof -
    have "same_stream a ?x" using that(2) by (simp add: same_stream_def)
    then have "te_tsMs a + COALESCE_WINDOW_MS < te_tsMs ?x"
      using split that(1) by (simp add: spaced_append)
    with assms(5) show ?thesis by simp
  qed
  have "spaced ?B" using split by (simp add: spaced_append spaced_Cons)
  then have B: "spaced (takeWhile ?P ?B)" "spaced (dropWhile ?P ?B)"
    "\<forall>x\<in>set (takeWhile ?P ?B). \<forall>y\<in>set (dropWhile ?P ?B). same_stream x y \<longrightarrow> te_tsMs x + COALESCE_WINDOW_MS < te_tsMs y"
    using spaced_append[of "takeWhile ?P ?B" "dropWhile ?P ?B", unfolded takeWhile_dropWhile_id] by blast+
  have "\<not> same_stream y ?v" if "y \<in> set (takeWhile ?P ?B)" for y using others(1) set_takeWhileD[OF that] by blast
  moreover have "\<not> same_stream ?v y" if "y \<in> set (dropWhile ?P ?B)" for y using others(2) set_dropWhileD[OF that] by blast
  ultimately have "spaced (takeWhile ?P ?B @ ?v # dropWhile ?P ?B)"
    unfolding spaced_append spaced_Cons using B by (simp only: set_simps ball_simps) blast
  moreover have "te_tsMs a + COALESCE_WINDOW_MS < te_tsMs y"
    if "a \<in> set ?A" "y \<in> set (takeWhile ?P ?B @ ?v # dropWhile ?P ?B)" "same_stream a y" for a y
  proof (cases "y = ?v")
    case False
    then have "y \<in> set ?B" using that(2) by (auto dest: set_takeWhileD set_dropWhileD)
    with split that(1,3) show ?thesis by (simp add: spaced_append spaced_Cons)
  qed (use before that in blast)
  ultimately show ?thesis
    unfolding replaceAt_spec[OF assms(2)] spaced_append[of ?A] using split spaced_append[of ?A] by blast
qed

lemma last_index: fixes n :: nat shows "i < n \<Longrightarrow> P i \<Longrightarrow> \<exists>q<n. P q \<and> i \<le> q \<and> (\<forall>j. q < j \<longrightarrow> j < n \<longrightarrow> \<not> P j)"
proof (induction n)
  case (Suc n)
  show ?case
  proof (cases "P n")
    case True
    with Suc.prems show ?thesis by (intro exI[of _ n]) auto
  next
    case False
    with Suc.prems have "i < n" by (cases "i = n") auto
    with Suc obtain q where "q < n" "P q" "i \<le> q" "\<forall>j. q < j \<longrightarrow> j < n \<longrightarrow> \<not> P j" by blast
    with False show ?thesis by (intro exI[of _ q]) (auto simp: less_Suc_eq)
  qed
qed simp

lemma spaced_inserted:
  assumes "in_order prev" and "spaced prev" and "\<forall>e\<in>set prev. te_tsMs e \<le> te_tsMs inc"
    and far: "\<forall>i<length prev. same_stream (prev ! i) inc \<longrightarrow> (\<forall>j. i < j \<longrightarrow> j < length prev \<longrightarrow> \<not> same_stream (prev ! j) inc) \<longrightarrow>
         te_tsMs inc < te_tsMs (prev ! i) \<or> te_tsMs (prev ! i) + COALESCE_WINDOW_MS < te_tsMs inc"
  shows "spaced (insertSorted prev inc)"
proof -
  have "te_tsMs a + COALESCE_WINDOW_MS < te_tsMs inc" if a: "a \<in> set prev" "same_stream a inc" for a
  proof -
    obtain ia where ia: "ia < length prev" "a = prev ! ia" using a(1) by (auto simp: in_set_conv_nth)
    then have "same_stream (prev ! ia) inc" using a(2) by simp
    then obtain q where q: "ia \<le> q" "q < length prev" "same_stream (prev ! q) inc"
      and latest: "\<forall>j. q < j \<longrightarrow> j < length prev \<longrightarrow> \<not> same_stream (prev ! j) inc"
      using last_index[of ia "length prev" "\<lambda>j. same_stream (prev ! j) inc"] ia(1) by blast
    have "te_tsMs inc < te_tsMs (prev ! q) \<or> te_tsMs (prev ! q) + COALESCE_WINDOW_MS < te_tsMs inc"
      using far[rule_format, OF q(2,3)] latest by blast
    moreover have "te_tsMs (prev ! q) \<le> te_tsMs inc" using assms(3) nth_mem[OF q(2)] by blast
    moreover have "te_tsMs a \<le> te_tsMs (prev ! q)" using in_order_nth[OF assms(1) q(1,2)] ia by simp
    ultimately show ?thesis by linarith
  qed
  moreover have "insertSorted prev inc = prev @ [inc]"
  proof -
    have "takeWhile (\<lambda>x. te_tsMs x \<le> te_tsMs inc) prev = prev" using assms(3) by (subst takeWhile_eq_all_conv) blast
    moreover have "dropWhile (\<lambda>x. te_tsMs x \<le> te_tsMs inc) prev = []" using assms(3) by (subst dropWhile_eq_Nil_conv) blast
    ultimately show ?thesis by (simp only: insertSorted_spec[OF assms(1)] append_Nil)
  qed
  ultimately show ?thesis using assms(2) by (simp add: spaced_append spaced_Cons) (simp add: spaced_def)
qed

lemma spaced_push:
  assumes "in_order prev" and "spaced prev" and "\<forall>e\<in>set prev. te_tsMs e \<le> te_tsMs i"
  shows "spaced (pushTrace i prev)" and "\<forall>e\<in>set (pushTrace i prev). te_tsMs e \<le> te_tsMs i"
proof -
  have "spaced (trace_placed prev (incoming_of i))"
  proof (rule placed_cases[of prev "incoming_of i"])
    fix j assume "j < length prev" "same_stream (prev ! j) (incoming_of i)"
      "\<forall>m. j < m \<longrightarrow> m < length prev \<longrightarrow> \<not> same_stream (prev ! m) (incoming_of i)"
      "te_tsMs (prev ! j) \<le> te_tsMs (incoming_of i)"
      "trace_placed prev (incoming_of i) = replaceAt prev j (bumped (prev ! j) (incoming_of i))"
    then show ?thesis using spaced_replaced[OF assms(2)] by simp
  qed (use spaced_inserted[OF assms(1,2), of "incoming_of i"] assms(3) in simp)
  then show "spaced (pushTrace i prev)"
    by (simp add: pushTrace_def prune_def spaced_def sorted_wrt_filter Let_def)
  show "\<forall>e\<in>set (pushTrace i prev). te_tsMs e \<le> te_tsMs i"
    using placed_set[OF assms(1), of _ "incoming_of i"] assms(3) by (force simp: pushTrace_def prune_def Let_def)
qed

section \<open>Properties\<close>

text \<open>C34: The trace is always in time order and within the retention window. After any sequence of events, with
  timestamps in any order, and clearings, the entries ascend by time, none is older than the latest by more than
  ten minutes, and each stands for at least one event.\<close>

theorem trace_ordered_retained: "trace_ok (fst (run trace_step ops []))"
  by (rule trace_component.run_inv) (simp_all add: trace_ok_def in_order_def)

text \<open>C15: Coalescing loses no event. As long as the timestamps, in any order, span at most the retention time, the
  counts of a keeper's entries of a source add up to the number of events that keeper and source produced.\<close>

theorem trace_counts_events:
  assumes "in_span t is"
  shows "stream_total src k (fst (run trace_step (map Tr_push is) [])) = length (filter (of_stream src k) is)"
proof -
  have "trace_ok s \<Longrightarrow> in_span t s \<Longrightarrow> in_span t is \<Longrightarrow>
    stream_total src k (fst (run trace_step (map Tr_push is) s)) = stream_total src k s + length (filter (of_stream src k) is)"
    for s "is"
  proof (induction "is" arbitrary: s)
    case (Cons i "is")
    have o: "in_order s" using Cons.prems(1) by (simp add: trace_ok_def)
    have i: "in_span t [i]" "in_span t is" using Cons.prems(3) by (simp_all add: in_span_def)
    note p = push_in_span[OF o Cons.prems(2) i(1)]
    have "trace_ok (pushTrace i s)" "in_span t (pushTrace i s)"
      by (rule trace_ok_push[OF Cons.prems(1)]) (simp add: p)
    from Cons.IH[OF this i(2)] show ?case
      using stream_total_placed[OF o, of src k i] p by (simp add: run_Cons del: run.simps(2))
  qed simp
  from this[of "[]" "is"] assms show ?thesis by (simp add: trace_ok_def in_order_def in_span_def stream_total_def)
qed

lemma trace_counts_events_witness:
  "let i = (\<lambda>t. \<lparr>te_id = ''a'', te_tsMs = t, te_keeperName = ''k'', te_detail = Td_bdi None\<rparr>) in
   stream_total Bdi_snapshot ''k'' (fst (run trace_step (map Tr_push [i 100, i 140, i 20, i 175]) [])) = 4"
proof -
  let ?i = "\<lambda>t. \<lparr>te_id = ''a'', te_tsMs = t, te_keeperName = ''k'', te_detail = Td_bdi None\<rparr>"
  have "in_span 0 [?i 100, ?i 140, ?i 20, ?i 175]" by (simp add: in_span_def RETENTION_MS_def)
  from trace_counts_events[OF this, of Bdi_snapshot "''k''"] show ?thesis by (simp add: of_stream_def te_source_def)
qed

text \<open>Bursts are coalesced. When events arrive in time order, two entries of the same keeper and source are more
  than the coalescing window of 50 milliseconds apart.\<close>

theorem trace_bursts_coalesced:
  assumes "sorted (map te_tsMs is)"
  shows "spaced (fst (run trace_step (map Tr_push is) []))"
proof -
  have "trace_ok s \<Longrightarrow> spaced s \<Longrightarrow> sorted (map te_tsMs is) \<Longrightarrow> \<forall>e\<in>set s. \<forall>i\<in>set is. te_tsMs e \<le> te_tsMs i \<Longrightarrow>
    spaced (fst (run trace_step (map Tr_push is) s))" for s and "is" :: "trace_input list"
  proof (induction "is" arbitrary: s)
    case (Cons i "is")
    have o: "in_order s" using Cons.prems(1) by (simp add: trace_ok_def)
    have le: "\<forall>e\<in>set s. te_tsMs e \<le> te_tsMs i" using Cons.prems(4) by simp
    note p = spaced_push[OF o Cons.prems(2) le]
    have "\<forall>e\<in>set (pushTrace i s). \<forall>j\<in>set is. te_tsMs e \<le> te_tsMs j"
      using p(2) Cons.prems(3) by fastforce
    from Cons.IH[OF trace_ok_push[OF Cons.prems(1)] p(1) _ this] show ?case
      using Cons.prems(3) by (simp add: run_Cons del: run.simps(2))
  qed simp
  from this[of "[]" "is"] assms show ?thesis by (simp add: trace_ok_def in_order_def spaced_def)
qed

lemma trace_bursts_coalesced_witness:
  "let i = (\<lambda>t. \<lparr>te_id = ''a'', te_tsMs = t, te_keeperName = ''k'', te_detail = Td_bdi None\<rparr>) in
   spaced (fst (run trace_step (map Tr_push [i 100, i 140, i 180, i 300]) []))"
proof -
  let ?i = "\<lambda>t. \<lparr>te_id = ''a'', te_tsMs = t, te_keeperName = ''k'', te_detail = Td_bdi None\<rparr>"
  have "sorted (map te_tsMs [?i 100, ?i 140, ?i 180, ?i 300])" by simp
  from trace_bursts_coalesced[OF this] show ?thesis by simp
qed

end
