(* ===== verification/Run_Activity.thy ===== *)
theory Run_Activity
  imports Js_Text Contracts
begin

text \<open>
  The activity store of the IDE (\<open>components/ide/run-activity-store.ts\<close>): the events of one run, newest first, bounded,
  and the keepers that occur in them. Input is unchecked: a JavaScript value of which the store reads some
  properties. \<open>localeCompare\<close> is an argument. A subscriber is an effect on the signal of visible events; what it can
  read when it runs is the snapshot it is sent.
\<close>

section \<open>Events and their validation\<close>

text \<open>A value of unknown shape. A property that is absent or \<open>undefined\<close> is not in the list of an object.\<close>

datatype unknown = Un_null | Un_str string | Un_num jsnum | Un_bool bool | Un_array | Un_obj "(string \<times> unknown) list"

definition RUN_ACTIVITY_VERBS :: "string list" where
  "RUN_ACTIVITY_VERBS =
    [''flagged'', ''edited'', ''commented on'', ''approved'', ''noted'', ''suggested on'', ''committed'', ''refactored'', ''asked on'']"

record run_activity_event =
  ra_id :: string
  ra_run_id :: string
  ra_keeper_id :: string
  ra_verb :: string
  ra_target :: string
  ra_timestamp_ms :: rat
  ra_detail :: "string option"

definition act_isRecord :: "unknown \<Rightarrow> (string \<times> unknown) list option" where
  "act_isRecord v = (case v of Un_obj kvs \<Rightarrow> Some kvs | _ \<Rightarrow> None)"

definition hasNonEmptyString :: "(string \<times> unknown) list \<Rightarrow> string \<Rightarrow> string option" where
  "hasNonEmptyString kvs k = (case map_of kvs k of Some (Un_str s) \<Rightarrow> if trim s \<noteq> '''' then Some s else None | _ \<Rightarrow> None)"

definition isRunActivityVerb :: "unknown option \<Rightarrow> string option" where
  "isRunActivityVerb v = (case v of Some (Un_str s) \<Rightarrow> if s \<in> set RUN_ACTIVITY_VERBS then Some s else None | _ \<Rightarrow> None)"

text \<open>\<open>validEventForRun\<close>, with the event it accepts.\<close>

definition validEventForRun :: "unknown \<Rightarrow> string \<Rightarrow> run_activity_event option" where
  "validEventForRun event runId =
     (case act_isRecord event of
        None \<Rightarrow> None
      | Some kvs \<Rightarrow>
          if map_of kvs ''run_id'' \<noteq> Some (Un_str runId) then None
          else (case (hasNonEmptyString kvs ''id'', hasNonEmptyString kvs ''keeper_id'', hasNonEmptyString kvs ''target'',
                      isRunActivityVerb (map_of kvs ''verb'')) of
                  (Some i, Some k, Some t, Some v) \<Rightarrow>
                    (let detail = (case map_of kvs ''detail'' of None \<Rightarrow> Some None | Some (Un_str d) \<Rightarrow> Some (Some d) | _ \<Rightarrow> None)
                     in case (detail, map_of kvs ''timestamp_ms'') of
                          (Some d, Some (Un_num n)) \<Rightarrow>
                            (case finite_num n of
                               Some ts \<Rightarrow> Some \<lparr>ra_id = i, ra_run_id = runId, ra_keeper_id = k, ra_verb = v, ra_target = t,
                                            ra_timestamp_ms = ts, ra_detail = d\<rparr>
                             | None \<Rightarrow> None)
                        | _ \<Rightarrow> None)
                | _ \<Rightarrow> None))"

text \<open>The comparator by its sign: newest first, then by id.\<close>

definition act_compareEvents :: "(string \<Rightarrow> string \<Rightarrow> int) \<Rightarrow> run_activity_event \<Rightarrow> run_activity_event \<Rightarrow> int" where
  "act_compareEvents localeCompare a b =
     (if ra_timestamp_ms a \<noteq> ra_timestamp_ms b then num_cmp (ra_timestamp_ms b) (ra_timestamp_ms a)
      else localeCompare (ra_id a) (ra_id b))"

definition act_insertEvent ::
  "(string \<Rightarrow> string \<Rightarrow> int) \<Rightarrow> run_activity_event list \<Rightarrow> run_activity_event \<Rightarrow> nat \<Rightarrow> run_activity_event list" where
  "act_insertEvent lc events event maxEvents =
     (let index = find_index (\<lambda>existing. act_compareEvents lc event existing < 0) events;
          next1 = (if index = -1 then events @ [event]
                   else take (nat index) events @ [event] @ drop (nat index) events)
      in take maxEvents next1)"

definition sortedKeepers :: "run_activity_event list \<Rightarrow> string list" where
  "sortedKeepers events = js_sort str_cmp (set_from (map ra_keeper_id events))"

text \<open>\<open>undefined\<close> is \<open>None\<close>.\<close>

definition act_normalizeMaxEvents :: "jsnum option \<Rightarrow> nat" where
  "act_normalizeMaxEvents v =
     (case v of
        None \<Rightarrow> 200
      | Some n \<Rightarrow> (case safe_integer n of Some i \<Rightarrow> if 0 < i then nat i else 200 | None \<Rightarrow> 200))"

section \<open>The store\<close>

record activity_state =
  ac_runId :: string
  ac_all :: "run_activity_event list"
  ac_visible :: "run_activity_event list"
  ac_keepers :: "string list"
  ac_listeners :: "listener jsset"

type_synonym activity_view = "run_activity_event list \<times> string list"

datatype activity_effect = Ac_returned bool

definition createRunActivityStore :: "string \<Rightarrow> activity_state" where
  "createRunActivityStore runId = \<lparr>ac_runId = runId, ac_all = [], ac_visible = [], ac_keepers = [], ac_listeners = []\<rparr>"

text \<open>
  Setting the signal of visible events runs its subscribers at once, before the signal of keepers is set.
\<close>

definition act_publish :: "activity_state \<Rightarrow> activity_state \<times> (activity_view, activity_effect) event list" where
  "act_publish s =
     (let s1 = s\<lparr>ac_visible := ac_all s\<rparr>; es = emit_to (ac_listeners s1) (ac_visible s1, ac_keepers s1)
      in (s1\<lparr>ac_keepers := sortedKeepers (ac_all s1)\<rparr>, es))"

definition valid_events :: "string \<Rightarrow> unknown list \<Rightarrow> run_activity_event list" where
  "valid_events runId vs = List.map_filter (\<lambda>v. validEventForRun v runId) vs"

definition act_seed where
  "act_seed lc maxEvents vs s =
     act_publish (s\<lparr>ac_all := take maxEvents (js_sort (act_compareEvents lc) (valid_events (ac_runId s) vs))\<rparr>)"

definition act_append where
  "act_append lc maxEvents v s =
     (case validEventForRun v (ac_runId s) of
        None \<Rightarrow> (s, [Did (Ac_returned False)])
      | Some e \<Rightarrow>
          (let (s1, es) = act_publish (s\<lparr>ac_all := act_insertEvent lc (ac_all s) e maxEvents\<rparr>)
           in (s1, es @ [Did (Ac_returned True)])))"

definition eventsForKeeper :: "string \<Rightarrow> activity_state \<Rightarrow> run_activity_event list" where
  "eventsForKeeper k s = filter (\<lambda>e. ra_keeper_id e = k) (ac_visible s)"

definition act_reset :: "string option \<Rightarrow> activity_state \<Rightarrow> activity_state \<times> (activity_view, activity_effect) event list" where
  "act_reset runId s =
     act_publish ((case runId of Some r \<Rightarrow> s\<lparr>ac_runId := r\<rparr> | None \<Rightarrow> s)\<lparr>ac_all := []\<rparr>)"

datatype activity_op =
    Ac_seed "unknown list"
  | Ac_append unknown
  | Ac_reset "string option"
  | Ac_subscribe listener
  | Ac_unsubscribe listener

fun activity_step ::
  "(string \<Rightarrow> string \<Rightarrow> int) \<Rightarrow> nat \<Rightarrow> activity_op \<Rightarrow> activity_state \<Rightarrow> activity_state \<times> (activity_view, activity_effect) event list" where
  "activity_step lc n (Ac_seed vs) s = act_seed lc n vs s"
| "activity_step lc n (Ac_append v) s = act_append lc n v s"
| "activity_step lc n (Ac_reset r) s = act_reset r s"
| "activity_step lc n (Ac_subscribe l) s = (s\<lparr>ac_listeners := subscribe l (ac_listeners s)\<rparr>, [])"
| "activity_step lc n (Ac_unsubscribe l) s = (s\<lparr>ac_listeners := unsubscribe l (ac_listeners s)\<rparr>, [])"

section \<open>Insertion and sorting\<close>

fun ins_after :: "('a \<Rightarrow> 'a \<Rightarrow> int) \<Rightarrow> 'a \<Rightarrow> 'a list \<Rightarrow> 'a list" where
  "ins_after cmp e [] = [e]"
| "ins_after cmp e (y # ys) = (if cmp e y < 0 then e # y # ys else y # ins_after cmp e ys)"

lemma ins_after_index:
  "ins_after cmp e xs =
   (let i = find_index (\<lambda>y. cmp e y < 0) xs in if i = -1 then xs @ [e] else take (nat i) xs @ [e] @ drop (nat i) xs)"
proof (rule find_index_cases[of "\<lambda>y. cmp e y < 0" xs])
  assume a: "find_index (\<lambda>y. cmp e y < 0) xs = -1" "\<forall>x\<in>set xs. \<not> cmp e x < 0"
  from a(2) have "ins_after cmp e xs = xs @ [e]" by (induction xs) auto
  with a(1) show ?thesis by simp
next
  fix j assume j: "find_index (\<lambda>y. cmp e y < 0) xs = int j" "j < length xs" "cmp e (xs ! j) < 0" "\<forall>k<j. \<not> cmp e (xs ! k) < 0"
  from j(2-4) have "ins_after cmp e xs = take j xs @ [e] @ drop j xs"
  proof (induction xs arbitrary: j)
    case (Cons x xs)
    show ?case
    proof (cases j)
      case 0
      with Cons.prems show ?thesis by simp
    next
      case (Suc m)
      then have "\<not> cmp e x < 0" "\<forall>k<m. \<not> cmp e (xs ! k) < 0" using Cons.prems(3) by (auto dest: spec[of _ 0] spec[of _ "Suc k" for k])
      with Cons Suc show ?thesis by simp
    qed
  qed simp
  with j(1) show ?thesis by simp
qed

lemma take_ins_after: "take n (ins_after cmp e (take n ys)) = take n (ins_after cmp e ys)"
proof (induction ys arbitrary: n)
  case (Cons y ys)
  then show ?case by (cases n) (auto simp: take_Cons')
qed simp

context comparator
begin

lemma insert_commutes: "js_insert cmp x (ins_after cmp e ys) = ins_after cmp e (js_insert cmp x ys)"
proof (induction ys)
  case Nil
  show ?case using cmp_swap[of e x] by simp
next
  case (Cons y ys)
  have "cmp e y < 0 \<Longrightarrow> \<not> cmp x y \<le> 0 \<Longrightarrow> \<not> cmp x e \<le> 0" using cmp_trans[of x e y] by linarith
  moreover have "\<not> cmp e y < 0 \<Longrightarrow> cmp x y \<le> 0 \<Longrightarrow> \<not> cmp e x < 0"
    using cmp_trans[of x y e] cmp_swap[of e y] cmp_swap[of e x] cmp_swap[of y e] by linarith
  moreover have "cmp e x < 0 \<longleftrightarrow> \<not> cmp x e \<le> 0" using cmp_swap[of e x] by linarith
  ultimately show ?case using Cons by auto
qed

text \<open>Sorting with one more element at the end is inserting it after the elements that are not greater.\<close>

lemma js_sort_snoc: "js_sort cmp (xs @ [e]) = ins_after cmp e (js_sort cmp xs)"
  by (induction xs) (simp_all add: insert_commutes)

lemma take_sort_snoc: "take n (js_sort cmp (xs @ [e])) = take n (ins_after cmp e (take n (js_sort cmp xs)))"
  by (simp add: js_sort_snoc take_ins_after)

end

lemma act_comparator: "comparator lc \<Longrightarrow> comparator (act_compareEvents lc)"
proof -
  assume lc: "comparator lc"
  have "comparator (then_cmp (\<lambda>a b. num_cmp (ra_timestamp_ms b) (ra_timestamp_ms a)) (\<lambda>a b. lc (ra_id a) (ra_id b)))"
    using comparator_then[OF comparator_flip[OF comparator_key[OF comparator_num, of ra_timestamp_ms]] comparator_key[OF lc]] .
  moreover have "then_cmp (\<lambda>a b. num_cmp (ra_timestamp_ms b) (ra_timestamp_ms a)) (\<lambda>a b. lc (ra_id a) (ra_id b)) = act_compareEvents lc"
    by (auto simp: fun_eq_iff then_cmp_def act_compareEvents_def num_cmp_def)
  ultimately show ?thesis by metis
qed

lemma act_insertEvent_spec: "act_insertEvent lc xs e n = take n (ins_after (act_compareEvents lc) e xs)"
  by (simp add: act_insertEvent_def ins_after_index Let_def)



section \<open>Properties\<close>

definition activity_ok :: "nat \<Rightarrow> activity_state \<Rightarrow> bool" where
  "activity_ok n s \<longleftrightarrow> ac_visible s = ac_all s \<and> ac_keepers s = sortedKeepers (ac_all s) \<and> length (ac_all s) \<le> n \<and>
     (\<forall>e\<in>set (ac_all s). ra_run_id e = ac_runId s \<and> ra_verb e \<in> set RUN_ACTIVITY_VERBS)"

lemma valid_event_run: "validEventForRun v r = Some e \<Longrightarrow> ra_run_id e = r \<and> ra_verb e \<in> set RUN_ACTIVITY_VERBS"
  by (auto simp: validEventForRun_def isRunActivityVerb_def Let_def split: option.splits if_splits unknown.splits)

lemma publish_simps [simp]:
  "ac_runId (fst (act_publish s)) = ac_runId s" "ac_all (fst (act_publish s)) = ac_all s"
  "ac_visible (fst (act_publish s)) = ac_all s" "ac_keepers (fst (act_publish s)) = sortedKeepers (ac_all s)"
  by (simp_all add: act_publish_def Let_def)

lemma set_ins_after [simp]: "set (ins_after cmp e xs) = insert e (set xs)"
  by (induction xs) auto

lemma activity_ok_step: "activity_ok n s \<Longrightarrow> activity_ok n (fst (activity_step lc n x s))"
proof (cases x)
  case (Ac_seed vs)
  have "\<forall>e\<in>set (valid_events (ac_runId s) vs). ra_run_id e = ac_runId s \<and> ra_verb e \<in> set RUN_ACTIVITY_VERBS"
    by (auto simp: valid_events_def set_map_filter_iff dest: valid_event_run)
  then show ?thesis by (auto simp: Ac_seed act_seed_def activity_ok_def dest: in_set_takeD)
next
  case (Ac_append v)
  assume "activity_ok n s"
  then show ?thesis
    by (auto simp: Ac_append act_append_def Let_def activity_ok_def act_insertEvent_spec split_def
        dest!: valid_event_run in_set_takeD split: option.split)
qed (auto simp: activity_ok_def act_reset_def split: option.split)

interpretation activity_component: component "activity_step lc n" "activity_ok n" "\<lambda>x. True"
  by unfold_locales (simp add: activity_ok_step)

lemma valid_events_snoc:
  "valid_events r (vs @ [v]) = valid_events r vs @ (case validEventForRun v r of None \<Rightarrow> [] | Some e \<Rightarrow> [e])"
  by (cases "validEventForRun v r") (simp_all add: valid_events_def List.map_filter_def)

lemma append_run_id [simp]: "ac_runId (fst (act_append lc n v s)) = ac_runId s"
  by (simp add: act_append_def Let_def split_def split: option.split)

lemma append_all:
  assumes "comparator lc" and "ac_all s = take n (js_sort (act_compareEvents lc) (valid_events (ac_runId s) us))"
  shows "ac_all (fst (act_append lc n v s)) = take n (js_sort (act_compareEvents lc) (valid_events (ac_runId s) (us @ [v])))"
  using comparator.take_sort_snoc[OF act_comparator[OF assms(1)]] assms(2)
  by (simp add: act_append_def valid_events_snoc Let_def split_def act_insertEvent_spec split: option.split)

lemma append_many:
  assumes "comparator lc" and "ac_all s = take n (js_sort (act_compareEvents lc) (valid_events (ac_runId s) us))"
  shows "ac_all (fst (run (activity_step lc n) (map Ac_append vs) s)) =
    take n (js_sort (act_compareEvents lc) (valid_events (ac_runId s) (us @ vs)))"
  using assms(2)
proof (induction vs arbitrary: s us)
  case (Cons v vs)
  from Cons.IH[of "fst (act_append lc n v s)" "us @ [v]"] append_all[OF assms(1) Cons.prems]
  show ?case by (simp add: run_Cons del: run.simps(2))
qed simp

text \<open>A subscriber that reads the keepers when the events change reads the previous ones.\<close>

lemma activity_keepers_stale:
  "received 0 (sent (snd (run (activity_step str_cmp 5)
     [Ac_subscribe 0, Ac_seed [Un_obj [(''id'', Un_str ''e''), (''run_id'', Un_str ''r''), (''keeper_id'', Un_str ''k''),
        (''verb'', Un_str ''edited''), (''target'', Un_str ''t''), (''timestamp_ms'', Un_num (Num 1))]]] (createRunActivityStore ''r''))))
   = [([\<lparr>ra_id = ''e'', ra_run_id = ''r'', ra_keeper_id = ''k'', ra_verb = ''edited'', ra_target = ''t'', ra_timestamp_ms = 1, ra_detail = None\<rparr>], [])]"
  by code_simp

text \<open>The store is always consistent. After any sequence of seeds, appends, resets and subscriptions the visible
  events are the stored ones, at most the bound, of the current run and with a known verb, and the keepers are those
  of the visible events.\<close>

theorem activity_store_consistent:
  "activity_ok n (fst (run (activity_step lc n) ops (createRunActivityStore r)))"
  by (rule activity_component.run_inv)
    (simp_all add: activity_ok_def createRunActivityStore_def sortedKeepers_def set_from_def)

text \<open>C18: Appending is seeding. Whatever is in the store, seeding it with some values and appending others one by one
  shows the same events in the same order, and the same keepers, as seeding it with all of them: inserting keeps the
  order of the sort, equal times and ids in the order of arrival, and dropping the oldest event early loses none that
  belongs in the bound.\<close>

theorem activity_append_is_seed:
  assumes "comparator lc"
  shows "let s1 = fst (run (activity_step lc n) (Ac_seed us # map Ac_append vs) s);
             s2 = fst (activity_step lc n (Ac_seed (us @ vs)) s)
         in ac_visible s1 = ac_visible s2 \<and> ac_keepers s1 = ac_keepers s2"
proof -
  let ?s0 = "fst (act_seed lc n us s)"
  have r: "ac_runId ?s0 = ac_runId s" by (simp add: act_seed_def)
  have "ac_all ?s0 = take n (js_sort (act_compareEvents lc) (valid_events (ac_runId ?s0) us))"
    by (simp add: act_seed_def)
  note all = append_many[OF assms this, of vs]
  have synced: "ac_visible t = ac_all t \<and> ac_keepers t = sortedKeepers (ac_all t) \<Longrightarrow>
    ac_visible (fst (run (activity_step lc n) (map Ac_append vs) t)) = ac_all (fst (run (activity_step lc n) (map Ac_append vs) t)) \<and>
    ac_keepers (fst (run (activity_step lc n) (map Ac_append vs) t)) = sortedKeepers (ac_all (fst (run (activity_step lc n) (map Ac_append vs) t)))" for t
  proof (induction vs arbitrary: t)
    case (Cons v vs)
    have "ac_visible (fst (act_append lc n v t)) = ac_all (fst (act_append lc n v t)) \<and>
      ac_keepers (fst (act_append lc n v t)) = sortedKeepers (ac_all (fst (act_append lc n v t)))"
      using Cons.prems by (simp add: act_append_def Let_def split_def split: option.split)
    from Cons.IH[OF this] show ?case by (simp add: run_Cons del: run.simps(2))
  qed simp
  show ?thesis
    using synced[of ?s0] all r by (simp add: run_Cons act_seed_def del: run.simps(2))
qed

definition sample_value :: "string \<Rightarrow> rat \<Rightarrow> unknown" where
  "sample_value i t =
     Un_obj [(''id'', Un_str i), (''run_id'', Un_str ''r''), (''keeper_id'', Un_str ''k''), (''verb'', Un_str ''edited''),
             (''target'', Un_str ''t''), (''timestamp_ms'', Un_num (Num t))]"

lemma activity_append_is_seed_witness:
  "let s1 = fst (run (activity_step str_cmp 2) (Ac_seed [sample_value ''a'' 1, Un_null] # map Ac_append [sample_value ''b'' 3, sample_value ''c'' 2])
              (createRunActivityStore ''r''));
       s2 = fst (activity_step str_cmp 2 (Ac_seed ([sample_value ''a'' 1, Un_null] @ [sample_value ''b'' 3, sample_value ''c'' 2]))
              (createRunActivityStore ''r''))
   in ac_visible s1 = ac_visible s2 \<and> ac_keepers s1 = ac_keepers s2"
  by (rule activity_append_is_seed[OF str_order.comparator_axioms])

end
