(* ===== verification/Async_Resource.thy ===== *)
theory Async_Resource
  imports Contracts
begin

text \<open>
  \<open>lib/async-state.ts\<close>: the two resources that the panels load their data through. A call of the loader function
  either throws at once or returns a promise; what the promise does later is a step of the environment (\<open>settle\<close>),
  and the \<open>finally\<close> handler, which runs in a later microtask than the handlers of the outcome, is another. A call is
  known by the generation it got; the loader function does not call back into its resource before it returns.
\<close>

section \<open>The states of a resource\<close>

datatype 'a async_state = As_idle | As_loading | As_loaded 'a | As_failed string

definition isLoaded :: "'a async_state \<Rightarrow> bool" where
  "isLoaded s = (case s of As_loaded d \<Rightarrow> True | _ \<Rightarrow> False)"

definition isLoading :: "'a async_state \<Rightarrow> bool" where
  "isLoading s = (case s of As_loading \<Rightarrow> True | _ \<Rightarrow> False)"

definition isFailed :: "'a async_state \<Rightarrow> bool" where
  "isFailed s = (case s of As_failed m \<Rightarrow> True | _ \<Rightarrow> False)"

definition getData :: "'a async_state \<Rightarrow> 'a option" where
  "getData s = (case s of As_loaded d \<Rightarrow> Some d | _ \<Rightarrow> None)"

text \<open>A rejection carries its message and whether it is an \<open>AbortError\<close>.\<close>

datatype 'a outcome = Resolved 'a | Rejected string bool

datatype 'a phase = Waiting | Settled "'a outcome" | Finished "'a outcome"

text \<open>What the call of the loader function does: throw, or return a promise.\<close>

datatype start = Throws string | Promises

section \<open>createAsyncResource\<close>

record 'a resource =
  re_state :: "'a async_state"
  re_inflight :: "nat option"
  re_generation :: nat
  re_calls :: "(nat, 'a phase) jsmap"

definition createAsyncResource :: "'a resource" where
  "createAsyncResource = \<lparr>re_state = As_idle, re_inflight = None, re_generation = 0, re_calls = []\<rparr>"

datatype load_event = Called nat | Joined nat

definition resource_load :: "start \<Rightarrow> 'a resource \<Rightarrow> 'a resource \<times> load_event list" where
  "resource_load f s =
     (case re_inflight s of
        Some g \<Rightarrow> (s, [Joined g])
      | None \<Rightarrow>
          (let gen = Suc (re_generation s);
               s1 = s\<lparr>re_generation := gen, re_state := As_loading\<rparr>
           in case f of
                Throws m \<Rightarrow> (s1\<lparr>re_state := As_failed m\<rparr>, [Called gen])
              | Promises \<Rightarrow> (s1\<lparr>re_inflight := Some gen, re_calls := map_set gen Waiting (re_calls s1)\<rparr>, [Called gen])))"

definition resource_settle :: "nat \<Rightarrow> 'a outcome \<Rightarrow> 'a resource \<Rightarrow> 'a resource" where
  "resource_settle g out s =
     (if map_get (re_calls s) g = Some Waiting then
        (let s1 = s\<lparr>re_calls := map_set g (Settled out) (re_calls s)\<rparr>
         in if g = re_generation s1
            then s1\<lparr>re_state := (case out of Resolved d \<Rightarrow> As_loaded d | Rejected m _ \<Rightarrow> As_failed m)\<rparr> else s1)
      else s)"

definition resource_finally :: "nat \<Rightarrow> 'a resource \<Rightarrow> 'a resource" where
  "resource_finally g s =
     (case map_get (re_calls s) g of
        Some (Settled out) \<Rightarrow>
          (let s1 = s\<lparr>re_calls := map_set g (Finished out) (re_calls s)\<rparr>
           in if g = re_generation s1 then s1\<lparr>re_inflight := None\<rparr> else s1)
      | _ \<Rightarrow> s)"

definition resource_reset :: "'a resource \<Rightarrow> 'a resource" where
  "resource_reset s = s\<lparr>re_generation := Suc (re_generation s), re_state := As_idle, re_inflight := None\<rparr>"

datatype 'a resource_op = Re_load start | Re_settle nat "'a outcome" | Re_finally nat | Re_reset

fun resource_step :: "'a resource_op \<Rightarrow> 'a resource \<Rightarrow> 'a resource \<times> load_event list" where
  "resource_step (Re_load f) s = resource_load f s"
| "resource_step (Re_settle g out) s = (resource_settle g out s, [])"
| "resource_step (Re_finally g) s = (resource_finally g s, [])"
| "resource_step Re_reset s = (resource_reset s, [])"

section \<open>createManagedAsyncResource\<close>

record 'a managed =
  ma_data :: "'a option"
  ma_loading :: bool
  ma_error :: "string option"
  ma_inflight :: "nat option"
  ma_generation :: nat
  ma_controller :: "nat option"
  ma_aborted :: "nat list"
  ma_calls :: "(nat, 'a option \<times> 'a phase) jsmap"

definition createManagedAsyncResource :: "'a option \<Rightarrow> 'a managed" where
  "createManagedAsyncResource initialData =
     \<lparr>ma_data = initialData, ma_loading = False, ma_error = None, ma_inflight = None, ma_generation = 0,
      ma_controller = None, ma_aborted = [], ma_calls = []\<rparr>"

definition abort_controller :: "'a managed \<Rightarrow> 'a managed" where
  "abort_controller s = (case ma_controller s of None \<Rightarrow> s | Some c \<Rightarrow> s\<lparr>ma_aborted := c # ma_aborted s\<rparr>)"

definition set_managed :: "'a option \<Rightarrow> bool \<Rightarrow> string option \<Rightarrow> 'a managed \<Rightarrow> 'a managed" where
  "set_managed d l e s = s\<lparr>ma_data := d, ma_loading := l, ma_error := e\<rparr>"

text \<open>The loader gets the previous data and the abort signal; a call keeps the data it was given.\<close>

definition managed_load :: "start \<Rightarrow> 'a managed \<Rightarrow> 'a managed" where
  "managed_load f s =
     (let previous = ma_data s;
          gen = Suc (ma_generation s);
          s1 = (abort_controller (s\<lparr>ma_generation := gen\<rparr>))\<lparr>ma_controller := Some gen\<rparr>;
          s2 = set_managed previous True None s1
      in case f of
           Throws m \<Rightarrow> set_managed previous False (Some m) s2
         | Promises \<Rightarrow> s2\<lparr>ma_inflight := Some gen, ma_calls := map_set gen (previous, Waiting) (ma_calls s2)\<rparr>)"

text \<open>The \<open>then\<close> handler on a result, the \<open>catch\<close> handler on an error.\<close>

definition managed_settle :: "nat \<Rightarrow> 'a outcome \<Rightarrow> 'a managed \<Rightarrow> 'a managed" where
  "managed_settle g out s =
     (case map_get (ma_calls s) g of
        Some (previous, Waiting) \<Rightarrow>
          (let s1 = s\<lparr>ma_calls := map_set g (previous, Settled out) (ma_calls s)\<rparr>
           in case out of
                Resolved d \<Rightarrow> if g \<noteq> ma_generation s1 \<or> g \<in> set (ma_aborted s1) then s1 else set_managed (Some d) False None s1
              | Rejected m isAbort \<Rightarrow>
                  if g \<noteq> ma_generation s1 \<or> isAbort then s1 else set_managed previous False (Some m) s1)
      | _ \<Rightarrow> s)"

definition managed_finally :: "nat \<Rightarrow> 'a managed \<Rightarrow> 'a managed" where
  "managed_finally g s =
     (case map_get (ma_calls s) g of
        Some (previous, Settled out) \<Rightarrow>
          (let s1 = s\<lparr>ma_calls := map_set g (previous, Finished out) (ma_calls s)\<rparr>
           in if g = ma_generation s1 \<and> ma_controller s1 = Some g then s1\<lparr>ma_inflight := None, ma_controller := None\<rparr> else s1)
      | _ \<Rightarrow> s)"

definition managed_cancel :: "'a managed \<Rightarrow> 'a managed" where
  "managed_cancel s =
     (abort_controller (s\<lparr>ma_generation := Suc (ma_generation s)\<rparr>))\<lparr>ma_controller := None, ma_inflight := None, ma_loading := False\<rparr>"

definition managed_reset :: "'a option \<Rightarrow> 'a managed \<Rightarrow> 'a managed" where
  "managed_reset nextData s =
     set_managed nextData False None
       ((abort_controller (s\<lparr>ma_generation := Suc (ma_generation s)\<rparr>))\<lparr>ma_controller := None, ma_inflight := None\<rparr>)"

datatype 'a managed_op =
    Ma_load start
  | Ma_settle nat "'a outcome"
  | Ma_finally nat
  | Ma_cancel
  | Ma_reset "'a option"

fun managed_step :: "'a managed_op \<Rightarrow> 'a managed \<Rightarrow> 'a managed \<times> unit list" where
  "managed_step (Ma_load f) s = (managed_load f s, [])"
| "managed_step (Ma_settle g out) s = (managed_settle g out s, [])"
| "managed_step (Ma_finally g) s = (managed_finally g s, [])"
| "managed_step Ma_cancel s = (managed_cancel s, [])"
| "managed_step (Ma_reset d) s = (managed_reset d s, [])"

section \<open>Invariants\<close>

definition calls_upto :: "(nat, 'v) jsmap \<Rightarrow> nat \<Rightarrow> bool" where
  "calls_upto m n \<longleftrightarrow> (\<forall>g\<in>set (map_keys m). g \<le> n)"

lemma calls_upto_Nil [simp]: "calls_upto [] n"
  by (simp add: calls_upto_def)

lemma calls_upto_set [simp]: "calls_upto m n \<Longrightarrow> k \<le> n \<Longrightarrow> calls_upto (map_set k v m) n"
  by (auto simp: calls_upto_def)

lemma calls_upto_Suc: "calls_upto m n \<Longrightarrow> calls_upto m (Suc n)"
  by (auto simp: calls_upto_def le_SucI)

lemma calls_upto_fresh: "calls_upto m n \<Longrightarrow> map_get m (Suc n) = None"
  by (fastforce simp: calls_upto_def map_of_eq_None_iff)

lemma calls_upto_known: "calls_upto m n \<Longrightarrow> map_get m k = Some v \<Longrightarrow> k \<le> n"
  by (force simp: calls_upto_def dest: map_of_SomeD)

text \<open>What the newest call says about \<open>inflight\<close> and about the state shown.\<close>

fun under_way :: "'a phase option \<Rightarrow> bool" where
  "under_way (Some Waiting) = True"
| "under_way (Some (Settled out)) = True"
| "under_way _ = False"

fun outcome_state :: "'a outcome \<Rightarrow> 'a async_state" where
  "outcome_state (Resolved d) = As_loaded d"
| "outcome_state (Rejected m ab) = As_failed m"

fun shows_call :: "'a phase option \<Rightarrow> 'a async_state \<Rightarrow> bool" where
  "shows_call None st = (\<not> isLoading st)"
| "shows_call (Some Waiting) st = (st = As_loading)"
| "shows_call (Some (Settled out)) st = (st = outcome_state out)"
| "shows_call (Some (Finished out)) st = (st = outcome_state out)"

definition newest_call :: "'a resource \<Rightarrow> 'a phase option" where
  "newest_call s = map_get (re_calls s) (re_generation s)"

definition resource_ok :: "'a resource \<Rightarrow> bool" where
  "resource_ok s \<longleftrightarrow> calls_upto (re_calls s) (re_generation s) \<and>
     re_inflight s = (if under_way (newest_call s) then Some (re_generation s) else None) \<and>
     shows_call (newest_call s) (re_state s)"

lemma isLoading_simps [simp]:
  "isLoading As_loading" "\<not> isLoading As_idle" "\<not> isLoading (As_failed m)" "\<not> isLoading (As_loaded d)"
  by (simp_all add: isLoading_def)

lemma outcome_not_loading [simp]: "\<not> isLoading (outcome_state out)"
  by (cases out) simp_all

lemma outcome_state_case: "(case out of Resolved d \<Rightarrow> As_loaded d | Rejected m ab \<Rightarrow> As_failed m) = outcome_state out"
  by (cases out) simp_all

lemma resource_ok_load:
  assumes "resource_ok s"
  shows "resource_ok (fst (resource_load f s))"
proof (cases "re_inflight s")
  case None
  have up: "calls_upto (re_calls s) (Suc (re_generation s))" "map_get (re_calls s) (Suc (re_generation s)) = None"
    using assms by (auto simp: resource_ok_def calls_upto_Suc calls_upto_fresh)
  show ?thesis
  proof (cases f)
    case (Throws m)
    have "resource_load f s = (s\<lparr>re_generation := Suc (re_generation s), re_state := As_failed m\<rparr>, [Called (Suc (re_generation s))])"
      by (simp add: resource_load_def None Throws Let_def)
    with up None show ?thesis by (simp add: resource_ok_def newest_call_def)
  next
    case Promises
    have "resource_load f s = (s\<lparr>re_generation := Suc (re_generation s), re_state := As_loading, re_inflight := Some (Suc (re_generation s)),
        re_calls := map_set (Suc (re_generation s)) Waiting (re_calls s)\<rparr>, [Called (Suc (re_generation s))])"
      by (simp add: resource_load_def None Promises Let_def)
    with up show ?thesis by (simp add: resource_ok_def newest_call_def)
  qed
qed (use assms in \<open>simp add: resource_load_def\<close>)

lemma resource_ok_settle: "resource_ok s \<Longrightarrow> resource_ok (resource_settle g out s)"
  using calls_upto_known[of "re_calls s" "re_generation s" g Waiting]
  by (cases "map_get (re_calls s) g = Some Waiting"; cases "g = re_generation s")
    (auto simp: resource_settle_def resource_ok_def newest_call_def outcome_state_case)

lemma resource_ok_finally: "resource_ok s \<Longrightarrow> resource_ok (resource_finally g s)"
proof (cases "\<exists>out. map_get (re_calls s) g = Some (Settled out)")
  case True
  then obtain out where out: "map_get (re_calls s) g = Some (Settled out)" by blast
  moreover assume "resource_ok s"
  ultimately show ?thesis
    using calls_upto_known[OF _ out, of "re_generation s"]
    by (cases "g = re_generation s") (auto simp: resource_finally_def resource_ok_def newest_call_def)
qed (auto simp: resource_finally_def split: option.split phase.split)

lemma resource_ok_step: "resource_ok s \<Longrightarrow> resource_ok (fst (resource_step x s))"
proof (cases x)
  case Re_reset
  assume "resource_ok s"
  then show ?thesis
    by (simp add: Re_reset resource_reset_def resource_ok_def newest_call_def calls_upto_Suc calls_upto_fresh)
qed (simp_all add: resource_ok_load resource_ok_settle resource_ok_finally)

interpretation resource_component: component resource_step resource_ok "\<lambda>x. True"
  by unfold_locales (simp add: resource_ok_step)

text \<open>The managed resource: \<open>abandoned\<close> is a newest call that was rejected with an \<open>AbortError\<close> of its own.\<close>

fun waiting_call :: "('a option \<times> 'a phase) option \<Rightarrow> bool" where
  "waiting_call (Some (previous, Waiting)) = True"
| "waiting_call _ = False"

fun abandoned_call :: "('a option \<times> 'a phase) option \<Rightarrow> bool" where
  "abandoned_call (Some (previous, Settled (Rejected m ab))) = ab"
| "abandoned_call (Some (previous, Finished (Rejected m ab))) = ab"
| "abandoned_call _ = False"

fun data_of_call :: "('a option \<times> 'a phase) option \<Rightarrow> 'a option \<Rightarrow> string option \<Rightarrow> bool" where
  "data_of_call (Some (previous, Waiting)) d e = (d = previous \<and> e = None)"
| "data_of_call (Some (previous, Settled (Resolved v))) d e = (d = Some v \<and> e = None)"
| "data_of_call (Some (previous, Finished (Resolved v))) d e = (d = Some v \<and> e = None)"
| "data_of_call _ d e = True"

definition current :: "'a managed \<Rightarrow> ('a option \<times> 'a phase) option" where
  "current s = map_get (ma_calls s) (ma_generation s)"

definition aborted_below :: "nat list \<Rightarrow> nat \<Rightarrow> bool" where
  "aborted_below xs n \<longleftrightarrow> (\<forall>c\<in>set xs. c < n)"

definition managed_ok :: "'a managed \<Rightarrow> bool" where
  "managed_ok s \<longleftrightarrow> calls_upto (ma_calls s) (ma_generation s) \<and> aborted_below (ma_aborted s) (ma_generation s) \<and>
     (if ma_controller s = None then True else ma_controller s = Some (ma_generation s)) \<and>
     ma_loading s = (waiting_call (current s) \<or> abandoned_call (current s)) \<and>
     data_of_call (current s) (ma_data s) (ma_error s)"

lemma abort_simps [simp]:
  "ma_data (abort_controller s) = ma_data s" "ma_error (abort_controller s) = ma_error s"
  "ma_generation (abort_controller s) = ma_generation s" "ma_calls (abort_controller s) = ma_calls s"
  "ma_loading (abort_controller s) = ma_loading s"
  by (simp_all add: abort_controller_def split: option.split)

lemma set_managed_simps [simp]:
  "ma_data (set_managed d l e s) = d" "ma_error (set_managed d l e s) = e" "ma_loading (set_managed d l e s) = l"
  "ma_generation (set_managed d l e s) = ma_generation s" "ma_calls (set_managed d l e s) = ma_calls s"
  "ma_aborted (set_managed d l e s) = ma_aborted s" "ma_controller (set_managed d l e s) = ma_controller s"
  by (simp_all add: set_managed_def)

text \<open>The common start of \<open>load\<close>, \<open>cancel\<close> and \<open>reset\<close>.\<close>

lemma next_generation:
  assumes "managed_ok s"
  shows "calls_upto (ma_calls s) (Suc (ma_generation s))" "map_get (ma_calls s) (Suc (ma_generation s)) = None"
    "aborted_below (ma_aborted (abort_controller (s\<lparr>ma_generation := Suc (ma_generation s)\<rparr>))) (Suc (ma_generation s))"
  using assms
  by (auto simp: managed_ok_def calls_upto_Suc calls_upto_fresh abort_controller_def aborted_below_def
      split: option.splits if_splits)

lemma managed_ok_settle:
  assumes "managed_ok s"
  shows "managed_ok (managed_settle g out s)"
proof (cases "\<exists>previous. map_get (ma_calls s) g = Some (previous, Waiting)")
  case True
  then obtain previous where call: "map_get (ma_calls s) g = Some (previous, Waiting)" by blast
  have g: "g \<le> ma_generation s" using assms calls_upto_known[OF _ call] by (simp add: managed_ok_def)
  have "ma_generation s \<notin> set (ma_aborted s)" using assms by (auto simp: managed_ok_def aborted_below_def)
  note parts = assms[unfolded managed_ok_def current_def]
  let ?s1 = "s\<lparr>ma_calls := map_set g (previous, Settled out) (ma_calls s)\<rparr>"
  show ?thesis
  proof (cases "g = ma_generation s")
    case False
    then have "managed_settle g out s = ?s1" using call by (cases out) (simp_all add: managed_settle_def Let_def)
    with False g parts show ?thesis by (simp add: managed_ok_def current_def)
  next
    case True
    then have w: "map_get (ma_calls s) (ma_generation s) = Some (previous, Waiting)" using call by simp
    have "managed_settle g out s =
        (case out of Resolved d \<Rightarrow> set_managed (Some d) False None ?s1
         | Rejected m ab \<Rightarrow> if ab then ?s1 else set_managed previous False (Some m) ?s1)"
      using call True \<open>ma_generation s \<notin> set (ma_aborted s)\<close> by (cases out) (simp_all add: managed_settle_def Let_def)
    with True w parts show ?thesis by (cases out) (simp_all add: managed_ok_def current_def)
  qed
qed (use assms in \<open>auto simp: managed_settle_def split: option.split phase.split\<close>)

lemma managed_ok_finally:
  assumes "managed_ok s"
  shows "managed_ok (managed_finally g s)"
proof (cases "\<exists>previous out. map_get (ma_calls s) g = Some (previous, Settled out)")
  case True
  then obtain previous out where call: "map_get (ma_calls s) g = Some (previous, Settled out)" by blast
  have g: "g \<le> ma_generation s" using assms calls_upto_known[OF _ call] by (simp add: managed_ok_def)
  note parts = assms[unfolded managed_ok_def current_def]
  let ?s1 = "s\<lparr>ma_calls := map_set g (previous, Finished out) (ma_calls s)\<rparr>"
  have ok: "managed_ok ?s1"
  proof (cases "g = ma_generation s")
    case False
    with g parts show ?thesis by (simp add: managed_ok_def current_def)
  next
    case True
    then have "map_get (ma_calls s) (ma_generation s) = Some (previous, Settled out)" using call by simp
    with True parts show ?thesis by (cases out) (simp_all add: managed_ok_def current_def)
  qed
  then have "managed_ok (?s1\<lparr>ma_inflight := None, ma_controller := None\<rparr>)" by (simp add: managed_ok_def current_def)
  moreover have "managed_finally g s = (if g = ma_generation s \<and> ma_controller s = Some g
      then ?s1\<lparr>ma_inflight := None, ma_controller := None\<rparr> else ?s1)"
    by (simp add: managed_finally_def call Let_def)
  ultimately show ?thesis using ok by metis
qed (use assms in \<open>auto simp: managed_finally_def split: option.split phase.split\<close>)

lemma managed_ok_step: "managed_ok s \<Longrightarrow> managed_ok (fst (managed_step x s))"
proof (cases x)
  case (Ma_load f)
  assume "managed_ok s"
  from next_generation[OF this] show ?thesis
    by (cases f) (simp_all add: Ma_load managed_load_def managed_ok_def current_def Let_def)
next
  case Ma_cancel
  assume "managed_ok s"
  from next_generation[OF this] show ?thesis by (simp add: Ma_cancel managed_cancel_def managed_ok_def current_def)
next
  case (Ma_reset d)
  assume "managed_ok s"
  from next_generation[OF this] show ?thesis by (simp add: Ma_reset managed_reset_def managed_ok_def current_def)
qed (simp_all add: managed_ok_settle managed_ok_finally)

interpretation managed_component: component managed_step managed_ok "\<lambda>x. True"
  by unfold_locales (simp add: managed_ok_step)

section \<open>Properties\<close>

text \<open>A rejection with an \<open>AbortError\<close> that no cancel caused leaves the panel loading although nothing is under way.\<close>

lemma managed_abort_hangs:
  "(let s = fst (run managed_step [Ma_load Promises, Ma_settle 1 (Rejected ''timed out'' True), Ma_finally 1]
      (createManagedAsyncResource (None :: nat option)))
    in ma_loading s \<and> ma_inflight s = None \<and> ma_error s = None)"
  by code_simp

text \<open>A call joins the one under way: between the outcome and its \<open>finally\<close> handler too, when the state is already settled.\<close>

lemma resource_joins_settled:
  "snd (run resource_step [Re_load Promises, Re_settle 1 (Resolved (5 :: nat)), Re_load Promises] createAsyncResource) = [Called 1, Joined 1]"
  by code_simp

lemma resource_reachable: "resource_ok (fst (run resource_step ops createAsyncResource))"
  by (rule resource_component.run_inv) (simp_all add: resource_ok_def createAsyncResource_def newest_call_def)

lemma managed_reachable: "managed_ok (fst (run managed_step ops (createManagedAsyncResource d)))"
  by (rule managed_component.run_inv)
    (simp_all add: managed_ok_def createManagedAsyncResource_def current_def aborted_below_def)

text \<open>One load at a time, and the state tells the truth. In every state of a resource the loader is called only when
  no call is under way, and otherwise the call under way is joined; the state is loading exactly while the newest
  call waits; and the outcome of an older call (from before a reset) changes nothing.\<close>

theorem resource_single_flight:
  fixes s :: "'a resource"
  assumes "s = fst (run resource_step ops createAsyncResource)"
  shows "isLoading (re_state s) = (newest_call s = Some Waiting) \<and>
    snd (resource_step (Re_load f) s) =
      (if under_way (newest_call s) then [Joined (re_generation s)] else [Called (Suc (re_generation s))]) \<and>
    (\<forall>g out. g \<noteq> re_generation s \<longrightarrow>
      re_state (resource_settle g out s) = re_state s \<and> re_inflight (resource_finally g s) = re_inflight s)"
proof -
  have ok: "resource_ok s" using assms resource_reachable by simp
  have "isLoading (re_state s) = (newest_call s = Some Waiting)"
    using ok by (cases "newest_call s" rule: under_way.cases) (auto simp: resource_ok_def)
  moreover have "snd (resource_step (Re_load f) s) =
      (if under_way (newest_call s) then [Joined (re_generation s)] else [Called (Suc (re_generation s))])"
    using ok by (cases f) (simp_all add: resource_ok_def resource_load_def Let_def)
  moreover have "re_state (resource_settle g out s) = re_state s \<and> re_inflight (resource_finally g s) = re_inflight s"
    if "g \<noteq> re_generation s" for g and out :: "'a outcome"
    using that by (auto simp: resource_settle_def resource_finally_def Let_def split: option.split phase.split)
  ultimately show ?thesis by blast
qed

lemma resource_single_flight_witness:
  "isLoading (re_state (fst (run resource_step [Re_load Promises, Re_reset, Re_load Promises] (createAsyncResource :: nat resource))))"
proof -
  let ?s = "fst (run resource_step [Re_load Promises, Re_reset, Re_load Promises] (createAsyncResource :: nat resource))"
  have "newest_call ?s = Some Waiting" by code_simp
  with resource_single_flight[of ?s "[Re_load Promises, Re_reset, Re_load Promises]" Promises] show ?thesis by simp
qed

text \<open>What cannot touch a call that waits, and what cannot touch one whose outcome is in.\<close>

fun spares_waiting :: "nat \<Rightarrow> 'a resource_op \<Rightarrow> bool" where
  "spares_waiting g (Re_settle g' out) = (g' \<noteq> g)"
| "spares_waiting g Re_reset = False"
| "spares_waiting g _ = True"

fun spares_settled :: "nat \<Rightarrow> 'a resource_op \<Rightarrow> bool" where
  "spares_settled g (Re_finally g') = (g' \<noteq> g)"
| "spares_settled g Re_reset = False"
| "spares_settled g _ = True"

definition call_in :: "'a phase \<Rightarrow> nat \<Rightarrow> 'a async_state \<Rightarrow> 'a resource \<Rightarrow> bool" where
  "call_in ph g st s \<longleftrightarrow> resource_ok s \<and> re_generation s = g \<and> newest_call s = Some ph \<and> re_inflight s = Some g \<and> re_state s = st"

lemma waiting_step:
  assumes "call_in Waiting g st s" and "spares_waiting g x"
  shows "call_in Waiting g st (fst (resource_step x s)) \<and> list_all (\<lambda>e. e = Joined g) (snd (resource_step x s))"
  using assms resource_ok_step[of s x]
  by (cases x) (auto simp: call_in_def newest_call_def resource_load_def resource_settle_def resource_finally_def Let_def
      split: option.splits phase.splits)

lemma settled_step:
  assumes "call_in (Settled out) g st s" and "spares_settled g x"
  shows "call_in (Settled out) g st (fst (resource_step x s)) \<and> list_all (\<lambda>e. e = Joined g) (snd (resource_step x s))"
  using assms resource_ok_step[of s x]
  by (cases x) (auto simp: call_in_def newest_call_def resource_load_def resource_settle_def resource_finally_def Let_def
      split: option.splits phase.splits)

lemma waiting_run:
  "call_in Waiting g st s \<Longrightarrow> list_all (spares_waiting g) xs \<Longrightarrow>
   call_in Waiting g st (fst (run resource_step xs s)) \<and> list_all (\<lambda>e. e = Joined g) (snd (run resource_step xs s))"
  by (induction xs arbitrary: s) (use waiting_step in \<open>fastforce simp: run_Cons simp del: run.simps(2) resource_step.simps\<close>)+

lemma settled_run:
  "call_in (Settled out) g st s \<Longrightarrow> list_all (spares_settled g) xs \<Longrightarrow>
   call_in (Settled out) g st (fst (run resource_step xs s)) \<and> list_all (\<lambda>e. e = Joined g) (snd (run resource_step xs s))"
  by (induction xs arbitrary: s) (use settled_step in \<open>fastforce simp: run_Cons simp del: run.simps(2) resource_step.simps\<close>)+

text \<open>C9: The latest load wins. In every state of a managed resource, the outcome of a call that is not the newest (because
  of a later load, a cancel or a reset) changes neither data, error nor the loading flag; the outcome of the newest one
  is shown: its data, or its error beside the data from before; and loading is true exactly while it waits, or after it
  was rejected with an abort error although it was not aborted.\<close>

theorem managed_latest_wins:
  fixes s :: "'a managed"
  assumes "s = fst (run managed_step ops (createManagedAsyncResource d))"
  shows "ma_loading s = (waiting_call (current s) \<or> abandoned_call (current s)) \<and>
    (\<forall>g out. (if waiting_call (current s) \<and> g = ma_generation s
              then (case out of
                      Resolved v \<Rightarrow> ma_data (managed_settle g out s) = Some v \<and> ma_error (managed_settle g out s) = None \<and>
                                    \<not> ma_loading (managed_settle g out s)
                    | Rejected m ab \<Rightarrow> ma_data (managed_settle g out s) = ma_data s \<and>
                                    ma_error (managed_settle g out s) = (if ab then None else Some m) \<and>
                                    ma_loading (managed_settle g out s) = ab)
              else ma_data (managed_settle g out s) = ma_data s \<and> ma_error (managed_settle g out s) = ma_error s \<and>
                   ma_loading (managed_settle g out s) = ma_loading s))"
proof -
  have ok: "managed_ok s" using assms managed_reachable by simp
  have ab: "ma_generation s \<notin> set (ma_aborted s)" using ok by (auto simp: managed_ok_def aborted_below_def)
  show ?thesis
  proof (intro conjI allI)
    show "ma_loading s = (waiting_call (current s) \<or> abandoned_call (current s))" using ok by (simp add: managed_ok_def)
  next
    fix g and out :: "'a outcome"
    let ?t = "managed_settle g out s"
    show "if waiting_call (current s) \<and> g = ma_generation s
      then (case out of
              Resolved v \<Rightarrow> ma_data ?t = Some v \<and> ma_error ?t = None \<and> \<not> ma_loading ?t
            | Rejected m ab \<Rightarrow> ma_data ?t = ma_data s \<and> ma_error ?t = (if ab then None else Some m) \<and> ma_loading ?t = ab)
      else ma_data ?t = ma_data s \<and> ma_error ?t = ma_error s \<and> ma_loading ?t = ma_loading s"
    proof (cases "waiting_call (current s) \<and> g = ma_generation s")
      case True
      then obtain previous where c: "map_get (ma_calls s) g = Some (previous, Waiting)"
        by (auto simp: current_def elim: waiting_call.elims)
      then have "ma_data s = previous" "ma_error s = None" "ma_loading s"
        using ok True by (auto simp: managed_ok_def current_def)
      with True c ab show ?thesis by (cases out) (auto simp: managed_settle_def Let_def)
    next
      case False
      then show ?thesis
        by (auto simp: managed_settle_def current_def Let_def split: option.split phase.split outcome.split)
    qed
  qed
qed

lemma managed_latest_wins_witness:
  "ma_data (managed_settle 2 (Resolved 7) (fst (run managed_step [Ma_load Promises, Ma_load Promises, Ma_settle 1 (Resolved 3)]
     (createManagedAsyncResource (None :: nat option))))) = Some 7"
proof -
  let ?ops = "[Ma_load Promises, Ma_load Promises, Ma_settle 1 (Resolved 3)]"
  let ?s = "fst (run managed_step ?ops (createManagedAsyncResource (None :: nat option)))"
  have "waiting_call (current ?s)" "ma_generation ?s = 2" by code_simp+
  with managed_latest_wins[of ?s ?ops None] show ?thesis by (auto dest!: conjunct2 spec[of _ 2] spec[of _ "Resolved 7"])
qed

text \<open>What a load that starts from rest does, whatever the loader does: call it.\<close>

lemma load_from_rest:
  assumes "resource_ok s" and "\<not> under_way (newest_call s)"
  shows "snd (resource_load f s) = [Called (Suc (re_generation s))]"
    and "call_in Waiting (Suc (re_generation s)) As_loading (fst (resource_load Promises s))"
    and "re_state (fst (resource_load (Throws m) s)) = As_failed m"
    and "\<not> under_way (newest_call (fst (resource_load (Throws m) s)))"
    and "re_generation (fst (resource_load (Throws m) s)) = Suc (re_generation s)"
proof -
  have n: "re_inflight s = None" "map_get (re_calls s) (Suc (re_generation s)) = None"
    using assms by (simp_all add: resource_ok_def calls_upto_fresh)
  show "snd (resource_load f s) = [Called (Suc (re_generation s))]" using n by (cases f) (simp_all add: resource_load_def Let_def)
  show "call_in Waiting (Suc (re_generation s)) As_loading (fst (resource_load Promises s))"
    using n resource_ok_load[OF assms(1), of Promises] by (simp add: resource_load_def Let_def call_in_def newest_call_def)
  show "re_state (fst (resource_load (Throws m) s)) = As_failed m"
    "\<not> under_way (newest_call (fst (resource_load (Throws m) s)))"
    "re_generation (fst (resource_load (Throws m) s)) = Suc (re_generation s)"
    using n by (simp_all add: resource_load_def Let_def newest_call_def)
qed

lemma outcome_comes:
  "call_in Waiting g st s \<Longrightarrow> call_in (Settled out) g (outcome_state out) (resource_settle g out s)"
  using resource_ok_settle[of s g out]
  by (auto simp: call_in_def newest_call_def resource_settle_def Let_def outcome_state_case)

lemma at_rest_again:
  assumes "call_in (Settled out) g st s"
  shows "resource_ok (resource_finally g s) \<and> \<not> under_way (newest_call (resource_finally g s)) \<and>
    re_generation (resource_finally g s) = g \<and> re_state (resource_finally g s) = st"
  using assms resource_ok_finally[of s g]
  by (auto simp: call_in_def newest_call_def resource_finally_def Let_def)

text \<open>C40: No error is lost, and none sticks. In every state of a resource in which no call is under way, a loader function that
  throws at once leaves the resource failed with its message, and one that returns a promise is called once: whatever
  happens meanwhile short of a reset (further loads, outcomes of older calls, \<open>finally\<close> handlers), every further load joins
  the call, its rejection makes the resource failed with its message, and this state stays until the \<open>finally\<close> handler.
  After either of the two errors the next load calls its loader function anew.\<close>

theorem resource_errors_surface:
  fixes s :: "'a resource"
  assumes "s = fst (run resource_step ops createAsyncResource)" and "\<not> under_way (newest_call s)" and "g = Suc (re_generation s)"
    and "list_all (spares_waiting g) xs" and "list_all (spares_settled g) ys"
  shows "(let (t, es) = run resource_step (Re_load Promises # xs @ Re_settle g (Rejected m ab) # ys) s
          in re_state t = As_failed m \<and> hd es = Called g \<and> list_all (\<lambda>e. e = Joined g) (tl es) \<and>
             re_state (fst (resource_step (Re_finally g) t)) = As_failed m \<and>
             snd (run resource_step [Re_finally g, Re_load f] t) = [Called (Suc g)]) \<and>
    re_state (fst (resource_step (Re_load (Throws m)) s)) = As_failed m \<and>
    snd (run resource_step [Re_load (Throws m), Re_load f] s) = [Called g, Called (Suc g)]"
proof (intro conjI)
  have ok: "resource_ok s" using assms(1) resource_reachable by simp
  note rest = load_from_rest[OF ok assms(2)]
  let ?a = "fst (resource_load Promises s)"
  let ?b = "fst (run resource_step xs ?a)"
  let ?c = "resource_settle g (Rejected m ab) ?b"
  let ?t = "fst (run resource_step ys ?c)"
  have b: "call_in Waiting g As_loading ?b" "list_all (\<lambda>e. e = Joined g) (snd (run resource_step xs ?a))"
    using waiting_run[OF _ assms(4)] rest(2) assms(3) by simp_all
  have t: "call_in (Settled (Rejected m ab)) g (As_failed m) ?t" "list_all (\<lambda>e. e = Joined g) (snd (run resource_step ys ?c))"
    using settled_run[OF _ assms(5)] outcome_comes[OF b(1), of "Rejected m ab"] by simp_all
  have run: "run resource_step (Re_load Promises # xs @ Re_settle g (Rejected m ab) # ys) s =
      (?t, Called g # snd (run resource_step xs ?a) @ snd (run resource_step ys ?c))"
    using rest(1) assms(3) by (simp add: run_Cons run_append del: run.simps(2))
  note again = at_rest_again[OF t(1)]
  have "re_state ?t = As_failed m" using t(1) by (simp add: call_in_def)
  moreover have "snd (run resource_step [Re_finally g, Re_load f] ?t) = [Called (Suc g)]"
    using load_from_rest(1)[of "resource_finally g ?t" f] again by (simp add: run_Cons del: run.simps(2))
  ultimately show "let (t, es) = run resource_step (Re_load Promises # xs @ Re_settle g (Rejected m ab) # ys) s
      in re_state t = As_failed m \<and> hd es = Called g \<and> list_all (\<lambda>e. e = Joined g) (tl es) \<and>
         re_state (fst (resource_step (Re_finally g) t)) = As_failed m \<and>
         snd (run resource_step [Re_finally g, Re_load f] t) = [Called (Suc g)]"
    unfolding run using b(2) t(2) again by simp
  show "re_state (fst (resource_step (Re_load (Throws m)) s)) = As_failed m" using rest(3) by simp
  show "snd (run resource_step [Re_load (Throws m), Re_load f] s) = [Called g, Called (Suc g)]"
    using rest(1) assms(3) load_from_rest(1)[of "fst (resource_load (Throws m) s)" f] rest(4,5) resource_ok_load[OF ok]
    by (simp add: run_Cons del: run.simps(2))
qed

lemma resource_errors_surface_witness:
  "re_state (fst (run resource_step [Re_load Promises, Re_reset, Re_load Promises, Re_settle 1 (Resolved (5 :: nat)), Re_load Promises,
     Re_settle 3 (Rejected ''down'' False)] createAsyncResource)) = As_failed ''down''"
proof -
  let ?s = "fst (run resource_step [Re_load Promises, Re_reset] (createAsyncResource :: nat resource))"
  have "\<not> under_way (newest_call ?s)" "3 = Suc (re_generation ?s)" by code_simp+
  moreover have "list_all (spares_waiting 3) [Re_settle 1 (Resolved (5 :: nat)), Re_load Promises]" by simp
  ultimately have "re_state (fst (run resource_step (Re_load Promises # [Re_settle 1 (Resolved 5), Re_load Promises] @
      Re_settle 3 (Rejected ''down'' False) # []) ?s)) = As_failed ''down''"
    using resource_errors_surface[of ?s "[Re_load Promises, Re_reset]" 3 "[Re_settle 1 (Resolved 5), Re_load Promises]" "[]" "''down''" False]
    by (simp add: split_def Let_def del: run.simps(2))
  then show ?thesis by (simp add: run_Cons del: run.simps(2))
qed

end
