(* ===== verification/Interject.thy ===== *)
theory Interject
  imports Js_Text Contracts
begin

text \<open>
  The interject rail of the IDE (\<open>components/ide/interject-store.ts\<close>): a message to the active keeper, four actions that a
  policy enables, and the dispatch of one. \<open>dispatch\<close> either throws at once or returns a promise, which a later step
  settles; dispatches are numbered in the order of the calls. A subscriber is an effect on the snapshot signal.
\<close>

section \<open>Actions and policy\<close>

datatype interject_kind = I_send | I_approve | I_pause | I_drain

record interject_request =
  iq_kind :: interject_kind
  iq_keeper_id :: string
  iq_message :: "string option"
  iq_timestamp_ms :: int

record interject_action =
  ia_kind :: interject_kind
  ia_label :: string
  ia_primary :: bool
  ia_requires_message :: bool

record interject_action_state = interject_action +
  ia_enabled :: bool
  ia_disabled_reason :: "string option"

record interject_snapshot =
  ij_active_keeper_id :: "string option"
  ij_message :: string
  ij_busy_action :: "interject_kind option"
  ij_error :: "string option"
  ij_last_dispatch :: "interject_request option"

record availability =
  av_enabled :: bool
  av_disabled_reason :: "string option"

type_synonym policy = "(interject_kind, availability) jsmap"

fun kind_text :: "interject_kind \<Rightarrow> string" where
  "kind_text I_send = ''send''"
| "kind_text I_approve = ''approve''"
| "kind_text I_pause = ''pause''"
| "kind_text I_drain = ''drain''"

definition ACTIONS :: "interject_action list" where
  "ACTIONS =
    [\<lparr>ia_kind = I_send, ia_label = ''Send'', ia_primary = True, ia_requires_message = True\<rparr>,
     \<lparr>ia_kind = I_approve, ia_label = ''Approve'', ia_primary = False, ia_requires_message = False\<rparr>,
     \<lparr>ia_kind = I_pause, ia_label = ''Pause'', ia_primary = False, ia_requires_message = False\<rparr>,
     \<lparr>ia_kind = I_drain, ia_label = ''Drain'', ia_primary = False, ia_requires_message = False\<rparr>]"

definition DEFAULT_ACTION_POLICY :: policy where
  "DEFAULT_ACTION_POLICY =
    [(I_send, \<lparr>av_enabled = True, av_disabled_reason = None\<rparr>),
     (I_approve, \<lparr>av_enabled = False, av_disabled_reason = Some ''No active approval token is attached to the IDE interject rail.''\<rparr>),
     (I_pause, \<lparr>av_enabled = False, av_disabled_reason = Some ''Keeper-scoped pause is not advertised by the operator action surface.''\<rparr>),
     (I_drain, \<lparr>av_enabled = False, av_disabled_reason = Some ''Keeper-scoped drain is not advertised by the operator action surface.''\<rparr>)]"

text \<open>\<open>{ ...DEFAULT_ACTION_POLICY, ...actionPolicy }\<close> read at a kind.\<close>

definition policy_of :: "policy \<Rightarrow> interject_kind \<Rightarrow> availability" where
  "policy_of actionPolicy k =
     (case map_get actionPolicy k of Some a \<Rightarrow> a | None \<Rightarrow> the (map_get DEFAULT_ACTION_POLICY k))"

definition normalizeKeeper :: "string option \<Rightarrow> string option" where
  "normalizeKeeper v = (case v of None \<Rightarrow> None | Some s \<Rightarrow> if trim s \<noteq> '''' then Some (trim s) else None)"

definition no_keeper :: "interject_snapshot \<Rightarrow> bool" where
  "no_keeper s \<longleftrightarrow> ij_active_keeper_id s = None \<or> ij_active_keeper_id s = Some ''''"

definition disabled_reason :: "policy \<Rightarrow> interject_action \<Rightarrow> interject_snapshot \<Rightarrow> string option" where
  "disabled_reason pol a s =
     (let avail = policy_of pol (ia_kind a)
      in case ij_busy_action s of
           Some k \<Rightarrow> Some (kind_text k @ '' is still running.'')
         | None \<Rightarrow>
             if no_keeper s then Some ''Choose an active keeper before using INTERJECT.''
             else if ia_requires_message a \<and> trim (ij_message s) = '''' then Some ''Type a message before sending.''
             else if \<not> av_enabled avail then
               Some (case av_disabled_reason avail of Some r \<Rightarrow> r | None \<Rightarrow> ia_label a @ '' is not available.'')
             else None)"

definition deriveActionState :: "policy \<Rightarrow> interject_snapshot \<Rightarrow> interject_action \<Rightarrow> interject_action_state" where
  "deriveActionState pol s a =
     interject_action.extend a
       \<lparr>ia_enabled = (disabled_reason pol a s = None), ia_disabled_reason = disabled_reason pol a s\<rparr>"

section \<open>The store\<close>

datatype dispatch_start = Dispatch_throws string | Dispatch_promises

record interject_state =
  is_snapshot :: interject_snapshot
  is_listeners :: "listener jsset"
  is_next :: nat
  is_pending :: "(nat, interject_request) jsmap"

datatype interject_effect = Dispatched nat interject_request | Answered nat bool

type_synonym interject_result = "interject_state \<times> (interject_snapshot, interject_effect) event list"

definition createInterjectStore :: "string option \<Rightarrow> interject_state" where
  "createInterjectStore initialActiveKeeper =
     \<lparr>is_snapshot = \<lparr>ij_active_keeper_id = normalizeKeeper initialActiveKeeper, ij_message = '''', ij_busy_action = None,
        ij_error = None, ij_last_dispatch = None\<rparr>,
      is_listeners = [], is_next = 0, is_pending = []\<rparr>"

definition setSnapshot :: "interject_snapshot \<Rightarrow> interject_state \<Rightarrow> interject_result" where
  "setSnapshot v s = (s\<lparr>is_snapshot := v\<rparr>, emit_to (is_listeners s) v)"

definition setActiveKeeper :: "string option \<Rightarrow> interject_state \<Rightarrow> interject_result" where
  "setActiveKeeper keeperId s =
     (let nextKeeper = normalizeKeeper keeperId; cur = is_snapshot s
      in if ij_active_keeper_id cur = nextKeeper then (s, [])
         else setSnapshot (cur\<lparr>ij_active_keeper_id := nextKeeper, ij_error := None\<rparr>) s)"

definition setMessage :: "string \<Rightarrow> interject_state \<Rightarrow> interject_result" where
  "setMessage message s =
     (let cur = is_snapshot s
      in if ij_message cur = message then (s, [])
         else setSnapshot (cur\<lparr>ij_message := message, ij_error := None\<rparr>) s)"

definition interject_actions :: "policy \<Rightarrow> interject_state \<Rightarrow> interject_action_state list" where
  "interject_actions pol s = map (deriveActionState pol (is_snapshot s)) ACTIONS"

text \<open>The code after the await, on success and in the catch block.\<close>

definition dispatch_done :: "nat \<Rightarrow> interject_request \<Rightarrow> interject_state \<Rightarrow> interject_result" where
  "dispatch_done n rq s =
     (let after = is_snapshot s;
          (s1, es) = setSnapshot (after\<lparr>ij_message := (if iq_kind rq = I_send then '''' else ij_message after),
                       ij_busy_action := None, ij_error := None, ij_last_dispatch := Some rq\<rparr>) s
      in (s1, es @ [Did (Answered n True)]))"

definition dispatch_failed :: "nat \<Rightarrow> string \<Rightarrow> interject_state \<Rightarrow> interject_result" where
  "dispatch_failed n m s =
     (let after = is_snapshot s;
          (s1, es) = setSnapshot (after\<lparr>ij_busy_action := None, ij_error := Some m\<rparr>) s
      in (s1, es @ [Did (Answered n False)]))"

definition submit_refused :: "string \<Rightarrow> interject_state \<Rightarrow> interject_result" where
  "submit_refused reason s =
     (let (s1, es) = setSnapshot ((is_snapshot s)\<lparr>ij_error := Some reason\<rparr>) s in (s1, es @ [Did (Answered (is_next s) False)]))"

definition request_of :: "interject_kind \<Rightarrow> string \<Rightarrow> string \<Rightarrow> int \<Rightarrow> interject_request" where
  "request_of kind keeperId message now =
     \<lparr>iq_kind = kind, iq_keeper_id = keeperId, iq_message = (if message = '''' then None else Some message), iq_timestamp_ms = now\<rparr>"

definition submit :: "policy \<Rightarrow> interject_kind \<Rightarrow> int \<Rightarrow> dispatch_start \<Rightarrow> interject_state \<Rightarrow> interject_result" where
  "submit pol kind now start s =
     (let cur = is_snapshot s
      in case List.find (\<lambda>i. ia_kind i = kind) (interject_actions pol s) of
           None \<Rightarrow> submit_refused (''Unknown INTERJECT action: '' @ kind_text kind) s
         | Some action \<Rightarrow>
             if \<not> ia_enabled action
             then submit_refused (case ia_disabled_reason action of Some r \<Rightarrow> r | None \<Rightarrow> ia_label action @ '' is unavailable'') s
             else (case ij_active_keeper_id cur of
                     None \<Rightarrow> submit_refused ''Choose an active keeper before using INTERJECT.'' s
                   | Some keeperId \<Rightarrow>
                       if keeperId = '''' then submit_refused ''Choose an active keeper before using INTERJECT.'' s
                       else (let rq = request_of kind keeperId (trim (ij_message cur)) now;
                                 n = is_next s;
                                 (s1, es1) = setSnapshot (cur\<lparr>ij_busy_action := Some kind, ij_error := None\<rparr>) (s\<lparr>is_next := Suc n\<rparr>)
                             in case start of
                                  Dispatch_throws m \<Rightarrow>
                                    (let (s2, es2) = dispatch_failed n m s1 in (s2, es1 @ [Did (Dispatched n rq)] @ es2))
                                | Dispatch_promises \<Rightarrow>
                                    (s1\<lparr>is_pending := map_set n rq (is_pending s1)\<rparr>, es1 @ [Did (Dispatched n rq)]))))"

definition settle_dispatch :: "nat \<Rightarrow> string option \<Rightarrow> interject_state \<Rightarrow> interject_result" where
  "settle_dispatch n failure s =
     (case map_get (is_pending s) n of
        None \<Rightarrow> (s, [])
      | Some rq \<Rightarrow>
          (let s1 = s\<lparr>is_pending := map_del n (is_pending s)\<rparr>
           in case failure of None \<Rightarrow> dispatch_done n rq s1 | Some m \<Rightarrow> dispatch_failed n m s1))"

definition interject_reset :: "interject_state \<Rightarrow> interject_result" where
  "interject_reset s =
     setSnapshot ((is_snapshot s)\<lparr>ij_message := '''', ij_busy_action := None, ij_error := None, ij_last_dispatch := None\<rparr>) s"

datatype interject_op =
    Ij_setActiveKeeper "string option"
  | Ij_setMessage string
  | Ij_submit interject_kind int dispatch_start
  | Ij_settle nat "string option"
  | Ij_reset
  | Ij_subscribe listener
  | Ij_unsubscribe listener

fun interject_step :: "policy \<Rightarrow> interject_op \<Rightarrow> interject_state \<Rightarrow> interject_result" where
  "interject_step pol (Ij_setActiveKeeper k) s = setActiveKeeper k s"
| "interject_step pol (Ij_setMessage m) s = setMessage m s"
| "interject_step pol (Ij_submit k now st) s = submit pol k now st s"
| "interject_step pol (Ij_settle n f) s = settle_dispatch n f s"
| "interject_step pol Ij_reset s = interject_reset s"
| "interject_step pol (Ij_subscribe l) s = (s\<lparr>is_listeners := subscribe l (is_listeners s)\<rparr>, [])"
| "interject_step pol (Ij_unsubscribe l) s = (s\<lparr>is_listeners := unsubscribe l (is_listeners s)\<rparr>, [])"

section \<open>What a step dispatches\<close>

definition dispatched :: "(interject_snapshot, interject_effect) event list \<Rightarrow> interject_request list" where
  "dispatched es = List.map_filter (\<lambda>x. case x of Dispatched n rq \<Rightarrow> Some rq | _ \<Rightarrow> None) (did es)"

definition action_of :: "interject_kind \<Rightarrow> interject_action" where
  "action_of k = hd (filter (\<lambda>a. ia_kind a = k) ACTIONS)"

lemma find_action: "List.find (\<lambda>i. ia_kind i = k) (interject_actions pol s) = Some (deriveActionState pol (is_snapshot s) (action_of k))"
  by (cases k) (simp_all add: interject_actions_def ACTIONS_def action_of_def deriveActionState_def interject_action.defs)

lemma action_of_simps [simp]: "ia_kind (action_of k) = k" "ia_requires_message (action_of k) = (k = I_send)"
  by (cases k; simp add: action_of_def ACTIONS_def)+

lemma derived_simps [simp]:
  "ia_enabled (deriveActionState pol v a) = (disabled_reason pol a v = None)"
  "ia_disabled_reason (deriveActionState pol v a) = disabled_reason pol a v"
  by (simp_all add: deriveActionState_def interject_action.defs)

lemma enabled_iff:
  "disabled_reason pol (action_of k) v = None \<longleftrightarrow>
   ij_busy_action v = None \<and> \<not> no_keeper v \<and> (if k = I_send then trim (ij_message v) \<noteq> '''' else True) \<and> av_enabled (policy_of pol k)"
  by (auto simp: disabled_reason_def Let_def split: option.split)

lemma dispatched_simps [simp]:
  "dispatched [] = []" "dispatched (es @ fs) = dispatched es @ dispatched fs" "dispatched (emit_to ls v) = []"
  "dispatched [Did (Answered n b)] = []" "dispatched [Did (Dispatched n rq)] = [rq]" "dispatched (Did (Dispatched n rq) # es) = rq # dispatched es"
  by (simp_all add: dispatched_def did_def emit_to_def List.map_filter_def comp_def)

section \<open>One dispatch at a time\<close>

definition one_dispatch :: "interject_state \<Rightarrow> bool" where
  "one_dispatch s \<longleftrightarrow>
     (case ij_busy_action (is_snapshot s) of
        None \<Rightarrow> is_pending s = []
      | Some k \<Rightarrow> (\<exists>n rq. is_pending s = [(n, rq)] \<and> iq_kind rq = k))"

lemma setSnapshot_simps [simp]:
  "is_snapshot (fst (setSnapshot v s)) = v" "is_pending (fst (setSnapshot v s)) = is_pending s"
  "snd (setSnapshot v s) = emit_to (is_listeners s) v" "is_listeners (fst (setSnapshot v s)) = is_listeners s"
  by (simp_all add: setSnapshot_def)

lemma done_simps [simp]:
  "ij_busy_action (is_snapshot (fst (dispatch_done n rq s))) = None" "is_pending (fst (dispatch_done n rq s)) = is_pending s"
  "ij_busy_action (is_snapshot (fst (dispatch_failed n m s))) = None" "is_pending (fst (dispatch_failed n m s)) = is_pending s"
  "ij_busy_action (is_snapshot (fst (submit_refused r s))) = ij_busy_action (is_snapshot s)"
  "is_pending (fst (submit_refused r s)) = is_pending s" "ij_error (is_snapshot (fst (submit_refused r s))) = Some r"
  "dispatched (snd (submit_refused r s)) = []" "dispatched (snd (dispatch_failed n m s)) = []"
  by (simp_all add: dispatch_done_def dispatch_failed_def submit_refused_def setSnapshot_def Let_def)

lemma request_kind [simp]: "iq_kind (request_of k kp m now) = k"
  by (simp add: request_of_def)

text \<open>A submit, as one of its three ways.\<close>

lemma submit_disabled:
  "disabled_reason pol (action_of k) (is_snapshot s) = Some r \<Longrightarrow> submit pol k now st s = submit_refused r s"
  by (simp add: submit_def find_action Let_def)

lemma submit_enabled:
  assumes "disabled_reason pol (action_of k) (is_snapshot s) = None" and "ij_active_keeper_id (is_snapshot s) = Some kp"
  shows "dispatched (snd (submit pol k now st s)) = [request_of k kp (trim (ij_message (is_snapshot s))) now]"
    and "ij_busy_action (is_snapshot (fst (submit pol k now st s))) = (case st of Dispatch_throws m \<Rightarrow> None | Dispatch_promises \<Rightarrow> Some k)"
    and "is_pending (fst (submit pol k now st s)) =
      (case st of Dispatch_throws m \<Rightarrow> is_pending s
       | Dispatch_promises \<Rightarrow> map_set (is_next s) (request_of k kp (trim (ij_message (is_snapshot s))) now) (is_pending s))"
proof -
  have ne: "kp \<noteq> ''''" using assms by (auto simp: enabled_iff no_keeper_def)
  show "dispatched (snd (submit pol k now st s)) = [request_of k kp (trim (ij_message (is_snapshot s))) now]"
    "ij_busy_action (is_snapshot (fst (submit pol k now st s))) = (case st of Dispatch_throws m \<Rightarrow> None | Dispatch_promises \<Rightarrow> Some k)"
    "is_pending (fst (submit pol k now st s)) =
      (case st of Dispatch_throws m \<Rightarrow> is_pending s
       | Dispatch_promises \<Rightarrow> map_set (is_next s) (request_of k kp (trim (ij_message (is_snapshot s))) now) (is_pending s))"
    using assms ne
    by (cases st; simp add: submit_def find_action setSnapshot_def dispatch_failed_def Let_def)+
qed

lemma one_dispatch_submit:
  assumes "one_dispatch s"
  shows "one_dispatch (fst (submit pol k now st s))"
proof (cases "disabled_reason pol (action_of k) (is_snapshot s)")
  case (Some r)
  then show ?thesis using assms by (simp add: submit_disabled one_dispatch_def split: option.splits)
next
  case None
  then obtain kp where kp: "ij_active_keeper_id (is_snapshot s) = Some kp" and "ij_busy_action (is_snapshot s) = None"
    by (auto simp: enabled_iff no_keeper_def)
  then have "is_pending s = []" using assms by (simp add: one_dispatch_def)
  then show ?thesis using submit_enabled[OF None kp] by (cases st) (simp_all add: one_dispatch_def)
qed

lemma one_dispatch_settle:
  assumes "one_dispatch s"
  shows "one_dispatch (fst (settle_dispatch n f s))"
proof (cases "map_get (is_pending s) n")
  case (Some rq)
  then have "is_pending s = [(n, rq)]" using assms by (auto simp: one_dispatch_def split: option.splits if_splits)
  then show ?thesis by (cases f) (simp_all add: settle_dispatch_def one_dispatch_def)
qed (use assms in \<open>simp add: settle_dispatch_def\<close>)

lemma one_dispatch_step: "one_dispatch s \<Longrightarrow> x \<noteq> Ij_reset \<Longrightarrow> one_dispatch (fst (interject_step pol x s))"
  by (cases x) (simp_all add: one_dispatch_submit one_dispatch_settle, simp_all add: setActiveKeeper_def setMessage_def one_dispatch_def Let_def split: option.splits)

interpretation interject_component: component "interject_step pol" one_dispatch "\<lambda>x. x \<noteq> Ij_reset"
  by unfold_locales (rule one_dispatch_step)

text \<open>With a reset while a dispatch is under way, a second one runs beside it.\<close>

lemma interject_reset_overlaps:
  "length (is_pending (fst (run (interject_step [])
     [Ij_setActiveKeeper (Some ''k''), Ij_setMessage ''a'', Ij_submit I_send 1 Dispatch_promises, Ij_reset,
      Ij_setMessage ''b'', Ij_submit I_send 2 Dispatch_promises] (createInterjectStore None)))) = 2"
  by code_simp

text \<open>What is typed while a message is being sent is discarded when the sending ends.\<close>

lemma interject_loses_typing:
  "ij_message (is_snapshot (fst (run (interject_step [])
     [Ij_setActiveKeeper (Some ''k''), Ij_setMessage ''a'', Ij_submit I_send 1 Dispatch_promises, Ij_setMessage ''next'',
      Ij_settle 0 None] (createInterjectStore None)))) = ''''"
  by code_simp

section \<open>Properties\<close>

text \<open>The rail dispatches what its buttons offer. In every state, submitting an action dispatches one request exactly
  when the action is shown enabled; then the policy allows it, a keeper is active, nothing is running, the request goes
  to that keeper with the trimmed message, and a send has one; otherwise nothing is dispatched and the reason shown on
  the action becomes the error.\<close>

theorem interject_submit_guarded:
  "case disabled_reason pol (action_of k) (is_snapshot s) of
     Some r \<Rightarrow> dispatched (snd (interject_step pol (Ij_submit k now st) s)) = [] \<and>
       ij_error (is_snapshot (fst (interject_step pol (Ij_submit k now st) s))) = Some r
   | None \<Rightarrow> (case ij_active_keeper_id (is_snapshot s) of
        None \<Rightarrow> False
      | Some kp \<Rightarrow> dispatched (snd (interject_step pol (Ij_submit k now st) s)) =
            [\<lparr>iq_kind = k, iq_keeper_id = kp,
              iq_message = (if trim (ij_message (is_snapshot s)) = '''' then None else Some (trim (ij_message (is_snapshot s)))),
              iq_timestamp_ms = now\<rparr>] \<and>
          kp \<noteq> '''' \<and> av_enabled (policy_of pol k) \<and> ij_busy_action (is_snapshot s) = None \<and>
          (if k = I_send then trim (ij_message (is_snapshot s)) \<noteq> '''' else True))"
proof (cases "disabled_reason pol (action_of k) (is_snapshot s)")
  case (Some r)
  then show ?thesis by (simp add: submit_disabled)
next
  case None
  then obtain kp where kp: "ij_active_keeper_id (is_snapshot s) = Some kp" "kp \<noteq> ''''"
    by (auto simp: enabled_iff no_keeper_def)
  show ?thesis using None submit_enabled(1)[OF None kp(1)] kp unfolding enabled_iff request_of_def by (simp add: None)
qed

text \<open>C33: One dispatch at a time. As long as the rail is not reset, at most one dispatch is under way, and the busy action is
  its kind; no action is busy when none is.\<close>

theorem interject_one_at_a_time:
  assumes "Ij_reset \<notin> set ops"
  shows "one_dispatch (fst (run (interject_step pol) ops (createInterjectStore k)))"
proof (rule interject_component.run_inv)
  show "one_dispatch (createInterjectStore k)" by (simp add: one_dispatch_def createInterjectStore_def)
  show "\<forall>x\<in>set ops. x \<noteq> Ij_reset" using assms by blast
qed

lemma interject_one_at_a_time_witness:
  "one_dispatch (fst (run (interject_step [])
     [Ij_setActiveKeeper (Some ''k''), Ij_setMessage ''a'', Ij_submit I_send 1 Dispatch_promises, Ij_submit I_send 2 Dispatch_promises]
     (createInterjectStore None)))"
  by (rule interject_one_at_a_time) simp

end
