(* ===== verification/Double.thy ===== *)
theory Double
  imports Prelude "HOL-Library.Log_Nat"
begin

text \<open>
  The rounding of JavaScript's numbers: a finite double is a rational, and an arithmetic operation gives the double
  nearest to the exact result, the even one of two. \<open>fl64\<close> is that rounding, for subnormal numbers too; overflow to
  infinity is left out. Times and lengths in seconds are far from it.
\<close>

section \<open>The rounding\<close>

text \<open>The exponent of a positive rational: two to it is the greatest power not above.\<close>

definition exponent :: "rat \<Rightarrow> int" where
  "exponent x =
     (let (p, q) = quotient_of x;
          d = int (floorlog 2 (nat p)) - int (floorlog 2 (nat q))
      in if 2 powi d \<le> x then d else d - 1)"

definition round_even :: "rat \<Rightarrow> int" where
  "round_even x =
     (let f = \<lfloor>x\<rfloor>; r = x - of_int f
      in if r < 1 / 2 then f else if 1 / 2 < r then f + 1 else if even f then f else f + 1)"

text \<open>The weight of the last bit of the 53 that a double has, at least that of the subnormal numbers.\<close>

definition last_bit :: "rat \<Rightarrow> int" where
  "last_bit x = max (exponent x - 52) (-1074)"

definition fl64 :: "rat \<Rightarrow> rat" where
  "fl64 x = (if x = 0 then 0 else sgn x * of_int (round_even (\<bar>x\<bar> / 2 powi last_bit \<bar>x\<bar>)) * 2 powi last_bit \<bar>x\<bar>)"

section \<open>Its laws\<close>

lemma exponent_bounds:
  assumes "0 < x"
  shows "2 powi exponent x \<le> x \<and> x < 2 powi (exponent x + 1)"
proof -
  obtain p q where pq: "quotient_of x = (p, q)" by fastforce
  have q: "0 < q" "x = of_int p / of_int q" using quotient_of_denom_pos[OF pq] quotient_of_div[OF pq] by simp_all
  then have p: "0 < p" using assms by (simp add: zero_less_divide_iff)
  let ?a = "floorlog 2 (nat p)" and ?b = "floorlog 2 (nat q)"
  have bounds: "2 powi (int (floorlog 2 (nat n)) - 1) \<le> (of_int n :: rat) \<and> (of_int n :: rat) < 2 powi int (floorlog 2 (nat n))"
    if n: "0 < n" for n :: int
  proof -
    have f: "2 ^ (floorlog 2 (nat n) - 1) \<le> nat n \<and> nat n < 2 ^ floorlog 2 (nat n)" using n by (intro floorlog_bounds) simp_all
    have pos: "0 < floorlog 2 (nat n)" using n floorlog_eq_zero_iff[of 2 "nat n"] by simp
    have r: "(of_int n :: rat) = of_nat (nat n)" using n by simp
    have "(2 ^ (floorlog 2 (nat n) - 1) :: rat) \<le> of_nat (nat n)" "of_nat (nat n) < (2 ^ floorlog 2 (nat n) :: rat)"
      using f by (metis of_nat_le_iff of_nat_numeral of_nat_power, metis of_nat_less_iff of_nat_numeral of_nat_power)
    moreover have "int (floorlog 2 (nat n)) - 1 = int (floorlog 2 (nat n) - 1)" using pos by simp
    ultimately show ?thesis unfolding r by (simp only: power_int_of_nat)
  qed
  let ?d = "int ?a - int ?b"
  have P: "2 powi (int ?a - 1) \<le> (of_int p :: rat)" "(of_int p :: rat) < 2 powi int ?a" using bounds[OF p] by blast+
  have Q: "2 powi (int ?b - 1) \<le> (of_int q :: rat)" "(of_int q :: rat) < 2 powi int ?b" using bounds[OF q(1)] by blast+
  have qpos: "0 < (of_int q :: rat)" using q(1) by simp
  have "(2 :: rat) powi (?d + 1) = 2 powi int ?a / 2 powi (int ?b - 1)"
    using power_int_diff[of "2 :: rat" "int ?a" "int ?b - 1"] by (simp add: algebra_simps del: power_int_of_nat)
  moreover have "x < 2 powi int ?a / 2 powi (int ?b - 1)"
    unfolding q(2) using P(2) Q(1) qpos
    by (intro frac_less) (use p in simp_all)
  ultimately have upper: "x < 2 powi (?d + 1)" by simp
  have "(2 :: rat) powi (?d - 1) = 2 powi (int ?a - 1) / 2 powi int ?b"
    using power_int_diff[of "2 :: rat" "int ?a - 1" "int ?b"] by (simp add: algebra_simps del: power_int_of_nat)
  moreover have "2 powi (int ?a - 1) / 2 powi int ?b \<le> x"
    unfolding q(2) using P(1) Q(2) qpos by (intro frac_le) (use p in simp_all)
  ultimately have lower: "2 powi (?d - 1) \<le> x" by simp
  show ?thesis using upper lower by (auto simp: exponent_def pq Let_def not_le)
qed

lemma exponent_mono:
  assumes "0 < x" and "x \<le> y"
  shows "exponent x \<le> exponent y"
proof (rule ccontr)
  assume "\<not> ?thesis"
  then have "(2 :: rat) powi (exponent y + 1) \<le> 2 powi exponent x" by (intro power_int_increasing) simp_all
  then show False using exponent_bounds[of x] exponent_bounds[of y] assms by linarith
qed

lemma round_even_int [simp]: "round_even (of_int n) = n"
  by (simp add: round_even_def)

lemma round_even_mono:
  assumes "x \<le> y"
  shows "round_even x \<le> round_even y"
proof (cases "\<lfloor>x\<rfloor> = \<lfloor>y\<rfloor>")
  case True
  then show ?thesis using assms by (auto simp: round_even_def Let_def)
next
  case False
  then have "\<lfloor>x\<rfloor> + 1 \<le> \<lfloor>y\<rfloor>" using floor_mono[OF assms] by linarith
  then show ?thesis by (auto simp: round_even_def Let_def)
qed

lemma fl64_pos: "0 < x \<Longrightarrow> fl64 x = of_int (round_even (x / 2 powi last_bit x)) * 2 powi last_bit x"
  by (simp add: fl64_def)

lemma fl64_zero [simp]: "fl64 0 = 0"
  by (simp add: fl64_def)

lemma scaled_bounds:
  assumes "0 < x"
  shows "x / 2 powi last_bit x < 2 ^ 53" and "exponent x - 52 \<ge> -1074 \<Longrightarrow> 2 ^ 52 \<le> x / 2 powi last_bit x"
proof -
  have e: "2 powi exponent x \<le> x" "x < 2 powi (exponent x + 1)" using exponent_bounds[OF assms] by blast+
  have "x < 2 powi (last_bit x + 53)"
  proof -
    have "(2 :: rat) powi (exponent x + 1) \<le> 2 powi (last_bit x + 53)" by (intro power_int_increasing) (simp_all add: last_bit_def)
    then show ?thesis using e by linarith
  qed
  also have "(2 :: rat) powi (last_bit x + 53) = 2 ^ 53 * 2 powi last_bit x" by (simp add: power_int_add)
  finally show "x / 2 powi last_bit x < 2 ^ 53" by (simp add: divide_less_eq)
  show "2 ^ 52 \<le> x / 2 powi last_bit x" if "exponent x - 52 \<ge> -1074"
  proof -
    have "exponent x = last_bit x + 52" using that by (simp add: last_bit_def)
    then have "(2 :: rat) powi exponent x = 2 ^ 52 * 2 powi last_bit x" by (simp add: power_int_add)
    then show ?thesis using e(1) by (simp add: le_divide_eq)
  qed
qed

lemma fl64_mono:
  assumes "0 \<le> x" and "x \<le> y"
  shows "fl64 x \<le> fl64 y"
proof (cases "x = 0")
  case True
  have "0 \<le> round_even (y / 2 powi last_bit y)" if "0 < y"
    using round_even_mono[of 0 "y / 2 powi last_bit y"] that round_even_int[of 0] by simp
  then show ?thesis using True assms by (cases "y = 0") (simp_all add: fl64_pos)
next
  case False
  then have x: "0 < x" "0 < y" using assms by simp_all
  have le: "last_bit x \<le> last_bit y" using exponent_mono[OF x(1) assms(2)] by (simp add: last_bit_def)
  show ?thesis
  proof (cases "last_bit x = last_bit y")
    case True
    have "x / 2 powi last_bit x \<le> y / 2 powi last_bit y" using assms(2) by (simp add: True divide_right_mono)
    then have "round_even (x / 2 powi last_bit x) \<le> round_even (y / 2 powi last_bit y)" by (rule round_even_mono)
    then show ?thesis using x True by (simp add: fl64_pos)
  next
    case False
    then have lt: "last_bit x < last_bit y" using le by simp
    have big: "exponent y - 52 \<ge> -1074" using lt by (auto simp: last_bit_def split: if_splits)
    have "round_even (x / 2 powi last_bit x) \<le> 2 ^ 53"
      using round_even_mono[OF less_imp_le[OF scaled_bounds(1)[OF x(1)]]] round_even_int[of "2 ^ 53"] by simp
    then have "fl64 x \<le> of_int (2 ^ 53) * 2 powi last_bit x"
      unfolding fl64_pos[OF x(1)] by (intro mult_right_mono) (simp_all only: of_int_le_iff, simp)
    also have "\<dots> = 2 powi (last_bit x + 53)" by (simp add: power_int_add)
    also have "\<dots> \<le> 2 powi (last_bit y + 52)" using lt by (intro power_int_increasing) simp_all
    also have "\<dots> = of_int (2 ^ 52) * 2 powi last_bit y" by (simp add: power_int_add)
    also have "2 ^ 52 \<le> round_even (y / 2 powi last_bit y)"
      using round_even_mono[OF scaled_bounds(2)[OF x(2) big]] round_even_int[of "2 ^ 52"] by simp
    then have "of_int (2 ^ 52) * 2 powi last_bit y \<le> fl64 y"
      unfolding fl64_pos[OF x(2)] by (intro mult_right_mono) (simp_all only: of_int_le_iff, simp)
    finally show ?thesis .
  qed
qed

text \<open>A multiple of a power of two with at most 53 bits is not changed.\<close>

lemma fl64_exact:
  assumes "x = of_int n * 2 powi q" and "0 \<le> n" and "n \<le> 2 ^ 53" and "-1074 \<le> q"
  shows "fl64 x = x"
proof (cases "n = 0")
  case False
  then have n: "0 < n" using assms(2) by simp
  then have x: "0 < x" by (simp add: assms(1))
  have "\<exists>m. x = of_int m * 2 powi last_bit x"
  proof (cases "n = 2 ^ 53")
    case True
    then have e: "x = 2 powi (q + 53)" by (simp add: assms(1) power_int_add)
    have "exponent x \<le> q + 53"
    proof (rule ccontr)
      assume "\<not> ?thesis"
      then have "(2 :: rat) powi (q + 53) < 2 powi exponent x" by (intro power_int_strict_increasing) simp_all
      then show False using exponent_bounds[OF x] e by simp
    qed
    then have "last_bit x \<le> q + 1" using assms(4) by (simp add: last_bit_def)
    then have "0 \<le> q + 53 - last_bit x" by linarith
    then obtain d where "q + 53 - last_bit x = int d" by (rule nonneg_int_cases)
    then have d: "q + 53 = last_bit x + int d" by linarith
    have "(2 :: rat) powi (last_bit x + int d) = of_int (2 ^ d) * 2 powi last_bit x" by (simp add: power_int_add)
    then show ?thesis using e d by metis
  next
    case False
    then have "n < 2 ^ 53" using assms(3) by simp
    then have "(of_int n :: rat) < of_int (2 ^ 53)" by (simp only: of_int_less_iff)
    then have "x < 2 powi (q + 53)" by (simp add: assms(1) power_int_add)
    have "exponent x < q + 53"
    proof (rule ccontr)
      assume "\<not> ?thesis"
      then have "(2 :: rat) powi (q + 53) \<le> 2 powi exponent x" by (intro power_int_increasing) simp_all
      then show False using exponent_bounds[OF x] \<open>x < 2 powi (q + 53)\<close> by simp
    qed
    then have "last_bit x \<le> q" using assms(4) by (simp add: last_bit_def)
    then have "0 \<le> q - last_bit x" by linarith
    then obtain d where "q - last_bit x = int d" by (rule nonneg_int_cases)
    then have d: "q = last_bit x + int d" by linarith
    have "of_int n * (2 :: rat) powi (last_bit x + int d) = of_int (n * 2 ^ d) * 2 powi last_bit x" by (simp add: power_int_add)
    then show ?thesis using assms(1) d by metis
  qed
  then obtain m where m: "x = of_int m * 2 powi last_bit x" by blast
  then have "x / 2 powi last_bit x = of_int m" by (simp add: divide_eq_eq)
  then show ?thesis unfolding fl64_pos[OF x] using m by simp
qed (simp add: assms(1))

lemma fl64_numeral [simp]: "numeral k \<le> (2 ^ 53 :: int) \<Longrightarrow> fl64 (numeral k) = numeral k"
  by (rule fl64_exact[of _ "numeral k" 0]) simp_all

lemma fl64_one [simp]: "fl64 1 = 1"
  by (rule fl64_exact[of _ 1 0]) simp_all

lemma fl64_nonneg: "0 \<le> x \<Longrightarrow> 0 \<le> fl64 x"
  using fl64_mono[of 0 x] by simp

lemma fl64_idem:
  assumes "0 \<le> x"
  shows "fl64 (fl64 x) = fl64 x"
proof (cases "x = 0")
  case False
  then have x: "0 < x" using assms by simp
  let ?n = "round_even (x / 2 powi last_bit x)"
  have "0 \<le> ?n" using round_even_mono[of 0 "x / 2 powi last_bit x"] round_even_int[of 0] x by simp
  moreover have "?n \<le> 2 ^ 53"
    using round_even_mono[OF less_imp_le[OF scaled_bounds(1)[OF x]]] round_even_int[of "2 ^ 53"] by simp
  ultimately show ?thesis
    by (intro fl64_exact[of _ ?n "last_bit x"]) (simp_all add: fl64_pos[OF x] last_bit_def)
qed simp

section \<open>Doubles and their errors\<close>

text \<open>The doubles are the rationals that rounding leaves alone; all are multiples of the least positive one.\<close>

definition is_double :: "rat \<Rightarrow> bool" where
  "is_double x = (fl64 x = x)"

definition least_double :: rat where
  "least_double = 2 powi (-1074)"

lemma least_double_pos: "0 < least_double"
  unfolding least_double_def by (intro zero_less_power_int) simp

definition on_grid :: "rat \<Rightarrow> bool" where
  "on_grid x = (x / least_double \<in> \<int>)"

lemma on_grid_add: "on_grid x \<Longrightarrow> on_grid y \<Longrightarrow> on_grid (x + y)"
  by (simp add: on_grid_def add_divide_distrib)

lemma on_grid_diff: "on_grid x \<Longrightarrow> on_grid y \<Longrightarrow> on_grid (x - y)"
  by (simp add: on_grid_def diff_divide_distrib)

lemma on_grid_zero [simp]: "on_grid 0"
  by (simp add: on_grid_def)

lemma on_grid_fl64: "on_grid (fl64 x)"
proof (cases "x = 0")
  case False
  let ?n = "round_even (\<bar>x\<bar> / 2 powi last_bit \<bar>x\<bar>)"
  have "0 \<le> last_bit \<bar>x\<bar> + 1074" by (simp add: last_bit_def)
  then obtain d where "last_bit \<bar>x\<bar> + 1074 = int d" by (rule nonneg_int_cases)
  then have d: "last_bit \<bar>x\<bar> = int d - 1074" by linarith
  have "(2 :: rat) powi (int d + - 1074) = 2 powi int d * least_double"
    unfolding least_double_def by (rule power_int_add) simp
  then have "2 powi last_bit \<bar>x\<bar> / least_double = 2 ^ d" using d least_double_pos by simp
  then have "fl64 x / least_double = sgn x * of_int (?n * 2 ^ d)"
    using False unfolding fl64_def by (simp add: mult.assoc flip: times_divide_eq_right)
  moreover have "sgn x \<in> \<int>" by (simp add: sgn_if)
  ultimately show ?thesis unfolding on_grid_def by (metis Ints_mult Ints_of_int)
qed simp

lemma on_grid_double: "is_double x \<Longrightarrow> on_grid x"
  by (metis is_double_def on_grid_fl64)

lemma round_even_near: "\<bar>of_int (round_even x) - x\<bar> \<le> 1 / 2"
proof -
  let ?f = "\<lfloor>x\<rfloor>"
  have f: "of_int ?f \<le> x" "x < of_int ?f + 1" using floor_correct[of x] by simp_all
  consider "round_even x = ?f" "x - of_int ?f \<le> 1 / 2" | "round_even x = ?f + 1" "1 / 2 \<le> x - of_int ?f"
    by (cases "x - of_int ?f < 1 / 2"; cases "1 / 2 < x - of_int ?f"; cases "even ?f") (simp_all add: round_even_def Let_def)
  then show ?thesis by cases (use f in \<open>simp_all add: abs_le_iff\<close>)
qed

text \<open>The sum and the difference of two doubles is off by at most one part in \<open>2 ^ 53\<close>: where they are
  subnormal they are exact.\<close>

lemma fl64_near:
  assumes "0 \<le> x" and "on_grid x"
  shows "\<bar>fl64 x - x\<bar> \<le> x / 2 ^ 53"
proof (cases "x = 0")
  case False
  then have x: "0 < x" using assms(1) by simp
  show ?thesis
  proof (cases "exponent x - 52 \<ge> -1074")
    case True
    let ?w = "2 powi last_bit x :: rat" and ?r = "of_int (round_even (x / 2 powi last_bit x)) :: rat"
    have "\<bar>fl64 x - x\<bar> = \<bar>(?r - x / ?w) * ?w\<bar>" unfolding fl64_pos[OF x] by (simp add: left_diff_distrib)
    also have "\<dots> = \<bar>?r - x / ?w\<bar> * ?w" by (simp add: abs_mult)
    also have "\<dots> \<le> 1 / 2 * ?w" using round_even_near by (intro mult_right_mono) simp_all
    also have "\<dots> \<le> x / 2 ^ 53"
      using scaled_bounds(2)[OF x True] by (simp add: le_divide_eq)
    finally show ?thesis .
  next
    case False
    then have "last_bit x = - 1074" by (simp add: last_bit_def)
    then have w: "2 powi last_bit x = least_double" by (simp only: least_double_def)
    obtain n where n: "x / least_double = of_int n" using assms(2) unfolding on_grid_def by (rule Ints_cases)
    have "fl64 x = of_int n * least_double" unfolding fl64_pos[OF x] w n by simp
    also have "\<dots> = x" unfolding n[symmetric] using least_double_pos by simp
    finally show ?thesis using x by simp
  qed
qed simp

lemma fl64_factor:
  assumes "0 \<le> x" and "on_grid x"
  shows "(1 - 1 / 2 ^ 53) * x \<le> fl64 x" and "fl64 x \<le> (1 + 1 / 2 ^ 53) * x"
  using fl64_near[OF assms] unfolding abs_le_iff left_diff_distrib distrib_right by simp_all

lemma fl64_positive:
  assumes "0 < x" and "on_grid x"
  shows "0 < fl64 x"
proof -
  have "0 < (1 - 1 / 2 ^ 53) * x" using assms(1) by (intro mult_pos_pos) simp_all
  then show ?thesis using fl64_factor(1)[of x] assms by linarith
qed

text \<open>What \<open>n\<close> roundings can make of \<open>D\<close>.\<close>

definition rounded :: "nat \<Rightarrow> rat \<Rightarrow> rat \<Rightarrow> bool" where
  "rounded n D x = ((1 - 1 / 2 ^ 53) ^ n * D \<le> x \<and> x \<le> (1 + 1 / 2 ^ 53) ^ n * D)"

lemma rounded_round:
  assumes "rounded n D x" and "(1 - 1 / 2 ^ 53) * x \<le> y" and "y \<le> (1 + 1 / 2 ^ 53) * x"
  shows "rounded (Suc n) D y"
proof -
  have "(1 - 1 / 2 ^ 53) * ((1 - 1 / 2 ^ 53) ^ n * D) \<le> (1 - 1 / 2 ^ 53) * x"
    "(1 + 1 / 2 ^ 53) * x \<le> (1 + 1 / 2 ^ 53) * ((1 + 1 / 2 ^ 53) ^ n * D)"
    using assms(1) unfolding rounded_def by (intro mult_left_mono; simp)+
  then show ?thesis unfolding rounded_def power_Suc mult.assoc using assms(2,3) by (blast intro: order_trans)
qed

lemma rounded_le:
  assumes "rounded n D x" and "0 \<le> D" and "n \<le> m"
  shows "rounded m D x"
proof -
  have "(1 - 1 / 2 ^ 53 :: rat) ^ m \<le> (1 - 1 / 2 ^ 53) ^ n" using assms(3) by (intro power_decreasing) simp_all
  moreover have "(1 + 1 / 2 ^ 53 :: rat) ^ n \<le> (1 + 1 / 2 ^ 53) ^ m" using assms(3) by (intro power_increasing) simp_all
  ultimately show ?thesis using assms(1,2) unfolding rounded_def by (meson mult_right_mono order_trans)
qed

lemma rounded_add: "rounded n D x \<Longrightarrow> rounded n E y \<Longrightarrow> rounded n (D + E) (x + y)"
  unfolding rounded_def distrib_left by linarith

lemma rounded_nonneg: "rounded n D x \<Longrightarrow> 0 \<le> D \<Longrightarrow> 0 \<le> x"
  unfolding rounded_def by (rule order_trans[of _ "(1 - 1 / 2 ^ 53) ^ n * D"]) (simp_all add: divide_le_eq)

lemma rounded_fl64: "0 \<le> x \<Longrightarrow> on_grid x \<Longrightarrow> rounded 1 x (fl64 x)"
  using fl64_factor by (simp add: rounded_def)

end
