(* ===== verification/Fsm_Hub.thy ===== *)
theory Fsm_Hub
  imports Js_Text Contracts Double
begin

text \<open>
  The observer of a keeper's state machines (\<open>components/fsm-hub-types.ts\<close>, \<open>components/fsm-hub-derivations.ts\<close>, the
  reducer of \<open>components/fsm-hub.ts\<close>): the bounded list of observed states of six lanes, and what is derived from it,
  the transitions, the segments of a lane's timeline and the time spent in each state. Times are
  seconds as finite doubles, and every sum, difference and quotient of them is rounded (\<open>fl64\<close>, theory \<open>Double\<close>);
  the texts shown (reasons, labels, clock times) are left out, and \<open>localeCompare\<close> is an argument.
\<close>

section \<open>Observations\<close>

datatype lane_key = L_phase | L_turn | L_decision | L_cascade | L_compaction | L_breaker

record observation =
  ob_ts :: rat
  ob_phase :: string
  ob_turn :: string
  ob_decision :: string
  ob_cascade :: string
  ob_compaction :: string
  ob_breaker :: string

fun lane :: "lane_key \<Rightarrow> observation \<Rightarrow> string" where
  "lane L_phase o1 = ob_phase o1"
| "lane L_turn o1 = ob_turn o1"
| "lane L_decision o1 = ob_decision o1"
| "lane L_cascade o1 = ob_cascade o1"
| "lane L_compaction o1 = ob_compaction o1"
| "lane L_breaker o1 = ob_breaker o1"

text \<open>The part of a composite snapshot that is observed, and its four invariants.\<close>

record composite_invariants =
  iv_phase_turn_alignment :: bool
  iv_no_cascade_before_measurement :: bool
  iv_compaction_atomicity :: bool
  iv_event_priority_monotone :: bool

record composite_snapshot =
  sn_phase :: string
  sn_turn_phase :: string
  sn_decision_stage :: string
  sn_cascade_state :: string
  sn_compaction_stage :: string
  sn_circuit_breaker :: "string option"
  sn_invariants :: composite_invariants

definition breaker_state :: "composite_snapshot \<Rightarrow> string" where
  "breaker_state s = (case sn_circuit_breaker s of Some b \<Rightarrow> b | None \<Rightarrow> ''clean'')"

fun extractLaneValue :: "composite_snapshot \<Rightarrow> lane_key \<Rightarrow> string" where
  "extractLaneValue s L_phase = sn_phase s"
| "extractLaneValue s L_turn = sn_turn_phase s"
| "extractLaneValue s L_decision = sn_decision_stage s"
| "extractLaneValue s L_cascade = sn_cascade_state s"
| "extractLaneValue s L_compaction = sn_compaction_stage s"
| "extractLaneValue s L_breaker = breaker_state s"

definition observeSnapshot :: "composite_snapshot \<Rightarrow> rat \<Rightarrow> observation" where
  "observeSnapshot s ts =
     \<lparr>ob_ts = ts, ob_phase = sn_phase s, ob_turn = sn_turn_phase s, ob_decision = sn_decision_stage s,
      ob_cascade = sn_cascade_state s, ob_compaction = sn_compaction_stage s, ob_breaker = breaker_state s\<rparr>"

definition TRANSITION_FIELDS :: "(string \<times> lane_key) list" where
  "TRANSITION_FIELDS =
    [(''KSM'', L_phase), (''KTC'', L_turn), (''KDP'', L_decision), (''KCL'', L_cascade), (''KMC'', L_compaction), (''KCB'', L_breaker)]"

definition MAX_OBSERVATIONS :: int where
  "MAX_OBSERVATIONS = 30"

definition MAX_TRANSITION_HISTORY :: int where
  "MAX_TRANSITION_HISTORY = 20"

definition sameObservation :: "observation \<Rightarrow> observation \<Rightarrow> bool" where
  "sameObservation l r \<longleftrightarrow>
     ob_phase l = ob_phase r \<and> ob_turn l = ob_turn r \<and> ob_decision l = ob_decision r \<and> ob_cascade l = ob_cascade r \<and>
     ob_compaction l = ob_compaction r"

text \<open>\<open>xs.slice(-Math.max(1, n))\<close>.\<close>

definition last_n :: "int \<Rightarrow> 'a list \<Rightarrow> 'a list" where
  "last_n n xs = drop (length xs - nat (max 1 n)) xs"

definition appendCompositeObservation :: "observation list \<Rightarrow> observation \<Rightarrow> int \<Rightarrow> observation list" where
  "appendCompositeObservation obs nxt maxEntries =
     (if obs \<noteq> [] \<and> sameObservation (last obs) nxt then obs else last_n maxEntries (obs @ [nxt]))"

text \<open>The loops over \<open>observations[index - 1]\<close> and \<open>observations[index]\<close>.\<close>

definition adjacent :: "observation list \<Rightarrow> (observation \<times> observation) list" where
  "adjacent obs = zip obs (tl obs)"

section \<open>Transitions\<close>

record fsm_transition =
  ft_ts :: rat
  ft_from :: string
  ft_to :: string
  ft_field :: string

definition transitions_of :: "observation \<times> observation \<Rightarrow> fsm_transition list" where
  "transitions_of pn =
     List.map_filter (\<lambda>(f, k). if lane k (fst pn) \<noteq> lane k (snd pn)
       then Some \<lparr>ft_ts = ob_ts (snd pn), ft_from = lane k (fst pn), ft_to = lane k (snd pn), ft_field = f\<rparr> else None) TRANSITION_FIELDS"

definition deriveTransitionHistory :: "observation list \<Rightarrow> int \<Rightarrow> fsm_transition list" where
  "deriveTransitionHistory obs maxEntries = rev (last_n maxEntries (concat (map transitions_of (adjacent obs))))"

record top_transition =
  tt_field :: string
  tt_from :: string
  tt_to :: string
  tt_count :: nat

definition transition_cacheKey :: "fsm_transition \<Rightarrow> string" where
  "transition_cacheKey t = ft_field t @ ''|'' @ ft_from t @ ''|'' @ ft_to t"

definition count_transition :: "(string, top_transition) jsmap \<Rightarrow> fsm_transition \<Rightarrow> (string, top_transition) jsmap" where
  "count_transition counts t =
     (case map_get counts (transition_cacheKey t) of
        Some existing \<Rightarrow> map_set (transition_cacheKey t) (existing\<lparr>tt_count := tt_count existing + 1\<rparr>) counts
      | None \<Rightarrow> map_set (transition_cacheKey t)
          \<lparr>tt_field = ft_field t, tt_from = ft_from t, tt_to = ft_to t, tt_count = 1\<rparr> counts)"

definition field_order :: "string \<Rightarrow> int" where
  "field_order f = (let i = find_index (\<lambda>p. fst p = f) TRANSITION_FIELDS in if i < 0 then 99 else i)"

definition compare_top :: "(string \<Rightarrow> string \<Rightarrow> int) \<Rightarrow> top_transition \<Rightarrow> top_transition \<Rightarrow> int" where
  "compare_top lc a b =
     (if tt_count b \<noteq> tt_count a then int (tt_count b) - int (tt_count a)
      else if field_order (tt_field a) \<noteq> field_order (tt_field b) then field_order (tt_field a) - field_order (tt_field b)
      else if lc (tt_from a) (tt_from b) \<noteq> 0 then lc (tt_from a) (tt_from b)
      else lc (tt_to a) (tt_to b))"

definition deriveTopTransitions :: "(string \<Rightarrow> string \<Rightarrow> int) \<Rightarrow> observation list \<Rightarrow> int \<Rightarrow> top_transition list" where
  "deriveTopTransitions lc obs limit =
     take (nat (max 0 limit)) (js_sort (compare_top lc)
       (map_values (foldl count_transition [] (concat (map transitions_of (adjacent obs))))))"

section \<open>The lanes one by one\<close>

definition derivePhaseLog :: "observation list \<Rightarrow> int \<Rightarrow> string list" where
  "derivePhaseLog obs maxEntries =
     last_n maxEntries
       (foldl (\<lambda>phases o1. if phases \<noteq> [] \<and> last phases = ob_phase o1 then phases else phases @ [ob_phase o1]) [] obs)"

definition changes :: "lane_key \<Rightarrow> observation \<times> observation \<Rightarrow> bool" where
  "changes k pn \<longleftrightarrow> lane k (fst pn) \<noteq> lane k (snd pn)"

definition laneChangedAt :: "observation list \<Rightarrow> lane_key \<Rightarrow> rat" where
  "laneChangedAt obs k =
     (if obs = [] then 0
      else case List.find (changes k) (rev (adjacent obs)) of Some pn \<Rightarrow> ob_ts (snd pn) | None \<Rightarrow> ob_ts (hd obs))"

definition laneTransitionCount :: "observation list \<Rightarrow> lane_key \<Rightarrow> nat" where
  "laneTransitionCount obs k = length (filter (changes k) (adjacent obs))"

definition STATE_KEYS :: "lane_key list" where
  "STATE_KEYS = [L_phase, L_turn, L_decision, L_cascade, L_compaction]"

text \<open>The single pass: \<open>result\<close> and the keys seen, and the break when all are.\<close>

definition entry_step ::
  "observation \<times> observation \<Rightarrow> (lane_key, rat) jsmap \<times> lane_key list \<Rightarrow> lane_key \<Rightarrow> (lane_key, rat) jsmap \<times> lane_key list" where
  "entry_step pn rs k =
     (if k \<notin> set (snd rs) \<and> changes k pn then (map_set k (ob_ts (snd pn)) (fst rs), k # snd rs) else rs)"

fun entry_scan ::
  "(observation \<times> observation) list \<Rightarrow> (lane_key, rat) jsmap \<times> lane_key list \<Rightarrow> (lane_key, rat) jsmap \<times> lane_key list" where
  "entry_scan [] rs = rs"
| "entry_scan (pn # rest) rs =
     (let rs1 = foldl (entry_step pn) rs STATE_KEYS
      in if set STATE_KEYS \<subseteq> set (snd rs1) then rs1 else entry_scan rest rs1)"

definition deriveStateEntries :: "observation list \<Rightarrow> (lane_key, rat) jsmap option" where
  "deriveStateEntries obs =
     (if obs = [] then None
      else Some (fst (entry_scan (rev (adjacent obs)) (map (\<lambda>k. (k, ob_ts (hd obs))) STATE_KEYS, []))))"

section \<open>The timeline\<close>

definition TIME_AXIS_STEPS_SEC :: "rat list" where
  "TIME_AXIS_STEPS_SEC = [1, 5, 10, 30, 60, 120, 300, 600, 1800, 3600, 7200]"

definition axis_step :: "rat \<Rightarrow> rat" where
  "axis_step desired = (case List.find (\<lambda>s. s \<ge> desired) TIME_AXIS_STEPS_SEC of Some s \<Rightarrow> s | None \<Rightarrow> last TIME_AXIS_STEPS_SEC)"

text \<open>The loop of the ticks, whole seconds here (up to \<open>2 ^ 53\<close> their sums are exact). It runs while fewer than \<open>room\<close> are left to add; a tick at the start is skipped.\<close>

function ticks_from :: "rat \<Rightarrow> rat \<Rightarrow> rat \<Rightarrow> nat \<Rightarrow> rat \<Rightarrow> rat list" where
  "ticks_from spanStart spanEnd stp room ts =
     (if stp \<le> 0 \<or> \<not> ts \<le> spanEnd \<or> room = 0 then []
      else if ts \<le> spanStart then ticks_from spanStart spanEnd stp room (ts + stp)
      else ts # ticks_from spanStart spanEnd stp (room - 1) (ts + stp))"
  by pat_completeness auto
termination ticks_from
proof (relation "measure (\<lambda>(a, b, stp, room, ts). nat (\<lceil>(b - ts) / stp\<rceil> + 1))")
  fix a b stp ts :: rat and room :: nat
  assume "\<not> (stp \<le> 0 \<or> \<not> ts \<le> b \<or> room = 0)"
  then have s: "0 < stp" "ts \<le> b" by auto
  have "(b - (ts + stp)) / stp = (b - ts) / stp - 1" using s by (simp add: field_simps)
  then have "\<lceil>(b - (ts + stp)) / stp\<rceil> = \<lceil>(b - ts) / stp\<rceil> - 1" by simp
  moreover have "0 \<le> \<lceil>(b - ts) / stp\<rceil>" using s by (simp add: le_ceiling_iff less_le_trans[of "-1" 0])
  ultimately have "nat (\<lceil>(b - (ts + stp)) / stp\<rceil> + 1) < nat (\<lceil>(b - ts) / stp\<rceil> + 1)" by simp
  then show "((a, b, stp, room, ts + stp), (a, b, stp, room, ts)) \<in> measure (\<lambda>(a, b, stp, room, ts). nat (\<lceil>(b - ts) / stp\<rceil> + 1))"
    and "((a, b, stp, room - 1, ts + stp), (a, b, stp, room, ts)) \<in> measure (\<lambda>(a, b, stp, room, ts). nat (\<lceil>(b - ts) / stp\<rceil> + 1))"
    by simp_all
qed simp

declare ticks_from.simps [simp del]

definition deriveTimeAxisTicks :: "rat \<Rightarrow> rat \<Rightarrow> int \<Rightarrow> rat list" where
  "deriveTimeAxisTicks spanStart spanEnd maxTicks =
     (let span = fl64 (spanEnd - spanStart)
      in if span \<le> 0 \<or> maxTicks < 2 then []
         else (let desiredStep = fl64 (span / rat_of_int (max 1 (maxTicks - 1)));
                   stp = axis_step desiredStep;
                   firstTick = fl64 (rat_of_int \<lceil>fl64 (spanStart / stp)\<rceil> * stp)
               in ticks_from spanStart spanEnd stp (nat maxTicks) firstTick))"

record swimlane_segment =
  sg_from :: rat
  sg_to :: rat
  sg_value :: string

text \<open>One step of the loop: the last segment is extended, and a new one starts where the value changes.\<close>

definition segment_step :: "lane_key \<Rightarrow> swimlane_segment list \<Rightarrow> observation \<Rightarrow> swimlane_segment list" where
  "segment_step k segs cur =
     (if segs \<noteq> [] \<and> sg_value (last segs) = lane k cur
      then butlast segs @ [(last segs)\<lparr>sg_to := ob_ts cur\<rparr>]
      else (if segs = [] then [] else butlast segs @ [(last segs)\<lparr>sg_to := ob_ts cur\<rparr>]) @
           [\<lparr>sg_from = ob_ts cur, sg_to = ob_ts cur, sg_value = lane k cur\<rparr>])"

definition deriveSwimlaneSegments :: "observation list \<Rightarrow> lane_key \<Rightarrow> rat \<Rightarrow> swimlane_segment list" where
  "deriveSwimlaneSegments obs k boundsEnd =
     (let segs = foldl (segment_step k) [] obs
      in if segs \<noteq> [] \<and> boundsEnd > sg_to (last segs) then butlast segs @ [(last segs)\<lparr>sg_to := boundsEnd\<rparr>] else segs)"

record dwell_entry =
  de_value :: string
  de_seconds :: rat
  de_pct :: rat

record lane_dwell =
  ld_field :: string
  ld_laneKey :: lane_key
  ld_totalSeconds :: rat
  ld_entries :: "dwell_entry list"

definition dwell_step :: "(string, rat) jsmap \<times> rat \<Rightarrow> swimlane_segment \<Rightarrow> (string, rat) jsmap \<times> rat" where
  "dwell_step acc seg =
     (let seconds = max 0 (fl64 (sg_to seg - sg_from seg))
      in if seconds = 0 then acc
         else (map_set (sg_value seg) (fl64 ((case map_get (fst acc) (sg_value seg) of Some x \<Rightarrow> x | None \<Rightarrow> 0) + seconds)) (fst acc),
               fl64 (snd acc + seconds)))"

definition compare_dwell :: "(string \<Rightarrow> string \<Rightarrow> int) \<Rightarrow> dwell_entry \<Rightarrow> dwell_entry \<Rightarrow> int" where
  "compare_dwell lc a b =
     (if de_seconds b \<noteq> de_seconds a then num_cmp (de_seconds b) (de_seconds a) else lc (de_value a) (de_value b))"

definition lane_dwell_of :: "(string \<Rightarrow> string \<Rightarrow> int) \<Rightarrow> observation list \<Rightarrow> rat \<Rightarrow> string \<times> lane_key \<Rightarrow> lane_dwell option" where
  "lane_dwell_of lc obs boundsEnd fk =
     (let (dwell, total) = foldl dwell_step ([], 0) (deriveSwimlaneSegments obs (snd fk) boundsEnd);
          entries = js_sort (compare_dwell lc)
            (map (\<lambda>(v, s). \<lparr>de_value = v, de_seconds = s, de_pct = (if total > 0 then fl64 (fl64 (s / total) * 100) else 0)\<rparr>) dwell)
      in if entries = [] then None
         else Some \<lparr>ld_field = fst fk, ld_laneKey = snd fk, ld_totalSeconds = total, ld_entries = entries\<rparr>)"

definition deriveLaneDwellHistograms :: "(string \<Rightarrow> string \<Rightarrow> int) \<Rightarrow> observation list \<Rightarrow> rat \<Rightarrow> lane_dwell list" where
  "deriveLaneDwellHistograms lc obs boundsEnd =
     (if obs = [] then [] else List.map_filter (lane_dwell_of lc obs boundsEnd) TRANSITION_FIELDS)"

definition isObservedStall :: "lane_key \<Rightarrow> string \<Rightarrow> rat \<Rightarrow> bool" where
  "isObservedStall k v secs =
     (case k of
        L_phase \<Rightarrow>
          if v = ''Failing'' then secs \<ge> 90 else if v = ''Overflowed'' then secs \<ge> 60 else if v = ''Compacting'' then secs \<ge> 90
          else if v = ''HandingOff'' \<or> v = ''Draining'' then secs \<ge> 60 else False
      | L_turn \<Rightarrow>
          if v = ''prompting'' \<or> v = ''executing'' then secs \<ge> 45 else if v = ''compacting'' then secs \<ge> 60
          else if v = ''finalizing'' then secs \<ge> 30 else False
      | L_cascade \<Rightarrow> if v = ''selecting'' then secs \<ge> 30 else if v = ''trying'' then secs \<ge> 45 else False
      | L_compaction \<Rightarrow> v = ''compacting'' \<and> secs \<ge> 60
      | _ \<Rightarrow> False)"

section \<open>The reducer\<close>

record violation_counts =
  vc_phase_turn_alignment :: nat
  vc_no_cascade_before_measurement :: nat
  vc_compaction_atomicity :: nat
  vc_event_priority_monotone :: nat

record hub_state =
  hb_keeperName :: "string option"
  hb_snapshot :: "composite_snapshot option"
  hb_loading :: bool
  hb_error :: "string option"
  hb_lastFetchAt :: rat
  hb_observations :: "observation list"
  hb_invariantSampleCount :: nat
  hb_invariantViolations :: violation_counts

datatype hub_action =
    Fetch_started string
  | Fetch_succeeded string composite_snapshot rat
  | Fetch_failed string string

definition ZERO_VIOLATIONS :: violation_counts where
  "ZERO_VIOLATIONS =
     \<lparr>vc_phase_turn_alignment = 0, vc_no_cascade_before_measurement = 0, vc_compaction_atomicity = 0, vc_event_priority_monotone = 0\<rparr>"

definition initialHubState :: hub_state where
  "initialHubState =
     \<lparr>hb_keeperName = None, hb_snapshot = None, hb_loading = False, hb_error = None, hb_lastFetchAt = 0, hb_observations = [],
      hb_invariantSampleCount = 0, hb_invariantViolations = ZERO_VIOLATIONS\<rparr>"

definition count_violations :: "composite_invariants \<Rightarrow> violation_counts \<Rightarrow> violation_counts" where
  "count_violations iv v =
     \<lparr>vc_phase_turn_alignment = vc_phase_turn_alignment v + (if iv_phase_turn_alignment iv then 0 else 1),
      vc_no_cascade_before_measurement = vc_no_cascade_before_measurement v + (if iv_no_cascade_before_measurement iv then 0 else 1),
      vc_compaction_atomicity = vc_compaction_atomicity v + (if iv_compaction_atomicity iv then 0 else 1),
      vc_event_priority_monotone = vc_event_priority_monotone v + (if iv_event_priority_monotone iv then 0 else 1)\<rparr>"

definition hub_current :: "string \<Rightarrow> hub_state \<Rightarrow> hub_state" where
  "hub_current name s = (if hb_keeperName s = Some name then s else initialHubState\<lparr>hb_keeperName := Some name\<rparr>)"

fun reduceHubState :: "hub_state \<Rightarrow> hub_action \<Rightarrow> hub_state" where
  "reduceHubState s (Fetch_started name) = (hub_current name s)\<lparr>hb_loading := True, hb_error := None\<rparr>"
| "reduceHubState s (Fetch_succeeded name snap fetchedAt) =
     (let cur = hub_current name s
      in \<lparr>hb_keeperName = Some name, hb_snapshot = Some snap, hb_loading = False, hb_error = None, hb_lastFetchAt = fetchedAt,
          hb_observations = appendCompositeObservation (hb_observations cur) (observeSnapshot snap fetchedAt) MAX_OBSERVATIONS,
          hb_invariantSampleCount = hb_invariantSampleCount cur + 1,
          hb_invariantViolations = count_violations (sn_invariants snap) (hb_invariantViolations cur)\<rparr>)"
| "reduceHubState s (Fetch_failed name err) = (hub_current name s)\<lparr>hb_loading := False, hb_error := Some err\<rparr>"







section \<open>Segments\<close>

lemma remdups_adj_snoc:
  "xs \<noteq> [] \<Longrightarrow> remdups_adj (xs @ [y]) = (if last xs = y then remdups_adj xs else remdups_adj xs @ [y])"
  by (induction xs rule: remdups_adj.induct) auto

definition meets :: "swimlane_segment \<Rightarrow> swimlane_segment \<Rightarrow> bool" where
  "meets a b \<longleftrightarrow> sg_to a = sg_from b"

definition segments_ok :: "lane_key \<Rightarrow> observation list \<Rightarrow> rat \<Rightarrow> swimlane_segment list \<Rightarrow> bool" where
  "segments_ok k obs e segs \<longleftrightarrow> segs \<noteq> [] \<and> map sg_value segs = remdups_adj (map (lane k) obs) \<and>
     sg_from (hd segs) = ob_ts (hd obs) \<and> sg_to (last segs) = e \<and> successively meets segs \<and>
     (\<forall>s\<in>set segs. sg_from s \<le> sg_to s)"

lemma meets_to [simp]: "meets (a\<lparr>sg_to := t\<rparr>) b \<longleftrightarrow> t = sg_from b" "meets a (b\<lparr>sg_to := t\<rparr>) \<longleftrightarrow> meets a b"
  by (simp_all add: meets_def)

text \<open>Moving the end of the last segment forward.\<close>

lemma segments_extend:
  assumes "segments_ok k obs e segs" and "e \<le> e'"
  shows "segments_ok k obs e' (butlast segs @ [(last segs)\<lparr>sg_to := e'\<rparr>])"
proof -
  obtain ys s where segs: "segs = ys @ [s]" using assms(1) by (metis segments_ok_def append_butlast_last_id)
  have "successively meets (ys @ [s\<lparr>sg_to := e'\<rparr>])"
    using assms(1) segs by (auto simp: segments_ok_def successively_append_iff)
  moreover have "sg_from (hd (ys @ [s\<lparr>sg_to := e'\<rparr>])) = sg_from (hd (ys @ [s]))" by (cases ys) simp_all
  ultimately show ?thesis using assms segs by (auto simp: segments_ok_def)
qed

lemma segments_add:
  assumes "segments_ok k obs e segs" and "obs \<noteq> []" and "e = ob_ts o1" and "lane k (last obs) \<noteq> lane k o1"
  shows "segments_ok k (obs @ [o1]) e (segs @ [\<lparr>sg_from = e, sg_to = e, sg_value = lane k o1\<rparr>])"
  using assms
  by (auto simp: segments_ok_def successively_append_iff remdups_adj_snoc last_map meets_def)

lemma segments_same:
  "obs \<noteq> [] \<Longrightarrow> lane k (last obs) = lane k o1 \<Longrightarrow> segments_ok k (obs @ [o1]) e segs = segments_ok k obs e segs"
  by (simp add: segments_ok_def remdups_adj_snoc last_map)

lemma segment_step_cases:
  "segs \<noteq> [] \<Longrightarrow> sg_value (last segs) = lane k c \<Longrightarrow> segment_step k segs c = butlast segs @ [(last segs)\<lparr>sg_to := ob_ts c\<rparr>]"
  "segs \<noteq> [] \<Longrightarrow> sg_value (last segs) \<noteq> lane k c \<Longrightarrow>
   segment_step k segs c = (butlast segs @ [(last segs)\<lparr>sg_to := ob_ts c\<rparr>]) @ [\<lparr>sg_from = ob_ts c, sg_to = ob_ts c, sg_value = lane k c\<rparr>]"
  by (simp_all add: segment_step_def)

lemma segments_fold:
  "obs \<noteq> [] \<Longrightarrow> sorted (map ob_ts obs) \<Longrightarrow> segments_ok k obs (ob_ts (last obs)) (foldl (segment_step k) [] obs)"
proof (induction obs rule: rev_nonempty_induct)
  case (single o1)
  show ?case by (simp add: segments_ok_def segment_step_def)
next
  case (snoc o1 obs)
  let ?segs = "foldl (segment_step k) [] obs"
  have le: "ob_ts (last obs) \<le> ob_ts o1" and "sorted (map ob_ts obs)"
    using snoc.prems snoc.hyps by (simp_all add: sorted_append)
  then have ok: "segments_ok k obs (ob_ts (last obs)) ?segs" using snoc.IH by blast
  note moved = segments_extend[OF ok le]
  have ne: "?segs \<noteq> []" using ok by (simp add: segments_ok_def)
  have "last (map sg_value ?segs) = last (remdups_adj (map (lane k) obs))" using ok by (simp add: segments_ok_def)
  then have v: "sg_value (last ?segs) = lane k (last obs)" using ne snoc.hyps by (simp add: last_map)
  show ?case
  proof (cases "lane k (last obs) = lane k o1")
    case True
    then show ?thesis using moved v ne snoc.hyps by (simp add: segment_step_cases(1) segments_same)
  next
    case False
    then show ?thesis using segments_add[OF moved snoc.hyps refl False] v ne by (simp add: segment_step_cases(2))
  qed
qed

lemma segments_derived:
  assumes "obs \<noteq> []" and "sorted (map ob_ts obs)"
  shows "segments_ok k obs (max (ob_ts (last obs)) boundsEnd) (deriveSwimlaneSegments obs k boundsEnd)"
proof -
  note ok = segments_fold[OF assms, of k]
  then have e: "foldl (segment_step k) [] obs \<noteq> []" "sg_to (last (foldl (segment_step k) [] obs)) = ob_ts (last obs)"
    by (simp_all add: segments_ok_def)
  show ?thesis
    using ok e segments_extend[OF ok, of boundsEnd] by (cases "ob_ts (last obs) < boundsEnd")
      (simp_all add: deriveSwimlaneSegments_def Let_def max_def)
qed

text \<open>The lengths of segments that meet add up to the distance of their ends.\<close>

lemma segments_length:
  "segs \<noteq> [] \<Longrightarrow> successively meets segs \<Longrightarrow>
   sum_list (map (\<lambda>s. sg_to s - sg_from s) segs) = sg_to (last segs) - sg_from (hd segs)"
proof (induction segs rule: induct_list012)
  case (3 a b segs)
  then show ?case by (simp add: meets_def)
qed simp_all

section \<open>Dwell times\<close>

definition value_sum :: "(string, rat) jsmap \<Rightarrow> rat" where
  "value_sum m = sum_list (map_values m)"

lemma value_sum_set:
  "distinct (map_keys m) \<Longrightarrow>
   value_sum (map_set k x m) = value_sum m - (case map_get m k of Some y \<Rightarrow> y | None \<Rightarrow> 0) + x"
  by (induction m) (auto simp: value_sum_def map_of_eq_None_iff[THEN iffD2] split: option.split)

lemma value_sum_ge:
  "\<forall>(v, s)\<in>set m. 0 < s \<Longrightarrow> (case map_get m k of Some y \<Rightarrow> y | None \<Rightarrow> 0) \<le> value_sum m \<and> 0 \<le> value_sum m"
  by (induction m) (auto simp: value_sum_def split: option.splits)

text \<open>The state of the loop over the segments after \<open>n\<close> roundings, \<open>D\<close> being the exact time up to here.\<close>

definition dwell_ok :: "nat \<Rightarrow> rat \<Rightarrow> (string, rat) jsmap \<times> rat \<Rightarrow> bool" where
  "dwell_ok n D acc =
     (distinct (map_keys (fst acc)) \<and> (\<forall>(v, s)\<in>set (fst acc). 0 < s \<and> s \<le> snd acc \<and> on_grid s) \<and> is_double (snd acc) \<and>
      (fst acc = [] \<longleftrightarrow> D = 0) \<and> 0 \<le> D \<and> rounded n D (snd acc) \<and> rounded n D (value_sum (fst acc)))"

lemma slot_rounds:
  assumes "\<bar>y - (a + s)\<bar> \<le> (a + s) / 2 ^ 53" and "a \<le> V"
  shows "(1 - 1 / 2 ^ 53) * (V + s) \<le> V - a + y" and "V - a + y \<le> (1 + 1 / 2 ^ 53) * (V + (s :: rat))"
  using assms unfolding abs_le_iff by (simp_all add: field_simps)

lemma dwell_step_ok:
  assumes ok: "dwell_ok n D (m, t)" and n: "0 < n" and seg: "sg_from s \<le> sg_to s" "on_grid (sg_from s)" "on_grid (sg_to s)"
  shows "dwell_ok (Suc n) (D + (sg_to s - sg_from s)) (dwell_step (m, t) s)"
proof (cases "sg_to s = sg_from s")
  case True
  have le: "rounded (Suc n) D x" if "rounded n D x" for x using ok by (intro rounded_le[OF that]) (simp_all add: dwell_ok_def)
  have "dwell_step (m, t) s = (m, t)" by (simp add: dwell_step_def True)
  moreover have "D + (sg_to s - sg_from s) = D" by (simp add: True)
  ultimately show ?thesis using ok le[of t] le[of "value_sum m"] unfolding dwell_ok_def by simp
next
  case False
  let ?d = "sg_to s - sg_from s" and ?old = "case map_get m (sg_value s) of Some x \<Rightarrow> x | None \<Rightarrow> 0"
  let ?sec = "fl64 ?d"
  let ?m = "map_set (sg_value s) (fl64 (?old + ?sec)) m"
  have d: "0 < ?d" "on_grid ?d" using False seg by (simp_all add: on_grid_diff)
  have sec: "0 < ?sec" "on_grid ?sec" using d by (simp_all add: fl64_positive on_grid_fl64)
  have t: "0 \<le> t" using ok rounded_nonneg[of n D t] by (simp add: dwell_ok_def)
  then have old: "0 \<le> ?old" "on_grid ?old" "?old \<le> t"
    using ok by (auto simp: dwell_ok_def split: option.split dest!: map_of_SomeD)
  have sum: "?old \<le> value_sum m" "0 \<le> value_sum m" using ok value_sum_ge[of m "sg_value s"] by (auto simp: dwell_ok_def)
  have near: "rounded n ?d ?sec" using d n by (intro rounded_le[OF rounded_fl64]) simp_all
  have step: "dwell_step (m, t) s = (?m, fl64 (t + ?sec))" using sec by (simp add: dwell_step_def Let_def max_def)
  have g: "on_grid (?old + ?sec)" "on_grid (t + ?sec)" using ok old sec by (simp_all add: on_grid_add on_grid_double dwell_ok_def)
  have le: "fl64 (?old + ?sec) \<le> fl64 (t + ?sec)" using old sec by (intro fl64_mono) simp_all
  have grow: "t \<le> fl64 (t + ?sec)"
    using fl64_mono[of t "t + ?sec"] t sec ok by (simp add: dwell_ok_def is_double_def)
  have total: "rounded (Suc n) (D + ?d) (fl64 (t + ?sec))"
    using ok near fl64_factor[of "t + ?sec"] g t sec by (intro rounded_round[of n "D + ?d" "t + ?sec"] rounded_add) (simp_all add: dwell_ok_def)
  have new: "value_sum ?m = value_sum m - ?old + fl64 (?old + ?sec)" using ok value_sum_set[of m "sg_value s"] by (simp add: dwell_ok_def)
  have close: "\<bar>fl64 (?old + ?sec) - (?old + ?sec)\<bar> \<le> (?old + ?sec) / 2 ^ 53" using g(1) old(1) sec(1) by (intro fl64_near) simp_all
  have "rounded n (D + ?d) (value_sum m + ?sec)" using ok near by (intro rounded_add) (simp_all add: dwell_ok_def)
  then have "rounded (Suc n) (D + ?d) (value_sum ?m)" unfolding new by (rule rounded_round) (rule slot_rounds[OF close sum(1)])+
  moreover have "\<forall>(v, x)\<in>set ?m. 0 < x \<and> x \<le> fl64 (t + ?sec) \<and> on_grid x"
    using ok le grow fl64_positive[OF _ g(1)] old sec by (fastforce simp: dwell_ok_def on_grid_fl64 dest: in_update_cases)
  moreover have "?m \<noteq> []" by (cases m) auto
  moreover have "is_double (fl64 (t + ?sec))" using t sec by (simp add: is_double_def fl64_idem)
  ultimately show ?thesis using ok d total unfolding step dwell_ok_def by simp
qed

lemma dwell_fold:
  assumes "list_all (\<lambda>s. sg_from s \<le> sg_to s \<and> on_grid (sg_from s) \<and> on_grid (sg_to s)) segs" and "dwell_ok n D acc" and "0 < n"
  shows "dwell_ok (n + length segs) (D + sum_list (map (\<lambda>s. sg_to s - sg_from s) segs)) (foldl dwell_step acc segs)"
  using assms
proof (induction segs arbitrary: acc n D)
  case (Cons s segs)
  have "dwell_ok (Suc n) (D + (sg_to s - sg_from s)) (dwell_step acc s)"
    using dwell_step_ok[of n D "fst acc" "snd acc" s] Cons.prems by simp
  from Cons.IH[OF _ this] show ?case using Cons.prems by (simp add: add.assoc)
qed simp

section \<open>What the displays show\<close>

text \<open>C23: A lane's timeline is a faithful run-length picture of the observations: for a list of observations in time
  order, \<open>deriveSwimlaneSegments\<close> has one segment for every maximal run of equal values, in order; the first begins at
  the first observation, each begins where the one before ends, none is reversed, and the last ends at the later of the last
  observation and the end of the display. There are never gaps or overlaps.\<close>
theorem fsm_segments_partition:
  assumes "obs \<noteq> []" and "sorted (map ob_ts obs)"
  shows "map sg_value (deriveSwimlaneSegments obs k boundsEnd) = remdups_adj (map (lane k) obs) \<and>
    sg_from (hd (deriveSwimlaneSegments obs k boundsEnd)) = ob_ts (hd obs) \<and>
    sg_to (last (deriveSwimlaneSegments obs k boundsEnd)) = max (ob_ts (last obs)) boundsEnd \<and>
    successively (\<lambda>a b. sg_to a = sg_from b) (deriveSwimlaneSegments obs k boundsEnd) \<and>
    list_all (\<lambda>s. sg_from s \<le> sg_to s) (deriveSwimlaneSegments obs k boundsEnd)"
proof -
  have m: "meets = (\<lambda>a b. sg_to a = sg_from b)" by (intro ext) (simp add: meets_def)
  show ?thesis using segments_derived[OF assms, of k boundsEnd] by (simp add: segments_ok_def list_all_iff m)
qed

definition sample_obs :: "rat \<Rightarrow> string \<Rightarrow> observation" where
  "sample_obs ts ph =
     \<lparr>ob_ts = ts, ob_phase = ph, ob_turn = ''idle'', ob_decision = ''none'', ob_cascade = ''idle'', ob_compaction = ''none'',
      ob_breaker = ''clean''\<rparr>"

lemma fsm_segments_partition_witness:
  "map (\<lambda>s. (sg_value s, sg_from s, sg_to s))
     (deriveSwimlaneSegments [sample_obs 1 ''a'', sample_obs 3 ''a'', sample_obs 4 ''b''] L_phase 9) = [(''a'', 1, 4), (''b'', 4, 9)] \<and>
   successively (\<lambda>a b. sg_to a = sg_from b)
     (deriveSwimlaneSegments [sample_obs 1 ''a'', sample_obs 3 ''a'', sample_obs 4 ''b''] L_phase 9)"
  using fsm_segments_partition[of "[sample_obs 1 ''a'', sample_obs 3 ''a'', sample_obs 4 ''b'']" L_phase 9]
  by (simp add: sample_obs_def deriveSwimlaneSegments_def segment_step_def Let_def)

lemma sum_list_js_sort: "sum_list (map f (js_sort cmp xs)) = sum_list (map (f :: 'a \<Rightarrow> 'b::comm_monoid_add) xs)"
  by (metis mset_js_sort mset_map sum_mset_sum_list)

text \<open>The ends of segments are times of observations or the end of the display.\<close>

definition ends_in :: "rat set \<Rightarrow> swimlane_segment list \<Rightarrow> bool" where
  "ends_in T segs = (\<forall>s\<in>set segs. sg_from s \<in> T \<and> sg_to s \<in> T)"

lemma ends_in_extend: "ends_in T segs \<Longrightarrow> t \<in> T \<Longrightarrow> segs \<noteq> [] \<Longrightarrow> ends_in T (butlast segs @ [(last segs)\<lparr>sg_to := t\<rparr>])"
  by (cases segs rule: rev_cases) (simp_all add: ends_in_def)

lemma segment_step_ends: "ends_in T segs \<Longrightarrow> ob_ts x \<in> T \<Longrightarrow> ends_in T (segment_step k segs x)"
  using ends_in_extend[of T segs "ob_ts x"] by (cases "segs = []") (simp_all add: segment_step_def ends_in_def)

lemma segment_fold_ends: "ends_in T segs \<Longrightarrow> ob_ts ` set obs \<subseteq> T \<Longrightarrow> ends_in T (foldl (segment_step k) segs obs)"
  by (induction obs arbitrary: segs) (simp_all add: segment_step_ends)

lemma segment_ends: "ends_in (insert e (ob_ts ` set obs)) (deriveSwimlaneSegments obs k e)"
proof -
  have "ends_in (insert e (ob_ts ` set obs)) (foldl (segment_step k) [] obs)"
    by (intro segment_fold_ends) (auto simp: ends_in_def)
  then show ?thesis by (simp add: deriveSwimlaneSegments_def Let_def ends_in_extend)
qed

lemma segment_count: "obs \<noteq> [] \<Longrightarrow> sorted (map ob_ts obs) \<Longrightarrow> length (deriveSwimlaneSegments obs k e) \<le> length obs"
  using segments_derived[of obs k e] remdups_adj_length[of "map (lane k) obs"]
  by (metis length_map segments_ok_def)

lemma dwell_of_lane:
  assumes "obs \<noteq> []" and "sorted (map ob_ts obs)" and "list_all is_double (boundsEnd # map ob_ts obs)"
  shows "dwell_ok (Suc (length (deriveSwimlaneSegments obs k boundsEnd))) (max (ob_ts (last obs)) boundsEnd - ob_ts (hd obs))
    (foldl dwell_step ([], 0) (deriveSwimlaneSegments obs k boundsEnd))"
proof -
  let ?s = "deriveSwimlaneSegments obs k boundsEnd"
  note ok = segments_derived[OF assms(1,2), of k boundsEnd]
  have "on_grid x" if "x \<in> insert boundsEnd (ob_ts ` set obs)" for x using assms(3) that by (auto simp: list_all_iff on_grid_double)
  then have "list_all (\<lambda>s. sg_from s \<le> sg_to s \<and> on_grid (sg_from s) \<and> on_grid (sg_to s)) ?s"
    using segment_ends[of boundsEnd obs k] ok unfolding segments_ok_def list_all_iff ends_in_def by blast
  moreover have "dwell_ok 1 0 ([], 0)" by (simp add: dwell_ok_def value_sum_def is_double_def rounded_def)
  moreover have "sum_list (map (\<lambda>s. sg_to s - sg_from s) ?s) = max (ob_ts (last obs)) boundsEnd - ob_ts (hd obs)"
    using ok segments_length[of ?s] by (simp add: segments_ok_def)
  ultimately show ?thesis using dwell_fold[of ?s 1 0 "([], 0)"] by simp
qed

definition dwell_accounts :: "nat \<Rightarrow> rat \<Rightarrow> lane_dwell \<Rightarrow> bool" where
  "dwell_accounts n whole d =
     (rounded n whole (ld_totalSeconds d) \<and> rounded n whole (sum_list (map de_seconds (ld_entries d))) \<and>
      distinct (map de_value (ld_entries d)) \<and>
      list_all (\<lambda>x. 0 < de_seconds x \<and> de_seconds x \<le> ld_totalSeconds d \<and> 0 \<le> de_pct x \<and> de_pct x \<le> 100) (ld_entries d))"

lemma percent_bounds: "0 < t \<Longrightarrow> 0 \<le> s \<Longrightarrow> s \<le> t \<Longrightarrow> 0 \<le> fl64 (fl64 (s / t) * 100) \<and> fl64 (fl64 (s / t) * 100) \<le> 100"
  using fl64_mono[of "s / t" 1] fl64_nonneg[of "s / t"] fl64_mono[of "fl64 (s / t) * 100" 100] by (simp add: fl64_nonneg)

lemma lane_dwell_total:
  assumes "obs \<noteq> []" and "sorted (map ob_ts obs)" and "list_all is_double (e # map ob_ts obs)"
  shows "case lane_dwell_of lc obs e fk of
      None \<Rightarrow> max (ob_ts (last obs)) e = ob_ts (hd obs)
    | Some d \<Rightarrow> ld_laneKey d = snd fk \<and> ob_ts (hd obs) < max (ob_ts (last obs)) e \<and>
        dwell_accounts (Suc (length obs)) (max (ob_ts (last obs)) e - ob_ts (hd obs)) d"
proof -
  let ?D = "max (ob_ts (last obs)) e - ob_ts (hd obs)" and ?n = "Suc (length obs)"
  obtain m t where f: "foldl dwell_step ([], 0) (deriveSwimlaneSegments obs (snd fk) e) = (m, t)" by (metis surj_pair)
  have m: "distinct (map_keys m)" "\<forall>(v, s)\<in>set m. 0 < s \<and> s \<le> t" "m = [] \<longleftrightarrow> ?D = 0" "0 \<le> ?D"
    and r: "rounded (Suc (length (deriveSwimlaneSegments obs (snd fk) e))) ?D t"
      "rounded (Suc (length (deriveSwimlaneSegments obs (snd fk) e))) ?D (value_sum m)"
    using dwell_of_lane[OF assms, of "snd fk"] unfolding f dwell_ok_def by auto
  have n: "Suc (length (deriveSwimlaneSegments obs (snd fk) e)) \<le> ?n" using segment_count[OF assms(1,2)] by simp
  have R: "rounded ?n ?D t" "rounded ?n ?D (value_sum m)" using rounded_le[OF r(1) m(4) n] rounded_le[OF r(2) m(4) n] .
  show ?thesis
  proof (cases "m = []")
    case True
    then show ?thesis using f m(3) by (simp add: lane_dwell_of_def)
  next
    case False
    then obtain v s where "(v, s) \<in> set m" by (cases m) auto
    then have t: "0 < t" using m(2) by force
    have pct: "\<forall>(v, s)\<in>set m. 0 \<le> fl64 (fl64 (s / t) * 100) \<and> fl64 (fl64 (s / t) * 100) \<le> 100"
      using m(2) percent_bounds[OF t] by fastforce
    have keys: "map fst m = map_keys m" by simp
    have D: "ob_ts (hd obs) < max (ob_ts (last obs)) e" using m(3,4) False by linarith
    show ?thesis
      using False f m(1,2) t pct R keys D
      by (auto simp: lane_dwell_of_def Let_def dwell_accounts_def sum_list_js_sort distinct_map_js_sort o_def split_def
          list_all_iff value_sum_def)
  qed
qed

text \<open>C30: The dwell histograms account for all observed time, up to rounding: for observations in time order, their times and the
  end of the display being doubles, there is either one histogram for each of the six lanes, in their order, or, when no time has
  passed, none. Each lane's total, and the sum of its entries, one per state and all positive, differ from the whole time
  from the first observation to the end of the display by at most one rounding more than there are observations, each of one part in
  \<open>2 ^ 53\<close>; no entry is more than the total, and no percentage is outside 0 to 100. (Times are far from the overflow to
  infinity, which the rounding leaves out.)\<close>
theorem fsm_dwell_accounts:
  assumes "obs \<noteq> []" and "sorted (map ob_ts obs)" and "list_all is_double (boundsEnd # map ob_ts obs)"
  shows "map ld_laneKey (deriveLaneDwellHistograms lc obs boundsEnd) =
      (if ob_ts (hd obs) = max (ob_ts (last obs)) boundsEnd then [] else map snd TRANSITION_FIELDS) \<and>
    list_all (dwell_accounts (length obs + 1) (max (ob_ts (last obs)) boundsEnd - ob_ts (hd obs)))
      (deriveLaneDwellHistograms lc obs boundsEnd)"
proof -
  have lanes: "map ld_laneKey (List.map_filter (lane_dwell_of lc obs boundsEnd) fks) =
      (if ob_ts (hd obs) = max (ob_ts (last obs)) boundsEnd then [] else map snd fks)" for fks
  proof (induction fks)
    case (Cons fk fks)
    then show ?case using lane_dwell_total[OF assms, where lc = lc and fk = fk] by (auto simp: map_filter_simps split: option.splits)
  qed (simp add: map_filter_simps)
  show ?thesis
    using assms(1) lanes lane_dwell_total[OF assms, where lc = lc]
    by (fastforce simp: deriveLaneDwellHistograms_def list_all_iff map_filter_def split: option.splits)
qed

lemma fsm_dwell_accounts_witness:
  "map ld_laneKey (deriveLaneDwellHistograms (\<lambda>a b. 0) [sample_obs 1 ''a'', sample_obs 3 ''b''] 5) = map snd TRANSITION_FIELDS"
  using fsm_dwell_accounts[of "[sample_obs 1 ''a'', sample_obs 3 ''b'']" 5 "\<lambda>a b. 0"] by (simp add: sample_obs_def is_double_def)

text \<open>The single backward pass of \<open>deriveStateEntries\<close>, one observation, then all.\<close>

lemma entry_steps:
  "distinct ks \<Longrightarrow> set ks \<subseteq> set (map_keys (fst rs)) \<Longrightarrow>
   (case foldl (entry_step pn) rs ks of rs' \<Rightarrow>
      map_keys (fst rs') = map_keys (fst rs) \<and> set (snd rs') = set (snd rs) \<union> {k \<in> set ks. changes k pn} \<and>
      (\<forall>k. map_get (fst rs') k =
        (if k \<in> set ks \<and> k \<notin> set (snd rs) \<and> changes k pn then Some (ob_ts (snd pn)) else map_get (fst rs) k)))"
proof (induction ks arbitrary: rs)
  case (Cons k ks)
  have "set ks \<subseteq> set (map_keys (fst (entry_step pn rs k)))"
    using Cons.prems by (auto simp: entry_step_def)
  note ih = Cons.IH[OF _ this]
  have "map_keys (fst (entry_step pn rs k)) = map_keys (fst rs)"
    using Cons.prems(2) by (simp add: entry_step_def keys_update_in)
  then show ?case using ih Cons.prems by (auto simp: entry_step_def)
qed simp

lemma entry_scan_spec:
  assumes "map_keys (fst rs) = STATE_KEYS" and "k \<in> set STATE_KEYS"
  shows "map_keys (fst (entry_scan pns rs)) = STATE_KEYS \<and>
    map_get (fst (entry_scan pns rs)) k =
      (if k \<in> set (snd rs) then map_get (fst rs) k
       else case List.find (changes k) pns of Some pn \<Rightarrow> Some (ob_ts (snd pn)) | None \<Rightarrow> map_get (fst rs) k)"
  using assms
proof (induction pns arbitrary: rs)
  case (Cons pn pns)
  let ?rs = "foldl (entry_step pn) rs STATE_KEYS"
  have "distinct STATE_KEYS" by (simp add: STATE_KEYS_def)
  then have s: "map_keys (fst ?rs) = STATE_KEYS" "set (snd ?rs) = set (snd rs) \<union> {k \<in> set STATE_KEYS. changes k pn}"
    "map_get (fst ?rs) k = (if k \<notin> set (snd rs) \<and> changes k pn then Some (ob_ts (snd pn)) else map_get (fst rs) k)"
    using entry_steps[of STATE_KEYS rs pn] Cons.prems by simp_all
  have k: "k \<in> set (snd ?rs) \<longleftrightarrow> k \<in> set (snd rs) \<or> changes k pn" using s(2) Cons.prems(2) by auto
  show ?case
  proof (cases "set STATE_KEYS \<subseteq> set (snd ?rs)")
    case True
    then have e: "entry_scan (pn # pns) rs = ?rs" by (simp add: Let_def)
    have "k \<in> set (snd rs) \<or> changes k pn" using True k Cons.prems(2) by blast
    then show ?thesis unfolding e using s(1,3) by auto
  next
    case False
    then have e: "entry_scan (pn # pns) rs = entry_scan pns ?rs" by (simp add: Let_def)
    show ?thesis
      unfolding e using Cons.IH[OF s(1) Cons.prems(2)] s(3) k by (auto split: option.splits)
  qed
qed simp

text \<open>C32: The single backward pass agrees with the lane by lane reading: \<open>deriveStateEntries\<close>, which looks for the last change
  of five lanes at once and stops as soon as all are found, gives for every lane what \<open>laneChangedAt\<close> gives, for every list
  of observations, and nothing exactly when there are no observations.\<close>
theorem fsm_entries_agree:
  "deriveStateEntries obs =
     (if obs = [] then None else Some (map (\<lambda>k. (k, laneChangedAt obs k)) STATE_KEYS))"
proof (cases "obs = []")
  case False
  let ?init = "map (\<lambda>k. (k, ob_ts (hd obs))) STATE_KEYS"
  let ?m = "fst (entry_scan (rev (adjacent obs)) (?init, []))"
  have m0: "map_keys (fst (?init, [] :: lane_key list)) = STATE_KEYS" by (simp add: o_def)
  have get: "map_get ?m k = Some (laneChangedAt obs k)" if k: "k \<in> set STATE_KEYS" for k
    using conjunct2[OF entry_scan_spec[OF m0 k, of "rev (adjacent obs)"]] k False
    by (simp add: laneChangedAt_def map_of_map_restrict split: option.split)
  have keys: "map_keys ?m = STATE_KEYS"
    by (rule conjunct1[OF entry_scan_spec[OF m0, of L_phase]]) (simp add: STATE_KEYS_def)
  have d: "distinct STATE_KEYS" by (simp add: STATE_KEYS_def)
  have "(k, v) \<in> set ?m \<Longrightarrow> v = laneChangedAt obs k" for k v
    using get[of k] keys d by (metis Some_eq_map_of_iff image_eqI fst_conv list.set_map option.inject)
  then have "?m = map (\<lambda>p. (fst p, laneChangedAt obs (fst p))) ?m" by (intro nth_equalityI) (auto simp: set_conv_nth prod_eq_iff)
  also have "\<dots> = map (\<lambda>k. (k, laneChangedAt obs k)) (map_keys ?m)" by simp
  finally show ?thesis using False by (simp add: deriveStateEntries_def keys)
qed (simp add: deriveStateEntries_def)

section \<open>The history kept by the reducer\<close>

















definition sample_snapshot :: "string \<Rightarrow> string option \<Rightarrow> composite_snapshot" where
  "sample_snapshot ph brk =
     \<lparr>sn_phase = ph, sn_turn_phase = ''idle'', sn_decision_stage = ''none'', sn_cascade_state = ''idle'', sn_compaction_stage = ''none'',
      sn_circuit_breaker = brk, sn_invariants = \<lparr>iv_phase_turn_alignment = True, iv_no_cascade_before_measurement = True,
      iv_compaction_atomicity = False, iv_event_priority_monotone = True\<rparr>\<rparr>"


text \<open>A change of the circuit breaker alone is not observed: \<open>sameObservation\<close> compares five of the six lanes, so the
  breaker's lane shows the old state, and no transition, until another lane moves.\<close>
lemma fsm_breaker_change_lost:
  "hb_observations (foldl reduceHubState initialHubState
     [Fetch_succeeded ''k'' (sample_snapshot ''a'' None) 1, Fetch_succeeded ''k'' (sample_snapshot ''a'' (Some ''tripped'')) 2]) =
   [observeSnapshot (sample_snapshot ''a'' None) 1]"
  by (simp add: hub_current_def initialHubState_def sample_snapshot_def Let_def appendCompositeObservation_def observeSnapshot_def
      sameObservation_def last_n_def MAX_OBSERVATIONS_def breaker_state_def)

end
