(* ===== verification/Spec2Isabelle.thy ===== *)
theory Spec2Isabelle
  imports Id_Generator Portal_Manager Roving_Tabindex Tabs Task_Queue Layered_Overlay Toast_Manager
    Toolbar Menu Tree_View Split_Pane Agent_Presence Collaboration Keyboard_Shortcuts
    Inline_Suggestion Suggestion_Callbacks Tooltip Line_Ownership Thread_Rail Focus_Scope
    Ring_Buffer Fetch_Scheduler Highlight Diff_View Dashboard_Routes Router Dashboard_Parse Dashboard_Ws_Wire
    Keeper_Trace Run_Activity Async_Resource Interject Double Fsm_Hub
begin

text \<open>
  A verification development for the TypeScript code of the MASC dashboard. Its interaction core,
  \<open>dashboard/design-system/headless-core\<close>, is a set of framework-free controllers that hold the
  state of tab lists, menus, trees, toasts, task queues and the like, and that the Preact and Solid
  bindings render. Each controller is a closure over mutable variables that returns an object of
  methods; a theory here models one controller. Its data layer, \<open>dashboard/src\<close>, is modelled where it
  has state or algorithms of its own: the router, the websocket client that feeds the stores, the routes it
  subscribes for, the refresh scheduler, the sample buffers, the diff view and the highlighter.

  How the code is modelled.
  \<^item> The captured variables of \<open>createX\<close> are the fields of a record, \<open>createX\<close> is its initial value, and
    a method is a function from a state to the next state and the list of events it makes visible:
    snapshots sent to subscribers (\<open>Sent\<close>) and option callbacks called (\<open>Did\<close>), in the order of the
    calls. \<open>x_step\<close> applies one operation of the interface and \<open>run\<close> (theory \<open>Contracts\<close>) a list of them.
    A missing option callback ignores its event.
  \<^item> \<open>Map\<close> and \<open>Set\<close> keep insertion order: association lists and distinct lists (\<open>Prelude\<close>). Objects that
    are shared by reference, the listener sets held by disposers and the toast entries, live in an
    explicit heap. \<open>Object.freeze\<close> has no counterpart, values being immutable.
  \<^item> A timer is a pending field of the state and an operation \<open>timeout\<close> that fires it; the clock is an
    argument of the operations that read it. Promises are settled by an operation of their own.
  \<^item> Optional fields are \<open>option\<close>; unions of literals are datatypes; milliseconds, line numbers and indices
    are \<open>int\<close> or \<open>nat\<close>. Times, ratios and pixels are \<open>rat\<close>, exact rationals in the place of doubles, where the
    theorems only compare, copy or bound them; where sums and quotients matter (the hub's dwell times and
    ticks) every operation is rounded to a double, \<open>fl64\<close> of theory \<open>Double\<close>. 32-bit hashing is on \<open>32 word\<close>. Strings are lists of Latin-1 characters, and the locale's collation order is an argument
    about which only the laws of the locale \<open>comparator\<close> are assumed.

  The theories.
  \<^item> \<open>Prelude\<close>: Map, Set, \<open>findIndex\<close>, the stable sort and the comparator locale. \<open>Js_Text\<close>: numbers as
    text, trimming, splitting and joining. \<open>Contracts\<close>: listeners, events, runs, and the locales
    \<open>component\<close> (an invariant kept by every operation, so by every run) and \<open>observable\<close> (a subscriber
    that keeps its last snapshot is never stale), interpreted in the component theories.
  \<^item> \<open>Id_Generator\<close> (\<open>id-generator.ts\<close>), \<open>Portal_Manager\<close> (\<open>portal-manager.ts\<close>): generated ids and the
    stack of layers.
  \<^item> \<open>Roving_Tabindex\<close> (\<open>roving-tabindex.ts\<close>): the single tab stop of a list, arrow keys, typeahead. The
    locale \<open>roving\<close> states what its clients rely on. \<open>Tabs\<close>, \<open>Toolbar\<close>, \<open>Menu\<close> and \<open>Tree_View\<close> (\<open>tabs.ts\<close>,
    \<open>toolbar.ts\<close>, \<open>menu.ts\<close>, \<open>tree-view.ts\<close>) contain a rover and forward keys to it as the code does.
    Menus are trees of controllers, the visible rows of a tree view are an inductive relation that the
    code's walk is proved to compute, and the level of a row is a loop (\<open>partial_function\<close>).
  \<^item> \<open>Task_Queue\<close> (\<open>task-queue.ts\<close>): an insertion-ordered map of tasks with a bounded history, refining an
    abstract map. \<open>Layered_Overlay\<close> (\<open>layered-overlay.ts\<close>): layers with conflicts, and their query-string
    form. \<open>Toast_Manager\<close> (\<open>toast-manager.ts\<close>): the visible toasts, the waiting queue and the timers, with
    the reachable states as an inductive predicate. \<open>Split_Pane\<close> (\<open>split-pane.ts\<close>): the splitter ratio,
    with \<open>NaN\<close> as a value of its own. \<open>Agent_Presence\<close> (\<open>agent-presence.ts\<close>): the agent registry, the
    coalescer of presence updates and the activity summary.
  \<^item> \<open>Collaboration\<close> (\<open>collaboration.ts\<close>), on top of the presence model: selections, the conflict zones of a
    file as the maximal groups of linked zones, and the snapshot handler that decides which files are told.
    \<open>Line_Ownership\<close> (\<open>keeper-line-ownership.ts\<close>): the owner of a line against its definition as the latest
    edit. \<open>Thread_Rail\<close> (\<open>anchored-thread-rail.ts\<close>): the ordered threads of a file and the focused one;
    what the option callbacks answer is an environment that may change between calls.
    \<open>Inline_Suggestion\<close> (\<open>inline-suggestion.ts\<close>): proposals, their time to live, verdicts, and the
    controller of one suggestion, whose constructor may fail; there the callbacks return at once.
    \<open>Suggestion_Callbacks\<close> is the same manager with callbacks that call it: a stack of interrupted operations,
    which is the plain manager when every callback returns at once.
  \<^item> \<open>Keyboard_Shortcuts\<close> (\<open>keyboard-shortcuts.ts\<close>): the registry, chord matching and the precedence of
    dispatch. \<open>Tooltip\<close> (\<open>tooltip.ts\<close>, \<open>tooltip-manager.ts\<close>): tooltips as a list of controllers with their
    timers and the manager they call back and forth. \<open>Focus_Scope\<close> (\<open>focus-scope.ts\<close>): the focus trap;
    the document is a parameter (the container, its descendants with their attributes, what accepts
    focus), and so is the browser's default action of the Tab key, of which the ring property assumes
    that it moves between neighbours of the collected list (\<open>tab_order\<close>; not so with a positive tabindex).

  \<^item> The websocket client. \<open>Dashboard_Routes\<close> (\<open>refresh-scope.ts\<close>, \<open>tab-refresh.ts\<close>, the slices of
    \<open>dashboard-ws.ts\<close>): what a route subscribes to, refreshes and fetches. \<open>Dashboard_Parse\<close>
    (\<open>dashboard-ws-parse.ts\<close>): JSON values and event streams; \<open>JSON.parse\<close> is an argument of which nothing is
    assumed. \<open>Dashboard_Ws\<close> (\<open>dashboard-ws.ts\<close>): the module as a machine whose operations are the calls of
    the application and the events of the browser, in any order; the callbacks of promises are a queue, sockets
    and workers a heap. The stores it calls are effects, the schema check and what throws are arguments.
    \<open>Dashboard_Ws_Safety\<close> and \<open>Dashboard_Ws_Wire\<close> hold its invariant and properties.
  \<^item> The router. \<open>Url_Text\<close>: percent-encoding, UTF-8 and \<open>URLSearchParams\<close>, the library functions the router
    calls. \<open>Dashboard_Navigation\<close> (\<open>config/navigation.ts\<close>, \<open>cockpit-entrypoints.ts\<close>): the tables of surfaces,
    sections, redirects, modes and entry points, and the functions on them. \<open>Router\<close> (\<open>router.ts\<close>): canonical
    routes, parsing and serializing the hash, and the navigation functions as steps on the route, the hash and
    the queued \<open>hashchange\<close> events. Here strings are lists of UTF-8 bytes.
  \<^item> \<open>Fetch_Scheduler\<close> (\<open>lib/fetch-scheduler.ts\<close>): the two timers, the fetch in flight and the clock.
    \<open>Ring_Buffer\<close> (\<open>lib/ring-buffer.ts\<close>, \<open>lib/heartbeat-history.ts\<close>): the ring against the list of the newest
    items, and the bounded history. \<open>Highlight\<close> (\<open>lib/highlight-match.ts\<close>): occurrences, their merging and
    the parts. \<open>Diff_View\<close> (\<open>components/ide/ide-diff-view.ts\<close>): the two columns of a diff and its summary.
  \<^item> Stores. \<open>Async_Resource\<close> (\<open>lib/async-state.ts\<close>): the two resources the panels load through, their
    promises as calls that settle in any order. \<open>Keeper_Trace\<close> (\<open>components/ide/keeper-trace-store.ts\<close>): the
    trace of keeper events, coalesced, ordered and pruned. \<open>Run_Activity\<close> (\<open>components/ide/run-activity-store.ts\<close>):
    unchecked events, validated and inserted in order. \<open>Interject\<close> (\<open>components/ide/interject-store.ts\<close>): the
    action rail and its dispatches. \<open>Fsm_Hub\<close> (\<open>components/fsm-hub*.ts\<close>): the reducer that keeps the observed
    states of a keeper's machines with the numbered requests that feed it, and the timelines, dwell times and
    transitions derived from them. \<open>Double\<close>: rounding to a double, its laws and its error.

  What the lemmas show. For each controller: an invariant kept by every operation, carried to all runs
  by the locale; what the operations do on every branch that matters; that subscribers see the
  current state; and the places where the code departs from its own documents (the theorems named as
  findings). For the websocket client: one live socket, every call settled once, silence after a
  disconnect, attempts that do not end by themselves, and a handshake that connects. For the router: routes
  survive the address bar, which follows them, and deep links land. For the stores: the newest load wins, errors surface and do
  not stick, no event is lost or counted twice, appending one by one is seeding, and the displays of the hub account for
  all the time observed up to an explicit number of roundings. The loops are
  structural, bounded by the length of a list or given a measure (the matches of the highlighter, the rolling
  window, the queue of promise callbacks), so no fuel is needed apart from the level loop of the tree
  view, which is proved to return.

  Not modelled: the bindings, the rendering of the Preact components, the HTTP clients and their
  schema validators, the remaining signal stores (messages, board, sessions), and the OCaml server.
\<close>

end
